(* ===== verification/KPrelude.thy ===== *)
theory KPrelude
  imports Main "HOL-Library.Word" "HOL-Library.Monad_Syntax"
begin

text \<open>
  Shared vocabulary of the development: the kernel's machine integers as words, byte
  buffers as lists with bounds-checked accesses (an access outside a buffer is the value
  \<open>None\<close>), the error numbers of \<^verbatim>\<open>include/asm-generic/errno-base.h\<close>, the helpers of
  \<^verbatim>\<open>include/linux/log2.h\<close>, and the generic lemmas the component theories share.
\<close>

unbundle bit_operations_syntax

type_synonym u8 = "8 word"
type_synonym u16 = "16 word"
type_synonym u32 = "32 word"
type_synonym u64 = "64 word"
type_synonym bytes = "8 word list"

abbreviation (input) EPERM :: int where "EPERM \<equiv> 1"
abbreviation (input) ENOENT :: int where "ENOENT \<equiv> 2"
abbreviation (input) EIO :: int where "EIO \<equiv> 5"
abbreviation (input) EBUSY :: int where "EBUSY \<equiv> 16"
abbreviation (input) ENODEV :: int where "ENODEV \<equiv> 19"
abbreviation (input) ENOMEM :: int where "ENOMEM \<equiv> 12"
abbreviation (input) EFAULT :: int where "EFAULT \<equiv> 14"
abbreviation (input) EINVAL :: int where "EINVAL \<equiv> 22"

named_theorems buf_simps \<open>bounds-checked buffer accesses that succeed\<close>
named_theorems word_to_nat \<open>reading word arithmetic as natural numbers\<close>

subsection \<open>Byte buffers\<close>

definition mem_rd :: "'a list \<Rightarrow> nat \<Rightarrow> nat \<Rightarrow> 'a list option" where
  "mem_rd m off n = (if off + n \<le> length m then Some (take n (drop off m)) else None)"

definition mem_wr :: "'a list \<Rightarrow> nat \<Rightarrow> 'a list \<Rightarrow> 'a list option" where
  "mem_wr m off bs =
     (if off + length bs \<le> length m then Some (take off m @ bs @ drop (off + length bs) m)
      else None)"

lemma mem_rd_Some [buf_simps]: "off + n \<le> length m \<Longrightarrow> mem_rd m off n = Some (take n (drop off m))"
  by (simp add: mem_rd_def)

lemma mem_wr_Some [buf_simps]:
  "off + length bs \<le> length m \<Longrightarrow> mem_wr m off bs = Some (take off m @ bs @ drop (off + length bs) m)"
  by (simp add: mem_wr_def)

lemma mem_rd_length: "mem_rd m off n = Some bs \<Longrightarrow> length bs = n"
  by (auto simp: mem_rd_def split: if_splits)

lemma mem_wr_length: "mem_wr m off bs = Some m' \<Longrightarrow> length m' = length m"
  by (auto simp: mem_wr_def split: if_splits)

lemma mem_wr_rd: "mem_wr m off bs = Some m' \<Longrightarrow> mem_rd m' off (length bs) = Some bs"
  by (auto simp: mem_wr_def mem_rd_def split: if_splits)

subsection \<open>Powers of two (include/linux/log2.h)\<close>

definition is_power_of_2 :: "u32 \<Rightarrow> bool" where
  "is_power_of_2 n \<longleftrightarrow> n \<noteq> 0 \<and> n AND (n - 1) = 0"

lemma half_pred: "0 < m \<Longrightarrow> (2 * m - Suc 0) div 2 = m - Suc 0"
  by arith

lemma nat_and_pred_zero: "n \<noteq> 0 \<Longrightarrow> n AND (n - 1) = (0::nat) \<Longrightarrow> \<exists>k. n = 2 ^ k"
proof (induction n rule: less_induct)
  case (less n)
  show ?case
  proof (cases "even n")
    case True
    then obtain m where m: "n = 2 * m" by blast
    with less.prems have m0: "m \<noteq> 0" by simp
    have "n AND (n - 1) = 2 * (m AND (m - 1))"
      using m m0 by (subst and_rec) (auto simp: half_pred)
    with less.prems have "m AND (m - 1) = 0" by simp
    with less.IH [of m] m m0 obtain k where "m = 2 ^ k" by auto
    with m show ?thesis by (metis power_Suc)
  next
    case False
    then obtain m where m: "n = 2 * m + 1" using oddE by blast
    have "n AND (n - 1) = 2 * (m AND m)"
      using m by (subst and_rec) auto
    with less.prems have "m = 0" by simp
    with m show ?thesis by (intro exI [of _ 0]) simp
  qed
qed

lemma unat_eq_imp_of_nat: "unat (x :: 'a::len word) = n \<Longrightarrow> x = of_nat n"
  by auto

lemma unat_and_eq: "unat (x AND y :: 'a::len word) = unat x AND unat y"
  by (simp add: unsigned_and_eq)

lemma take_bit_or_push_drop_bit: "take_bit n a OR push_bit n (drop_bit n a) = (a::nat)"
proof (rule bit_eqI)
  fix i
  show "bit (take_bit n a OR push_bit n (drop_bit n a)) i \<longleftrightarrow> bit a i"
    by (cases "i < n") (auto simp: bit_simps)
qed

text \<open>Masking with a size less one is a remainder: the rule behind every ring index.\<close>

lemma unat_and_pow2_minus1 [word_to_nat]:
  assumes "unat (m :: 'a::len word) + 1 = 2 ^ k"
  shows "unat (x AND m) = unat x mod 2 ^ k"
proof -
  from assms have "unat m = mask k" by (simp add: mask_eq_exp_minus_1)
  then show ?thesis
    by (simp add: unat_and_eq take_bit_eq_mod flip: take_bit_eq_mask)
qed

lemma unat_add_mod_pow2:
  assumes "k \<le> LENGTH('a)"
  shows "unat (x + y :: 'a::len word) mod 2 ^ k = (unat x + unat y) mod 2 ^ k"
  using assms by (simp add: unat_word_ariths mod_mod_cancel le_imp_power_dvd)

lemma unat_mult_small [word_to_nat]:
  "unat x * unat y < 2 ^ LENGTH('a) \<Longrightarrow> unat (x * y :: 'a::len word) = unat x * unat y"
  by (simp add: unat_word_ariths)

lemma unat_add_small [word_to_nat]:
  "unat x + unat y < 2 ^ LENGTH('a) \<Longrightarrow> unat (x + y :: 'a::len word) = unat x + unat y"
  by (simp add: unat_word_ariths)

lemma unat_diff_small [word_to_nat]:
  "unat y \<le> unat x \<Longrightarrow> unat (x - y :: 'a::len word) = unat x - unat y"
  by (simp add: unat_sub word_le_nat_alt)

lemma unat_min: "unat (min x y :: 'a::len word) = min (unat x) (unat y)"
  by (simp add: min_def word_le_nat_alt)

lemma unat_lt_32: "unat (x :: u32) < 2 ^ 32"
  using unsigned_less [of x, where 'a = nat] by simp

lemma sint_small: "unat (w :: u32) < 2 ^ 31 \<Longrightarrow> sint w = int (unat w)"
proof -
  assume "unat w < 2 ^ 31"
  then have "int (unat w) < int (2 ^ 31)" by (simp only: of_nat_less_iff)
  then have "uint w < 2 ^ 31" by simp
  moreover have "- (2 ^ 31) \<le> uint w" by (rule order_trans [of _ 0]) simp_all
  ultimately have "signed_take_bit 31 (uint w) = uint w" by (intro signed_take_bit_int_eq_self)
  then show ?thesis by (simp add: sint_uint)
qed

lemma two_le_pow2: "k \<noteq> 0 \<Longrightarrow> (2::nat) \<le> 2 ^ k"
  by (cases k) auto

lemma unat_pow2: "k < 32 \<Longrightarrow> unat (2 ^ k :: u32) = 2 ^ k"
proof -
  assume "k < 32"
  then have "(2::nat) ^ k < 2 ^ 32" by (simp only: power_strict_increasing_iff)
  then have "unat (of_nat (2 ^ k) :: u32) = 2 ^ k" by (simp add: unat_of_nat del: of_nat_power)
  then show ?thesis by simp
qed

lemma is_power_of_2_iff: "is_power_of_2 n \<longleftrightarrow> (\<exists>k < 32. unat n = 2 ^ k)"
proof
  assume "is_power_of_2 n"
  then have n0: "n \<noteq> 0" and a: "n AND (n - 1) = 0" by (auto simp: is_power_of_2_def)
  from n0 have p: "unat (n - 1) = unat n - 1" by (simp add: unat_minus_one)
  have "unat n AND (unat n - 1) = 0"
    using a p by (metis unat_0 unat_and_eq)
  then obtain k where k: "unat n = 2 ^ k"
    using nat_and_pred_zero [of "unat n"] n0 by (auto simp: unat_eq_0)
  have "(2::nat) ^ k < 2 ^ 32" using k unat_lt_32 [of n] by simp
  then have "k < 32" by (simp only: power_strict_increasing_iff)
  with k show "\<exists>k < 32. unat n = 2 ^ k" by blast
next
  assume "\<exists>k < 32. unat n = 2 ^ k"
  then obtain k where k: "unat n = 2 ^ k" by blast
  then have n0: "n \<noteq> 0" by auto
  have "unat (n - 1) + 1 = 2 ^ k" using k n0 by (simp add: unat_minus_one)
  from unat_and_pow2_minus1 [OF this, of n] have "n AND (n - 1) = 0"
    using k by (simp add: unat_eq_0)
  with n0 show "is_power_of_2 n" by (simp add: is_power_of_2_def)
qed

text \<open>
  \<open>fls_long\<close> is the one-based position of the highest set bit, 0 for 0.
  \<open>rounddown_pow_of_two\<close> shifts by \<open>fls_long n - 1\<close>; at 0 the shift count is
  negative and C gives the expression no value, which is \<open>None\<close> here.
\<close>

fun fls_nat :: "nat \<Rightarrow> nat" where
  "fls_nat n = (if n = 0 then 0 else Suc (fls_nat (n div 2)))"

declare fls_nat.simps [simp del]

definition rounddown_pow_of_two :: "u32 \<Rightarrow> u32 option" where
  "rounddown_pow_of_two n = (if n = 0 then None else Some (push_bit (fls_nat (unat n) - 1) 1))"

lemma fls_nat_bounds: "n \<noteq> 0 \<Longrightarrow> 0 < fls_nat n \<and> 2 ^ (fls_nat n - 1) \<le> n \<and> n < 2 ^ fls_nat n"
proof (induction n rule: fls_nat.induct)
  case (1 n)
  show ?case
  proof (cases "n div 2 = 0")
    case True
    with "1.prems" have "n = 1" by auto
    then show ?thesis by (simp add: fls_nat.simps)
  next
    case False
    let ?m = "n div 2"
    from "1.IH" "1.prems" False
    have IH: "0 < fls_nat ?m" "2 ^ (fls_nat ?m - 1) \<le> ?m" "?m < 2 ^ fls_nat ?m" by auto
    from IH(1) obtain j where j: "fls_nat ?m = Suc j" by (cases "fls_nat ?m") auto
    have "fls_nat n = Suc (fls_nat ?m)" using "1.prems" by (simp add: fls_nat.simps)
    with IH j show ?thesis by auto
  qed
qed

lemma rounddown_pow_of_two_correct:
  assumes "n \<noteq> 0"
  obtains k where "k < 32" and "rounddown_pow_of_two n = Some (2 ^ k)"
    and "unat (2 ^ k :: u32) = 2 ^ k" and "2 ^ k \<le> unat n" and "unat n < 2 * 2 ^ k"
proof -
  let ?k = "fls_nat (unat n) - 1"
  from assms fls_nat_bounds [of "unat n"]
  have b: "0 < fls_nat (unat n)" "2 ^ ?k \<le> unat n" "unat n < 2 ^ fls_nat (unat n)"
    by (auto simp: unat_eq_0)
  have s: "fls_nat (unat n) = Suc ?k" using b(1) by simp
  have "(2::nat) ^ ?k < 2 ^ 32" using b(2) unat_lt_32 [of n] by linarith
  then have k: "?k < 32" by (simp only: power_strict_increasing_iff)
  have u: "unat (2 ^ ?k :: u32) = 2 ^ ?k"
    using k by (rule unat_pow2)
  show ?thesis
  proof (rule that [of ?k])
    show "unat n < 2 * 2 ^ ?k" using b(3) s by (metis power_Suc)
  qed (use k u b assms in \<open>simp_all add: rounddown_pow_of_two_def push_bit_eq_mult\<close>)
qed

subsection \<open>Aligning (include/linux/kernel.h)\<close>

lemma word32_eqI: "(\<And>i. i < 32 \<Longrightarrow> bit (v::u32) i = bit w i) \<Longrightarrow> v = w"
  by (rule bit_word_eqI) simp

lemma unat_align:
  assumes m: "unat (m::u32) + 1 = 2 ^ k" and x: "unat x + unat m < 2 ^ 32"
  shows "unat ((x + m) AND NOT m) = (unat x + unat m) div 2 ^ k * 2 ^ k"
proof -
  have k: "k \<le> 32"
  proof (rule ccontr)
    assume "\<not> k \<le> 32"
    then have "(2::nat) ^ 33 \<le> 2 ^ k" by (intro power_increasing) auto
    then show False using m unat_lt_32 [of m] by simp
  qed
  have mk: "m = mask k" using m by (intro unat_eq_imp_of_nat [of m "2 ^ k - 1", THEN trans])
    (auto simp: mask_eq_exp_minus_1 of_nat_diff)
  have "(x + m) AND NOT m = push_bit k (drop_bit k (x + m))"
    unfolding mk by (rule word32_eqI) (auto simp: bit_and_iff bit_not_iff bit_mask_iff bit_push_bit_iff bit_drop_bit_eq)
  then have "unat ((x + m) AND NOT m) = take_bit 32 (push_bit k (drop_bit k (unat (x + m))))"
    by (simp only: unsigned_push_bit_eq unsigned_drop_bit_eq) (use unat_lt_32 [of "x + m"] in \<open>simp add: take_bit_nat_eq_self\<close>)
  then have "unat ((x + m) AND NOT m) = take_bit 32 ((unat x + unat m) div 2 ^ k * 2 ^ k)"
    using unat_add_small [of x m] x by (simp add: push_bit_eq_mult drop_bit_eq_div)
  moreover have "(unat x + unat m) div 2 ^ k * 2 ^ k < 2 ^ 32"
    using x by (metis div_times_less_eq_dividend le_less_trans)
  ultimately show ?thesis by (simp add: take_bit_nat_eq_self)
qed

lemma aligned_ge: "2 ^ k dvd i \<Longrightarrow> x \<le> i \<Longrightarrow> (x + (2 ^ k - 1)) div 2 ^ k * 2 ^ k \<le> (i::nat)"
proof -
  assume "2 ^ k dvd i" "x \<le> i"
  then have "(x + (2 ^ k - 1)) div 2 ^ k \<le> i div 2 ^ k"
  proof -
    have "(x + (2 ^ k - 1)) div 2 ^ k \<le> (i + (2 ^ k - 1)) div 2 ^ k" using \<open>x \<le> i\<close> by (intro div_le_mono) simp
    also have "\<dots> = i div 2 ^ k" using div_plus_div_distrib_dvd_left [OF \<open>2 ^ k dvd i\<close>, of "2 ^ k - 1"]
      by (simp only: div_less [of "2 ^ k - 1" "2 ^ k"]) simp
    finally show ?thesis .
  qed
  then have "(x + (2 ^ k - 1)) div 2 ^ k * 2 ^ k \<le> i div 2 ^ k * 2 ^ k" by (rule mult_le_mono1)
  also have "\<dots> \<le> i" by simp
  finally show ?thesis .
qed

end
