(* ===== verification/Kfifo.thy ===== *)
theory Kfifo
  imports KPrelude
begin

text \<open>
  The generic kernel FIFO (\<^verbatim>\<open>kernel/kfifo.c\<close>): a ring buffer whose 32-bit counters
  \<open>in\<close> and \<open>out\<close> run freely and wrap, and whose size is a power of two so that masking
  a counter gives a ring index. Each C function \<open>__kfifo_x\<close> is the definition
  \<open>kfifo_x\<close>; a \<open>memcpy\<close> outside its buffer, a NULL buffer and a division by a zero
  element size are the value \<open>None\<close>, so that \<open>Some\<close> means that every access was in
  bounds. The refinement maps the ring to the list of queued bytes.
\<close>

subsection \<open>State (struct __kfifo)\<close>

record kfifo =
  kf_in :: u32
  kf_out :: u32
  kf_mask :: u32
  kf_esize :: u32
  kf_data :: "bytes option"

definition kfifo_unused :: "kfifo \<Rightarrow> u32" where
  "kfifo_unused f = (kf_mask f + 1) - (kf_in f - kf_out f)"

subsection \<open>Setting up\<close>

text \<open>\<open>kmalloc n\<close> is the allocator: a buffer, or \<open>None\<close> for NULL.\<close>

definition kfifo_alloc :: "(nat \<Rightarrow> bytes option) \<Rightarrow> kfifo \<Rightarrow> u32 \<Rightarrow> u32 \<Rightarrow> (int \<times> kfifo) option" where
  "kfifo_alloc kmalloc f size0 esize = do {
     size \<leftarrow> (if is_power_of_2 size0 then Some size0 else rounddown_pow_of_two size0);
     let f = f\<lparr>kf_in := 0, kf_out := 0, kf_esize := esize\<rparr>;
     if size < 2 then Some (- EINVAL, f\<lparr>kf_data := None, kf_mask := 0\<rparr>)
     else case kmalloc (unat (size * esize)) of
       None \<Rightarrow> Some (- ENOMEM, f\<lparr>kf_data := None, kf_mask := 0\<rparr>)
     | Some d \<Rightarrow> Some (0, f\<lparr>kf_data := Some d, kf_mask := size - 1\<rparr>)
   }"

definition kfifo_free :: "kfifo \<Rightarrow> kfifo" where
  "kfifo_free f = f\<lparr>kf_in := 0, kf_out := 0, kf_esize := 0, kf_data := None, kf_mask := 0\<rparr>"

definition kfifo_init :: "kfifo \<Rightarrow> bytes \<Rightarrow> u32 \<Rightarrow> u32 \<Rightarrow> (int \<times> kfifo) option" where
  "kfifo_init f buffer size0 esize = (if esize = 0 then None else do {
     let size1 = size0 div esize;
     size \<leftarrow> (if is_power_of_2 size1 then Some size1 else rounddown_pow_of_two size1);
     let f = f\<lparr>kf_in := 0, kf_out := 0, kf_esize := esize, kf_data := Some buffer\<rparr>;
     if size < 2 then Some (- EINVAL, f\<lparr>kf_mask := 0\<rparr>)
     else Some (0, f\<lparr>kf_mask := size - 1\<rparr>)
   })"

subsection \<open>Copying in and out of the ring\<close>

text \<open>
  The offset computation the four copy routines and \<open>setup_sgl\<close> begin with: byte offset
  of ring index \<open>off\<close>, byte length, and the length of the part before the end of the
  buffer.
\<close>

definition ring_span :: "kfifo \<Rightarrow> u32 \<Rightarrow> u32 \<Rightarrow> u32 \<times> u32 \<times> u32" where
  "ring_span f len off =
     (let size = kf_mask f + 1; esize = kf_esize f; off = off AND kf_mask f;
          (off, size, len) = (if esize \<noteq> 1 then (off * esize, size * esize, len * esize)
                              else (off, size, len))
      in (off, len, min len (size - off)))"

definition kfifo_copy_in :: "kfifo \<Rightarrow> bytes \<Rightarrow> u32 \<Rightarrow> u32 \<Rightarrow> kfifo option" where
  "kfifo_copy_in f src len off = (case ring_span f len off of (off, len, l) \<Rightarrow> do {
     data \<leftarrow> kf_data f;
     s1 \<leftarrow> mem_rd src 0 (unat l);
     data \<leftarrow> mem_wr data (unat off) s1;
     s2 \<leftarrow> mem_rd src (unat l) (unat (len - l));
     data \<leftarrow> mem_wr data 0 s2;
     Some (f\<lparr>kf_data := Some data\<rparr>)
   })"

definition kfifo_in :: "kfifo \<Rightarrow> bytes \<Rightarrow> u32 \<Rightarrow> (u32 \<times> kfifo) option" where
  "kfifo_in f buf len = (let l = kfifo_unused f; len = (if len > l then l else len) in do {
     f \<leftarrow> kfifo_copy_in f buf len (kf_in f);
     Some (len, f\<lparr>kf_in := kf_in f + len\<rparr>)
   })"

text \<open>The destination buffer of a read is the list of the bytes stored into it.\<close>

definition kfifo_copy_out :: "kfifo \<Rightarrow> u32 \<Rightarrow> u32 \<Rightarrow> bytes option" where
  "kfifo_copy_out f len off = (case ring_span f len off of (off, len, l) \<Rightarrow> do {
     data \<leftarrow> kf_data f;
     d1 \<leftarrow> mem_rd data (unat off) (unat l);
     d2 \<leftarrow> mem_rd data 0 (unat (len - l));
     Some (d1 @ d2)
   })"

definition kfifo_out_peek :: "kfifo \<Rightarrow> u32 \<Rightarrow> (u32 \<times> bytes) option" where
  "kfifo_out_peek f len = (let l = kf_in f - kf_out f; len = (if len > l then l else len) in do {
     dst \<leftarrow> kfifo_copy_out f len (kf_out f);
     Some (len, dst)
   })"

definition kfifo_out :: "kfifo \<Rightarrow> u32 \<Rightarrow> (u32 \<times> bytes \<times> kfifo) option" where
  "kfifo_out f len = do {
     (len, dst) \<leftarrow> kfifo_out_peek f len;
     Some (len, dst, f\<lparr>kf_out := kf_out f + len\<rparr>)
   }"

subsection \<open>User space\<close>

text \<open>
  \<open>cfu off n\<close> stands for \<open>copy_from_user\<close> of \<open>n\<close> bytes at user offset \<open>off\<close>: the
  number of bytes it could not copy, and the \<open>n\<close> bytes it leaves at the destination.
  \<open>ctu off bs\<close> stands for \<open>copy_to_user\<close>: the number of bytes it could not copy.
\<close>

type_synonym copy_from_user_fn = "nat \<Rightarrow> nat \<Rightarrow> u32 \<times> bytes"
type_synonym copy_to_user_fn = "nat \<Rightarrow> bytes \<Rightarrow> u32"

definition div_round_up :: "u32 \<Rightarrow> u32 \<Rightarrow> u32 option" where
  "div_round_up n d = (if d = 0 then None else Some ((n + d - 1) div d))"

definition kfifo_copy_from_user ::
    "copy_from_user_fn \<Rightarrow> kfifo \<Rightarrow> u32 \<Rightarrow> u32 \<Rightarrow> (u32 \<times> u32 \<times> kfifo) option" where
  "kfifo_copy_from_user cfu f len off = (case ring_span f len off of (off, len, l) \<Rightarrow> do {
     data \<leftarrow> kf_data f;
     let (ret, s1) = cfu 0 (unat l);
     data \<leftarrow> mem_wr data (unat off) s1;
     (ret, data) \<leftarrow>
       (if ret \<noteq> 0 then do {
          ret \<leftarrow> div_round_up (ret + len - l) (kf_esize f);
          Some (ret, data)
        } else do {
          let (ret, s2) = cfu (unat l) (unat (len - l));
          data \<leftarrow> mem_wr data 0 s2;
          ret \<leftarrow> (if ret \<noteq> 0 then div_round_up ret (kf_esize f) else Some ret);
          Some (ret, data)
        });
     Some (ret, len - ret, f\<lparr>kf_data := Some data\<rparr>)
   })"

definition kfifo_from_user ::
    "copy_from_user_fn \<Rightarrow> kfifo \<Rightarrow> u32 \<Rightarrow> (int \<times> u32 \<times> kfifo) option" where
  "kfifo_from_user cfu f len =
     (if kf_esize f = 0 then None else do {
        let len = (if kf_esize f \<noteq> 1 then len div kf_esize f else len);
        let l = kfifo_unused f;
        let len = (if len > l then l else len);
        (ret, copied, f) \<leftarrow> kfifo_copy_from_user cfu f len (kf_in f);
        let (err, len) = (if ret \<noteq> 0 then (- EFAULT, len - ret) else (0, len));
        Some (err, copied, f\<lparr>kf_in := kf_in f + len\<rparr>)
      })"

definition kfifo_copy_to_user ::
    "copy_to_user_fn \<Rightarrow> kfifo \<Rightarrow> u32 \<Rightarrow> u32 \<Rightarrow> (u32 \<times> u32 \<times> bytes) option" where
  "kfifo_copy_to_user ctu f len off = (case ring_span f len off of (off, len, l) \<Rightarrow> do {
     data \<leftarrow> kf_data f;
     d1 \<leftarrow> mem_rd data (unat off) (unat l);
     let ret = ctu 0 d1;
     if ret \<noteq> 0 then do {
       n \<leftarrow> div_round_up (ret + len - l) (kf_esize f);
       Some (n, len - n, take (length d1 - unat ret) d1)
     } else do {
       d2 \<leftarrow> mem_rd data 0 (unat (len - l));
       let ret = ctu (unat l) d2;
       n \<leftarrow> (if ret \<noteq> 0 then div_round_up ret (kf_esize f) else Some ret);
       Some (n, len - n, d1 @ take (length d2 - unat ret) d2)
     }
   })"

definition kfifo_to_user ::
    "copy_to_user_fn \<Rightarrow> kfifo \<Rightarrow> u32 \<Rightarrow> (int \<times> u32 \<times> bytes \<times> kfifo) option" where
  "kfifo_to_user ctu f len =
     (if kf_esize f = 0 then None else do {
        let len = (if kf_esize f \<noteq> 1 then len div kf_esize f else len);
        let l = kf_in f - kf_out f;
        let len = (if len > l then l else len);
        (ret, copied, dst) \<leftarrow> kfifo_copy_to_user ctu f len (kf_out f);
        let (err, len) = (if ret \<noteq> 0 then (- EFAULT, len - ret) else (0, len));
        Some (err, copied, dst, f\<lparr>kf_out := kf_out f + len\<rparr>)
      })"

subsection \<open>Records: every entry preceded by its length in one or two bytes\<close>

definition kfifo_max_r :: "u32 \<Rightarrow> nat \<Rightarrow> u32" where
  "kfifo_max_r len recsize = (let mx = push_bit (recsize * 8) 1 - 1 in if len > mx then mx else len)"

definition kfifo_peek_n :: "kfifo \<Rightarrow> nat \<Rightarrow> u32 option" where
  "kfifo_peek_n f recsize = do {
     data \<leftarrow> kf_data f;
     b0 \<leftarrow> mem_rd data (unat (kf_out f AND kf_mask f)) 1;
     let l = ucast (hd b0);
     if recsize \<noteq> 1 then do {
       b1 \<leftarrow> mem_rd data (unat ((kf_out f + 1) AND kf_mask f)) 1;
       Some (l OR push_bit 8 (ucast (hd b1)))
     } else Some l
   }"

definition kfifo_poke_n :: "kfifo \<Rightarrow> u32 \<Rightarrow> nat \<Rightarrow> kfifo option" where
  "kfifo_poke_n f n recsize = do {
     data \<leftarrow> kf_data f;
     data \<leftarrow> mem_wr data (unat (kf_in f AND kf_mask f)) [ucast n];
     data \<leftarrow> (if recsize > 1 then mem_wr data (unat ((kf_in f + 1) AND kf_mask f)) [ucast (drop_bit 8 n)]
              else Some data);
     Some (f\<lparr>kf_data := Some data\<rparr>)
   }"

definition kfifo_len_r :: "kfifo \<Rightarrow> nat \<Rightarrow> u32 option" where
  "kfifo_len_r f recsize = kfifo_peek_n f recsize"

definition kfifo_in_r :: "kfifo \<Rightarrow> bytes \<Rightarrow> u32 \<Rightarrow> nat \<Rightarrow> (u32 \<times> kfifo) option" where
  "kfifo_in_r f buf len recsize =
     (if len + of_nat recsize > kfifo_unused f then Some (0, f) else do {
        f \<leftarrow> kfifo_poke_n f len recsize;
        f \<leftarrow> kfifo_copy_in f buf len (kf_in f + of_nat recsize);
        Some (len, f\<lparr>kf_in := kf_in f + (len + of_nat recsize)\<rparr>)
      })"

definition kfifo_out_copy_r :: "kfifo \<Rightarrow> u32 \<Rightarrow> nat \<Rightarrow> (u32 \<times> u32 \<times> bytes) option" where
  "kfifo_out_copy_r f len recsize = do {
     n \<leftarrow> kfifo_peek_n f recsize;
     let len = (if len > n then n else len);
     dst \<leftarrow> kfifo_copy_out f len (kf_out f + of_nat recsize);
     Some (len, n, dst)
   }"

definition kfifo_out_peek_r :: "kfifo \<Rightarrow> u32 \<Rightarrow> nat \<Rightarrow> (u32 \<times> bytes) option" where
  "kfifo_out_peek_r f len recsize =
     (if kf_in f = kf_out f then Some (0, []) else do {
        (len, n, dst) \<leftarrow> kfifo_out_copy_r f len recsize;
        Some (len, dst)
      })"

definition kfifo_out_r :: "kfifo \<Rightarrow> u32 \<Rightarrow> nat \<Rightarrow> (u32 \<times> bytes \<times> kfifo) option" where
  "kfifo_out_r f len recsize =
     (if kf_in f = kf_out f then Some (0, [], f) else do {
        (len, n, dst) \<leftarrow> kfifo_out_copy_r f len recsize;
        Some (len, dst, f\<lparr>kf_out := kf_out f + (n + of_nat recsize)\<rparr>)
      })"

definition kfifo_skip_r :: "kfifo \<Rightarrow> nat \<Rightarrow> kfifo option" where
  "kfifo_skip_r f recsize = do {
     n \<leftarrow> kfifo_peek_n f recsize;
     Some (f\<lparr>kf_out := kf_out f + (n + of_nat recsize)\<rparr>)
   }"

definition kfifo_from_user_r ::
    "copy_from_user_fn \<Rightarrow> kfifo \<Rightarrow> u32 \<Rightarrow> nat \<Rightarrow> (int \<times> u32 \<times> kfifo) option" where
  "kfifo_from_user_r cfu f len recsize =
     (let len = kfifo_max_r len recsize in
      if len + of_nat recsize > kfifo_unused f then Some (0, 0, f) else do {
        f \<leftarrow> kfifo_poke_n f len recsize;
        (ret, copied, f) \<leftarrow> kfifo_copy_from_user cfu f len (kf_in f + of_nat recsize);
        if ret \<noteq> 0 then Some (- EFAULT, 0, f)
        else Some (0, copied, f\<lparr>kf_in := kf_in f + (len + of_nat recsize)\<rparr>)
      })"

definition kfifo_to_user_r ::
    "copy_to_user_fn \<Rightarrow> kfifo \<Rightarrow> u32 \<Rightarrow> nat \<Rightarrow> (int \<times> u32 \<times> bytes \<times> kfifo) option" where
  "kfifo_to_user_r ctu f len recsize =
     (if kf_in f = kf_out f then Some (0, 0, [], f) else do {
        n \<leftarrow> kfifo_peek_n f recsize;
        let len = (if len > n then n else len);
        (ret, copied, dst) \<leftarrow> kfifo_copy_to_user ctu f len (kf_out f + of_nat recsize);
        if ret \<noteq> 0 then Some (- EFAULT, 0, dst, f)
        else Some (0, copied, dst, f\<lparr>kf_out := kf_out f + (n + of_nat recsize)\<rparr>)
      })"

subsection \<open>Scatter lists for DMA\<close>

text \<open>
  \<open>phys v\<close> is the physical address of the page that holds virtual address \<open>v\<close>
  (\<open>page_to_phys (virt_to_page v)\<close>); \<open>room\<close> counts the entries of the scatter list from
  \<open>sgl\<close> on, so that \<open>sg_next\<close> is NULL after the last. Addresses and lengths are
  natural numbers: a kernel buffer ends below the top page of the address space.
\<close>

abbreviation PAGE_SIZE :: nat where "PAGE_SIZE \<equiv> 4096"

record sg_entry =
  sg_page :: nat
  sg_length :: nat
  sg_offset :: nat

function setup_sgl_loop ::
    "(nat \<Rightarrow> nat) \<Rightarrow> nat \<Rightarrow> nat \<Rightarrow> nat \<Rightarrow> nat \<Rightarrow> nat \<Rightarrow> nat \<Rightarrow> nat \<Rightarrow> nat \<Rightarrow> sg_entry list \<Rightarrow> sg_entry list" where
  "setup_sgl_loop phys nents room buf page n l off len acc =
     (if len + off \<ge> l + PAGE_SIZE then
        (let l = l + PAGE_SIZE; buf = buf + PAGE_SIZE; npage = phys buf in
         if page + l \<noteq> npage then
           (let acc = acc @ [\<lparr>sg_page = page, sg_length = l - off, sg_offset = off\<rparr>] in
            if n + 1 = nents \<or> n + 1 = room then acc
            else setup_sgl_loop phys nents room buf npage (n + 1) 0 0 (len - (l - off)) acc)
         else setup_sgl_loop phys nents room buf page n l off len acc)
      else acc @ [\<lparr>sg_page = page, sg_length = len, sg_offset = off\<rparr>])"
  by pat_completeness auto
termination
  by (relation "measure (\<lambda>(phys, nents, room, buf, page, n, l, off, len, acc). len + off - l)") auto

declare setup_sgl_loop.simps [simp del]

definition setup_sgl_buf :: "(nat \<Rightarrow> nat) \<Rightarrow> nat \<Rightarrow> nat \<Rightarrow> nat \<Rightarrow> nat \<Rightarrow> sg_entry list" where
  "setup_sgl_buf phys room buf nents len =
     (if nents = 0 then [] else if len = 0 then []
      else setup_sgl_loop phys nents room buf (phys buf) 0 0 (buf mod PAGE_SIZE) len [])"

definition setup_sgl :: "(nat \<Rightarrow> nat) \<Rightarrow> nat \<Rightarrow> nat \<Rightarrow> kfifo \<Rightarrow> nat \<Rightarrow> u32 \<Rightarrow> u32 \<Rightarrow> sg_entry list" where
  "setup_sgl phys base room f nents len off = (case ring_span f len off of (off, len, l) \<Rightarrow>
     let s1 = setup_sgl_buf phys room (base + unat off) nents (unat l);
         s2 = setup_sgl_buf phys (room - length s1) base (nents - length s1) (unat (len - l))
     in s1 @ s2)"

definition kfifo_dma_in_prepare :: "(nat \<Rightarrow> nat) \<Rightarrow> nat \<Rightarrow> nat \<Rightarrow> kfifo \<Rightarrow> nat \<Rightarrow> u32 \<Rightarrow> sg_entry list" where
  "kfifo_dma_in_prepare phys base room f nents len =
     (let l = kfifo_unused f; len = (if len > l then l else len)
      in setup_sgl phys base room f nents len (kf_in f))"

definition kfifo_dma_out_prepare :: "(nat \<Rightarrow> nat) \<Rightarrow> nat \<Rightarrow> nat \<Rightarrow> kfifo \<Rightarrow> nat \<Rightarrow> u32 \<Rightarrow> sg_entry list" where
  "kfifo_dma_out_prepare phys base room f nents len =
     (let l = kf_in f - kf_out f; len = (if len > l then l else len)
      in setup_sgl phys base room f nents len (kf_out f))"

definition kfifo_dma_in_prepare_r ::
    "(nat \<Rightarrow> nat) \<Rightarrow> nat \<Rightarrow> nat \<Rightarrow> kfifo \<Rightarrow> nat \<Rightarrow> u32 \<Rightarrow> nat \<Rightarrow> sg_entry list option" where
  "kfifo_dma_in_prepare_r phys base room f nents len recsize =
     (if nents = 0 then None
      else let len = kfifo_max_r len recsize in
        if len + of_nat recsize > kfifo_unused f then Some []
        else Some (setup_sgl phys base room f nents len (kf_in f + of_nat recsize)))"

definition kfifo_dma_in_finish_r :: "kfifo \<Rightarrow> u32 \<Rightarrow> nat \<Rightarrow> kfifo option" where
  "kfifo_dma_in_finish_r f len recsize = do {
     let len = kfifo_max_r len recsize;
     f \<leftarrow> kfifo_poke_n f len recsize;
     Some (f\<lparr>kf_in := kf_in f + (len + of_nat recsize)\<rparr>)
   }"

definition kfifo_dma_out_prepare_r ::
    "(nat \<Rightarrow> nat) \<Rightarrow> nat \<Rightarrow> nat \<Rightarrow> kfifo \<Rightarrow> nat \<Rightarrow> u32 \<Rightarrow> nat \<Rightarrow> sg_entry list option" where
  "kfifo_dma_out_prepare_r phys base room f nents len recsize =
     (if nents = 0 then None
      else let len = kfifo_max_r len recsize in
        if len + of_nat recsize > kf_in f - kf_out f then Some []
        else Some (setup_sgl phys base room f nents len (kf_out f + of_nat recsize)))"

definition kfifo_dma_out_finish_r :: "kfifo \<Rightarrow> nat \<Rightarrow> kfifo option" where
  "kfifo_dma_out_finish_r f recsize = do {
     len \<leftarrow> kfifo_peek_n f recsize;
     Some (f\<lparr>kf_out := kf_out f + (len + of_nat recsize)\<rparr>)
   }"

subsection \<open>Well-formedness and the queue a ring stands for\<close>

definition kf_cap :: "kfifo \<Rightarrow> nat" where
  "kf_cap f = unat (kf_mask f) + 1"

definition kf_len :: "kfifo \<Rightarrow> nat" where
  "kf_len f = unat (kf_in f - kf_out f)"

definition kfifo_wf :: "kfifo \<Rightarrow> bool" where
  "kfifo_wf f \<longleftrightarrow> is_power_of_2 (kf_mask f + 1) \<and> kf_mask f \<noteq> 0 \<and> kf_esize f \<noteq> 0
     \<and> (case kf_data f of None \<Rightarrow> False
        | Some d \<Rightarrow> length d = kf_cap f * unat (kf_esize f) \<and> length d < 2 ^ 32)
     \<and> kf_len f \<le> kf_cap f"

definition kf_bytes :: "kfifo \<Rightarrow> bytes" where
  "kf_bytes f = take (kf_len f * unat (kf_esize f))
     (rotate (unat (kf_out f) * unat (kf_esize f)) (case kf_data f of None \<Rightarrow> [] | Some d \<Rightarrow> d))"

lemma kfifo_wfE:
  assumes "kfifo_wf f"
  obtains k d es where "0 < k" "k < 32" "unat (kf_mask f) + 1 = 2 ^ k" "kf_cap f = 2 ^ k"
    "es = unat (kf_esize f)" "0 < es" "kf_data f = Some d" "length d = 2 ^ k * es"
    "2 ^ k * es < (2::nat) ^ 32" "kf_len f \<le> 2 ^ k"
proof -
  from assms obtain d where d: "kf_data f = Some d" "length d = kf_cap f * unat (kf_esize f)"
      "length d < 2 ^ 32" and p: "is_power_of_2 (kf_mask f + 1)" and m0: "kf_mask f \<noteq> 0"
      and e0: "kf_esize f \<noteq> 0" and len: "kf_len f \<le> kf_cap f"
    by (auto simp: kfifo_wf_def split: option.splits)
  from p have "kf_mask f + 1 \<noteq> 0" by (simp add: is_power_of_2_def)
  then have u: "unat (kf_mask f + 1) = unat (kf_mask f) + 1"
    by (metis Suc_eq_plus1 add.commute unatSuc)
  from p obtain k where k: "k < 32" "unat (kf_mask f) + 1 = 2 ^ k"
    using u by (auto simp: is_power_of_2_iff)
  have "k \<noteq> 0" using k m0 by (intro notI) (simp add: unat_eq_0)
  then show ?thesis
    using k d e0 len by (intro that [of k "unat (kf_esize f)" d]) (auto simp: kf_cap_def unat_gt_0)
qed

subsection \<open>Ring reads and writes as rotations\<close>

lemma ring_read:
  assumes "p < length d" "n \<le> length d" "l = min n (length d - p)"
  shows "take l (drop p d) @ take (n - l) d = take n (rotate p d)"
  using assms by (auto simp: rotate_drop_take min_def)

lemma ring_write:
  assumes p: "p < length d" and n: "length s = n" "n \<le> length d" and l: "l = min n (length d - p)"
    and d1: "d1 = take p d @ take l s @ drop (p + l) d"
    and d2: "d2 = drop l s @ drop (n - l) d1"
  shows "rotate p d2 = s @ drop n (rotate p d)" and "length d2 = length d"
proof -
  show len: "length d2 = length d" using assms by auto
  show "rotate p d2 = s @ drop n (rotate p d)"
  proof (cases "n \<le> length d - p")
    case True
    with assms have "d2 = take p d @ s @ drop (p + n) d" by simp
    then show ?thesis using p n True by (simp add: rotate_drop_take ac_simps)
  next
    case False
    with l have l': "l = length d - p" by simp
    then have "d1 = take p d @ take l s" using d1 p by simp
    then have d2': "d2 = (drop l s @ drop (n - l) (take p d)) @ take l s"
      using d2 n l' p False by simp
    have "length (drop l s @ drop (n - l) (take p d)) = p" using p n l' False by simp
    then have "rotate p d2 = take l s @ drop l s @ drop (n - l) (take p d)"
      unfolding d2' by (metis rotate_append)
    then show ?thesis using p n l' False by (simp add: rotate_drop_take)
  qed
qed

text \<open>Writing \<open>s\<close> just behind the first \<open>k\<close> bytes of a ring appends it to them.\<close>

lemma ring_append:
  assumes len: "length d2 = length d" and k: "k + length s \<le> length d"
    and w: "rotate (q + k) d2 = s @ drop (length s) (rotate (q + k) d)"
  shows "take (k + length s) (rotate q d2) = take k (rotate q d) @ s"
proof -
  let ?R = "rotate q d" and ?R' = "rotate q d2"
  have r: "rotate (q + k) xs = drop k (rotate q xs) @ take k (rotate q xs)" if "length xs = length d" for xs :: "'a list"
  proof (cases "k = length xs")
    case True
    then show ?thesis by (simp add: rotate_rotate [symmetric] add.commute rotate_conv_mod [of k])
  next
    case False
    with k that have "k < length xs" by simp
    then show ?thesis
      by (simp add: rotate_rotate [symmetric] add.commute rotate_drop_take [of k])
  qed
  have "drop k ?R' @ take k ?R' = s @ drop (length s) (drop k ?R @ take k ?R)"
    using w r [of d] r [of d2] len by simp
  then have "drop k ?R' @ take k ?R' = (s @ drop (k + length s) ?R) @ take k ?R"
    using k by (simp add: ac_simps)
  moreover have "length (take k ?R') = length (take k ?R)" using len by simp
  ultimately have "drop k ?R' = s @ drop (k + length s) ?R \<and> take k ?R' = take k ?R"
    by (meson append_eq_append_conv)
  then show ?thesis
    by (metis append_take_drop_id length_append take_add append_eq_conv_conj)
qed

lemma mod_mult_rotate:
  assumes "length d = cap * es"
  shows "rotate ((a mod cap) * es) d = rotate (a * es) d"
  using assms by (metis mod_mult_mult2 rotate_conv_mod)

lemma ring_span_wf:
  assumes wf: "kfifo_wf f" and len: "unat len \<le> kf_cap f"
  obtains d o' n l where "kf_data f = Some d" "ring_span f len off = (o', n, l)"
    "\<And>d' :: bytes. length d' = length d \<Longrightarrow> rotate (unat o') d' = rotate (unat off * unat (kf_esize f)) d'"
    "unat n = unat len * unat (kf_esize f)"
    "unat l = min (unat n) (length d - unat o')"
    "unat (n - l) = unat n - unat l" "unat o' < length d" "unat n \<le> length d"
proof -
  from wf obtain k d es where w: "0 < k" "k < 32" "unat (kf_mask f) + 1 = 2 ^ k" "kf_cap f = 2 ^ k"
    "es = unat (kf_esize f)" "0 < es" "kf_data f = Some d" "length d = 2 ^ k * es"
    "2 ^ k * es < (2::nat) ^ 32" "kf_len f \<le> 2 ^ k" by (rule kfifo_wfE)
  define oo where "oo = off AND kf_mask f"
  define m where "m = kf_mask f + 1"
  have "(2::nat) ^ k < 2 ^ 32" using w(2) by (simp only: power_strict_increasing_iff)
  then have um: "unat m = 2 ^ k" using w(3) by (simp add: m_def unat_add_small)
  have uo: "unat oo = unat off mod 2 ^ k" unfolding oo_def using w(3) by (rule unat_and_pow2_minus1)
  have oo_lt: "unat oo < 2 ^ k" by (simp add: uo)
  have e1: "unat (m * kf_esize f) = 2 ^ k * es"
    using um w by (simp add: unat_mult_small)
  have e2: "unat oo * es < 2 ^ k * es" using oo_lt w(6) by simp
  then have "unat oo * es < 2 ^ 32" using w(9) by linarith
  then have e2': "unat (oo * kf_esize f) = unat oo * es" using w(5) by (simp add: unat_mult_small)
  have e3: "unat len * es \<le> 2 ^ k * es" using len w(4) by simp
  then have "unat len * es < 2 ^ 32" using w(9) by linarith
  then have e3': "unat (len * kf_esize f) = unat len * es" using w(5) by (simp add: unat_mult_small)
  define O' N L where "O' = oo * kf_esize f" and "N = len * kf_esize f"
    and "L = min N (m * kf_esize f - O')"
  have span: "ring_span f len off = (O', N, L)"
    by (simp add: ring_span_def Let_def O'_def N_def L_def oo_def m_def)
  have uL: "unat L = min (unat N) (2 ^ k * es - unat O')"
    using e1 e2 e2' by (simp add: L_def unat_min unat_diff_small O'_def)
  have rot: "rotate (unat O') d' = rotate (unat off * unat (kf_esize f)) d'" if "length d' = length d" for d' :: bytes
    using that w e2' uo by (simp add: O'_def mod_mult_rotate)
  show ?thesis
  proof (rule that [OF w(7) span])
    show "rotate (unat O') d' = rotate (unat off * unat (kf_esize f)) d'" if "length d' = length d" for d' :: bytes
      using that by (rule rot)
    show "unat (N - L) = unat N - unat L" using uL by (simp add: unat_diff_small)
  qed (use uL uo e2 e2' e3 e3' w in \<open>simp_all add: O'_def N_def\<close>)
qed

subsection \<open>The copy routines, in bounds and correct\<close>

lemma kfifo_copy_out_wf:
  assumes wf: "kfifo_wf f" and len: "unat len \<le> kf_cap f"
  shows "kfifo_copy_out f len off =
    Some (take (unat len * unat (kf_esize f)) (rotate (unat off * unat (kf_esize f)) (the (kf_data f))))"
proof -
  obtain d o' n l where d: "kf_data f = Some d" and s: "ring_span f len off = (o', n, l)"
    and rot: "\<And>d' :: bytes. length d' = length d \<Longrightarrow> rotate (unat o') d' = rotate (unat off * unat (kf_esize f)) d'"
    and n: "unat n = unat len * unat (kf_esize f)" and l: "unat l = min (unat n) (length d - unat o')"
    and nl: "unat (n - l) = unat n - unat l" and b: "unat o' < length d" "unat n \<le> length d"
    using ring_span_wf [OF assms, of off] by metis
  have r: "take (unat l) (drop (unat o') d) @ take (unat n - unat l) d = take (unat n) (rotate (unat o') d)"
    using b l by (intro ring_read) auto
  have "unat o' + unat l \<le> length d" "unat n - unat l \<le> length d"
    using l b by linarith+
  then have "kfifo_copy_out f len off = Some (take (unat n) (rotate (unat o') d))"
    by (simp add: kfifo_copy_out_def s d nl r mem_rd_Some)
  then show ?thesis using rot [of d] by (simp add: n d)
qed

lemma kfifo_copy_in_wf:
  assumes wf: "kfifo_wf f" and len: "unat len \<le> kf_cap f"
    and src: "unat len * unat (kf_esize f) \<le> length src"
  obtains d' where "kfifo_copy_in f src len off = Some (f\<lparr>kf_data := Some d'\<rparr>)"
    and "length d' = length (the (kf_data f))"
    and "rotate (unat off * unat (kf_esize f)) d' = take (unat len * unat (kf_esize f)) src @
      drop (unat len * unat (kf_esize f)) (rotate (unat off * unat (kf_esize f)) (the (kf_data f)))"
proof -
  obtain d o' n l where d: "kf_data f = Some d" and s: "ring_span f len off = (o', n, l)"
    and rot: "\<And>d' :: bytes. length d' = length d \<Longrightarrow> rotate (unat o') d' = rotate (unat off * unat (kf_esize f)) d'"
    and n: "unat n = unat len * unat (kf_esize f)" and l: "unat l = min (unat n) (length d - unat o')"
    and nl: "unat (n - l) = unat n - unat l" and b: "unat o' < length d" "unat n \<le> length d"
    using ring_span_wf [OF wf len, of off] by metis
  define t where "t = take (unat n) src"
  have t: "length t = unat n" "take (unat l) src = take (unat l) t"
    "take (unat n - unat l) (drop (unat l) src) = drop (unat l) t"
    using l n src by (simp_all add: t_def drop_take)
  define d1 where "d1 = take (unat o') d @ take (unat l) t @ drop (unat o' + unat l) d"
  define d2 where "d2 = drop (unat l) t @ drop (unat n - unat l) d1"
  note rw = ring_write [OF b(1) t(1) b(2) l d1_def d2_def]
  have bb: "unat o' + unat l \<le> length d" "unat l \<le> unat n" "unat n \<le> length src"
    using l b n src by linarith+
  then have l1: "length d1 = length d" "length (take (unat l) t) = unat l"
      "length (drop (unat l) t) = unat n - unat l"
    using t(1) by (simp_all add: d1_def)
  have "mem_rd src 0 (unat l) = Some (take (unat l) t)"
    using bb t(2) by (simp add: mem_rd_Some)
  moreover have "mem_wr d (unat o') (take (unat l) t) = Some d1"
    using bb l1 by (simp add: mem_wr_Some d1_def)
  moreover have "mem_rd src (unat l) (unat n - unat l) = Some (drop (unat l) t)"
    using bb t(3) by (simp add: mem_rd_Some)
  moreover have "mem_wr d1 0 (drop (unat l) t) = Some d2"
    using b l1 by (simp add: mem_wr_Some d2_def)
  ultimately have "kfifo_copy_in f src len off = Some (f\<lparr>kf_data := Some d2\<rparr>)"
    by (simp add: kfifo_copy_in_def s d nl)
  with rw rot [of d2] rot [of d] show ?thesis
    by (intro that [of d2]) (simp_all add: d n t_def)
qed

lemma kf_bytes_Some: "kf_data f = Some d \<Longrightarrow>
  kf_bytes f = take (kf_len f * unat (kf_esize f)) (rotate (unat (kf_out f) * unat (kf_esize f)) d)"
  by (simp add: kf_bytes_def)

lemma kf_bytes_length: "kfifo_wf f \<Longrightarrow> length (kf_bytes f) = kf_len f * unat (kf_esize f)"
  by (auto simp: kf_bytes_Some elim!: kfifo_wfE)

lemma kfifo_unused_wf: "kfifo_wf f \<Longrightarrow> unat (kfifo_unused f) = kf_cap f - kf_len f"
proof -
  assume "kfifo_wf f"
  then obtain k d es where w: "k < 32" "unat (kf_mask f) + 1 = 2 ^ k" "kf_cap f = 2 ^ k" "kf_len f \<le> 2 ^ k"
    by (rule kfifo_wfE)
  have "(2::nat) ^ k < 2 ^ 32" using w(1) by (simp only: power_strict_increasing_iff)
  with w have "unat (kf_mask f + 1) = 2 ^ k" by (simp add: unat_add_small)
  with w show ?thesis by (simp add: kfifo_unused_def kf_len_def unat_diff_small)
qed

lemma kf_cap_lt: "kfifo_wf f \<Longrightarrow> kf_cap f < 2 ^ 32"
proof -
  assume "kfifo_wf f"
  then obtain k where "k < 32" "kf_cap f = 2 ^ k" by (rule kfifo_wfE)
  then show ?thesis by (simp only: power_strict_increasing_iff)
qed

text \<open>The ring position of the write counter is the read position plus the queue length.\<close>

lemma kf_in_pos:
  assumes wf: "kfifo_wf f" and d: "length d = kf_cap f * unat (kf_esize f)"
  shows "rotate ((unat (kf_in f) + a) * unat (kf_esize f)) d
       = rotate (unat (kf_out f) * unat (kf_esize f) + (kf_len f + a) * unat (kf_esize f)) d"
proof -
  let ?es = "unat (kf_esize f)"
  from wf obtain k where k: "k < 32" "kf_cap f = 2 ^ k" by (rule kfifo_wfE)
  have "unat (kf_in f) mod 2 ^ k = unat (kf_out f + (kf_in f - kf_out f)) mod 2 ^ k" by simp
  also have "\<dots> = (unat (kf_out f) + kf_len f) mod 2 ^ k"
    unfolding kf_len_def by (rule unat_add_mod_pow2) (use k in simp)
  finally have "(unat (kf_in f) + a) mod 2 ^ k = (unat (kf_out f) + kf_len f + a) mod 2 ^ k"
    by (metis mod_add_left_eq)
  then have "rotate ((unat (kf_in f) + a) * ?es) d = rotate ((unat (kf_out f) + kf_len f + a) * ?es) d"
    using mod_mult_rotate [of d "2 ^ k" ?es] d k by metis
  then show ?thesis by (simp add: algebra_simps)
qed

text \<open>
  Storing \<open>s\<close> (a whole number of elements) at the write position, behind \<open>a\<close> elements
  that are already there, extends what the ring shows from the read position.
\<close>

lemma kf_store_at_in:
  assumes wf: "kfifo_wf f" and d: "kf_data f = Some d" and len: "length d' = length d"
    and s: "length s = n * unat (kf_esize f)" and n: "kf_len f + a + n \<le> kf_cap f"
    and off: "unat off mod kf_cap f = (unat (kf_in f) + a) mod kf_cap f"
    and rot: "rotate (unat off * unat (kf_esize f)) d' = s @ drop (length s) (rotate (unat off * unat (kf_esize f)) d)"
  shows "take ((kf_len f + a + n) * unat (kf_esize f)) (rotate (unat (kf_out f) * unat (kf_esize f)) d')
    = take ((kf_len f + a) * unat (kf_esize f)) (rotate (unat (kf_out f) * unat (kf_esize f)) d) @ s"
proof -
  let ?es = "unat (kf_esize f)" and ?q = "unat (kf_out f) * unat (kf_esize f)"
  have ld: "length d = kf_cap f * ?es" using wf d by (auto simp: kfifo_wf_def)
  have move: "rotate (unat off * ?es) x = rotate (?q + (kf_len f + a) * ?es) x" if "length x = length d" for x :: bytes
  proof -
    have "rotate (unat off * ?es) x = rotate ((unat (kf_in f) + a) * ?es) x"
      using mod_mult_rotate [of x "kf_cap f" ?es] that ld off by metis
    with kf_in_pos [OF wf, of x] that ld show ?thesis by simp
  qed
  have "take ((kf_len f + a) * ?es + length s) (rotate ?q d') = take ((kf_len f + a) * ?es) (rotate ?q d) @ s"
  proof (rule ring_append [OF len])
    have "(kf_len f + a + n) * ?es \<le> kf_cap f * ?es" using n by (rule mult_le_mono1)
    then show "(kf_len f + a) * ?es + length s \<le> length d" using s ld by (simp add: algebra_simps)
    show "rotate (?q + (kf_len f + a) * ?es) d' = s @ drop (length s) (rotate (?q + (kf_len f + a) * ?es) d)"
      using rot move len by simp
  qed
  then show ?thesis using s by (simp add: algebra_simps)
qed

lemma kfifo_wf_advance:
  assumes "kfifo_wf f" "kf_data f = Some d" "length d' = length d"
    "kf_mask g = kf_mask f" "kf_esize g = kf_esize f" "kf_data g = Some d'" "kf_len g \<le> kf_cap f"
  shows "kfifo_wf g"
  using assms by (simp add: kfifo_wf_def kf_cap_def)

lemma kf_len_in: "kf_len f + unat len < 2 ^ 32 \<Longrightarrow> kf_len (f\<lparr>kf_in := kf_in f + len\<rparr>) = kf_len f + unat len"
proof -
  assume a: "kf_len f + unat len < 2 ^ 32"
  have "kf_len (f\<lparr>kf_in := kf_in f + len\<rparr>) = unat (kf_in f + len - kf_out f)" by (simp add: kf_len_def)
  also have "kf_in f + len - kf_out f = (kf_in f - kf_out f) + len" by simp
  also have "unat \<dots> = kf_len f + unat len"
    unfolding kf_len_def by (rule unat_add_small) (use a in \<open>simp add: kf_len_def\<close>)
  finally show ?thesis .
qed

lemma kf_len_out: "unat len \<le> kf_len f \<Longrightarrow> kf_len (f\<lparr>kf_out := kf_out f + len\<rparr>) = kf_len f - unat len"
proof -
  assume a: "unat len \<le> kf_len f"
  have "kf_len (f\<lparr>kf_out := kf_out f + len\<rparr>) = unat (kf_in f - (kf_out f + len))" by (simp add: kf_len_def)
  also have "kf_in f - (kf_out f + len) = (kf_in f - kf_out f) - len" by simp
  also have "unat \<dots> = kf_len f - unat len"
    unfolding kf_len_def by (rule unat_diff_small) (use a in \<open>simp add: kf_len_def\<close>)
  finally show ?thesis .
qed

lemma take_rotate_drop:
  assumes "a + b = c" "c \<le> length xs" shows "take b (rotate a xs) = drop a (take c xs)"
proof (cases "a = length xs")
  case True
  with assms show ?thesis by simp
next
  case False
  with assms have "a < length xs" by simp
  with assms show ?thesis by (simp add: rotate_drop_take take_drop add.commute)
qed

subsection \<open>Refinement: the ring is a bounded queue of bytes\<close>

lemma kfifo_in_correct:
  assumes wf: "kfifo_wf f" and buf: "min (unat len) (kf_cap f - kf_len f) * unat (kf_esize f) \<le> length buf"
  obtains f' n where "kfifo_in f buf len = Some (n, f')" and "kfifo_wf f'"
    and "unat n = min (unat len) (kf_cap f - kf_len f)"
    and "kf_bytes f' = kf_bytes f @ take (unat n * unat (kf_esize f)) buf"
    and "kf_len f' = kf_len f + unat n" and "kf_cap f' = kf_cap f" and "kf_esize f' = kf_esize f"
proof -
  let ?es = "unat (kf_esize f)"
  define n where "n = (if len > kfifo_unused f then kfifo_unused f else len)"
  have n: "unat n = min (unat len) (kf_cap f - kf_len f)"
    using kfifo_unused_wf [OF wf] by (auto simp: n_def word_less_nat_alt)
  have le: "kf_len f \<le> kf_cap f" using wf by (simp add: kfifo_wf_def)
  obtain d where d: "kf_data f = Some d" using wf by (rule kfifo_wfE)
  obtain d' where c: "kfifo_copy_in f buf n (kf_in f) = Some (f\<lparr>kf_data := Some d'\<rparr>)"
    and len': "length d' = length (the (kf_data f))"
    and rot: "rotate (unat (kf_in f) * ?es) d' = take (unat n * ?es) buf @
      drop (unat n * ?es) (rotate (unat (kf_in f) * ?es) (the (kf_data f)))"
    by (rule kfifo_copy_in_wf [OF wf, of n buf "kf_in f"]) (use n buf in auto)
  define g where "g = f\<lparr>kf_data := Some d'\<rparr>"
  define f' where "f' = g\<lparr>kf_in := kf_in g + n\<rparr>"
  have l': "kf_len f' = kf_len f + unat n"
    using kf_len_in [of g n] n le kf_cap_lt [OF wf] by (simp add: f'_def g_def kf_len_def)
  have wf': "kfifo_wf f'"
    by (rule kfifo_wf_advance [OF wf d, of d']) (use len' d l' n le in \<open>simp_all add: f'_def g_def\<close>)
  have sl: "length (take (unat n * ?es) buf) = unat n * ?es" using n buf by simp
  have "take ((kf_len f + 0 + unat n) * ?es) (rotate (unat (kf_out f) * ?es) d')
      = take ((kf_len f + 0) * ?es) (rotate (unat (kf_out f) * ?es) d) @ take (unat n * ?es) buf"
    by (rule kf_store_at_in [OF wf d, of d' _ _ _ "kf_in f"]) (use len' d sl n le rot in simp_all)
  then have "kf_bytes f' = kf_bytes f @ take (unat n * ?es) buf"
    using l' d by (simp add: kf_bytes_def f'_def g_def)
  moreover have "kfifo_in f buf len = Some (n, f')"
    using c by (simp add: kfifo_in_def n_def [symmetric] f'_def g_def Let_def)
  ultimately show ?thesis
    using that wf' n l' by (simp add: f'_def g_def kf_cap_def)
qed

lemma kfifo_out_correct:
  assumes wf: "kfifo_wf f"
  obtains f' n where "kfifo_out f len = Some (n, take (unat n * unat (kf_esize f)) (kf_bytes f), f')"
    and "kfifo_wf f'" and "unat n = min (unat len) (kf_len f)"
    and "kf_bytes f' = drop (unat n * unat (kf_esize f)) (kf_bytes f)"
    and "kf_len f' = kf_len f - unat n" and "kf_cap f' = kf_cap f" and "kf_esize f' = kf_esize f"
proof -
  let ?es = "unat (kf_esize f)"
  define n where "n = (if len > kf_in f - kf_out f then kf_in f - kf_out f else len)"
  have n: "unat n = min (unat len) (kf_len f)"
    by (auto simp: n_def word_less_nat_alt kf_len_def)
  have le: "kf_len f \<le> kf_cap f" using wf by (simp add: kfifo_wf_def)
  obtain d where d: "kf_data f = Some d" using wf by (rule kfifo_wfE)
  have ld: "length d = kf_cap f * ?es" using wf d by (auto simp: kfifo_wf_def)
  have out: "kfifo_copy_out f n (kf_out f) = Some (take (unat n * ?es) (kf_bytes f))"
    using kfifo_copy_out_wf [OF wf, of n "kf_out f"] n le d by (simp add: kf_bytes_def min_def mult_le_mono1)
  define f' where "f' = f\<lparr>kf_out := kf_out f + n\<rparr>"
  have l': "kf_len f' = kf_len f - unat n" using kf_len_out [of n f] n by (simp add: f'_def)
  have wf': "kfifo_wf f'"
    by (rule kfifo_wf_advance [OF wf d, of d]) (use d l' le in \<open>simp_all add: f'_def\<close>)
  obtain k where k: "k < 32" "kf_cap f = 2 ^ k" using wf by (rule kfifo_wfE)
  have "unat (kf_out f + n) mod 2 ^ k = (unat (kf_out f) + unat n) mod 2 ^ k"
    by (rule unat_add_mod_pow2) (use k in simp)
  then have "rotate (unat (kf_out f + n) * ?es) d = rotate ((unat (kf_out f) + unat n) * ?es) d"
    using mod_mult_rotate [of d "kf_cap f" ?es] ld k by metis
  also have "\<dots> = rotate (unat n * ?es) (rotate (unat (kf_out f) * ?es) d)"
    by (simp add: rotate_rotate algebra_simps)
  finally have "kf_bytes f' = take ((kf_len f - unat n) * ?es) (rotate (unat n * ?es) (rotate (unat (kf_out f) * ?es) d))"
    using d l' by (simp add: kf_bytes_def f'_def)
  also have "\<dots> = drop (unat n * ?es) (take (kf_len f * ?es) (rotate (unat (kf_out f) * ?es) d))"
    using ld n le by (intro take_rotate_drop) (auto intro: mult_le_mono1 simp: diff_mult_distrib)
  finally have "kf_bytes f' = drop (unat n * ?es) (kf_bytes f)" using d by (simp add: kf_bytes_def)
  moreover have "kfifo_out f len = Some (n, take (unat n * ?es) (kf_bytes f), f')"
    using out by (simp add: kfifo_out_def kfifo_out_peek_def n_def [symmetric] f'_def Let_def)
  ultimately show ?thesis
    using that wf' n l' by (simp add: f'_def kf_cap_def)
qed

subsection \<open>Record FIFOs\<close>

definition rec_hdr :: "nat \<Rightarrow> nat \<Rightarrow> bytes" where
  "rec_hdr recsize n = (if recsize = 1 then [of_nat n] else [of_nat n, of_nat (n div 256)])"

definition enc_rec :: "nat \<Rightarrow> bytes \<Rightarrow> bytes" where
  "enc_rec recsize r = rec_hdr recsize (length r) @ r"

definition rec_rel :: "nat \<Rightarrow> kfifo \<Rightarrow> bytes list \<Rightarrow> bool" where
  "rec_rel recsize f recs \<longleftrightarrow> kfifo_wf f \<and> kf_esize f = 1 \<and> recsize \<in> {1, 2}
     \<and> (\<forall>r \<in> set recs. length r < 256 ^ recsize) \<and> kf_bytes f = concat (map (enc_rec recsize) recs)"

lemma rec_hdr_length: "recsize \<in> {1, 2} \<Longrightarrow> length (rec_hdr recsize n) = recsize"
  by (auto simp: rec_hdr_def)

lemma kf_index:
  assumes wf: "kfifo_wf f" and es: "kf_esize f = 1" and d: "kf_data f = Some d"
  shows "unat (c AND kf_mask f) = unat c mod kf_cap f" and "unat c mod kf_cap f < length d"
    and "length d = kf_cap f" and "a < 2 \<Longrightarrow> unat (c + of_nat a) mod kf_cap f = (unat c + a) mod kf_cap f"
proof -
  obtain k where k: "k < 32" "unat (kf_mask f) + 1 = 2 ^ k" "kf_cap f = 2 ^ k" using wf by (rule kfifo_wfE)
  show "unat (c AND kf_mask f) = unat c mod kf_cap f"
    using unat_and_pow2_minus1 [OF k(2), of c] k(3) by simp
  show ld: "length d = kf_cap f" using wf d es by (auto simp: kfifo_wf_def)
  show "unat c mod kf_cap f < length d" using ld k by simp
  assume "a < 2"
  then have "unat (of_nat a :: u32) = a" by (simp add: unat_of_nat)
  then show "unat (c + of_nat a) mod kf_cap f = (unat c + a) mod kf_cap f"
    using unat_add_mod_pow2 [of k c "of_nat a"] k by simp
qed

lemma kf_data_update_wf:
  "kfifo_wf f \<Longrightarrow> kf_data f = Some d \<Longrightarrow> length d' = length d \<Longrightarrow> kfifo_wf (f\<lparr>kf_data := Some d'\<rparr>)"
  by (auto simp: kfifo_wf_def kf_cap_def kf_len_def)

lemma kf_poke_byte:
  assumes wf: "kfifo_wf f" and es: "kf_esize f = 1" and d: "kf_data f = Some d" and a: "a < 2"
    and room: "kf_len f + a + 1 \<le> kf_cap f"
  shows "\<exists>d'. mem_wr d (unat ((kf_in f + of_nat a) AND kf_mask f)) [b] = Some d' \<and> length d' = length d
    \<and> take (kf_len f + a + 1) (rotate (unat (kf_out f)) d') = take (kf_len f + a) (rotate (unat (kf_out f)) d) @ [b]"
proof -
  let ?c = "kf_in f + of_nat a" and ?p = "unat ((kf_in f + of_nat a) AND kf_mask f)"
  note ix = kf_index [OF wf es d]
  have p: "?p < length d" using ix(1,2) by metis
  define d' where "d' = take ?p d @ [b] @ drop (?p + 1) d"
  have len: "length d' = length d" using p by (simp add: d'_def)
  have "rotate ?p d' = [b] @ drop 1 (rotate ?p d)"
    by (rule ring_write(1) [of ?p d "[b]" 1 1 d' d']) (use p in \<open>auto simp: d'_def\<close>)
  moreover have "rotate ?p x = rotate (unat ?c) x" if "length x = length d" for x :: bytes
    using that ix(1) [of ?c] ix(3) by (metis rotate_conv_mod)
  ultimately have "rotate (unat ?c * unat (kf_esize f)) d' = [b] @ drop (length [b]) (rotate (unat ?c * unat (kf_esize f)) d)"
    using len es by simp
  then have "take ((kf_len f + a + 1) * unat (kf_esize f)) (rotate (unat (kf_out f) * unat (kf_esize f)) d')
      = take ((kf_len f + a) * unat (kf_esize f)) (rotate (unat (kf_out f) * unat (kf_esize f)) d) @ [b]"
    by (intro kf_store_at_in [OF wf d, of d' _ _ _ ?c]) (use es len room ix(4) [OF a] in simp_all)
  moreover have "mem_wr d ?p [b] = Some d'" using p by (simp add: mem_wr_Some d'_def)
  ultimately show ?thesis using len es by simp
qed

lemma kfifo_poke_n_correct:
  assumes wf: "kfifo_wf f" and es: "kf_esize f = 1" and rs: "recsize \<in> {1, 2}" and d: "kf_data f = Some d"
    and room: "kf_len f + recsize \<le> kf_cap f"
  obtains d' where "kfifo_poke_n f n recsize = Some (f\<lparr>kf_data := Some d'\<rparr>)" "length d' = length d"
    "take (kf_len f + recsize) (rotate (unat (kf_out f)) d') = kf_bytes f @ rec_hdr recsize (unat n)"
proof -
  have "unat (drop_bit 8 n) = unat n div 256" by (simp add: drop_bit_eq_div unat_div_distrib)
  then have b1: "ucast (drop_bit 8 n) = (of_nat (unat n div 256) :: u8)" by (metis of_nat_unat)
  obtain d1 where d1: "mem_wr d (unat (kf_in f AND kf_mask f)) [ucast n] = Some d1" "length d1 = length d"
      "take (kf_len f + 1) (rotate (unat (kf_out f)) d1) = take (kf_len f) (rotate (unat (kf_out f)) d) @ [ucast n]"
    using kf_poke_byte [OF wf es d, of 0 "ucast n"] rs room by auto
  show ?thesis
  proof (cases "recsize = 1")
    case True
    show ?thesis
      by (rule that [of d1]) (use True d d1 es in \<open>simp_all add: kfifo_poke_n_def kf_bytes_def rec_hdr_def\<close>)
  next
    case False
    with rs have r2: "recsize = 2" by simp
    let ?g = "f\<lparr>kf_data := Some d1\<rparr>"
    have wg: "kfifo_wf ?g" using kf_data_update_wf [OF wf d d1(2)] .
    have same: "kf_len ?g = kf_len f" "kf_cap ?g = kf_cap f" by (simp_all add: kf_len_def kf_cap_def)
    obtain d2 where d2: "mem_wr d1 (unat ((kf_in f + 1) AND kf_mask f)) [ucast (drop_bit 8 n)] = Some d2"
        "length d2 = length d1"
        "take (kf_len f + 1 + 1) (rotate (unat (kf_out f)) d2)
           = take (kf_len f + 1) (rotate (unat (kf_out f)) d1) @ [ucast (drop_bit 8 n)]"
      using kf_poke_byte [OF wg, of d1 1 "ucast (drop_bit 8 n)"] same es room r2 by auto
    show ?thesis
      by (rule that [of d2])
        (use r2 d d1 d2 es b1 in \<open>simp_all add: kfifo_poke_n_def kf_bytes_def rec_hdr_def\<close>)
  qed
qed

lemma rec_rel_len: "rec_rel recsize f recs \<Longrightarrow> kf_len f = length (concat (map (enc_rec recsize) recs))"
  using kf_bytes_length [of f] by (simp add: rec_rel_def)

lemma kfifo_in_r_correct:
  assumes R: "rec_rel recsize f recs" and r: "length r < 256 ^ recsize" and len: "unat len = length r"
    and fits: "kf_len f + recsize + length r \<le> kf_cap f"
  obtains f' where "kfifo_in_r f r len recsize = Some (len, f')" and "rec_rel recsize f' (recs @ [r])"
    and "kf_cap f' = kf_cap f"
proof -
  from R have wf: "kfifo_wf f" and es: "kf_esize f = 1" and rs: "recsize \<in> {1, 2}"
    and bytes: "kf_bytes f = concat (map (enc_rec recsize) recs)" by (auto simp: rec_rel_def)
  obtain d where d: "kf_data f = Some d" using wf by (rule kfifo_wfE)
  have ur: "unat (of_nat recsize :: u32) = recsize" using rs by auto
  have ul: "unat (len + of_nat recsize) = length r + recsize"
    using fits kf_cap_lt [OF wf] len ur by (simp add: unat_add_small)
  have go: "\<not> len + of_nat recsize > kfifo_unused f"
    using fits ul by (simp add: word_less_nat_alt kfifo_unused_wf [OF wf])
  obtain d1 where p: "kfifo_poke_n f len recsize = Some (f\<lparr>kf_data := Some d1\<rparr>)" "length d1 = length d"
      "take (kf_len f + recsize) (rotate (unat (kf_out f)) d1) = kf_bytes f @ rec_hdr recsize (unat len)"
    by (rule kfifo_poke_n_correct [OF wf es rs d, of len]) (use fits in simp_all)
  define g where "g = f\<lparr>kf_data := Some d1\<rparr>"
  have wg: "kfifo_wf g" using kf_data_update_wf [OF wf d p(2)] by (simp add: g_def)
  have g: "kf_len g = kf_len f" "kf_cap g = kf_cap f" "kf_esize g = 1" "kf_in g = kf_in f"
    "kf_out g = kf_out f" "kf_data g = Some d1" using es by (simp_all add: g_def kf_len_def kf_cap_def)
  let ?c = "kf_in g + of_nat recsize"
  have c: "unat ?c mod kf_cap f = (unat (kf_in f) + recsize) mod kf_cap f"
  proof -
    obtain k where k: "k < 32" "kf_cap f = 2 ^ k" using wf by (rule kfifo_wfE)
    show ?thesis using unat_add_mod_pow2 [of k "kf_in f" "of_nat recsize"] k ur g(4) by simp
  qed
  have cap: "unat len \<le> kf_cap g" "unat len * unat (kf_esize g) \<le> length r" using fits len g by simp_all
  obtain d2 where q: "kfifo_copy_in g r len ?c = Some (g\<lparr>kf_data := Some d2\<rparr>)" "length d2 = length d1"
      "rotate (unat ?c * unat (kf_esize g)) d2 = r @ drop (length r) (rotate (unat ?c * unat (kf_esize g)) d1)"
    using kfifo_copy_in_wf [OF wg cap, of ?c] len g by auto
  have st: "take (kf_len f + recsize + length r) (rotate (unat (kf_out f)) d2)
      = take (kf_len f + recsize) (rotate (unat (kf_out f)) d1) @ r"
    using kf_store_at_in [OF wg g(6) q(2), of r "length r" recsize ?c] g fits c q(3) by simp
  define f' where "f' = f\<lparr>kf_data := Some d2, kf_in := kf_in f + (len + of_nat recsize)\<rparr>"
  have lf: "kf_len f' = kf_len f + recsize + length r"
    using kf_len_in [of f "len + of_nat recsize"] ul fits kf_cap_lt [OF wf] by (simp add: f'_def kf_len_def)
  have wf': "kfifo_wf f'"
    by (rule kfifo_wf_advance [OF wf d, of d2]) (use p q lf fits in \<open>simp_all add: f'_def\<close>)
  have "kf_bytes f' = concat (map (enc_rec recsize) (recs @ [r]))"
    using lf st p(3) len bytes es by (simp add: kf_bytes_def f'_def enc_rec_def)
  then have "rec_rel recsize f' (recs @ [r])"
    using R r wf' es by (simp add: rec_rel_def f'_def)
  moreover have "kfifo_in_r f r len recsize = Some (len, f')"
    using go p(1) q(1) by (simp add: kfifo_in_r_def f'_def g_def)
  ultimately show ?thesis using that by (simp add: f'_def kf_cap_def)
qed

lemma kfifo_in_r_full:
  assumes R: "rec_rel recsize f recs" and len: "unat len < 256 ^ recsize"
    and full: "kf_cap f < kf_len f + recsize + unat len"
  shows "kfifo_in_r f r len recsize = Some (0, f)"
proof -
  from R have wf: "kfifo_wf f" and rs: "recsize \<in> {1, 2}" by (auto simp: rec_rel_def)
  have "unat (len + of_nat recsize) = unat len + recsize" using rs len by (auto simp: unat_add_small)
  then have "kfifo_unused f < len + of_nat recsize"
    using full rs by (auto simp: word_less_nat_alt kfifo_unused_wf [OF wf])
  then show ?thesis
    by (simp add: kfifo_in_r_def)
qed

text \<open>Byte \<open>i\<close> of the queue, as the header reads it.\<close>

lemma kf_read_byte:
  assumes wf: "kfifo_wf f" and es: "kf_esize f = 1" and d: "kf_data f = Some d" and i: "i < kf_len f" "i < 2"
  shows "mem_rd d (unat ((kf_out f + of_nat i) AND kf_mask f)) 1 = Some [kf_bytes f ! i]"
proof -
  note ix = kf_index [OF wf es d]
  have le: "kf_len f \<le> length d" using wf ix(3) by (simp add: kfifo_wf_def)
  let ?p = "unat ((kf_out f + of_nat i) AND kf_mask f)"
  have p: "?p = (unat (kf_out f) + i) mod length d" using ix(1,3) ix(4) [OF i(2)] by metis
  have pl: "?p < length d" using ix(1,2) by metis
  have "kf_bytes f ! i = d ! ?p" using i d es le p by (simp add: kf_bytes_def nth_rotate)
  moreover have "take 1 (drop ?p d) = [d ! ?p]" using pl by (simp flip: Cons_nth_drop_Suc)
  ultimately show ?thesis using pl by (simp add: mem_rd_def)
qed

lemma kfifo_peek_n_correct:
  assumes R: "rec_rel recsize f (r # recs)"
  obtains n where "kfifo_peek_n f recsize = Some n" and "unat n = length r"
proof -
  from R have wf: "kfifo_wf f" and es: "kf_esize f = 1" and rs: "recsize \<in> {1, 2}"
    and r: "length r < 256 ^ recsize"
    and b: "kf_bytes f = rec_hdr recsize (length r) @ r @ concat (map (enc_rec recsize) recs)"
    by (auto simp: rec_rel_def enc_rec_def)
  obtain d where d: "kf_data f = Some d" using wf by (rule kfifo_wfE)
  have l: "recsize \<le> kf_len f" using kf_bytes_length [OF wf] b es rec_hdr_length [OF rs] by simp
  have b0: "mem_rd d (unat (kf_out f AND kf_mask f)) 1 = Some [kf_bytes f ! 0]"
    using kf_read_byte [OF wf es d, of 0] l rs by auto
  show ?thesis
  proof (cases "recsize = 1")
    case True
    show ?thesis
      by (rule that [of "ucast (of_nat (length r) :: u8)"])
        (use True d b0 b r in \<open>simp_all add: kfifo_peek_n_def rec_hdr_def unat_of_nat unsigned_ucast_eq take_bit_eq_mod\<close>)
  next
    case False
    with rs have r2: "recsize = 2" by simp
    have b1: "mem_rd d (unat ((kf_out f + 1) AND kf_mask f)) 1 = Some [kf_bytes f ! 1]"
      using kf_read_byte [OF wf es d, of 1] l r2 by auto
    let ?lo = "ucast (of_nat (length r) :: u8) :: u32" and ?hi = "ucast (of_nat (length r div 256) :: u8) :: u32"
    have "unat (?lo OR push_bit 8 ?hi) = length r"
    proof -
      have lo: "unat ?lo = length r mod 256" and hi: "unat ?hi = length r div 256"
        using r r2 by (simp_all add: unsigned_ucast_eq take_bit_eq_mod unat_of_nat)
      have "unat (push_bit 8 ?hi) = length r div 256 * 256"
        using r r2 hi by (simp add: push_bit_eq_mult unat_mult_small)
      then have "unat (?lo OR push_bit 8 ?hi) = (length r mod 256) OR (push_bit 8 (length r div 256))"
        using lo by (simp add: unsigned_or_eq push_bit_eq_mult)
      also have "\<dots> = take_bit 8 (length r) OR push_bit 8 (drop_bit 8 (length r))"
        by (simp add: take_bit_eq_mod drop_bit_eq_div)
      also have "\<dots> = length r" by (rule take_bit_or_push_drop_bit)
      finally show ?thesis .
    qed
    moreover have "kfifo_peek_n f recsize = Some (?lo OR push_bit 8 ?hi)"
      using r2 d b0 b1 b by (simp add: kfifo_peek_n_def rec_hdr_def)
    ultimately show ?thesis by (rule that [rotated])
  qed
qed

lemma kfifo_out_copy_r_correct:
  assumes R: "rec_rel recsize f (r # recs)"
  obtains n m where "kfifo_out_copy_r f len recsize = Some (m, n, take (unat len) r)"
    and "unat n = length r" and "unat m = min (unat len) (length r)"
proof -
  from R have wf: "kfifo_wf f" and es: "kf_esize f = 1" and rs: "recsize \<in> {1, 2}"
    and b: "kf_bytes f = rec_hdr recsize (length r) @ r @ concat (map (enc_rec recsize) recs)"
    by (auto simp: rec_rel_def enc_rec_def)
  obtain d where d: "kf_data f = Some d" using wf by (rule kfifo_wfE)
  obtain n where n: "kfifo_peek_n f recsize = Some n" "unat n = length r"
    using R by (rule kfifo_peek_n_correct)
  define m where "m = (if len > n then n else len)"
  have m: "unat m = min (unat len) (length r)" using n(2) by (auto simp: m_def word_less_nat_alt)
  have l: "kf_len f = length (kf_bytes f)" using kf_bytes_length [OF wf] es by simp
  then have lr: "recsize + length r \<le> kf_len f" using b rec_hdr_length [OF rs] by simp
  have le: "kf_len f \<le> kf_cap f" using wf by (simp add: kfifo_wf_def)
  have ld: "length d = kf_cap f" using kf_index(3) [OF wf es d] .
  let ?c = "kf_out f + of_nat recsize"
  obtain k where k: "k < 32" "kf_cap f = 2 ^ k" using wf by (rule kfifo_wfE)
  have ur: "unat (of_nat recsize :: u32) = recsize" using rs by auto
  have "unat ?c mod kf_cap f = (unat (kf_out f) + recsize) mod kf_cap f"
    using unat_add_mod_pow2 [of k "kf_out f" "of_nat recsize"] k ur by simp
  then have "rotate (unat ?c) d = rotate recsize (rotate (unat (kf_out f)) d)"
    using ld by (metis rotate_conv_mod rotate_rotate add.commute)
  then have "take (unat m) (rotate (unat ?c) d) = drop recsize (take (recsize + unat m) (rotate (unat (kf_out f)) d))"
    using lr le ld m by (simp add: take_rotate_drop)
  also have "take (recsize + unat m) (rotate (unat (kf_out f)) d) = take (recsize + unat m) (kf_bytes f)"
    using d es lr m by (simp add: kf_bytes_def)
  also have "drop recsize \<dots> = take (unat len) r"
    using m b rec_hdr_length [OF rs, of "length r"] by (simp add: drop_take min_def)
  finally have "kfifo_copy_out f m ?c = Some (take (unat len) r)"
    using kfifo_copy_out_wf [OF wf, of m ?c] m lr le d es by simp
  then have "kfifo_out_copy_r f len recsize = Some (m, n, take (unat len) r)"
    using n(1) by (simp add: kfifo_out_copy_r_def m_def [symmetric])
  then show ?thesis using that n(2) m by blast
qed

text \<open>Stepping the read counter over the first record drops it from the queue.\<close>

lemma rec_rel_advance:
  assumes R: "rec_rel recsize f (r # recs)" and n: "unat n = length r"
  shows "rec_rel recsize (f\<lparr>kf_out := kf_out f + (n + of_nat recsize)\<rparr>) recs"
proof -
  from R have wf: "kfifo_wf f" and es: "kf_esize f = 1" and rs: "recsize \<in> {1, 2}"
    and b: "kf_bytes f = enc_rec recsize r @ concat (map (enc_rec recsize) recs)"
    and rr: "\<forall>r \<in> set recs. length r < 256 ^ recsize" and r: "length r < 256 ^ recsize"
    by (auto simp: rec_rel_def)
  define m where "m = n + of_nat recsize"
  have l: "kf_len f = length (kf_bytes f)" using kf_bytes_length [OF wf] es by simp
  have ur: "unat (of_nat recsize :: u32) = recsize" using rs by auto
  have m: "unat m = length (enc_rec recsize r)"
    using rs n r ur rec_hdr_length [OF rs] by (auto simp: m_def enc_rec_def unat_add_small)
  obtain f' where out: "kfifo_out f m = Some (m, take (unat m * unat (kf_esize f)) (kf_bytes f), f')"
      "kfifo_wf f'" "kf_bytes f' = drop (unat m * unat (kf_esize f)) (kf_bytes f)" "kf_esize f' = kf_esize f"
  proof (rule kfifo_out_correct [OF wf, of m])
    fix f' n' assume o: "kfifo_out f m = Some (n', take (unat n' * unat (kf_esize f)) (kf_bytes f), f')"
      "kfifo_wf f'" "unat n' = min (unat m) (kf_len f)"
      "kf_bytes f' = drop (unat n' * unat (kf_esize f)) (kf_bytes f)" "kf_esize f' = kf_esize f"
    have "unat n' = unat m" using o(3) m l b by simp
    then have "n' = m" by (rule unsigned_word_eqI)
    with o that show thesis by simp
  qed
  have "f' = f\<lparr>kf_out := kf_out f + m\<rparr>"
    using out(1) by (auto simp: kfifo_out_def kfifo_out_peek_def Let_def split: bind_splits if_splits)
  then show ?thesis
    using out m b es rs rr by (simp add: rec_rel_def m_def)
qed

lemma rec_rel_nonempty: "rec_rel recsize f (r # recs) \<Longrightarrow> kf_in f \<noteq> kf_out f"
  using rec_rel_len [of recsize f "r # recs"]
  by (auto simp: rec_rel_def enc_rec_def rec_hdr_length kf_len_def)

lemma kfifo_out_r_correct:
  assumes R: "rec_rel recsize f (r # recs)"
  obtains f' m where "kfifo_out_r f len recsize = Some (m, take (unat len) r, f')"
    and "unat m = min (unat len) (length r)" and "rec_rel recsize f' recs"
proof -
  obtain n m where c: "kfifo_out_copy_r f len recsize = Some (m, n, take (unat len) r)"
    "unat n = length r" "unat m = min (unat len) (length r)"
    using R by (rule kfifo_out_copy_r_correct)
  show ?thesis
    by (rule that [of m "f\<lparr>kf_out := kf_out f + (n + of_nat recsize)\<rparr>"])
      (use c rec_rel_nonempty [OF R] rec_rel_advance [OF R c(2)] in \<open>simp_all add: kfifo_out_r_def\<close>)
qed

lemma kfifo_out_r_empty: "rec_rel recsize f [] \<Longrightarrow> kfifo_out_r f len recsize = Some (0, [], f)"
proof -
  assume R: "rec_rel recsize f []"
  have "kf_len f = 0" using rec_rel_len [OF R] by simp
  then have "kf_in f = kf_out f" by (simp add: kf_len_def unat_eq_0)
  then show ?thesis by (simp add: kfifo_out_r_def)
qed

subsection \<open>Setting up gives a well-formed, empty queue\<close>

lemma kfifo_alloc_correct:
  assumes sz: "2 \<le> unat sz" and esize: "esize \<noteq> 0" and ov: "unat sz * unat esize < 2 ^ 32"
    and km: "\<And>n d. kmalloc n = Some d \<Longrightarrow> length d = n"
  shows "(\<exists>f'. kfifo_alloc kmalloc f sz esize = Some (0, f') \<and> kfifo_wf f' \<and> kf_bytes f' = []
            \<and> kf_cap f' \<le> unat sz \<and> unat sz < 2 * kf_cap f')
       \<or> (\<exists>f'. kfifo_alloc kmalloc f sz esize = Some (- ENOMEM, f') \<and> kf_data f' = None)"
proof -
  have "sz \<noteq> 0" using sz by auto
  then obtain k where k: "k < 32" "(if is_power_of_2 sz then Some sz else rounddown_pow_of_two sz) = Some (2 ^ k)"
      "unat (2 ^ k :: u32) = 2 ^ k" "2 ^ k \<le> unat sz" "unat sz < 2 * 2 ^ k"
  proof (cases "is_power_of_2 sz")
    case True
    then obtain k where "k < 32" "unat sz = 2 ^ k" by (auto simp: is_power_of_2_iff)
    moreover have "sz = 2 ^ k" using calculation unat_pow2 [of k] by (metis unsigned_word_eqI)
    ultimately show ?thesis using that [of k] True by simp
  next
    case False
    obtain k where "k < 32" "rounddown_pow_of_two sz = Some (2 ^ k)" "unat (2 ^ k :: u32) = 2 ^ k"
      "2 ^ k \<le> unat sz" "unat sz < 2 * 2 ^ k"
      using \<open>sz \<noteq> 0\<close> by (rule rounddown_pow_of_two_correct)
    then show ?thesis using that [of k] False by simp
  qed
  define s :: u32 where "s = 2 ^ k"
  have s: "unat s = 2 ^ k" using k(3) by (simp add: s_def)
  have k0: "k \<noteq> 0" using sz k(5) by (intro notI) simp
  then have s2: "\<not> s < 2" using s two_le_pow2 [of k] by (simp add: word_less_nat_alt)
  have "2 ^ k * unat esize \<le> unat sz * unat esize" using k(4) by simp
  then have ov': "2 ^ k * unat esize < 2 ^ 32" using ov by linarith
  then have prod: "unat (s * esize) = 2 ^ k * unat esize" using s by (simp add: unat_mult_small)
  have um: "unat (s - 1) = 2 ^ k - 1" using s k0 by (simp add: unat_diff_small)
  have sp: "is_power_of_2 (s - 1 + 1)" using s k(1) by (auto simp: is_power_of_2_iff)
  show ?thesis
  proof (cases "kmalloc (unat (s * esize))")
    case None
    then show ?thesis using k(2) s2 by (simp add: kfifo_alloc_def s_def [symmetric] Let_def)
  next
    case (Some d)
    define f' where "f' = f\<lparr>kf_in := 0, kf_out := 0, kf_esize := esize, kf_data := Some d, kf_mask := s - 1\<rparr>"
    have cap: "kf_cap f' = 2 ^ k" using um by (simp add: f'_def kf_cap_def)
    have m0: "s - 1 \<noteq> 0" using um k0 s by (intro notI) (use two_le_pow2 [of k] in simp)
    have "kfifo_wf f'"
      using sp m0 esize cap km [OF Some] prod ov' by (simp add: kfifo_wf_def f'_def kf_len_def)
    moreover have "kf_bytes f' = []" by (simp add: kf_bytes_def f'_def kf_len_def)
    moreover have "kfifo_alloc kmalloc f sz esize = Some (0, f')"
      using k(2) s2 Some by (simp add: kfifo_alloc_def s_def [symmetric] Let_def f'_def)
    ultimately show ?thesis using cap k(4,5) by auto
  qed
qed

subsection \<open>FIFO channels\<close>

text \<open>
  The contract both flavours of the FIFO give their clients: values that fit are appended,
  values that do not fit leave the queue alone, reads take from the front. From it follows
  once and for all that any interleaving of writes and reads delivers the accepted values
  in order, without loss or duplication.
\<close>

datatype 'a chan_op = Put 'a | Get

fun chan_run ::
    "('q \<Rightarrow> 'a \<Rightarrow> 'q) \<Rightarrow> ('q \<Rightarrow> 'a option \<times> 'q) \<Rightarrow> ('q \<Rightarrow> 'a \<Rightarrow> bool) \<Rightarrow> 'q \<Rightarrow> 'a chan_op list \<Rightarrow> 'a list \<times> 'a list \<times> 'q" where
  "chan_run put get fits q [] = ([], [], q)"
| "chan_run put get fits q (Put x # ops) =
     (case chan_run put get fits (put q x) ops of (acc, dlv, q') \<Rightarrow>
        (if fits q x then x # acc else acc, dlv, q'))"
| "chan_run put get fits q (Get # ops) =
     (case get q of (v, q1) \<Rightarrow> case chan_run put get fits q1 ops of (acc, dlv, q') \<Rightarrow>
        (acc, (case v of None \<Rightarrow> dlv | Some x \<Rightarrow> x # dlv), q'))"

locale fifo_channel =
  fixes put :: "'q \<Rightarrow> 'a \<Rightarrow> 'q" and get :: "'q \<Rightarrow> 'a option \<times> 'q"
    and holds :: "'q \<Rightarrow> 'a list \<Rightarrow> bool" and valid :: "'a \<Rightarrow> bool" and fits :: "'q \<Rightarrow> 'a \<Rightarrow> bool"
  assumes put_fits: "holds q xs \<Longrightarrow> valid x \<Longrightarrow> fits q x \<Longrightarrow> holds (put q x) (xs @ [x])"
    and put_full: "holds q xs \<Longrightarrow> valid x \<Longrightarrow> \<not> fits q x \<Longrightarrow> holds (put q x) xs"
    and get_cons: "holds q (x # xs) \<Longrightarrow> \<exists>q'. get q = (Some x, q') \<and> holds q' xs"
    and get_nil: "holds q [] \<Longrightarrow> get q = (None, q)"
begin

lemma delivers_in_order:
  "holds q xs \<Longrightarrow> \<forall>x. Put x \<in> set ops \<longrightarrow> valid x \<Longrightarrow> chan_run put get fits q ops = (acc, dlv, q')
    \<Longrightarrow> \<exists>ys. holds q' ys \<and> xs @ acc = dlv @ ys"
proof (induction ops arbitrary: q xs acc dlv)
  case Nil
  then show ?case by auto
next
  case (Cons a ops)
  show ?case
  proof (cases a)
    case (Put x)
    obtain acc1 where run: "chan_run put get fits (put q x) ops = (acc1, dlv, q')"
      and acc: "acc = (if fits q x then x # acc1 else acc1)"
      using Cons.prems(3) Put by (auto split: prod.splits)
    have v: "valid x" "\<forall>x. Put x \<in> set ops \<longrightarrow> valid x" using Cons.prems(2) Put by auto
    show ?thesis
    proof (cases "fits q x")
      case True
      with Cons.IH [OF put_fits [OF Cons.prems(1) v(1) True] v(2) run] acc show ?thesis by simp
    next
      case False
      with Cons.IH [OF put_full [OF Cons.prems(1) v(1) False] v(2) run] acc show ?thesis by simp
    qed
  next
    case Get
    have v: "\<forall>x. Put x \<in> set ops \<longrightarrow> valid x" using Cons.prems(2) by auto
    show ?thesis
    proof (cases xs)
      case Nil
      then have "get q = (None, q)" using Cons.prems(1) get_nil by simp
      with Cons.IH [OF Cons.prems(1) v] Cons.prems(3) Get show ?thesis by (auto split: prod.splits)
    next
      case (Cons x zs)
      then obtain q1 where g: "get q = (Some x, q1)" "holds q1 zs" using Cons.prems(1) get_cons by blast
      obtain dlv1 where run: "chan_run put get fits q1 ops = (acc, dlv1, q')" and "dlv = x # dlv1"
        using Cons.prems(3) Get g(1) by (auto split: prod.splits)
      with Cons.IH [OF g(2) v run] Cons show ?thesis by auto
    qed
  qed
qed

end

text \<open>One element at a time through \<open>kfifo_in\<close> and \<open>kfifo_out\<close>.\<close>

definition elem_put :: "kfifo \<Rightarrow> bytes \<Rightarrow> kfifo" where
  "elem_put f x = (case kfifo_in f x 1 of None \<Rightarrow> f | Some (n, f') \<Rightarrow> f')"

definition elem_get :: "kfifo \<Rightarrow> bytes option \<times> kfifo" where
  "elem_get f = (case kfifo_out f 1 of None \<Rightarrow> (None, f)
     | Some (n, x, f') \<Rightarrow> (if n = 0 then (None, f') else (Some x, f')))"

definition elem_fits :: "kfifo \<Rightarrow> bytes \<Rightarrow> bool" where
  "elem_fits f x \<longleftrightarrow> kfifo_unused f \<noteq> 0"

definition elem_rel :: "u32 \<Rightarrow> kfifo \<Rightarrow> bytes list \<Rightarrow> bool" where
  "elem_rel es f xs \<longleftrightarrow> kfifo_wf f \<and> kf_esize f = es \<and> kf_len f = length xs
     \<and> (\<forall>x \<in> set xs. length x = unat es) \<and> kf_bytes f = concat xs"

interpretation elem_chan: fifo_channel elem_put elem_get "elem_rel es" "\<lambda>x. length x = unat es" elem_fits
  for es
proof
  fix f xs and x :: bytes
  assume R: "elem_rel es f xs" and x: "length x = unat es"
  then have wf: "kfifo_wf f" and es: "kf_esize f = es" and l: "kf_len f = length xs"
    and ok: "\<forall>x \<in> set xs. length x = unat es" and b: "kf_bytes f = concat xs"
    by (auto simp: elem_rel_def)
  have u: "unat (kfifo_unused f) = kf_cap f - kf_len f" using wf by (rule kfifo_unused_wf)
  obtain f' n where k: "kfifo_in f x 1 = Some (n, f')" "kfifo_wf f'"
      "unat n = min 1 (kf_cap f - kf_len f)" "kf_bytes f' = kf_bytes f @ take (unat n * unat es) x"
      "kf_len f' = kf_len f + unat n" "kf_esize f' = es"
  proof (rule kfifo_in_correct [OF wf, of 1 x])
    show "min (unat (1::u32)) (kf_cap f - kf_len f) * unat (kf_esize f) \<le> length x"
      using x es by (cases "kf_cap f - kf_len f") simp_all
  qed (use that es in simp)
  have put: "elem_put f x = f'" using k(1) by (simp add: elem_put_def)
  {
    assume "elem_fits f x"
    then have "unat n = 1" using k(3) u by (auto simp: elem_fits_def simp flip: unat_eq_0)
    then show "elem_rel es (elem_put f x) (xs @ [x])"
      using k put b l ok x es by (simp add: elem_rel_def)
  next
    assume "\<not> elem_fits f x"
    then have "unat n = 0" using k(3) u by (simp add: elem_fits_def)
    then show "elem_rel es (elem_put f x) xs"
      using k put b l ok es by (simp add: elem_rel_def)
  }
next
  fix f x xs
  assume R: "elem_rel es f (x # xs)"
  then have wf: "kfifo_wf f" and es: "kf_esize f = es" and l: "kf_len f = Suc (length xs)"
    and ok: "\<forall>x \<in> set (x # xs). length x = unat es" and b: "kf_bytes f = x @ concat xs"
    by (auto simp: elem_rel_def)
  obtain f' n where k: "kfifo_out f 1 = Some (n, take (unat n * unat es) (kf_bytes f), f')" "kfifo_wf f'"
      "unat n = min 1 (kf_len f)" "kf_bytes f' = drop (unat n * unat es) (kf_bytes f)"
      "kf_len f' = kf_len f - unat n" "kf_esize f' = es"
    by (rule kfifo_out_correct [OF wf, of 1]) (use that es in simp)
  have n: "unat n = 1" using k(3) l by simp
  then have "n \<noteq> 0" by auto
  then show "\<exists>q'. elem_get f = (Some x, q') \<and> elem_rel es q' xs"
    using k n ok b l es by (simp add: elem_get_def elem_rel_def)
next
  fix f
  assume R: "elem_rel es f []"
  then have wf: "kfifo_wf f" and l: "kf_len f = 0" by (auto simp: elem_rel_def)
  then have io: "kf_in f - kf_out f = 0" by (simp add: kf_len_def unat_eq_0)
  obtain f' n where k: "kfifo_out f 1 = Some (n, take (unat n * unat (kf_esize f)) (kf_bytes f), f')"
      "unat n = min 1 (kf_len f)"
    by (rule kfifo_out_correct [OF wf, of 1]) (use that in simp)
  have n: "n = 0" using k(2) l by (simp add: unat_eq_0)
  have "f' = f\<lparr>kf_out := kf_out f + n\<rparr>"
    using k(1) io by (auto simp: kfifo_out_def kfifo_out_peek_def Let_def split: bind_splits if_splits)
  then have "f' = f" using n by simp
  then show "elem_get f = (None, f)" using k(1) n by (simp add: elem_get_def)
qed

text \<open>Whole records through \<open>kfifo_in_r\<close> and \<open>kfifo_out_r\<close>, read with a large enough buffer.\<close>

definition rec_put :: "nat \<Rightarrow> kfifo \<Rightarrow> bytes \<Rightarrow> kfifo" where
  "rec_put recsize f r = (case kfifo_in_r f r (of_nat (length r)) recsize of None \<Rightarrow> f | Some (n, f') \<Rightarrow> f')"

definition rec_get :: "nat \<Rightarrow> kfifo \<Rightarrow> bytes option \<times> kfifo" where
  "rec_get recsize f = (if kf_in f = kf_out f then (None, f)
     else case kfifo_out_r f 65535 recsize of None \<Rightarrow> (None, f) | Some (n, r, f') \<Rightarrow> (Some r, f'))"

definition rec_fits :: "nat \<Rightarrow> kfifo \<Rightarrow> bytes \<Rightarrow> bool" where
  "rec_fits recsize f r \<longleftrightarrow> kf_len f + recsize + length r \<le> kf_cap f"

lemma pow256_le: "recsize \<in> {1, 2} \<Longrightarrow> (n::nat) < 256 ^ recsize \<Longrightarrow> n < 65536"
  by auto

interpretation rec_chan: fifo_channel "rec_put recsize" "rec_get recsize" "rec_rel recsize"
    "\<lambda>r. length r < 256 ^ recsize" "rec_fits recsize"
  for recsize
proof
  fix f recs and r :: bytes
  assume R: "rec_rel recsize f recs" and r: "length r < 256 ^ recsize"
  then have rs: "recsize \<in> {1, 2}" by (simp add: rec_rel_def)
  have l: "unat (of_nat (length r) :: u32) = length r"
    using pow256_le [OF rs r] by (simp add: unat_of_nat)
  {
    assume "rec_fits recsize f r"
    then have "kf_len f + recsize + length r \<le> kf_cap f" by (simp add: rec_fits_def)
    with R r l obtain f' where "kfifo_in_r f r (of_nat (length r)) recsize = Some (of_nat (length r), f')"
      and "rec_rel recsize f' (recs @ [r])" by (rule kfifo_in_r_correct)
    then show "rec_rel recsize (rec_put recsize f r) (recs @ [r])" by (simp add: rec_put_def)
  next
    assume "\<not> rec_fits recsize f r"
    then show "rec_rel recsize (rec_put recsize f r) recs"
      using kfifo_in_r_full [OF R, of "of_nat (length r)" r] r l R by (simp add: rec_fits_def rec_put_def)
  }
next
  fix f r recs
  assume R: "rec_rel recsize f (r # recs)"
  then have "length r < 65536" using pow256_le by (auto simp: rec_rel_def)
  then have t: "take 65535 r = r" by simp
  obtain f' m where "kfifo_out_r f 65535 recsize = Some (m, take (unat (65535::u32)) r, f')"
    and "rec_rel recsize f' recs"
    using R by (rule kfifo_out_r_correct)
  then show "\<exists>q'. rec_get recsize f = (Some r, q') \<and> rec_rel recsize q' recs"
    using t rec_rel_nonempty [OF R] by (simp add: rec_get_def)
next
  fix f assume R: "rec_rel recsize f []"
  then have "kf_len f = 0" using rec_rel_len [OF R] by simp
  then show "rec_get recsize f = (None, f)" by (simp add: rec_get_def kf_len_def unat_eq_0)
qed

subsection \<open>User copies that succeed are ordinary reads and writes\<close>

definition cfu_ok :: "bytes \<Rightarrow> copy_from_user_fn" where
  "cfu_ok ubuf off n = (0, take n (drop off ubuf))"

lemma kfifo_copy_from_user_ok:
  assumes "kfifo_wf f" and "unat len \<le> kf_cap f" and "unat len * unat (kf_esize f) \<le> length ubuf"
  shows "kfifo_copy_from_user (cfu_ok ubuf) f len off =
    map_option (\<lambda>f'. (0, len * kf_esize f, f')) (kfifo_copy_in f ubuf len off)"
proof -
  obtain d o' n l where d: "kf_data f = Some d" and s: "ring_span f len off = (o', n, l)"
    and n: "unat n = unat len * unat (kf_esize f)" and l: "unat l = min (unat n) (length d - unat o')"
    and nl: "unat (n - l) = unat n - unat l"
    using ring_span_wf [OF assms(1,2), of off] by metis
  have nw: "n = len * kf_esize f" using s by (auto simp: ring_span_def Let_def split: if_splits)
  have b: "unat l \<le> length ubuf" "unat l + (unat n - unat l) \<le> length ubuf" using n l assms(3) by auto
  then have r: "mem_rd ubuf 0 (unat l) = Some (take (unat l) ubuf)"
    "mem_rd ubuf (unat l) (unat (n - l)) = Some (take (unat (n - l)) (drop (unat l) ubuf))"
    using nl by (simp_all add: mem_rd_Some)
  show ?thesis
    unfolding kfifo_copy_from_user_def kfifo_copy_in_def s d cfu_ok_def nw [symmetric]
    by (simp add: r split: bind_split)
qed

subsection \<open>Properties\<close>

definition kf_example :: kfifo where
  "kf_example = \<lparr>kf_in = 4294967295, kf_out = 4294967294, kf_mask = 3, kf_esize = 2,
     kf_data = Some [1, 2, 3, 4, 5, 6, 7, 8]\<rparr>"

lemma kf_example_wf: "kfifo_wf kf_example" and kf_example_bytes: "kf_bytes kf_example = [5, 6]"
  and kf_example_len: "kf_len kf_example = 1" and kf_example_cap: "kf_cap kf_example = 4"
  by (simp_all add: kf_example_def kfifo_wf_def kf_bytes_def kf_len_def kf_cap_def is_power_of_2_def
      rotate_drop_take)

text \<open>C3. Writing to the FIFO never leaves its buffer, keeps it well-formed, accepts exactly
  as many elements as there is room for and appends exactly their bytes to the queue, across
  the end of the buffer and across the wrap-around of the 32-bit counters.\<close>

theorem kfifo_in_refines_append:
  assumes "kfifo_wf f" and "min (unat len) (kf_cap f - kf_len f) * unat (kf_esize f) \<le> length buf"
  shows "\<exists>n f'. kfifo_in f buf len = Some (n, f') \<and> kfifo_wf f'
    \<and> unat n = min (unat len) (kf_cap f - kf_len f)
    \<and> kf_bytes f' = kf_bytes f @ take (unat n * unat (kf_esize f)) buf"
  using assms by (blast elim: kfifo_in_correct)

theorem kfifo_in_refines_append_witness:
  "\<exists>n f'. kfifo_in kf_example [10, 11, 12, 13] 2 = Some (n, f') \<and> kfifo_wf f' \<and> unat n = 2
    \<and> kf_bytes f' = [5, 6, 10, 11, 12, 13]"
  using kfifo_in_refines_append [OF kf_example_wf, of 2 "[10, 11, 12, 13]"]
  by (simp add: kf_example_bytes kf_example_len kf_example_cap) (auto simp: kf_example_def)

text \<open>C4. Reading from the FIFO never leaves its buffer, keeps it well-formed, returns
  the longest available prefix of the queued bytes up to the requested element count and
  removes exactly that prefix.\<close>

theorem kfifo_out_refines_take:
  assumes "kfifo_wf f"
  shows "\<exists>n f'. kfifo_out f len = Some (n, take (unat n * unat (kf_esize f)) (kf_bytes f), f') \<and> kfifo_wf f'
    \<and> unat n = min (unat len) (kf_len f) \<and> kf_bytes f' = drop (unat n * unat (kf_esize f)) (kf_bytes f)"
  using assms by (blast elim: kfifo_out_correct)

theorem kfifo_out_refines_take_witness:
  "\<exists>n f'. kfifo_out kf_example 3 = Some (n, [5, 6], f') \<and> kfifo_wf f' \<and> unat n = 1 \<and> kf_bytes f' = []"
  using kfifo_out_refines_take [OF kf_example_wf, of 3]
  by (simp add: kf_example_bytes kf_example_len) (auto simp: kf_example_def)

text \<open>Any interleaving of element writes and reads on one FIFO delivers the accepted
  elements in the order they were written: what was queued plus what was accepted is what
  was delivered plus what is still queued.\<close>

theorem kfifo_stream_in_order:
  assumes "elem_rel es f xs" and "\<forall>x. Put x \<in> set ops \<longrightarrow> length x = unat es"
    and "chan_run elem_put elem_get elem_fits f ops = (acc, dlv, f')"
  shows "\<exists>ys. elem_rel es f' ys \<and> xs @ acc = dlv @ ys"
  using assms by (rule elem_chan.delivers_in_order)

theorem kfifo_stream_in_order_witness:
  "\<exists>acc dlv f' ys. chan_run elem_put elem_get elem_fits kf_example [Put [7, 7], Get, Get] = (acc, dlv, f')
     \<and> elem_rel 2 f' ys \<and> [[5, 6]] @ acc = dlv @ ys"
proof -
  have r: "elem_rel 2 kf_example [[5, 6]]"
    using kf_example_wf kf_example_bytes kf_example_len by (simp add: elem_rel_def) (simp add: kf_example_def)
  obtain acc dlv f' where run: "chan_run elem_put elem_get elem_fits kf_example [Put [7, 7], Get, Get] = (acc, dlv, f')"
    by (metis prod_cases3)
  show ?thesis using kfifo_stream_in_order [OF r _ run] run by auto
qed

text \<open>C20. The same for record FIFOs with one- or two-byte length headers: every record that
  fits comes out whole, once and in order, whatever the interleaving.\<close>

theorem kfifo_records_in_order:
  assumes "rec_rel recsize f recs" and "\<forall>r. Put r \<in> set ops \<longrightarrow> length r < 256 ^ recsize"
    and "chan_run (rec_put recsize) (rec_get recsize) (rec_fits recsize) f ops = (acc, dlv, f')"
  shows "\<exists>ys. rec_rel recsize f' ys \<and> recs @ acc = dlv @ ys"
  using assms by (rule rec_chan.delivers_in_order)

definition kf_rec_example :: kfifo where
  "kf_rec_example = \<lparr>kf_in = 1, kf_out = 4294967294, kf_mask = 7, kf_esize = 1,
     kf_data = Some [9, 0, 0, 0, 0, 0, 2, 8]\<rparr>"

theorem kfifo_records_in_order_witness:
  "\<exists>acc dlv f' ys. chan_run (rec_put 1) (rec_get 1) (rec_fits 1) kf_rec_example [Put [4, 5], Get] = (acc, dlv, f')
     \<and> rec_rel 1 f' ys \<and> [[8, 9]] @ acc = dlv @ ys"
proof -
  have r: "rec_rel 1 kf_rec_example [[8, 9]]"
    by (simp add: rec_rel_def kf_rec_example_def kfifo_wf_def kf_bytes_def kf_len_def kf_cap_def
        is_power_of_2_def rotate_drop_take enc_rec_def rec_hdr_def)
  obtain acc dlv f' where run: "chan_run (rec_put 1) (rec_get 1) (rec_fits 1) kf_rec_example [Put [4, 5], Get] = (acc, dlv, f')"
    by (metis prod_cases3)
  show ?thesis using kfifo_records_in_order [OF r _ run] run by auto
qed

text \<open>A read from a record FIFO with a buffer shorter than the record returns the
  record's first bytes, consumes the whole record and leaves the later records intact.\<close>

theorem kfifo_out_r_truncates:
  assumes "rec_rel recsize f (r # recs)"
  shows "\<exists>m f'. kfifo_out_r f len recsize = Some (m, take (unat len) r, f')
    \<and> unat m = min (unat len) (length r) \<and> rec_rel recsize f' recs"
  using assms by (blast elim: kfifo_out_r_correct)

theorem kfifo_out_r_truncates_witness:
  "\<exists>m f'. kfifo_out_r kf_rec_example 1 1 = Some (m, [8], f') \<and> unat m = 1 \<and> rec_rel 1 f' []"
proof -
  have r: "rec_rel 1 kf_rec_example [[8, 9]]"
    by (simp add: rec_rel_def kf_rec_example_def kfifo_wf_def kf_bytes_def kf_len_def kf_cap_def
        is_power_of_2_def rotate_drop_take enc_rec_def rec_hdr_def)
  show ?thesis using kfifo_out_r_truncates [OF r, of 1] by simp
qed

text \<open>Allocation: for a size of at least two elements whose byte count fits 32 bits,
  \<open>__kfifo_alloc\<close> either reports -ENOMEM with no buffer or yields an empty well-formed
  FIFO whose capacity is the largest power of two not above the requested size.\<close>

theorem kfifo_alloc_wf:
  assumes "2 \<le> unat sz" and "esize \<noteq> 0" and "unat sz * unat esize < 2 ^ 32"
    and "\<And>n d. kmalloc n = Some d \<Longrightarrow> length d = n"
  shows "(\<exists>f'. kfifo_alloc kmalloc f sz esize = Some (0, f') \<and> kfifo_wf f' \<and> kf_bytes f' = []
            \<and> kf_cap f' \<le> unat sz \<and> unat sz < 2 * kf_cap f')
       \<or> (\<exists>f'. kfifo_alloc kmalloc f sz esize = Some (- ENOMEM, f') \<and> kf_data f' = None)"
  using assms by (rule kfifo_alloc_correct)

theorem kfifo_alloc_wf_witness:
  "(\<exists>f'. kfifo_alloc (\<lambda>n. Some (replicate n 0)) kf_example 5 1 = Some (0, f') \<and> kfifo_wf f' \<and> kf_bytes f' = []
            \<and> kf_cap f' \<le> 5 \<and> 5 < 2 * kf_cap f')
    \<or> (\<exists>f'. kfifo_alloc (\<lambda>n. Some (replicate n 0)) kf_example 5 1 = Some (- ENOMEM, f') \<and> kf_data f' = None)"
  using kfifo_alloc_wf [of 5 1 "\<lambda>n. Some (replicate n 0)" kf_example] by auto

text \<open>When no user access faults, \<open>__kfifo_from_user\<close> is \<open>__kfifo_in\<close> on the user
  buffer: same elements, same new state, error 0, and the byte count in \<open>*copied\<close>.\<close>

theorem kfifo_from_user_eq_in:
  assumes "kfifo_wf f" and "unat len \<le> length ubuf"
  shows "kfifo_from_user (cfu_ok ubuf) f len =
    map_option (\<lambda>(n, f'). (0, n * kf_esize f, f')) (kfifo_in f ubuf (len div kf_esize f))"
proof -
  let ?l = "len div kf_esize f"
  define n where "n = (if ?l > kfifo_unused f then kfifo_unused f else ?l)"
  have e0: "kf_esize f \<noteq> 0" using assms(1) by (simp add: kfifo_wf_def)
  have nl: "unat n \<le> unat ?l" "unat n \<le> kf_cap f"
    using kfifo_unused_wf [OF assms(1)] by (auto simp: n_def word_less_nat_alt)
  have "unat n * unat (kf_esize f) \<le> unat len div unat (kf_esize f) * unat (kf_esize f)"
    using nl(1) by (simp add: unat_div_distrib)
  also have "\<dots> \<le> unat len" by (simp add: div_times_less_eq_dividend)
  finally have "unat n * unat (kf_esize f) \<le> length ubuf" using assms(2) by linarith
  note ok = kfifo_copy_from_user_ok [OF assms(1) nl(2) this]
  have dv: "(if kf_esize f \<noteq> 1 then len div kf_esize f else len) = ?l" by simp
  show ?thesis
    unfolding kfifo_from_user_def kfifo_in_def dv Let_def n_def [symmetric]
    using e0 by (simp add: ok) (cases "kfifo_copy_in f ubuf n (kf_in f)"; simp)
qed

theorem kfifo_from_user_eq_in_witness:
  "kfifo_from_user (cfu_ok [10, 11, 12, 13]) kf_example 4 =
    map_option (\<lambda>(n, f'). (0, n * kf_esize kf_example, f')) (kfifo_in kf_example [10, 11, 12, 13] (4 div kf_esize kf_example))"
  using kfifo_from_user_eq_in [OF kf_example_wf, of 4 "[10, 11, 12, 13]"] by simp

definition kf_fault_example :: kfifo where
  "kf_fault_example = \<lparr>kf_in = 0, kf_out = 0, kf_mask = 3, kf_esize = 4, kf_data = Some (replicate 16 0)\<rparr>"

text \<open>When a user access faults and the element size is not 1, \<open>*copied\<close> is not the number
  of bytes stored: \<open>kfifo_copy_from_user\<close> subtracts a count of elements from a count of
  bytes. Here 4-byte elements are copied from 16 bytes of which only the first 4 are
  readable: one element (4 bytes) is queued and 13 is reported.\<close>

theorem kfifo_from_user_copied_mixes_units:
  "\<exists>f'. kfifo_from_user (\<lambda>off n. (of_nat (n - 4), [1, 2, 3, 4] @ replicate (n - 4) 0)) kf_fault_example 16
     = Some (- EFAULT, 13, f') \<and> kf_bytes f' = [1, 2, 3, 4]"
  by (simp add: kf_fault_example_def kfifo_from_user_def kfifo_unused_def kfifo_copy_from_user_def
      ring_span_def mem_wr_def div_round_up_def kf_bytes_def kf_len_def Let_def)
end
