(* ===== verification/CString.thy ===== *)
theory CString
  imports KPrelude
begin

text \<open>
  The string library (\<^verbatim>\<open>lib/string.c\<close>) and the character classes it uses
  (\<^verbatim>\<open>lib/ctype.c\<close>, \<^verbatim>\<open>include/linux/ctype.h\<close>). A pointer into memory that is only read
  is the list of the bytes from it to the end of its object, and reading from the empty
  list is the fault \<open>None\<close>; a pointer result is an offset, NULL is the inner \<open>None\<close>.
  Functions that write work on one byte memory with addresses as indices, so that source
  and destination may overlap as they may in C. \<open>char\<close> is unsigned, as on ARM;
  \<open>size_t\<close> counts are natural numbers below \<open>2 ^ 32\<close>.
\<close>

subsection \<open>Character classes\<close>

definition ctype :: "u8 list" where
  "ctype = [
     8, 8, 8, 8, 8, 8, 8, 8, 8, 40, 40, 40, 40, 40, 8, 8, 8, 8, 8, 8, 8, 8, 8, 8, 8, 8, 8, 8, 8, 8, 8, 8,
     160, 16, 16, 16, 16, 16, 16, 16, 16, 16, 16, 16, 16, 16, 16, 16, 4, 4, 4, 4, 4, 4, 4, 4, 4, 4, 16, 16, 16, 16, 16, 16,
     16, 65, 65, 65, 65, 65, 65, 1, 1, 1, 1, 1, 1, 1, 1, 1, 1, 1, 1, 1, 1, 1, 1, 1, 1, 1, 1, 16, 16, 16, 16, 16,
     16, 66, 66, 66, 66, 66, 66, 2, 2, 2, 2, 2, 2, 2, 2, 2, 2, 2, 2, 2, 2, 2, 2, 2, 2, 2, 2, 16, 16, 16, 16, 8,
     0, 0, 0, 0, 0, 0, 0, 0, 0, 0, 0, 0, 0, 0, 0, 0, 0, 0, 0, 0, 0, 0, 0, 0, 0, 0, 0, 0, 0, 0, 0, 0,
     160, 16, 16, 16, 16, 16, 16, 16, 16, 16, 16, 16, 16, 16, 16, 16, 16, 16, 16, 16, 16, 16, 16, 16, 16, 16, 16, 16, 16, 16, 16, 16,
     1, 1, 1, 1, 1, 1, 1, 1, 1, 1, 1, 1, 1, 1, 1, 1, 1, 1, 1, 1, 1, 1, 1, 16, 1, 1, 1, 1, 1, 1, 1, 2,
     2, 2, 2, 2, 2, 2, 2, 2, 2, 2, 2, 2, 2, 2, 2, 2, 2, 2, 2, 2, 2, 2, 2, 16, 2, 2, 2, 2, 2, 2, 2, 2]"

definition isspace :: "u8 \<Rightarrow> bool" where
  "isspace c \<longleftrightarrow> ctype ! unat c AND 32 \<noteq> 0"

definition isupper :: "u8 \<Rightarrow> bool" where
  "isupper c \<longleftrightarrow> ctype ! unat c AND 1 \<noteq> 0"

definition tolower :: "u8 \<Rightarrow> u8" where
  "tolower c = (if isupper c then c - (65 - 97) else c)"

subsection \<open>Reading strings\<close>

fun strlen :: "bytes \<Rightarrow> nat option" where
  "strlen [] = None"
| "strlen (c # s) = (if c = 0 then Some 0 else map_option Suc (strlen s))"

fun strnlen :: "bytes \<Rightarrow> nat \<Rightarrow> nat option" where
  "strnlen s 0 = Some 0"
| "strnlen [] (Suc n) = None"
| "strnlen (c # s) (Suc n) = (if c = 0 then Some 0 else map_option Suc (strnlen s n))"

fun strcmp :: "bytes \<Rightarrow> bytes \<Rightarrow> int option" where
  "strcmp (a # cs) (b # ct) =
     (if a \<noteq> b then Some (if a < b then - 1 else 1) else if a = 0 then Some 0 else strcmp cs ct)"
| "strcmp _ _ = None"

fun strncmp :: "bytes \<Rightarrow> bytes \<Rightarrow> nat \<Rightarrow> int option" where
  "strncmp cs ct 0 = Some 0"
| "strncmp (a # cs) (b # ct) (Suc n) =
     (if a \<noteq> b then Some (if a < b then - 1 else 1) else if a = 0 then Some 0 else strncmp cs ct n)"
| "strncmp _ _ (Suc n) = None"

text \<open>The \<open>do ... while (--len)\<close> of \<open>strnicmp\<close>; the count is at least one.\<close>

fun strnicmp_loop :: "bytes \<Rightarrow> bytes \<Rightarrow> nat \<Rightarrow> int option" where
  "strnicmp_loop (a # s1) (b # s2) len =
     (if a = 0 \<or> b = 0 then Some (uint a - uint b)
      else if a = b then (if len \<le> 1 then Some 0 else strnicmp_loop s1 s2 (len - 1))
      else let c1 = tolower a; c2 = tolower b in
        if c1 \<noteq> c2 then Some (uint c1 - uint c2)
        else if len \<le> 1 then Some 0 else strnicmp_loop s1 s2 (len - 1))"
| "strnicmp_loop _ _ len = None"

definition strnicmp :: "bytes \<Rightarrow> bytes \<Rightarrow> nat \<Rightarrow> int option" where
  "strnicmp s1 s2 len = (if len = 0 then Some 0 else strnicmp_loop s1 s2 len)"

fun strcasecmp :: "bytes \<Rightarrow> bytes \<Rightarrow> int option" where
  "strcasecmp (a # s1) (b # s2) =
     (let c1 = tolower a; c2 = tolower b in
      if c1 = c2 \<and> c1 \<noteq> 0 then strcasecmp s1 s2 else Some (uint c1 - uint c2))"
| "strcasecmp _ _ = None"

text \<open>\<open>--n > 0\<close> on a \<open>size_t\<close>: a count of 0 wraps and runs \<open>2 ^ 32\<close> rounds.\<close>

fun strncasecmp_loop :: "bytes \<Rightarrow> bytes \<Rightarrow> nat \<Rightarrow> int option" where
  "strncasecmp_loop (a # s1) (b # s2) n =
     (let c1 = tolower a; c2 = tolower b in
      if n > 1 \<and> c1 = c2 \<and> c1 \<noteq> 0 then strncasecmp_loop s1 s2 (n - 1) else Some (uint c1 - uint c2))"
| "strncasecmp_loop _ _ n = None"

definition strncasecmp :: "bytes \<Rightarrow> bytes \<Rightarrow> nat \<Rightarrow> int option" where
  "strncasecmp s1 s2 n = strncasecmp_loop s1 s2 (if n = 0 then 2 ^ 32 else n)"

abbreviation shift_ptr :: "nat option option \<Rightarrow> nat option option" where
  "shift_ptr \<equiv> map_option (map_option Suc)"

fun strchr :: "bytes \<Rightarrow> u8 \<Rightarrow> nat option option" where
  "strchr [] c = None"
| "strchr (x # s) c = (if x = c then Some (Some 0) else if x = 0 then Some None else shift_ptr (strchr s c))"

fun strrchr_loop :: "bytes \<Rightarrow> u8 \<Rightarrow> nat \<Rightarrow> nat option" where
  "strrchr_loop s c 0 = (if s ! 0 = c then Some 0 else None)"
| "strrchr_loop s c (Suc i) = (if s ! Suc i = c then Some (Suc i) else strrchr_loop s c i)"

definition strrchr :: "bytes \<Rightarrow> u8 \<Rightarrow> nat option option" where
  "strrchr s c = map_option (strrchr_loop s c) (strlen s)"

fun strnchr :: "bytes \<Rightarrow> nat \<Rightarrow> u8 \<Rightarrow> nat option option" where
  "strnchr s 0 c = Some None"
| "strnchr [] (Suc n) c = None"
| "strnchr (x # s) (Suc n) c =
     (if x = 0 then Some None else if x = c then Some (Some 0) else shift_ptr (strnchr s n c))"

fun skip_spaces :: "bytes \<Rightarrow> nat option" where
  "skip_spaces [] = None"
| "skip_spaces (c # s) = (if isspace c then map_option Suc (skip_spaces s) else Some 0)"

text \<open>The inner loops of \<open>strspn\<close>, \<open>strcspn\<close> and \<open>strpbrk\<close>: is the character in the string?\<close>

fun str_member :: "u8 \<Rightarrow> bytes \<Rightarrow> bool option" where
  "str_member c [] = None"
| "str_member c (a # accept) = (if a = 0 then Some False else if c = a then Some True else str_member c accept)"

fun strspn :: "bytes \<Rightarrow> bytes \<Rightarrow> nat option" where
  "strspn [] accept = None"
| "strspn (c # s) accept = (if c = 0 then Some 0 else do {
     hit \<leftarrow> str_member c accept;
     if hit then map_option Suc (strspn s accept) else Some 0 })"

fun strcspn :: "bytes \<Rightarrow> bytes \<Rightarrow> nat option" where
  "strcspn [] reject = None"
| "strcspn (c # s) reject = (if c = 0 then Some 0 else do {
     hit \<leftarrow> str_member c reject;
     if hit then Some 0 else map_option Suc (strcspn s reject) })"

fun strpbrk :: "bytes \<Rightarrow> bytes \<Rightarrow> nat option option" where
  "strpbrk [] ct = None"
| "strpbrk (c # cs) ct = (if c = 0 then Some None else do {
     hit \<leftarrow> str_member c ct;
     if hit then Some (Some 0) else shift_ptr (strpbrk cs ct) })"

text \<open>After the common prefix the last three tests of \<open>sysfs_streq\<close> look at most one byte ahead.\<close>

definition is_last_newline :: "bytes \<Rightarrow> bool option" where
  "is_last_newline s = (case s of [] \<Rightarrow> None | c # r \<Rightarrow>
     if c = 10 then (case r of [] \<Rightarrow> None | d # _ \<Rightarrow> Some (d = 0)) else Some False)"

fun sysfs_streq :: "bytes \<Rightarrow> bytes \<Rightarrow> bool option" where
  "sysfs_streq (a # s1) (b # s2) =
     (if a \<noteq> 0 \<and> a = b then sysfs_streq s1 s2
      else if a = b then Some True
      else do {
        t \<leftarrow> (if a = 0 then is_last_newline (b # s2) else Some False);
        if t then Some True else do {
          u \<leftarrow> (if b = 0 then is_last_newline (a # s1) else Some False);
          Some u } })"
| "sysfs_streq _ _ = None"

fun memcmp :: "bytes \<Rightarrow> bytes \<Rightarrow> nat \<Rightarrow> int option" where
  "memcmp cs ct 0 = Some 0"
| "memcmp (a # cs) (b # ct) (Suc n) = (let res = uint a - uint b in if res \<noteq> 0 then Some res else memcmp cs ct n)"
| "memcmp _ _ (Suc n) = None"

fun memscan :: "bytes \<Rightarrow> u8 \<Rightarrow> nat \<Rightarrow> nat option" where
  "memscan p c 0 = Some 0"
| "memscan [] c (Suc n) = None"
| "memscan (x # p) c (Suc n) = (if x = c then Some 0 else map_option Suc (memscan p c n))"

fun memchr :: "bytes \<Rightarrow> u8 \<Rightarrow> nat \<Rightarrow> nat option option" where
  "memchr p c 0 = Some None"
| "memchr [] c (Suc n) = None"
| "memchr (x # p) c (Suc n) = (if c = x then Some (Some 0) else shift_ptr (memchr p c n))"

text \<open>The search loop of \<open>strstr\<close> and \<open>strnstr\<close>; the pattern length is positive.\<close>

fun strstr_loop :: "bytes \<Rightarrow> bytes \<Rightarrow> nat \<Rightarrow> nat \<Rightarrow> nat option option" where
  "strstr_loop s1 s2 l2 0 = Some None"
| "strstr_loop s1 s2 l2 (Suc l1) =
     (if Suc l1 \<ge> l2 then do {
        r \<leftarrow> memcmp s1 s2 l2;
        if r = 0 then Some (Some 0) else shift_ptr (strstr_loop (tl s1) s2 l2 l1)
      } else Some None)"

definition strstr :: "bytes \<Rightarrow> bytes \<Rightarrow> nat option option" where
  "strstr s1 s2 = do {
     l2 \<leftarrow> strlen s2;
     if l2 = 0 then Some (Some 0) else do {
       l1 \<leftarrow> strlen s1;
       strstr_loop s1 s2 l2 l1 } }"

definition strnstr :: "bytes \<Rightarrow> bytes \<Rightarrow> nat \<Rightarrow> nat option option" where
  "strnstr s1 s2 len = do {
     l2 \<leftarrow> strlen s2;
     if l2 = 0 then Some (Some 0) else strstr_loop s1 s2 l2 len }"

subsection \<open>Writing strings\<close>

definition rd :: "bytes \<Rightarrow> nat \<Rightarrow> u8 option" where
  "rd m a = (if a < length m then Some (m ! a) else None)"

definition wr :: "bytes \<Rightarrow> nat \<Rightarrow> u8 \<Rightarrow> bytes option" where
  "wr m a c = (if a < length m then Some (m[a := c]) else None)"

function strcpy_loop :: "bytes \<Rightarrow> nat \<Rightarrow> nat \<Rightarrow> bytes option" where
  "strcpy_loop m dest src =
     (if src < length m \<and> dest < length m then
        (let c = m ! src; m' = m[dest := c] in
         if c = 0 then Some m' else strcpy_loop m' (dest + 1) (src + 1))
      else None)"
  by pat_completeness auto
termination by (relation "measure (\<lambda>(m, dest, src). length m - src)") auto

declare strcpy_loop.simps [simp del]

definition strcpy :: "bytes \<Rightarrow> nat \<Rightarrow> nat \<Rightarrow> bytes option" where
  "strcpy m dest src = strcpy_loop m dest src"

fun strncpy :: "bytes \<Rightarrow> nat \<Rightarrow> nat \<Rightarrow> nat \<Rightarrow> bytes option" where
  "strncpy m tmp src 0 = Some m"
| "strncpy m tmp src (Suc count) = do {
     c \<leftarrow> rd m src;
     m \<leftarrow> wr m tmp c;
     strncpy m (tmp + 1) (if c \<noteq> 0 then src + 1 else src) count }"

fun memset :: "bytes \<Rightarrow> nat \<Rightarrow> u8 \<Rightarrow> nat \<Rightarrow> bytes option" where
  "memset m xs c 0 = Some m"
| "memset m xs c (Suc count) = do { m \<leftarrow> wr m xs c; memset m (xs + 1) c count }"

fun memcpy :: "bytes \<Rightarrow> nat \<Rightarrow> nat \<Rightarrow> nat \<Rightarrow> bytes option" where
  "memcpy m tmp s 0 = Some m"
| "memcpy m tmp s (Suc count) = do { c \<leftarrow> rd m s; m \<leftarrow> wr m tmp c; memcpy m (tmp + 1) (s + 1) count }"

fun memmove_down :: "bytes \<Rightarrow> nat \<Rightarrow> nat \<Rightarrow> nat \<Rightarrow> bytes option" where
  "memmove_down m tmp s 0 = Some m"
| "memmove_down m tmp s (Suc count) = do {
     c \<leftarrow> rd m (s - 1);
     m \<leftarrow> wr m (tmp - 1) c;
     memmove_down m (tmp - 1) (s - 1) count }"

text \<open>The upward loop of \<open>memmove\<close> is the loop of \<open>memcpy\<close>.\<close>

definition memmove :: "bytes \<Rightarrow> nat \<Rightarrow> nat \<Rightarrow> nat \<Rightarrow> bytes option" where
  "memmove m dest src count =
     (if dest \<le> src then memcpy m dest src count
      else memmove_down m (dest + count) (src + count) count)"

definition strlcpy :: "bytes \<Rightarrow> nat \<Rightarrow> nat \<Rightarrow> nat \<Rightarrow> (nat \<times> bytes) option" where
  "strlcpy m dest src sz = do {
     ret \<leftarrow> strlen (drop src m);
     if sz \<noteq> 0 then do {
       let len = (if ret \<ge> sz then sz - 1 else ret);
       m \<leftarrow> memcpy m dest src len;
       m \<leftarrow> wr m (dest + len) 0;
       Some (ret, m)
     } else Some (ret, m) }"

definition strcat :: "bytes \<Rightarrow> nat \<Rightarrow> nat \<Rightarrow> bytes option" where
  "strcat m dest src = do {
     n \<leftarrow> strlen (drop dest m);
     strcpy_loop m (dest + n) src }"

fun strncat_loop :: "bytes \<Rightarrow> nat \<Rightarrow> nat \<Rightarrow> nat \<Rightarrow> bytes option" where
  "strncat_loop m dest src 0 = Some m"
| "strncat_loop m dest src (Suc count) = do {
     c \<leftarrow> rd m src;
     m \<leftarrow> wr m dest c;
     if c = 0 then Some m
     else if count = 0 then wr m (dest + 1) 0
     else strncat_loop m (dest + 1) (src + 1) count }"

definition strncat :: "bytes \<Rightarrow> nat \<Rightarrow> nat \<Rightarrow> nat \<Rightarrow> bytes option" where
  "strncat m dest src count =
     (if count \<noteq> 0 then do {
        n \<leftarrow> strlen (drop dest m);
        strncat_loop m (dest + n) src count
      } else Some m)"

text \<open>\<open>BUG_ON\<close> stops the kernel: \<open>None\<close>.\<close>

definition strlcat :: "bytes \<Rightarrow> nat \<Rightarrow> nat \<Rightarrow> nat \<Rightarrow> (nat \<times> bytes) option" where
  "strlcat m dest src count = do {
     dsize \<leftarrow> strlen (drop dest m);
     len \<leftarrow> strlen (drop src m);
     let res = dsize + len;
     if dsize \<ge> count then None else do {
       let dest = dest + dsize;
       let count = count - dsize;
       let len = (if len \<ge> count then count - 1 else len);
       m \<leftarrow> memcpy m dest src len;
       m \<leftarrow> wr m (dest + len) 0;
       Some (res, m) } }"

fun strim_end :: "bytes \<Rightarrow> nat \<Rightarrow> nat \<Rightarrow> nat" where
  "strim_end m s 0 = s"
| "strim_end m s (Suc n) = (if isspace (m ! (s + n)) then strim_end m s n else s + n + 1)"

text \<open>\<open>strim_end m s n\<close> is one past the last non-blank of the \<open>n\<close> bytes at \<open>s\<close>: the
  \<open>while (end >= s && isspace(*end)) end--\<close> loop, whose result is \<open>end + 1\<close>.\<close>

definition strim :: "bytes \<Rightarrow> nat \<Rightarrow> (nat \<times> bytes) option" where
  "strim m s = do {
     k \<leftarrow> skip_spaces (drop s m);
     let s = s + k;
     n \<leftarrow> strlen (drop s m);
     if n = 0 then Some (s, m) else do {
       m \<leftarrow> wr m (strim_end m s n) 0;
       Some (s, m) } }"

text \<open>\<open>strsep\<close> takes and returns the string position \<open>*s\<close>; NULL is \<open>None\<close>.\<close>

definition strsep :: "bytes \<Rightarrow> nat option \<Rightarrow> bytes \<Rightarrow> (nat option \<times> nat option \<times> bytes) option" where
  "strsep m s ct = (case s of None \<Rightarrow> Some (None, None, m) | Some sbegin \<Rightarrow> do {
     e \<leftarrow> strpbrk (drop sbegin m) ct;
     case e of None \<Rightarrow> Some (Some sbegin, None, m)
     | Some k \<Rightarrow> do {
         m \<leftarrow> wr m (sbegin + k) 0;
         Some (Some sbegin, Some (sbegin + k + 1), m) } })"

subsection \<open>Strings in memory\<close>

text \<open>\<open>str_at m s xs\<close>: the NUL-terminated string at address \<open>s\<close> is \<open>xs\<close>.\<close>

definition str_at :: "bytes \<Rightarrow> nat \<Rightarrow> bytes \<Rightarrow> bool" where
  "str_at m s xs \<longleftrightarrow> s + length xs < length m \<and> take (length xs) (drop s m) = xs
     \<and> m ! (s + length xs) = 0 \<and> 0 \<notin> set xs"

lemma str_at_drop:
  assumes "str_at m s xs" obtains r where "drop s m = xs @ 0 # r"
proof -
  from assms have l: "s + length xs < length m" and t: "take (length xs) (drop s m) = xs"
    and z: "m ! (s + length xs) = 0" by (auto simp: str_at_def)
  have "drop s m = xs @ drop (length xs) (drop s m)" using t by (metis append_take_drop_id)
  also have "drop (length xs) (drop s m) = 0 # drop (Suc (s + length xs)) m"
    using Cons_nth_drop_Suc [OF l] z by (simp add: add.commute)
  finally show ?thesis by (rule that)
qed

lemma str_atI:
  assumes "drop s m = xs @ 0 # r" "0 \<notin> set xs" shows "str_at m s xs"
proof -
  have l: "length (drop s m) = length xs + 1 + length r" using assms by simp
  then have "s + length xs < length m" by simp
  moreover have "m ! (s + length xs) = drop s m ! length xs" using calculation by simp
  ultimately show ?thesis using assms by (simp add: str_at_def)
qed

lemma str_at_nonzero: "str_at m s xs \<Longrightarrow> 0 \<notin> set xs"
  by (simp add: str_at_def)

lemma strlen_append [simp]: "0 \<notin> set xs \<Longrightarrow> strlen (xs @ 0 # r) = Some (length xs)"
  by (induction xs) auto

lemma strlen_str_at: "str_at m s xs \<Longrightarrow> strlen (drop s m) = Some (length xs)"
  using str_at_nonzero [of m s xs] by (auto elim!: str_at_drop)

text \<open>A string read back after bytes outside it changed is the same string.\<close>

lemma str_at_nth:
  "str_at m s xs \<longleftrightarrow> s + length xs < length m \<and> (\<forall>i < length xs. m ! (s + i) = xs ! i)
     \<and> m ! (s + length xs) = 0 \<and> 0 \<notin> set xs"
  by (auto simp: str_at_def list_eq_iff_nth_eq)

lemma str_at_suffix:
  assumes "str_at m s xs" "k \<le> length xs" shows "str_at m (s + k) (drop k xs)"
proof -
  obtain r where "drop s m = xs @ 0 # r" using assms(1) by (rule str_at_drop)
  then have "drop (s + k) m = drop k xs @ 0 # r" using assms(2) by (simp add: add.commute flip: drop_drop)
  then show ?thesis
    by (rule str_atI) (use str_at_nonzero [OF assms(1)] in \<open>auto dest: in_set_dropD\<close>)
qed

lemma str_at_update_before: "a < s \<Longrightarrow> str_at (m[a := c]) s xs = str_at m s xs"
  by (simp add: str_at_nth)

subsection \<open>Block copies, overlap included\<close>

lemma rd_Some [simp]: "a < length m \<Longrightarrow> rd m a = Some (m ! a)"
  by (simp add: rd_def)

lemma wr_Some [simp]: "a < length m \<Longrightarrow> wr m a c = Some (m[a := c])"
  by (simp add: wr_def)

text \<open>\<open>moved m m' d s n\<close>: \<open>m'\<close> is \<open>m\<close> with the \<open>n\<close> bytes that were at \<open>s\<close> now at \<open>d\<close>.\<close>

definition moved :: "bytes \<Rightarrow> bytes \<Rightarrow> nat \<Rightarrow> nat \<Rightarrow> nat \<Rightarrow> bool" where
  "moved m m' d s n \<longleftrightarrow> length m' = length m
     \<and> (\<forall>i < length m. m' ! i = (if d \<le> i \<and> i < d + n then m ! (s + (i - d)) else m ! i))"

lemma moved_eq:
  assumes "moved m m' d s n" "d + n \<le> length m" "s + n \<le> length m"
  shows "m' = take d m @ take n (drop s m) @ drop (d + n) m"
  using assms by (intro nth_equalityI) (auto simp: moved_def nth_append)

lemma memcpy_forward:
  assumes "d + n \<le> length m" "s + n \<le> length m" "d \<le> s \<or> s + n \<le> d"
  shows "\<exists>m'. memcpy m d s n = Some m' \<and> moved m m' d s n"
  using assms
proof (induction n arbitrary: m d s)
  case 0
  then show ?case by (auto simp: moved_def)
next
  case (Suc n)
  let ?m = "m[d := m ! s]"
  from Suc.prems have "d + 1 + n \<le> length ?m" "s + 1 + n \<le> length ?m" "d + 1 \<le> s + 1 \<or> s + 1 + n \<le> d + 1"
    by auto
  from Suc.IH [OF this] obtain m' where m': "memcpy ?m (d + 1) (s + 1) n = Some m'" "moved ?m m' (d + 1) (s + 1) n"
    by blast
  have "moved m m' d s (Suc n)"
    unfolding moved_def
  proof (intro conjI allI impI)
    show "length m' = length m" using m'(2) by (simp add: moved_def)
    fix i assume i: "i < length m"
    have v: "m' ! i = (if d + 1 \<le> i \<and> i < d + 1 + n then ?m ! (s + 1 + (i - (d + 1))) else ?m ! i)"
      using m'(2) i by (simp add: moved_def)
    show "m' ! i = (if d \<le> i \<and> i < d + Suc n then m ! (s + (i - d)) else m ! i)"
    proof (cases "d + 1 \<le> i \<and> i < d + 1 + n")
      case True
      then have e: "s + 1 + (i - (d + 1)) = s + (i - d)" by linarith
      have "s + (i - d) \<noteq> d" using Suc.prems(3) True by linarith
      then show ?thesis using v True e by simp
    next
      case False
      then show ?thesis using v i Suc.prems(1) by (cases "i = d") auto
    qed
  qed
  then show ?case using m'(1) Suc.prems by simp
qed

lemma memmove_down_correct:
  assumes "d + n \<le> length m" "s + n \<le> length m" "s < d"
  shows "\<exists>m'. memmove_down m (d + n) (s + n) n = Some m' \<and> moved m m' d s n"
  using assms
proof (induction n arbitrary: m)
  case 0
  then show ?case by (auto simp: moved_def)
next
  case (Suc n)
  let ?m = "m[d + n := m ! (s + n)]"
  from Suc.prems have "d + n \<le> length ?m" "s + n \<le> length ?m" by auto
  from Suc.IH [OF this Suc.prems(3)] obtain m' where m': "memmove_down ?m (d + n) (s + n) n = Some m'" "moved ?m m' d s n"
    by blast
  have "moved m m' d s (Suc n)"
    unfolding moved_def
  proof (intro conjI allI impI)
    show "length m' = length m" using m'(2) by (simp add: moved_def)
    fix i assume i: "i < length m"
    have v: "m' ! i = (if d \<le> i \<and> i < d + n then ?m ! (s + (i - d)) else ?m ! i)"
      using m'(2) i by (simp add: moved_def)
    show "m' ! i = (if d \<le> i \<and> i < d + Suc n then m ! (s + (i - d)) else m ! i)"
    proof (cases "d \<le> i \<and> i < d + n")
      case True
      then have "s + (i - d) \<noteq> d + n" using Suc.prems(3) by linarith
      then show ?thesis using v True by simp
    next
      case False
      then show ?thesis using v i Suc.prems(1) by (cases "i = d + n") auto
    qed
  qed
  then show ?case using m'(1) Suc.prems by simp
qed

lemma memmove_moved:
  assumes "d + n \<le> length m" "s + n \<le> length m"
  shows "\<exists>m'. memmove m d s n = Some m' \<and> moved m m' d s n"
  using memcpy_forward [OF assms] memmove_down_correct [OF assms] by (auto simp: memmove_def)

subsection \<open>Comparisons\<close>

lemma strcmp_terminated:
  "0 \<notin> set xs \<Longrightarrow> 0 \<notin> set ys \<Longrightarrow>
   strcmp (xs @ 0 # r) (ys @ 0 # q) =
     Some (if xs = ys then 0 else if ord_class.lexordp xs ys then - 1 else 1)"
proof (induction xs arbitrary: ys)
  case Nil
  then show ?case by (cases ys) (auto simp: word_gt_0)
next
  case (Cons x xs)
  show ?case
  proof (cases ys)
    case Nil
    with Cons.prems show ?thesis by (simp add: word_gt_0 not_less)
  next
    case (Cons y zs)
    with Cons.prems Cons.IH [of zs] show ?thesis by (cases "x = y") (auto simp: neq_iff)
  qed
qed

lemma memcmp_lex:
  "n \<le> length xs \<Longrightarrow> n \<le> length ys \<Longrightarrow> \<exists>r. memcmp xs ys n = Some r
     \<and> (r = 0 \<longleftrightarrow> take n xs = take n ys) \<and> (r < 0 \<longleftrightarrow> ord_class.lexordp (take n xs) (take n ys))"
proof (induction xs ys n rule: memcmp.induct)
  case (2 a cs b ct n)
  then show ?case by (cases "a = b") (auto simp: word_less_def Let_def word_uint_eq_iff)
qed auto

subsection \<open>Searching\<close>

lemma strstr_loop_correct:
  assumes "ys \<noteq> []" and "n \<le> length s1"
  shows "strstr_loop s1 (ys @ q) (length ys) n =
    (if \<exists>i. i + length ys \<le> n \<and> take (length ys) (drop i s1) = ys
     then Some (Some (LEAST i. i + length ys \<le> n \<and> take (length ys) (drop i s1) = ys))
     else Some None)"
  using assms(2)
proof (induction n arbitrary: s1)
  case 0
  then show ?case using assms(1) by simp
next
  case (Suc n)
  let ?l = "length ys"
  let ?P = "\<lambda>i. i + ?l \<le> Suc n \<and> take ?l (drop i s1) = ys"
  obtain c s where s1: "s1 = c # s" using Suc.prems by (cases s1) auto
  show ?case
  proof (cases "?l \<le> Suc n")
    case False
    then show ?thesis using Suc.prems by auto
  next
    case True
    obtain r where r: "memcmp s1 (ys @ q) ?l = Some r" "r = 0 \<longleftrightarrow> take ?l s1 = ys"
      using memcmp_lex [of ?l s1 "ys @ q"] True Suc.prems by auto
    show ?thesis
    proof (cases "r = 0")
      case r0: True
      then have p: "?P 0" using r True by simp
      then have "(LEAST i. ?P i) = 0" by (rule Least_eq_0)
      moreover have "\<exists>i. ?P i" using p by blast
      ultimately show ?thesis using r r0 True by simp
    next
      case False
      then have np: "\<not> ?P 0" using r by simp
      have sh: "?P (Suc i) \<longleftrightarrow> i + ?l \<le> n \<and> take ?l (drop i s) = ys" for i by (simp add: s1)
      have ex: "(\<exists>i. ?P i) \<longleftrightarrow> (\<exists>i. i + ?l \<le> n \<and> take ?l (drop i s) = ys)"
        using np sh by (metis not0_implies_Suc)
      have least: "(LEAST i. ?P i) = Suc (LEAST i. i + ?l \<le> n \<and> take ?l (drop i s) = ys)" if "\<exists>i. ?P i"
        using that np Least_Suc [of ?P] sh by auto
      have IH: "strstr_loop s (ys @ q) ?l n =
        (if \<exists>i. i + ?l \<le> n \<and> take ?l (drop i s) = ys
         then Some (Some (LEAST i. i + ?l \<le> n \<and> take ?l (drop i s) = ys)) else Some None)"
        using Suc.IH [of s] Suc.prems s1 by simp
      have step: "strstr_loop s1 (ys @ q) ?l (Suc n) = shift_ptr (strstr_loop s (ys @ q) ?l n)"
        using r False True by (simp add: s1)
      show ?thesis
      proof (cases "\<exists>i. ?P i")
        case ex1: True
        then show ?thesis unfolding step IH using ex least by simp
      next
        case ex0: False
        then have no: "\<not> (\<exists>i. i + ?l \<le> n \<and> take ?l (drop i s) = ys)" using ex by blast
        show ?thesis unfolding step IH if_not_P [OF ex0] if_not_P [OF no] by simp
      qed
    qed
  qed
qed

lemma str_member_correct: "0 \<notin> set ct \<Longrightarrow> c \<noteq> 0 \<Longrightarrow> str_member c (ct @ 0 # q) = Some (c \<in> set ct)"
  by (induction ct) auto

lemma strpbrk_correct:
  "0 \<notin> set xs \<Longrightarrow> 0 \<notin> set ct \<Longrightarrow> strpbrk (xs @ 0 # r) (ct @ 0 # q) =
     Some (if set xs \<inter> set ct = {} then None else Some (length (takeWhile (\<lambda>c. c \<notin> set ct) xs)))"
  by (induction xs) (auto simp: str_member_correct)

subsection \<open>Bounded copies and trimming\<close>

lemma moved_str_prefix:
  assumes mv: "moved m m1 d s n" and str: "str_at m s xs" and n: "n \<le> length xs" and b: "d + n < length m"
  shows "str_at (m1[d + n := 0]) d (take n xs)"
proof -
  have "m1 ! (d + i) = xs ! i" if "i < n" for i
    using mv str n b that by (simp add: moved_def str_at_nth)
  moreover have "length m1 = length m" using mv by (simp add: moved_def)
  moreover have "0 \<notin> set (take n xs)" using str_at_nonzero [OF str] by (meson in_set_takeD)
  ultimately show ?thesis using n b by (simp add: str_at_nth min_absorb2)
qed

lemma strlcpy_correct:
  assumes str: "str_at m s xs" and sz: "0 < sz" and room: "d + sz \<le> length m"
    and apart: "d + sz \<le> s \<or> s + length xs < d"
  obtains m' where "strlcpy m d s sz = Some (length xs, m')" and "str_at m' d (take (sz - 1) xs)"
    and "length m' = length m"
    and "\<And>i. i < length m \<Longrightarrow> i < d \<or> d + min sz (length xs + 1) \<le> i \<Longrightarrow> m' ! i = m ! i"
proof -
  define n where "n = (if length xs \<ge> sz then sz - 1 else length xs)"
  have n: "n \<le> length xs" "n < sz" "take n xs = take (sz - 1) xs" "n + 1 = min sz (length xs + 1)"
    using sz by (auto simp: n_def)
  have l: "s + length xs < length m" using str by (simp add: str_at_def)
  have "\<exists>m'. memcpy m d s n = Some m' \<and> moved m m' d s n"
    by (rule memcpy_forward) (use n l room apart in linarith)+
  then obtain m1 where m1: "memcpy m d s n = Some m1" "moved m m1 d s n" by blast
  have l1: "length m1 = length m" using m1(2) by (simp add: moved_def)
  have dn: "d + n < length m" using n room by simp
  show ?thesis
  proof (rule that [of "m1[d + n := 0]"])
    show "strlcpy m d s sz = Some (length xs, m1[d + n := 0])"
      using m1(1) sz dn l1 by (simp add: strlcpy_def strlen_str_at [OF str] Let_def n_def [symmetric])
    show "str_at (m1[d + n := 0]) d (take (sz - 1) xs)"
      using moved_str_prefix [OF m1(2) str n(1) dn] n(3) by simp
    show "length (m1[d + n := 0]) = length m" using l1 by simp
    fix i assume "i < length m" "i < d \<or> d + min sz (length xs + 1) \<le> i"
    then show "m1[d + n := 0] ! i = m ! i" using m1(2) n(4) by (auto simp: moved_def)
  qed
qed

lemma skip_spaces_correct:
  "\<not> isspace 0 \<Longrightarrow> skip_spaces (xs @ 0 # r) = Some (length (takeWhile isspace xs))"
  by (induction xs) auto

lemma isspace_0: "\<not> isspace 0"
  by (simp add: isspace_def ctype_def)

lemma strim_end_correct:
  "\<forall>i < length xs. m ! (s + i) = xs ! i \<Longrightarrow>
   strim_end m s (length xs) = s + length (dropWhile isspace (rev xs))"
proof (induction xs rule: rev_induct)
  case Nil
  then show ?case by simp
next
  case (snoc x xs)
  from snoc.prems have x: "m ! (s + length xs) = x" by (auto simp: nth_append dest: spec [of _ "length xs"])
  from snoc.prems have "\<forall>i < length xs. m ! (s + i) = xs ! i" by (auto simp: nth_append)
  with snoc.IH x show ?case by simp
qed

definition trim :: "bytes \<Rightarrow> bytes" where
  "trim xs = rev (dropWhile isspace (rev (dropWhile isspace xs)))"

lemma strim_correct:
  assumes str: "str_at m s xs"
  shows "\<exists>m'. strim m s = Some (s + length (takeWhile isspace xs), m')
    \<and> str_at m' (s + length (takeWhile isspace xs)) (trim xs)"
proof -
  let ?k = "length (takeWhile isspace xs)"
  define ys where "ys = dropWhile isspace xs"
  have xs: "xs = takeWhile isspace xs @ ys" by (simp add: ys_def)
  have nz: "0 \<notin> set ys" using str_at_nonzero [OF str] xs by (metis Un_iff set_append)
  have "ys = drop ?k xs" using xs by (metis append_eq_conv_conj)
  then have sy: "str_at m (s + ?k) ys" using str_at_suffix [OF str, of ?k] by (simp add: length_takeWhile_le)
  obtain r where dr: "drop s m = xs @ 0 # r" using str by (rule str_at_drop)
  have sk: "skip_spaces (drop s m) = Some ?k" using dr skip_spaces_correct [OF isspace_0] by simp
  have sl: "strlen (drop (s + ?k) m) = Some (length ys)" using sy by (rule strlen_str_at)
  define t where "t = trim xs"
  have t: "t = rev (dropWhile isspace (rev ys))" by (simp add: t_def trim_def ys_def)
  have pre: "\<exists>zs. ys = t @ zs"
  proof -
    have "rev ys = takeWhile isspace (rev ys) @ dropWhile isspace (rev ys)" by simp
    then have "ys = t @ rev (takeWhile isspace (rev ys))" unfolding t by (metis rev_append rev_rev_ident)
    then show ?thesis by blast
  qed
  show ?thesis
  proof (cases "ys = []")
    case True
    then have "t = []" using t by simp
    then show ?thesis using sk sl True sy by (simp add: strim_def t_def [symmetric] Let_def)
  next
    case False
    have e: "strim_end m (s + ?k) (length ys) = s + ?k + length t"
      using strim_end_correct [of ys m "s + ?k"] sy t by (simp add: str_at_nth)
    from pre obtain zs where zs: "ys = t @ zs" by blast
    have b: "s + ?k + length t < length m" using sy zs by (simp add: str_at_nth)
    have "str_at (m[s + ?k + length t := 0]) (s + ?k) t"
      using sy zs b nz by (auto simp: str_at_nth nth_append)
    then show ?thesis using sk sl False e b by (simp add: strim_def t_def [symmetric] Let_def)
  qed
qed

lemma strsep_found:
  assumes str: "str_at m s xs" and ct: "0 \<notin> set ct" and hit: "set xs \<inter> set ct \<noteq> {}"
    and tok: "tok = takeWhile (\<lambda>c. c \<notin> set ct) xs"
  shows "\<exists>m'. strsep m (Some s) (ct @ 0 # q) = Some (Some s, Some (s + length tok + 1), m')
    \<and> str_at m' s tok \<and> str_at m' (s + length tok + 1) (drop (length tok + 1) xs)"
proof -
  obtain r where dr: "drop s m = xs @ 0 # r" using str by (rule str_at_drop)
  have nz: "0 \<notin> set xs" using str by (rule str_at_nonzero)
  have lt: "length tok < length xs"
    using hit tok by (metis (no_types, lifting) disjoint_iff length_takeWhile_le nat_less_le nth_mem
        takeWhile_eq_all_conv takeWhile_eq_take take_all_iff)
  have pre: "\<forall>i < length tok. tok ! i = xs ! i" using tok by (simp add: takeWhile_nth)
  have b: "s + length tok < length m" using str lt by (simp add: str_at_nth)
  let ?m = "m[s + length tok := 0]"
  have "strpbrk (drop s m) (ct @ 0 # q) = Some (Some (length tok))"
    using strpbrk_correct [OF nz ct] dr hit tok by simp
  then have "strsep m (Some s) (ct @ 0 # q) = Some (Some s, Some (s + length tok + 1), ?m)"
    using b by (simp add: strsep_def)
  moreover have "str_at ?m s tok"
    using str lt b pre nz tok by (auto simp: str_at_nth dest: set_takeWhileD)
  moreover have "str_at ?m (s + length tok + 1) (drop (length tok + 1) xs)"
    using str_at_suffix [OF str, of "length tok + 1"] lt by (simp add: str_at_update_before add.assoc)
  ultimately show ?thesis by blast
qed

subsection \<open>Properties\<close>

text \<open>C21. \<open>memmove\<close> moves the \<open>count\<close> bytes that were at the source to the destination
  and changes nothing else, however the two regions overlap, and touches no byte outside
  them.\<close>

theorem memmove_overlap_correct:
  assumes "dest + count \<le> length m" and "src + count \<le> length m"
  shows "memmove m dest src count = Some (take dest m @ take count (drop src m) @ drop (dest + count) m)"
proof -
  obtain m' where "memmove m dest src count = Some m'" "moved m m' dest src count"
    using memmove_moved [OF assms] by blast
  then show ?thesis using moved_eq [OF _ assms] by simp
qed

theorem memmove_overlap_correct_witness:
  "memmove [1, 2, 3, 4, 5] 1 0 3 = Some [1, 1, 2, 3, 5] \<and> memmove [1, 2, 3, 4, 5] 0 1 3 = Some [2, 3, 4, 4, 5]"
  using memmove_overlap_correct [of 1 3 "[1, 2, 3, 4, 5]" 0] memmove_overlap_correct [of 0 3 "[1, 2, 3, 4, 5]" 1]
  by simp

text \<open>\<open>strlcpy\<close> never writes past the given buffer size, always leaves a terminated
  string, which is the longest prefix of the source that fits, and returns the full length
  of the source so that the caller can detect truncation.\<close>

theorem strlcpy_bounded:
  assumes "str_at m s xs" and "0 < sz" and "d + sz \<le> length m" and "d + sz \<le> s \<or> s + length xs < d"
  shows "\<exists>m'. strlcpy m d s sz = Some (length xs, m') \<and> str_at m' d (take (sz - 1) xs)
    \<and> length m' = length m
    \<and> (\<forall>i < length m. (i < d \<or> d + min sz (length xs + 1) \<le> i) \<longrightarrow> m' ! i = m ! i)"
  using assms by (blast elim: strlcpy_correct)

theorem strlcpy_bounded_witness:
  "\<exists>m'. strlcpy [9, 9, 9, 65, 66, 67, 0] 0 3 3 = Some (3, m') \<and> str_at m' 0 [65, 66]"
  using strlcpy_bounded [of "[9, 9, 9, 65, 66, 67, 0]" 3 "[65, 66, 67]" 3 0]
  by (auto simp: str_at_def)

text \<open>\<open>strcmp\<close> on terminated strings decides the lexicographic order of their
  contents by unsigned bytes: 0 exactly for equal strings, -1 for smaller, 1 for greater.\<close>

theorem strcmp_lexicographic:
  assumes "0 \<notin> set xs" and "0 \<notin> set ys"
  shows "strcmp (xs @ 0 # r) (ys @ 0 # q) =
    Some (if xs = ys then 0 else if ord_class.lexordp xs ys then - 1 else 1)"
  using assms by (rule strcmp_terminated)

theorem strcmp_lexicographic_witness:
  "strcmp ([97, 98] @ 0 # []) ([97, 200] @ 0 # []) = Some (- 1)"
  using strcmp_lexicographic [of "[97, 98]" "[97, 200]" "[]" "[]"] by simp

text \<open>\<open>strstr\<close> on terminated strings returns the first position at which the second
  string occurs in the first, and NULL exactly when there is none.\<close>

theorem strstr_first_occurrence:
  assumes "0 \<notin> set xs" and "0 \<notin> set ys" and "ys \<noteq> []"
  shows "strstr (xs @ 0 # r) (ys @ 0 # q) =
    (if \<exists>i. i + length ys \<le> length xs \<and> take (length ys) (drop i (xs @ 0 # r)) = ys
     then Some (Some (LEAST i. i + length ys \<le> length xs \<and> take (length ys) (drop i (xs @ 0 # r)) = ys))
     else Some None)"
  using assms strstr_loop_correct [of ys "length xs" "xs @ 0 # r" "0 # q"] by (simp add: strstr_def)

theorem strstr_first_occurrence_witness:
  "strstr ([1, 2, 3, 2, 3] @ 0 # []) ([2, 3] @ 0 # []) = Some (Some 1)"
proof -
  let ?P = "\<lambda>i. i + length [2::u8, 3] \<le> length [1::u8, 2, 3, 2, 3] \<and>
    take (length [2::u8, 3]) (drop i ([1::u8, 2, 3, 2, 3] @ 0 # [])) = [2, 3]"
  have p: "?P 1" by simp
  have l: "(LEAST i. ?P i) = 1"
  proof (rule Least_equality [of ?P, OF p])
    fix y assume "?P y"
    then show "1 \<le> y" by (cases y) auto
  qed
  have e: "\<exists>i. ?P i" using p by blast
  show ?thesis
    using strstr_first_occurrence [of "[1, 2, 3, 2, 3]" "[2, 3]" "[]" "[]"]
    unfolding if_P [OF e] l by simp
qed

text \<open>\<open>strsep\<close> cuts the string at the first delimiter: the token before it is
  terminated in place, the returned position is that of the token, and \<open>*s\<close> moves to the
  rest of the string behind the delimiter.\<close>

theorem strsep_splits_at_delimiter:
  assumes "str_at m s xs" and "0 \<notin> set ct" and "set xs \<inter> set ct \<noteq> {}"
    and "tok = takeWhile (\<lambda>c. c \<notin> set ct) xs"
  shows "\<exists>m'. strsep m (Some s) (ct @ 0 # q) = Some (Some s, Some (s + length tok + 1), m')
    \<and> str_at m' s tok \<and> str_at m' (s + length tok + 1) (drop (length tok + 1) xs)"
  using assms by (rule strsep_found)

theorem strsep_splits_at_delimiter_witness:
  "\<exists>m'. strsep [97, 44, 98, 0] (Some 0) [44, 0] = Some (Some 0, Some (Suc (Suc 0)), m')
    \<and> str_at m' 0 [97] \<and> str_at m' (Suc (Suc 0)) [98]"
proof -
  have "str_at [97, 44, 98, 0] 0 [97, 44, 98]" by (simp add: str_at_def)
  then show ?thesis
    using strsep_splits_at_delimiter [of "[97, 44, 98, 0]" 0 "[97, 44, 98]" "[44]" "[97]" "[]"] by simp
qed

text \<open>\<open>strim\<close> returns the string without its leading and trailing white space,
  terminated in place.\<close>

theorem strim_trims:
  assumes "str_at m s xs"
  shows "\<exists>m'. strim m s = Some (s + length (takeWhile isspace xs), m')
    \<and> str_at m' (s + length (takeWhile isspace xs)) (trim xs)"
  using assms by (rule strim_correct)

theorem strim_trims_witness:
  "\<exists>m'. strim [32, 97, 32, 0] 0 = Some (1, m') \<and> str_at m' 1 [97]"
proof -
  have s: "isspace 32" "\<not> isspace 97" by (simp_all add: isspace_def ctype_def)
  then show ?thesis
    using strim_trims [of "[32, 97, 32, 0]" 0 "[32, 97, 32]"] by (simp add: str_at_def trim_def)
qed

end
