(* ===== verification/Nlattr.thy ===== *)
theory Nlattr
  imports CString
begin

text \<open>
  Netlink attributes (\<^verbatim>\<open>lib/nlattr.c\<close> with the accessors of \<^verbatim>\<open>include/net/netlink.h\<close>): a
  stream of length-type-value entries, 4-byte aligned, with 16-bit fields in host (little
  endian) order. The stream lives in a byte memory, an attribute is its address, and a
  read outside the memory is \<open>None\<close>. Properties: iteration never leaves the stream,
  every loop ends, what \<open>nla_put\<close> writes \<open>nla_find\<close> finds, and a validated stream has
  payloads long enough for their declared types.
\<close>

abbreviation (input) ERANGE :: int where "ERANGE \<equiv> 34"
abbreviation (input) EMSGSIZE :: int where "EMSGSIZE \<equiv> 90"

subsection \<open>Accessors\<close>

definition get16 :: "bytes \<Rightarrow> nat \<Rightarrow> nat option" where
  "get16 m a = do { l \<leftarrow> rd m a; h \<leftarrow> rd m (a + 1); Some (unat l + 256 * unat h) }"

definition put16 :: "bytes \<Rightarrow> nat \<Rightarrow> nat \<Rightarrow> bytes option" where
  "put16 m a v = do { m \<leftarrow> wr m a (of_nat v); wr m (a + 1) (of_nat (v div 256)) }"

abbreviation NLA_HDRLEN :: nat where "NLA_HDRLEN \<equiv> 4"

definition nla_align :: "nat \<Rightarrow> nat" where
  "nla_align n = (n + 3) div 4 * 4"

definition nla_attr_size :: "nat \<Rightarrow> nat" where
  "nla_attr_size payload = NLA_HDRLEN + payload"

definition nla_total_size :: "nat \<Rightarrow> nat" where
  "nla_total_size payload = nla_align (nla_attr_size payload)"

definition nla_padlen :: "nat \<Rightarrow> nat" where
  "nla_padlen payload = nla_total_size payload - nla_attr_size payload"

text \<open>The raw \<open>nla_len\<close> field, \<open>nla_type()\<close> without its flag bits, and the payload length
  \<open>nla_len()\<close>, an \<open>int\<close> that is negative for a field below the header size.\<close>

definition nla_lenf :: "bytes \<Rightarrow> nat \<Rightarrow> nat option" where
  "nla_lenf m nla = get16 m nla"

definition nla_type :: "bytes \<Rightarrow> nat \<Rightarrow> nat option" where
  "nla_type m nla = map_option (\<lambda>t. t mod 16384) (get16 m (nla + 2))"

definition nla_len :: "bytes \<Rightarrow> nat \<Rightarrow> int option" where
  "nla_len m nla = map_option (\<lambda>l. int l - int NLA_HDRLEN) (nla_lenf m nla)"

definition nla_ok :: "bytes \<Rightarrow> nat \<Rightarrow> int \<Rightarrow> bool option" where
  "nla_ok m nla remaining =
     (if remaining < 4 then Some False else do {
        l \<leftarrow> nla_lenf m nla;
        Some (l \<ge> 4 \<and> int l \<le> remaining) })"

definition nla_next :: "bytes \<Rightarrow> nat \<Rightarrow> int \<Rightarrow> (nat \<times> int) option" where
  "nla_next m nla remaining = do {
     l \<leftarrow> nla_lenf m nla;
     let totlen = nla_align l;
     Some (nla + totlen, remaining - int totlen) }"

lemma nla_align_ge: "n \<le> nla_align n" and nla_align_lt: "nla_align n < n + 4"
  by (auto simp: nla_align_def)

lemma nla_okD:
  assumes "nla_ok m a rem = Some True"
  obtains l where "nla_lenf m a = Some l" "4 \<le> l" "int l \<le> rem" "4 \<le> rem"
  using assms by (auto simp: nla_ok_def split: if_splits bind_splits)

lemma nla_next_decreases:
  assumes "nla_ok m a rem = Some True" "nla_next m a rem = Some (a', rem')"
  shows "nat rem' < nat rem" and "a + 4 \<le> a'" and "int a' + rem' = int a + rem"
proof -
  obtain l where l: "nla_lenf m a = Some l" "4 \<le> l" "int l \<le> rem" "4 \<le> rem" using assms(1) by (rule nla_okD)
  have n: "a' = a + nla_align l" "rem' = rem - int (nla_align l)"
    using assms(2) l(1) by (auto simp: nla_next_def Let_def)
  have "4 \<le> nla_align l" using l(2) nla_align_ge [of l] by linarith
  with n l(4) show "nat rem' < nat rem" "a + 4 \<le> a'" "int a' + rem' = int a + rem" by auto
qed

subsection \<open>Searching and validating streams\<close>

function nla_find :: "bytes \<Rightarrow> nat \<Rightarrow> int \<Rightarrow> nat \<Rightarrow> nat option option" where
  "nla_find m nla rem attrtype =
     (case nla_ok m nla rem of None \<Rightarrow> None | Some False \<Rightarrow> Some None
      | Some True \<Rightarrow> (case nla_type m nla of None \<Rightarrow> None
        | Some t \<Rightarrow> if t = attrtype then Some (Some nla)
          else (case nla_next m nla rem of None \<Rightarrow> None
            | Some (nla', rem') \<Rightarrow> nla_find m nla' rem' attrtype)))"
  by pat_completeness auto
termination
  by (relation "measure (\<lambda>(m, nla, rem, t). nat rem)") (auto dest: nla_next_decreases(1))

declare nla_find.simps [simp del]

definition nla_find_nested :: "bytes \<Rightarrow> nat \<Rightarrow> nat \<Rightarrow> nat option option" where
  "nla_find_nested m nla attrtype = do {
     l \<leftarrow> nla_len m nla;
     nla_find m (nla + NLA_HDRLEN) l attrtype }"

datatype nla_ptype = NLA_UNSPEC | NLA_U8 | NLA_U16 | NLA_U32 | NLA_U64 | NLA_STRING | NLA_FLAG
  | NLA_MSECS | NLA_NESTED | NLA_NESTED_COMPAT | NLA_NUL_STRING | NLA_BINARY

record nla_policy =
  pt_type :: nla_ptype
  pt_len :: nat

definition nla_attr_minlen :: "nla_ptype \<Rightarrow> nat" where
  "nla_attr_minlen t = (case t of NLA_U8 \<Rightarrow> 1 | NLA_U16 \<Rightarrow> 2 | NLA_U32 \<Rightarrow> 4 | NLA_U64 \<Rightarrow> 8
     | NLA_NESTED \<Rightarrow> NLA_HDRLEN | _ \<Rightarrow> 0)"

definition validate_string :: "bytes \<Rightarrow> nat \<Rightarrow> int \<Rightarrow> nla_policy \<Rightarrow> int option" where
  "validate_string m nla attrlen pt =
     (if attrlen < 1 then Some (- ERANGE)
      else if pt_len pt \<noteq> 0 then do {
        c \<leftarrow> rd m (nla + NLA_HDRLEN + nat attrlen - 1);
        let attrlen = (if c = 0 then attrlen - 1 else attrlen);
        Some (if attrlen > int (pt_len pt) then - ERANGE else 0)
      } else Some 0)"

definition validate_default :: "int \<Rightarrow> nla_policy \<Rightarrow> int" where
  "validate_default attrlen pt =
     (let minlen = (if pt_len pt \<noteq> 0 then pt_len pt
                    else if pt_type pt \<noteq> NLA_UNSPEC then nla_attr_minlen (pt_type pt) else 0)
      in if attrlen < int minlen then - ERANGE else 0)"

definition validate_nla :: "bytes \<Rightarrow> nat \<Rightarrow> nat \<Rightarrow> (nat \<Rightarrow> nla_policy) \<Rightarrow> int option" where
  "validate_nla m nla maxtype policy = do {
     attrlen \<leftarrow> nla_len m nla;
     type \<leftarrow> nla_type m nla;
     if type = 0 \<or> type > maxtype then Some 0
     else let pt = policy type in
       (case pt_type pt of
          NLA_FLAG \<Rightarrow> Some (if attrlen > 0 then - ERANGE else 0)
        | NLA_NUL_STRING \<Rightarrow> do {
            let minlen = (if pt_len pt \<noteq> 0 then min attrlen (int (pt_len pt) + 1) else attrlen);
            if minlen = 0 then Some (- EINVAL) else do {
              z \<leftarrow> memchr (drop (nla + NLA_HDRLEN) m) 0 (nat (minlen mod 2 ^ 32));
              if z = None then Some (- EINVAL) else validate_string m nla attrlen pt } }
        | NLA_STRING \<Rightarrow> validate_string m nla attrlen pt
        | NLA_BINARY \<Rightarrow> Some (if pt_len pt \<noteq> 0 \<and> attrlen > int (pt_len pt) then - ERANGE else 0)
        | NLA_NESTED_COMPAT \<Rightarrow>
            (if attrlen < int (pt_len pt) then Some (- ERANGE)
             else if attrlen < int (nla_align (pt_len pt)) then Some 0
             else if attrlen < int (nla_align (pt_len pt)) + int NLA_HDRLEN then Some (- ERANGE)
             else do {
               l \<leftarrow> nla_len m (nla + NLA_HDRLEN + nla_align (pt_len pt));
               Some (if attrlen < int (nla_align (pt_len pt)) + int NLA_HDRLEN + l then - ERANGE else 0) })
        | NLA_NESTED \<Rightarrow> Some (if attrlen = 0 then 0 else validate_default attrlen pt)
        | _ \<Rightarrow> Some (validate_default attrlen pt)) }"

function nla_validate :: "bytes \<Rightarrow> nat \<Rightarrow> int \<Rightarrow> nat \<Rightarrow> (nat \<Rightarrow> nla_policy) \<Rightarrow> int option" where
  "nla_validate m nla rem maxtype policy =
     (case nla_ok m nla rem of None \<Rightarrow> None | Some False \<Rightarrow> Some 0
      | Some True \<Rightarrow> (case validate_nla m nla maxtype policy of None \<Rightarrow> None
        | Some err \<Rightarrow> if err < 0 then Some err
          else (case nla_next m nla rem of None \<Rightarrow> None
            | Some (nla', rem') \<Rightarrow> nla_validate m nla' rem' maxtype policy)))"
  by pat_completeness auto
termination
  by (relation "measure (\<lambda>(m, nla, rem, t, p). nat rem)") (auto dest: nla_next_decreases(1))

declare nla_validate.simps [simp del]

text \<open>Body and loop of \<open>nla_parse\<close>; \<open>tb\<close> maps a type to its attribute, a missing policy is
  \<open>None\<close>.\<close>

definition nla_parse_body :: "bytes \<Rightarrow> nat \<Rightarrow> nat \<Rightarrow> (nat \<Rightarrow> nla_policy) option \<Rightarrow> (nat \<Rightarrow> nat option)
    \<Rightarrow> (int \<times> (nat \<Rightarrow> nat option)) option" where
  "nla_parse_body m nla maxtype policy tb = do {
     type \<leftarrow> nla_type m nla;
     if 0 < type \<and> type \<le> maxtype then do {
       err \<leftarrow> (case policy of None \<Rightarrow> Some 0 | Some p \<Rightarrow> validate_nla m nla maxtype p);
       Some (if err < 0 then (err, tb) else (0, tb(type := Some nla)))
     } else Some (0, tb) }"

function nla_parse_loop :: "bytes \<Rightarrow> nat \<Rightarrow> int \<Rightarrow> nat \<Rightarrow> (nat \<Rightarrow> nla_policy) option \<Rightarrow> (nat \<Rightarrow> nat option)
    \<Rightarrow> (int \<times> (nat \<Rightarrow> nat option)) option" where
  "nla_parse_loop m nla rem maxtype policy tb =
     (case nla_ok m nla rem of None \<Rightarrow> None | Some False \<Rightarrow> Some (0, tb)
      | Some True \<Rightarrow> (case nla_parse_body m nla maxtype policy tb of None \<Rightarrow> None
        | Some (err, tb') \<Rightarrow> if err < 0 then Some (err, tb')
          else (case nla_next m nla rem of None \<Rightarrow> None
            | Some (nla', rem') \<Rightarrow> nla_parse_loop m nla' rem' maxtype policy tb')))"
  by pat_completeness auto
termination
  by (relation "measure (\<lambda>(m, nla, rem, t, p, tb). nat rem)") (auto dest: nla_next_decreases(1))

declare nla_parse_loop.simps [simp del]

definition nla_parse :: "bytes \<Rightarrow> nat \<Rightarrow> nat \<Rightarrow> int \<Rightarrow> (nat \<Rightarrow> nla_policy) option \<Rightarrow> (int \<times> (nat \<Rightarrow> nat option)) option" where
  "nla_parse m maxtype head len policy = nla_parse_loop m head len maxtype policy (\<lambda>_. None)"

text \<open>As in the source, the loop of \<open>nla_policy_len\<close> does not advance \<open>p\<close>.\<close>

definition policy_entry_len :: "nla_policy \<Rightarrow> nat" where
  "policy_entry_len pt = (if pt_len pt \<noteq> 0 then nla_total_size (pt_len pt)
     else if nla_attr_minlen (pt_type pt) \<noteq> 0 then nla_total_size (nla_attr_minlen (pt_type pt)) else 0)"

fun nla_policy_len :: "nla_policy list \<Rightarrow> nat \<Rightarrow> nat option" where
  "nla_policy_len p 0 = Some 0"
| "nla_policy_len [] (Suc n) = None"
| "nla_policy_len (pt # p) (Suc n) = map_option (\<lambda>len. len + policy_entry_len pt) (nla_policy_len (pt # p) n)"

subsection \<open>Copying payloads\<close>

definition nla_strlcpy :: "bytes \<Rightarrow> nat \<Rightarrow> nat \<Rightarrow> nat \<Rightarrow> (nat \<times> bytes) option" where
  "nla_strlcpy m dst nla dstsize = do {
     l \<leftarrow> nla_len m nla;
     let srclen = nat (l mod 2 ^ 32);
     let src = nla + NLA_HDRLEN;
     srclen \<leftarrow> (if srclen > 0 then do {
       c \<leftarrow> rd m (src + srclen - 1);
       Some (if c = 0 then srclen - 1 else srclen) } else Some srclen);
     if dstsize > 0 then do {
       let len = (if srclen \<ge> dstsize then dstsize - 1 else srclen);
       m \<leftarrow> memset m dst 0 dstsize;
       m \<leftarrow> memcpy m dst src len;
       Some (srclen, m)
     } else Some (srclen, m) }"

definition nla_memcpy :: "bytes \<Rightarrow> nat \<Rightarrow> nat \<Rightarrow> int \<Rightarrow> (int \<times> bytes) option" where
  "nla_memcpy m dest src count = do {
     l \<leftarrow> nla_len m src;
     let minlen = min count l;
     m \<leftarrow> memcpy m dest (src + NLA_HDRLEN) (nat (minlen mod 2 ^ 32));
     Some (minlen, m) }"

definition nla_memcmp :: "bytes \<Rightarrow> nat \<Rightarrow> bytes \<Rightarrow> nat \<Rightarrow> int option" where
  "nla_memcmp m nla data sz = do {
     l \<leftarrow> nla_len m nla;
     let d = l - int sz;
     if d = 0 then memcmp (drop (nla + NLA_HDRLEN) m) data sz else Some d }"

definition nla_strcmp :: "bytes \<Rightarrow> nat \<Rightarrow> bytes \<Rightarrow> int option" where
  "nla_strcmp m nla str = do {
     n \<leftarrow> strlen str;
     let len = n + 1;
     l \<leftarrow> nla_len m nla;
     let d = l - int len;
     if d = 0 then memcmp (drop (nla + NLA_HDRLEN) m) str len else Some d }"

subsection \<open>Building messages\<close>

text \<open>The part of a socket buffer the builders use: its memory and its tail; \<open>skb_put\<close> panics
  (\<open>None\<close>) when the buffer is too small.\<close>

record skb =
  skb_mem :: bytes
  skb_tail :: nat

definition skb_tailroom :: "skb \<Rightarrow> nat" where
  "skb_tailroom skb = length (skb_mem skb) - skb_tail skb"

definition skb_put :: "skb \<Rightarrow> nat \<Rightarrow> (nat \<times> skb) option" where
  "skb_put skb len = (if skb_tail skb + len \<le> length (skb_mem skb)
     then Some (skb_tail skb, skb\<lparr>skb_tail := skb_tail skb + len\<rparr>) else None)"

definition nla_reserve' :: "skb \<Rightarrow> nat \<Rightarrow> nat \<Rightarrow> (nat \<times> skb) option" where
  "nla_reserve' skb attrtype attrlen = do {
     (nla, skb) \<leftarrow> skb_put skb (nla_total_size attrlen);
     m \<leftarrow> put16 (skb_mem skb) (nla + 2) attrtype;
     m \<leftarrow> put16 m nla (nla_attr_size attrlen);
     l \<leftarrow> nla_lenf m nla;
     m \<leftarrow> memset m (nla + l) 0 (nla_padlen attrlen);
     Some (nla, skb\<lparr>skb_mem := m\<rparr>) }"

definition nla_reserve_nohdr' :: "skb \<Rightarrow> nat \<Rightarrow> (nat \<times> skb) option" where
  "nla_reserve_nohdr' skb attrlen = do {
     (start, skb) \<leftarrow> skb_put skb (nla_align attrlen);
     m \<leftarrow> memset (skb_mem skb) start 0 (nla_align attrlen);
     Some (start, skb\<lparr>skb_mem := m\<rparr>) }"

definition nla_reserve :: "skb \<Rightarrow> nat \<Rightarrow> nat \<Rightarrow> (nat option \<times> skb) option" where
  "nla_reserve skb attrtype attrlen =
     (if skb_tailroom skb < nla_total_size attrlen then Some (None, skb)
      else map_option (\<lambda>(nla, skb). (Some nla, skb)) (nla_reserve' skb attrtype attrlen))"

definition nla_reserve_nohdr :: "skb \<Rightarrow> nat \<Rightarrow> (nat option \<times> skb) option" where
  "nla_reserve_nohdr skb attrlen =
     (if skb_tailroom skb < nla_align attrlen then Some (None, skb)
      else map_option (\<lambda>(start, skb). (Some start, skb)) (nla_reserve_nohdr' skb attrlen))"

definition nla_put' :: "skb \<Rightarrow> nat \<Rightarrow> nat \<Rightarrow> bytes \<Rightarrow> skb option" where
  "nla_put' skb attrtype attrlen data = do {
     (nla, skb) \<leftarrow> nla_reserve' skb attrtype attrlen;
     d \<leftarrow> mem_rd data 0 attrlen;
     m \<leftarrow> mem_wr (skb_mem skb) (nla + NLA_HDRLEN) d;
     Some (skb\<lparr>skb_mem := m\<rparr>) }"

definition nla_put_nohdr' :: "skb \<Rightarrow> nat \<Rightarrow> bytes \<Rightarrow> skb option" where
  "nla_put_nohdr' skb attrlen data = do {
     (start, skb) \<leftarrow> nla_reserve_nohdr' skb attrlen;
     d \<leftarrow> mem_rd data 0 attrlen;
     m \<leftarrow> mem_wr (skb_mem skb) start d;
     Some (skb\<lparr>skb_mem := m\<rparr>) }"

definition nla_put :: "skb \<Rightarrow> nat \<Rightarrow> nat \<Rightarrow> bytes \<Rightarrow> (int \<times> skb) option" where
  "nla_put skb attrtype attrlen data =
     (if skb_tailroom skb < nla_total_size attrlen then Some (- EMSGSIZE, skb)
      else map_option (\<lambda>skb. (0, skb)) (nla_put' skb attrtype attrlen data))"

definition nla_put_nohdr :: "skb \<Rightarrow> nat \<Rightarrow> bytes \<Rightarrow> (int \<times> skb) option" where
  "nla_put_nohdr skb attrlen data =
     (if skb_tailroom skb < nla_align attrlen then Some (- EMSGSIZE, skb)
      else map_option (\<lambda>skb. (0, skb)) (nla_put_nohdr' skb attrlen data))"

definition nla_append :: "skb \<Rightarrow> nat \<Rightarrow> bytes \<Rightarrow> (int \<times> skb) option" where
  "nla_append skb attrlen data =
     (if skb_tailroom skb < nla_align attrlen then Some (- EMSGSIZE, skb) else do {
        (start, skb) \<leftarrow> skb_put skb attrlen;
        d \<leftarrow> mem_rd data 0 attrlen;
        m \<leftarrow> mem_wr (skb_mem skb) start d;
        Some (0, skb\<lparr>skb_mem := m\<rparr>) })"

subsection \<open>Iteration stays inside the stream\<close>

inductive nla_in :: "bytes \<Rightarrow> nat \<Rightarrow> int \<Rightarrow> nat \<Rightarrow> bool" for m where
  here: "nla_ok m a rem = Some True \<Longrightarrow> nla_in m a rem a"
| later: "nla_ok m a rem = Some True \<Longrightarrow> nla_next m a rem = Some (a', rem') \<Longrightarrow> nla_in m a' rem' p
    \<Longrightarrow> nla_in m a rem p"

definition stream_ok :: "bytes \<Rightarrow> nat \<Rightarrow> int \<Rightarrow> bool" where
  "stream_ok m a rem \<longleftrightarrow> (4 \<le> rem \<longrightarrow> a + nat rem \<le> length m)"

lemma get16_in_bounds: "a + 2 \<le> length m \<Longrightarrow> \<exists>v. get16 m a = Some v"
  by (simp add: get16_def)

lemma stream_okD:
  assumes "stream_ok m a rem" "4 \<le> rem"
  shows "\<exists>l. nla_lenf m a = Some l" "\<exists>t. nla_type m a = Some t" "\<exists>a' r. nla_next m a rem = Some (a', r)"
proof -
  have "a + 4 \<le> length m" using assms by (auto simp: stream_ok_def)
  then obtain l t where "get16 m a = Some l" "get16 m (a + 2) = Some t"
    using get16_in_bounds [of a m] get16_in_bounds [of "a + 2" m] by auto
  then show "\<exists>l. nla_lenf m a = Some l" "\<exists>t. nla_type m a = Some t" "\<exists>a' r. nla_next m a rem = Some (a', r)"
    by (simp_all add: nla_lenf_def nla_type_def nla_next_def Let_def)
qed

lemma stream_ok_next:
  assumes "stream_ok m a rem" "nla_ok m a rem = Some True" "nla_next m a rem = Some (a', rem')"
  shows "stream_ok m a' rem'"
proof -
  have "4 \<le> rem" using assms(2) by (rule nla_okD)
  then have "a + nat rem \<le> length m" using assms(1) by (simp add: stream_ok_def)
  moreover have "int a' + rem' = int a + rem" using assms(2,3) by (rule nla_next_decreases)
  ultimately show ?thesis by (auto simp: stream_ok_def)
qed

lemma nla_ok_total: "stream_ok m a rem \<Longrightarrow> \<exists>b. nla_ok m a rem = Some b"
  using stream_okD(1) [of m a rem] by (fastforce simp: nla_ok_def)

lemma nla_in_bounds: "nla_in m a rem p \<Longrightarrow> stream_ok m a rem \<Longrightarrow>
  a \<le> p \<and> (\<exists>l. nla_lenf m p = Some l \<and> 4 \<le> l \<and> int p + int l \<le> int a + rem)"
proof (induction rule: nla_in.induct)
  case (here a rem)
  then show ?case by (auto elim: nla_okD)
next
  case (later a rem a' rem' p)
  have "stream_ok m a' rem'" using later.prems later.hyps(1,2) by (rule stream_ok_next)
  with later nla_next_decreases(2,3) [OF later.hyps(1,2)] show ?case by auto
qed

lemma nla_find_result:
  "stream_ok m a rem \<Longrightarrow> \<exists>r. nla_find m a rem t = Some r
    \<and> (case r of None \<Rightarrow> True | Some p \<Rightarrow> nla_in m a rem p \<and> nla_type m p = Some t)"
proof (induction m a rem t rule: nla_find.induct)
  case (1 m a rem t)
  obtain b where b: "nla_ok m a rem = Some b" using nla_ok_total [OF "1.prems"] by blast
  show ?case
  proof (cases b)
    case False
    then show ?thesis using b by (simp add: nla_find.simps)
  next
    case True
    then have ok: "nla_ok m a rem = Some True" using b by simp
    have r4: "4 \<le> rem" using ok by (rule nla_okD)
    obtain ty a' rem' where n: "nla_type m a = Some ty" "nla_next m a rem = Some (a', rem')"
      using stream_okD [OF "1.prems" r4] by blast
    show ?thesis
    proof (cases "ty = t")
      case True
      then show ?thesis using ok n by (simp add: nla_find.simps nla_in.here)
    next
      case False
      from stream_ok_next [OF "1.prems" ok n(2)]
      obtain r where r: "nla_find m a' rem' t = Some r"
          "case r of None \<Rightarrow> True | Some p \<Rightarrow> nla_in m a' rem' p \<and> nla_type m p = Some t"
        using "1.IH" [OF ok _ n(1) False n(2)] by auto
      have "nla_find m a rem t = Some r" using ok n False r(1) by (simp add: nla_find.simps [of m a])
      then show ?thesis using r(2) nla_in.later [OF ok n(2)] by (auto split: option.splits)
    qed
  qed
qed

lemma nla_parse_body_entries:
  assumes "nla_parse_body m a maxtype policy tb = Some (err, tb1)" "tb1 t = Some p"
  shows "tb t = Some p \<or> (p = a \<and> nla_type m p = Some t \<and> 0 < t \<and> t \<le> maxtype)"
  using assms by (auto simp: nla_parse_body_def split: bind_splits if_splits)

lemma nla_parse_loop_entries:
  "nla_parse_loop m a rem maxtype policy tb = Some (err, tb') \<Longrightarrow> tb' t = Some p \<Longrightarrow>
     tb t = Some p \<or> (nla_in m a rem p \<and> nla_type m p = Some t \<and> 0 < t \<and> t \<le> maxtype)"
proof (induction m a rem maxtype policy tb rule: nla_parse_loop.induct)
  case (1 m a rem maxtype policy tb)
  note run = "1.prems"(1) [unfolded nla_parse_loop.simps [of m a]]
  show ?case
  proof (cases "nla_ok m a rem")
    case None
    with run show ?thesis by simp
  next
    case (Some b)
    show ?thesis
    proof (cases b)
      case False
      with run Some "1.prems"(2) show ?thesis by simp
    next
      case True
      then have ok: "nla_ok m a rem = Some True" using Some by simp
      obtain e tb1 where body: "nla_parse_body m a maxtype policy tb = Some (e, tb1)"
        using run ok by (auto split: option.splits)
      note entries = nla_parse_body_entries [OF body, of t p]
      show ?thesis
      proof (cases "e < 0")
        case True
        then have "tb' = tb1" using run ok body by simp
        with entries "1.prems"(2) show ?thesis using nla_in.here [OF ok] by auto
      next
        case False
        then obtain a' rem' where n: "nla_next m a rem = Some (a', rem')"
          "nla_parse_loop m a' rem' maxtype policy tb1 = Some (err, tb')"
          using run ok body by (auto split: option.splits)
        from "1.IH" [OF ok _ body refl False n(1) refl n(2) "1.prems"(2)] entries
        show ?thesis using nla_in.intros ok n(1) by blast
      qed
    qed
  qed
qed

lemma nla_validate_each:
  "nla_in m a rem p \<Longrightarrow> nla_validate m a rem maxtype policy = Some err \<Longrightarrow> 0 \<le> err \<Longrightarrow>
     \<exists>e. validate_nla m p maxtype policy = Some e \<and> 0 \<le> e"
proof (induction rule: nla_in.induct)
  case (here a rem)
  then show ?case by (auto simp: nla_validate.simps [of m a] split: option.splits if_splits)
next
  case (later a rem a' rem' p)
  from later.prems(1) later.hyps(1,2) later.prems(2)
  have "nla_validate m a' rem' maxtype policy = Some err"
    by (auto simp: nla_validate.simps [of m a] split: option.splits if_splits)
  then show ?case using later.IH later.prems(2) by blast
qed

subsection \<open>Encoding and decoding\<close>

definition le16 :: "nat \<Rightarrow> bytes" where
  "le16 v = [of_nat v, of_nat (v div 256)]"

definition enc_attr :: "nat \<Rightarrow> bytes \<Rightarrow> bytes" where
  "enc_attr t d = le16 (nla_attr_size (length d)) @ le16 t @ d @ replicate (nla_padlen (length d)) 0"

definition attr_ok :: "nat \<times> bytes \<Rightarrow> bool" where
  "attr_ok = (\<lambda>(t, d). t < 16384 \<and> nla_attr_size (length d) < 65536)"

abbreviation enc_attrs :: "(nat \<times> bytes) list \<Rightarrow> bytes" where
  "enc_attrs attrs \<equiv> concat (map (\<lambda>(t, d). enc_attr t d) attrs)"

lemma le16_length [simp]: "length (le16 v) = 2"
  by (simp add: le16_def)

lemma enc_attr_length: "length (enc_attr t d) = nla_total_size (length d)"
  using nla_align_ge [of "nla_attr_size (length d)"]
  by (simp add: enc_attr_def nla_padlen_def nla_total_size_def nla_attr_size_def)

lemma drop_past_prefix: "drop a m = x @ r \<Longrightarrow> drop (a + length x) m = r"
  by (metis add.commute append_eq_conv_conj drop_drop)

lemma rd_drop: "drop a m = x # r \<Longrightarrow> rd m a = Some x"
  by (metis drop_eq_Nil2 hd_drop_conv_nth list.distinct(1) list.sel(1) not_le rd_def)

lemma get16_drop: "drop a m = le16 v @ r \<Longrightarrow> v < 65536 \<Longrightarrow> get16 m a = Some v"
proof -
  assume d: "drop a m = le16 v @ r" and v: "v < 65536"
  then have "rd m a = Some (of_nat v)" by (simp add: le16_def rd_drop)
  moreover have "drop (a + 1) m = of_nat (v div 256) # r"
    using d by (simp add: le16_def flip: drop_drop) (metis drop_Suc list.sel(3) tl_drop)
  ultimately show ?thesis using v by (simp add: get16_def rd_drop unat_of_nat)
qed

lemma enc_attr_fields:
  assumes "drop a m = enc_attr t d @ r" "attr_ok (t, d)"
  shows "nla_lenf m a = Some (nla_attr_size (length d))" and "nla_type m a = Some t"
    and "nla_len m a = Some (int (length d))" and "take (length d) (drop (a + 4) m) = d"
    and "drop (a + nla_total_size (length d)) m = r"
proof -
  have d2: "drop (a + 2) m = le16 t @ d @ replicate (nla_padlen (length d)) 0 @ r"
    using drop_past_prefix [of a m "le16 (nla_attr_size (length d))"] assms(1) by (simp add: enc_attr_def)
  show l: "nla_lenf m a = Some (nla_attr_size (length d))"
    using assms by (simp add: nla_lenf_def enc_attr_def attr_ok_def get16_drop)
  show "nla_type m a = Some t"
    using d2 assms(2) by (simp add: nla_type_def attr_ok_def get16_drop)
  show "nla_len m a = Some (int (length d))" using l by (simp add: nla_len_def nla_attr_size_def)
  have e: "a + 4 = a + 2 + length (le16 t)" by simp
  show "take (length d) (drop (a + 4) m) = d" by (simp only: e drop_past_prefix [OF d2]) simp
  have "drop (a + nla_total_size (length d)) m = drop (nla_total_size (length d)) (drop a m)"
    by (simp add: add.commute)
  then show "drop (a + nla_total_size (length d)) m = r"
    using assms(1) enc_attr_length [of t d] by simp
qed

lemma nla_find_encoded:
  "drop a m = enc_attrs attrs @ r \<Longrightarrow> list_all attr_ok attrs \<Longrightarrow>
   (case find (\<lambda>(t', d). t' = t) attrs of
      None \<Rightarrow> nla_find m a (int (length (enc_attrs attrs))) t = Some None
    | Some (t', d) \<Rightarrow> \<exists>p. nla_find m a (int (length (enc_attrs attrs))) t = Some (Some p)
        \<and> nla_len m p = Some (int (length d)) \<and> take (length d) (drop (p + 4) m) = d)"
proof (induction attrs arbitrary: a)
  case Nil
  then show ?case by (simp add: nla_find.simps nla_ok_def)
next
  case (Cons x attrs)
  obtain t' d where x: "x = (t', d)" by fastforce
  let ?rem = "int (length (enc_attrs (x # attrs)))"
  have dr: "drop a m = enc_attr t' d @ enc_attrs attrs @ r" and ok: "attr_ok (t', d)" "list_all attr_ok attrs"
    using Cons.prems x by auto
  note f = enc_attr_fields [OF dr ok(1)]
  have rem: "?rem = int (nla_total_size (length d)) + int (length (enc_attrs attrs))"
    using x enc_attr_length by simp
  have nok: "nla_ok m a ?rem = Some True"
    using f(1) rem nla_align_ge [of "nla_attr_size (length d)"]
    by (simp add: nla_ok_def nla_total_size_def nla_attr_size_def)
  have nx: "nla_next m a ?rem = Some (a + nla_total_size (length d), int (length (enc_attrs attrs)))"
    using f(1) rem by (simp add: nla_next_def nla_total_size_def Let_def)
  show ?case
  proof (cases "t' = t")
    case True
    then show ?thesis using x nok f by (simp add: nla_find.simps [of m a])
  next
    case False
    then have step: "nla_find m a ?rem t = nla_find m (a + nla_total_size (length d)) (int (length (enc_attrs attrs))) t"
      using nok nx f(2) by (subst nla_find.simps) simp
    have fd: "find (\<lambda>(t', d). t' = t) (x # attrs) = find (\<lambda>(t', d). t' = t) attrs" using x False by simp
    show ?thesis unfolding fd step using Cons.IH [OF f(5) ok(2)] by simp
  qed
qed

lemma mem_wr_middle: "length pre = a \<Longrightarrow> length bs = length old \<Longrightarrow> mem_wr (pre @ old @ post) a bs = Some (pre @ bs @ post)"
  by (simp add: mem_wr_def)

lemma two_updates: "a + 2 \<le> length m \<Longrightarrow> m[a := x, a + 1 := y] = take a m @ [x, y] @ drop (a + 2) m"
proof (rule nth_equalityI)
  fix i assume a: "a + 2 \<le> length m" and "i < length (m[a := x, a + 1 := y])"
  then have i: "i < length m" by simp
  consider "i < a" | "i = a" | "i = a + 1" | "a + 2 \<le> i" by linarith
  then show "m[a := x, a + 1 := y] ! i = (take a m @ [x, y] @ drop (a + 2) m) ! i"
  proof cases
    case 4
    then obtain j where j: "i = a + 2 + j" by (metis le_iff_add)
    from 4 have "m[a := x, a + 1 := y] ! i = m ! i" by simp
    moreover have "(take a m @ [x, y] @ drop (a + 2) m) ! i = drop (a + 2) m ! j"
      using j a by (simp add: nth_append)
    ultimately show ?thesis using j i by simp
  qed (use a in \<open>simp_all add: nth_append\<close>)
qed simp

lemma put16_mem_wr: "a + 2 \<le> length m \<Longrightarrow> put16 m a v = mem_wr m a (le16 v)"
  using two_updates [of a m "of_nat v" "of_nat (v div 256)"] by (simp add: put16_def mem_wr_def le16_def)

lemma memset_mem_wr: "a + n \<le> length m \<Longrightarrow> memset m a c n = Some (take a m @ replicate n c @ drop (a + n) m)"
proof (induction n arbitrary: m a)
  case 0
  then show ?case by simp
next
  case (Suc n)
  then have "memset (m[a := c]) (a + 1) c n
      = Some (take (a + 1) (m[a := c]) @ replicate n c @ drop (a + 1 + n) (m[a := c]))"
    by (intro Suc.IH) simp
  moreover have "take (a + 1) (m[a := c]) = take a m @ [c]"
    using Suc.prems by (simp add: take_Suc_conv_app_nth)
  ultimately show ?case using Suc.prems by simp
qed

lemma nla_put_appends:
  assumes ok: "attr_ok (t, d)" and room: "skb_tail s + nla_total_size (length d) \<le> length (skb_mem s)"
  obtains s' where "nla_put s t (length d) d = Some (0, s')"
    and "skb_tail s' = skb_tail s + nla_total_size (length d)" and "length (skb_mem s') = length (skb_mem s)"
    and "take (skb_tail s') (skb_mem s') = take (skb_tail s) (skb_mem s) @ enc_attr t d"
proof -
  let ?n = "length d" and ?a = "skb_tail s" and ?m = "skb_mem s"
  let ?pad = "nla_padlen ?n" and ?len = "nla_attr_size ?n"
  have tot: "nla_total_size ?n = 4 + ?n + ?pad"
    using nla_align_ge [of ?len] by (simp add: nla_padlen_def nla_total_size_def nla_attr_size_def)
  define pre where "pre = take ?a ?m"
  define o1 where "o1 = take 2 (drop ?a ?m)"
  define o2 where "o2 = take 2 (drop (?a + 2) ?m)"
  define o3 where "o3 = take ?n (drop (?a + 4) ?m)"
  define o4 where "o4 = take ?pad (drop (?a + 4 + ?n) ?m)"
  define post where "post = drop (?a + 4 + ?n + ?pad) ?m"
  have split: "drop x ?m = take y (drop x ?m) @ drop (x + y) ?m" for x y
    by (metis add.commute append_take_drop_id drop_drop)
  have e4: "?a + 2 + 2 = ?a + 4" by simp
  have "drop (?a + 4 + ?n) ?m = o4 @ post" unfolding o4_def post_def by (rule split)
  then have "drop (?a + 4) ?m = o3 @ o4 @ post" unfolding o3_def by (metis split)
  then have "drop (?a + 2) ?m = o2 @ o3 @ o4 @ post" unfolding o2_def by (metis split e4)
  then have "drop ?a ?m = o1 @ o2 @ o3 @ o4 @ post" unfolding o1_def by (metis split)
  then have m: "?m = pre @ o1 @ o2 @ o3 @ o4 @ post" unfolding pre_def by (metis append_take_drop_id)
  have l: "length pre = ?a" "length o1 = 2" "length o2 = 2" "length o3 = ?n" "length o4 = ?pad"
    using room tot by (simp_all add: pre_def o1_def o2_def o3_def o4_def)
  let ?t = "le16 t" and ?l = "le16 ?len" and ?z = "replicate ?pad (0::u8)"
  have w1: "put16 ?m (?a + 2) t = Some (pre @ o1 @ ?t @ o3 @ o4 @ post)"
    using mem_wr_middle [of "pre @ o1" "?a + 2" ?t o2 "o3 @ o4 @ post"] room tot l m
    by (simp add: put16_mem_wr)
  have w2: "put16 (pre @ o1 @ ?t @ o3 @ o4 @ post) ?a ?len = Some (pre @ ?l @ ?t @ o3 @ o4 @ post)"
    using mem_wr_middle [of pre ?a ?l o1 "?t @ o3 @ o4 @ post"] l by (simp add: put16_mem_wr)
  have r: "nla_lenf (pre @ ?l @ ?t @ o3 @ o4 @ post) ?a = Some ?len"
    using ok l by (simp add: nla_lenf_def attr_ok_def get16_drop)
  have w3: "memset (pre @ ?l @ ?t @ o3 @ o4 @ post) (?a + ?len) 0 ?pad = Some (pre @ ?l @ ?t @ o3 @ ?z @ post)"
    using memset_mem_wr [of "?a + ?len" ?pad "pre @ ?l @ ?t @ o3 @ o4 @ post" 0] l
    by (simp add: nla_attr_size_def)
  have w4: "mem_wr (pre @ ?l @ ?t @ o3 @ ?z @ post) (?a + 4) d = Some (pre @ ?l @ ?t @ d @ ?z @ post)"
  proof -
    have "length (pre @ ?l @ ?t) = ?a + 4" using l(1) by simp
    from mem_wr_middle [OF this l(4) [symmetric], of "?z @ post"] show ?thesis by simp
  qed
  define s' where "s' = s\<lparr>skb_tail := ?a + nla_total_size ?n, skb_mem := pre @ ?l @ ?t @ d @ ?z @ post\<rparr>"
  have "nla_put s t ?n d = Some (0, s')"
    using room w1 w2 w3 w4 r
    by (simp add: nla_put_def nla_put'_def nla_reserve'_def skb_put_def skb_tailroom_def mem_rd_def s'_def)
  moreover have "length (skb_mem s') = length ?m" using l by (subst m) (simp add: s'_def)
  moreover have "take (skb_tail s') (skb_mem s') = pre @ enc_attr t d"
    using l tot by (simp add: s'_def enc_attr_def)
  ultimately show ?thesis using that by (simp add: s'_def pre_def)
qed

text \<open>A message built by a sequence of \<open>nla_put\<close> calls.\<close>

fun nla_put_all :: "skb \<Rightarrow> (nat \<times> bytes) list \<Rightarrow> (int \<times> skb) option" where
  "nla_put_all s [] = Some (0, s)"
| "nla_put_all s ((t, d) # attrs) = do {
     (err, s) \<leftarrow> nla_put s t (length d) d;
     if err = 0 then nla_put_all s attrs else Some (err, s) }"

lemma nla_put_all_appends:
  "list_all attr_ok attrs \<Longrightarrow> skb_tail s + length (enc_attrs attrs) \<le> length (skb_mem s) \<Longrightarrow>
   \<exists>s'. nla_put_all s attrs = Some (0, s') \<and> length (skb_mem s') = length (skb_mem s)
     \<and> take (skb_tail s') (skb_mem s') = take (skb_tail s) (skb_mem s) @ enc_attrs attrs
     \<and> skb_tail s' = skb_tail s + length (enc_attrs attrs)"
proof (induction attrs arbitrary: s)
  case Nil
  then show ?case by simp
next
  case (Cons x attrs)
  obtain t d where x: "x = (t, d)" by fastforce
  have ok: "attr_ok (t, d)" "list_all attr_ok attrs" using Cons.prems(1) x by auto
  have room: "skb_tail s + nla_total_size (length d) \<le> length (skb_mem s)"
    using Cons.prems(2) x enc_attr_length by simp
  obtain s1 where s1: "nla_put s t (length d) d = Some (0, s1)"
    "skb_tail s1 = skb_tail s + nla_total_size (length d)" "length (skb_mem s1) = length (skb_mem s)"
    "take (skb_tail s1) (skb_mem s1) = take (skb_tail s) (skb_mem s) @ enc_attr t d"
    using ok(1) room by (rule nla_put_appends)
  have "skb_tail s1 + length (enc_attrs attrs) \<le> length (skb_mem s1)"
    using Cons.prems(2) x s1 enc_attr_length by simp
  from Cons.IH [OF ok(2) this] show ?case using x s1 enc_attr_length by auto
qed

subsection \<open>Properties\<close>

definition nla_example :: bytes where
  "nla_example = [5, 0, 1, 0, 7, 0, 0, 0, 8, 0, 2, 0, 1, 2, 3, 4]"

text \<open>C24. Searching a stream always ends and, for a stream that lies inside its memory, never
  reads outside it; a hit is an attribute of the wanted type whose header and payload lie
  inside the stream.\<close>

theorem nla_find_stays_in_stream:
  assumes "stream_ok m a rem"
  shows "\<exists>r. nla_find m a rem t = Some r \<and> (case r of None \<Rightarrow> True
    | Some p \<Rightarrow> nla_type m p = Some t \<and> a \<le> p
        \<and> (\<exists>l. nla_lenf m p = Some l \<and> 4 \<le> l \<and> int p + int l \<le> int a + rem))"
  using nla_find_result [OF assms, of t] nla_in_bounds [OF _ assms] by (auto split: option.splits)

theorem nla_find_stays_in_stream_witness:
  "\<exists>r. nla_find nla_example 0 16 2 = Some r \<and> (case r of None \<Rightarrow> True
    | Some p \<Rightarrow> nla_type nla_example p = Some 2 \<and> 0 \<le> p
        \<and> (\<exists>l. nla_lenf nla_example p = Some l \<and> 4 \<le> l \<and> int p + int l \<le> int 0 + 16))"
  by (rule nla_find_stays_in_stream) (simp add: stream_ok_def nla_example_def)

text \<open>C25. Round trip: after a message is built with \<open>nla_put\<close>, \<open>nla_find\<close> over the
  written bytes finds, for every type, exactly the first attribute put with that type, with
  its payload intact, and reports none when there is none.\<close>

theorem nla_put_find_roundtrip:
  assumes "list_all attr_ok attrs" and "skb_tail s + length (enc_attrs attrs) \<le> length (skb_mem s)"
  shows "\<exists>s'. nla_put_all s attrs = Some (0, s') \<and>
    (case find (\<lambda>(t', d). t' = t) attrs of
       None \<Rightarrow> nla_find (skb_mem s') (skb_tail s) (int (skb_tail s' - skb_tail s)) t = Some None
     | Some (t', d) \<Rightarrow> \<exists>p. nla_find (skb_mem s') (skb_tail s) (int (skb_tail s' - skb_tail s)) t = Some (Some p)
         \<and> nla_len (skb_mem s') p = Some (int (length d)) \<and> take (length d) (drop (p + 4) (skb_mem s')) = d)"
proof -
  obtain s' where s': "nla_put_all s attrs = Some (0, s')" "length (skb_mem s') = length (skb_mem s)"
    "take (skb_tail s') (skb_mem s') = take (skb_tail s) (skb_mem s) @ enc_attrs attrs"
    "skb_tail s' = skb_tail s + length (enc_attrs attrs)"
    using nla_put_all_appends [OF assms] by blast
  have "skb_mem s' = (take (skb_tail s) (skb_mem s) @ enc_attrs attrs) @ drop (skb_tail s') (skb_mem s')"
    using s'(3) by (metis append_take_drop_id)
  then have "drop (skb_tail s) (skb_mem s') = enc_attrs attrs @ drop (skb_tail s') (skb_mem s')"
    using assms(2) by (metis (no_types, lifting) append.assoc append_eq_conv_conj le_add1 le_trans length_take min.absorb2)
  note found = nla_find_encoded [OF this assms(1), of t]
  have e: "skb_tail s' - skb_tail s = length (enc_attrs attrs)" using s'(4) by simp
  show ?thesis
  proof (intro exI conjI)
    show "nla_put_all s attrs = Some (0, s')" by (rule s'(1))
  qed (simp only: e found)
qed

theorem nla_put_find_roundtrip_witness:
  "\<exists>s'. nla_put_all \<lparr>skb_mem = replicate 16 9, skb_tail = 0\<rparr> [(1, [7]), (2, [8])] = Some (0, s') \<and>
    (\<exists>p. nla_find (skb_mem s') 0 (int (skb_tail s' - 0)) 2 = Some (Some p)
       \<and> nla_len (skb_mem s') p = Some 1 \<and> take 1 (drop (p + 4) (skb_mem s')) = [8])"
  using nla_put_find_roundtrip [of "[(1, [7]), (2, [8])]" "\<lparr>skb_mem = replicate 16 9, skb_tail = 0\<rparr>" 2]
  by (simp add: attr_ok_def nla_attr_size_def enc_attr_length nla_total_size_def nla_align_def)

text \<open>Every entry of the table \<open>nla_parse\<close> fills is an attribute of the stream, of the
  type it is filed under and within \<open>1..maxtype\<close>, whatever the stream contains.\<close>

theorem nla_parse_table_sound:
  assumes "nla_parse m maxtype head len policy = Some (err, tb)" and "tb t = Some p"
  shows "nla_in m head len p \<and> nla_type m p = Some t \<and> 0 < t \<and> t \<le> maxtype"
  using nla_parse_loop_entries [of m head len maxtype policy "\<lambda>_. None" err tb t p] assms
  by (simp add: nla_parse_def)

theorem nla_parse_table_sound_witness:
  "nla_in nla_example 0 16 8 \<and> nla_type nla_example 8 = Some 2 \<and> 0 < (2::nat) \<and> 2 \<le> (3::nat)"
proof -
  obtain tb where "nla_parse nla_example 3 0 16 None = Some (0, tb)" "tb 2 = Some 8"
    by (simp add: nla_parse_def nla_parse_loop.simps nla_parse_body_def nla_ok_def nla_next_def nla_lenf_def
        nla_type_def get16_def rd_def nla_example_def nla_align_def Let_def)
  then show ?thesis by (rule nla_parse_table_sound)
qed

text \<open>A stream that \<open>nla_validate\<close> accepts carries, for every attribute whose type the
  policy declares as a fixed-width integer without an explicit length, a payload at least
  that wide: reading the integer stays inside the attribute.\<close>

theorem nla_validate_fixed_width:
  assumes "nla_validate m a rem maxtype policy = Some 0" and "nla_in m a rem p"
    and "nla_type m p = Some t" and "0 < t" and "t \<le> maxtype"
    and "pt_type (policy t) \<in> {NLA_U8, NLA_U16, NLA_U32, NLA_U64}" and "pt_len (policy t) = 0"
  shows "\<exists>l. nla_len m p = Some l \<and> int (nla_attr_minlen (pt_type (policy t))) \<le> l"
proof -
  obtain e where "validate_nla m p maxtype policy = Some e" "0 \<le> e"
    using nla_validate_each [OF assms(2,1)] by auto
  then show ?thesis
    using assms(3-7) by (auto simp: validate_nla_def validate_default_def Let_def split: bind_splits if_splits)
qed

theorem nla_validate_fixed_width_witness:
  "\<exists>l. nla_len nla_example 8 = Some l \<and> int (nla_attr_minlen NLA_U32) \<le> l"
proof -
  let ?pol = "\<lambda>_. \<lparr>pt_type = NLA_U32, pt_len = 0\<rparr>"
  have ok: "nla_ok nla_example 8 8 = Some True"
    by (simp add: nla_ok_def nla_lenf_def get16_def rd_def nla_example_def)
  have v: "nla_validate nla_example 8 8 3 ?pol = Some 0"
    by (simp add: nla_validate.simps validate_nla_def validate_default_def nla_ok_def nla_next_def nla_lenf_def
        nla_len_def nla_type_def get16_def rd_def nla_example_def nla_align_def nla_attr_minlen_def Let_def)
  have t: "nla_type nla_example 8 = Some 2"
    by (simp add: nla_type_def get16_def rd_def nla_example_def)
  show ?thesis
    using nla_validate_fixed_width [OF v nla_in.here [OF ok] t] by simp
qed

text \<open>\<open>nla_policy_len\<close> counts the first policy entry \<open>n\<close> times, because the loop never
  advances its pointer: for a flag entry followed by a 64-bit one it returns 0 although the
  second entry alone needs 12 bytes.\<close>

theorem nla_policy_len_repeats_first:
  "nla_policy_len (pt # ps) n = Some (n * policy_entry_len pt)
   \<and> nla_policy_len [\<lparr>pt_type = NLA_FLAG, pt_len = 0\<rparr>, \<lparr>pt_type = NLA_U64, pt_len = 0\<rparr>] 2 = Some 0
   \<and> policy_entry_len \<lparr>pt_type = NLA_U64, pt_len = 0\<rparr> = 12"
proof -
  have all: "nla_policy_len (pt # ps) n = Some (n * policy_entry_len pt)" for pt ps n
    by (induction n) auto
  show ?thesis
    unfolding all by (simp add: policy_entry_len_def nla_attr_minlen_def nla_total_size_def nla_align_def nla_attr_size_def)
qed

end
