(* ===== verification/Bpf.thy ===== *)
theory Bpf
  imports Nlattr
begin

text \<open>
  The socket filter machine (\<^verbatim>\<open>net/core/filter.c\<close>): the checker \<open>sk_chk_filter\<close> that
  translates user codes into the internal \<open>BPF_S_*\<close> codes, the interpreter
  \<open>sk_run_filter\<close>, and attaching filters to sockets with their memory accounting. The
  interpreter returns a value or names the fault it would commit: a division by zero, an
  access outside the scratch memory, a jump out of the program, or a read outside the
  packet buffer. The theorems show which of these a checked filter can never commit.
\<close>

subsection \<open>Instructions\<close>

datatype bpf_alu = ALU_ADD_K | ALU_ADD_X | ALU_SUB_K | ALU_SUB_X | ALU_MUL_K | ALU_MUL_X
  | ALU_DIV_K | ALU_DIV_X | ALU_AND_K | ALU_AND_X | ALU_OR_K | ALU_OR_X
  | ALU_LSH_K | ALU_LSH_X | ALU_RSH_K | ALU_RSH_X | ALU_NEG

datatype bpf_jmp = JMP_JEQ_K | JMP_JEQ_X | JMP_JGE_K | JMP_JGE_X | JMP_JGT_K | JMP_JGT_X
  | JMP_JSET_K | JMP_JSET_X

datatype bpf_load = LD_W_ABS | LD_H_ABS | LD_B_ABS | LD_W_IND | LD_H_IND | LD_B_IND

datatype bpf_reg = LD_W_LEN | LDX_W_LEN | LD_IMM | LDX_IMM | MISC_TAX | MISC_TXA

datatype bpf_mem = LD_MEM | LDX_MEM | ST | STX

datatype bpf_code = Alu bpf_alu | Jmp bpf_jmp | JMP_JA | Load bpf_load | LDX_B_MSH | Reg bpf_reg
  | Mem bpf_mem | RET_K | RET_A

text \<open>\<open>struct sock_filter\<close> as user space passes it, and after the checker replaced its code.\<close>

record sock_filter =
  sf_code :: nat
  sf_jt :: nat
  sf_jf :: nat
  sf_k :: u32

record bpf_insn =
  bi_code :: bpf_code
  bi_jt :: nat
  bi_jf :: nat
  bi_k :: u32

subsection \<open>Packets\<close>

text \<open>
  The fields of \<open>struct sk_buff\<close> the filter reads: the linear buffer from \<open>skb->head\<close> to
  \<open>skb->end\<close> with the offsets of data, tail and headers in it, the paged data, and the
  metadata (\<open>protocol\<close> in host order).
\<close>

record sk_buff =
  sb_head :: bytes
  sb_data :: nat
  sb_tail :: nat
  sb_nh :: nat
  sb_mac :: nat
  sb_frags :: bytes
  sb_protocol :: u16
  sb_pkt_type :: nat
  sb_dev :: "(u32 \<times> u16) option"
  sb_mark :: u32
  sb_queue :: u16

definition skb_headlen :: "sk_buff \<Rightarrow> nat" where
  "skb_headlen skb = sb_tail skb - sb_data skb"

definition skb_len :: "sk_buff \<Rightarrow> nat" where
  "skb_len skb = skb_headlen skb + length (sb_frags skb)"

definition skb_is_nonlinear :: "sk_buff \<Rightarrow> bool" where
  "skb_is_nonlinear skb \<longleftrightarrow> sb_frags skb \<noteq> []"

definition skb_bytes :: "sk_buff \<Rightarrow> bytes" where
  "skb_bytes skb = take (skb_headlen skb) (drop (sb_data skb) (sb_head skb)) @ sb_frags skb"

datatype bpf_fault = DivZero | BadScratch | BadPc | BadAccess

abbreviation SKF_AD_OFF :: int where "SKF_AD_OFF \<equiv> - 0x1000"
abbreviation SKF_NET_OFF :: int where "SKF_NET_OFF \<equiv> - 0x100000"
abbreviation SKF_LL_OFF :: int where "SKF_LL_OFF \<equiv> - 0x200000"

text \<open>NULL is \<open>None\<close>; otherwise the offset of the byte in the linear buffer.\<close>

definition load_pointer_neg :: "sk_buff \<Rightarrow> int \<Rightarrow> nat option" where
  "load_pointer_neg skb k =
     (let ptr = (if k \<ge> SKF_NET_OFF then Some (int (sb_nh skb) + k - SKF_NET_OFF)
                 else if k \<ge> SKF_LL_OFF then Some (int (sb_mac skb) + k - SKF_LL_OFF)
                 else None)
      in case ptr of None \<Rightarrow> None
         | Some p \<Rightarrow> if p \<ge> 0 \<and> p < int (sb_tail skb) then Some (nat p) else None)"

text \<open>\<open>skb_header_pointer\<close>: from the linear part if it holds all bytes, else copied out of
  the whole packet, NULL if the packet is too short.\<close>

definition skb_header_pointer :: "sk_buff \<Rightarrow> nat \<Rightarrow> nat \<Rightarrow> bpf_fault + bytes option" where
  "skb_header_pointer skb offset len =
     (if offset + len \<le> skb_headlen skb
      then (case mem_rd (sb_head skb) (sb_data skb + offset) len of None \<Rightarrow> Inl BadAccess | Some bs \<Rightarrow> Inr (Some bs))
      else Inr (mem_rd (skb_bytes skb) offset len))"

definition load_pointer :: "sk_buff \<Rightarrow> int \<Rightarrow> nat \<Rightarrow> bpf_fault + bytes option" where
  "load_pointer skb k sz =
     (if k \<ge> 0 then skb_header_pointer skb (nat k) sz
      else if k \<ge> SKF_AD_OFF then Inr None
      else (case load_pointer_neg skb k of None \<Rightarrow> Inr None
        | Some p \<Rightarrow> (case mem_rd (sb_head skb) p sz of None \<Rightarrow> Inl BadAccess | Some bs \<Rightarrow> Inr (Some bs))))"

definition be_val :: "bytes \<Rightarrow> u32" where
  "be_val bs = foldl (\<lambda>acc b. acc * 256 + ucast b) 0 bs"

subsection \<open>The interpreter\<close>

record bpf_state =
  bA :: u32
  bX :: u32
  bmem :: "u32 list"
  bvalid :: u32

datatype bpf_out = Cont bpf_state | Jump nat bpf_state | Ret u32

text \<open>Shifts by a register amount: the ARM shifter uses the low byte of the amount, and
  amounts of 32 and more give 0.\<close>

definition shl :: "u32 \<Rightarrow> u32 \<Rightarrow> u32" where
  "shl a n = push_bit (unat (n AND 255)) a"

definition shr :: "u32 \<Rightarrow> u32 \<Rightarrow> u32" where
  "shr a n = drop_bit (unat (n AND 255)) a"

definition bpf_alu_step :: "bpf_state \<Rightarrow> bpf_alu \<Rightarrow> u32 \<Rightarrow> bpf_fault + bpf_out" where
  "bpf_alu_step s c f_k =
     (let A = bA s; X = bX s; set = (\<lambda>v. Inr (Cont (s\<lparr>bA := v\<rparr>))) in
      case c of
        ALU_ADD_X \<Rightarrow> set (A + X)
      | ALU_ADD_K \<Rightarrow> set (A + f_k)
      | ALU_SUB_X \<Rightarrow> set (A - X)
      | ALU_SUB_K \<Rightarrow> set (A - f_k)
      | ALU_MUL_X \<Rightarrow> set (A * X)
      | ALU_MUL_K \<Rightarrow> set (A * f_k)
      | ALU_DIV_X \<Rightarrow> (if X = 0 then Inr (Ret 0) else set (A div X))
      | ALU_DIV_K \<Rightarrow> (if f_k = 0 then Inl DivZero else set (A div f_k))
      | ALU_AND_X \<Rightarrow> set (A AND X)
      | ALU_AND_K \<Rightarrow> set (A AND f_k)
      | ALU_OR_X \<Rightarrow> set (A OR X)
      | ALU_OR_K \<Rightarrow> set (A OR f_k)
      | ALU_LSH_X \<Rightarrow> set (shl A X)
      | ALU_LSH_K \<Rightarrow> set (shl A f_k)
      | ALU_RSH_X \<Rightarrow> set (shr A X)
      | ALU_RSH_K \<Rightarrow> set (shr A f_k)
      | ALU_NEG \<Rightarrow> set (- A))"

definition bpf_jmp_test :: "bpf_state \<Rightarrow> bpf_jmp \<Rightarrow> u32 \<Rightarrow> bool" where
  "bpf_jmp_test s c f_k =
     (let A = bA s; X = bX s in
      case c of
        JMP_JGT_K \<Rightarrow> A > f_k
      | JMP_JGE_K \<Rightarrow> A \<ge> f_k
      | JMP_JEQ_K \<Rightarrow> A = f_k
      | JMP_JSET_K \<Rightarrow> A AND f_k \<noteq> 0
      | JMP_JGT_X \<Rightarrow> A > X
      | JMP_JGE_X \<Rightarrow> A \<ge> X
      | JMP_JEQ_X \<Rightarrow> A = X
      | JMP_JSET_X \<Rightarrow> A AND X \<noteq> 0)"

text \<open>Ancillary data, tried when a load found no packet bytes. Lengths wrap as the
  \<open>unsigned int\<close> expressions of the source do, and so does the 32-bit pointer
  \<open>&skb->data[A]\<close>: it lies \<open>A\<close>, read as a signed number, behind the data pointer.\<close>

definition data_ptr :: "sk_buff \<Rightarrow> u32 \<Rightarrow> nat option" where
  "data_ptr skb A = (let p = int (sb_data skb) + sint A in if p < 0 then None else Some (nat p))"

definition bpf_nlattr :: "sk_buff \<Rightarrow> bpf_state \<Rightarrow> bool \<Rightarrow> bpf_fault + bpf_out" where
  "bpf_nlattr skb s nested =
     (let A = bA s; len = (of_nat (skb_len skb) :: u32);
          set = (\<lambda>r. case r of None \<Rightarrow> Inl BadAccess
                 | Some None \<Rightarrow> Inr (Cont (s\<lparr>bA := 0\<rparr>))
                 | Some (Some p) \<Rightarrow> Inr (Cont (s\<lparr>bA := of_int (int p - int (sb_data skb))\<rparr>))) in
      if skb_is_nonlinear skb then Inr (Ret 0)
      else if A > len - 4 then Inr (Ret 0)
      else if \<not> nested then
        set (do { nla \<leftarrow> data_ptr skb A; nla_find (sb_head skb) nla (sint (len - A)) (unat (bX s)) })
      else (case do { nla \<leftarrow> data_ptr skb A; l \<leftarrow> nla_lenf (sb_head skb) nla; Some (nla, l) } of
              None \<Rightarrow> Inl BadAccess
            | Some (nla, l) \<Rightarrow> if of_nat l > A - len then Inr (Ret 0)
                else set (nla_find_nested (sb_head skb) nla (unat (bX s)))))"

definition bpf_ancillary :: "sk_buff \<Rightarrow> bpf_state \<Rightarrow> int \<Rightarrow> bpf_fault + bpf_out" where
  "bpf_ancillary skb s k =
     (let set = (\<lambda>v. Inr (Cont (s\<lparr>bA := v\<rparr>))); ad = k - SKF_AD_OFF in
      if ad = 0 then set (ucast (sb_protocol skb))
      else if ad = 4 then set (of_nat (sb_pkt_type skb))
      else if ad = 8 then (case sb_dev skb of None \<Rightarrow> Inr (Ret 0) | Some (ifindex, type) \<Rightarrow> set ifindex)
      else if ad = 20 then set (sb_mark skb)
      else if ad = 24 then set (ucast (sb_queue skb))
      else if ad = 28 then (case sb_dev skb of None \<Rightarrow> Inr (Ret 0) | Some (ifindex, type) \<Rightarrow> set (ucast type))
      else if ad = 12 then bpf_nlattr skb s False
      else if ad = 16 then bpf_nlattr skb s True
      else Inr (Ret 0))"

definition bpf_load_step :: "sk_buff \<Rightarrow> bpf_state \<Rightarrow> bpf_load \<Rightarrow> u32 \<Rightarrow> bpf_fault + bpf_out" where
  "bpf_load_step skb s c f_k =
     (let (k, sz) = (case c of
            LD_W_ABS \<Rightarrow> (f_k, 4) | LD_H_ABS \<Rightarrow> (f_k, 2) | LD_B_ABS \<Rightarrow> (f_k, 1)
          | LD_W_IND \<Rightarrow> (bX s + f_k, 4) | LD_H_IND \<Rightarrow> (bX s + f_k, 2) | LD_B_IND \<Rightarrow> (bX s + f_k, 1))
      in case load_pointer skb (sint k) sz of Inl e \<Rightarrow> Inl e
         | Inr (Some bs) \<Rightarrow> Inr (Cont (s\<lparr>bA := be_val bs\<rparr>))
         | Inr None \<Rightarrow> bpf_ancillary skb s (sint k))"

definition bpf_msh_step :: "sk_buff \<Rightarrow> bpf_state \<Rightarrow> u32 \<Rightarrow> bpf_fault + bpf_out" where
  "bpf_msh_step skb s f_k =
     (case load_pointer skb (sint f_k) 1 of Inl e \<Rightarrow> Inl e
      | Inr (Some bs) \<Rightarrow> Inr (Cont (s\<lparr>bX := push_bit 2 (be_val bs AND 0xf)\<rparr>))
      | Inr None \<Rightarrow> Inr (Ret 0))"

definition bpf_reg_step :: "sk_buff \<Rightarrow> bpf_state \<Rightarrow> bpf_reg \<Rightarrow> u32 \<Rightarrow> bpf_state" where
  "bpf_reg_step skb s c f_k = (case c of
       LD_W_LEN \<Rightarrow> s\<lparr>bA := of_nat (skb_len skb)\<rparr>
     | LDX_W_LEN \<Rightarrow> s\<lparr>bX := of_nat (skb_len skb)\<rparr>
     | LD_IMM \<Rightarrow> s\<lparr>bA := f_k\<rparr>
     | LDX_IMM \<Rightarrow> s\<lparr>bX := f_k\<rparr>
     | MISC_TAX \<Rightarrow> s\<lparr>bX := bA s\<rparr>
     | MISC_TXA \<Rightarrow> s\<lparr>bA := bX s\<rparr>)"

definition bpf_mem_step :: "bpf_state \<Rightarrow> bpf_mem \<Rightarrow> u32 \<Rightarrow> bpf_fault + bpf_out" where
  "bpf_mem_step s c f_k =
     (let i = unat f_k in
      if i \<ge> length (bmem s) then Inl BadScratch
      else let v = (if bit (bvalid s) i then bmem s ! i else 0);
               store = (\<lambda>x. Inr (Cont (s\<lparr>bvalid := bvalid s OR push_bit i 1, bmem := (bmem s)[i := x]\<rparr>))) in
        (case c of
           LD_MEM \<Rightarrow> Inr (Cont (s\<lparr>bA := v\<rparr>))
         | LDX_MEM \<Rightarrow> Inr (Cont (s\<lparr>bX := v\<rparr>))
         | ST \<Rightarrow> store (bA s)
         | STX \<Rightarrow> store (bX s)))"

definition bpf_step :: "sk_buff \<Rightarrow> bpf_insn \<Rightarrow> bpf_state \<Rightarrow> bpf_fault + bpf_out" where
  "bpf_step skb i s = (case bi_code i of
       Alu c \<Rightarrow> bpf_alu_step s c (bi_k i)
     | JMP_JA \<Rightarrow> Inr (Jump (unat (bi_k i)) s)
     | Jmp c \<Rightarrow> Inr (Jump (if bpf_jmp_test s c (bi_k i) then bi_jt i else bi_jf i) s)
     | Load c \<Rightarrow> bpf_load_step skb s c (bi_k i)
     | LDX_B_MSH \<Rightarrow> bpf_msh_step skb s (bi_k i)
     | Reg c \<Rightarrow> Inr (Cont (bpf_reg_step skb s c (bi_k i)))
     | Mem c \<Rightarrow> bpf_mem_step s c (bi_k i)
     | RET_K \<Rightarrow> Inr (Ret (bi_k i))
     | RET_A \<Rightarrow> Inr (Ret (bA s)))"

text \<open>
  The fetch loop. \<open>pc += f_k\<close> is an \<open>int\<close> addition; a sum of \<open>2 ^ 31\<close> or more would
  index in front of the program or jump back, and is the fault \<open>BadPc\<close>.
\<close>

function bpf_loop :: "sk_buff \<Rightarrow> bpf_insn list \<Rightarrow> nat \<Rightarrow> bpf_state \<Rightarrow> bpf_fault + u32" where
  "bpf_loop skb prog pc s =
     (if pc < length prog then
        (case bpf_step skb (prog ! pc) s of
           Inl e \<Rightarrow> Inl e
         | Inr (Ret v) \<Rightarrow> Inr v
         | Inr (Cont s') \<Rightarrow> bpf_loop skb prog (pc + 1) s'
         | Inr (Jump off s') \<Rightarrow>
             if pc + off \<ge> 2 ^ 31 then Inl BadPc else bpf_loop skb prog (pc + off + 1) s')
      else Inr 0)"
  by pat_completeness auto
termination by (relation "measure (\<lambda>(skb, prog, pc, s). length prog - pc)") auto

declare bpf_loop.simps [simp del]

text \<open>\<open>mem0\<close> is the uninitialised content of the scratch array on the stack.\<close>

definition bpf_init :: "u32 list \<Rightarrow> bpf_state" where
  "bpf_init mem0 = \<lparr>bA = 0, bX = 0, bmem = mem0, bvalid = 0\<rparr>"

definition sk_run_filter :: "sk_buff \<Rightarrow> u32 list \<Rightarrow> bpf_insn list \<Rightarrow> bpf_fault + u32" where
  "sk_run_filter skb mem0 prog = bpf_loop skb prog 0 (bpf_init mem0)"

subsection \<open>The checker\<close>

abbreviation BPF_MEMWORDS :: nat where "BPF_MEMWORDS \<equiv> 16"
abbreviation BPF_MAXINSNS :: nat where "BPF_MAXINSNS \<equiv> 4096"

definition chk_alu_code :: "nat \<Rightarrow> bpf_code option" where
  "chk_alu_code code =
     (if code = 0x04 then Some (Alu ALU_ADD_K) else if code = 0x0c then Some (Alu ALU_ADD_X)
      else if code = 0x14 then Some (Alu ALU_SUB_K) else if code = 0x1c then Some (Alu ALU_SUB_X)
      else if code = 0x24 then Some (Alu ALU_MUL_K) else if code = 0x2c then Some (Alu ALU_MUL_X)
      else if code = 0x3c then Some (Alu ALU_DIV_X)
      else if code = 0x54 then Some (Alu ALU_AND_K) else if code = 0x5c then Some (Alu ALU_AND_X)
      else if code = 0x44 then Some (Alu ALU_OR_K) else if code = 0x4c then Some (Alu ALU_OR_X)
      else if code = 0x64 then Some (Alu ALU_LSH_K) else if code = 0x6c then Some (Alu ALU_LSH_X)
      else if code = 0x74 then Some (Alu ALU_RSH_K) else if code = 0x7c then Some (Alu ALU_RSH_X)
      else if code = 0x84 then Some (Alu ALU_NEG) else None)"

definition chk_ld_code :: "nat \<Rightarrow> bpf_code option" where
  "chk_ld_code code =
     (if code = 0x20 then Some (Load LD_W_ABS) else if code = 0x28 then Some (Load LD_H_ABS)
      else if code = 0x30 then Some (Load LD_B_ABS) else if code = 0x80 then Some (Reg LD_W_LEN)
      else if code = 0x40 then Some (Load LD_W_IND) else if code = 0x48 then Some (Load LD_H_IND)
      else if code = 0x50 then Some (Load LD_B_IND) else if code = 0x00 then Some (Reg LD_IMM)
      else if code = 0x81 then Some (Reg LDX_W_LEN) else if code = 0xb1 then Some LDX_B_MSH
      else if code = 0x01 then Some (Reg LDX_IMM) else if code = 0x07 then Some (Reg MISC_TAX)
      else if code = 0x87 then Some (Reg MISC_TXA) else if code = 0x06 then Some RET_K
      else if code = 0x16 then Some RET_A else None)"

definition chk_jmp_code :: "nat \<Rightarrow> bpf_code option" where
  "chk_jmp_code code =
     (if code = 0x15 then Some (Jmp JMP_JEQ_K) else if code = 0x1d then Some (Jmp JMP_JEQ_X)
      else if code = 0x35 then Some (Jmp JMP_JGE_K) else if code = 0x3d then Some (Jmp JMP_JGE_X)
      else if code = 0x25 then Some (Jmp JMP_JGT_K) else if code = 0x2d then Some (Jmp JMP_JGT_X)
      else if code = 0x45 then Some (Jmp JMP_JSET_K) else if code = 0x4d then Some (Jmp JMP_JSET_X)
      else None)"

text \<open>The instructions with checks of their own: a constant divisor, scratch memory indices and
  the unconditional jump. \<open>None\<close>: not one of them; \<open>Some (Inl e)\<close>: rejected.\<close>

definition chk_special_code :: "nat \<Rightarrow> nat \<Rightarrow> sock_filter \<Rightarrow> (int + bpf_code) option" where
  "chk_special_code flen pc f =
     (let k = unat (sf_k f); code = sf_code f;
          mem = (\<lambda>c. Some (if k \<ge> BPF_MEMWORDS then Inl (- EINVAL) else Inr (Mem c))) in
      if code = 0x34 then Some (if sf_k f = 0 then Inl (- EINVAL) else Inr (Alu ALU_DIV_K))
      else if code = 0x60 then mem LD_MEM
      else if code = 0x61 then mem LDX_MEM
      else if code = 0x02 then mem ST
      else if code = 0x03 then mem STX
      else if code = 0x05 then Some (if k \<ge> flen - pc - 1 then Inl (- EINVAL) else Inr JMP_JA)
      else None)"

definition chk_code :: "nat \<Rightarrow> nat \<Rightarrow> sock_filter \<Rightarrow> int + bpf_code" where
  "chk_code flen pc f =
     (case chk_alu_code (sf_code f) of Some c \<Rightarrow> Inr c | None \<Rightarrow>
      (case chk_ld_code (sf_code f) of Some c \<Rightarrow> Inr c | None \<Rightarrow>
       (case chk_special_code flen pc f of Some r \<Rightarrow> r | None \<Rightarrow>
        (case chk_jmp_code (sf_code f) of Some c \<Rightarrow> Inr c | None \<Rightarrow> Inl (- EINVAL)))))"

text \<open>One round of the checking loop: translate the code, then, for conditional jumps, both
  targets must lie inside the program.\<close>

definition chk_insn :: "nat \<Rightarrow> nat \<Rightarrow> sock_filter \<Rightarrow> int + bpf_insn" where
  "chk_insn flen pc f = (case chk_code flen pc f of Inl e \<Rightarrow> Inl e
     | Inr c \<Rightarrow>
         if (case c of Jmp _ \<Rightarrow> pc + sf_jt f + 1 \<ge> flen \<or> pc + sf_jf f + 1 \<ge> flen | _ \<Rightarrow> False)
         then Inl (- EINVAL)
         else Inr \<lparr>bi_code = c, bi_jt = sf_jt f, bi_jf = sf_jf f, bi_k = sf_k f\<rparr>)"

fun chk_loop :: "nat \<Rightarrow> nat \<Rightarrow> sock_filter list \<Rightarrow> int + bpf_insn list" where
  "chk_loop flen pc [] = Inr []"
| "chk_loop flen pc (f # fs) = (case chk_insn flen pc f of Inl e \<Rightarrow> Inl e
     | Inr i \<Rightarrow> (case chk_loop flen (pc + 1) fs of Inl e \<Rightarrow> Inl e | Inr is \<Rightarrow> Inr (i # is)))"

definition sk_chk_filter :: "sock_filter list \<Rightarrow> int + bpf_insn list" where
  "sk_chk_filter fl =
     (let flen = length fl in
      if flen = 0 \<or> flen > BPF_MAXINSNS then Inl (- EINVAL)
      else (case chk_loop flen 0 fl of Inl e \<Rightarrow> Inl e
        | Inr prog \<Rightarrow> (case bi_code (last prog) of
            RET_K \<Rightarrow> Inr prog | RET_A \<Rightarrow> Inr prog | _ \<Rightarrow> Inl (- EINVAL))))"

subsection \<open>Attaching filters to sockets\<close>

record sock =
  sk_flt :: "bpf_insn list option"
  sk_omem_alloc :: nat

definition sk_filter_len :: "nat \<Rightarrow> nat" where
  "sk_filter_len len = len * 8 + 16"

text \<open>\<open>sysctl_optmem_max\<close> and whether \<open>kmalloc\<close> succeeds are parameters.\<close>

definition sock_kmalloc :: "nat \<Rightarrow> bool \<Rightarrow> sock \<Rightarrow> nat \<Rightarrow> bool \<times> sock" where
  "sock_kmalloc optmem_max km_ok sk sz =
     (if sz \<le> optmem_max \<and> sk_omem_alloc sk + sz < optmem_max then
        (let sk = sk\<lparr>sk_omem_alloc := sk_omem_alloc sk + sz\<rparr> in
         if km_ok then (True, sk) else (False, sk\<lparr>sk_omem_alloc := sk_omem_alloc sk - sz\<rparr>))
      else (False, sk))"

definition sk_filter_uncharge :: "sock \<Rightarrow> nat \<Rightarrow> sock" where
  "sk_filter_uncharge sk len = sk\<lparr>sk_omem_alloc := sk_omem_alloc sk - sk_filter_len len\<rparr>"

text \<open>\<open>fprog\<close> is the user's program (\<open>None\<close>: a NULL pointer); \<open>cp_ok\<close> says whether
  \<open>copy_from_user\<close> copies all of it.\<close>

definition sk_attach_filter :: "nat \<Rightarrow> bool \<Rightarrow> bool \<Rightarrow> sock_filter list option \<Rightarrow> sock \<Rightarrow> int \<times> sock" where
  "sk_attach_filter optmem_max km_ok cp_ok fprog sk = (case fprog of None \<Rightarrow> (- EINVAL, sk)
     | Some insns \<Rightarrow>
        (case sock_kmalloc optmem_max km_ok sk (length insns * 8 + 16) of
           (False, sk) \<Rightarrow> (- ENOMEM, sk)
         | (True, sk) \<Rightarrow>
             if \<not> cp_ok then (- EFAULT, sk\<lparr>sk_omem_alloc := sk_omem_alloc sk - (length insns * 8 + 16)\<rparr>)
             else (case sk_chk_filter insns of
                 Inl err \<Rightarrow> (err, sk_filter_uncharge sk (length insns))
               | Inr prog \<Rightarrow>
                   (let old_fp = sk_flt sk; sk = sk\<lparr>sk_flt := Some prog\<rparr>
                    in (0, case old_fp of None \<Rightarrow> sk | Some old \<Rightarrow> sk_filter_uncharge sk (length old))))))"

definition sk_detach_filter :: "sock \<Rightarrow> int \<times> sock" where
  "sk_detach_filter sk = (case sk_flt sk of None \<Rightarrow> (- ENOENT, sk)
     | Some fp \<Rightarrow> (0, sk_filter_uncharge (sk\<lparr>sk_flt := None\<rparr>) (length fp)))"

text \<open>\<open>sk_filter\<close>: the security hook and \<open>pskb_trim\<close> are parameters, the latter taking the
  length to keep to an error code.\<close>

definition sk_filter :: "int \<Rightarrow> (u32 \<Rightarrow> int) \<Rightarrow> sock \<Rightarrow> sk_buff \<Rightarrow> u32 list \<Rightarrow> bpf_fault + int" where
  "sk_filter sec_err pskb_trim sk skb mem0 =
     (if sec_err \<noteq> 0 then Inr sec_err
      else (case sk_flt sk of None \<Rightarrow> Inr 0
        | Some prog \<Rightarrow> (case sk_run_filter skb mem0 prog of Inl e \<Rightarrow> Inl e
            | Inr pkt_len \<Rightarrow> Inr (if pkt_len \<noteq> 0 then pskb_trim pkt_len else - EPERM))))"

subsection \<open>What the checker establishes\<close>

definition insn_safe :: "nat \<Rightarrow> nat \<Rightarrow> bpf_insn \<Rightarrow> bool" where
  "insn_safe n pc i = (case bi_code i of
       Alu ALU_DIV_K \<Rightarrow> bi_k i \<noteq> 0
     | Mem c \<Rightarrow> unat (bi_k i) < BPF_MEMWORDS
     | JMP_JA \<Rightarrow> pc + unat (bi_k i) + 1 < n
     | Jmp c \<Rightarrow> pc + bi_jt i + 1 < n \<and> pc + bi_jf i + 1 < n
     | _ \<Rightarrow> True)"

definition is_ret :: "bpf_insn \<Rightarrow> bool" where
  "is_ret i \<longleftrightarrow> bi_code i = RET_K \<or> bi_code i = RET_A"

definition prog_safe :: "bpf_insn list \<Rightarrow> bool" where
  "prog_safe prog \<longleftrightarrow> prog \<noteq> [] \<and> length prog \<le> BPF_MAXINSNS \<and> is_ret (last prog)
     \<and> (\<forall>pc < length prog. insn_safe (length prog) pc (prog ! pc))"

text \<open>A translation of the code that says nothing of operands is one of the plain ones.\<close>

lemma chk_alu_code_safe: "chk_alu_code c = Some d \<Longrightarrow> bi_code i = d \<Longrightarrow> insn_safe n pc i \<and> (\<forall>j. d \<noteq> Jmp j)"
  by (auto simp: chk_alu_code_def insn_safe_def eq_commute [of _ "bi_code i"] split: if_splits)

lemma chk_ld_code_safe: "chk_ld_code c = Some d \<Longrightarrow> bi_code i = d \<Longrightarrow> insn_safe n pc i \<and> (\<forall>j. d \<noteq> Jmp j)"
  by (auto simp: chk_ld_code_def insn_safe_def eq_commute [of _ "bi_code i"] split: if_splits)

lemma chk_special_code_safe:
  "chk_special_code n pc f = Some (Inr d) \<Longrightarrow> pc < n \<Longrightarrow> bi_code i = d \<Longrightarrow> bi_k i = sf_k f
   \<Longrightarrow> insn_safe n pc i \<and> (\<forall>j. d \<noteq> Jmp j)"
  by (auto simp: chk_special_code_def insn_safe_def eq_commute [of _ "bi_code i"] Let_def split: if_splits)

lemma chk_jmp_code_Jmp: "chk_jmp_code c = Some d \<Longrightarrow> \<exists>j. d = Jmp j"
  by (auto simp: chk_jmp_code_def split: if_splits)

lemma chk_insn_safe:
  assumes "chk_insn n pc f = Inr i" "pc < n"
  shows "insn_safe n pc i"
proof -
  from assms(1) obtain c where c: "chk_code n pc f = Inr c"
    and i: "bi_code i = c" "bi_k i = sf_k f" "bi_jt i = sf_jt f" "bi_jf i = sf_jf f"
    and j: "\<And>j. c = Jmp j \<Longrightarrow> pc + bi_jt i + 1 < n \<and> pc + bi_jf i + 1 < n"
    by (auto simp: chk_insn_def split: sum.splits if_splits bpf_code.splits)
  show ?thesis
  proof (cases "\<exists>j. c = Jmp j")
    case True
    then show ?thesis using i j by (auto simp: insn_safe_def)
  next
    case False
    then have "chk_jmp_code (sf_code f) \<noteq> Some c" using chk_jmp_code_Jmp by blast
    with c show ?thesis using chk_alu_code_safe [OF _ i(1)] chk_ld_code_safe [OF _ i(1)]
        chk_special_code_safe [OF _ assms(2) i(1,2)]
      by (auto simp: chk_code_def split: option.splits)
  qed
qed

lemma chk_loop_safe:
  "chk_loop n pc fs = Inr prog \<Longrightarrow> n = pc + length fs \<Longrightarrow>
   length prog = length fs \<and> (\<forall>k < length prog. insn_safe n (pc + k) (prog ! k))"
proof (induction n pc fs arbitrary: prog rule: chk_loop.induct)
  case (2 n pc f fs)
  from "2.prems"(1) obtain i rest where i: "chk_insn n pc f = Inr i" and rest: "chk_loop n (pc + 1) fs = Inr rest"
    and p: "prog = i # rest" by (auto split: sum.splits)
  have r: "length rest = length fs" "\<And>k. k < length rest \<Longrightarrow> insn_safe n (pc + 1 + k) (rest ! k)"
    using "2.IH" [OF i rest] "2.prems"(2) by auto
  have "insn_safe n pc i" using chk_insn_safe [OF i] "2.prems"(2) by simp
  with r p show ?case by (auto simp: nth_Cons split: nat.split)
qed simp

lemma sk_chk_filter_safe:
  assumes "sk_chk_filter fl = Inr prog"
  shows "prog_safe prog" and "length prog = length fl"
proof -
  from assms have n: "length fl \<noteq> 0" "length fl \<le> BPF_MAXINSNS"
    and c: "chk_loop (length fl) 0 fl = Inr prog" and r: "is_ret (last prog)"
    by (auto simp: sk_chk_filter_def Let_def is_ret_def split: if_splits sum.splits bpf_code.splits)
  from chk_loop_safe [OF c] show l: "length prog = length fl" by simp
  from chk_loop_safe [OF c] n r l show "prog_safe prog" by (auto simp: prog_safe_def)
qed

subsection \<open>Runs of a checked filter\<close>

text \<open>The machine as a step relation, and the configurations a run visits.\<close>

inductive bpf_next :: "sk_buff \<Rightarrow> bpf_insn list \<Rightarrow> nat \<times> bpf_state \<Rightarrow> nat \<times> bpf_state \<Rightarrow> bool"
  for skb prog where
  cont: "pc < length prog \<Longrightarrow> bpf_step skb (prog ! pc) s = Inr (Cont s') \<Longrightarrow> bpf_next skb prog (pc, s) (pc + 1, s')"
| jump: "pc < length prog \<Longrightarrow> bpf_step skb (prog ! pc) s = Inr (Jump off s') \<Longrightarrow> bpf_next skb prog (pc, s) (pc + off + 1, s')"

inductive bpf_reach :: "sk_buff \<Rightarrow> u32 list \<Rightarrow> bpf_insn list \<Rightarrow> nat \<times> bpf_state \<Rightarrow> bool"
  for skb mem0 prog where
  init: "bpf_reach skb mem0 prog (0, bpf_init mem0)"
| step: "bpf_reach skb mem0 prog c \<Longrightarrow> bpf_next skb prog c c' \<Longrightarrow> bpf_reach skb mem0 prog c'"

lemma bpf_ancillary_shape:
  "bpf_ancillary skb s k = Inr (Cont s') \<Longrightarrow> bmem s' = bmem s" "bpf_ancillary skb s k \<noteq> Inr (Jump off s')"
  "bpf_ancillary skb s k = Inl e \<Longrightarrow> e = BadAccess"
  by (auto simp: bpf_ancillary_def bpf_nlattr_def Let_def split: if_splits option.splits prod.splits)

lemma load_pointer_fault: "load_pointer skb k sz = Inl e \<Longrightarrow> e = BadAccess"
  by (auto simp: load_pointer_def skb_header_pointer_def split: if_splits option.splits)

lemma bpf_load_shape:
  "bpf_load_step skb s c k = Inr (Cont s') \<Longrightarrow> bmem s' = bmem s" "bpf_load_step skb s c k \<noteq> Inr (Jump off s')"
  "bpf_load_step skb s c k = Inl e \<Longrightarrow> e = BadAccess"
  by (auto simp: bpf_load_step_def split: sum.splits option.splits prod.splits
      dest: bpf_ancillary_shape(1,3) load_pointer_fault simp: bpf_ancillary_shape(2))

lemma bpf_msh_shape:
  "bpf_msh_step skb s k = Inr (Cont s') \<Longrightarrow> bmem s' = bmem s" "bpf_msh_step skb s k \<noteq> Inr (Jump off s')"
  "bpf_msh_step skb s k = Inl e \<Longrightarrow> e = BadAccess"
  by (auto simp: bpf_msh_step_def split: sum.splits option.splits dest: load_pointer_fault)

lemma bpf_alu_shape:
  "bpf_alu_step s c k = Inr (Cont s') \<Longrightarrow> bmem s' = bmem s" "bpf_alu_step s c k \<noteq> Inr (Jump off s')"
  "bpf_alu_step s c k = Inl e \<Longrightarrow> c = ALU_DIV_K \<and> k = 0"
  by (auto simp: bpf_alu_step_def Let_def split: bpf_alu.splits if_splits)

lemma bpf_mem_shape:
  "bpf_mem_step s c k = Inr (Cont s') \<Longrightarrow> length (bmem s') = length (bmem s)" "bpf_mem_step s c k \<noteq> Inr (Jump off s')"
  "bpf_mem_step s c k = Inl e \<Longrightarrow> unat k \<ge> length (bmem s)" "bpf_mem_step s c k \<noteq> Inr (Ret v)"
  by (auto simp: bpf_mem_step_def Let_def split: bpf_mem.splits if_splits)

lemmas bpf_shapes = bpf_alu_shape(1,3) bpf_load_shape(1,3) bpf_msh_shape(1,3) bpf_mem_shape(1,3)
lemmas bpf_no_jump [simp] = bpf_alu_shape(2) bpf_load_shape(2) bpf_msh_shape(2) bpf_mem_shape(2)

lemma bpf_reg_mem: "bmem (bpf_reg_step skb s c k) = bmem s"
  by (cases c) (simp_all add: bpf_reg_step_def)

lemma bpf_step_mem:
  "bpf_step skb i s = Inr (Cont s') \<Longrightarrow> length (bmem s') = length (bmem s)"
  "bpf_step skb i s = Inr (Jump off s') \<Longrightarrow> s' = s"
  by (auto simp: bpf_step_def bpf_reg_mem split: bpf_code.splits dest: bpf_shapes)

text \<open>At a safe instruction the only possible fault is a read outside the packet.\<close>

lemma bpf_step_safe:
  assumes "insn_safe n pc i" "length (bmem s) = BPF_MEMWORDS"
  shows "bpf_step skb i s = Inl e \<Longrightarrow> e = BadAccess"
    and "bpf_step skb i s = Inr (Jump off s') \<Longrightarrow> pc + off + 1 < n"
    and "bpf_step skb i s = Inr (Cont s') \<Longrightarrow> \<not> is_ret i"
  using assms
  by (auto simp: bpf_step_def insn_safe_def is_ret_def split: bpf_code.splits if_splits bpf_alu.splits
      dest: bpf_shapes)

lemma bpf_next_safe:
  assumes "prog_safe prog" "bpf_next skb prog (pc, s) c'" "length (bmem s) = BPF_MEMWORDS"
  shows "pc < fst c' \<and> fst c' < length prog \<and> length (bmem (snd c')) = BPF_MEMWORDS"
  using assms(2)
proof (cases rule: bpf_next.cases)
  case (cont s')
  have safe: "insn_safe (length prog) pc (prog ! pc)" and r: "is_ret (last prog)" and ne: "prog \<noteq> []"
    using assms(1) cont(2) by (auto simp: prog_safe_def)
  have "\<not> is_ret (prog ! pc)" using bpf_step_safe(3) [OF safe assms(3) cont(3)] .
  then have "pc \<noteq> length prog - 1" using r ne by (metis last_conv_nth)
  then show ?thesis using cont bpf_step_mem(1) [OF cont(3)] assms(3) by auto
next
  case (jump off s')
  have "insn_safe (length prog) pc (prog ! pc)" using assms(1) jump(2) by (auto simp: prog_safe_def)
  from bpf_step_safe(2) [OF this assms(3) jump(3)] show ?thesis using jump bpf_step_mem(2) [OF jump(3)] assms(3) by auto
qed

lemma bpf_reach_safe:
  assumes "bpf_reach skb mem0 prog c" "prog_safe prog" "length mem0 = BPF_MEMWORDS"
  shows "fst c < length prog \<and> length (bmem (snd c)) = BPF_MEMWORDS"
  using assms(1)
proof (induction rule: bpf_reach.induct)
  case init
  then show ?case using assms(2,3) by (auto simp: prog_safe_def bpf_init_def)
next
  case (step c c')
  then show ?case using bpf_next_safe [OF assms(2), of skb "fst c" "snd c" c'] by auto
qed

subsection \<open>Reads of the packet\<close>

text \<open>A packet whose linear part lies in its buffer, with room for three bytes behind it: the
  negative-offset loads check the first byte of a word only.\<close>

definition packet_ok :: "sk_buff \<Rightarrow> bool" where
  "packet_ok skb \<longleftrightarrow> sb_data skb \<le> sb_tail skb \<and> sb_tail skb + 3 \<le> length (sb_head skb)"




lemma linear_len: "\<not> skb_is_nonlinear skb \<Longrightarrow> skb_len skb = sb_tail skb - sb_data skb"
  by (simp add: skb_is_nonlinear_def skb_len_def skb_headlen_def)

lemma bpf_nlattr_stream:
  assumes "packet_ok skb" "\<not> skb_is_nonlinear skb" "4 \<le> skb_len skb" "skb_len skb < 2 ^ 31"
    and "A \<le> of_nat (skb_len skb) - (4::u32)"
  shows "stream_ok (sb_head skb) (sb_data skb + unat A) (sint (of_nat (skb_len skb) - A))"
    and "data_ptr skb A = Some (sb_data skb + unat A)"
    and "unat A + 4 \<le> skb_len skb"
proof -
  let ?l = "of_nat (skb_len skb) :: u32"
  have l: "unat ?l = skb_len skb" using assms(4) by (simp add: unat_of_nat)
  have "unat (?l - 4) = skb_len skb - 4" using assms(3) l by (subst unat_diff_small) simp_all
  then have A: "unat A \<le> skb_len skb - 4" using assms(5) by (simp add: word_le_nat_alt)
  then have d: "unat (?l - A) = skb_len skb - unat A" using l by (subst unat_diff_small) simp_all
  then have "sint (?l - A) = int (skb_len skb - unat A)" using assms(4) by (subst sint_small) simp_all
  moreover have "sb_data skb + unat A + (skb_len skb - unat A) \<le> length (sb_head skb)"
    using assms(1) A linear_len [OF assms(2)] by (auto simp: packet_ok_def)
  ultimately
    show "stream_ok (sb_head skb) (sb_data skb + unat A) (sint (?l - A))"
    by (simp only: stream_ok_def nat_int simp_thms)
  show "unat A + 4 \<le> skb_len skb" using A assms(3) by simp
  have "sint A = int (unat A)" using A assms(4) by (intro sint_small) simp
  then show "data_ptr skb A = Some (sb_data skb + unat A)"
    by (simp only: data_ptr_def Let_def flip: of_nat_add) (simp del: of_nat_add)
qed





subsection \<open>Sockets with a filter\<close>

text \<open>The option memory a socket is charged for its filter.\<close>

definition sk_filter_charge :: "sock \<Rightarrow> nat" where
  "sk_filter_charge sk = (case sk_flt sk of None \<Rightarrow> 0 | Some fp \<Rightarrow> sk_filter_len (length fp))"

text \<open>A socket whose filter, if any, passed the checker, with \<open>base\<close> bytes of its option memory
  in use for other purposes.\<close>

definition sock_ok :: "nat \<Rightarrow> sock \<Rightarrow> bool" where
  "sock_ok base sk \<longleftrightarrow> sk_omem_alloc sk = base + sk_filter_charge sk
     \<and> (\<forall>prog. sk_flt sk = Some prog \<longrightarrow> prog_safe prog)"

datatype sock_op = Attach bool bool "sock_filter list option" | Detach

definition sock_op_step :: "nat \<Rightarrow> sock_op \<Rightarrow> sock \<Rightarrow> int \<times> sock" where
  "sock_op_step optmem_max op sk = (case op of
       Attach km_ok cp_ok fprog \<Rightarrow> sk_attach_filter optmem_max km_ok cp_ok fprog sk
     | Detach \<Rightarrow> sk_detach_filter sk)"

lemma sk_chk_filter_error: "sk_chk_filter fl = Inl e \<Longrightarrow> e = - EINVAL"
proof -
  have c: "chk_code n pc f = Inl e \<Longrightarrow> e = - EINVAL" for n pc f e
    by (auto simp: chk_code_def chk_special_code_def Let_def split: option.splits if_splits)
  have i: "chk_insn n pc f = Inl e \<Longrightarrow> e = - EINVAL" for n pc f e
    by (auto simp: chk_insn_def c split: sum.splits if_splits)
  have l: "chk_loop n pc fs = Inl e \<Longrightarrow> e = - EINVAL" for n pc fs e
    by (induction n pc fs rule: chk_loop.induct) (auto simp: i split: sum.splits)
  assume "sk_chk_filter fl = Inl e"
  then show ?thesis by (auto simp: sk_chk_filter_def Let_def l split: if_splits sum.splits bpf_code.splits)
qed

lemma sk_attach_filter_cases:
  "sk_attach_filter optmem_max km_ok cp_ok fprog sk = (err, sk') \<Longrightarrow>
   (if err = 0 then \<exists>fl prog. fprog = Some fl \<and> sk_chk_filter fl = Inr prog \<and> sk_flt sk' = Some prog
        \<and> sk_omem_alloc sk' = sk_omem_alloc sk + sk_filter_len (length prog) - sk_filter_charge sk
    else sk' = sk)"
  by (auto simp: sk_attach_filter_def sock_kmalloc_def sk_filter_uncharge_def sk_filter_len_def sk_filter_charge_def Let_def
      dest: sk_chk_filter_error sk_chk_filter_safe(2) split: option.splits if_splits sum.splits)

lemma sock_op_step_ok:
  assumes "sock_ok base sk" "sock_op_step optmem_max op sk = (err, sk')"
  shows "sock_ok base sk'" and "err \<noteq> 0 \<Longrightarrow> sk' = sk"
proof -
  have d: "sk_detach_filter sk = (err, sk') \<Longrightarrow> sock_ok base sk' \<and> (err \<noteq> 0 \<longrightarrow> sk' = sk)"
    using assms(1) by (auto simp: sk_detach_filter_def sock_ok_def sk_filter_charge_def sk_filter_uncharge_def split: option.splits)
  have a: "sk_attach_filter optmem_max km cp fprog sk = (err, sk') \<Longrightarrow> sock_ok base sk' \<and> (err \<noteq> 0 \<longrightarrow> sk' = sk)"
    for km cp fprog
    using sk_attach_filter_cases [of optmem_max km cp fprog sk err sk'] assms(1)
    by (auto simp: sock_ok_def sk_filter_charge_def dest: sk_chk_filter_safe(1) split: if_splits option.splits)
  show "sock_ok base sk'" "err \<noteq> 0 \<Longrightarrow> sk' = sk"
    using assms(2) a d by (auto simp: sock_op_step_def split: sock_op.splits)
qed

text \<open>The guard of the nested search, \<open>nla->nla_len > A - skb->len\<close>, compares with a difference
  that has wrapped below zero, and so never holds.\<close>

lemma bpf_nlattr_nested_unguarded:
  assumes "packet_ok skb" "\<not> skb_is_nonlinear skb" "4 \<le> skb_len skb" "skb_len skb < 2 ^ 31"
    and A: "bA s \<le> of_nat (skb_len skb) - 4" and l: "nla_lenf (sb_head skb) (sb_data skb + unat (bA s)) = Some l"
    and "l < 65536"
  shows "bpf_nlattr skb s True =
    (case nla_find_nested (sb_head skb) (sb_data skb + unat (bA s)) (unat (bX s)) of
       None \<Rightarrow> Inl BadAccess
     | Some None \<Rightarrow> Inr (Cont (s\<lparr>bA := 0\<rparr>))
     | Some (Some p) \<Rightarrow> Inr (Cont (s\<lparr>bA := of_int (int p - int (sb_data skb))\<rparr>)))"
proof -
  let ?l = "of_nat (skb_len skb) :: u32"
  note st = bpf_nlattr_stream(2,3) [OF assms(1-4) A]
  have ul: "unat ?l = skb_len skb" using assms(4) by (simp add: unat_of_nat)
  then have "unat (bA s) < unat ?l" using st(2) by simp
  then have "unat (bA s - ?l) = 2 ^ 32 + unat (bA s) - unat ?l"
    by (simp add: unat_sub_if_size word_size)
  then have "65536 \<le> unat (bA s - ?l)" using ul assms(4) by simp
  then have "\<not> (of_nat l :: u32) > bA s - ?l" using assms(7) by (simp add: word_less_nat_alt unat_of_nat)
  moreover have "\<not> bA s > ?l - 4" using A by (simp only: not_less)
  ultimately show ?thesis using assms(2) st(1) l by (simp add: bpf_nlattr_def Let_def)
qed

lemma nla_lenf_16bit: "nla_lenf m a = Some l \<Longrightarrow> l < 65536"
proof -
  have u: "unat (b :: u8) < 256" for b using unsigned_less [of b, where 'a = nat] by simp
  assume "nla_lenf m a = Some l"
  then obtain x y where "l = unat x + 256 * unat (y :: u8)" and "(x :: u8) = x"
    by (auto simp: nla_lenf_def get16_def split: bind_splits)
  with u [of x] u [of y] show ?thesis by linarith
qed

fun sock_ops :: "nat \<Rightarrow> sock_op list \<Rightarrow> sock \<Rightarrow> sock" where
  "sock_ops optmem_max [] sk = sk"
| "sock_ops optmem_max (op # ops) sk = sock_ops optmem_max ops (snd (sock_op_step optmem_max op sk))"

lemma sock_ops_ok: "sock_ok base sk \<Longrightarrow> sock_ok base (sock_ops optmem_max ops sk)"
proof (induction optmem_max ops sk rule: sock_ops.induct)
  case (2 optmem_max op ops sk)
  have "sock_ok base (snd (sock_op_step optmem_max op sk))"
    using sock_op_step_ok(1) [OF "2.prems", of optmem_max op] by (metis prod.collapse)
  then show ?case using "2.IH" by simp
qed simp

subsection \<open>Properties\<close>

definition bpf_example :: "sock_filter list" where
  "bpf_example =
    [\<lparr>sf_code = 0x28, sf_jt = 0, sf_jf = 0, sf_k = 12\<rparr>,
     \<lparr>sf_code = 0x15, sf_jt = 0, sf_jf = 1, sf_k = 0x0800\<rparr>,
     \<lparr>sf_code = 0x06, sf_jt = 0, sf_jf = 0, sf_k = 96\<rparr>,
     \<lparr>sf_code = 0x06, sf_jt = 0, sf_jf = 0, sf_k = 0\<rparr>]"

definition skb_example :: "sk_buff" where
  "skb_example = \<lparr>sb_head = replicate 12 7 @ [8, 0, 1, 2, 3, 4, 5], sb_data = 0, sb_tail = 16, sb_nh = 14, sb_mac = 0,
     sb_frags = [], sb_protocol = 0x0800, sb_pkt_type = 0, sb_dev = None, sb_mark = 0, sb_queue = 0\<rparr>"

lemmas bpf_chk_simps = sk_chk_filter_def chk_insn_def chk_code_def chk_alu_code_def chk_ld_code_def
  chk_special_code_def chk_jmp_code_def Let_def

definition bpf_example_prog :: "bpf_insn list" where
  "bpf_example_prog =
    [\<lparr>bi_code = Load LD_H_ABS, bi_jt = 0, bi_jf = 0, bi_k = 12\<rparr>,
     \<lparr>bi_code = Jmp JMP_JEQ_K, bi_jt = 0, bi_jf = 1, bi_k = 0x0800\<rparr>,
     \<lparr>bi_code = RET_K, bi_jt = 0, bi_jf = 0, bi_k = 96\<rparr>,
     \<lparr>bi_code = RET_K, bi_jt = 0, bi_jf = 0, bi_k = 0\<rparr>]"

lemma bpf_example_length: "length bpf_example = 4"
  by (simp add: bpf_example_def)

lemma bpf_example_checked: "sk_chk_filter bpf_example = Inr bpf_example_prog"
  by (simp add: bpf_chk_simps bpf_example_def bpf_example_prog_def)

text \<open>C1. A filter the checker accepts is confined: in every configuration a run can reach, on any
  packet and any content of the scratch memory, the program counter is inside the program, a step moves it
  strictly forward to another instruction of the program, and the step commits no division by zero,
  no access outside the scratch memory and no jump out of the program.\<close>

theorem sk_chk_filter_confines:
  assumes "sk_chk_filter fl = Inr prog" and "length mem0 = BPF_MEMWORDS"
    and "bpf_reach skb mem0 prog (pc, s)"
  shows "pc < length prog
    \<and> (\<forall>e. bpf_step skb (prog ! pc) s = Inl e \<longrightarrow> e = BadAccess)
    \<and> (\<forall>pc' s'. bpf_next skb prog (pc, s) (pc', s') \<longrightarrow> pc < pc' \<and> pc' < length prog)"
proof -
  note safe = sk_chk_filter_safe(1) [OF assms(1)]
  note r = bpf_reach_safe [OF assms(3) safe assms(2)]
  have "insn_safe (length prog) pc (prog ! pc)" using safe r by (simp add: prog_safe_def)
  then show ?thesis using r bpf_step_safe(1) bpf_next_safe [OF safe] by fastforce
qed

theorem sk_chk_filter_confines_witness:
  "bpf_reach skb_example (replicate 16 0) bpf_example_prog (0, bpf_init (replicate 16 0))
    \<and> bpf_next skb_example bpf_example_prog (0, bpf_init (replicate 16 0))
         (1, (bpf_init (replicate 16 0))\<lparr>bA := 0x0800\<rparr>)
    \<and> 0 < length bpf_example_prog \<and> 1 < length bpf_example_prog
    \<and> bpf_step skb_example (bpf_example_prog ! 0) (bpf_init (replicate 16 0)) \<noteq> Inl DivZero"
proof -
  let ?s = "bpf_init (replicate 16 0)"
  note c = sk_chk_filter_confines [OF bpf_example_checked _ bpf_reach.init, of "replicate 16 0" skb_example]
  have "bpf_step skb_example (bpf_example_prog ! 0) ?s = Inr (Cont (?s\<lparr>bA := 0x0800\<rparr>))"
    by (simp add: bpf_step_def bpf_example_prog_def bpf_load_step_def load_pointer_def skb_header_pointer_def
        skb_headlen_def mem_rd_def skb_example_def be_val_def take_Cons')
  then have n: "bpf_next skb_example bpf_example_prog (0, ?s) (1, ?s\<lparr>bA := 0x0800\<rparr>)"
    using bpf_next.cont [of 0 bpf_example_prog skb_example ?s] by (simp add: bpf_example_prog_def)
  show ?thesis using c n bpf_reach.init by auto
qed



text \<open>C29. Filters of a socket: after any sequence of attach and detach calls, failing ones
  included, the filter attached (if any) is one the checker accepts, the socket's option memory is charged exactly
  the size of that filter on top of what it was charged before, a failing call
  changes nothing, and a detach that succeeds gives back all of the filter's charge.\<close>

theorem sock_filter_accounting:
  assumes "sk_flt sk = None" and "sk' = sock_ops optmem_max ops sk"
    and "sock_op_step optmem_max op sk' = (err, sk'')"
  shows "sk_omem_alloc sk'' = sk_omem_alloc sk + sk_filter_charge sk''
    \<and> (\<forall>prog. sk_flt sk'' = Some prog \<longrightarrow> prog_safe prog)
    \<and> (err \<noteq> 0 \<longrightarrow> sk'' = sk')
    \<and> (op = Detach \<and> err = 0 \<longrightarrow> sk_omem_alloc sk'' = sk_omem_alloc sk)"
proof -
  have "sock_ok (sk_omem_alloc sk) sk" using assms(1) by (simp add: sock_ok_def sk_filter_charge_def)
  then have ok': "sock_ok (sk_omem_alloc sk) sk'" using assms(2) sock_ops_ok by blast
  note ok'' = sock_op_step_ok [OF ok' assms(3)]
  have "op = Detach \<and> err = 0 \<longrightarrow> sk_flt sk'' = None"
    using assms(3) by (auto simp: sock_op_step_def sk_detach_filter_def sk_filter_uncharge_def split: option.splits)
  then show ?thesis using ok'' by (auto simp: sock_ok_def sk_filter_charge_def)
qed

theorem sock_filter_accounting_witness:
  "\<exists>sk''. sock_op_step 10240 Detach
        (sock_ops 10240 [Attach True True (Some bpf_example)] \<lparr>sk_flt = None, sk_omem_alloc = 100\<rparr>) = (0, sk'')
      \<and> sk_omem_alloc sk'' = 100"
proof -
  let ?sk = "\<lparr>sk_flt = None, sk_omem_alloc = 100\<rparr>"
  let ?ops = "[Attach True True (Some bpf_example)]"
  obtain sk'' where d: "sock_op_step 10240 Detach (sock_ops 10240 ?ops ?sk) = (0, sk'')"
    by (simp add: sock_op_step_def sk_attach_filter_def sock_kmalloc_def bpf_example_checked sk_detach_filter_def
        bpf_example_length Let_def)
  from sock_filter_accounting [OF _ refl d] have "sk_omem_alloc sk'' = 100" by simp
  with d show ?thesis by blast
qed

definition bpf_nlattr_attack :: "sock_filter list" where
  "bpf_nlattr_attack =
    [\<lparr>sf_code = 0x00, sf_jt = 0, sf_jf = 0, sf_k = 0x80000010\<rparr>,
     \<lparr>sf_code = 0x20, sf_jt = 0, sf_jf = 0, sf_k = - 0x1000 + 12\<rparr>,
     \<lparr>sf_code = 0x16, sf_jt = 0, sf_jf = 0, sf_k = 0\<rparr>]"

text \<open>What the checker does not exclude, first: on a packet shorter than an attribute
  header the bound \<open>skb->len - sizeof(struct nlattr)\<close> wraps, and a filter the checker accepts
  makes \<open>SKF_AD_NLATTR\<close> read far outside the packet's buffer.\<close>

theorem nlattr_short_packet_overread:
  assumes "\<not> skb_is_nonlinear skb" and "skb_len skb < 4" and "sb_data skb < 2 ^ 30"
  shows "\<exists>prog. sk_chk_filter bpf_nlattr_attack = Inr prog \<and> sk_run_filter skb mem0 prog = Inl BadAccess"
proof -
  let ?p = "[\<lparr>bi_code = Reg LD_IMM, bi_jt = 0, bi_jf = 0, bi_k = 0x80000010\<rparr>,
     \<lparr>bi_code = Load LD_W_ABS, bi_jt = 0, bi_jf = 0, bi_k = - 0x1000 + 12\<rparr>,
     \<lparr>bi_code = RET_A, bi_jt = 0, bi_jf = 0, bi_k = 0\<rparr>]"
  have c: "sk_chk_filter bpf_nlattr_attack = Inr ?p" by (simp add: bpf_chk_simps bpf_nlattr_attack_def)
  have k: "sint (- 0x1000 + 12 :: u32) = - 0x1000 + 12" by simp
  have d: "data_ptr skb 0x80000010 = None" using assms(3) by (simp add: data_ptr_def Let_def)
  have "skb_len skb \<in> {0, 1, 2, 3}" using assms(2) by auto
  then have "\<not> (of_nat (skb_len skb) - 4 :: u32) < 0x80000010" by auto
  with d k assms(1) have "sk_run_filter skb mem0 ?p = Inl BadAccess"
    by (simp add: sk_run_filter_def bpf_loop.simps bpf_step_def bpf_reg_step_def bpf_load_step_def
        load_pointer_def bpf_ancillary_def bpf_nlattr_def Let_def bpf_init_def)
  with c show ?thesis by blast
qed

theorem nlattr_short_packet_overread_witness:
  "\<exists>prog. sk_chk_filter bpf_nlattr_attack = Inr prog
     \<and> sk_run_filter (skb_example\<lparr>sb_tail := 2\<rparr>) (replicate 16 0) prog = Inl BadAccess"
  by (rule nlattr_short_packet_overread) (simp_all add: skb_is_nonlinear_def skb_len_def skb_headlen_def skb_example_def)

text \<open>What the checker does not exclude, second: \<open>SKF_AD_NLATTR_NEST\<close> compares the
  attribute's length with \<open>A - skb->len\<close>, which has wrapped. An attribute header at offset \<open>A\<close> of the
  packet is therefore searched to the end its length field claims, also when that lies behind the end of the packet
  buffer: a nested attribute of another type that fills the rest of the buffer makes
  the search read outside it.\<close>

theorem nlattr_nest_overread:
  assumes "packet_ok skb" "\<not> skb_is_nonlinear skb" "4 \<le> skb_len skb" "skb_len skb < 2 ^ 31"
    and "bA s \<le> of_nat (skb_len skb) - 4"
    and "a = sb_data skb + unat (bA s)" and "nla_lenf (sb_head skb) a = Some l"
    and "nla_lenf (sb_head skb) (a + 4) = Some l'" and "nla_type (sb_head skb) (a + 4) = Some t"
    and "t \<noteq> unat (bX s)" and "4 \<le> l'" and "a + 4 + nla_align l' + 2 > length (sb_head skb)"
    and "nla_align l' + 8 \<le> l"
  shows "bpf_nlattr skb s True = Inl BadAccess"
proof -
  have l: "l < 65536" using assms(7) by (rule nla_lenf_16bit)
  have len: "nla_len (sb_head skb) a = Some (int l - 4)" using assms(7) by (simp add: nla_len_def)
  have ok: "nla_ok (sb_head skb) (a + 4) (int l - 4) = Some True"
    using assms(8,11,13) nla_align_ge [of l'] by (auto simp: nla_ok_def)
  have nx: "nla_next (sb_head skb) (a + 4) (int l - 4) = Some (a + 4 + nla_align l', int l - 4 - int (nla_align l'))"
    using assms(8) by (simp add: nla_next_def Let_def)
  have "nla_lenf (sb_head skb) (a + 4 + nla_align l') = None"
    using assms(12) by (auto simp: nla_lenf_def get16_def rd_def)
  then have "nla_find (sb_head skb) (a + 4 + nla_align l') (int l - 4 - int (nla_align l')) (unat (bX s)) = None"
    using assms(13) by (subst nla_find.simps) (simp add: nla_ok_def)
  then have "nla_find_nested (sb_head skb) a (unat (bX s)) = None"
    using ok nx len assms(9,10) by (simp add: nla_find_nested_def nla_find.simps [of _ "a + 4"])
  then show ?thesis using bpf_nlattr_nested_unguarded [OF assms(1-5) _ l] assms(6,7) by simp
qed

theorem nlattr_nest_overread_witness:
  "bpf_nlattr (skb_example\<lparr>sb_head := [16, 0, 1, 0, 4, 0, 2, 0, 0], sb_tail := 4\<rparr>)
     \<lparr>bA = 0, bX = 5, bmem = replicate 16 0, bvalid = 0\<rparr> True = Inl BadAccess"
  by (rule nlattr_nest_overread [of _ _ 0 16 4 2])
    (simp_all add: packet_ok_def skb_is_nonlinear_def skb_len_def skb_headlen_def skb_example_def
      nla_lenf_def nla_type_def get16_def rd_def nla_align_def)

end
