(* ===== verification/Vsprintf.thy ===== *)
theory Vsprintf
  imports CString
begin

text \<open>
  Numbers as text (\<^verbatim>\<open>lib/vsprintf.c\<close>): the parsers \<open>simple_strto*\<close> and \<open>strict_strto*\<close>, the conversion
  \<open>%hhu\<close> of \<open>vsscanf\<close> that the drivers' attributes use, and the printing of decimal numbers with
  multiplications in place of divisions. A string is the list of the bytes from the pointer to the end of
  its object; a read behind it is \<open>None\<close>. \<open>unsigned long\<close> has 32 bits. The theorems show that
  the parsers compute the value of the digits they consume, modulo the word size, and that
  printing and parsing are inverse.
\<close>

subsection \<open>Parsing\<close>

definition isdigit :: "u8 \<Rightarrow> bool" where
  "isdigit c \<longleftrightarrow> ctype ! unat c AND 4 \<noteq> 0"

definition isxdigit :: "u8 \<Rightarrow> bool" where
  "isxdigit c \<longleftrightarrow> ctype ! unat c AND (4 OR 0x40) \<noteq> 0"

definition TOLOWER :: "u8 \<Rightarrow> u8" where
  "TOLOWER x = x OR 0x20"

definition simple_guess_base :: "bytes \<Rightarrow> u32 option" where
  "simple_guess_base cp = do {
     c0 \<leftarrow> rd cp 0;
     if c0 = 48 then do {
       c1 \<leftarrow> rd cp 1;
       hex \<leftarrow> (if TOLOWER c1 = 120 then map_option isxdigit (rd cp 2) else Some False);
       Some (if hex then 16 else 8)
     } else Some 10 }"

text \<open>The value of a digit, and the loop over the digits with the offset of the current character.\<close>

definition digit_value :: "u8 \<Rightarrow> u32" where
  "digit_value c = (if isdigit c then ucast c - 48 else ucast (TOLOWER c) - 97 + 10)"

fun strtoull_loop :: "bytes \<Rightarrow> u32 \<Rightarrow> u64 \<Rightarrow> nat \<Rightarrow> (u64 \<times> nat) option" where
  "strtoull_loop [] base result n = None"
| "strtoull_loop (c # cp) base result n =
     (if isxdigit c then
        let value = digit_value c in
        if value \<ge> base then Some (result, n)
        else strtoull_loop cp base (result * ucast base + ucast value) (n + 1)
      else Some (result, n))"

text \<open>The result is the number and the offset stored in \<open>endp\<close>.\<close>

definition simple_strtoull :: "bytes \<Rightarrow> u32 \<Rightarrow> (u64 \<times> nat) option" where
  "simple_strtoull cp base = do {
     base \<leftarrow> (if base = 0 then simple_guess_base cp else Some base);
     prefix \<leftarrow> (if base = 16 then do {
         c0 \<leftarrow> rd cp 0;
         if c0 = 48 then map_option (\<lambda>c1. TOLOWER c1 = 120) (rd cp 1) else Some False }
       else Some False);
     if prefix then strtoull_loop (drop 2 cp) base 0 2 else strtoull_loop cp base 0 0 }"

definition simple_strtoul :: "bytes \<Rightarrow> u32 \<Rightarrow> (u32 \<times> nat) option" where
  "simple_strtoul cp base = map_option (\<lambda>(r, n). (ucast r, n)) (simple_strtoull cp base)"

text \<open>Signed results are given by their bits.\<close>

definition simple_strtol :: "bytes \<Rightarrow> u32 \<Rightarrow> (u32 \<times> nat) option" where
  "simple_strtol cp base = do {
     c \<leftarrow> rd cp 0;
     if c = 45 then map_option (\<lambda>(r, n). (- r, n + 1)) (simple_strtoul (drop 1 cp) base)
     else simple_strtoul cp base }"

definition simple_strtoll :: "bytes \<Rightarrow> u32 \<Rightarrow> (u64 \<times> nat) option" where
  "simple_strtoll cp base = do {
     c \<leftarrow> rd cp 0;
     if c = 45 then map_option (\<lambda>(r, n). (- r, n + 1)) (simple_strtoull (drop 1 cp) base)
     else simple_strtoull cp base }"

text \<open>What may follow a number: the end of the string, or a newline and the end. The second
  character is only read after a newline.\<close>

definition good_tail :: "bytes \<Rightarrow> nat \<Rightarrow> bool option" where
  "good_tail cp tail = do {
     c0 \<leftarrow> rd cp tail;
     if c0 = 0 then Some True
     else if c0 = 10 then map_option (\<lambda>c1. c1 = 0) (rd cp (tail + 1))
     else Some False }"

text \<open>The result code, and the value stored in \<open>res\<close>.\<close>

definition strict_strtoul :: "bytes \<Rightarrow> u32 \<Rightarrow> (int \<times> u32) option" where
  "strict_strtoul cp base = do {
     c \<leftarrow> rd cp 0;
     if c = 0 then Some (- EINVAL, 0)
     else do {
       (val, tail) \<leftarrow> simple_strtoul cp base;
       if tail = 0 then Some (- EINVAL, 0)
       else do {
         good \<leftarrow> good_tail cp tail;
         Some (if good then (0, val) else (- EINVAL, 0)) } } }"

definition strict_strtol :: "bytes \<Rightarrow> u32 \<Rightarrow> (int \<times> u32) option" where
  "strict_strtol cp base = do {
     c \<leftarrow> rd cp 0;
     if c = 45 then do {
       (ret, res) \<leftarrow> strict_strtoul (drop 1 cp) base;
       Some (ret, if ret = 0 then - res else res)
     } else strict_strtoul cp base }"

definition strict_strtoull :: "bytes \<Rightarrow> u32 \<Rightarrow> (int \<times> u64) option" where
  "strict_strtoull cp base = do {
     c \<leftarrow> rd cp 0;
     if c = 0 then Some (- EINVAL, 0)
     else do {
       (val, tail) \<leftarrow> simple_strtoull cp base;
       if tail = 0 then Some (- EINVAL, 0)
       else do {
         good \<leftarrow> good_tail cp tail;
         Some (if good then (0, val) else (- EINVAL, 0)) } } }"

definition strict_strtoll :: "bytes \<Rightarrow> u32 \<Rightarrow> (int \<times> u64) option" where
  "strict_strtoll cp base = do {
     c \<leftarrow> rd cp 0;
     if c = 45 then do {
       (ret, res) \<leftarrow> strict_strtoull (drop 1 cp) base;
       Some (ret, if ret = 0 then - res else res)
     } else strict_strtoull cp base }"

text \<open>\<open>sscanf(buf, "%hhu", &v)\<close>: the number of conversions and the value of \<open>v\<close>, which stays as it
  was if there is no number. The two pieces of \<open>vsscanf\<close> it goes through are its loop condition and the integer
  conversion.\<close>

definition sscanf_hhu :: "bytes \<Rightarrow> u8 \<Rightarrow> (int \<times> u8) option" where
  "sscanf_hhu buf v = do {
     c \<leftarrow> rd buf 0;
     if c = 0 then Some (0, v)
     else do {
       k \<leftarrow> skip_spaces buf;
       digit \<leftarrow> rd buf k;
       if digit = 0 \<or> \<not> isdigit digit then Some (0, v)
       else do {
         (r, next) \<leftarrow> simple_strtoul (drop k buf) 10;
         Some (1, ucast r) } } }"

text \<open>The same for \<open>%u\<close> and \<open>%d\<close> into an \<open>int\<close>; the latter takes a minus sign in front of the first digit.\<close>

definition sscanf_u :: "bytes \<Rightarrow> u32 \<Rightarrow> (int \<times> u32) option" where
  "sscanf_u buf v = do {
     c \<leftarrow> rd buf 0;
     if c = 0 then Some (0, v)
     else do {
       k \<leftarrow> skip_spaces buf;
       digit \<leftarrow> rd buf k;
       if digit = 0 \<or> \<not> isdigit digit then Some (0, v)
       else do {
         (r, next) \<leftarrow> simple_strtoul (drop k buf) 10;
         Some (1, r) } } }"

definition sscanf_d :: "bytes \<Rightarrow> u32 \<Rightarrow> (int \<times> u32) option" where
  "sscanf_d buf v = do {
     c \<leftarrow> rd buf 0;
     if c = 0 then Some (0, v)
     else do {
       k \<leftarrow> skip_spaces buf;
       digit \<leftarrow> rd buf k;
       digit \<leftarrow> (if digit = 45 then rd buf (k + 1) else Some digit);
       if digit = 0 \<or> \<not> isdigit digit then Some (0, v)
       else do {
         (r, next) \<leftarrow> simple_strtol (drop k buf) 10;
         Some (1, r) } } }"

subsection \<open>Printing\<close>

text \<open>The bytes stored from \<open>buf\<close> on, least significant digit first.\<close>

definition put_dec_trunc :: "u32 \<Rightarrow> bytes" where
  "put_dec_trunc q =
     (let d1 = drop_bit 4 q AND 0xf; d2 = drop_bit 8 q AND 0xf; d3 = drop_bit 12 q;
          d0 = 6 * (d3 + d2 + d1) + (q AND 0xf);
          q = drop_bit 11 (d0 * 0xcd);
          d0 = d0 - 10 * q;
          d1 = q + 9 * d3 + 5 * d2 + d1 in
      ucast (d0 + 48) #
      (if d1 \<noteq> 0 then
         let q = drop_bit 11 (d1 * 0xcd);
             d1 = d1 - 10 * q;
             d2 = q + 2 * d2 in
         ucast (d1 + 48) #
         (if d2 \<noteq> 0 \<or> d3 \<noteq> 0 then
            let q = drop_bit 7 (d2 * 0xd);
                d2 = d2 - 10 * q;
                d3 = q + 4 * d3 in
            ucast (d2 + 48) #
            (if d3 \<noteq> 0 then
               let q = drop_bit 11 (d3 * 0xcd);
                   d3 = d3 - 10 * q in
               ucast (d3 + 48) # (if q \<noteq> 0 then [ucast (q + 48)] else [])
             else [])
          else [])
       else []))"

definition put_dec_full :: "u32 \<Rightarrow> bytes" where
  "put_dec_full q =
     (let d1 = drop_bit 4 q AND 0xf; d2 = drop_bit 8 q AND 0xf; d3 = drop_bit 12 q;
          d0 = 6 * (d3 + d2 + d1) + (q AND 0xf);
          q = drop_bit 11 (d0 * 0xcd);
          d0 = d0 - 10 * q;
          d1 = q + 9 * d3 + 5 * d2 + d1;
          q = drop_bit 11 (d1 * 0xcd);
          d1 = d1 - 10 * q;
          d2 = q + 2 * d2;
          q = drop_bit 7 (d2 * 0xd);
          d2 = d2 - 10 * q;
          d3 = q + 4 * d3;
          q = drop_bit 11 (d3 * 0xcd);
          d3 = d3 - 10 * q
      in [ucast (d0 + 48), ucast (d1 + 48), ucast (d2 + 48), ucast (d3 + 48), ucast (q + 48)])"

function put_dec :: "u64 \<Rightarrow> bytes" where
  "put_dec num =
     (if num < 100000 then put_dec_trunc (ucast num)
      else put_dec_full (ucast (num mod 100000)) @ put_dec (num div 100000))"
  by pat_completeness auto
termination
  by (relation "measure unat") (auto simp: word_less_nat_alt unat_div not_less)

declare put_dec.simps [simp del]

text \<open>What \<open>sprintf\<close> stores for an \<open>int\<close> printed with \<open>%d\<close> and a newline.\<close>

definition show_int :: "int \<Rightarrow> bytes" where
  "show_int n = (if n < 0 then 45 # rev (put_dec (of_int (- n))) else rev (put_dec (of_int n))) @ [10]"

subsection \<open>Printing is right\<close>

text \<open>The decimal digits of a number, least significant first, and exactly \<open>k\<close> of them.\<close>

fun dec_rev :: "nat \<Rightarrow> nat list" where
  "dec_rev n = n mod 10 # (if n div 10 = 0 then [] else dec_rev (n div 10))"

declare dec_rev.simps [simp del]

fun dec_fixed :: "nat \<Rightarrow> nat \<Rightarrow> nat list" where
  "dec_fixed 0 n = []"
| "dec_fixed (Suc k) n = n mod 10 # dec_fixed k (n div 10)"

lemma dec_rev_split: "10 ^ k \<le> n \<Longrightarrow> dec_rev n = dec_fixed k (n mod 10 ^ k) @ dec_rev (n div 10 ^ k)"
proof (induction k arbitrary: n)
  case (Suc k)
  have "10 ^ k \<le> n div 10" using Suc.prems by (simp add: less_eq_div_iff_mult_less_eq mult.commute)
  moreover from this have "n div 10 \<noteq> 0" by (metis le_zero_eq power_eq_0_iff zero_neq_numeral)
  moreover have "n mod 10 ^ Suc k mod 10 = n mod 10" by (simp add: mod_mod_cancel)
  moreover have "n mod 10 ^ Suc k div 10 = n div 10 mod 10 ^ k"
    using mod_mult2_eq [of n 10 "10 ^ k"] by simp
  ultimately show ?case using Suc.IH [of "n div 10"]
    by (subst dec_rev.simps) (simp add: div_mult2_eq)
qed simp

lemma of_nat_drop_bit: "n < 2 ^ 32 \<Longrightarrow> drop_bit k (of_nat n :: u32) = of_nat (n div 2 ^ k)"
proof -
  assume n: "n < 2 ^ 32"
  have "unat (drop_bit k (of_nat n :: u32)) = drop_bit k (unat (of_nat n :: u32))" by (rule unat_drop_bit_eq)
  also have "\<dots> = n div 2 ^ k" using n by (simp only: unat_of_nat drop_bit_eq_div) simp
  finally show ?thesis by (rule unat_eq_imp_of_nat)
qed

lemma of_nat_low_nibble: "n < 2 ^ 32 \<Longrightarrow> (of_nat n :: u32) AND 0xf = of_nat (n mod 16)"
proof -
  assume n: "n < 2 ^ 32"
  have "unat ((of_nat n :: u32) AND 0xf) = unat (of_nat n :: u32) mod 2 ^ 4" by (rule unat_and_pow2_minus1) simp
  also have "\<dots> = n mod 16" using n by (simp add: unat_of_nat)
  finally show ?thesis by (rule unat_eq_imp_of_nat)
qed

text \<open>Division by ten as a multiplication and a shift, for the small values that occur.\<close>

lemma tenth: "2050 * a + 205 * b < 2048 * (a + 1) \<Longrightarrow> (10 * a + b) * 205 div 2048 = (a :: nat)"
    "130 * a + 13 * b < 128 * (a + 1) \<Longrightarrow> (10 * a + b) * 13 div 128 = a"
  by (rule div_nat_eqI; simp)+

lemma tenth_205: "d \<le> 339 \<Longrightarrow> d * 205 div 2048 = d div (10 :: nat)"
  using tenth(1) [of "d div 10" "d mod 10"] by (simp add: div_le_mono [of d 339 10, simplified])

lemma tenth_13: "d \<le> 63 \<Longrightarrow> d * 13 div 128 = d div (10 :: nat)"
  using tenth(2) [of "d div 10" "d mod 10"] by simp

lemma word_tenth:
  "d \<le> 339 \<Longrightarrow> drop_bit 11 (of_nat d * 0xcd :: u32) = of_nat (d div 10)"
  "d \<le> 63 \<Longrightarrow> drop_bit 7 (of_nat d * 0xd :: u32) = of_nat (d div 10)"
  using of_nat_drop_bit [of "d * 205" 11] of_nat_drop_bit [of "d * 13" 7] by (simp_all add: tenth_205 tenth_13)

lemma ucast_small: "k < 256 \<Longrightarrow> ucast (of_nat k :: u32) = (of_nat k :: u8)"
  by (intro word_unat_eq_iff [THEN iffD2]) (simp add: unat_of_nat unsigned_ucast_eq take_bit_eq_mod del: of_nat_add)

lemma word_digit: "ucast (of_nat d - 10 * of_nat (d div 10) + 48 :: u32) = (of_nat (d mod 10) + 48 :: u8)"
proof -
  have "(of_nat d :: u32) = of_nat (10 * (d div 10) + d mod 10)" by simp
  also have "\<dots> = 10 * of_nat (d div 10) + of_nat (d mod 10)" by (simp only: of_nat_add of_nat_mult of_nat_numeral)
  finally have e: "of_nat d - 10 * of_nat (d div 10) + 48 = (of_nat (d mod 10 + 48) :: u32)" by simp
  have "d mod 10 < 10" by simp
  then have "ucast (of_nat (d mod 10 + 48) :: u32) = (of_nat (d mod 10 + 48) :: u8)" by (intro ucast_small) simp
  then show ?thesis unfolding e by simp
qed

lemma small_zero: "d < 2 ^ 32 \<Longrightarrow> (of_nat d = (0 :: u32)) = (d = 0)"
proof -
  assume "d < 2 ^ 32"
  then show ?thesis by (auto simp: word_of_nat_eq_0_iff dest: dvd_imp_le)
qed

lemma add_multiple_10: "x + 10 * k = y \<Longrightarrow> y mod 10 = x mod (10 :: nat)" "x + 10 * k = y \<Longrightarrow> y div 10 = x div 10 + k"
  by auto

text \<open>The digits of a number below 100000 from its nibbles \<open>a3 a2 a1 r\<close>: the sums \<open>e0\<close> to \<open>e3\<close> are those
  the code computes.\<close>

lemma nibble_split:
  assumes "n < 100000"
  shows "n = 4096 * (n div 4096) + 256 * (n div 256 mod 16) + 16 * (n div 16 mod 16) + n mod 16" "n div 4096 \<le> (24 :: nat)"
proof -
  have d: "n div 256 = n div 16 div 16" "n div 4096 = n div 16 div 16 div 16" by (simp_all flip: div_mult2_eq)
  show "n = 4096 * (n div 4096) + 256 * (n div 256 mod 16) + 16 * (n div 16 mod 16) + n mod 16" unfolding d
    using div_mult_mod_eq [of n 16] div_mult_mod_eq [of "n div 16" 16] div_mult_mod_eq [of "n div 16 div 16" 16] by linarith
qed (use assms in simp)

lemma nibble_digits:
  fixes n a1 a2 a3 r :: nat
  assumes n: "n = 4096 * a3 + 256 * a2 + 16 * a1 + r" and b: "a3 \<le> 24" "a2 \<le> 15" "a1 \<le> 15" "r \<le> 15"
    and e: "e0 = 6 * (a3 + a2 + a1) + r" "e1 = e0 div 10 + 9 * a3 + 5 * a2 + a1" "e2 = e1 div 10 + 2 * a2" "e3 = e2 div 10 + 4 * a3"
  shows "e0 \<le> 339" "e1 \<le> 339" "e2 \<le> 63" "e3 \<le> 339"
    and "n mod 10 = e0 mod 10" "n div 10 = 400 * a3 + 20 * a2 + e1" "n div 100 = 40 * a3 + e2" "n div 1000 = e3"
    and "n div 10 mod 10 = e1 mod 10" "n div 100 mod 10 = e2 mod 10"
proof -
  show "e0 \<le> 339" using b e by simp
  then have "e0 div 10 \<le> 33" by simp
  then show "e1 \<le> 339" using b e by simp
  then have "e1 div 10 \<le> 33" by simp
  then show "e2 \<le> 63" using b e by simp
  then have "e2 div 10 \<le> 6" by simp
  then show "e3 \<le> 339" using b e by simp
  note a = add_multiple_10
  have n0: "e0 + 10 * (409 * a3 + 25 * a2 + a1) = n" using n e by simp
  from a(1) [OF n0] show "n mod 10 = e0 mod 10" .
  from a(2) [OF n0] show q1: "n div 10 = 400 * a3 + 20 * a2 + e1" using e by simp
  then have n1: "e1 + 10 * (40 * a3 + 2 * a2) = n div 10" by simp
  from a(1) [OF n1] show "n div 10 mod 10 = e1 mod 10" .
  from a(2) [OF n1] show q2: "n div 100 = 40 * a3 + e2" using e by (simp flip: div_mult2_eq)
  then have n2: "e2 + 10 * (4 * a3) = n div 100" by simp
  from a(1) [OF n2] show "n div 100 mod 10 = e2 mod 10" .
  from a(2) [OF n2] show "n div 1000 = e3" using e by (simp flip: div_mult2_eq)
qed

text \<open>The sums as words, with the quotients as shifts, and the digits and leading zeros they give.\<close>

definition nib_words :: "nat \<Rightarrow> nat \<Rightarrow> nat \<Rightarrow> nat \<Rightarrow> nat \<Rightarrow> nat \<Rightarrow> nat \<Rightarrow> bool" where
  "nib_words n a2 a3 e0 e1 e2 e3 \<longleftrightarrow>
     drop_bit 12 (of_nat n :: u32) = of_nat a3 \<and> drop_bit 8 (of_nat n :: u32) AND 0xf = of_nat a2
     \<and> 6 * (of_nat a3 + of_nat a2 + (drop_bit 4 (of_nat n) AND 0xf)) + (of_nat n AND 0xf) = (of_nat e0 :: u32)
     \<and> drop_bit 11 (of_nat e0 * 0xcd :: u32) = of_nat (e0 div 10)
     \<and> of_nat (e0 div 10) + 9 * of_nat a3 + 5 * of_nat a2 + (drop_bit 4 (of_nat n) AND 0xf) = (of_nat e1 :: u32)
     \<and> drop_bit 11 (of_nat e1 * 0xcd :: u32) = of_nat (e1 div 10)
     \<and> of_nat (e1 div 10) + 2 * of_nat a2 = (of_nat e2 :: u32)
     \<and> drop_bit 7 (of_nat e2 * 0xd :: u32) = of_nat (e2 div 10)
     \<and> of_nat (e2 div 10) + 4 * of_nat a3 = (of_nat e3 :: u32)
     \<and> drop_bit 11 (of_nat e3 * 0xcd :: u32) = of_nat (e3 div 10)"

definition nib_digits :: "nat \<Rightarrow> nat \<Rightarrow> nat \<Rightarrow> nat \<Rightarrow> nat \<Rightarrow> nat \<Rightarrow> bool" where
  "nib_digits n a3 e0 e1 e2 e3 \<longleftrightarrow>
     dec_fixed 5 n = [e0 mod 10, e1 mod 10, e2 mod 10, e3 mod 10, e3 div 10]
     \<and> dec_rev n = e0 mod 10 # (if e1 = 0 then [] else e1 mod 10 # (if e2 = 0 \<and> a3 = 0 then [] else e2 mod 10 #
         (if e3 = 0 then [] else e3 mod 10 # (if e3 div 10 = 0 then [] else [e3 div 10]))))
     \<and> a3 \<le> 24 \<and> e1 \<le> 339 \<and> e2 \<le> 63 \<and> e3 < 100"

lemma dec_rev_short:
  "dec_rev n = n mod 10 # (if n div 10 = 0 then [] else n div 10 mod 10 # (if n div 100 = 0 then [] else n div 100 mod 10 #
     (if n div 1000 = 0 then [] else n div 1000 mod 10 # (if n div 1000 div 10 = 0 then [] else dec_rev (n div 1000 div 10)))))"
  by (subst dec_rev.simps, subst dec_rev.simps, subst dec_rev.simps, subst dec_rev.simps) (simp flip: div_mult2_eq)

lemma nib_digits_intro:
  assumes d: "n mod 10 = e0 mod 10" "n div 10 = 400 * a3 + 20 * a2 + e1" "n div 100 = 40 * a3 + e2" "n div 1000 = e3"
      "n div 10 mod 10 = e1 mod 10" "n div 100 mod 10 = e2 mod 10"
    and b: "a3 \<le> 24" "e1 \<le> 339" "e2 \<le> 63" "n < 100000" and l: "9 * a3 + 5 * a2 \<le> e1"
  shows "nib_digits n a3 e0 e1 e2 e3"
proof -
  have e3: "e3 < 100" using b(4) d(4) by simp
  have five: "(5 :: nat) = Suc (Suc (Suc (Suc (Suc 0))))" by simp
  have f: "dec_fixed 5 n = [n mod 10, n div 10 mod 10, n div 100 mod 10, n div 1000 mod 10, n div 1000 div 10 mod 10]"
    unfolding five dec_fixed.simps by (simp flip: div_mult2_eq)
  have one: "dec_rev (e3 div 10) = [e3 div 10]" using e3 by (subst dec_rev.simps) simp
  have z: "(n div 10 = 0) = (e1 = 0)" "(n div 100 = 0) = (e2 = 0 \<and> a3 = 0)" using l unfolding d(2,3) by auto
  have m: "e3 div 10 mod 10 = e3 div 10" using e3 by simp
  show ?thesis unfolding nib_digits_def f dec_rev_short [of n] using b(1-3) e3
    by (simp only: d(1,5,6) z d(4) one m)
qed

lemma nibble_words:
  assumes n: "n < 100000"
  shows "\<exists>a2 a3 e0 e1 e2 e3. nib_words n a2 a3 e0 e1 e2 e3 \<and> nib_digits n a3 e0 e1 e2 e3"
proof -
  let ?a1 = "n div 16 mod 16" and ?a2 = "n div 256 mod 16" and ?a3 = "n div 4096" and ?r = "n mod 16"
  define e0 where "e0 = 6 * (?a3 + ?a2 + ?a1) + ?r"
  define e1 where "e1 = e0 div 10 + 9 * ?a3 + 5 * ?a2 + ?a1"
  define e2 where "e2 = e1 div 10 + 2 * ?a2"
  define e3 where "e3 = e2 div 10 + 4 * ?a3"
  have b: "?a2 \<le> 15" "?a1 \<le> 15" "?r \<le> 15" using mod_less_divisor [of 16] by (simp_all add: less_Suc_eq_le [symmetric])
  note nd = nibble_digits [OF nibble_split [OF n] b e0_def e1_def e2_def e3_def]
  have n32: "n < 2 ^ 32" "n div 16 < 2 ^ 32" "n div 256 < 2 ^ 32" using n by (simp_all add: div_le_dividend [THEN order_le_less_trans])
  have w: "drop_bit 12 (of_nat n :: u32) = of_nat ?a3" "drop_bit 8 (of_nat n :: u32) AND 0xf = of_nat ?a2"
    "drop_bit 4 (of_nat n :: u32) AND 0xf = of_nat ?a1" "(of_nat n :: u32) AND 0xf = of_nat ?r"
    using of_nat_drop_bit [OF n32(1), of 12] of_nat_drop_bit [OF n32(1), of 8] of_nat_drop_bit [OF n32(1), of 4]
    by (simp_all add: of_nat_low_nibble [OF n32(1)] of_nat_low_nibble [OF n32(2)] of_nat_low_nibble [OF n32(3)]
        del: drop_bit_of_nat drop_bit_numeral_bit0 and_numerals)
  have s: "6 * (of_nat ?a3 + of_nat ?a2 + of_nat ?a1) + of_nat ?r = (of_nat e0 :: u32)"
    "of_nat (e0 div 10) + 9 * of_nat ?a3 + 5 * of_nat ?a2 + of_nat ?a1 = (of_nat e1 :: u32)"
    "of_nat (e1 div 10) + 2 * of_nat ?a2 = (of_nat e2 :: u32)" "of_nat (e2 div 10) + 4 * of_nat ?a3 = (of_nat e3 :: u32)"
    by (simp_all only: e0_def e1_def e2_def e3_def of_nat_add of_nat_mult of_nat_numeral)
  have "nib_words n ?a2 ?a3 e0 e1 e2 e3"
    unfolding nib_words_def w s word_tenth(1) [OF nd(1)] word_tenth(1) [OF nd(2)] word_tenth(2) [OF nd(3)] word_tenth(1) [OF nd(4)]
    by (intro conjI refl)
  moreover have "nib_digits n ?a3 e0 e1 e2 e3"
    by (rule nib_digits_intro [of n e0 ?a3 ?a2]; (rule nd n nibble_split(2) [OF n])?) (simp add: e1_def)
  ultimately show ?thesis by blast
qed

text \<open>A decimal digit as a character.\<close>

abbreviation digit_char :: "nat \<Rightarrow> u8" where "digit_char d \<equiv> of_nat d + 48"

lemma put_dec_digits_short:
  assumes n: "n < 100000"
  shows "put_dec_full (of_nat n) = map digit_char (dec_fixed 5 n)" "put_dec_trunc (of_nat n) = map digit_char (dec_rev n)"
proof -
  obtain a2 a3 e0 e1 e2 e3 where w: "nib_words n a2 a3 e0 e1 e2 e3" and d: "nib_digits n a3 e0 e1 e2 e3"
    using nibble_words [OF n] by blast
  note w = w [unfolded nib_words_def] and d = d [unfolded nib_digits_def]
  have e3: "e3 < 100" and b: "e3 < 100" "a3 \<le> 24" "e1 \<le> 339" "e2 \<le> 63" using d by blast+
  have t: "ucast (of_nat (e3 div 10) + 48 :: u32) = (of_nat (e3 div 10) + 48 :: u8)"
    using word_digit [of "e3 div 10"] e3 by simp
  show "put_dec_full (of_nat n) = map digit_char (dec_fixed 5 n)"
    by (simp only: put_dec_full_def Let_def w word_digit t list.map d)
  have z: "(of_nat e1 = (0 :: u32)) = (e1 = 0)" "(of_nat e2 = (0 :: u32)) = (e2 = 0)" "(of_nat a3 = (0 :: u32)) = (a3 = 0)"
    "(of_nat e3 = (0 :: u32)) = (e3 = 0)" "(of_nat (e3 div 10) = (0 :: u32)) = (e3 div 10 = 0)"
    using b small_zero [of e1] small_zero [of e2] small_zero [of a3] small_zero [of e3] small_zero [of "e3 div 10"] by simp_all
  show "put_dec_trunc (of_nat n) = map digit_char (dec_rev n)"
    unfolding d [THEN conjunct2, THEN conjunct1]
    by (simp only: put_dec_trunc_def Let_def w word_digit t z) (simp split: if_splits)
qed

lemma put_dec_digits: "put_dec num = map digit_char (dec_rev (unat num))"
proof (induction num rule: put_dec.induct)
  case (1 num)
  have u: "(ucast num :: u32) = of_nat (unat num)" by simp
  have "(ucast (num mod 100000) :: u32) = of_nat (unat (num mod 100000))" by simp
  then have v: "(ucast (num mod 100000) :: u32) = of_nat (unat num mod 100000)" unfolding unat_mod by simp
  show ?case
  proof (cases "num < 100000")
    case True
    then have "unat num < 100000" by (simp add: word_less_nat_alt)
    then show ?thesis using put_dec_digits_short(2) True by (subst put_dec.simps) (simp only: u if_True)
  next
    case False
    then have "10 ^ 5 \<le> unat num" by (simp add: word_less_nat_alt)
    from dec_rev_split [OF this] False "1.IH" show ?thesis
      by (subst put_dec.simps) (simp add: v put_dec_digits_short(1) unat_div)
  qed
qed

subsection \<open>Parsing is right\<close>

text \<open>A digit of base \<open>b\<close>, and the value of a list of digits as a natural number.\<close>

definition digit_ok :: "u32 \<Rightarrow> u8 \<Rightarrow> bool" where
  "digit_ok b c \<longleftrightarrow> isxdigit c \<and> digit_value c < b"

definition num_value :: "u32 \<Rightarrow> bytes \<Rightarrow> nat" where
  "num_value b ds = foldl (\<lambda>a c. a * unat b + unat (digit_value c)) 0 ds"

text \<open>The reference: the base a string announces, whether it has the prefix of a hexadecimal number, and the
  value and end of its longest prefix of digits.\<close>

definition ref_base :: "bytes \<Rightarrow> u32" where
  "ref_base s = (case s of c0 # r \<Rightarrow>
       if c0 = 48 then (case r of c1 # c2 # _ \<Rightarrow> if TOLOWER c1 = 120 \<and> isxdigit c2 then 16 else 8 | _ \<Rightarrow> 8) else 10
     | [] \<Rightarrow> 10)"

definition hex_prefix :: "bytes \<Rightarrow> bool" where
  "hex_prefix s = (case s of c0 # c1 # _ \<Rightarrow> c0 = 48 \<and> TOLOWER c1 = 120 | _ \<Rightarrow> False)"

definition ref_strtoull :: "bytes \<Rightarrow> u32 \<Rightarrow> u64 \<times> nat" where
  "ref_strtoull s base =
     (let b = (if base = 0 then ref_base s else base);
          k = (if b = 16 \<and> hex_prefix s then 2 else 0);
          ds = takeWhile (digit_ok b) (drop k s)
      in (of_nat (num_value b ds), k + length ds))"

lemma strtoull_loop_value:
  "0 \<notin> set s \<Longrightarrow> strtoull_loop (s @ 0 # rest) b (of_nat a) n =
    Some (of_nat (foldl (\<lambda>a c. a * unat b + unat (digit_value c)) a (takeWhile (digit_ok b) s)), n + length (takeWhile (digit_ok b) s))"
proof (induction s arbitrary: a n)
  case Nil
  have "\<not> isxdigit 0" by (simp add: isxdigit_def ctype_def)
  then show ?case by simp
next
  case (Cons c s)
  have "of_nat a * ucast b + ucast (digit_value c) = (of_nat (a * unat b + unat (digit_value c)) :: u64)" by simp
  moreover have "digit_ok b c = (isxdigit c \<and> \<not> b \<le> digit_value c)" by (auto simp: digit_ok_def)
  ultimately show ?case using Cons by (cases "isxdigit c"; cases "b \<le> digit_value c") (simp_all del: of_nat_add of_nat_mult)
qed

lemma guess_base_ref: "0 \<notin> set s \<Longrightarrow> simple_guess_base (s @ 0 # rest) = Some (ref_base s)"
proof -
  assume s: "0 \<notin> set s"
  have t: "TOLOWER 0 \<noteq> 120" "\<not> isxdigit 0" by (simp_all add: TOLOWER_def isxdigit_def ctype_def)
  consider "s = []" | c0 where "s = [c0]" | c0 c1 where "s = [c0, c1]" | c0 c1 c2 r where "s = c0 # c1 # c2 # r"
    by (metis neq_Nil_conv)
  then show ?thesis by cases (use t s in \<open>auto simp: simple_guess_base_def ref_base_def rd_def\<close>)
qed

lemma simple_strtoull_ref:
  assumes s: "0 \<notin> set s"
  shows "simple_strtoull (s @ 0 # rest) base = Some (ref_strtoull s base)"
proof -
  have t: "TOLOWER 0 \<noteq> 120" by (simp add: TOLOWER_def)
  have pre: "(do { c0 \<leftarrow> rd (s @ 0 # rest) 0; if c0 = 48 then map_option (\<lambda>c1. TOLOWER c1 = 120) (rd (s @ 0 # rest) 1) else Some False })
      = Some (hex_prefix s)"
    using s t by (auto simp: hex_prefix_def rd_def split: list.splits)
  have b: "(if base = 0 then simple_guess_base (s @ 0 # rest) else Some base) = Some (if base = 0 then ref_base s else base)"
    using guess_base_ref [OF s] by simp
  have d: "drop 2 (s @ 0 # rest) = drop 2 s @ 0 # rest" "0 \<notin> set (drop 2 s)" if "hex_prefix s"
    using that s by (auto simp: hex_prefix_def split: list.splits dest: in_set_dropD)
  note loop = strtoull_loop_value [where a = 0, folded num_value_def, simplified]
  show ?thesis unfolding simple_strtoull_def b pre
    using loop [OF s] loop [OF d(2)] d(1) by (auto simp: ref_strtoull_def Let_def)
qed

subsection \<open>Printing and parsing\<close>

lemma digit_chars: "d < 10 \<Longrightarrow> digit_ok 10 (digit_char d) \<and> unat (digit_value (digit_char d)) = d \<and> digit_char d \<noteq> 0"
proof -
  assume "d < 10"
  then have "d \<in> {0, 1, 2, 3, 4, 5, 6, 7, 8, 9}" by auto
  then show ?thesis by (auto simp: digit_ok_def digit_value_def isxdigit_def isdigit_def ctype_def)
qed

lemma dec_rev_digits: "d \<in> set (dec_rev n) \<Longrightarrow> d < 10"
  by (induction n rule: dec_rev.induct) (subst (asm) dec_rev.simps, auto split: if_splits)

lemma dec_rev_value: "num_value 10 (map digit_char (rev (dec_rev n))) = n"
proof (induction n rule: dec_rev.induct)
  case (1 n)
  have "unat (digit_value (digit_char (n mod 10))) = n mod 10" using digit_chars [of "n mod 10"] by simp
  then show ?case using "1.IH" unfolding num_value_def
    by (subst dec_rev.simps) (auto simp: mult.commute)
qed

lemma put_dec_parsed:
  assumes "t = [] \<or> t = [10]"
  shows "strict_strtoull (rev (put_dec n) @ t @ [0]) 10 = Some (0, n)"
proof -
  let ?ds = "map digit_char (rev (dec_rev (unat n)))"
  have p: "rev (put_dec n) = ?ds" by (simp add: put_dec_digits rev_map)
  have ok: "list_all (digit_ok 10) ?ds" "0 \<notin> set ?ds" using digit_chars dec_rev_digits by (fastforce simp: list_all_iff)+
  have nl: "\<not> digit_ok 10 10" by (simp add: digit_ok_def isxdigit_def ctype_def)
  have tw: "takeWhile (digit_ok 10) (?ds @ t) = ?ds"
    using ok(1) assms nl by (subst takeWhile_append2) (auto simp: list_all_iff)
  have z: "0 \<notin> set (?ds @ t)" using ok(2) assms by auto
  have "simple_strtoull (?ds @ t @ [0]) 10 = Some (ref_strtoull (?ds @ t) 10)" using simple_strtoull_ref [OF z, of "[]" 10] by simp
  also have "ref_strtoull (?ds @ t) 10 = (n, length ?ds)"
    unfolding ref_strtoull_def Let_def using tw by (simp add: dec_rev_value)
  finally have s: "simple_strtoull (?ds @ t @ [0]) 10 = Some (n, length ?ds)" .
  have ne: "dec_rev (unat n) \<noteq> []" by (subst dec_rev.simps) simp
  then have "?ds \<noteq> []" by simp
  then obtain c cs where c: "?ds = c # cs" by (cases ?ds) auto
  have hd: "rd (?ds @ t @ [0]) 0 = Some c" "c \<noteq> 0"
    using ok(2) unfolding c by (auto simp: rd_def)
  have g: "good_tail (?ds @ t @ [0]) (length ?ds) = Some True"
    using assms by (auto simp: good_tail_def rd_def nth_append)
  show ?thesis unfolding p strict_strtoull_def hd(1) using hd(2) s g ne by simp
qed

subsection \<open>The conversion the attributes use\<close>

lemma strnlen_terminated: "0 \<notin> set s \<Longrightarrow> strnlen (s @ 0 # rest) n = Some (min n (length s))"
proof (induction s arbitrary: n)
  case Nil
  show ?case by (cases n) simp_all
next
  case (Cons c s)
  then show ?case by (cases n) auto
qed

lemma sscanf_hhu_total:
  assumes "0 \<notin> set s"
  shows "\<exists>k w. sscanf_hhu (s @ 0 # rest) v = Some (k, w) \<and> (k = 0 \<and> w = v \<or> k = 1)"
proof (cases "s = []")
  case False
  let ?sp = "length (takeWhile isspace s)"
  have sk: "skip_spaces (s @ 0 # rest) = Some ?sp" by (rule skip_spaces_correct [OF isspace_0])
  have le: "?sp \<le> length s" by (rule length_takeWhile_le)
  have dr: "drop ?sp (s @ 0 # rest) = drop ?sp s @ 0 # rest" using le by simp
  have "0 \<notin> set (drop ?sp s)" using assms by (auto dest: in_set_dropD)
  from simple_strtoull_ref [OF this, of rest 10] obtain r e where
    "simple_strtoul (drop ?sp (s @ 0 # rest)) 10 = Some (r, e)" unfolding dr simple_strtoul_def
    by (cases "ref_strtoull (drop ?sp s) 10") auto
  then show ?thesis using False sk le assms by (simp add: sscanf_hhu_def)
qed (simp add: sscanf_hhu_def)

subsection \<open>Properties\<close>

text \<open>C28. Parsing agrees with a reference definition: on every string with a terminator, in every base given or
  announced by the string, \<open>simple_strtoull\<close> reads nothing behind the terminator, consumes the longest run of digits of the base
  (after the prefix of a hexadecimal number) and returns their value modulo \<open>2 ^ 64\<close>.\<close>

theorem simple_strtoull_reference:
  assumes "0 \<notin> set s"
  shows "simple_strtoull (s @ 0 # rest) base = Some (ref_strtoull s base)"
  using assms by (rule simple_strtoull_ref)

theorem simple_strtoull_reference_witness:
  "simple_strtoull ([48, 120, 49, 102, 122] @ 0 # []) 0 = Some (31, 4)"
  using simple_strtoull_reference [of "[48, 120, 49, 102, 122]" "[]" 0]
  by (simp add: ref_strtoull_def ref_base_def hex_prefix_def TOLOWER_def digit_ok_def digit_value_def isxdigit_def isdigit_def
      ctype_def num_value_def)

text \<open>C27. Round trip of decimal numbers: \<open>put_dec\<close>, which divides by ten with multiplications and shifts on pieces of five
  digits, stores exactly the decimal digits of every 64-bit number, least significant first; and parsing these digits in
  order, with or without the newline a shell appends, succeeds and gives the number back.\<close>

theorem put_dec_roundtrip:
  "put_dec n = map digit_char (dec_rev (unat n)) \<and> strict_strtoull (rev (put_dec n) @ [0]) 10 = Some (0, n)
    \<and> strict_strtoull (rev (put_dec n) @ [10, 0]) 10 = Some (0, n)"
  using put_dec_digits put_dec_parsed [of "[]" n] put_dec_parsed [of "[10]" n] by simp

text \<open>A number that does not fit is accepted and wraps: \<open>4294967296\<close> is converted to 0.\<close>

lemma strict_strtoul_wraps: "strict_strtoul [52, 50, 57, 52, 57, 54, 55, 50, 57, 54, 0] 10 = Some (0, 0)"
proof -
  have "simple_strtoull ([52, 50, 57, 52, 57, 54, 55, 50, 57, 54] @ 0 # []) 10 = Some (0x100000000, 10)"
    by (subst simple_strtoull_ref)
      (simp_all add: ref_strtoull_def digit_ok_def digit_value_def isxdigit_def isdigit_def ctype_def num_value_def)
  then show ?thesis by (simp add: strict_strtoul_def simple_strtoul_def good_tail_def rd_def)
qed

end
