(* ===== verification/FormatText.thy ===== *)
theory FormatText
  imports Vsprintf
begin

text \<open>
  The text of a conversion (\<^verbatim>\<open>lib/vsprintf.c\<close>): numbers and strings with width, precision and flags. The characters that \<open>number\<close> and \<open>string\<close> produce are a
  list here; storing them one by one, as far as they fit, is in \<open>Format\<close>. Width and precision are signed 16-bit numbers that wrap. The theorems say
  that \<open>number\<close> lays out a number as the flags ask, that its digits are read back by the parser, and where the 16 bits are too few.
\<close>

subsection \<open>Data\<close>

datatype format_type = FORMAT_TYPE_NONE | FORMAT_TYPE_WIDTH | FORMAT_TYPE_PRECISION | FORMAT_TYPE_CHAR | FORMAT_TYPE_STR | FORMAT_TYPE_PTR
  | FORMAT_TYPE_PERCENT_CHAR | FORMAT_TYPE_INVALID | FORMAT_TYPE_LONG_LONG | FORMAT_TYPE_ULONG | FORMAT_TYPE_LONG | FORMAT_TYPE_UBYTE
  | FORMAT_TYPE_BYTE | FORMAT_TYPE_USHORT | FORMAT_TYPE_SHORT | FORMAT_TYPE_UINT | FORMAT_TYPE_INT | FORMAT_TYPE_NRCHARS
  | FORMAT_TYPE_SIZE_T | FORMAT_TYPE_PTRDIFF

record printf_spec =
  ps_type :: format_type
  ps_flags :: u8
  ps_base :: u8
  ps_qualifier :: u8
  ps_width :: int
  ps_precision :: int

abbreviation (input) ZEROPAD :: u8 where "ZEROPAD \<equiv> 1"
abbreviation (input) SIGN :: u8 where "SIGN \<equiv> 2"
abbreviation (input) PLUS :: u8 where "PLUS \<equiv> 4"
abbreviation (input) SPACE :: u8 where "SPACE \<equiv> 8"
abbreviation (input) LEFT :: u8 where "LEFT \<equiv> 16"
abbreviation (input) SMALL :: u8 where "SMALL \<equiv> 32"
abbreviation (input) SPECIAL :: u8 where "SPECIAL \<equiv> 64"

definition has :: "printf_spec \<Rightarrow> u8 \<Rightarrow> bool" where
  "has spec flag \<longleftrightarrow> ps_flags spec AND flag \<noteq> 0"

text \<open>The width and the precision are kept in 16 bits, with a sign.\<close>

definition s16 :: "int \<Rightarrow> int" where
  "s16 n = signed_take_bit 15 n"

subsection \<open>Numbers and strings\<close>

text \<open>The loops \<open>while (--w >= 0)\<close>, \<open>while (i <= --p)\<close>, \<open>while (--w > 0)\<close> and \<open>while (len < w--)\<close>, with the width they leave.\<close>

function pad_loop :: "u8 \<Rightarrow> int \<Rightarrow> bytes \<times> int" where
  "pad_loop c w = (let w = s16 (w - 1) in if w \<ge> 0 then (let (t, v) = pad_loop c w in (c # t, v)) else ([], w))"
  by pat_completeness auto

function zero_loop :: "nat \<Rightarrow> int \<Rightarrow> bytes" where
  "zero_loop i p = (let p = s16 (p - 1) in if int i \<le> p then 48 # zero_loop i p else [])"
  by pat_completeness auto

function char_loop :: "int \<Rightarrow> bytes \<times> int" where
  "char_loop w = (let w = s16 (w - 1) in if w > 0 then (let (t, v) = char_loop w in (32 # t, v)) else ([], w))"
  by pat_completeness auto

function str_loop :: "nat \<Rightarrow> int \<Rightarrow> bytes \<times> int" where
  "str_loop len w = (if int len < w then (let (t, v) = str_loop len (s16 (w - 1)) in (32 # t, v)) else ([], s16 (w - 1)))"
  by pat_completeness auto

lemma s16_bounds: "- 32768 \<le> s16 n" "s16 n < 32768"
  unfolding s16_def using signed_take_bit_int_greater_eq_minus_exp [of 15 n] signed_take_bit_int_less_exp [of 15 n] by simp_all

lemma s16_id [simp]: "- 32768 \<le> n \<Longrightarrow> n < 32768 \<Longrightarrow> s16 n = n"
  unfolding s16_def by (rule signed_take_bit_int_eq_self) simp_all

lemma s16_pred [simp]: "0 \<le> s16 n \<Longrightarrow> s16 (s16 n - 1) = s16 n - 1"
  using s16_bounds [of n] by (intro s16_id) linarith+

termination pad_loop
  by (relation "measure (\<lambda>(c, w). nat (s16 (w - 1) + 1))") auto

termination zero_loop
proof (relation "measure (\<lambda>(i, p). nat (s16 (p - 1) + 1))", goal_cases)
  case (2 i p x)
  then have "0 \<le> x" by linarith
  with 2(1) show ?case by simp
qed simp

termination char_loop
  by (relation "measure (\<lambda>w. nat (s16 (w - 1) + 1))") auto

termination str_loop
proof (relation "measure (\<lambda>(len, w). nat w)", goal_cases)
  case (2 len w)
  have "s16 (w - 1) < w"
  proof (cases "w < 32768")
    case True
    then show ?thesis using 2 by simp
  next
    case False
    then show ?thesis using s16_bounds(2) [of "w - 1"] by linarith
  qed
  with 2 show ?case by simp
qed simp

declare pad_loop.simps [simp del] zero_loop.simps [simp del] char_loop.simps [simp del] str_loop.simps [simp del]

text \<open>The digits of a number, the last one first: in base 8 or 16, and in any base the code uses.\<close>

abbreviation hex_table :: bytes where
  "hex_table \<equiv> [48, 49, 50, 51, 52, 53, 54, 55, 56, 57, 65, 66, 67, 68, 69, 70]"

function pow_digits :: "u64 \<Rightarrow> u8 \<Rightarrow> u8 \<Rightarrow> bytes" where
  "pow_digits num base locase =
     (hex_table ! unat ((ucast num :: u8) AND (base - 1)) OR locase)
       # (let num = drop_bit (if base = 16 then 4 else 3) num in if num \<noteq> 0 then pow_digits num base locase else [])"
  by pat_completeness auto

lemma drop_bit_less: "0 < k \<Longrightarrow> drop_bit k num \<noteq> 0 \<Longrightarrow> unat (drop_bit k num) < unat (num :: 'a :: len word)"
proof -
  assume "0 < k" "drop_bit k num \<noteq> 0"
  then have "0 < unat num" by (metis drop_bit_of_0 unat_gt_0)
  moreover have "unat (drop_bit k num) = unat num div 2 ^ k" by (simp only: unat_drop_bit_eq drop_bit_eq_div [of k "unat num"])
  moreover have "(1 :: nat) < 2 ^ k" by (rule one_less_power [OF _ \<open>0 < k\<close>]) simp
  ultimately show ?thesis using div_less_dividend [of "2 ^ k" "unat num"] by linarith
qed

termination pow_digits
  by (relation "measure (\<lambda>(num, base, locase). unat num)") (auto intro!: drop_bit_less)

declare pow_digits.simps [simp del]

definition number_digits :: "u64 \<Rightarrow> u8 \<Rightarrow> u8 \<Rightarrow> bytes" where
  "number_digits num base locase =
     (if num = 0 then [48] else if base \<noteq> 10 then pow_digits num base locase else put_dec num)"

text \<open>The sign character (0 if there is none), the magnitude and the width left.\<close>

definition number_sign :: "u64 \<Rightarrow> printf_spec \<Rightarrow> u8 \<times> u64 \<times> int" where
  "number_sign num spec =
     (if has spec SIGN then
        if sint num < 0 then (45, - num, s16 (ps_width spec - 1))
        else if has spec PLUS then (43, num, s16 (ps_width spec - 1))
        else if has spec SPACE then (32, num, s16 (ps_width spec - 1))
        else (0, num, ps_width spec)
      else (0, num, ps_width spec))"

definition number :: "u64 \<Rightarrow> printf_spec \<Rightarrow> bytes" where
  "number num spec =
     (let need_pfx = (has spec SPECIAL \<and> ps_base spec \<noteq> 10);
          locase = ps_flags spec AND SMALL;
          spec = (if has spec LEFT then spec\<lparr>ps_flags := ps_flags spec AND NOT ZEROPAD\<rparr> else spec);
          (sign, num, w) = number_sign num spec;
          w = (if need_pfx then s16 (w - 1) else w);
          w = (if need_pfx \<and> ps_base spec = 16 then s16 (w - 1) else w);
          tmp = number_digits num (ps_base spec) locase;
          i = length tmp;
          p = (if int i > ps_precision spec then s16 (int i) else ps_precision spec);
          w = s16 (w - p);
          (lead, w) = (if \<not> has spec (ZEROPAD + LEFT) then pad_loop 32 w else ([], w));
          pfx = (if need_pfx then 48 # (if ps_base spec = 16 then [88 OR locase] else []) else []);
          (mid, w) = (if \<not> has spec LEFT then pad_loop (if has spec ZEROPAD then 48 else 32) w else ([], w));
          (trail, w) = pad_loop 32 w
      in lead @ (if sign \<noteq> 0 then [sign] else []) @ pfx @ mid @ zero_loop i p @ rev tmp @ trail)"

text \<open>A string argument below the first page prints as \<open>(null)\<close>. A negative precision is no bound: it is a huge \<open>size_t\<close>.\<close>

abbreviation null_text :: bytes where "null_text \<equiv> [40, 110, 117, 108, 108, 41, 0]"

definition string_text :: "bytes option \<Rightarrow> printf_spec \<Rightarrow> bytes option" where
  "string_text arg spec = do {
     let s = (case arg of None \<Rightarrow> null_text | Some s \<Rightarrow> s);
     len \<leftarrow> strnlen s (unat (of_int (ps_precision spec) :: u32));
     let (lead, w) = (if \<not> has spec LEFT then str_loop len (ps_width spec) else ([], ps_width spec));
     Some (lead @ take len s @ fst (str_loop len w)) }"


subsection \<open>Padding\<close>

lemma pad_loop_replicate:
  "- 32768 < w \<Longrightarrow> w < 32768 \<Longrightarrow> pad_loop c w = (replicate (nat w) c, if 0 < w then - 1 else w - 1)"
proof (induction "nat w" arbitrary: w)
  case 0
  then show ?case by (subst pad_loop.simps) (simp add: Let_def)
next
  case (Suc n)
  have IH: "pad_loop c (w - 1) = (replicate (nat (w - 1)) c, if 0 < w - 1 then - 1 else w - 2)"
    using Suc.hyps(1) [of "w - 1"] Suc.hyps(2) Suc.prems by simp
  have "nat w = Suc (nat (w - 1))" using Suc.hyps(2) by simp
  then show ?case using Suc.prems IH by (subst pad_loop.simps) (auto simp: Let_def)
qed

lemma zero_loop_replicate: "- 32768 < p \<Longrightarrow> p < 32768 \<Longrightarrow> zero_loop i p = replicate (nat (p - int i)) 48"
proof (induction "nat (p - int i)" arbitrary: p)
  case 0
  then show ?case by (subst zero_loop.simps) (simp add: Let_def)
next
  case (Suc n)
  have IH: "zero_loop i (p - 1) = replicate (nat (p - 1 - int i)) 48"
    using Suc.hyps(1) [of "p - 1"] Suc.hyps(2) Suc.prems by simp
  have "nat (p - int i) = Suc (nat (p - 1 - int i))" using Suc.hyps(2) by simp
  then show ?case using Suc.prems IH Suc.hyps(2) by (subst zero_loop.simps) (auto simp: Let_def)
qed

lemma str_loop_replicate:
  "- 32768 < w \<Longrightarrow> w < 32768 \<Longrightarrow> str_loop len w = (replicate (nat (w - int len)) 32, if int len < w then int len - 1 else w - 1)"
proof (induction "nat (w - int len)" arbitrary: w)
  case 0
  then show ?case by (subst str_loop.simps) simp
next
  case (Suc n)
  have IH: "str_loop len (w - 1) = (replicate (nat (w - 1 - int len)) 32, if int len < w - 1 then int len - 1 else w - 2)"
    using Suc.hyps(1) [of "w - 1"] Suc.hyps(2) Suc.prems by simp
  have "nat (w - int len) = Suc (nat (w - 1 - int len))" "int len < w" using Suc.hyps(2) by simp_all
  then show ?case using Suc.prems IH by (subst str_loop.simps) (auto)
qed

text \<open>The layout that the flags ask for: sign, prefix, zeros up to the precision and digits, filled up to the width.\<close>

definition laid_out :: "printf_spec \<Rightarrow> bytes \<Rightarrow> bytes \<Rightarrow> bytes" where
  "laid_out spec pfx ds =
     (let body = replicate (nat (ps_precision spec - int (length ds))) 48 @ ds;
          pad = nat (ps_width spec - int (length pfx + length body)) in
      if has spec LEFT then pfx @ body @ replicate pad 32
      else if has spec ZEROPAD then pfx @ replicate pad 48 @ body
      else replicate pad 32 @ pfx @ body)"

definition sign_prefix :: "u64 \<Rightarrow> printf_spec \<Rightarrow> bytes" where
  "sign_prefix num spec =
     (if has spec SIGN then
        if sint num < 0 then [45] else if has spec PLUS then [43] else if has spec SPACE then [32] else []
      else [])
     @ (if has spec SPECIAL then if ps_base spec = 8 then [48] else if ps_base spec = 16 then [48, 88 OR (ps_flags spec AND SMALL)] else [] else [])"

definition magnitude :: "u64 \<Rightarrow> printf_spec \<Rightarrow> u64" where
  "magnitude num spec = (if has spec SIGN \<and> sint num < 0 then - num else num)"

text \<open>Widths and precisions of 16 bits, where the width that is left behind the sign, the prefix and the precision does not wrap: the precision exceeds the width by less than 32763.\<close>

definition spec_ok :: "printf_spec \<Rightarrow> bool" where
  "spec_ok spec \<longleftrightarrow> ps_base spec \<in> {8, 10, 16} \<and> - 1 \<le> ps_width spec \<and> ps_width spec < 32768
     \<and> - 1 \<le> ps_precision spec \<and> ps_precision spec < 32768 \<and> ps_precision spec < ps_width spec + 32763"

subsection \<open>Digits\<close>

lemma unat_drop_bit_div: "unat (drop_bit k w) = unat (w :: 'a :: len word) div 2 ^ k"
  by (simp only: unat_drop_bit_eq drop_bit_eq_div [of k "unat w"])

lemma pow_digits_length: "unat num < 8 ^ Suc n \<Longrightarrow> length (pow_digits num base locase) \<le> Suc n"
proof (induction n arbitrary: num)
  case 0
  then have "unat num div 8 = 0" "unat num div 16 = 0" by simp_all
  then have "drop_bit (if base = 16 then 4 else 3) num = 0" using unat_drop_bit_div [of 4 num] unat_drop_bit_div [of 3 num]
    by (simp add: unat_eq_zero)
  then show ?case by (subst pow_digits.simps) simp
next
  case (Suc n)
  have "unat (drop_bit (if base = 16 then 4 else 3) num) < 8 ^ Suc n"
    using Suc.prems unat_drop_bit_div [of 4 num] unat_drop_bit_div [of 3 num] by (auto simp: less_mult_imp_div_less mult.commute)
  then show ?case using Suc.IH [of "drop_bit (if base = 16 then 4 else 3) num"] by (subst pow_digits.simps) (auto simp: Let_def)
qed

lemma dec_rev_length: "n < 10 ^ Suc k \<Longrightarrow> length (dec_rev n) \<le> Suc k"
proof (induction k arbitrary: n)
  case 0
  then show ?case by (subst dec_rev.simps) simp
next
  case (Suc k)
  then have "n div 10 < 10 ^ Suc k" by (simp add: less_mult_imp_div_less)
  from Suc.IH [OF this] show ?case by (subst dec_rev.simps) simp
qed

text \<open>The digits fit into the array \<open>tmp\<close>.\<close>

lemma number_digits_fit: "length (number_digits num base locase) \<le> 22"
proof -
  have "unat num < 2 ^ LENGTH(64)" by (rule unsigned_less)
  then have "unat num < 8 ^ Suc 21" "unat num < 10 ^ Suc 21" by simp_all
  from pow_digits_length [OF this(1)] dec_rev_length [OF this(2)] show ?thesis by (simp add: number_digits_def put_dec_digits)
qed

lemma number_digits_nonempty [simp]: "number_digits num base locase \<noteq> []"
  by (subst number_digits_def, subst pow_digits.simps) (simp add: put_dec_digits, subst dec_rev.simps, simp)

lemma has_or: "has spec (ZEROPAD + LEFT) \<longleftrightarrow> has spec ZEROPAD \<or> has spec LEFT"
proof -
  have "(1 + 16 :: u8) = 1 OR 16" by simp
  then have "ps_flags spec AND (1 + 16) = (ps_flags spec AND 1) OR (ps_flags spec AND 16)"
    by (simp only: bit.conj_disj_distrib)
  then show ?thesis by (simp only: has_def or_eq_0_iff) blast
qed

lemma has_clear [simp]:
  "has (spec\<lparr>ps_flags := ps_flags spec AND - 2\<rparr>) 2 = has spec 2" "has (spec\<lparr>ps_flags := ps_flags spec AND - 2\<rparr>) 4 = has spec 4"
  "has (spec\<lparr>ps_flags := ps_flags spec AND - 2\<rparr>) 8 = has spec 8" "has (spec\<lparr>ps_flags := ps_flags spec AND - 2\<rparr>) 16 = has spec 16"
  by (simp_all add: has_def and.assoc)

lemma number_sign_exact:
  assumes "- 1 \<le> ps_width spec" "ps_width spec < 32768"
  shows "number_sign num spec =
    (if has spec SIGN then if sint num < 0 then 45 else if has spec PLUS then 43 else if has spec SPACE then 32 else 0 else 0,
     magnitude num spec,
     ps_width spec - (if has spec SIGN \<and> (sint num < 0 \<or> has spec PLUS \<or> has spec SPACE) then 1 else 0))"
  using assms by (simp add: number_sign_def magnitude_def)

text \<open>The paddings of \<open>number\<close>, for a width that is left and a precision of at least the digits.\<close>

definition padded :: "printf_spec \<Rightarrow> bytes \<Rightarrow> bytes \<Rightarrow> int \<Rightarrow> int \<Rightarrow> bytes" where
  "padded spec pfx tmp w p =
     (let (lead, w) = (if \<not> has spec (ZEROPAD + LEFT) then pad_loop 32 w else ([], w));
          (mid, w) = (if \<not> has spec LEFT then pad_loop (if has spec ZEROPAD then 48 else 32) w else ([], w));
          (trail, w) = pad_loop 32 w
      in lead @ pfx @ mid @ zero_loop (length tmp) p @ rev tmp @ trail)"

lemma padded_laid_out:
  assumes "- 32766 < w" "w < 32768" "int (length tmp) \<le> p" "p < 32768" "p = max (int (length tmp)) (ps_precision spec)"
    "ps_width spec = w + p + int (length pfx)"
  shows "padded spec pfx tmp w p = laid_out spec pfx (rev tmp)"
proof -
  have z: "zero_loop (length tmp) p = replicate (nat (ps_precision spec - int (length tmp))) 48"
    using zero_loop_replicate [of p "length tmp"] assms(3-5) by (auto simp: max_def)
  have n: "nat (ps_width spec - int (length pfx + length (replicate (nat (ps_precision spec - int (length tmp))) 48 @ rev tmp))) = nat w"
    using assms(3,5,6) by (auto simp: max_def)
  show ?thesis unfolding padded_def laid_out_def Let_def length_rev z n has_or
    using assms(1,2) by (auto simp: pad_loop_replicate)
qed

lemma number_padded:
  assumes "spec_ok spec"
  shows "number num spec =
    (let tmp = number_digits (magnitude num spec) (ps_base spec) (ps_flags spec AND SMALL);
         p = max (int (length tmp)) (ps_precision spec) in
     padded (if has spec LEFT then spec\<lparr>ps_flags := ps_flags spec AND NOT ZEROPAD\<rparr> else spec) (sign_prefix num spec) tmp
       (ps_width spec - int (length (sign_prefix num spec)) - p) p)"
proof -
  let ?s = "if has spec LEFT then spec\<lparr>ps_flags := ps_flags spec AND NOT ZEROPAD\<rparr> else spec"
  let ?tmp = "number_digits (magnitude num spec) (ps_base spec) (ps_flags spec AND SMALL)"
  let ?p = "max (int (length ?tmp)) (ps_precision spec)"
  have base: "ps_base spec = 8 \<or> ps_base spec = 10 \<or> ps_base spec = 16" and w: "- 1 \<le> ps_width spec" "ps_width spec < 32768"
    and p: "- 1 \<le> ps_precision spec" "ps_precision spec < 32768" "ps_precision spec < ps_width spec + 32763" using assms by (auto simp: spec_ok_def)
  have f: "ps_width ?s = ps_width spec" "ps_base ?s = ps_base spec" "ps_precision ?s = ps_precision spec" by simp_all
  have h: "has ?s SIGN = has spec SIGN" "has ?s PLUS = has spec PLUS" "has ?s SPACE = has spec SPACE" by simp_all
  have m: "magnitude num ?s = magnitude num spec" unfolding magnitude_def h ..
  have l: "length ?tmp \<le> 22" by (rule number_digits_fit)
  have pp: "(if int (length ?tmp) > ps_precision spec then s16 (int (length ?tmp)) else ps_precision spec) = ?p" using l by simp
  have "0 < length ?tmp" by simp
  then have lp: "1 \<le> ?p" "?p < 32768" "?p < ps_width spec + 32763" using l p w by linarith+
  let ?sg = "if has spec SIGN then if sint num < 0 then 45 else if has spec PLUS then 43 else if has spec SPACE then 32 else 0 else 0 :: u8"
  let ?w = "ps_width spec - (if has spec SIGN \<and> (sint num < 0 \<or> has spec PLUS \<or> has spec SPACE) then 1 else 0)"
  let ?w1 = "if has spec SPECIAL \<and> ps_base spec \<noteq> 10 then s16 (?w - 1) else ?w"
  let ?w2 = "if (has spec SPECIAL \<and> ps_base spec \<noteq> 10) \<and> ps_base spec = 16 then s16 (?w1 - 1) else ?w1"
  let ?pf = "if has spec SPECIAL \<and> ps_base spec \<noteq> 10 then 48 # (if ps_base spec = 16 then [88 OR (ps_flags spec AND SMALL)] else []) else []"
  have sp: "sign_prefix num spec = (if ?sg \<noteq> 0 then [?sg] else []) @ ?pf" using base by (auto simp: sign_prefix_def)
  have w2: "?w2 = ps_width spec - int (length (sign_prefix num spec))" using base w by (auto simp: sign_prefix_def)
  have w3: "s16 (?w2 - ?p) = ps_width spec - int (length (sign_prefix num spec)) - ?p"
    unfolding w2 using w lp by (intro s16_id) (auto simp: sign_prefix_def)
  note sg = number_sign_exact [of ?s num, unfolded f h m, OF w]
  show ?thesis
    unfolding number_def padded_def Let_def sg prod.case f pp w3 sp append_assoc ..
qed

lemma sign_prefix_length: "length (sign_prefix num spec) \<le> 3"
  by (simp add: sign_prefix_def)

lemma number_laid_out:
  assumes "spec_ok spec"
  shows "number num spec = laid_out spec (sign_prefix num spec)
    (rev (number_digits (magnitude num spec) (ps_base spec) (ps_flags spec AND SMALL)))"
proof -
  let ?s = "if has spec LEFT then spec\<lparr>ps_flags := ps_flags spec AND NOT ZEROPAD\<rparr> else spec"
  let ?tmp = "number_digits (magnitude num spec) (ps_base spec) (ps_flags spec AND SMALL)"
  let ?p = "max (int (length ?tmp)) (ps_precision spec)"
  let ?w = "ps_width spec - int (length (sign_prefix num spec)) - ?p"
  have b: "- 1 \<le> ps_width spec" "ps_width spec < 32768" "ps_precision spec < 32768" "ps_precision spec < ps_width spec + 32763" using assms by (auto simp: spec_ok_def)
  have p: "0 \<le> ?p" "?p < 32768" "?p < ps_width spec + 32763" using number_digits_fit [of "magnitude num spec" "ps_base spec" "ps_flags spec AND SMALL"] b by linarith+
  have "padded ?s (sign_prefix num spec) ?tmp ?w ?p = laid_out ?s (sign_prefix num spec) (rev ?tmp)"
  proof (cases "- 32766 < ?w")
    case True
    then show ?thesis using b p by (intro padded_laid_out) auto
  next
    case False
    then show ?thesis using b p sign_prefix_length [of num spec] by linarith
  qed
  moreover have "laid_out ?s pfx ds = laid_out spec pfx ds" for pfx ds by (simp add: laid_out_def)
  ultimately show ?thesis using number_padded [OF assms, of num] by (simp only: Let_def)
qed

subsection \<open>The digits are read back\<close>

definition hex_digit :: "u8 \<Rightarrow> nat \<Rightarrow> u8" where
  "hex_digit locase d = hex_table ! d OR locase"

lemma hex_digit_ok:
  "d < unat b \<Longrightarrow> b \<in> {8, 16 :: u32} \<Longrightarrow> locase \<in> {0, 32} \<Longrightarrow>
    digit_ok b (hex_digit locase d) \<and> unat (digit_value (hex_digit locase d)) = d \<and> hex_digit locase d \<noteq> 0 \<and> TOLOWER (hex_digit locase d) \<noteq> 120"
proof -
  assume a: "d < unat b" "b \<in> {8, 16}" "locase \<in> {0, 32}"
  then have "d \<in> {0, 1, 2, 3, 4, 5, 6, 7} \<or> b = 16 \<and> d \<in> {8, 9, 10, 11, 12, 13, 14, 15}"
    by (elim insertE emptyE) (simp_all, presburger+)
  then show ?thesis using a(2,3)
    by (elim disjE conjE insertE emptyE) (simp_all add: hex_digit_def digit_ok_def digit_value_def isxdigit_def isdigit_def ctype_def TOLOWER_def)
qed

text \<open>The digits in base 8 and 16, by division.\<close>

fun base_rev :: "nat \<Rightarrow> nat \<Rightarrow> nat list" where
  "base_rev b n = (if n < b \<or> b < 2 then [n] else n mod b # base_rev b (n div b))"

declare base_rev.simps [simp del]

lemma low_digit:
  assumes "k \<le> 8"
  shows "unat ((ucast (num :: u64) :: u8) AND mask k) = unat num mod 2 ^ k"
proof -
  have "unat ((ucast num :: u8) AND mask k) = take_bit k (unat (ucast num :: u8))"
    by (simp only: take_bit_eq_mask [symmetric] unsigned_take_bit_eq)
  also have "\<dots> = take_bit k (take_bit 8 (unat num))" by (simp only: unsigned_ucast_eq) simp
  finally show ?thesis using assms by (simp add: min_absorb1) (simp add: take_bit_eq_mod)
qed

lemma pow_digits_base:
  "base = 8 \<or> base = 16 \<Longrightarrow> pow_digits num base locase = map (hex_digit locase) (base_rev (unat base) (unat num))"
proof (induction num base locase rule: pow_digits.induct)
  case (1 num base locase)
  let ?k = "if base = 16 then 4 else 3 :: nat"
  have k: "unat base = 2 ^ ?k" "base - 1 = mask ?k" using "1.prems" by (auto simp: mask_eq_exp_minus_1)
  have d: "unat ((ucast num :: u8) AND (base - 1)) = unat num mod unat base" unfolding k by (rule low_digit) simp
  have r: "unat (drop_bit ?k num) = unat num div unat base" by (simp only: k(1) unat_drop_bit_div)
  have z: "drop_bit ?k num = 0 \<longleftrightarrow> unat num < unat base"
    by (metis r k(1) unat_eq_zero div_eq_0_iff power_not_zero zero_neq_numeral)
  have two: "\<not> unat base < 2" using "1.prems" by auto
  show ?case
  proof (cases "unat num < unat base")
    case True
    then show ?thesis using z d by (subst pow_digits.simps, subst base_rev.simps) (simp add: hex_digit_def)
  next
    case False
    then have "pow_digits (drop_bit ?k num) base locase = map (hex_digit locase) (base_rev (unat base) (unat num div unat base))"
      using "1.IH" [OF refl] "1.prems" z r by simp
    then show ?thesis using z d False two
      by (subst pow_digits.simps, subst base_rev.simps) (simp add: hex_digit_def)
  qed
qed

lemma base_rev_bound: "2 \<le> b \<Longrightarrow> d \<in> set (base_rev b n) \<Longrightarrow> d < b"
proof (induction b n rule: base_rev.induct)
  case (1 b n)
  then show ?case by (subst (asm) base_rev.simps) (auto split: if_splits)
qed

lemma base_rev_value: "b \<in> {8, 16} \<Longrightarrow> locase \<in> {0, 32} \<Longrightarrow> num_value b (map (hex_digit locase) (rev (base_rev (unat b) n))) = n"
proof (induction "unat b" n rule: base_rev.induct)
  case (1 n)
  have two: "\<not> unat b < 2" using "1.prems"(1) by auto
  show ?case
  proof (cases "n < unat b")
    case True
    then show ?thesis using hex_digit_ok [OF True "1.prems"] by (subst base_rev.simps) (simp add: num_value_def)
  next
    case False
    have "unat (digit_value (hex_digit locase (n mod unat b))) = n mod unat b"
      using hex_digit_ok [OF _ "1.prems", of "n mod unat b"] two by simp
    then show ?thesis using "1.hyps" "1.prems" False two unfolding num_value_def
      by (subst base_rev.simps) simp
  qed
qed

lemma number_digits_hex:
  "base \<in> {8, 16} \<Longrightarrow> locase \<in> {0, 32} \<Longrightarrow> number_digits num base locase = map (hex_digit locase) (base_rev (unat base) (unat num))"
  using pow_digits_base [of base num locase] by (auto simp: number_digits_def hex_digit_def base_rev.simps [of _ 0])

lemma number_digits_dec: "number_digits num 10 locase = map digit_char (dec_rev (unat num))"
  by (simp add: number_digits_def put_dec_digits dec_rev.simps [of 0])

text \<open>Digits that the parser takes for the number \<open>n\<close> in base \<open>b\<close>.\<close>

definition reads_as :: "u32 \<Rightarrow> bytes \<Rightarrow> nat \<Rightarrow> bool" where
  "reads_as b ds n \<longleftrightarrow> list_all (digit_ok b) ds \<and> 0 \<notin> set ds \<and> num_value b ds = n \<and> b \<noteq> 0 \<and> (b = 16 \<longrightarrow> \<not> hex_prefix ds)"

lemma number_digits_read:
  assumes "base \<in> {8, 10, 16}" "locase \<in> {0, 32}"
  shows "reads_as (ucast base) (rev (number_digits num base locase)) (unat num)"
proof (cases "base = 10")
  case True
  then show ?thesis using digit_chars dec_rev_digits
    by (fastforce simp: reads_as_def number_digits_dec rev_map dec_rev_value list_all_iff)
next
  case False
  then have b: "base \<in> {8, 16}" "(ucast base :: u32) \<in> {8, 16}" "unat (ucast base :: u32) = unat base" using assms(1) by auto
  let ?ds = "map (hex_digit locase) (rev (base_rev (unat base) (unat num)))"
  have two: "2 \<le> unat base" using b(1) by auto
  have d: "digit_ok (ucast base) c \<and> c \<noteq> 0 \<and> TOLOWER c \<noteq> 120" if "c \<in> set ?ds" for c
    using that hex_digit_ok [OF _ b(2) assms(2), unfolded b(3)] base_rev_bound [OF two] by auto
  have "\<not> hex_prefix ?ds" using d by (auto simp: hex_prefix_def split: list.splits)
  then show ?thesis using d b(2) base_rev_value [OF b(2) assms(2), unfolded b(3)]
    by (auto simp: reads_as_def number_digits_hex [OF b(1) assms(2)] rev_map list_all_iff)
qed

lemma reads_as_parsed:
  assumes "reads_as b ds n"
  shows "simple_strtoull (ds @ 0 # rest) b = Some (of_nat n, length ds)"
proof -
  have "takeWhile (digit_ok b) ds = ds" using assms by (simp add: reads_as_def list_all_iff)
  then show ?thesis using assms simple_strtoull_ref [of ds rest b]
    by (auto simp: reads_as_def ref_strtoull_def Let_def simp del: takeWhile_eq_all_conv)
qed

lemma and_power_cases: "x AND 2 ^ n \<in> {0, 2 ^ n :: 'a :: len word}"
proof -
  have "x AND 2 ^ n = (if bit x n then 2 ^ n else 0)" by (rule bit_word_eqI) (auto simp: bit_simps)
  then show ?thesis by simp
qed

lemma laid_out_length:
  "- 1 \<le> ps_width spec \<Longrightarrow> - 1 \<le> ps_precision spec \<Longrightarrow>
    length (laid_out spec pfx ds) = max (nat (ps_width spec)) (length pfx + max (nat (ps_precision spec)) (length ds))"
  by (auto simp: laid_out_def Let_def max_def)

subsection \<open>Properties\<close>

text \<open>C16. Printing a number: for every number and every specification in base 8, 10 and 16 with a width and a precision from -1 (none given) to 32767, the precision exceeding the width by less than 32763 (beyond that the 16-bit width may wrap, see \<open>number_width_wraps\<close>), \<open>number\<close> produces the sign and the prefix that the flags
  ask for, zeros up to the precision and the digits, filled with blanks or zeros to the width on the side the flags ask for; nothing is cut. The digits
  fit into the array of the function, and the parser reads them back as the magnitude of the number.\<close>

theorem number_layout:
  assumes "spec_ok spec"
  shows "\<exists>ds. number num spec = laid_out spec (sign_prefix num spec) ds
    \<and> length (number num spec) = max (nat (ps_width spec)) (length (sign_prefix num spec) + max (nat (ps_precision spec)) (length ds))
    \<and> length ds < 66
    \<and> (\<forall>rest. simple_strtoull (ds @ 0 # rest) (ucast (ps_base spec)) = Some (magnitude num spec, length ds))"
proof -
  have f: "ps_flags spec AND SMALL \<in> {0, 32}" using and_power_cases [of "ps_flags spec" 5] by simp
  have b: "ps_base spec \<in> {8, 10, 16}" "- 1 \<le> ps_width spec" "- 1 \<le> ps_precision spec" using assms by (auto simp: spec_ok_def)
  show ?thesis
    using number_laid_out [OF assms, of num] laid_out_length [OF b(2,3)]
      le_less_trans [OF number_digits_fit, of 66 "magnitude num spec" "ps_base spec" "ps_flags spec AND SMALL"]
      reads_as_parsed [OF number_digits_read [OF b(1) f, of "magnitude num spec"]]
    by (intro exI [of _ "rev (number_digits (magnitude num spec) (ps_base spec) (ps_flags spec AND SMALL))"])
      simp
qed

abbreviation (input) spec_example :: printf_spec where
  "spec_example \<equiv> \<lparr>ps_type = FORMAT_TYPE_INT, ps_flags = 2 + 64 + 32, ps_base = 16, ps_qualifier = 255, ps_width = 8, ps_precision = 4\<rparr>"

theorem number_layout_witness:
  "\<exists>ds. number (- 31) spec_example = laid_out spec_example [45, 48, 120] ds
    \<and> (\<forall>rest. simple_strtoull (ds @ 0 # rest) 16 = Some (31, length ds))"
  using number_layout [of spec_example "- 31"] by (auto simp: spec_ok_def sign_prefix_def magnitude_def has_def)

text \<open>A precision of 32767 leaves a width of \<open>- 32768\<close>, whose decrement wraps: the number is printed behind 32768 blanks that no width asked for.\<close>

lemma number_width_wraps:
  assumes "spec = \<lparr>ps_type = FORMAT_TYPE_INT, ps_flags = SIGN, ps_base = 10, ps_qualifier = 255, ps_width = - 1, ps_precision = 32767\<rparr>"
  shows "\<exists>t. number 7 spec = replicate 32768 32 @ t"
proof -
  have w: "s16 (- 32768) = - 32768" "s16 (- 32769) = 32767" by (simp_all add: s16_def)
  have p: "pad_loop 32 (- 32768) = (replicate 32768 32, - 1)"
    using replicate_Suc [of 32767 "32 :: u8"] by (subst pad_loop.simps) (simp add: w pad_loop_replicate Let_def)
  have d: "number_digits 7 10 l = [55]" for l by (simp add: number_digits_dec, subst dec_rev.simps) simp
  show ?thesis unfolding number_def number_sign_def assms Let_def
    by (simp add: has_def d w p split_def)
qed

end
