(* ===== verification/FormatAddr.thy ===== *)
theory FormatAddr
  imports FormatText
begin

text \<open>
  The extensions of \<open>%p\<close> (\<^verbatim>\<open>lib/vsprintf.c\<close>): resources, hardware addresses, network addresses and identifiers. Each builds its text in an array of its own and
  hands it to \<open>string\<close>; a text that does not fit into its array is a fault. The object a pointer argument points to is a list of bytes; the format is what follows
  the letter \<open>p\<close>. The theorems say that no text overruns its array, what the texts are, and that the compressed form of an
  address replaces the first longest run of zeros.
\<close>

subsection \<open>Bytes in hexadecimal\<close>

definition hex_asc :: "u8 \<Rightarrow> u8" where
  "hex_asc n = (if n < 10 then 48 + n else 87 + n)"

definition pack_hex_byte :: "u8 \<Rightarrow> bytes" where
  "pack_hex_byte b = [hex_asc (drop_bit 4 (b AND 0xf0)), hex_asc (b AND 0x0f)]"

text \<open>The array of \<open>n\<close> characters that holds a text and its terminator.\<close>

definition in_array :: "nat \<Rightarrow> bytes \<Rightarrow> bytes option" where
  "in_array n t = (if length t + 1 \<le> n then Some (t @ [0]) else None)"

subsection \<open>Hardware addresses and identifiers\<close>

text \<open>The loops over the bytes of an object: byte \<open>index i\<close> in hexadecimal, then a separator.\<close>

fun hex_loop :: "(nat \<Rightarrow> nat) \<Rightarrow> (nat \<Rightarrow> bytes) \<Rightarrow> bytes \<Rightarrow> nat \<Rightarrow> nat \<Rightarrow> bytes option" where
  "hex_loop index sep addr i 0 = Some []"
| "hex_loop index sep addr i (Suc n) = do {
     b \<leftarrow> rd addr (index i);
     t \<leftarrow> hex_loop index sep addr (i + 1) n;
     Some (pack_hex_byte b @ sep i @ t) }"

definition mac_address_string :: "bytes \<Rightarrow> printf_spec \<Rightarrow> bytes \<Rightarrow> bytes option" where
  "mac_address_string addr spec fmt = do {
     f0 \<leftarrow> rd fmt 0;
     f1 \<leftarrow> rd fmt 1;
     let separator = (if f1 = 70 then 45 else 58);
     t \<leftarrow> hex_loop (\<lambda>i. i) (\<lambda>i. if f0 = 77 \<and> i \<noteq> 5 then [separator] else []) addr 0 6;
     mac_addr \<leftarrow> in_array 18 t;
     string_text (Some mac_addr) spec }"

definition islower :: "u8 \<Rightarrow> bool" where
  "islower c \<longleftrightarrow> ctype ! unat c AND 2 \<noteq> 0"

definition toupper :: "u8 \<Rightarrow> u8" where
  "toupper c = (if islower c then c - 32 else c)"

abbreviation uuid_be :: "nat list" where "uuid_be \<equiv> [0, 1, 2, 3, 4, 5, 6, 7, 8, 9, 10, 11, 12, 13, 14, 15]"
abbreviation uuid_le :: "nat list" where "uuid_le \<equiv> [3, 2, 1, 0, 5, 4, 7, 6, 8, 9, 10, 11, 12, 13, 14, 15]"

definition uuid_string :: "bytes \<Rightarrow> printf_spec \<Rightarrow> bytes \<Rightarrow> bytes option" where
  "uuid_string addr spec fmt = do {
     f1 \<leftarrow> rd fmt 1;
     let index = (if f1 = 76 \<or> f1 = 108 then uuid_le else uuid_be);
     let uc = (f1 = 76 \<or> f1 = 66);
     t \<leftarrow> hex_loop (\<lambda>i. index ! i) (\<lambda>i. if i \<in> {3, 5, 7, 9} then [45] else []) addr 0 16;
     uuid \<leftarrow> in_array 37 t;
     string_text (Some (if uc then map toupper uuid else uuid)) spec }"

subsection \<open>Network addresses\<close>

definition ip4_quad :: "bool \<Rightarrow> u8 \<Rightarrow> bytes" where
  "ip4_quad leading_zeros b =
     (let temp = put_dec_trunc (ucast b); digits = length temp in
      (if leading_zeros then (if digits < 3 then [48] else []) @ (if digits < 2 then [48] else []) else []) @ rev temp)"

fun ip4_loop :: "bool \<Rightarrow> (nat \<Rightarrow> nat) \<Rightarrow> bytes \<Rightarrow> nat \<Rightarrow> nat \<Rightarrow> bytes option" where
  "ip4_loop leading_zeros index addr i 0 = Some []"
| "ip4_loop leading_zeros index addr i (Suc n) = do {
     b \<leftarrow> rd addr (index i);
     t \<leftarrow> ip4_loop leading_zeros index addr (i + 1) n;
     Some (ip4_quad leading_zeros b @ (if i < 3 then [46] else []) @ t) }"

definition ip4_string :: "bytes \<Rightarrow> bytes \<Rightarrow> bytes option" where
  "ip4_string addr fmt = do {
     f0 \<leftarrow> rd fmt 0;
     f2 \<leftarrow> rd fmt 2;
     ip4_loop (f0 = 105) (if f2 = 104 \<or> f2 = 108 then (\<lambda>i. 3 - i) else (\<lambda>i. i)) addr 0 4 }"

definition ip4_addr_string :: "bytes \<Rightarrow> printf_spec \<Rightarrow> bytes \<Rightarrow> bytes option" where
  "ip4_addr_string addr spec fmt = do {
     t \<leftarrow> ip4_string addr fmt;
     ip4_addr \<leftarrow> in_array 16 t;
     string_text (Some ip4_addr) spec }"

text \<open>A 16-byte address is its bytes; \<open>s6_addr32\<close> and \<open>s6_addr16\<close> are read in network order.\<close>

definition s6_addr32 :: "bytes \<Rightarrow> nat \<Rightarrow> u32" where
  "s6_addr32 a k = push_bit 24 (ucast (a ! (4 * k))) OR push_bit 16 (ucast (a ! (4 * k + 1)))
     OR push_bit 8 (ucast (a ! (4 * k + 2))) OR ucast (a ! (4 * k + 3))"

definition s6_addr16 :: "bytes \<Rightarrow> nat \<Rightarrow> u16" where
  "s6_addr16 a k = push_bit 8 (ucast (a ! (2 * k))) OR ucast (a ! (2 * k + 1))"

definition ipv6_addr_v4mapped :: "bytes \<Rightarrow> bool" where
  "ipv6_addr_v4mapped a \<longleftrightarrow> s6_addr32 a 0 OR s6_addr32 a 1 OR (s6_addr32 a 2 XOR 0xffff) = 0"

definition ipv6_addr_is_isatap :: "bytes \<Rightarrow> bool" where
  "ipv6_addr_is_isatap a \<longleftrightarrow> s6_addr32 a 2 OR 0x02000000 = 0x02005EFE"

text \<open>The length of the run of zeros from \<open>i\<close>, and the loop that looks for the longest run, of two at least.\<close>

function zerolength :: "bytes \<Rightarrow> nat \<Rightarrow> nat \<Rightarrow> nat" where
  "zerolength a rng j = (if j < rng \<and> s6_addr16 a j = 0 then Suc (zerolength a rng (j + 1)) else 0)"
  by pat_completeness auto

termination zerolength
  by (relation "measure (\<lambda>(a, rng, j). rng - j)") auto

declare zerolength.simps [simp del]

fun longest_loop :: "nat list \<Rightarrow> nat \<Rightarrow> nat \<Rightarrow> int \<Rightarrow> nat \<times> int" where
  "longest_loop [] i longest colonpos = (longest, colonpos)"
| "longest_loop (z # zs) i longest colonpos =
     (if z > longest then longest_loop zs (i + 1) z (int i) else longest_loop zs (i + 1) longest colonpos)"

text \<open>A group without leading zeros.\<close>

definition hex_group :: "u16 \<Rightarrow> bytes" where
  "hex_group word =
     (let hi = ucast (drop_bit 8 word) :: u8; lo = ucast (word AND 0xff) :: u8 in
      if hi \<noteq> 0 then (if hi > 0x0f then pack_hex_byte hi else [hex_asc (hi AND 0x0f)]) @ pack_hex_byte lo
      else if lo > 0x0f then pack_hex_byte lo else [hex_asc (lo AND 0x0f)])"

function emit_loop :: "bytes \<Rightarrow> nat \<Rightarrow> nat \<Rightarrow> int \<Rightarrow> nat \<Rightarrow> bool \<Rightarrow> bytes \<times> bool" where
  "emit_loop a rng longest colonpos i needcolon =
     (if i < rng then
        if int i = colonpos then
          (let (t, nc) = emit_loop a rng longest colonpos (i + (longest - 1) + 1) False in
           ((if needcolon \<or> i = 0 then [58] else []) @ 58 # t, nc))
        else
          (let (t, nc) = emit_loop a rng longest colonpos (i + 1) True in
           ((if needcolon then [58] else []) @ hex_group (s6_addr16 a i) @ t, nc))
      else ([], needcolon))"
  by pat_completeness auto

termination emit_loop
  by (relation "measure (\<lambda>(a, rng, longest, colonpos, i, needcolon). rng - i)") auto

declare emit_loop.simps [simp del]

definition ip6_compressed_string :: "bytes \<Rightarrow> bytes option" where
  "ip6_compressed_string addr = do {
     in6 \<leftarrow> mem_rd addr 0 16;
     let useIPv4 = (ipv6_addr_v4mapped in6 \<or> ipv6_addr_is_isatap in6);
     let rng = (if useIPv4 then 6 else 8);
     let (longest, colonpos) = longest_loop (map (zerolength in6 rng) [0..<rng]) 0 1 (- 1);
     let (t, needcolon) = emit_loop in6 rng longest colonpos 0 False;
     if useIPv4 then do {
       u \<leftarrow> ip4_string (drop 12 in6) [73, 52, 0];
       Some (t @ (if needcolon then [58] else []) @ u) }
     else Some t }"

fun ip6_loop :: "bool \<Rightarrow> bytes \<Rightarrow> nat \<Rightarrow> nat \<Rightarrow> bytes option" where
  "ip6_loop colons addr i 0 = Some []"
| "ip6_loop colons addr i (Suc n) = do {
     b \<leftarrow> rd addr (2 * i);
     c \<leftarrow> rd addr (2 * i + 1);
     t \<leftarrow> ip6_loop colons addr (i + 1) n;
     Some (pack_hex_byte b @ pack_hex_byte c @ (if colons \<and> i \<noteq> 7 then [58] else []) @ t) }"

definition ip6_string :: "bytes \<Rightarrow> bytes \<Rightarrow> bytes option" where
  "ip6_string addr fmt = do {
     f0 \<leftarrow> rd fmt 0;
     ip6_loop (f0 = 73) addr 0 8 }"

definition ip6_addr_string :: "bytes \<Rightarrow> printf_spec \<Rightarrow> bytes \<Rightarrow> bytes option" where
  "ip6_addr_string addr spec fmt = do {
     f0 \<leftarrow> rd fmt 0;
     compressed \<leftarrow> (if f0 = 73 then map_option (\<lambda>c. c = 99) (rd fmt 2) else Some False);
     t \<leftarrow> (if compressed then ip6_compressed_string addr else ip6_string addr fmt);
     ip6_addr \<leftarrow> in_array 46 t;
     string_text (Some ip6_addr) spec }"

subsection \<open>Resources and symbols\<close>

abbreviation (input) IORESOURCE_IO :: u32 where "IORESOURCE_IO \<equiv> 0x100"
abbreviation (input) IORESOURCE_MEM :: u32 where "IORESOURCE_MEM \<equiv> 0x200"
abbreviation (input) IORESOURCE_IRQ :: u32 where "IORESOURCE_IRQ \<equiv> 0x400"
abbreviation (input) IORESOURCE_DMA :: u32 where "IORESOURCE_DMA \<equiv> 0x800"
abbreviation (input) IORESOURCE_BUS :: u32 where "IORESOURCE_BUS \<equiv> 0x1000"
abbreviation (input) IORESOURCE_PREFETCH :: u32 where "IORESOURCE_PREFETCH \<equiv> 0x2000"
abbreviation (input) IORESOURCE_MEM_64 :: u32 where "IORESOURCE_MEM_64 \<equiv> 0x100000"
abbreviation (input) IORESOURCE_WINDOW :: u32 where "IORESOURCE_WINDOW \<equiv> 0x200000"
abbreviation (input) IORESOURCE_DISABLED :: u32 where "IORESOURCE_DISABLED \<equiv> 0x10000000"

record res_arg =
  ra_start :: u32
  ra_end :: u32
  ra_flags :: u32

definition num_spec :: "u8 \<Rightarrow> int \<Rightarrow> u8 \<Rightarrow> printf_spec" where
  "num_spec base width flags =
     \<lparr>ps_type = FORMAT_TYPE_NONE, ps_flags = flags, ps_base = base, ps_qualifier = 0, ps_width = width, ps_precision = - 1\<rparr>"

abbreviation (input) io_spec :: printf_spec where "io_spec \<equiv> num_spec 16 6 (SPECIAL OR SMALL OR ZEROPAD)"
abbreviation (input) mem_spec :: printf_spec where "mem_spec \<equiv> num_spec 16 10 (SPECIAL OR SMALL OR ZEROPAD)"
abbreviation (input) bus_spec :: printf_spec where "bus_spec \<equiv> num_spec 16 2 (SMALL OR ZEROPAD)"
abbreviation (input) dec_spec :: printf_spec where "dec_spec \<equiv> num_spec 10 0 0"
abbreviation (input) flag_spec :: printf_spec where "flag_spec \<equiv> num_spec 16 0 (SPECIAL OR SMALL)"

definition str_spec :: printf_spec where
  "str_spec = \<lparr>ps_type = FORMAT_TYPE_NONE, ps_flags = LEFT, ps_base = 0, ps_qualifier = 0, ps_width = - 1, ps_precision = 10\<rparr>"

text \<open>The kind of a resource: its name, how its ends are printed, and whether its flags can be decoded.\<close>

definition res_kind :: "u32 \<Rightarrow> bytes \<times> printf_spec \<times> bool" where
  "res_kind flags =
     (if flags AND IORESOURCE_IO \<noteq> 0 then ([105, 111, 32, 32, 0], io_spec, True)
      else if flags AND IORESOURCE_MEM \<noteq> 0 then ([109, 101, 109, 32, 0], mem_spec, True)
      else if flags AND IORESOURCE_IRQ \<noteq> 0 then ([105, 114, 113, 32, 0], dec_spec, True)
      else if flags AND IORESOURCE_DMA \<noteq> 0 then ([100, 109, 97, 32, 0], dec_spec, True)
      else if flags AND IORESOURCE_BUS \<noteq> 0 then ([98, 117, 115, 32, 0], bus_spec, True)
      else ([63, 63, 63, 32, 0], mem_spec, False))"

text \<open>A word that is printed if a flag is set.\<close>

definition flag_text :: "u32 \<Rightarrow> u32 \<Rightarrow> bytes \<Rightarrow> bytes option" where
  "flag_text flags f s = (if flags AND f \<noteq> 0 then string_text (Some s) str_spec else Some [])"

definition resource_flags :: "bool \<Rightarrow> u32 \<Rightarrow> bytes option" where
  "resource_flags decode flags =
     (if decode then do {
        t1 \<leftarrow> flag_text flags IORESOURCE_MEM_64 [32, 54, 52, 98, 105, 116, 0];
        t2 \<leftarrow> flag_text flags IORESOURCE_PREFETCH [32, 112, 114, 101, 102, 0];
        t3 \<leftarrow> flag_text flags IORESOURCE_WINDOW [32, 119, 105, 110, 100, 111, 119, 0];
        t4 \<leftarrow> flag_text flags IORESOURCE_DISABLED [32, 100, 105, 115, 97, 98, 108, 101, 100, 0];
        Some (t1 @ t2 @ t3 @ t4) }
      else do {
        t \<leftarrow> string_text (Some [32, 102, 108, 97, 103, 115, 32, 0]) str_spec;
        Some (t @ number (ucast flags) flag_spec) })"

definition resource_string :: "res_arg \<Rightarrow> printf_spec \<Rightarrow> bytes \<Rightarrow> bytes option" where
  "resource_string res spec fmt = do {
     f0 \<leftarrow> rd fmt 0;
     let (name, specp, known) = res_kind (ra_flags res);
     kind \<leftarrow> string_text (Some name) str_spec;
     flags \<leftarrow> resource_flags (f0 = 82 \<and> known) (ra_flags res);
     sym \<leftarrow> in_array 59 ([91] @ kind @ number (ucast (ra_start res)) specp
       @ (if ra_start res \<noteq> ra_end res then 45 # number (ucast (ra_end res)) specp else []) @ flags @ [93]);
     string_text (Some sym) spec }"

subsection \<open>The texts\<close>

lemma strnlen_total: "0 \<in> set s \<Longrightarrow> \<exists>n. strnlen s m = Some n"
proof (induction s arbitrary: m)
  case (Cons c s)
  then show ?case by (cases m) auto
qed simp

lemma string_text_total: "0 \<in> set s \<Longrightarrow> \<exists>t. string_text (Some s) spec = Some t"
  using strnlen_total [of s "unat (of_int (ps_precision spec) :: u32)"]
  by (auto simp: string_text_def Let_def split: prod.splits)

lemma pack_hex_byte_length [simp]: "length (pack_hex_byte b) = 2"
  by (simp add: pack_hex_byte_def)

lemma hex_loop_text:
  "(\<And>j. i \<le> j \<Longrightarrow> j < i + n \<Longrightarrow> index j < length addr) \<Longrightarrow>
    hex_loop index sep addr i n = Some (concat (map (\<lambda>j. pack_hex_byte (addr ! index j) @ sep j) [i..<i + n]))"
proof (induction n arbitrary: i)
  case (Suc n)
  have "hex_loop index sep addr (i + 1) n = Some (concat (map (\<lambda>j. pack_hex_byte (addr ! index j) @ sep j) [i + 1..<i + 1 + n]))"
    using Suc.prems by (intro Suc.IH) simp
  moreover have "index i < length addr" using Suc.prems [of i] by simp
  moreover have "[i..<i + Suc n] = i # [i + 1..<i + 1 + n]" by (simp add: upt_conv_Cons)
  ultimately show ?case by (simp add: rd_def)
qed simp

lemma ip4_loop_text:
  "(\<And>j. i \<le> j \<Longrightarrow> j < i + n \<Longrightarrow> index j < length addr) \<Longrightarrow>
    ip4_loop z index addr i n = Some (concat (map (\<lambda>j. ip4_quad z (addr ! index j) @ (if j < 3 then [46] else [])) [i..<i + n]))"
proof (induction n arbitrary: i)
  case (Suc n)
  have "ip4_loop z index addr (i + 1) n = Some (concat (map (\<lambda>j. ip4_quad z (addr ! index j) @ (if j < 3 then [46] else [])) [i + 1..<i + 1 + n]))"
    using Suc.prems by (intro Suc.IH) simp
  moreover have "index i < length addr" using Suc.prems [of i] by simp
  moreover have "[i..<i + Suc n] = i # [i + 1..<i + 1 + n]" by (simp add: upt_conv_Cons)
  ultimately show ?case by (simp add: rd_def)
qed simp

lemma ip6_loop_text:
  "2 * (i + n) \<le> length addr \<Longrightarrow>
    ip6_loop z addr i n = Some (concat (map (\<lambda>j. pack_hex_byte (addr ! (2 * j)) @ pack_hex_byte (addr ! (2 * j + 1))
      @ (if z \<and> j \<noteq> 7 then [58] else [])) [i..<i + n]))"
proof (induction n arbitrary: i)
  case (Suc n)
  have "ip6_loop z addr (i + 1) n = Some (concat (map (\<lambda>j. pack_hex_byte (addr ! (2 * j)) @ pack_hex_byte (addr ! (2 * j + 1))
      @ (if z \<and> j \<noteq> 7 then [58] else [])) [i + 1..<i + 1 + n]))"
    using Suc.prems by (intro Suc.IH) simp
  moreover have "[i..<i + Suc n] = i # [i + 1..<i + 1 + n]" by (simp add: upt_conv_Cons)
  ultimately show ?case using Suc.prems by (simp add: rd_def)
qed simp

text \<open>A byte in decimal: one to three digits, as the temporary array has; three with leading zeros.\<close>

lemma byte_digits: "put_dec_trunc (ucast (b :: u8)) = map digit_char (dec_rev (unat b))" "length (dec_rev (unat b)) \<le> 3"
proof -
  have b: "unat b < 2 ^ LENGTH(8)" by (rule unsigned_less)
  have "(ucast b :: u32) = of_nat (unat b)" by simp
  then show "put_dec_trunc (ucast b) = map digit_char (dec_rev (unat b))" using put_dec_digits_short [of "unat b"] b by simp
  show "length (dec_rev (unat b)) \<le> 3" using dec_rev_length [of "unat b" 2] b by simp
qed

lemma ip4_quad_text: "ip4_quad z b = replicate (if z then 3 - length (dec_rev (unat b)) else 0) 48 @ rev (map digit_char (dec_rev (unat b)))"
proof -
  have "dec_rev (unat b) \<noteq> []" by (subst dec_rev.simps) simp
  then have "0 < length (dec_rev (unat b))" by simp
  then have "length (dec_rev (unat b)) = 1 \<or> length (dec_rev (unat b)) = 2 \<or> length (dec_rev (unat b)) = 3" using byte_digits(2) [of b] by linarith
  then show ?thesis by (auto simp: ip4_quad_def byte_digits(1) Let_def numeral_eq_Suc)
qed

lemma ip4_quad_length: "length (ip4_quad z b) \<le> 3"
  using byte_digits(2) [of b] by (simp add: ip4_quad_text)

text \<open>The dotted text of four bytes.\<close>

definition dotted :: "bool \<Rightarrow> u8 \<Rightarrow> u8 \<Rightarrow> u8 \<Rightarrow> u8 \<Rightarrow> bytes" where
  "dotted z a b c d = ip4_quad z a @ [46] @ ip4_quad z b @ [46] @ ip4_quad z c @ [46] @ ip4_quad z d"

lemma dotted_length: "length (dotted z a b c d) \<le> 15"
  using ip4_quad_length [of z a] ip4_quad_length [of z b] ip4_quad_length [of z c] ip4_quad_length [of z d] by (simp add: dotted_def)

lemma upt_0_4: "[0..<4] = [0, 1, 2, 3 :: nat]"
  by (simp add: upt_rec)

lemma ip4_string_text:
  assumes "4 \<le> length addr" "rd fmt 0 = Some f0" "rd fmt 2 = Some f2"
  shows "ip4_string addr fmt = Some (if f2 = 104 \<or> f2 = 108 then dotted (f0 = 105) (addr ! 3) (addr ! 2) (addr ! 1) (addr ! 0)
    else dotted (f0 = 105) (addr ! 0) (addr ! 1) (addr ! 2) (addr ! 3))"
  using assms ip4_loop_text [of 0 4 "\<lambda>i. i" addr "f0 = 105"] ip4_loop_text [of 0 4 "\<lambda>i. 3 - i" addr "f0 = 105"]
  by (simp add: ip4_string_def dotted_def upt_0_4)

subsection \<open>The compressed form\<close>

text \<open>A run of \<open>n\<close> zero groups from \<open>p\<close>, and groups separated by colons.\<close>

definition zero_run :: "u16 list \<Rightarrow> nat \<Rightarrow> nat \<Rightarrow> bool" where
  "zero_run ws p n \<longleftrightarrow> p + n \<le> length ws \<and> (\<forall>j. p \<le> j \<longrightarrow> j < p + n \<longrightarrow> ws ! j = 0)"

fun joined :: "u16 list \<Rightarrow> bytes" where
  "joined [] = []"
| "joined (w # ws) = hex_group w @ (if ws = [] then [] else 58 # joined ws)"

definition groups :: "bytes \<Rightarrow> nat \<Rightarrow> nat \<Rightarrow> u16 list" where
  "groups a i j = map (s6_addr16 a) [i..<j]"

lemma groups_Cons: "i < j \<Longrightarrow> groups a i j = s6_addr16 a i # groups a (i + 1) j"
  by (simp add: groups_def upt_conv_Cons)

lemma groups_take: "p \<le> rng \<Longrightarrow> take p (groups a 0 rng) = groups a 0 p"
  by (simp add: groups_def take_map)

lemma groups_drop: "drop p (groups a 0 rng) = groups a p rng"
  by (simp add: groups_def drop_map)

lemma groups_empty [simp]: "groups a i j = [] \<longleftrightarrow> j \<le> i"
  by (auto simp: groups_def)

lemma zero_run_Suc: "zero_run ws i (Suc n) \<longleftrightarrow> i < length ws \<and> ws ! i = 0 \<and> zero_run ws (i + 1) n"
proof -
  have "i \<le> j \<longleftrightarrow> j = i \<or> i + 1 \<le> j" for j by auto
  then show ?thesis by (auto simp: zero_run_def)
qed

lemma zerolength_run: "i \<le> rng \<Longrightarrow> zero_run (groups a 0 rng) i (zerolength a rng i)"
proof (induction a rng i rule: zerolength.induct)
  case (1 a rng i)
  show ?case
  proof (cases "i < rng \<and> s6_addr16 a i = 0")
    case True
    then have "zero_run (groups a 0 rng) (i + 1) (zerolength a rng (i + 1))" using 1 by simp
    then show ?thesis using True by (subst zerolength.simps) (simp add: zero_run_Suc groups_def)
  qed (use 1 in \<open>auto simp: zerolength.simps [of a rng i] zero_run_def groups_def\<close>)
qed

lemma zerolength_longest: "zero_run (groups a 0 rng) i n \<Longrightarrow> n \<le> zerolength a rng i"
proof (induction a rng i arbitrary: n rule: zerolength.induct)
  case (1 a rng i)
  show ?case
  proof (cases n)
    case (Suc m)
    then have z: "i < rng \<and> s6_addr16 a i = 0" and "zero_run (groups a 0 rng) (i + 1) m"
      using "1.prems" by (auto simp: zero_run_Suc groups_def)
    with "1.IH" [OF z] z Suc show ?thesis by (subst zerolength.simps) simp
  qed simp
qed

lemma longest_loop_first:
  "longest_loop zs i l c = (l', c') \<Longrightarrow> l \<le> l' \<and> (\<forall>z \<in> set zs. z \<le> l')
    \<and> (l' = l \<and> c' = c \<or> l < l' \<and> (\<exists>k < length zs. c' = int (i + k) \<and> zs ! k = l' \<and> (\<forall>m < k. zs ! m < l')))"
proof (induction zs arbitrary: i l c)
  case (Cons z zs)
  show ?case
  proof (cases "l < z")
    case True
    then have r: "longest_loop zs (i + 1) z (int i) = (l', c')" using Cons.prems by simp
    from Cons.IH [OF r] consider "l' = z" "c' = int i" "\<forall>z \<in> set zs. z \<le> l'"
      | k where "z < l'" "k < length zs" "c' = int (i + 1 + k)" "zs ! k = l'" "\<forall>m < k. zs ! m < l'" "\<forall>z \<in> set zs. z \<le> l'" by auto
    then show ?thesis
    proof cases
      case 1
      then show ?thesis using True by auto
    next
      case 2
      have "\<forall>m < Suc k. (z # zs) ! m < l'" using 2 by (auto simp: nth_Cons split: nat.splits)
      then show ?thesis using 2 True by (auto intro!: exI [of _ "Suc k"])
    qed
  next
    case False
    then have r: "longest_loop zs (i + 1) l c = (l', c')" using Cons.prems by simp
    from Cons.IH [OF r] consider "l' = l" "c' = c" "\<forall>z \<in> set zs. z \<le> l'"
      | k where "l < l'" "k < length zs" "c' = int (i + 1 + k)" "zs ! k = l'" "\<forall>m < k. zs ! m < l'" "\<forall>z \<in> set zs. z \<le> l'" by auto
    then show ?thesis
    proof cases
      case 1
      then show ?thesis using False by auto
    next
      case 2
      have "\<forall>m < Suc k. (z # zs) ! m < l'" using 2 False by (auto simp: nth_Cons split: nat.splits)
      then show ?thesis using 2 False by (auto intro!: exI [of _ "Suc k"])
    qed
  qed
qed simp

lemma groups_none [simp]: "j \<le> i \<Longrightarrow> groups a i j = []"
  by simp

lemma joined_Cons_groups: "i < j \<Longrightarrow> joined (groups a i j) = hex_group (s6_addr16 a i) @ (if i + 1 < j then [58] else []) @ joined (groups a (i + 1) j)"
  by (subst groups_Cons) auto

lemma emit_loop_plain:
  "(\<And>j. i \<le> j \<Longrightarrow> j < rng \<Longrightarrow> int j \<noteq> c) \<Longrightarrow>
    emit_loop a rng l c i nc = ((if nc \<and> i < rng then [58] else []) @ joined (groups a i rng), nc \<or> i < rng)"
proof (induction "rng - i" arbitrary: i nc)
  case 0
  then show ?case by (subst emit_loop.simps) simp
next
  case (Suc n)
  have "emit_loop a rng l c (i + 1) True = ((if i + 1 < rng then [58] else []) @ joined (groups a (i + 1) rng), True)"
    using Suc.hyps(1) [of "i + 1" True] Suc.hyps(2) Suc.prems by simp
  then show ?case using Suc.hyps(2) Suc.prems [of i] by (subst emit_loop.simps) (auto simp: joined_Cons_groups)
qed

lemma emit_loop_compressed:
  assumes "0 < l" "p < rng"
  shows "i \<le> p \<Longrightarrow> emit_loop a rng l (int p) i nc =
    ((if nc \<and> i < p then [58] else []) @ joined (groups a i p) @ (if nc \<or> i < p \<or> p = 0 then [58] else []) @ 58 # joined (groups a (p + l) rng),
     p + l < rng)"
proof (induction "p - i" arbitrary: i nc)
  case 0
  have "emit_loop a rng l (int p) (p + l) False = (joined (groups a (p + l) rng), p + l < rng)"
    using assms(1) by (subst emit_loop_plain) auto
  then show ?case using 0 assms by (subst emit_loop.simps) auto
next
  case (Suc n)
  have "emit_loop a rng l (int p) (i + 1) True =
    ((if i + 1 < p then [58] else []) @ joined (groups a (i + 1) p) @ [58, 58] @ joined (groups a (p + l) rng), p + l < rng)"
    using Suc.hyps(1) [of "i + 1" True] Suc.hyps(2) Suc.prems by simp
  then show ?case using Suc.hyps(2) Suc.prems assms(2) by (subst emit_loop.simps) (auto simp: joined_Cons_groups)
qed

text \<open>The compressed text of groups: the first longest run of zeros is left out, if it has two groups at least. The second component says whether a group comes last.\<close>

definition compressed :: "u16 list \<Rightarrow> bytes \<Rightarrow> bool \<Rightarrow> bool" where
  "compressed ws t tail_group \<longleftrightarrow>
     (\<forall>p n. zero_run ws p n \<longrightarrow> n \<le> 1) \<and> t = joined ws \<and> tail_group = (ws \<noteq> [])
     \<or> (\<exists>p l. 2 \<le> l \<and> zero_run ws p l \<and> (\<forall>q n. zero_run ws q n \<longrightarrow> n < l \<or> n = l \<and> p \<le> q)
          \<and> t = joined (take p ws) @ [58, 58] @ joined (drop (p + l) ws) \<and> tail_group = (p + l < length ws))"

lemma ip6_groups_compressed:
  assumes "longest_loop (map (zerolength a rng) [0..<rng]) 0 1 (- 1) = (l, c)" "emit_loop a rng l c 0 False = (t, nc)"
  shows "compressed (groups a 0 rng) t nc"
proof -
  let ?zs = "map (zerolength a rng) [0..<rng]" and ?ws = "groups a 0 rng"
  have le: "zero_run ?ws q n \<Longrightarrow> q < rng \<Longrightarrow> n \<le> l" for q n
    using zerolength_longest [of a rng q n] longest_loop_first [OF assms(1)] by (auto intro: le_trans)
  have out: "zero_run ?ws q n \<Longrightarrow> \<not> q < rng \<Longrightarrow> n = 0" for q n by (auto simp: zero_run_def groups_def)
  consider "l = 1" "c = - 1"
    | p where "p < rng" "c = int p" "zerolength a rng p = l" "1 < l" "\<forall>m < p. zerolength a rng m < l"
    using longest_loop_first [OF assms(1)] by fastforce
  then show ?thesis
  proof cases
    case 1
    then have "t = joined ?ws" "nc = (0 < rng)" using assms(2) emit_loop_plain [of 0 rng c a l False] by auto
    moreover have "n \<le> 1" if "zero_run ?ws q n" for q n using le [OF that] out [OF that] 1 by (cases "q < rng") auto
    ultimately show ?thesis by (auto simp: compressed_def)
  next
    case 2
    have run: "zero_run ?ws p l" using zerolength_run [of p rng a] 2 by simp
    have best: "n < l \<or> n = l \<and> p \<le> q" if z: "zero_run ?ws q n" for q n
    proof (cases "q < rng")
      case True
      have "n \<le> zerolength a rng q" by (rule zerolength_longest [OF z])
      then have "q < p \<Longrightarrow> n < l" using 2(5) by (metis le_less_trans)
      then show ?thesis using le [OF z True] by linarith
    next
      case False
      then show ?thesis using out [OF z] 2(4) by simp
    qed
    have lt: "l + p \<le> rng" using run by (simp add: zero_run_def groups_def)
    have "emit_loop a rng l (int p) 0 False = (joined (groups a 0 p) @ [58, 58] @ joined (groups a (p + l) rng), p + l < rng)"
      using emit_loop_compressed [of l p rng 0 a False] 2 by auto
    then have "t = joined (take p ?ws) @ [58, 58] @ joined (drop (p + l) ?ws)" "nc = (p + l < length ?ws)"
      using assms(2) 2 by (simp_all add: groups_take groups_drop) (simp add: groups_def)
    then show ?thesis using run best 2(4) unfolding compressed_def by (metis Suc_1 Suc_leI)
  qed
qed

lemma hex_group_length: "length (hex_group w) \<le> 4"
  by (simp add: hex_group_def Let_def)

lemma joined_length: "length (joined ws) + (if ws = [] then 0 else 1) \<le> 5 * length ws"
proof (induction ws)
  case (Cons w ws)
  then show ?case using hex_group_length [of w] by (auto split: if_splits)
qed simp

lemma compressed_length: "compressed ws t tail_group \<Longrightarrow> ws \<noteq> [] \<Longrightarrow> length t + 1 \<le> 5 * length ws"
proof -
  assume a: "compressed ws t tail_group" "ws \<noteq> []"
  then consider "t = joined ws" | p l where "2 \<le> l" "p + l \<le> length ws" "t = joined (take p ws) @ [58, 58] @ joined (drop (p + l) ws)"
    unfolding compressed_def zero_run_def by blast
  then show ?thesis
  proof cases
    case 1
    then show ?thesis using joined_length [of ws] a(2) by simp
  next
    case 2
    then show ?thesis using joined_length [of "take p ws"] joined_length [of "drop (p + l) ws"] by (simp split: if_splits)
  qed
qed

lemma ip6_compressed_text:
  assumes "16 \<le> length addr"
  shows "\<exists>t nc. ip6_compressed_string addr =
      Some (if ipv6_addr_v4mapped (take 16 addr) \<or> ipv6_addr_is_isatap (take 16 addr)
        then t @ (if nc then [58] else []) @ dotted False (addr ! 12) (addr ! 13) (addr ! 14) (addr ! 15) else t)
    \<and> compressed (groups (take 16 addr) 0 (if ipv6_addr_v4mapped (take 16 addr) \<or> ipv6_addr_is_isatap (take 16 addr) then 6 else 8)) t nc"
proof -
  let ?a = "take 16 addr"
  let ?v4 = "ipv6_addr_v4mapped ?a \<or> ipv6_addr_is_isatap ?a"
  let ?rng = "if ?v4 then 6 else 8"
  obtain l c where l: "longest_loop (map (zerolength ?a ?rng) [0..<?rng]) 0 1 (- 1) = (l, c)" by fastforce
  obtain t nc where t: "emit_loop ?a ?rng l c 0 False = (t, nc)" by fastforce
  have m: "mem_rd addr 0 16 = Some ?a" using assms by (simp add: mem_rd_def)
  have i: "ip4_string (drop 12 ?a) [73, 52, 0] = Some (dotted False (addr ! 12) (addr ! 13) (addr ! 14) (addr ! 15))"
    using assms ip4_string_text [of "drop 12 ?a" "[73, 52, 0]" 73 0] by (simp add: rd_def)
  have "ip6_compressed_string addr = Some (if ?v4 then t @ (if nc then [58] else []) @ dotted False (addr ! 12) (addr ! 13) (addr ! 14) (addr ! 15) else t)"
    unfolding ip6_compressed_string_def m Let_def bind.bind_lunit l t prod.case i by simp
  then show ?thesis using ip6_groups_compressed [OF l t] by blast
qed

subsection \<open>The arrays are large enough\<close>

lemma in_array_string: "length t + 1 \<le> n \<Longrightarrow> \<exists>u. in_array n t = Some u \<and> 0 \<in> set u"
  by (simp add: in_array_def)

lemma mac_address_string_total:
  assumes "6 \<le> length addr" "rd fmt 0 = Some f0" "rd fmt 1 = Some f1"
  shows "mac_address_string addr spec fmt \<noteq> None"
proof -
  let ?t = "concat (map (\<lambda>j. pack_hex_byte (addr ! j) @ (if f0 = 77 \<and> j \<noteq> 5 then [if f1 = 70 then 45 else 58] else [])) [0..<6])"
  have "length ?t + 1 \<le> 18" by (simp add: upt_rec)
  with in_array_string obtain u where "in_array 18 ?t = Some u" "0 \<in> set u" by blast
  then show ?thesis using assms hex_loop_text [of 0 6 "\<lambda>i. i" addr] string_text_total [of u spec]
    by (auto simp: mac_address_string_def Let_def)
qed

lemma uuid_index: "j < 16 \<Longrightarrow> uuid_be ! j < 16 \<and> uuid_le ! j < 16"
  using nth_mem [of j uuid_be] nth_mem [of j uuid_le] by auto

lemma islower_0: "toupper 0 = 0"
  by (simp add: toupper_def islower_def ctype_def)

lemma uuid_string_total:
  assumes "16 \<le> length addr" "rd fmt 1 = Some f1"
  shows "uuid_string addr spec fmt \<noteq> None"
proof -
  let ?ix = "if f1 = 76 \<or> f1 = 108 then uuid_le else uuid_be"
  let ?t = "concat (map (\<lambda>j. pack_hex_byte (addr ! (?ix ! j)) @ (if j \<in> {3, 5, 7, 9} then [45] else [])) [0..<16])"
  have "length ?t + 1 \<le> 37" by (simp add: upt_rec)
  with in_array_string obtain u where u: "in_array 37 ?t = Some u" "0 \<in> set u" by blast
  have ix: "?ix ! j < length addr" if "0 \<le> j" "j < 0 + 16" for j
    using uuid_index [of j] that assms(1) by (cases "f1 = 76 \<or> f1 = 108") (auto intro: less_le_trans)
  have "hex_loop (\<lambda>i. ?ix ! i) (\<lambda>i. if i \<in> {3, 5, 7, 9} then [45] else []) addr 0 16 = Some ?t"
    using hex_loop_text [of 0 16 "\<lambda>i. ?ix ! i" addr "\<lambda>i. if i \<in> {3, 5, 7, 9} then [45] else []", OF ix] by (simp only: add_0)
  moreover have "0 \<in> set (map toupper u)" using u(2) islower_0 by (metis image_eqI set_map)
  ultimately show ?thesis using assms(2) u string_text_total [of u spec] string_text_total [of "map toupper u" spec]
    by (auto simp: uuid_string_def Let_def)
qed

lemma ip4_addr_string_total:
  assumes "4 \<le> length addr" "rd fmt 0 = Some f0" "rd fmt 2 = Some f2"
  shows "ip4_addr_string addr spec fmt \<noteq> None"
proof -
  obtain a b c d z where t: "ip4_string addr fmt = Some (dotted z a b c d)" using ip4_string_text [OF assms] by (cases "f2 = 104 \<or> f2 = 108") auto
  have "length (dotted z a b c d) + 1 \<le> 16" using dotted_length [of z a b c d] by simp
  with in_array_string obtain u where "in_array 16 (dotted z a b c d) = Some u" "0 \<in> set u" by blast
  then show ?thesis using t string_text_total [of u spec] by (auto simp: ip4_addr_string_def)
qed

lemma ip6_addr_string_total:
  assumes "16 \<le> length addr" "rd fmt 0 = Some f0" "rd fmt 2 = Some f2"
  shows "ip6_addr_string addr spec fmt \<noteq> None"
proof -
  let ?a = "take 16 addr"
  let ?v4 = "ipv6_addr_v4mapped ?a \<or> ipv6_addr_is_isatap ?a"
  obtain t nc where t: "ip6_compressed_string addr =
      Some (if ?v4 then t @ (if nc then [58] else []) @ dotted False (addr ! 12) (addr ! 13) (addr ! 14) (addr ! 15) else t)"
      "compressed (groups ?a 0 (if ?v4 then 6 else 8)) t nc"
    using ip6_compressed_text [OF assms(1)] by blast
  have "length t + 1 \<le> 5 * (if ?v4 then 6 else 8)" using compressed_length [OF t(2)] by (simp add: groups_def)
  then obtain v where v: "ip6_compressed_string addr = Some v" "length v + 1 \<le> 46"
    using t(1) dotted_length [of False "addr ! 12" "addr ! 13" "addr ! 14" "addr ! 15"] by (auto split: if_splits)
  obtain w where w: "ip6_string addr fmt = Some w" "length w + 1 \<le> 46"
    using ip6_loop_text [of 0 8 addr "f0 = 73"] assms by (simp add: ip6_string_def upt_rec)
  obtain u1 u2 where "in_array 46 v = Some u1" "0 \<in> set u1" "in_array 46 w = Some u2" "0 \<in> set u2"
    using in_array_string [OF v(2)] in_array_string [OF w(2)] by blast
  then show ?thesis using v(1) w(1) assms(2,3) string_text_total [of u1 spec] string_text_total [of u2 spec]
    by (auto simp: ip6_addr_string_def)
qed

lemma base_rev_length: "2 \<le> b \<Longrightarrow> n < b ^ Suc k \<Longrightarrow> length (base_rev b n) \<le> Suc k"
proof (induction k arbitrary: n)
  case 0
  then show ?case by (subst base_rev.simps) simp
next
  case (Suc k)
  have "n div b < b ^ Suc k" using Suc.prems by (simp add: less_mult_imp_div_less mult.commute)
  from Suc.IH [OF Suc.prems(1) this] show ?case by (subst base_rev.simps) simp
qed

lemma number_digits_u32: "base = 10 \<Longrightarrow> locase \<in> {0, 32} \<Longrightarrow> length (number_digits (ucast (n :: u32)) base locase) \<le> 10"
  "base = 16 \<Longrightarrow> locase \<in> {0, 32} \<Longrightarrow> length (number_digits (ucast n) base locase) \<le> 8"
proof -
  have n: "unat n < 2 ^ LENGTH(32)" by (rule unsigned_less)
  have u: "unat (ucast n :: u64) = unat n" using n by (simp add: unsigned_ucast_eq take_bit_nat_eq_self)
  show "base = 10 \<Longrightarrow> locase \<in> {0, 32} \<Longrightarrow> length (number_digits (ucast n) base locase) \<le> 10"
    using dec_rev_length [of "unat n" 9] n u by (simp add: number_digits_dec)
  show "base = 16 \<Longrightarrow> locase \<in> {0, 32} \<Longrightarrow> length (number_digits (ucast n) base locase) \<le> 8"
    using base_rev_length [of 16 "unat n" 7] n u by (simp add: number_digits_hex)
qed

lemma number_length:
  assumes "w \<in> {0, 2, 6, 10}" "base = 10 \<and> f = 0 \<or> base = 16 \<and> f \<in> {96, 97, 33}"
  shows "length (number (ucast (n :: u32)) (num_spec base w f)) \<le> 10"
proof -
  let ?s = "num_spec base w f"
  let ?l = "number_digits (ucast n) base (f AND 32)"
  have ok: "spec_ok ?s" using assms by (auto simp: spec_ok_def num_spec_def)
  have m: "magnitude (ucast n) ?s = ucast n" using assms(2) by (auto simp: magnitude_def has_def num_spec_def)
  have l: "f AND 32 \<in> {0, 32}" using assms(2) by auto
  have "length (sign_prefix (ucast n) ?s) + length ?l \<le> 10"
    using assms(2) number_digits_u32 [OF _ l, of base n] by (auto simp: sign_prefix_def has_def num_spec_def)
  moreover have "nat w \<le> 10" "- 1 \<le> ps_width ?s" "- 1 \<le> ps_precision ?s" "nat (ps_precision ?s) = 0" "ps_width ?s = w" "ps_base ?s = base" "ps_flags ?s = f"
    using assms(1) by (auto simp: num_spec_def)
  ultimately show ?thesis using number_laid_out [OF ok, of "ucast n"] m by (simp add: laid_out_length)
qed

lemma str_spec_text: "0 \<notin> set s \<Longrightarrow> length s \<le> 10 \<Longrightarrow> string_text (Some (s @ [0])) str_spec = Some s"
proof -
  assume s: "0 \<notin> set s" "length s \<le> 10"
  have "str_loop n (- 1) = ([], - 2)" for n by (subst str_loop.simps) simp
  then show ?thesis using s strnlen_terminated [OF s(1), of "[]"] by (simp add: string_text_def str_spec_def has_def)
qed

lemma flag_text_fits:
  assumes "0 \<notin> set s" "length s \<le> 10"
  shows "\<exists>t. flag_text flags f (s @ [0]) = Some t \<and> length t \<le> length s"
  using str_spec_text [OF assms] by (simp add: flag_text_def)

lemma resource_flags_fit: "\<exists>t. resource_flags decode flags = Some t \<and> length t \<le> 27"
proof (cases decode)
  case True
  obtain t1 t2 t3 t4 where
    "flag_text flags IORESOURCE_MEM_64 [32, 54, 52, 98, 105, 116, 0] = Some t1" "length t1 \<le> 6"
    "flag_text flags IORESOURCE_PREFETCH [32, 112, 114, 101, 102, 0] = Some t2" "length t2 \<le> 5"
    "flag_text flags IORESOURCE_WINDOW [32, 119, 105, 110, 100, 111, 119, 0] = Some t3" "length t3 \<le> 7"
    "flag_text flags IORESOURCE_DISABLED [32, 100, 105, 115, 97, 98, 108, 101, 100, 0] = Some t4" "length t4 \<le> 9"
    using flag_text_fits [of "[32, 54, 52, 98, 105, 116]" flags IORESOURCE_MEM_64]
      flag_text_fits [of "[32, 112, 114, 101, 102]" flags IORESOURCE_PREFETCH]
      flag_text_fits [of "[32, 119, 105, 110, 100, 111, 119]" flags IORESOURCE_WINDOW]
      flag_text_fits [of "[32, 100, 105, 115, 97, 98, 108, 101, 100]" flags IORESOURCE_DISABLED] by auto
  then show ?thesis using True by (simp add: resource_flags_def)
next
  case False
  have "string_text (Some [32, 102, 108, 97, 103, 115, 32, 0]) str_spec = Some [32, 102, 108, 97, 103, 115, 32]"
    using str_spec_text [of "[32, 102, 108, 97, 103, 115, 32]"] by simp
  then show ?thesis using False number_length [of 0 16 96 flags] by (simp add: resource_flags_def)
qed

lemma res_kind_fits:
  assumes "res_kind flags = (name, specp, known)"
  shows "\<exists>t. string_text (Some name) str_spec = Some t \<and> length t = 4" "length (number (ucast (n :: u32)) specp) \<le> 10"
proof -
  consider "name = [105, 111, 32, 32] @ [0]" "specp = num_spec 16 6 97" | "name = [109, 101, 109, 32] @ [0]" "specp = num_spec 16 10 97"
    | "name = [105, 114, 113, 32] @ [0]" "specp = num_spec 10 0 0" | "name = [100, 109, 97, 32] @ [0]" "specp = num_spec 10 0 0"
    | "name = [98, 117, 115, 32] @ [0]" "specp = num_spec 16 2 33" | "name = [63, 63, 63, 32] @ [0]" "specp = num_spec 16 10 97"
    using assms by (auto simp: res_kind_def split: if_splits)
  then have "(\<exists>t. string_text (Some name) str_spec = Some t \<and> length t = 4) \<and> length (number (ucast n) specp) \<le> 10"
    by cases (simp_all only: str_spec_text number_length, simp_all add: str_spec_text number_length del: append_Cons)
  then show "\<exists>t. string_text (Some name) str_spec = Some t \<and> length t = 4" "length (number (ucast n) specp) \<le> 10" by blast+
qed

lemma resource_string_total:
  assumes "rd fmt 0 = Some f0"
  shows "resource_string res spec fmt \<noteq> None"
proof -
  obtain name specp known where k: "res_kind (ra_flags res) = (name, specp, known)" by (cases "res_kind (ra_flags res)") auto
  obtain kind where kind: "string_text (Some name) str_spec = Some kind" "length kind = 4" using res_kind_fits(1) [OF k] by blast
  obtain fl where fl: "resource_flags (f0 = 82 \<and> known) (ra_flags res) = Some fl" "length fl \<le> 27" using resource_flags_fit by blast
  let ?t = "[91] @ kind @ number (ucast (ra_start res)) specp
       @ (if ra_start res \<noteq> ra_end res then 45 # number (ucast (ra_end res)) specp else []) @ fl @ [93]"
  have "length ?t + 1 \<le> 59"
    using kind(2) fl(2) res_kind_fits(2) [OF k, of "ra_start res"] res_kind_fits(2) [OF k, of "ra_end res"] by simp
  from in_array_string [OF this] obtain u where u: "in_array 59 ?t = Some u" "0 \<in> set u" by blast
  obtain v where v: "string_text (Some u) spec = Some v" using string_text_total [OF u(2)] by blast
  show ?thesis unfolding resource_string_def using assms k kind(1) fl(1) u(1) v by simp
qed

subsection \<open>Properties\<close>

text \<open>C17. Bounds of the local arrays of the address extensions of \<open>%p\<close>: whatever the object, the format and the specification, the text that \<open>%pM\<close>, \<open>%pm\<close>, \<open>%pI4\<close>, \<open>%pi4\<close>, \<open>%pI6\<close>, \<open>%pi6\<close>,
  \<open>%pU\<close>, \<open>%pR\<close> and \<open>%pr\<close> build fits into the array of the function with its terminator, and it reads nothing outside an object of the size it is for: 6 bytes of a hardware address, 4 and 16 bytes of network
  addresses, 16 bytes of an identifier, any resource. (The symbol extensions, whose text comes from the symbol table, and the recursive \<open>%pV\<close> are not covered.)\<close>

theorem extension_texts_fit:
  assumes "rd fmt 0 = Some f0" "rd fmt 1 = Some f1" "rd fmt 2 = Some f2"
  shows "(6 \<le> length mac \<longrightarrow> mac_address_string mac spec fmt \<noteq> None) \<and> (4 \<le> length ip4 \<longrightarrow> ip4_addr_string ip4 spec fmt \<noteq> None)
    \<and> (16 \<le> length ip6 \<longrightarrow> ip6_addr_string ip6 spec fmt \<noteq> None) \<and> (16 \<le> length uuid \<longrightarrow> uuid_string uuid spec fmt \<noteq> None)
    \<and> resource_string res spec fmt \<noteq> None"
  using mac_address_string_total [OF _ assms(1,2)] ip4_addr_string_total [OF _ assms(1,3)] ip6_addr_string_total [OF _ assms(1,3)]
    uuid_string_total [OF _ assms(2)] resource_string_total [OF assms(1)] by blast

theorem extension_texts_fit_witness:
  "\<exists>t. ip6_addr_string (replicate 16 255) str_spec [73, 54, 99, 0] = Some t"
  using extension_texts_fit [of "[73, 54, 99, 0]" 73 54 99 "[]" str_spec "[]" "replicate 16 255"] by (auto simp: rd_def)

text \<open>C18. The compressed form of a 16-byte address: its groups in hexadecimal without leading zeros, separated by colons, where the first of the longest runs of zero groups is replaced by
  two colons if it has two groups at least; if the address embeds a 4-byte address, its last four bytes follow in dotted decimal.\<close>

theorem ip6_compressed_form:
  assumes "16 \<le> length addr"
  shows "\<exists>t nc. ip6_compressed_string addr =
      Some (if ipv6_addr_v4mapped (take 16 addr) \<or> ipv6_addr_is_isatap (take 16 addr)
        then t @ (if nc then [58] else []) @ dotted False (addr ! 12) (addr ! 13) (addr ! 14) (addr ! 15) else t)
    \<and> compressed (groups (take 16 addr) 0 (if ipv6_addr_v4mapped (take 16 addr) \<or> ipv6_addr_is_isatap (take 16 addr) then 6 else 8)) t nc"
  using assms by (rule ip6_compressed_text)

theorem ip6_compressed_form_witness:
  "\<exists>t nc. ip6_compressed_string (replicate 15 0 @ [1]) = Some t \<and> compressed (groups (replicate 15 0 @ [1]) 0 8) t nc"
proof -
  have "s6_addr32 (replicate 15 0 @ [1]) 2 = 0" "s6_addr32 (replicate 15 0 @ [1]) 1 = 0" "s6_addr32 (replicate 15 0 @ [1]) 0 = 0"
    by (simp_all add: s6_addr32_def nth_append)
  then have "\<not> ipv6_addr_is_isatap (replicate 15 0 @ [1])" "\<not> ipv6_addr_v4mapped (replicate 15 0 @ [1])"
    by (simp_all add: ipv6_addr_is_isatap_def ipv6_addr_v4mapped_def)
  then show ?thesis using ip6_compressed_form [of "replicate 15 0 @ [1]"] by auto
qed

end
