(* ===== verification/Bitmap.thy ===== *)
theory Bitmap
  imports KPrelude
begin

text \<open>
  Bitmaps (\<^verbatim>\<open>lib/bitmap.c\<close>, \<^verbatim>\<open>lib/find_next_bit.c\<close>, \<^verbatim>\<open>include/linux/bitmap.h\<close>): arrays of bits in words of 32 bits. All bitmaps live in
  one memory of words and a bitmap is the address of its first word, so that the operands of an operation may be
  the same bitmap, as they may in C; an access outside the memory is \<open>None\<close>. A bitmap of a given size stands
  for a set of numbers. The theorems show that every operation computes the operation on sets its name says,
  whatever the unused bits of the last word hold, that searches find the first bit, and that the region allocator
  hands out free aligned regions.
\<close>

type_synonym words = "u32 list"

abbreviation BITS_PER_LONG :: nat where "BITS_PER_LONG \<equiv> 32"

definition BITS_TO_LONGS :: "nat \<Rightarrow> nat" where
  "BITS_TO_LONGS nr = (nr + BITS_PER_LONG - 1) div BITS_PER_LONG"

definition BITMAP_LAST_WORD_MASK :: "nat \<Rightarrow> u32" where
  "BITMAP_LAST_WORD_MASK nbits = (if nbits mod BITS_PER_LONG \<noteq> 0 then push_bit (nbits mod BITS_PER_LONG) 1 - 1 else NOT 0)"

definition BITMAP_FIRST_WORD_MASK :: "nat \<Rightarrow> u32" where
  "BITMAP_FIRST_WORD_MASK start = push_bit (start mod BITS_PER_LONG) (NOT 0)"

definition rdw :: "words \<Rightarrow> nat \<Rightarrow> u32 option" where
  "rdw m a = (if a < length m then Some (m ! a) else None)"

definition wrw :: "words \<Rightarrow> nat \<Rightarrow> u32 \<Rightarrow> words option" where
  "wrw m a v = (if a < length m then Some (m[a := v]) else None)"

subsection \<open>Loops over words\<close>

text \<open>\<open>for (k = 0; k < n; k++) dst[k] = ...\<close>, with the disjunction of the words written.\<close>

fun words_loop :: "(words \<Rightarrow> nat \<Rightarrow> u32 option) \<Rightarrow> nat \<Rightarrow> nat \<Rightarrow> nat \<Rightarrow> words \<Rightarrow> (u32 \<times> words) option" where
  "words_loop g dst k 0 m = Some (0, m)"
| "words_loop g dst k (Suc c) m = do {
     v \<leftarrow> g m k;
     m \<leftarrow> wrw m (dst + k) v;
     (r, m) \<leftarrow> words_loop g dst (k + 1) c m;
     Some (v OR r, m) }"

text \<open>\<open>for (k = n - 1; k >= 0; --k) dst[k] = ...\<close>.\<close>

fun words_down :: "(words \<Rightarrow> nat \<Rightarrow> u32 option) \<Rightarrow> nat \<Rightarrow> nat \<Rightarrow> words \<Rightarrow> words option" where
  "words_down g dst 0 m = Some m"
| "words_down g dst (Suc k) m = do {
     v \<leftarrow> g m k;
     m \<leftarrow> wrw m (dst + k) v;
     words_down g dst k m }"

text \<open>Whether a word is 0 for all \<open>k\<close>, stopping at the first that is not, with the last word masked.\<close>

fun zero_words :: "(nat \<Rightarrow> u32 option) \<Rightarrow> nat \<Rightarrow> nat \<Rightarrow> bool option" where
  "zero_words g k 0 = Some True"
| "zero_words g k (Suc c) = do { v \<leftarrow> g k; if v \<noteq> 0 then Some False else zero_words g (k + 1) c }"

definition zero_bits :: "(nat \<Rightarrow> u32 option) \<Rightarrow> nat \<Rightarrow> bool option" where
  "zero_bits g bits = do {
     let lim = bits div BITS_PER_LONG;
     z \<leftarrow> zero_words g 0 lim;
     if \<not> z then Some False
     else if bits mod BITS_PER_LONG \<noteq> 0 then do {
       v \<leftarrow> g lim;
       Some (v AND BITMAP_LAST_WORD_MASK bits = 0) }
     else Some True }"

subsection \<open>Tests\<close>

definition bitmap_empty :: "words \<Rightarrow> nat \<Rightarrow> nat \<Rightarrow> bool option" where
  "bitmap_empty m bitmap bits = zero_bits (\<lambda>k. rdw m (bitmap + k)) bits"

definition bitmap_full :: "words \<Rightarrow> nat \<Rightarrow> nat \<Rightarrow> bool option" where
  "bitmap_full m bitmap bits = zero_bits (\<lambda>k. map_option NOT (rdw m (bitmap + k))) bits"

text \<open>Two words: the words themselves are compared in the loop, their difference in the last word.\<close>

definition rd2 :: "(u32 \<Rightarrow> u32 \<Rightarrow> u32) \<Rightarrow> words \<Rightarrow> nat \<Rightarrow> nat \<Rightarrow> nat \<Rightarrow> u32 option" where
  "rd2 f m bitmap1 bitmap2 k = do { x \<leftarrow> rdw m (bitmap1 + k); y \<leftarrow> rdw m (bitmap2 + k); Some (f x y) }"

definition bitmap_equal :: "words \<Rightarrow> nat \<Rightarrow> nat \<Rightarrow> nat \<Rightarrow> bool option" where
  "bitmap_equal m bitmap1 bitmap2 bits = zero_bits (rd2 (XOR) m bitmap1 bitmap2) bits"

definition bitmap_intersects :: "words \<Rightarrow> nat \<Rightarrow> nat \<Rightarrow> nat \<Rightarrow> bool option" where
  "bitmap_intersects m bitmap1 bitmap2 bits = map_option Not (zero_bits (rd2 (AND) m bitmap1 bitmap2) bits)"

definition bitmap_subset :: "words \<Rightarrow> nat \<Rightarrow> nat \<Rightarrow> nat \<Rightarrow> bool option" where
  "bitmap_subset m bitmap1 bitmap2 bits = zero_bits (rd2 (\<lambda>x y. x AND NOT y) m bitmap1 bitmap2) bits"

subsection \<open>Set operations\<close>

definition bitmap_zero :: "words \<Rightarrow> nat \<Rightarrow> nat \<Rightarrow> words option" where
  "bitmap_zero m dst nbits = map_option snd (words_loop (\<lambda>m k. Some 0) dst 0 (BITS_TO_LONGS nbits) m)"

definition bitmap_complement :: "words \<Rightarrow> nat \<Rightarrow> nat \<Rightarrow> nat \<Rightarrow> words option" where
  "bitmap_complement m dst src bits = do {
     let lim = bits div BITS_PER_LONG;
     (_, m) \<leftarrow> words_loop (\<lambda>m k. map_option NOT (rdw m (src + k))) dst 0 lim m;
     if bits mod BITS_PER_LONG \<noteq> 0 then do {
       x \<leftarrow> rdw m (src + lim);
       wrw m (dst + lim) (NOT x AND BITMAP_LAST_WORD_MASK bits) }
     else Some m }"

definition bitmap_and :: "words \<Rightarrow> nat \<Rightarrow> nat \<Rightarrow> nat \<Rightarrow> nat \<Rightarrow> (bool \<times> words) option" where
  "bitmap_and m dst bitmap1 bitmap2 bits =
     map_option (\<lambda>(result, m). (result \<noteq> 0, m)) (words_loop (\<lambda>m. rd2 (AND) m bitmap1 bitmap2) dst 0 (BITS_TO_LONGS bits) m)"

definition bitmap_or :: "words \<Rightarrow> nat \<Rightarrow> nat \<Rightarrow> nat \<Rightarrow> nat \<Rightarrow> words option" where
  "bitmap_or m dst bitmap1 bitmap2 bits =
     map_option snd (words_loop (\<lambda>m. rd2 (OR) m bitmap1 bitmap2) dst 0 (BITS_TO_LONGS bits) m)"

definition bitmap_xor :: "words \<Rightarrow> nat \<Rightarrow> nat \<Rightarrow> nat \<Rightarrow> nat \<Rightarrow> words option" where
  "bitmap_xor m dst bitmap1 bitmap2 bits =
     map_option snd (words_loop (\<lambda>m. rd2 (XOR) m bitmap1 bitmap2) dst 0 (BITS_TO_LONGS bits) m)"

definition bitmap_andnot :: "words \<Rightarrow> nat \<Rightarrow> nat \<Rightarrow> nat \<Rightarrow> nat \<Rightarrow> (bool \<times> words) option" where
  "bitmap_andnot m dst bitmap1 bitmap2 bits =
     map_option (\<lambda>(result, m). (result \<noteq> 0, m))
       (words_loop (\<lambda>m. rd2 (\<lambda>x y. x AND NOT y) m bitmap1 bitmap2) dst 0 (BITS_TO_LONGS bits) m)"

subsection \<open>Shifts\<close>

definition shift_right_word :: "nat \<Rightarrow> nat \<Rightarrow> nat \<Rightarrow> words \<Rightarrow> nat \<Rightarrow> u32 option" where
  "shift_right_word src shift bits m k =
     (let lim = BITS_TO_LONGS bits; left = bits mod BITS_PER_LONG;
          off = shift div BITS_PER_LONG; rem = shift mod BITS_PER_LONG;
          mask = push_bit left 1 - 1 in
      do {
        upper \<leftarrow> (if rem = 0 \<or> off + k + 1 \<ge> lim then Some 0
          else map_option (\<lambda>u. if off + k + 1 = lim - 1 \<and> left \<noteq> 0 then u AND mask else u) (rdw m (src + (off + k + 1))));
        lower \<leftarrow> map_option (\<lambda>l. if left \<noteq> 0 \<and> off + k = lim - 1 then l AND mask else l) (rdw m (src + (off + k)));
        let v = push_bit (BITS_PER_LONG - rem) upper OR drop_bit rem lower;
        Some (if left \<noteq> 0 \<and> k = lim - 1 then v AND mask else v) })"

text \<open>The words cleared at the end start at \<open>dst[lim - off]\<close>, which is in front of \<open>dst\<close> if the shift is too large.\<close>

definition bitmap_shift_right :: "words \<Rightarrow> nat \<Rightarrow> nat \<Rightarrow> nat \<Rightarrow> nat \<Rightarrow> words option" where
  "bitmap_shift_right m dst src shift bits =
     (let lim = BITS_TO_LONGS bits; off = shift div BITS_PER_LONG in
      do {
        (_, m) \<leftarrow> words_loop (shift_right_word src shift bits) dst 0 (lim - off) m;
        if off \<noteq> 0 then
          if dst + lim < off then None
          else map_option snd (words_loop (\<lambda>m k. Some 0) (dst + lim - off) 0 off m)
        else Some m })"

definition shift_left_word :: "nat \<Rightarrow> nat \<Rightarrow> nat \<Rightarrow> words \<Rightarrow> nat \<Rightarrow> u32 option" where
  "shift_left_word src shift bits m k =
     (let lim = BITS_TO_LONGS bits; left = bits mod BITS_PER_LONG;
          off = shift div BITS_PER_LONG; rem = shift mod BITS_PER_LONG;
          mask = push_bit left 1 - 1 in
      do {
        lower \<leftarrow> (if rem \<noteq> 0 \<and> k > 0 then rdw m (src + (k - 1)) else Some 0);
        upper \<leftarrow> map_option (\<lambda>u. if left \<noteq> 0 \<and> k = lim - 1 then u AND mask else u) (rdw m (src + k));
        let v = drop_bit (BITS_PER_LONG - rem) lower OR push_bit rem upper;
        Some (if left \<noteq> 0 \<and> k + off = lim - 1 then v AND mask else v) })"

definition bitmap_shift_left :: "words \<Rightarrow> nat \<Rightarrow> nat \<Rightarrow> nat \<Rightarrow> nat \<Rightarrow> words option" where
  "bitmap_shift_left m dst src shift bits =
     (let lim = BITS_TO_LONGS bits; off = shift div BITS_PER_LONG in
      do {
        m \<leftarrow> words_down (shift_left_word src shift bits) (dst + off) (lim - off) m;
        if off \<noteq> 0 then map_option snd (words_loop (\<lambda>m k. Some 0) dst 0 off m) else Some m })"

subsection \<open>Single bits and runs of bits\<close>

definition set_bit_at :: "words \<Rightarrow> nat \<Rightarrow> nat \<Rightarrow> words option" where
  "set_bit_at m nr p = do {
     w \<leftarrow> rdw m (p + nr div 32);
     wrw m (p + nr div 32) (w OR push_bit (nr mod 32) 1) }"

definition test_bit_at :: "words \<Rightarrow> nat \<Rightarrow> nat \<Rightarrow> bool option" where
  "test_bit_at m nr addr = map_option (\<lambda>w. 1 AND drop_bit (nr mod 32) w \<noteq> 0) (rdw m (addr + nr div 32))"

text \<open>The loop of \<open>bitmap_set\<close> and \<open>bitmap_clear\<close>, which differ in what they do with a word and a mask.\<close>

function mask_loop :: "(u32 \<Rightarrow> u32 \<Rightarrow> u32) \<Rightarrow> words \<Rightarrow> nat \<Rightarrow> nat \<Rightarrow> nat \<Rightarrow> u32 \<Rightarrow> (words \<times> nat \<times> nat \<times> u32) option" where
  "mask_loop f m p nr b msk =
     (if nr \<ge> b then
        (case rdw m p of None \<Rightarrow> None
         | Some w \<Rightarrow> (case wrw m p (f w msk) of None \<Rightarrow> None
           | Some m \<Rightarrow> mask_loop f m (p + 1) (nr - b) BITS_PER_LONG (NOT 0)))
      else Some (m, p, nr, msk))"
  by pat_completeness auto
termination by (relation "measure (\<lambda>(f, m, p, nr, b, msk). nr + (if b = 0 then 1 else 0))") auto

declare mask_loop.simps [simp del]

definition mask_bits :: "(u32 \<Rightarrow> u32 \<Rightarrow> u32) \<Rightarrow> words \<Rightarrow> nat \<Rightarrow> nat \<Rightarrow> nat \<Rightarrow> words option" where
  "mask_bits f m bitmap start nr = do {
     let sz = start + nr;
     (m, p, nr, msk) \<leftarrow> mask_loop f m (bitmap + start div BITS_PER_LONG) nr (BITS_PER_LONG - start mod BITS_PER_LONG)
       (BITMAP_FIRST_WORD_MASK start);
     if nr \<noteq> 0 then do {
       w \<leftarrow> rdw m p;
       wrw m p (f w (msk AND BITMAP_LAST_WORD_MASK sz)) }
     else Some m }"

definition bitmap_set :: "words \<Rightarrow> nat \<Rightarrow> nat \<Rightarrow> nat \<Rightarrow> words option" where
  "bitmap_set m bitmap start nr = mask_bits (\<lambda>w msk. w OR msk) m bitmap start nr"

definition bitmap_clear :: "words \<Rightarrow> nat \<Rightarrow> nat \<Rightarrow> nat \<Rightarrow> words option" where
  "bitmap_clear m bitmap start nr = mask_bits (\<lambda>w msk. w AND NOT msk) m bitmap start nr"

subsection \<open>Bitmaps as sets of numbers\<close>

definition bits_of :: "words \<Rightarrow> nat \<Rightarrow> nat \<Rightarrow> nat set" where
  "bits_of m a n = {i. i < n \<and> bit (m ! (a + i div 32)) (i mod 32)}"

lemma bits_of_code [code]: "bits_of m a n = set (filter (\<lambda>i. bit (m ! (a + i div 32)) (i mod 32)) [0..<n])"
  by (auto simp: bits_of_def)

definition valid_bitmap :: "words \<Rightarrow> nat \<Rightarrow> nat \<Rightarrow> bool" where
  "valid_bitmap m a n \<longleftrightarrow> a + BITS_TO_LONGS n \<le> length m"

text \<open>Two bitmaps that are the same or do not overlap.\<close>

definition same_or_apart :: "nat \<Rightarrow> nat \<Rightarrow> nat \<Rightarrow> bool" where
  "same_or_apart a b n \<longleftrightarrow> a = b \<or> a + BITS_TO_LONGS n \<le> b \<or> b + BITS_TO_LONGS n \<le> a"

named_theorems bitmap_simps \<open>words, masks and accesses of bitmaps\<close>

lemma div_lt_BITS_TO_LONGS [bitmap_simps]: "i < n \<Longrightarrow> i div 32 < BITS_TO_LONGS n"
  by (simp add: BITS_TO_LONGS_def)

lemma lt_BITS_TO_LONGS: "k < BITS_TO_LONGS n \<longleftrightarrow> 32 * k < n"
  unfolding BITS_TO_LONGS_def by arith

lemma BITS_TO_LONGS_split: "BITS_TO_LONGS n = n div 32 + (if n mod 32 = 0 then 0 else 1)"
proof -
  obtain q r where n: "n = 32 * q + r" "r < 32" by (metis mod_less_divisor mult_div_mod_eq zero_less_numeral)
  then have "n div 32 = q" "n mod 32 = r" by auto
  moreover have "BITS_TO_LONGS n = q + (r + 31) div 32" using n by (simp add: BITS_TO_LONGS_def add.assoc)
  moreover have "(r + 31) div 32 = (if r = 0 then 0 else 1)" using n(2) by auto
  ultimately show ?thesis by simp
qed

lemma bit_LAST_WORD_MASK [bitmap_simps]:
  "bit (BITMAP_LAST_WORD_MASK n) i \<longleftrightarrow> i < 32 \<and> (n mod 32 = 0 \<or> i < n mod 32)"
proof -
  have "push_bit r 1 - 1 = (mask r :: u32)" for r by (simp add: mask_eq_exp_minus_1 push_bit_of_1)
  then show ?thesis
    by (auto simp: BITMAP_LAST_WORD_MASK_def bit_mask_iff bit_not_iff min_def)
qed

lemma bit_FIRST_WORD_MASK [bitmap_simps]: "bit (BITMAP_FIRST_WORD_MASK n) i \<longleftrightarrow> i < 32 \<and> n mod 32 \<le> i"
  by (auto simp: BITMAP_FIRST_WORD_MASK_def bit_simps)

lemma rdw_Some [bitmap_simps]: "a < length m \<Longrightarrow> rdw m a = Some (m ! a)"
  by (simp add: rdw_def)

lemma wrw_Some [bitmap_simps]: "a < length m \<Longrightarrow> wrw m a v = Some (m[a := v])"
  by (simp add: wrw_def)

lemma word32_zero_iff: "(v::u32) = 0 \<longleftrightarrow> (\<forall>i < 32. \<not> bit v i)"
  by (auto intro: word32_eqI)

text \<open>A word of a bitmap and the position of its bits.\<close>

lemma ball_words_bits: "(\<forall>k < (n::nat) div 32. \<forall>i < 32. P k i) \<and> (\<forall>i < n mod 32. P (n div 32) i) \<longleftrightarrow> (\<forall>i < n. P (i div 32) (i mod 32))"
proof safe
  fix i assume a: "\<forall>k < n div 32. \<forall>i < 32. P k i" "\<forall>i < n mod 32. P (n div 32) i" and i: "i < n"
  show "P (i div 32) (i mod 32)"
  proof (cases "i div 32 < n div 32")
    case False
    have "i div 32 \<le> n div 32" using i by (intro div_le_mono) simp
    with False have d: "i div 32 = n div 32" by simp
    have "i mod 32 < n mod 32" using i div_mult_mod_eq [of i 32] div_mult_mod_eq [of n 32] d by linarith
    note this d
    with a show ?thesis by simp
  qed (use a in simp)
next
  fix k i assume a: "\<forall>i < n. P (i div 32) (i mod 32)" and "k < n div 32" "i < (32::nat)"
  then have "32 * k + i < n" by arith
  with a have "P ((32 * k + i) div 32) ((32 * k + i) mod 32)" by blast
  then show "P k i" using \<open>i < 32\<close> by simp
next
  fix i assume a: "\<forall>i < n. P (i div 32) (i mod 32)" and i: "i < n mod 32"
  then have "32 * (n div 32) + i < n" by arith
  with a have "P ((32 * (n div 32) + i) div 32) ((32 * (n div 32) + i) mod 32)" by blast
  then show "P (n div 32) i" using i by simp
qed

lemma zero_words_spec:
  "(\<And>j. k \<le> j \<Longrightarrow> j < k + c \<Longrightarrow> g j = Some (h j)) \<Longrightarrow>
   zero_words g k c = Some (\<forall>j. k \<le> j \<and> j < k + c \<longrightarrow> h j = 0)"
proof (induction c arbitrary: k)
  case (Suc c)
  have IH: "zero_words g (k + 1) c = Some (\<forall>j. k + 1 \<le> j \<and> j < k + 1 + c \<longrightarrow> h j = 0)"
    by (rule Suc.IH) (use Suc.prems in auto)
  have "(\<forall>j. k \<le> j \<and> j < k + Suc c \<longrightarrow> h j = 0) \<longleftrightarrow> h k = 0 \<and> (\<forall>j. k + 1 \<le> j \<and> j < k + 1 + c \<longrightarrow> h j = 0)"
    by (auto simp: Suc_le_eq) (metis le_neq_implies_less)
  moreover have "g k = Some (h k)" by (rule Suc.prems) auto
  ultimately show ?case using IH by (simp del: One_nat_def)
qed auto

lemma zero_bits_spec:
  assumes "\<And>k. k < BITS_TO_LONGS n \<Longrightarrow> g k = Some (h k)"
  shows "zero_bits g n = Some (\<forall>i < n. \<not> bit (h (i div 32)) (i mod 32))"
proof -
  have "zero_words g 0 (n div 32) = Some (\<forall>j. 0 \<le> j \<and> j < 0 + n div 32 \<longrightarrow> h j = 0)"
    by (rule zero_words_spec) (use assms in \<open>auto simp: BITS_TO_LONGS_split\<close>)
  then have z: "zero_words g 0 (n div 32) = Some (\<forall>k < n div 32. \<forall>i < 32. \<not> bit (h k) i)"
    by (simp add: word32_zero_iff)
  have l: "n mod 32 \<noteq> 0 \<Longrightarrow> g (n div 32) = Some (h (n div 32))"
    by (rule assms) (simp add: BITS_TO_LONGS_split)
  have m: "n mod 32 \<noteq> 0 \<Longrightarrow> h (n div 32) AND BITMAP_LAST_WORD_MASK n = 0 \<longleftrightarrow> (\<forall>i < n mod 32. \<not> bit (h (n div 32)) i)"
    by (auto simp: word32_zero_iff bit_and_iff bit_LAST_WORD_MASK)
      (meson mod_less_divisor order_less_trans zero_less_numeral)
  show ?thesis
    unfolding zero_bits_def Let_def z
    using ball_words_bits [of n "\<lambda>k i. \<not> bit (h k) i", symmetric] l m
    by (cases "n mod 32 = 0") (auto simp: split: if_splits)
qed

definition only_changes :: "words \<Rightarrow> words \<Rightarrow> nat \<Rightarrow> nat \<Rightarrow> bool" where
  "only_changes m m' a c \<longleftrightarrow> length m' = length m \<and> (\<forall>i. i < a \<or> a + c \<le> i \<longrightarrow> m' ! i = m ! i)"

lemma only_changes_length [dest]: "only_changes m m' a c \<Longrightarrow> length m' = length m"
  by (simp add: only_changes_def)

lemma only_changes_refl [simp]: "only_changes m m a c"
  by (simp add: only_changes_def)

lemma only_changes_trans: "only_changes m m' a c \<Longrightarrow> only_changes m' m'' a c \<Longrightarrow> only_changes m m'' a c"
  by (auto simp: only_changes_def)

lemma only_changes_mono:
  "only_changes m m' a c \<Longrightarrow> b \<le> a \<Longrightarrow> a + c \<le> b + d \<Longrightarrow> only_changes m m' b d"
  by (auto simp: only_changes_def)

lemma only_changes_update: "a \<le> i \<Longrightarrow> i < a + c \<Longrightarrow> only_changes m (m[i := v]) a c"
  by (auto simp: only_changes_def)

text \<open>
  A loop that writes one word of the destination after the other computes each of them from the memory it started
  with, as long as a word is computed from words that the loop has not yet written.
\<close>

lemma words_loop_spec:
  assumes "dst + k + c \<le> length m"
    and "\<And>j m'. k \<le> j \<Longrightarrow> j < k + c \<Longrightarrow> only_changes m m' (dst + k) (j - k) \<Longrightarrow> g m' j = Some (h j)"
  shows "\<exists>r m'. words_loop g dst k c m = Some (r, m') \<and> only_changes m m' (dst + k) c \<and>
    (\<forall>j. k \<le> j \<and> j < k + c \<longrightarrow> m' ! (dst + j) = h j) \<and> (r = 0 \<longleftrightarrow> (\<forall>j. k \<le> j \<and> j < k + c \<longrightarrow> h j = 0))"
  using assms
proof (induction c arbitrary: k m)
  case (Suc c)
  let ?m = "m[dst + k := h k]"
  have g: "g m k = Some (h k)" by (rule Suc.prems) auto
  have "\<exists>r m'. words_loop g dst (k + 1) c ?m = Some (r, m') \<and> only_changes ?m m' (dst + (k + 1)) c \<and>
    (\<forall>j. k + 1 \<le> j \<and> j < k + 1 + c \<longrightarrow> m' ! (dst + j) = h j) \<and>
    (r = 0 \<longleftrightarrow> (\<forall>j. k + 1 \<le> j \<and> j < k + 1 + c \<longrightarrow> h j = 0))"
  proof (rule Suc.IH)
    fix j m' assume j: "k + 1 \<le> j" "j < k + 1 + c" and o: "only_changes ?m m' (dst + (k + 1)) (j - (k + 1))"
    have "only_changes m ?m (dst + k) (j - k)" using j by (intro only_changes_update) auto
    moreover have "only_changes ?m m' (dst + k) (j - k)" by (rule only_changes_mono [OF o]) (use j in auto)
    ultimately have "only_changes m m' (dst + k) (j - k)" by (rule only_changes_trans)
    then show "g m' j = Some (h j)" using j by (intro Suc.prems) auto
  qed (use Suc.prems in auto)
  then obtain r m' where w: "words_loop g dst (k + 1) c ?m = Some (r, m')"
    and o: "only_changes ?m m' (dst + (k + 1)) c"
    and h: "\<And>j. k + 1 \<le> j \<Longrightarrow> j < k + 1 + c \<Longrightarrow> m' ! (dst + j) = h j"
    and r: "r = 0 \<longleftrightarrow> (\<forall>j. k + 1 \<le> j \<and> j < k + 1 + c \<longrightarrow> h j = 0)" by blast
  have "only_changes m m' (dst + k) (Suc c)"
    by (rule only_changes_trans [OF only_changes_update only_changes_mono [OF o]]) auto
  moreover have "m' ! (dst + k) = h k"
    using o Suc.prems(1) by (auto simp: only_changes_def)
  then have "\<forall>j. k \<le> j \<and> j < k + Suc c \<longrightarrow> m' ! (dst + j) = h j"
    using h by (metis Suc_eq_plus1 Suc_leI add_Suc add_Suc_right le_neq_implies_less)
  moreover have "h k OR r = 0 \<longleftrightarrow> (\<forall>j. k \<le> j \<and> j < k + Suc c \<longrightarrow> h j = 0)"
    unfolding or_eq_0_iff r by (auto simp: Suc_le_eq) (metis le_neq_implies_less)
  ultimately show ?case using g w Suc.prems(1) by (simp add: wrw_Some)
qed auto

lemma bits_of_wordsI:
  "(\<And>k. k < BITS_TO_LONGS n \<Longrightarrow> m ! (a + k) = h k) \<Longrightarrow> bits_of m a n = {i. i < n \<and> bit (h (i div 32)) (i mod 32)}"
  by (auto simp: bits_of_def div_lt_BITS_TO_LONGS)

lemma bits_of_unchanged: "only_changes m m' a c \<Longrightarrow> b + BITS_TO_LONGS n \<le> a \<or> a + c \<le> b \<Longrightarrow> bits_of m' b n = bits_of m b n"
  by (subst bits_of_wordsI [where h = "\<lambda>k. m ! (b + k)"]) (auto simp: only_changes_def bits_of_def)

text \<open>The unused bits of the last word are all zero.\<close>

definition clean_bitmap :: "words \<Rightarrow> nat \<Rightarrow> nat \<Rightarrow> bool" where
  "clean_bitmap m a n \<longleftrightarrow> bits_of m a (32 * BITS_TO_LONGS n) \<subseteq> {..<n}"

lemma BITS_TO_LONGS_idem [simp]: "BITS_TO_LONGS (32 * k) = k"
  by (simp add: BITS_TO_LONGS_split)

lemma BITS_TO_LONGS_ge: "n \<le> 32 * BITS_TO_LONGS n"
  using lt_BITS_TO_LONGS [of "BITS_TO_LONGS n" n] by auto

lemma bits_of_restrict: "bits_of m a n = bits_of m a (32 * BITS_TO_LONGS n) \<inter> {..<n}"
  using BITS_TO_LONGS_ge [of n] by (auto simp: bits_of_def)

lemma clean_bits_of: "clean_bitmap m a n \<Longrightarrow> bits_of m a (32 * BITS_TO_LONGS n) = bits_of m a n"
  using bits_of_restrict [of m a n] by (auto simp: clean_bitmap_def)

lemma valid_whole: "valid_bitmap m a (32 * BITS_TO_LONGS n) = valid_bitmap m a n"
  by (simp add: valid_bitmap_def)

lemma apart_whole: "same_or_apart a b (32 * BITS_TO_LONGS n) = same_or_apart a b n"
  by (simp add: same_or_apart_def)

text \<open>A two-operand operation on words that works bit by bit does on bitmaps what it does on bits.\<close>

locale bitwise_op =
  fixes f :: "u32 \<Rightarrow> u32 \<Rightarrow> u32" and P :: "bool \<Rightarrow> bool \<Rightarrow> bool"
  assumes bit_f: "i < 32 \<Longrightarrow> bit (f x y) i = P (bit x i) (bit y i)"
begin

lemma loop_bits:
  assumes v: "valid_bitmap m dst n" "valid_bitmap m b1 n" "valid_bitmap m b2 n"
    and a: "same_or_apart dst b1 n" "same_or_apart dst b2 n"
  obtains r m' where "words_loop (\<lambda>m. rd2 f m b1 b2) dst 0 (BITS_TO_LONGS n) m = Some (r, m')"
    and "only_changes m m' dst (BITS_TO_LONGS n)"
    and "bits_of m' dst n = {i. i < n \<and> P (i \<in> bits_of m b1 n) (i \<in> bits_of m b2 n)}"
    and "bits_of m' dst (32 * BITS_TO_LONGS n) =
      {i. i < 32 * BITS_TO_LONGS n \<and> P (i \<in> bits_of m b1 (32 * BITS_TO_LONGS n)) (i \<in> bits_of m b2 (32 * BITS_TO_LONGS n))}"
    and "r = 0 \<longleftrightarrow> bits_of m' dst (32 * BITS_TO_LONGS n) = {}"
proof -
  let ?h = "\<lambda>k. f (m ! (b1 + k)) (m ! (b2 + k))" and ?N = "32 * BITS_TO_LONGS n"
  have "\<exists>r m'. words_loop (\<lambda>m. rd2 f m b1 b2) dst 0 (BITS_TO_LONGS n) m = Some (r, m') \<and>
    only_changes m m' (dst + 0) (BITS_TO_LONGS n) \<and>
    (\<forall>j. 0 \<le> j \<and> j < 0 + BITS_TO_LONGS n \<longrightarrow> m' ! (dst + j) = ?h j) \<and>
    (r = 0 \<longleftrightarrow> (\<forall>j. 0 \<le> j \<and> j < 0 + BITS_TO_LONGS n \<longrightarrow> ?h j = 0))"
  proof (rule words_loop_spec)
    fix j m' assume j: "j < 0 + BITS_TO_LONGS n" and o: "only_changes m m' (dst + 0) (j - 0)"
    have "m' ! (b1 + j) = m ! (b1 + j)" "m' ! (b2 + j) = m ! (b2 + j)"
      using o j a by (auto simp: only_changes_def same_or_apart_def)
    moreover have "b1 + j < length m'" "b2 + j < length m'"
      using o j v by (auto simp: only_changes_def valid_bitmap_def)
    ultimately show "rd2 f m' b1 b2 j = Some (?h j)"
      by (simp add: rd2_def rdw_Some)
  qed (use v in \<open>auto simp: valid_bitmap_def\<close>)
  then obtain r m' where w: "words_loop (\<lambda>m. rd2 f m b1 b2) dst 0 (BITS_TO_LONGS n) m = Some (r, m')"
    and o: "only_changes m m' dst (BITS_TO_LONGS n)"
    and h: "\<And>j. j < BITS_TO_LONGS n \<Longrightarrow> m' ! (dst + j) = ?h j"
    and r: "r = 0 \<longleftrightarrow> (\<forall>j < BITS_TO_LONGS n. ?h j = 0)" by auto
  have b: "bits_of m' dst q = {i. i < q \<and> P (i \<in> bits_of m b1 q) (i \<in> bits_of m b2 q)}"
    if "BITS_TO_LONGS q = BITS_TO_LONGS n" for q
    by (subst bits_of_wordsI [where h = ?h]) (use h that in \<open>auto simp: bit_f bits_of_def\<close>)
  have "r = 0 \<longleftrightarrow> (\<forall>i < ?N. \<not> bit (?h (i div 32)) (i mod 32))"
    using ball_words_bits [of ?N "\<lambda>k i. \<not> bit (?h k) i"] r by (simp add: word32_zero_iff)
  also have "\<dots> \<longleftrightarrow> bits_of m' dst ?N = {}"
    using bits_of_wordsI [of ?N m' dst ?h] h by auto
  finally show thesis using that [OF w o b [of n] b [of ?N]] by simp
qed

end

interpretation and_op: bitwise_op "(AND)" "(\<and>)"
  by unfold_locales (rule bit_and_iff)

interpretation or_op: bitwise_op "(OR)" "(\<or>)"
  by unfold_locales (rule bit_or_iff)

interpretation xor_op: bitwise_op "(XOR)" "(\<noteq>)"
  by unfold_locales (rule bit_xor_iff)

interpretation andnot_op: bitwise_op "\<lambda>x y. x AND NOT y" "\<lambda>p q. p \<and> \<not> q"
  by unfold_locales (auto simp: bit_and_iff bit_not_iff)

lemma bitmap_complement_spec:
  assumes v: "valid_bitmap m dst n" "valid_bitmap m src n" and a: "same_or_apart dst src n"
  obtains m' where "bitmap_complement m dst src n = Some m'" "only_changes m m' dst (BITS_TO_LONGS n)"
    and "bits_of m' dst n = {..<n} - bits_of m src n" and "clean_bitmap m' dst n"
proof -
  let ?h = "\<lambda>k. NOT (m ! (src + k))" and ?l = "n div 32"
  have ln: "?l \<le> BITS_TO_LONGS n" by (simp add: BITS_TO_LONGS_split)
  have "\<exists>r m'. words_loop (\<lambda>m k. map_option NOT (rdw m (src + k))) dst 0 ?l m = Some (r, m') \<and>
    only_changes m m' (dst + 0) ?l \<and> (\<forall>j. 0 \<le> j \<and> j < 0 + ?l \<longrightarrow> m' ! (dst + j) = ?h j) \<and>
    (r = 0 \<longleftrightarrow> (\<forall>j. 0 \<le> j \<and> j < 0 + ?l \<longrightarrow> ?h j = 0))"
  proof (rule words_loop_spec)
    fix j m' assume j: "j < 0 + ?l" and o: "only_changes m m' (dst + 0) (j - 0)"
    have "m' ! (src + j) = m ! (src + j)" "src + j < length m'"
      using o j a v ln by (auto simp: only_changes_def same_or_apart_def valid_bitmap_def)
    then show "map_option NOT (rdw m' (src + j)) = Some (?h j)" by (simp add: rdw_Some)
  qed (use v ln in \<open>auto simp: valid_bitmap_def\<close>)
  then obtain r m1 where w: "words_loop (\<lambda>m k. map_option NOT (rdw m (src + k))) dst 0 ?l m = Some (r, m1)"
    and o: "only_changes m m1 dst ?l" and h: "\<And>j. j < ?l \<Longrightarrow> m1 ! (dst + j) = ?h j" by auto
  let ?g = "\<lambda>k. if k = ?l then ?h k AND BITMAP_LAST_WORD_MASK n else ?h k"
  have "\<exists>m'. bitmap_complement m dst src n = Some m' \<and> only_changes m m' dst (BITS_TO_LONGS n) \<and>
    (\<forall>k < BITS_TO_LONGS n. m' ! (dst + k) = ?g k)"
  proof (cases "n mod 32 = 0")
    case True
    with w o h show ?thesis by (simp add: bitmap_complement_def BITS_TO_LONGS_split)
  next
    case False
    then have b: "BITS_TO_LONGS n = Suc ?l" by (simp add: BITS_TO_LONGS_split)
    have s: "m1 ! (src + ?l) = m ! (src + ?l)" "src + ?l < length m1" "dst + ?l < length m1"
      using o a v b by (auto simp: only_changes_def same_or_apart_def valid_bitmap_def)
    then have "bitmap_complement m dst src n = Some (m1[dst + ?l := ?g ?l])"
      using False w by (simp add: bitmap_complement_def rdw_Some wrw_Some Let_def)
    moreover have "only_changes m (m1[dst + ?l := ?g ?l]) dst (BITS_TO_LONGS n)"
      by (rule only_changes_trans [OF only_changes_mono [OF o] only_changes_update]) (use b in auto)
    moreover have "\<forall>k < BITS_TO_LONGS n. m1[dst + ?l := ?g ?l] ! (dst + k) = ?g k"
      using s h b by (auto simp: less_Suc_eq)
    ultimately show ?thesis by blast
  qed
  then obtain m' where e: "bitmap_complement m dst src n = Some m'" "only_changes m m' dst (BITS_TO_LONGS n)"
    and k: "\<And>k. k < BITS_TO_LONGS n \<Longrightarrow> m' ! (dst + k) = ?g k" by blast
  have g: "bit (?g (i div 32)) (i mod 32) \<longleftrightarrow> \<not> bit (m ! (src + i div 32)) (i mod 32) \<and> i < n"
    if "i < 32 * BITS_TO_LONGS n" for i
  proof (cases "i div 32 = ?l")
    case True
    with that have "n mod 32 \<noteq> 0" by (auto simp: BITS_TO_LONGS_split split: if_splits)
    moreover have "i mod 32 < n mod 32 \<longleftrightarrow> i < n"
      using True div_mult_mod_eq [of i 32] div_mult_mod_eq [of n 32] by linarith
    ultimately show ?thesis using True by (auto simp: bit_and_iff bit_not_iff bit_LAST_WORD_MASK)
  next
    case False
    have "i div 32 < BITS_TO_LONGS n" using that by auto
    with False have "i div 32 < n div 32" by (auto simp: BITS_TO_LONGS_split split: if_splits)
    then have "i < n" by (metis div_le_mono not_less)
    with False show ?thesis by (simp add: bit_not_iff)
  qed
  have "bits_of m' dst (32 * BITS_TO_LONGS n) = {i. i < 32 * BITS_TO_LONGS n \<and> bit (?g (i div 32)) (i mod 32)}"
    by (rule bits_of_wordsI) (rule k, simp)
  also have "\<dots> = {i. i < 32 * BITS_TO_LONGS n \<and> \<not> bit (m ! (src + i div 32)) (i mod 32) \<and> i < n}"
    using g by blast
  also have "\<dots> = {..<n} - bits_of m src n"
    using BITS_TO_LONGS_ge [of n] by (auto simp: bits_of_def)
  finally have "bits_of m' dst (32 * BITS_TO_LONGS n) = {..<n} - bits_of m src n" .
  then show thesis using that [OF e] by (auto simp: clean_bitmap_def bits_of_restrict [of m' dst n])
qed


lemma test_words:
  assumes "valid_bitmap m a n" "valid_bitmap m b n" "k < BITS_TO_LONGS n"
  shows "rdw m (a + k) = Some (m ! (a + k))" and "rd2 f m a b k = Some (f (m ! (a + k)) (m ! (b + k)))"
  using assms by (simp_all add: rd2_def rdw_Some valid_bitmap_def)

lemma bitmap_empty_iff: "valid_bitmap m a n \<Longrightarrow> bitmap_empty m a n = Some (bits_of m a n = {})"
  unfolding bitmap_empty_def
  by (subst zero_bits_spec [where h = "\<lambda>k. m ! (a + k)"]) (auto simp: test_words bits_of_def)

lemma bitmap_full_iff: "valid_bitmap m a n \<Longrightarrow> bitmap_full m a n = Some (bits_of m a n = {..<n})"
  unfolding bitmap_full_def
  by (subst zero_bits_spec [where h = "\<lambda>k. NOT (m ! (a + k))"]) (auto simp: test_words bits_of_def bit_not_iff)

lemma zero_bits_rd2:
  assumes "valid_bitmap m a n" "valid_bitmap m b n"
  shows "zero_bits (rd2 f m a b) n = Some (\<forall>i < n. \<not> bit (f (m ! (a + i div 32)) (m ! (b + i div 32))) (i mod 32))"
  by (rule zero_bits_spec) (simp add: test_words [OF assms])

lemma bitmap_equal_iff:
  "valid_bitmap m a n \<Longrightarrow> valid_bitmap m b n \<Longrightarrow> bitmap_equal m a b n = Some (bits_of m a n = bits_of m b n)"
  unfolding bitmap_equal_def by (simp add: zero_bits_rd2 bit_xor_iff) (auto simp: bits_of_def)

lemma bitmap_intersects_iff:
  "valid_bitmap m a n \<Longrightarrow> valid_bitmap m b n \<Longrightarrow> bitmap_intersects m a b n = Some (bits_of m a n \<inter> bits_of m b n \<noteq> {})"
  unfolding bitmap_intersects_def by (simp add: zero_bits_rd2 bit_and_iff) (auto simp: bits_of_def)

lemma bitmap_subset_iff:
  "valid_bitmap m a n \<Longrightarrow> valid_bitmap m b n \<Longrightarrow> bitmap_subset m a b n = Some (bits_of m a n \<subseteq> bits_of m b n)"
  unfolding bitmap_subset_def by (simp add: zero_bits_rd2 bit_and_iff bit_not_iff) (auto simp: bits_of_def)

lemma bitmap_and_spec:
  assumes "valid_bitmap m dst n" "valid_bitmap m a n" "valid_bitmap m b n" "same_or_apart dst a n" "same_or_apart dst b n"
  shows "\<exists>r m'. bitmap_and m dst a b n = Some (r, m') \<and> only_changes m m' dst (BITS_TO_LONGS n) \<and>
    bits_of m' dst n = bits_of m a n \<inter> bits_of m b n \<and> (clean_bitmap m a n \<or> clean_bitmap m b n \<longrightarrow> clean_bitmap m' dst n \<and> r = (bits_of m' dst n \<noteq> {}))"
proof (rule and_op.loop_bits [OF assms])
  fix r m' assume l: "words_loop (\<lambda>m. rd2 (AND) m a b) dst 0 (BITS_TO_LONGS n) m = Some (r, m')"
    and o: "only_changes m m' dst (BITS_TO_LONGS n)"
    and b: "bits_of m' dst n = {i. i < n \<and> (i \<in> bits_of m a n \<and> i \<in> bits_of m b n)}"
    and w: "bits_of m' dst (32 * BITS_TO_LONGS n) = {i. i < 32 * BITS_TO_LONGS n \<and> (i \<in> bits_of m a (32 * BITS_TO_LONGS n) \<and> i \<in> bits_of m b (32 * BITS_TO_LONGS n))}"
    and r: "r = 0 \<longleftrightarrow> bits_of m' dst (32 * BITS_TO_LONGS n) = {}"
  have "clean_bitmap m' dst n" if "clean_bitmap m a n \<or> clean_bitmap m b n"
    using that w unfolding clean_bitmap_def by blast
  moreover have "bits_of m' dst n = bits_of m a n \<inter> bits_of m b n" unfolding b by (auto simp: bits_of_def)
  ultimately show ?thesis using l o r clean_bits_of [of m' dst n] by (auto simp: bitmap_and_def)
qed

lemma bitmap_or_spec:
  assumes "valid_bitmap m dst n" "valid_bitmap m a n" "valid_bitmap m b n" "same_or_apart dst a n" "same_or_apart dst b n"
  shows "\<exists>m'. bitmap_or m dst a b n = Some m' \<and> only_changes m m' dst (BITS_TO_LONGS n) \<and>
    bits_of m' dst n = bits_of m a n \<union> bits_of m b n \<and> (clean_bitmap m a n \<and> clean_bitmap m b n \<longrightarrow> clean_bitmap m' dst n)"
proof (rule or_op.loop_bits [OF assms])
  fix r m' assume l: "words_loop (\<lambda>m. rd2 (OR) m a b) dst 0 (BITS_TO_LONGS n) m = Some (r, m')"
    and o: "only_changes m m' dst (BITS_TO_LONGS n)"
    and b: "bits_of m' dst n = {i. i < n \<and> (i \<in> bits_of m a n \<or> i \<in> bits_of m b n)}"
    and w: "bits_of m' dst (32 * BITS_TO_LONGS n) = {i. i < 32 * BITS_TO_LONGS n \<and> (i \<in> bits_of m a (32 * BITS_TO_LONGS n) \<or> i \<in> bits_of m b (32 * BITS_TO_LONGS n))}"
    and r: "r = 0 \<longleftrightarrow> bits_of m' dst (32 * BITS_TO_LONGS n) = {}"
  have "clean_bitmap m' dst n" if "clean_bitmap m a n \<and> clean_bitmap m b n"
    using that w unfolding clean_bitmap_def by blast
  moreover have "bits_of m' dst n = bits_of m a n \<union> bits_of m b n" unfolding b by (auto simp: bits_of_def)
  ultimately show ?thesis using l o r clean_bits_of [of m' dst n] by (auto simp: bitmap_or_def)
qed

lemma bitmap_xor_spec:
  assumes "valid_bitmap m dst n" "valid_bitmap m a n" "valid_bitmap m b n" "same_or_apart dst a n" "same_or_apart dst b n"
  shows "\<exists>m'. bitmap_xor m dst a b n = Some m' \<and> only_changes m m' dst (BITS_TO_LONGS n) \<and>
    bits_of m' dst n = (bits_of m a n - bits_of m b n) \<union> (bits_of m b n - bits_of m a n) \<and> (clean_bitmap m a n \<and> clean_bitmap m b n \<longrightarrow> clean_bitmap m' dst n)"
proof (rule xor_op.loop_bits [OF assms])
  fix r m' assume l: "words_loop (\<lambda>m. rd2 (XOR) m a b) dst 0 (BITS_TO_LONGS n) m = Some (r, m')"
    and o: "only_changes m m' dst (BITS_TO_LONGS n)"
    and b: "bits_of m' dst n = {i. i < n \<and> (i \<in> bits_of m a n) \<noteq> (i \<in> bits_of m b n)}"
    and w: "bits_of m' dst (32 * BITS_TO_LONGS n) = {i. i < 32 * BITS_TO_LONGS n \<and> (i \<in> bits_of m a (32 * BITS_TO_LONGS n)) \<noteq> (i \<in> bits_of m b (32 * BITS_TO_LONGS n))}"
    and r: "r = 0 \<longleftrightarrow> bits_of m' dst (32 * BITS_TO_LONGS n) = {}"
  have "clean_bitmap m' dst n" if "clean_bitmap m a n \<and> clean_bitmap m b n"
    using that w unfolding clean_bitmap_def by blast
  moreover have "bits_of m' dst n = (bits_of m a n - bits_of m b n) \<union> (bits_of m b n - bits_of m a n)" unfolding b by (auto simp: bits_of_def)
  ultimately show ?thesis using l o r clean_bits_of [of m' dst n] by (auto simp: bitmap_xor_def)
qed

lemma bitmap_andnot_spec:
  assumes "valid_bitmap m dst n" "valid_bitmap m a n" "valid_bitmap m b n" "same_or_apart dst a n" "same_or_apart dst b n"
  shows "\<exists>r m'. bitmap_andnot m dst a b n = Some (r, m') \<and> only_changes m m' dst (BITS_TO_LONGS n) \<and>
    bits_of m' dst n = bits_of m a n - bits_of m b n \<and> (clean_bitmap m a n \<longrightarrow> clean_bitmap m' dst n \<and> r = (bits_of m' dst n \<noteq> {}))"
proof (rule andnot_op.loop_bits [OF assms])
  fix r m' assume l: "words_loop (\<lambda>m. rd2 (\<lambda>x y. x AND NOT y) m a b) dst 0 (BITS_TO_LONGS n) m = Some (r, m')"
    and o: "only_changes m m' dst (BITS_TO_LONGS n)"
    and b: "bits_of m' dst n = {i. i < n \<and> (i \<in> bits_of m a n \<and> \<not> i \<in> bits_of m b n)}"
    and w: "bits_of m' dst (32 * BITS_TO_LONGS n) = {i. i < 32 * BITS_TO_LONGS n \<and> (i \<in> bits_of m a (32 * BITS_TO_LONGS n) \<and> \<not> i \<in> bits_of m b (32 * BITS_TO_LONGS n))}"
    and r: "r = 0 \<longleftrightarrow> bits_of m' dst (32 * BITS_TO_LONGS n) = {}"
  have "clean_bitmap m' dst n" if "clean_bitmap m a n"
    using that w unfolding clean_bitmap_def by blast
  moreover have "bits_of m' dst n = bits_of m a n - bits_of m b n" unfolding b by (auto simp: bits_of_def)
  ultimately show ?thesis using l o r clean_bits_of [of m' dst n] by (auto simp: bitmap_andnot_def)
qed


subsection \<open>What the shifts do\<close>

text \<open>The words as the shifts read them: the unused bits of the last one are masked.\<close>

definition edge :: "nat \<Rightarrow> nat \<Rightarrow> u32 \<Rightarrow> u32" where
  "edge n k w = (if n mod 32 \<noteq> 0 \<and> k = BITS_TO_LONGS n - 1 then w AND (push_bit (n mod 32) 1 - 1) else w)"

lemma edge_fold:
  "(if n mod 32 \<noteq> 0 \<and> k = BITS_TO_LONGS n - 1 then w AND (push_bit (n mod 32) 1 - 1) else w) = edge n k w"
  "(if k = BITS_TO_LONGS n - 1 \<and> n mod 32 \<noteq> 0 then w AND (push_bit (n mod 32) 1 - 1) else w) = edge n k w"
  by (simp_all only: edge_def conj_commute)

lemma bit_edge:
  assumes "k < BITS_TO_LONGS n" "j < 32"
  shows "bit (edge n k w) j \<longleftrightarrow> 32 * k + j < n \<and> bit w j"
proof -
  have n: "32 * (n div 32) + n mod 32 = n" by simp
  have m: "push_bit r 1 - 1 = (mask r :: u32)" for r by (simp add: mask_eq_exp_minus_1 push_bit_of_1)
  show ?thesis
  proof (cases "n mod 32 \<noteq> 0 \<and> k = BITS_TO_LONGS n - 1")
    case True
    then have "k = n div 32" by (simp add: BITS_TO_LONGS_split)
    with n have "32 * k + j < n \<longleftrightarrow> j < n mod 32" by linarith
    with True assms show ?thesis unfolding edge_def m by (auto simp: bit_and_iff bit_mask_iff)
  next
    case False
    with assms have "k < n div 32" by (auto simp: BITS_TO_LONGS_split split: if_splits)
    then have "32 * k + j < n" using n assms(2) by linarith
    with False show ?thesis by (auto simp: edge_def)
  qed
qed

text \<open>A pair of neighbouring words, shifted: the bits that lie \<open>r\<close> further on.\<close>

lemma shifted_pair:
  assumes r: "r < 32" and j: "j < 32" and u: "r = 0 \<Longrightarrow> u = 0"
  shows "bit (push_bit (32 - r) u OR drop_bit r l :: u32) j \<longleftrightarrow> (if j + r < 32 then bit l (j + r) else bit u (j + r - 32))"
proof -
  have "j - (32 - r) = j + r - 32" if "\<not> j + r < 32" using that r by linarith
  then show ?thesis using r j u
    by (auto simp: bit_or_iff bit_push_bit_iff bit_drop_bit_eq add.commute dest: bit_imp_le_length)
qed

lemma word_carry:
  assumes "r < (64::nat)"
  shows "(32 * q + r) div 32 = (if r < 32 then q else q + 1)" and "(32 * q + r) mod 32 = (if r < 32 then r else r - 32)"
proof -
  show d: "(32 * q + r) div 32 = (if r < 32 then q else q + 1)"
    by (rule div_nat_eqI) (use assms in auto)
  show "(32 * q + r) mod 32 = (if r < 32 then r else r - 32)"
    unfolding minus_mult_div_eq_mod [of "32 * q + r" 32, symmetric] d by simp
qed

lemma word_offset:
  assumes "(j::nat) < 32"
  shows "(32 * k + j + s) div 32 = (if j + s mod 32 < 32 then k + s div 32 else k + s div 32 + 1)"
    and "(32 * k + j + s) mod 32 = (if j + s mod 32 < 32 then j + s mod 32 else j + s mod 32 - 32)"
proof -
  have e: "32 * k + j + s = 32 * (k + s div 32) + (j + s mod 32)" by simp
  have "s mod 32 < 32" by simp
  with assms have r: "j + s mod 32 < 64" by linarith
  show "(32 * k + j + s) div 32 = (if j + s mod 32 < 32 then k + s div 32 else k + s div 32 + 1)"
    and "(32 * k + j + s) mod 32 = (if j + s mod 32 < 32 then j + s mod 32 else j + s mod 32 - 32)"
    unfolding e by (rule word_carry [OF r])+
qed

definition shr_value :: "words \<Rightarrow> nat \<Rightarrow> nat \<Rightarrow> nat \<Rightarrow> nat \<Rightarrow> u32" where
  "shr_value m src s n k =
     edge n k (push_bit (32 - s mod 32)
       (if s mod 32 = 0 \<or> s div 32 + k + 1 \<ge> BITS_TO_LONGS n then 0
        else edge n (s div 32 + k + 1) (m ! (src + (s div 32 + k + 1))))
       OR drop_bit (s mod 32) (edge n (s div 32 + k) (m ! (src + (s div 32 + k)))))"

lemma shift_right_word_value:
  assumes "src + BITS_TO_LONGS n \<le> length m'" "s div 32 + k < BITS_TO_LONGS n"
    and "\<And>i. s div 32 + k \<le> i \<Longrightarrow> i < BITS_TO_LONGS n \<Longrightarrow> m' ! (src + i) = m ! (src + i)"
  shows "shift_right_word src s n m' k = Some (shr_value m src s n k)"
proof -
  let ?i = "s div 32 + k"
  have "rdw m' (src + ?i) = Some (m ! (src + ?i))" using assms by (simp add: rdw_Some)
  moreover have "?i + 1 < BITS_TO_LONGS n \<Longrightarrow> rdw m' (src + (?i + 1)) = Some (m ! (src + (?i + 1)))"
    using assms(1) assms(3) [of "?i + 1"] by (simp add: rdw_Some)
  ultimately show ?thesis
    unfolding shift_right_word_def shr_value_def Let_def edge_fold
    by (cases "s mod 32 = 0 \<or> BITS_TO_LONGS n \<le> ?i + 1") simp_all
qed

lemma bit_shr_value:
  assumes k: "s div 32 + k < BITS_TO_LONGS n" and j: "j < 32"
  shows "bit (shr_value m src s n k) j \<longleftrightarrow> 32 * k + j + s \<in> bits_of m src n"
proof -
  have k': "k < BITS_TO_LONGS n" using k by simp
  have s: "s mod 32 < 32" by simp
  note bw = bit_edge [OF k' j] shifted_pair [OF s j]
  note off = word_offset [OF j, of k s]
  show ?thesis
  proof (cases "j + s mod 32 < 32")
    case True
    then have "32 * (s div 32 + k) + (j + s mod 32) = 32 * k + j + s" by simp
    then show ?thesis using True k j off
      unfolding shr_value_def bw(1) by (subst bw(2)) (auto simp: bit_edge bits_of_def add.commute)
  next
    case False
    then have e: "32 * (s div 32 + k + 1) + (j + s mod 32 - 32) = 32 * k + j + s" by simp
    have "s mod 32 \<noteq> 0" using False j by auto
    moreover have "\<not> s div 32 + k + 1 < BITS_TO_LONGS n \<Longrightarrow> \<not> 32 * k + j + s < n"
      using e lt_BITS_TO_LONGS [of "s div 32 + k + 1" n] by linarith
    ultimately show ?thesis using False k j off e
      unfolding shr_value_def bw(1) by (subst bw(2)) (auto simp: bit_edge bits_of_def add.commute)
  qed
qed

lemma bitmap_shift_right_spec:
  assumes v: "valid_bitmap m dst n" "valid_bitmap m src n" and a: "same_or_apart dst src n"
    and s: "s div 32 \<le> BITS_TO_LONGS n"
  shows "\<exists>m'. bitmap_shift_right m dst src s n = Some m' \<and> only_changes m m' dst (BITS_TO_LONGS n) \<and>
    bits_of m' dst (32 * BITS_TO_LONGS n) = {i. i + s \<in> bits_of m src n}"
proof -
  let ?lim = "BITS_TO_LONGS n" and ?off = "s div 32"
  have "\<exists>r m'. words_loop (shift_right_word src s n) dst 0 (?lim - ?off) m = Some (r, m') \<and>
    only_changes m m' (dst + 0) (?lim - ?off) \<and>
    (\<forall>j. 0 \<le> j \<and> j < 0 + (?lim - ?off) \<longrightarrow> m' ! (dst + j) = shr_value m src s n j) \<and>
    (r = 0 \<longleftrightarrow> (\<forall>j. 0 \<le> j \<and> j < 0 + (?lim - ?off) \<longrightarrow> shr_value m src s n j = 0))"
  proof (rule words_loop_spec)
    fix j m' assume j: "j < 0 + (?lim - ?off)" and o: "only_changes m m' (dst + 0) (j - 0)"
    show "shift_right_word src s n m' j = Some (shr_value m src s n j)"
    proof (rule shift_right_word_value)
      fix i assume "?off + j \<le> i" "i < ?lim"
      then show "m' ! (src + i) = m ! (src + i)"
        using o j a by (auto simp: only_changes_def same_or_apart_def)
    qed (use v o j in \<open>auto simp: valid_bitmap_def only_changes_def\<close>)
  qed (use v in \<open>auto simp: valid_bitmap_def\<close>)
  then obtain r m1 where w: "words_loop (shift_right_word src s n) dst 0 (?lim - ?off) m = Some (r, m1)"
    and o: "only_changes m m1 dst (?lim - ?off)"
    and h: "\<And>j. j < ?lim - ?off \<Longrightarrow> m1 ! (dst + j) = shr_value m src s n j" by auto
  have "\<exists>r m'. words_loop (\<lambda>m k. Some 0) (dst + ?lim - ?off) 0 ?off m1 = Some (r, m') \<and>
    only_changes m1 m' (dst + ?lim - ?off + 0) ?off \<and>
    (\<forall>j. 0 \<le> j \<and> j < 0 + ?off \<longrightarrow> m' ! (dst + ?lim - ?off + j) = 0) \<and>
    (r = 0 \<longleftrightarrow> (\<forall>j. 0 \<le> j \<and> j < 0 + ?off \<longrightarrow> (0::u32) = 0))"
    by (rule words_loop_spec) (use v s only_changes_length [OF o] in \<open>auto simp: valid_bitmap_def\<close>)
  then obtain q m2 where w2: "words_loop (\<lambda>m k. Some 0) (dst + ?lim - ?off) 0 ?off m1 = Some (q, m2)"
    and o2: "only_changes m1 m2 (dst + ?lim - ?off) ?off"
    and z: "\<And>j. j < ?off \<Longrightarrow> m2 ! (dst + ?lim - ?off + j) = 0" by auto
  have e: "bitmap_shift_right m dst src s n = Some m2"
  proof (cases "?off = 0")
    case True
    with w2 show ?thesis using w by (simp add: bitmap_shift_right_def Let_def)
  qed (use w w2 s in \<open>auto simp: bitmap_shift_right_def Let_def\<close>)
  have oc: "only_changes m m2 dst ?lim"
    by (rule only_changes_trans [OF only_changes_mono [OF o] only_changes_mono [OF o2]]) (use s in auto)
  have "m2 ! (dst + k) = (if k < ?lim - ?off then shr_value m src s n k else 0)" if "k < ?lim" for k
  proof (cases "k < ?lim - ?off")
    case True
    then show ?thesis using o2 h by (auto simp: only_changes_def)
  next
    case False
    then show ?thesis using z [of "k - (?lim - ?off)"] that s by auto
  qed
  then have "bits_of m2 dst (32 * ?lim) =
      {i. i < 32 * ?lim \<and> bit (if i div 32 < ?lim - ?off then shr_value m src s n (i div 32) else 0) (i mod 32)}"
    by (intro bits_of_wordsI) auto
  also have "\<dots> = {i. i + s \<in> bits_of m src n}"
  proof (rule Collect_cong)
    fix i
    have ge: "i + s \<notin> bits_of m src n" if "\<not> i div 32 < ?lim - ?off"
    proof
      assume "i + s \<in> bits_of m src n"
      then have "(i + s) div 32 < ?lim" by (auto simp: bits_of_def dest: div_lt_BITS_TO_LONGS)
      moreover have "i div 32 + ?off \<le> (i + s) div 32"
        using word_offset(1) [of "i mod 32" "i div 32" s] by (auto split: if_splits)
      ultimately show False using that by linarith
    qed
    show "i < 32 * ?lim \<and> bit (if i div 32 < ?lim - ?off then shr_value m src s n (i div 32) else 0) (i mod 32)
      \<longleftrightarrow> i + s \<in> bits_of m src n"
      using bit_shr_value [of s "i div 32" n "i mod 32" m src] ge by auto
  qed
  finally show ?thesis using e oc by blast
qed

lemma words_down_spec:
  assumes "dst + c \<le> length m"
    and "\<And>j m'. j < c \<Longrightarrow> only_changes m m' (dst + j + 1) (c - (j + 1)) \<Longrightarrow> g m' j = Some (h j)"
  shows "\<exists>m'. words_down g dst c m = Some m' \<and> only_changes m m' dst c \<and> (\<forall>j < c. m' ! (dst + j) = h j)"
  using assms
proof (induction c arbitrary: m)
  case (Suc c)
  let ?m = "m[dst + c := h c]"
  have g: "g m c = Some (h c)" by (rule Suc.prems) auto
  have "\<exists>m'. words_down g dst c ?m = Some m' \<and> only_changes ?m m' dst c \<and> (\<forall>j < c. m' ! (dst + j) = h j)"
  proof (rule Suc.IH)
    fix j m' assume j: "j < c" and o: "only_changes ?m m' (dst + j + 1) (c - (j + 1))"
    have "only_changes m ?m (dst + j + 1) (Suc c - (j + 1))" using j by (intro only_changes_update) auto
    moreover have "only_changes ?m m' (dst + j + 1) (Suc c - (j + 1))" by (rule only_changes_mono [OF o]) auto
    ultimately have "only_changes m m' (dst + j + 1) (Suc c - (j + 1))" by (rule only_changes_trans)
    then show "g m' j = Some (h j)" using j by (intro Suc.prems) auto
  qed (use Suc.prems in auto)
  then obtain m' where w: "words_down g dst c ?m = Some m'" and o: "only_changes ?m m' dst c"
    and h: "\<And>j. j < c \<Longrightarrow> m' ! (dst + j) = h j" by blast
  have "only_changes m m' dst (Suc c)"
    by (rule only_changes_trans [OF only_changes_update only_changes_mono [OF o]]) auto
  moreover have "m' ! (dst + c) = h c" using o Suc.prems(1) by (auto simp: only_changes_def)
  ultimately show ?case using g w h Suc.prems(1) by (auto simp: wrw_Some less_Suc_eq)
qed auto

definition shl_value :: "words \<Rightarrow> nat \<Rightarrow> nat \<Rightarrow> nat \<Rightarrow> nat \<Rightarrow> u32" where
  "shl_value m src s n k =
     edge n (k + s div 32) (drop_bit (32 - s mod 32) (if s mod 32 \<noteq> 0 \<and> k > 0 then m ! (src + (k - 1)) else 0)
       OR push_bit (s mod 32) (edge n k (m ! (src + k))))"

lemma shift_left_word_value:
  assumes "src + BITS_TO_LONGS n \<le> length m'" "k < BITS_TO_LONGS n"
    and "\<And>i. i \<le> k \<Longrightarrow> m' ! (src + i) = m ! (src + i)"
  shows "shift_left_word src s n m' k = Some (shl_value m src s n k)"
proof -
  have "rdw m' (src + k) = Some (m ! (src + k))" using assms by (simp add: rdw_Some)
  moreover have "rdw m' (src + (k - 1)) = Some (m ! (src + (k - 1)))"
    using assms(1,2) assms(3) [of "k - 1"] by (simp add: rdw_Some)
  ultimately show ?thesis
    unfolding shift_left_word_def shl_value_def Let_def edge_fold
    by (cases "s mod 32 \<noteq> 0 \<and> k > 0") (simp, auto)
qed

lemma shifted_pair_left:
  assumes r: "r < 32" and j: "j < 32" and l: "r = 0 \<Longrightarrow> l = 0"
  shows "bit (drop_bit (32 - r) l OR push_bit r u :: u32) j \<longleftrightarrow> (if r \<le> j then bit u (j - r) else bit l (j + 32 - r))"
proof -
  have "32 - r + j = j + 32 - r" using r by linarith
  moreover have "\<not> bit l (j + 32 - r)" if "r \<le> j" using that r by (auto dest: bit_imp_le_length)
  ultimately show ?thesis using r j l
    by (auto simp: bit_or_iff bit_push_bit_iff bit_drop_bit_eq)
qed

lemma bit_shl_value:
  assumes k: "k + s div 32 < BITS_TO_LONGS n" and j: "j < 32" and i: "i = 32 * (k + s div 32) + j"
  shows "bit (shl_value m src s n k) j \<longleftrightarrow> i < n \<and> s \<le> i \<and> i - s \<in> bits_of m src n"
proof -
  have r: "s mod 32 < 32" by simp
  define q where "q = s div 32"
  define p where "p = s mod 32"
  have s: "s = 32 * q + p" and pr: "p < 32" by (simp_all add: q_def p_def)
  have i': "i = 32 * (k + q) + j" by (simp add: i q_def)
  have kn: "k < BITS_TO_LONGS n" using k by simp
  have "bit (shl_value m src s n k) j \<longleftrightarrow> i < n \<and> (if s mod 32 \<le> j then bit (edge n k (m ! (src + k))) (j - s mod 32)
      else bit (if s mod 32 \<noteq> 0 \<and> k > 0 then m ! (src + (k - 1)) else 0) (j + 32 - s mod 32))"
    unfolding shl_value_def bit_edge [OF k j] i by (subst shifted_pair_left [OF r j]) auto
  also have "\<dots> \<longleftrightarrow> i < n \<and> s \<le> i \<and> i - s \<in> bits_of m src n"
  proof (cases "s mod 32 \<le> j")
    case True
    then have "p \<le> j" by (simp add: p_def)
    then have "i - s = 32 * k + (j - p)" "s \<le> i" using i' s by simp_all
    then have "i - s = 32 * k + (j - s mod 32)" "s \<le> i" by (simp_all add: p_def)
    moreover have "(32 * k + (j - s mod 32)) div 32 = k" "(32 * k + (j - s mod 32)) mod 32 = j - s mod 32"
      using j word_carry [of "j - s mod 32" k] by (auto simp: less_imp_diff_less)
    moreover have "j - s mod 32 < 32" using j by simp
    ultimately show ?thesis
      using True bit_edge [OF kn, of "j - s mod 32"] by (auto simp: bits_of_def)
  next
    case False
    then have jp: "j < p" by (simp add: p_def)
    show ?thesis
    proof (cases "k = 0")
      case True
      then have "i < s" unfolding i' s using jp by simp
      then show ?thesis using True False by simp
    next
      case k0: False
      have q: "j + 32 - s mod 32 < 32" using False r by linarith
      have "i - s = 32 * (k - 1) + (j + 32 - p)" "s \<le> i" using jp k0 i' s pr by (cases k; simp)+
      then have "i - s = 32 * (k - 1) + (j + 32 - s mod 32)" "s \<le> i" by (simp_all add: p_def)
      moreover from this have "i < n \<Longrightarrow> 32 * (k - 1) + (j + 32 - s mod 32) < n" by linarith
      moreover have "(32 * (k - 1) + (j + 32 - s mod 32)) div 32 = k - 1"
        "(32 * (k - 1) + (j + 32 - s mod 32)) mod 32 = j + 32 - s mod 32"
        using q word_carry [of "j + 32 - s mod 32" "k - 1"] by auto
      ultimately show ?thesis using False k0 by (auto simp: bits_of_def)
    qed
  qed
  finally show ?thesis .
qed

lemma bitmap_shift_left_spec:
  assumes v: "valid_bitmap m dst n" "valid_bitmap m src n" and a: "same_or_apart dst src n"
    and s: "s div 32 \<le> BITS_TO_LONGS n"
  shows "\<exists>m'. bitmap_shift_left m dst src s n = Some m' \<and> only_changes m m' dst (BITS_TO_LONGS n) \<and>
    bits_of m' dst (32 * BITS_TO_LONGS n) = {i. i < n \<and> s \<le> i \<and> i - s \<in> bits_of m src n}"
proof -
  let ?lim = "BITS_TO_LONGS n" and ?off = "s div 32"
  have "\<exists>m'. words_down (shift_left_word src s n) (dst + ?off) (?lim - ?off) m = Some m' \<and>
    only_changes m m' (dst + ?off) (?lim - ?off) \<and> (\<forall>j < ?lim - ?off. m' ! (dst + ?off + j) = shl_value m src s n j)"
  proof (rule words_down_spec)
    fix j m' assume j: "j < ?lim - ?off" and o: "only_changes m m' (dst + ?off + j + 1) (?lim - ?off - (j + 1))"
    show "shift_left_word src s n m' j = Some (shl_value m src s n j)"
    proof (rule shift_left_word_value)
      fix i assume "i \<le> j"
      then show "m' ! (src + i) = m ! (src + i)"
        using o j a by (auto simp: only_changes_def same_or_apart_def)
    qed (use v o j in \<open>auto simp: valid_bitmap_def only_changes_def\<close>)
  qed (use v s in \<open>auto simp: valid_bitmap_def\<close>)
  then obtain m1 where w: "words_down (shift_left_word src s n) (dst + ?off) (?lim - ?off) m = Some m1"
    and o: "only_changes m m1 (dst + ?off) (?lim - ?off)"
    and h: "\<And>j. j < ?lim - ?off \<Longrightarrow> m1 ! (dst + ?off + j) = shl_value m src s n j" by auto
  have "\<exists>r m'. words_loop (\<lambda>m k. Some 0) dst 0 ?off m1 = Some (r, m') \<and>
    only_changes m1 m' (dst + 0) ?off \<and> (\<forall>j. 0 \<le> j \<and> j < 0 + ?off \<longrightarrow> m' ! (dst + j) = 0) \<and>
    (r = 0 \<longleftrightarrow> (\<forall>j. 0 \<le> j \<and> j < 0 + ?off \<longrightarrow> (0::u32) = 0))"
    by (rule words_loop_spec) (use v s only_changes_length [OF o] in \<open>auto simp: valid_bitmap_def\<close>)
  then obtain q m2 where w2: "words_loop (\<lambda>m k. Some 0) dst 0 ?off m1 = Some (q, m2)"
    and o2: "only_changes m1 m2 dst ?off" and z: "\<And>j. j < ?off \<Longrightarrow> m2 ! (dst + j) = 0" by auto
  have e: "bitmap_shift_left m dst src s n = Some m2"
  proof (cases "?off = 0")
    case True
    with w2 show ?thesis using w by (simp add: bitmap_shift_left_def Let_def)
  qed (use w w2 in \<open>simp add: bitmap_shift_left_def Let_def\<close>)
  have oc: "only_changes m m2 dst ?lim"
    by (rule only_changes_trans [OF only_changes_mono [OF o] only_changes_mono [OF o2]]) (use s in auto)
  have "m2 ! (dst + k) = (if k < ?off then 0 else shl_value m src s n (k - ?off))" if "k < ?lim" for k
  proof (cases "k < ?off")
    case False
    then show ?thesis using o2 h [of "k - ?off"] that by (auto simp: only_changes_def)
  qed (simp add: z)
  then have "bits_of m2 dst (32 * ?lim) =
      {i. i < 32 * ?lim \<and> bit (if i div 32 < ?off then 0 else shl_value m src s n (i div 32 - ?off)) (i mod 32)}"
    by (intro bits_of_wordsI) auto
  also have "\<dots> = {i. i < n \<and> s \<le> i \<and> i - s \<in> bits_of m src n}"
  proof (rule Collect_cong)
    fix i
    have i: "i div 32 < ?off \<Longrightarrow> i < s" by (metis div_le_mono not_less)
    have d: "\<not> i div 32 < ?off \<Longrightarrow> i div 32 - ?off + ?off = i div 32" by simp
    show "i < 32 * ?lim \<and> bit (if i div 32 < ?off then 0 else shl_value m src s n (i div 32 - ?off)) (i mod 32)
      \<longleftrightarrow> i < n \<and> s \<le> i \<and> i - s \<in> bits_of m src n"
    proof (cases "i < 32 * ?lim \<and> \<not> i div 32 < ?off")
      case True
      then show ?thesis using bit_shl_value [of "i div 32 - ?off" s n "i mod 32" i m src] d by auto
    qed (use i BITS_TO_LONGS_ge [of n] in auto)
  qed
  finally show ?thesis using e oc by blast
qed

subsection \<open>What setting and clearing runs does\<close>

text \<open>The word after the loop, and what becomes of the bits of a run.\<close>

definition run_end :: "(u32 \<Rightarrow> u32 \<Rightarrow> u32) \<Rightarrow> nat \<Rightarrow> words \<times> nat \<times> nat \<times> u32 \<Rightarrow> words option" where
  "run_end f sz = (\<lambda>(m, p, nr, msk). if nr \<noteq> 0 then do { w \<leftarrow> rdw m p; wrw m p (f w (msk AND BITMAP_LAST_WORD_MASK sz)) } else Some m)"

definition run_bits :: "(bool \<Rightarrow> bool \<Rightarrow> bool) \<Rightarrow> words \<Rightarrow> words \<Rightarrow> nat \<Rightarrow> nat \<Rightarrow> nat \<Rightarrow> bool" where
  "run_bits P m m' a s e \<longleftrightarrow> only_changes m m' a (BITS_TO_LONGS e) \<and>
     (\<forall>q r. r < 32 \<longrightarrow> bit (m' ! (a + q)) r = P (bit (m ! (a + q)) r) (s \<le> 32 * q + r \<and> 32 * q + r < e))"

lemma mask_bits_run:
  "mask_bits f m a start nr = Option.bind (mask_loop f m (a + start div 32) nr (32 - start mod 32) (BITMAP_FIRST_WORD_MASK start))
     (run_end f (start + nr))"
  unfolding mask_bits_def run_end_def Let_def by (rule arg_cong2 [where f = Option.bind]) (auto simp: fun_eq_iff)

text \<open>An operation on words that leaves the bits outside the mask alone.\<close>

locale masking_op = bitwise_op +
  assumes P_False: "P x False = x"
begin

lemma run_bits_update:
  assumes w: "a + w < length m" "w < BITS_TO_LONGS e"
    and r: "\<And>r. r < 32 \<Longrightarrow> bit msk r \<longleftrightarrow> s \<le> 32 * w + r \<and> 32 * w + r < e"
    and o: "\<And>q r. q \<noteq> w \<Longrightarrow> r < 32 \<Longrightarrow> \<not> (s \<le> 32 * q + r \<and> 32 * q + r < e)"
  shows "run_bits P m (m[a + w := f (m ! (a + w)) msk]) a s e"
  unfolding run_bits_def
proof (intro conjI allI impI)
  fix q r :: nat assume r32: "r < 32"
  show "bit (m[a + w := f (m ! (a + w)) msk] ! (a + q)) r = P (bit (m ! (a + q)) r) (s \<le> 32 * q + r \<and> 32 * q + r < e)"
  proof (cases "q = w")
    case False
    from o [OF this r32] have "(s \<le> 32 * q + r \<and> 32 * q + r < e) = False" by simp
    then show ?thesis using False by (simp only: P_False) simp
  qed (use w r [OF r32] r32 in \<open>simp add: bit_f\<close>)
qed (use w in \<open>auto intro: only_changes_update\<close>)

lemma run_bits_empty: "run_bits P m m a s s"
proof -
  have "(s \<le> i \<and> i < s) = False" for i by simp
  then show ?thesis unfolding run_bits_def by (simp only: P_False) simp
qed

lemma run_bits_trans:
  assumes b: "run_bits P m m1 a s e" "run_bits P m1 m2 a e t" and le: "s \<le> e" "e \<le> t"
  shows "run_bits P m m2 a s t"
proof -
  have "only_changes m m2 a (BITS_TO_LONGS t)"
  proof (rule only_changes_trans)
    show "only_changes m m1 a (BITS_TO_LONGS t)"
      by (rule only_changes_mono [of _ _ _ "BITS_TO_LONGS e"])
        (use assms in \<open>auto simp: run_bits_def BITS_TO_LONGS_def div_le_mono\<close>)
  qed (use assms in \<open>simp add: run_bits_def\<close>)
  moreover have "bit (m2 ! (a + q)) r = P (bit (m ! (a + q)) r) (s \<le> 32 * q + r \<and> 32 * q + r < t)" if r: "r < 32" for q r
  proof (cases "32 * q + r < e")
    case True
    then have "(e \<le> 32 * q + r \<and> 32 * q + r < t) = False" "32 * q + r < t" using le by auto
    then show ?thesis using b r True unfolding run_bits_def by (simp add: P_False)
  next
    case False
    then have "(s \<le> 32 * q + r \<and> 32 * q + r < e) = False" "s \<le> 32 * q + r" "e \<le> 32 * q + r" using le by auto
    then show ?thesis using b r False unfolding run_bits_def by (simp add: P_False)
  qed
  ultimately show ?thesis by (simp add: run_bits_def)
qed

lemma mask_loop_bits:
  assumes "0 < b" "b \<le> 32" "32 * w + 32 + nr = sz + b" "a + BITS_TO_LONGS sz \<le> length m"
    and "\<And>r. r < 32 \<Longrightarrow> bit msk r \<longleftrightarrow> 32 \<le> r + b"
  shows "\<exists>m'. Option.bind (mask_loop f m (a + w) nr b msk) (run_end f sz) = Some m' \<and> run_bits P m m' a (32 * w + 32 - b) sz"
  using assms
proof (induction nr arbitrary: w b msk m rule: less_induct)
  case (less nr)
  show ?case
  proof (cases "b \<le> nr")
    case True
    let ?m = "m[a + w := f (m ! (a + w)) msk]"
    have w: "w < BITS_TO_LONGS sz" using lt_BITS_TO_LONGS [of w sz] less.prems True by linarith
    then have l: "a + w < length m" using less.prems by linarith
    have "\<exists>m'. Option.bind (mask_loop f ?m (a + (w + 1)) (nr - b) 32 (NOT 0)) (run_end f sz) = Some m' \<and>
      run_bits P ?m m' a (32 * (w + 1) + 32 - 32) sz"
      by (rule less.IH) (use less.prems True in \<open>auto simp: bit_not_iff\<close>)
    then obtain m' where m': "Option.bind (mask_loop f ?m (a + w + 1) (nr - b) 32 (NOT 0)) (run_end f sz) = Some m'"
      and b: "run_bits P ?m m' a (32 * (w + 1)) sz" by (auto simp: add.assoc)
    have "run_bits P m ?m a (32 * w + 32 - b) (32 * (w + 1))"
    proof (rule run_bits_update)
      fix q r :: nat assume "q \<noteq> w" "r < 32"
      then show "\<not> (32 * w + 32 - b \<le> 32 * q + r \<and> 32 * q + r < 32 * (w + 1))"
        using less.prems(1,2) by (cases q w rule: linorder_cases) auto
    qed (use l less.prems lt_BITS_TO_LONGS [of w "32 * (w + 1)"] in auto)
    then have "run_bits P m m' a (32 * w + 32 - b) sz"
      by (rule run_bits_trans [OF _ b]) (use less.prems True in simp_all)
    then show ?thesis using m' True l by (subst mask_loop.simps) (simp add: rdw_Some wrw_Some)
  next
    case False
    then have e: "mask_loop f m (a + w) nr b msk = Some (m, a + w, nr, msk)" by (subst mask_loop.simps) simp
    show ?thesis
    proof (cases "nr = 0")
      case True
      then have "32 * w + 32 - b = sz" using less.prems by linarith
      then show ?thesis using e True by (simp add: run_end_def run_bits_empty)
    next
      case nr: False
      have sz: "sz = 32 * w + (32 + nr - b)" and lt: "32 + nr - b < 32" using less.prems False by linarith+
      have m: "sz mod 32 = 32 + nr - b" unfolding sz using lt by simp
      have w: "w < BITS_TO_LONGS sz" using lt_BITS_TO_LONGS [of w sz] sz nr less.prems(2) by linarith
      then have l: "a + w < length m" using less.prems by linarith
      have "run_bits P m (m[a + w := f (m ! (a + w)) (msk AND BITMAP_LAST_WORD_MASK sz)]) a (32 * w + 32 - b) sz"
      proof (rule run_bits_update)
        fix r :: nat assume r: "r < 32"
        have "bit (msk AND BITMAP_LAST_WORD_MASK sz) r \<longleftrightarrow> 32 \<le> r + b \<and> r < 32 + nr - b"
          unfolding bit_and_iff bit_LAST_WORD_MASK m using less.prems(2) less.prems(5) [OF r] r nr by auto
        also have "\<dots> \<longleftrightarrow> 32 * w + 32 - b \<le> 32 * w + r \<and> 32 * w + r < sz"
          unfolding sz using less.prems(1,2) by auto
        finally show "bit (msk AND BITMAP_LAST_WORD_MASK sz) r \<longleftrightarrow> 32 * w + 32 - b \<le> 32 * w + r \<and> 32 * w + r < sz" .
      next
        fix q r :: nat assume "q \<noteq> w" "r < 32"
        then show "\<not> (32 * w + 32 - b \<le> 32 * q + r \<and> 32 * q + r < sz)"
          using less.prems(1,2) sz lt by (cases q w rule: linorder_cases) auto
      qed (use l w in auto)
      then show ?thesis using e nr l by (simp add: run_end_def rdw_Some wrw_Some)
    qed
  qed
qed

lemma mask_bits_spec:
  assumes "valid_bitmap m a n" "start + nr \<le> n"
  shows "\<exists>m'. mask_bits f m a start nr = Some m' \<and> run_bits P m m' a start (start + nr)"
proof -
  have "a + BITS_TO_LONGS (start + nr) \<le> length m"
    using assms div_le_mono [of "start + nr + 31" "n + 31" 32] by (auto simp: valid_bitmap_def BITS_TO_LONGS_def)
  moreover have "32 * (start div 32) + 32 + nr = start + nr + (32 - start mod 32)"
    using mult_div_mod_eq [of 32 start] mod_less_divisor [of 32 start] by linarith
  ultimately have "\<exists>m'. Option.bind (mask_loop f m (a + start div 32) nr (32 - start mod 32) (BITMAP_FIRST_WORD_MASK start))
      (run_end f (start + nr)) = Some m' \<and> run_bits P m m' a (32 * (start div 32) + 32 - (32 - start mod 32)) (start + nr)"
    by (intro mask_loop_bits) (auto simp: bit_FIRST_WORD_MASK)
  then show ?thesis unfolding mask_bits_run by simp
qed

end

interpretation or_mask: masking_op "(OR)" "(\<or>)"
  by unfold_locales simp

interpretation andnot_mask: masking_op "\<lambda>x y. x AND NOT y" "\<lambda>p q. p \<and> \<not> q"
  by unfold_locales simp

lemma run_bits_bits_of: "run_bits P m m' a s e \<Longrightarrow> bits_of m' a n = {i. i < n \<and> P (i \<in> bits_of m a n) (s \<le> i \<and> i < e)}"
proof -
  assume r: "run_bits P m m' a s e"
  have "bit (m' ! (a + i div 32)) (i mod 32) = P (bit (m ! (a + i div 32)) (i mod 32)) (s \<le> i \<and> i < e)" for i
  proof -
    have "i mod 32 < 32" by simp
    with r have "bit (m' ! (a + i div 32)) (i mod 32) = P (bit (m ! (a + i div 32)) (i mod 32))
        (s \<le> 32 * (i div 32) + i mod 32 \<and> 32 * (i div 32) + i mod 32 < e)" unfolding run_bits_def by blast
    then show ?thesis unfolding mult_div_mod_eq .
  qed
  then show ?thesis unfolding bits_of_def by (simp cong: conj_cong)
qed

lemma bitmap_set_spec:
  assumes "valid_bitmap m a n" "start + nr \<le> n"
  shows "\<exists>m'. bitmap_set m a start nr = Some m' \<and> only_changes m m' a (BITS_TO_LONGS (start + nr)) \<and>
    (\<forall>n. bits_of m' a n = bits_of m a n \<union> ({start..<start + nr} \<inter> {..<n}))"
proof -
  obtain m' where "bitmap_set m a start nr = Some m'" and r: "run_bits (\<or>) m m' a start (start + nr)"
    using or_mask.mask_bits_spec [OF assms] unfolding bitmap_set_def by blast
  with run_bits_bits_of [OF r] show ?thesis by (auto simp: run_bits_def bits_of_def)
qed

lemma bitmap_clear_spec:
  assumes "valid_bitmap m a n" "start + nr \<le> n"
  shows "\<exists>m'. bitmap_clear m a start nr = Some m' \<and> only_changes m m' a (BITS_TO_LONGS (start + nr)) \<and>
    (\<forall>n. bits_of m' a n = bits_of m a n - {start..<start + nr})"
proof -
  obtain m' where "bitmap_clear m a start nr = Some m'"
    and r: "run_bits (\<lambda>p q. p \<and> \<not> q) m m' a start (start + nr)"
    using andnot_mask.mask_bits_spec [OF assms] unfolding bitmap_clear_def by blast
  with run_bits_bits_of [OF r] show ?thesis by (auto simp: run_bits_def bits_of_def)
qed

subsection \<open>Properties\<close>

text \<open>The tests. Whether a bitmap is empty, full, equal to another, meets it or is contained in it is decided as
  on the sets the bitmaps stand for, whatever the unused bits of the last words hold.\<close>

theorem bitmap_tests_on_sets:
  assumes "valid_bitmap m a n" and "valid_bitmap m b n"
  shows "bitmap_empty m a n = Some (bits_of m a n = {}) \<and>
    bitmap_full m a n = Some (bits_of m a n = {..<n}) \<and>
    bitmap_equal m a b n = Some (bits_of m a n = bits_of m b n) \<and>
    bitmap_intersects m a b n = Some (bits_of m a n \<inter> bits_of m b n \<noteq> {}) \<and>
    bitmap_subset m a b n = Some (bits_of m a n \<subseteq> bits_of m b n)"
  using assms by (simp add: bitmap_empty_iff bitmap_full_iff bitmap_equal_iff bitmap_intersects_iff bitmap_subset_iff)

theorem bitmap_tests_on_sets_witness:
  "bitmap_equal [5, 7, 5, 3] 0 2 34 = Some (bits_of [5, 7, 5, 3] 0 34 = bits_of [5, 7, 5, 3] 2 34)
   \<and> bitmap_equal [5, 7, 5, 3] 0 2 34 = Some True"
  using bitmap_tests_on_sets [of "[5, 7, 5, 3]" 0 34 2]
  by (simp add: valid_bitmap_def BITS_TO_LONGS_def) code_simp

text \<open>C30. The set operations. Intersection, union, symmetric difference, difference and complement compute the set
  their name says into the destination, which may be one of the operands, and write nothing else. A bitmap whose
  unused bits are zero is made from such bitmaps, and then the results of intersection and difference tell
  whether the set is empty.\<close>

theorem bitmap_operations_on_sets:
  assumes "valid_bitmap m dst n" and "valid_bitmap m a n" and "valid_bitmap m b n"
    and "same_or_apart dst a n" and "same_or_apart dst b n"
  shows "(\<exists>r m'. bitmap_and m dst a b n = Some (r, m') \<and> only_changes m m' dst (BITS_TO_LONGS n) \<and>
      bits_of m' dst n = bits_of m a n \<inter> bits_of m b n \<and>
      (clean_bitmap m a n \<or> clean_bitmap m b n \<longrightarrow> clean_bitmap m' dst n \<and> r = (bits_of m' dst n \<noteq> {}))) \<and>
    (\<exists>m'. bitmap_or m dst a b n = Some m' \<and> only_changes m m' dst (BITS_TO_LONGS n) \<and>
      bits_of m' dst n = bits_of m a n \<union> bits_of m b n \<and>
      (clean_bitmap m a n \<and> clean_bitmap m b n \<longrightarrow> clean_bitmap m' dst n)) \<and>
    (\<exists>m'. bitmap_xor m dst a b n = Some m' \<and> only_changes m m' dst (BITS_TO_LONGS n) \<and>
      bits_of m' dst n = (bits_of m a n - bits_of m b n) \<union> (bits_of m b n - bits_of m a n) \<and>
      (clean_bitmap m a n \<and> clean_bitmap m b n \<longrightarrow> clean_bitmap m' dst n)) \<and>
    (\<exists>r m'. bitmap_andnot m dst a b n = Some (r, m') \<and> only_changes m m' dst (BITS_TO_LONGS n) \<and>
      bits_of m' dst n = bits_of m a n - bits_of m b n \<and>
      (clean_bitmap m a n \<longrightarrow> clean_bitmap m' dst n \<and> r = (bits_of m' dst n \<noteq> {}))) \<and>
    (\<exists>m'. bitmap_complement m dst a n = Some m' \<and> only_changes m m' dst (BITS_TO_LONGS n) \<and>
      bits_of m' dst n = {..<n} - bits_of m a n \<and> clean_bitmap m' dst n)"
proof (intro conjI)
  show "\<exists>m'. bitmap_complement m dst a n = Some m' \<and> only_changes m m' dst (BITS_TO_LONGS n) \<and>
      bits_of m' dst n = {..<n} - bits_of m a n \<and> clean_bitmap m' dst n"
    by (rule bitmap_complement_spec [OF assms(1,2,4)]) blast
qed (rule bitmap_and_spec bitmap_or_spec bitmap_xor_spec bitmap_andnot_spec, rule assms, rule assms, rule assms, rule assms, rule assms)+

theorem bitmap_operations_on_sets_witness:
  "\<exists>r m'. bitmap_and [5, 1, 6, 1] 0 0 2 33 = Some (r, m') \<and>
     bits_of m' 0 33 = bits_of [5, 1, 6, 1] 0 33 \<inter> bits_of [5, 1, 6, 1] 2 33"
  using bitmap_operations_on_sets [of "[5, 1, 6, 1]" 0 33 0 2]
  by (auto simp: valid_bitmap_def same_or_apart_def BITS_TO_LONGS_def)

text \<open>The result of \<open>bitmap_and\<close> also looks at the unused bits: here both bitmaps stand for the empty set.\<close>

lemma bitmap_and_result_counts_unused_bits:
  "bitmap_and [0x80, 0x80, 0] 2 0 1 4 = Some (True, [0x80, 0x80, 0x80]) \<and>
   bits_of [0x80, 0x80, 0] 0 4 \<inter> bits_of [0x80, 0x80, 0] 1 4 = {}"
proof
  show "bitmap_and [0x80, 0x80, 0] 2 0 1 4 = Some (True, [0x80, 0x80, 0x80])" by code_simp
  have "bitmap_intersects [0x80, 0x80, 0] 0 1 4 = Some False" by code_simp
  then show "bits_of [0x80, 0x80, 0] 0 4 \<inter> bits_of [0x80, 0x80, 0] 1 4 = {}"
    by (subst (asm) bitmap_intersects_iff) (auto simp: valid_bitmap_def BITS_TO_LONGS_def)
qed

text \<open>The shifts. A shift by at most the words of the bitmap moves every bit by the distance and drops those that
  leave it, in place too; the unused bits of the source do not enter and those of the destination come out zero.\<close>

theorem bitmap_shifts_move_bits:
  assumes "valid_bitmap m dst n" and "valid_bitmap m src n" and "same_or_apart dst src n"
    and "shift div 32 \<le> BITS_TO_LONGS n"
  shows "(\<exists>m'. bitmap_shift_right m dst src shift n = Some m' \<and> only_changes m m' dst (BITS_TO_LONGS n) \<and>
      bits_of m' dst n = {i. i + shift \<in> bits_of m src n} \<and> clean_bitmap m' dst n) \<and>
    (\<exists>m'. bitmap_shift_left m dst src shift n = Some m' \<and> only_changes m m' dst (BITS_TO_LONGS n) \<and>
      bits_of m' dst n = (\<lambda>i. i + shift) ` bits_of m src n \<inter> {..<n} \<and> clean_bitmap m' dst n)"
proof (intro conjI)
  obtain m' where m': "bitmap_shift_right m dst src shift n = Some m'" "only_changes m m' dst (BITS_TO_LONGS n)"
    "bits_of m' dst (32 * BITS_TO_LONGS n) = {i. i + shift \<in> bits_of m src n}"
    using bitmap_shift_right_spec [OF assms] by blast
  have "{i. i + shift \<in> bits_of m src n} \<subseteq> {..<n}" by (auto simp: bits_of_def)
  with m' show "\<exists>m'. bitmap_shift_right m dst src shift n = Some m' \<and> only_changes m m' dst (BITS_TO_LONGS n) \<and>
      bits_of m' dst n = {i. i + shift \<in> bits_of m src n} \<and> clean_bitmap m' dst n"
    by (auto simp: clean_bitmap_def bits_of_restrict [of m' dst n])
  obtain m' where m': "bitmap_shift_left m dst src shift n = Some m'" "only_changes m m' dst (BITS_TO_LONGS n)"
    "bits_of m' dst (32 * BITS_TO_LONGS n) = {i. i < n \<and> shift \<le> i \<and> i - shift \<in> bits_of m src n}"
    using bitmap_shift_left_spec [OF assms] by blast
  have "{i. i < n \<and> shift \<le> i \<and> i - shift \<in> bits_of m src n} = (\<lambda>i. i + shift) ` bits_of m src n \<inter> {..<n}"
  proof
    show "{i. i < n \<and> shift \<le> i \<and> i - shift \<in> bits_of m src n} \<subseteq> (\<lambda>i. i + shift) ` bits_of m src n \<inter> {..<n}"
      by (auto intro: rev_image_eqI)
  qed auto
  with m' show "\<exists>m'. bitmap_shift_left m dst src shift n = Some m' \<and> only_changes m m' dst (BITS_TO_LONGS n) \<and>
      bits_of m' dst n = (\<lambda>i. i + shift) ` bits_of m src n \<inter> {..<n} \<and> clean_bitmap m' dst n"
    by (auto simp: clean_bitmap_def bits_of_restrict [of m' dst n])
qed

theorem bitmap_shifts_move_bits_witness:
  "\<exists>m'. bitmap_shift_left [5, 1, 6] 0 0 35 70 = Some m' \<and>
     bits_of m' 0 70 = (\<lambda>i. i + 35) ` bits_of [5, 1, 6] 0 70 \<inter> {..<70}"
  using bitmap_shifts_move_bits [of "[5, 1, 6]" 0 70 0 35]
  by (auto simp: valid_bitmap_def same_or_apart_def BITS_TO_LONGS_def)

text \<open>A shift beyond the words of the bitmap clears words in front of it.\<close>

lemma bitmap_shift_right_clears_in_front:
  "bitmap_shift_right [1, 1, 1, 1] 2 2 96 32 = Some [0, 0, 0, 1]"
  by code_simp

text \<open>Runs of bits. Setting a run adds exactly the positions of the run to the set and clearing it removes exactly
  these; no word that has no bit of the run or before it is written.\<close>

theorem bitmap_runs_set_and_clear:
  assumes "valid_bitmap m a n" and "start + nr \<le> n"
  shows "(\<exists>m'. bitmap_set m a start nr = Some m' \<and> only_changes m m' a (BITS_TO_LONGS (start + nr)) \<and>
      bits_of m' a n = bits_of m a n \<union> {start..<start + nr}) \<and>
    (\<exists>m'. bitmap_clear m a start nr = Some m' \<and> only_changes m m' a (BITS_TO_LONGS (start + nr)) \<and>
      bits_of m' a n = bits_of m a n - {start..<start + nr})"
proof -
  have "{start..<start + nr} \<inter> {..<n} = {start..<start + nr}" using assms(2) by auto
  with bitmap_set_spec [OF assms] bitmap_clear_spec [OF assms] show ?thesis by (intro conjI) force+
qed

theorem bitmap_runs_set_and_clear_witness:
  "\<exists>m'. bitmap_set [5, 1, 6] 0 30 40 = Some m' \<and> bits_of m' 0 90 = bits_of [5, 1, 6] 0 90 \<union> {30..<70}"
  using bitmap_runs_set_and_clear [of "[5, 1, 6]" 0 90 30 40] by (auto simp: valid_bitmap_def BITS_TO_LONGS_def)

end
