(* ===== verification/BitSearch.thy ===== *)
theory BitSearch
  imports Bitmap
begin

text \<open>
  Searching bitmaps (\<^verbatim>\<open>lib/find_next_bit.c\<close>, and the users of it in \<^verbatim>\<open>lib/bitmap.c\<close>): the next set or clear bit, areas of
  clear bits and the allocator of aligned regions. The generic
  searches in C are modelled; they promise what the locale \<open>bit_finder\<close> states, which is all the other routines
  rely on, so that an implementation in assembly can take their place.
\<close>

subsection \<open>The first bit of a word (include/asm-generic/bitops/__ffs.h)\<close>

definition ffs_half :: "nat \<Rightarrow> u32 \<Rightarrow> nat \<times> u32 \<Rightarrow> nat \<times> u32" where
  "ffs_half k low = (\<lambda>(num, word). if word AND low = 0 then (num + k, drop_bit k word) else (num, word))"

definition ffs_word :: "u32 \<Rightarrow> nat" where
  "ffs_word word =
     (case ffs_half 2 0x3 (ffs_half 4 0xf (ffs_half 8 0xff (ffs_half 16 0xffff (0, word)))) of
        (num, word) \<Rightarrow> if word AND 0x1 = 0 then num + 1 else num)"

definition ffz_word :: "u32 \<Rightarrow> nat" where
  "ffz_word x = ffs_word (NOT x)"

subsection \<open>The next set bit and the next clear bit\<close>

text \<open>The tail of \<open>find_next_bit\<close> from the label \<open>found_first\<close> on, and the loop over whole words with the test of the last
  one. \<open>size\<close> and \<open>result\<close> are bit counts of a bitmap in memory, which are far from wrapping.\<close>

definition found_first :: "u32 \<Rightarrow> nat \<Rightarrow> nat \<Rightarrow> nat" where
  "found_first tmp result sz =
     (let tmp = tmp AND drop_bit (BITS_PER_LONG - sz) (NOT 0) in
      if tmp = 0 then result + sz else result + ffs_word tmp)"

fun find_loop :: "words \<Rightarrow> nat \<Rightarrow> nat \<Rightarrow> nat \<Rightarrow> nat option" where
  "find_loop m p result sz =
     (if sz \<ge> BITS_PER_LONG then
        (case rdw m p of None \<Rightarrow> None
         | Some tmp \<Rightarrow> if tmp \<noteq> 0 then Some (result + ffs_word tmp)
             else find_loop m (p + 1) (result + BITS_PER_LONG) (sz - BITS_PER_LONG))
      else if sz = 0 then Some result
      else map_option (\<lambda>tmp. found_first tmp result sz) (rdw m p))"

declare find_loop.simps [simp del]

definition find_next_bit :: "words \<Rightarrow> nat \<Rightarrow> nat \<Rightarrow> nat \<Rightarrow> nat option" where
  "find_next_bit m addr sz offset =
     (let p = addr + offset div BITS_PER_LONG; result = offset - offset mod BITS_PER_LONG in
      if offset \<ge> sz then Some sz
      else
        let sz = sz - result; offset = offset mod BITS_PER_LONG in
        if offset \<noteq> 0 then
          (case rdw m p of None \<Rightarrow> None
           | Some tmp \<Rightarrow>
             (let tmp = tmp AND push_bit offset (NOT 0) in
              if sz < BITS_PER_LONG then Some (found_first tmp result sz)
              else if tmp \<noteq> 0 then Some (result + ffs_word tmp)
              else find_loop m (p + 1) (result + BITS_PER_LONG) (sz - BITS_PER_LONG)))
        else find_loop m p result sz)"

definition found_first_zero :: "u32 \<Rightarrow> nat \<Rightarrow> nat \<Rightarrow> nat" where
  "found_first_zero tmp result sz =
     (let tmp = tmp OR push_bit sz (NOT 0) in
      if tmp = NOT 0 then result + sz else result + ffz_word tmp)"

fun find_zero_loop :: "words \<Rightarrow> nat \<Rightarrow> nat \<Rightarrow> nat \<Rightarrow> nat option" where
  "find_zero_loop m p result sz =
     (if sz \<ge> BITS_PER_LONG then
        (case rdw m p of None \<Rightarrow> None
         | Some tmp \<Rightarrow> if NOT tmp \<noteq> 0 then Some (result + ffz_word tmp)
             else find_zero_loop m (p + 1) (result + BITS_PER_LONG) (sz - BITS_PER_LONG))
      else if sz = 0 then Some result
      else map_option (\<lambda>tmp. found_first_zero tmp result sz) (rdw m p))"

declare find_zero_loop.simps [simp del]

definition find_next_zero_bit :: "words \<Rightarrow> nat \<Rightarrow> nat \<Rightarrow> nat \<Rightarrow> nat option" where
  "find_next_zero_bit m addr sz offset =
     (let p = addr + offset div BITS_PER_LONG; result = offset - offset mod BITS_PER_LONG in
      if offset \<ge> sz then Some sz
      else
        let sz = sz - result; offset = offset mod BITS_PER_LONG in
        if offset \<noteq> 0 then
          (case rdw m p of None \<Rightarrow> None
           | Some tmp \<Rightarrow>
             (let tmp = tmp OR drop_bit (BITS_PER_LONG - offset) (NOT 0) in
              if sz < BITS_PER_LONG then Some (found_first_zero tmp result sz)
              else if NOT tmp \<noteq> 0 then Some (result + ffz_word tmp)
              else find_zero_loop m (p + 1) (result + BITS_PER_LONG) (sz - BITS_PER_LONG)))
        else find_zero_loop m p result sz)"

definition find_first_bit :: "words \<Rightarrow> nat \<Rightarrow> nat \<Rightarrow> nat option" where
  "find_first_bit m addr sz = find_loop m addr 0 sz"

definition find_first_zero_bit :: "words \<Rightarrow> nat \<Rightarrow> nat \<Rightarrow> nat option" where
  "find_first_zero_bit m addr sz = find_zero_loop m addr 0 sz"

subsection \<open>What the searches find\<close>

text \<open>The first element of a set from a position on, or the size if there is none.\<close>

definition is_next :: "nat set \<Rightarrow> nat \<Rightarrow> nat \<Rightarrow> nat \<Rightarrow> bool" where
  "is_next S n off r \<longleftrightarrow> r \<le> n \<and> (\<forall>i \<in> S. off \<le> i \<longrightarrow> r \<le> i) \<and> (r < n \<longrightarrow> off \<le> r \<and> r \<in> S)"

lemma is_next_unique: "S \<subseteq> {..<n} \<Longrightarrow> is_next S n off r \<Longrightarrow> is_next S n off r' \<Longrightarrow> r = r'"
  unfolding is_next_def by (metis antisym_conv2 le_neq_implies_less order_antisym)

lemma bits_of_sub [simp]: "bits_of m a n \<subseteq> {..<n}"
  by (auto simp: bits_of_def)

text \<open>One halving step: if the low half is zero, the first bit is in the high half.\<close>

definition first_bit :: "u32 \<Rightarrow> nat \<Rightarrow> bool" where
  "first_bit w i \<longleftrightarrow> bit w i \<and> (\<forall>j < i. \<not> bit w j)"

lemma halve_zero:
  assumes "w AND mask k = 0" "first_bit (drop_bit k w) i"
  shows "first_bit w (k + i)"
proof -
  have low: "\<not> bit w j" if "j < k" for j
  proof -
    have "\<not> bit (w AND mask k) j" by (simp add: assms(1))
    with that show ?thesis by (auto simp: bit_and_iff bit_mask_iff dest: bit_imp_le_length)
  qed
  show ?thesis unfolding first_bit_def
  proof (intro conjI allI impI)
    fix j assume j: "j < k + i"
    show "\<not> bit w j"
    proof (cases "j < k")
      case False
      with j have "j - k < i" by simp
      with assms(2) have "\<not> bit (drop_bit k w) (j - k)" by (simp add: first_bit_def)
      with False show ?thesis by (simp add: bit_drop_bit_eq)
    qed (rule low)
  qed (use assms(2) in \<open>simp add: first_bit_def bit_drop_bit_eq\<close>)
qed

lemma ffs_step:
  assumes "\<exists>j < 2 * k. bit (w::u32) j" and "w' = (if w AND mask k = 0 then drop_bit k w else w)"
  shows "\<exists>j < k. bit w' j" and "first_bit w' i \<Longrightarrow> first_bit w ((if w AND mask k = 0 then k else 0) + i)"
proof -
  obtain j where j: "j < 2 * k" "bit w j" using assms(1) by blast
  show "\<exists>j < k. bit w' j"
  proof (cases "w AND mask k = 0")
    case True
    then have "\<not> bit (w AND mask k) j" by simp
    with j(2) have "k \<le> j" by (auto simp: bit_and_iff bit_mask_iff dest: bit_imp_le_length)
    with j True assms(2) show ?thesis by (intro exI [of _ "j - k"]) (auto simp: bit_drop_bit_eq)
  next
    case False
    then obtain j where "bit (w AND mask k) j" by (auto simp: bit_eq_iff)
    with False assms(2) show ?thesis by (auto simp: bit_and_iff bit_mask_iff)
  qed
qed (use assms in \<open>auto split: if_splits intro: halve_zero\<close>)

lemma ffs_masks: "0xffff = (mask 16 :: u32)" "0xff = (mask 8 :: u32)" "0xf = (mask 4 :: u32)" "0x3 = (mask 2 :: u32)" "0x1 = (mask 1 :: u32)"
  by (simp_all add: mask_eq_exp_minus_1)

lemma ffs_half_eq:
  "ffs_half k low (num, w) = (num + (if w AND low = 0 then k else 0), if w AND low = 0 then drop_bit k w else w)"
  by (simp add: ffs_half_def)

lemma ffs_word_first:
  assumes "w \<noteq> 0"
  shows "first_bit w (ffs_word w)"
proof -
  define w4 where "w4 = (if w AND mask 16 = 0 then drop_bit 16 w else w)"
  define w3 where "w3 = (if w4 AND mask 8 = 0 then drop_bit 8 w4 else w4)"
  define w2 where "w2 = (if w3 AND mask 4 = 0 then drop_bit 4 w3 else w3)"
  define w1 where "w1 = (if w2 AND mask 2 = 0 then drop_bit 2 w2 else w2)"
  define w0 where "w0 = (if w1 AND mask 1 = 0 then drop_bit 1 w1 else w1)"
  have "\<exists>j < 2 * 16. bit w j" using assms by (auto simp: word32_zero_iff)
  note s4 = ffs_step [OF this w4_def]
  have "\<exists>j < 2 * 8. bit w4 j" using s4(1) by simp
  note s3 = ffs_step [OF this w3_def]
  have "\<exists>j < 2 * 4. bit w3 j" using s3(1) by simp
  note s2 = ffs_step [OF this w2_def]
  have "\<exists>j < 2 * 2. bit w2 j" using s2(1) by simp
  note s1 = ffs_step [OF this w1_def]
  have "\<exists>j < 2 * 1. bit w1 j" using s1(1) by simp
  note s0 = ffs_step [OF this w0_def]
  have "first_bit w0 0" using s0(1) by (auto simp: first_bit_def)
  note f = s4(2) [OF s3(2) [OF s2(2) [OF s1(2) [OF s0(2) [OF this]]]]]
  have "ffs_word w = (if w AND mask 16 = 0 then 16 else 0) + ((if w4 AND mask 8 = 0 then 8 else 0) +
    ((if w3 AND mask 4 = 0 then 4 else 0) + ((if w2 AND mask 2 = 0 then 2 else 0) + ((if w1 AND mask 1 = 0 then 1 else 0) + 0))))"
    unfolding ffs_word_def ffs_masks ffs_half_eq prod.case w1_def [symmetric] w2_def [symmetric] w3_def [symmetric] w4_def [symmetric]
    by simp
  then show ?thesis using f by simp
qed

lemma is_next_in_word:
  assumes S: "S \<subseteq> {..<n}" and f: "first_bit w f" and k: "32 * k \<le> off"
    and w: "\<And>j. j < 32 \<Longrightarrow> bit w j \<longleftrightarrow> off \<le> 32 * k + j \<and> 32 * k + j \<in> S"
  shows "is_next S n off (32 * k + f)"
proof -
  have f32: "f < 32" using f by (auto simp: first_bit_def dest: bit_imp_le_length)
  have r: "off \<le> 32 * k + f" "32 * k + f \<in> S" using w [OF f32] f by (auto simp: first_bit_def)
  have "32 * k + f \<le> i" if i: "i \<in> S" "off \<le> i" for i
  proof (cases "i < 32 * k + 32")
    case True
    define j where "j = i - 32 * k"
    have j: "i = 32 * k + j" "j < 32" using True i k by (auto simp: j_def)
    with w [OF j(2)] i have "bit w j" by simp
    with f have "f \<le> j" by (metis first_bit_def not_le)
    with j show ?thesis by simp
  qed (use f32 in simp)
  with r S show ?thesis by (auto simp: is_next_def)
qed

lemma is_next_skip:
  assumes "is_next S n off' r" "off \<le> off'" "\<And>i. i \<in> S \<Longrightarrow> off \<le> i \<Longrightarrow> off' \<le> i"
  shows "is_next S n off r"
  using assms by (auto simp: is_next_def)

lemma is_next_none: "S \<subseteq> {..<n} \<Longrightarrow> (\<And>i. i \<in> S \<Longrightarrow> \<not> off \<le> i) \<Longrightarrow> is_next S n off n"
  by (auto simp: is_next_def)

lemma bit_low_ones: "sz \<le> 32 \<Longrightarrow> bit (drop_bit (32 - sz) (NOT 0) :: u32) j \<longleftrightarrow> j < sz"
  by (auto simp: bit_drop_bit_eq bit_not_iff bit_mask_iff)

lemma bits_of_word:
  "j < 32 \<Longrightarrow> 32 * k + j \<in> bits_of m a n \<longleftrightarrow> 32 * k + j < n \<and> bit (m ! (a + k)) j"
  by (simp add: bits_of_def)

text \<open>The last word, and a word that has bits from the offset on.\<close>

lemma found_first_is_next:
  assumes n: "n = 32 * k + sz" "sz < 32" and k: "32 * k \<le> off"
    and w: "\<And>j. j < 32 \<Longrightarrow> bit tmp j \<longleftrightarrow> off \<le> 32 * k + j \<and> bit (m ! (a + k)) j"
  shows "is_next (bits_of m a n) n off (found_first tmp (32 * k) sz)"
proof -
  let ?t = "tmp AND drop_bit (32 - sz) (NOT 0)"
  have b: "bit ?t j \<longleftrightarrow> off \<le> 32 * k + j \<and> 32 * k + j \<in> bits_of m a n" if "j < 32" for j
    using w [OF that] n bit_low_ones [of sz j] bits_of_word [OF that, of k m a n] by (auto simp: bit_and_iff)
  show ?thesis
  proof (cases "?t = 0")
    case True
    have "\<not> off \<le> i" if i: "i \<in> bits_of m a n" for i
    proof
      assume "off \<le> i"
      define j where "j = i - 32 * k"
      have j: "i = 32 * k + j" "j < 32" using \<open>off \<le> i\<close> i k n by (auto simp: j_def bits_of_def)
      with b [OF j(2)] i \<open>off \<le> i\<close> True show False by simp
    qed
    then have "is_next (bits_of m a n) n off n" by (intro is_next_none) auto
    then show ?thesis using True n by (simp add: found_first_def)
  next
    case False
    then have "is_next (bits_of m a n) n off (32 * k + ffs_word ?t)"
      by (intro is_next_in_word [OF _ ffs_word_first k b]) auto
    then show ?thesis using False by (simp add: found_first_def)
  qed
qed

lemma skip_word:
  assumes "\<And>j::nat. j < 32 \<Longrightarrow> 32 * k + j \<in> S \<Longrightarrow> \<not> off \<le> 32 * k + j" "32 * k \<le> off" "i \<in> S" "off \<le> i"
  shows "32 * (k + 1) \<le> i"
proof (rule ccontr)
  assume "\<not> 32 * (k + 1) \<le> i"
  then have "i - 32 * k < 32" "i = 32 * k + (i - 32 * k)" using assms(2,4) by auto
  with assms(1) [of "i - 32 * k"] assms(3,4) show False by simp
qed

lemma find_loop_spec:
  assumes "a + BITS_TO_LONGS n \<le> length m" "n = 32 * k + sz"
  shows "\<exists>r. find_loop m (a + k) (32 * k) sz = Some r \<and> is_next (bits_of m a n) n (32 * k) r"
  using assms
proof (induction sz arbitrary: k rule: less_induct)
  case (less sz)
  show ?case
  proof (cases "sz = 0")
    case True
    with less.prems have "is_next (bits_of m a n) n (32 * k) n" by (intro is_next_none) (auto simp: bits_of_def)
    with True less.prems show ?thesis by (subst find_loop.simps) simp
  next
    case False
    then have "k < BITS_TO_LONGS n" using less.prems lt_BITS_TO_LONGS [of k n] by simp
    then have rd: "rdw m (a + k) = Some (m ! (a + k))" using less.prems by (simp add: rdw_Some)
    show ?thesis
    proof (cases "32 \<le> sz")
      case True
      then have w: "bit (m ! (a + k)) j \<longleftrightarrow> 32 * k \<le> 32 * k + j \<and> 32 * k + j \<in> bits_of m a n" if "j < 32" for j
        using that less.prems bits_of_word [OF that] by simp
      show ?thesis
      proof (cases "m ! (a + k) = 0")
        case m0: True
        have "\<exists>r. find_loop m (a + (k + 1)) (32 * (k + 1)) (sz - 32) = Some r \<and> is_next (bits_of m a n) n (32 * (k + 1)) r"
          by (rule less.IH) (use True less.prems in auto)
        then obtain r where r: "find_loop m (a + (k + 1)) (32 * (k + 1)) (sz - 32) = Some r"
          and nx: "is_next (bits_of m a n) n (32 * (k + 1)) r" by blast
        have "is_next (bits_of m a n) n (32 * k) r"
          by (rule is_next_skip [OF nx _ skip_word]) (use w m0 in auto)
        then show ?thesis using True rd r m0 by (subst find_loop.simps) (simp add: add.commute add.left_commute)
      next
        case m0: False
        then have "is_next (bits_of m a n) n (32 * k) (32 * k + ffs_word (m ! (a + k)))"
          by (intro is_next_in_word [OF _ ffs_word_first _ w]) auto
        then show ?thesis using True rd m0 by (subst find_loop.simps) simp
      qed
    next
      case lt: False
      then have "is_next (bits_of m a n) n (32 * k) (found_first (m ! (a + k)) (32 * k) sz)"
        using less.prems by (intro found_first_is_next) auto
      then show ?thesis using lt False rd by (subst find_loop.simps) simp
    qed
  qed
qed

lemma find_next_bit_spec:
  assumes "valid_bitmap m a n"
  shows "\<exists>r. find_next_bit m a n off = Some r \<and> is_next (bits_of m a n) n off r"
proof (cases "off < n")
  case False
  then have "is_next (bits_of m a n) n off n" by (intro is_next_none) (auto simp: bits_of_def)
  with False show ?thesis by (simp add: find_next_bit_def)
next
  case True
  define k where "k = off div 32"
  define o' where "o' = off mod 32"
  have off: "off = 32 * k + o'" "o' < 32" by (simp_all add: k_def o'_def)
  have res: "off - off mod 32 = 32 * k" by (simp add: k_def minus_mod_eq_mult_div)
  define sz where "sz = n - 32 * k"
  have n: "n = 32 * k + sz" "0 < sz" using True off by (simp_all add: sz_def)
  have "k < BITS_TO_LONGS n" using lt_BITS_TO_LONGS [of k n] n by simp
  then have rd: "rdw m (a + k) = Some (m ! (a + k))" using assms by (simp add: valid_bitmap_def rdw_Some)
  have e: "find_next_bit m a n off = (if o' \<noteq> 0 then
      (let tmp = m ! (a + k) AND push_bit o' (NOT 0) in
       if sz < 32 then Some (found_first tmp (32 * k) sz)
       else if tmp \<noteq> 0 then Some (32 * k + ffs_word tmp)
       else find_loop m (a + (k + 1)) (32 * (k + 1)) (sz - 32))
      else find_loop m (a + k) (32 * k) sz)"
    using True rd unfolding find_next_bit_def Let_def res unfolding k_def [symmetric] o'_def [symmetric] sz_def [symmetric]
    by (simp add: add.commute add.left_commute)
  show ?thesis
  proof (cases "o' = 0")
    case True
    with e off find_loop_spec [OF _ n(1), of a m] assms show ?thesis by (simp add: valid_bitmap_def)
  next
    case False
    let ?t = "m ! (a + k) AND push_bit o' (NOT 0)"
    have t: "bit ?t j \<longleftrightarrow> off \<le> 32 * k + j \<and> bit (m ! (a + k)) j" if "j < 32" for j
      using that off by (auto simp: bit_and_iff bit_push_bit_iff bit_not_iff bit_mask_iff)
    show ?thesis
    proof (cases "sz < 32")
      case True
      then show ?thesis using e False found_first_is_next [OF n(1) True _ t] off by simp
    next
      case sz: False
      then have t': "bit ?t j \<longleftrightarrow> off \<le> 32 * k + j \<and> 32 * k + j \<in> bits_of m a n" if "j < 32" for j
        using t [OF that] bits_of_word [OF that] n that by auto
      show ?thesis
      proof (cases "?t = 0")
        case True
        obtain r where r: "find_loop m (a + (k + 1)) (32 * (k + 1)) (sz - 32) = Some r"
          and nx: "is_next (bits_of m a n) n (32 * (k + 1)) r"
          using find_loop_spec [of a n m "k + 1" "sz - 32"] assms sz n by (auto simp: valid_bitmap_def)
        have "is_next (bits_of m a n) n off r"
          by (rule is_next_skip [OF nx _ skip_word]) (use t' True off in auto)
        with r e False sz True show ?thesis by simp
      next
        case t0: False
        then have "is_next (bits_of m a n) n off (32 * k + ffs_word ?t)"
          using off by (intro is_next_in_word [OF _ ffs_word_first _ t']) auto
        with e False sz t0 show ?thesis by simp
      qed
    qed
  qed
qed

text \<open>The searches for clear bits are the searches for set bits in the complement of the memory.\<close>

abbreviation inverted :: "words \<Rightarrow> words" where
  "inverted m \<equiv> map NOT m"

lemma rdw_inverted: "rdw (inverted m) a = map_option NOT (rdw m a)"
  by (simp add: rdw_def)

lemma not_or: "NOT (x OR y) = NOT x AND NOT (y::u32)"
  by (rule word32_eqI) (simp add: bit_simps)

lemma not_push_ones: "sz < 32 \<Longrightarrow> NOT (push_bit sz (NOT 0)) = (drop_bit (32 - sz) (NOT 0) :: u32)"
  by (rule word32_eqI) (auto simp: bit_not_iff bit_push_bit_iff bit_drop_bit_eq bit_mask_iff)

lemma found_first_zero_inverted: "sz < 32 \<Longrightarrow> found_first_zero tmp result sz = found_first (NOT tmp) result sz"
proof -
  assume sz: "sz < 32"
  have "NOT (tmp OR push_bit sz (NOT 0)) = NOT tmp AND drop_bit (32 - sz) (NOT 0)"
    unfolding not_push_ones [OF sz, symmetric] by (rule not_or)
  moreover have "t = NOT 0 \<longleftrightarrow> NOT t = 0" for t :: u32 by (metis bit.double_compl)
  ultimately show ?thesis by (simp add: found_first_zero_def found_first_def ffz_word_def Let_def)
qed

lemma find_zero_loop_inverted: "find_zero_loop m p result sz = find_loop (inverted m) p result sz"
proof (induction m p result sz rule: find_zero_loop.induct)
  case (1 m p result sz)
  show ?case
    by (subst find_zero_loop.simps, subst find_loop.simps)
      (use "1.IH" in \<open>auto simp: rdw_inverted ffz_word_def found_first_zero_inverted option.map_comp o_def split: option.splits
        intro!: arg_cong2 [where f = map_option] ext\<close>)
qed

lemma find_next_zero_bit_inverted: "find_next_zero_bit m a n off = find_next_bit (inverted m) a n off"
proof -
  have "NOT (tmp OR drop_bit (32 - o') (NOT 0)) = NOT tmp AND push_bit o' (NOT 0)" if "o' < 32" for tmp :: u32 and o'
    using not_push_ones [OF that] by (metis bit.double_compl not_or)
  from this [of "off mod 32"] show ?thesis
    by (auto simp: find_next_zero_bit_def find_next_bit_def Let_def rdw_inverted found_first_zero_inverted ffz_word_def
        find_zero_loop_inverted split: option.splits)
qed

lemma bits_of_inverted: "valid_bitmap m a n \<Longrightarrow> bits_of (inverted m) a n = {..<n} - bits_of m a n"
proof -
  assume v: "valid_bitmap m a n"
  have "bit (inverted m ! (a + i div 32)) (i mod 32) \<longleftrightarrow> \<not> bit (m ! (a + i div 32)) (i mod 32)" if "i < n" for i
    using div_lt_BITS_TO_LONGS [OF that] v by (simp add: valid_bitmap_def bit_not_iff)
  then show ?thesis unfolding bits_of_def by blast
qed

lemma find_next_zero_bit_spec:
  assumes "valid_bitmap m a n"
  shows "\<exists>r. find_next_zero_bit m a n off = Some r \<and> is_next ({..<n} - bits_of m a n) n off r"
  using find_next_bit_spec [of "inverted m" a n off] assms bits_of_inverted [OF assms]
  by (simp add: find_next_zero_bit_inverted valid_bitmap_def)

lemma find_first_bit_spec:
  assumes "valid_bitmap m a n"
  shows "\<exists>r. find_first_bit m a n = Some r \<and> is_next (bits_of m a n) n 0 r"
  using find_loop_spec [of a n m 0 n] assms by (simp add: find_first_bit_def valid_bitmap_def)

lemma find_first_zero_bit_spec:
  assumes "valid_bitmap m a n"
  shows "\<exists>r. find_first_zero_bit m a n = Some r \<and> is_next ({..<n} - bits_of m a n) n 0 r"
  using find_loop_spec [of a n "inverted m" 0 n] assms bits_of_inverted [OF assms]
  by (simp add: find_first_zero_bit_def find_zero_loop_inverted valid_bitmap_def)

subsection \<open>Areas of clear bits\<close>

partial_function (option) bitmap_find_next_zero_area :: "words \<Rightarrow> nat \<Rightarrow> u32 \<Rightarrow> u32 \<Rightarrow> u32 \<Rightarrow> u32 \<Rightarrow> u32 option" where
  "bitmap_find_next_zero_area m bitmap sz start nr align_mask =
     Option.bind (find_next_zero_bit m bitmap (unat sz) (unat start)) (\<lambda>index.
       let index = (of_nat index + align_mask) AND NOT align_mask; end' = index + nr in
       if end' > sz then Some end'
       else Option.bind (find_next_bit m bitmap (unat end') (unat index)) (\<lambda>i.
         if of_nat i < end' then bitmap_find_next_zero_area m bitmap sz (of_nat i + 1) nr align_mask
         else Some index))"

declare bitmap_find_next_zero_area.simps [code]

text \<open>The free areas of a given length at aligned positions.\<close>

definition free_area :: "nat set \<Rightarrow> nat \<Rightarrow> nat \<Rightarrow> nat \<Rightarrow> nat \<Rightarrow> bool" where
  "free_area S n k nr i \<longleftrightarrow> 2 ^ k dvd i \<and> i + nr \<le> n \<and> S \<inter> {i..<i + nr} = {}"

lemma find_area_spec:
  assumes v: "valid_bitmap m a (unat sz)" and nr: "0 < unat nr" and k: "unat align_mask + 1 = 2 ^ k"
    and fit: "unat sz + unat nr + unat align_mask < 2 ^ 32"
  shows "\<exists>r. bitmap_find_next_zero_area m a sz start nr align_mask = Some r \<and>
    (unat sz < unat r \<and> (\<forall>i. unat start \<le> i \<longrightarrow> \<not> free_area (bits_of m a (unat sz)) (unat sz) k (unat nr) i) \<or>
     free_area (bits_of m a (unat sz)) (unat sz) k (unat nr) (unat r) \<and> unat start \<le> unat r \<and>
     (\<forall>i. unat start \<le> i \<and> free_area (bits_of m a (unat sz)) (unat sz) k (unat nr) i \<longrightarrow> unat r \<le> i))"
proof (induction "unat sz - unat start" arbitrary: start rule: less_induct)
  case less
  let ?S = "bits_of m a (unat sz)" and ?n = "unat sz"
  obtain r where r: "find_next_zero_bit m a ?n (unat start) = Some r" and nx: "is_next ({..<?n} - ?S) ?n (unat start) r"
    using find_next_zero_bit_spec [OF v] by blast
  have rn: "r \<le> ?n" using nx by (simp add: is_next_def)
  have ur: "unat (of_nat r :: u32) = r" using rn unat_lt_32 [of sz] by (simp add: unat_of_nat)
  define q where "q = (r + unat align_mask) div 2 ^ k * 2 ^ k"
  let ?index = "(of_nat r + align_mask) AND NOT align_mask"
  have ui: "unat ?index = q"
    using unat_align [OF k, of "of_nat r"] ur rn fit by (simp add: q_def)
  have qle: "q \<le> r + unat align_mask" unfolding q_def by simp
  have qge: "r \<le> q"
  proof -
    have "r + unat align_mask < q + 2 ^ k" unfolding q_def
      using div_mult_mod_eq [of "r + unat align_mask" "2 ^ k"] mod_less_divisor [of "2 ^ k" "r + unat align_mask"]
      by (metis add_less_cancel_left zero_less_numeral zero_less_power)
    then show ?thesis using k by linarith
  qed
  have ue: "unat (?index + nr) = q + unat nr"
    using unat_add_small [of ?index nr] ui qle rn fit by simp
  have kq: "2 ^ k dvd q" by (simp add: q_def)
  have low: "q \<le> i" if "unat start \<le> i" "free_area ?S ?n k (unat nr) i" for i
  proof -
    have "i < i + unat nr" using nr by simp
    then have "i \<in> {..<?n} - ?S" using that(2) by (auto simp: free_area_def)
    then have "r \<le> i" using nx that(1) by (simp add: is_next_def)
    moreover have "2 ^ k dvd i" using that(2) by (simp add: free_area_def)
    ultimately show ?thesis using aligned_ge [of k i r] k unfolding q_def by (metis add_diff_cancel_right')
  qed
  show ?case
  proof (cases "?n < q + unat nr")
    case True
    then have "bitmap_find_next_zero_area m a sz start nr align_mask = Some (?index + nr)"
      using r ue by (subst bitmap_find_next_zero_area.simps) (simp add: word_less_nat_alt Let_def)
    moreover have "\<not> free_area ?S ?n k (unat nr) i" if "unat start \<le> i" for i
      using low [OF that] True by (auto simp: free_area_def)
    ultimately show ?thesis using True ue by auto
  next
    case False
    then have rlt: "r < ?n" using qge nr by linarith
    then have sr: "unat start \<le> r" using nx by (simp add: is_next_def)
    have v': "valid_bitmap m a (q + unat nr)"
      using v False div_le_mono [of "q + unat nr + 31" "?n + 31" 32] by (simp add: valid_bitmap_def BITS_TO_LONGS_def)
    obtain i where i: "find_next_bit m a (q + unat nr) q = Some i"
      and ni: "is_next (bits_of m a (q + unat nr)) (q + unat nr) q i"
      using find_next_bit_spec [OF v'] by blast
    have ile: "i \<le> q + unat nr" using ni by (simp add: is_next_def)
    have uii: "unat (of_nat i :: u32) = i" using ile False unat_lt_32 [of sz] by (simp add: unat_of_nat)
    have e: "bitmap_find_next_zero_area m a sz start nr align_mask =
        (if i < q + unat nr then bitmap_find_next_zero_area m a sz (of_nat i + 1) nr align_mask else Some ?index)"
      using r i ue ui uii False
      by (subst bitmap_find_next_zero_area.simps) (simp add: word_less_nat_alt Let_def)
    have S: "bits_of m a (q + unat nr) = ?S \<inter> {..<q + unat nr}" using False by (auto simp: bits_of_def)
    show ?thesis
    proof (cases "i < q + unat nr")
      case True
      then have iS: "q \<le> i" "i \<in> ?S" "i < ?n" using ni S False by (auto simp: is_next_def)
      have us: "unat (of_nat i + 1 :: u32) = i + 1"
        using unat_add_small [of "of_nat i :: u32" 1] uii iS(3) unat_lt_32 [of sz] by simp
      have "?n - unat (of_nat i + 1 :: u32) < ?n - unat start" using us iS sr qge by linarith
      note IH = less.hyps [OF this]
      have no: "i < j" if "unat start \<le> j" "free_area ?S ?n k (unat nr) j" for j
      proof (rule ccontr)
        assume "\<not> i < j"
        then have "i \<in> {j..<j + unat nr}" using low [OF that] True by auto
        with iS(2) that(2) show False by (auto simp: free_area_def)
      qed
      show ?thesis using IH e True us sr qge iS(1) no by (auto simp: Suc_le_eq)
    next
      case i': False
      then have "i = q + unat nr" using ile by simp
      then have "?S \<inter> {q..<q + unat nr} = {}" using ni S by (fastforce simp: is_next_def)
      then have "free_area ?S ?n k (unat nr) q" using kq False by (simp add: free_area_def)
      then show ?thesis using e i' ui low sr qge by auto
    qed
  qed
qed

subsection \<open>Aligned regions\<close>

datatype reg_op = REG_OP_ISFREE | REG_OP_ALLOC | REG_OP_RELEASE

definition reg_mask :: "nat \<Rightarrow> nat \<Rightarrow> u32" where
  "reg_mask nbitsinlong offset = (let msk = push_bit (nbitsinlong - 1) 1; msk = msk + (msk - 1) in push_bit offset msk)"

definition reg_op :: "words \<Rightarrow> nat \<Rightarrow> nat \<Rightarrow> nat \<Rightarrow> reg_op \<Rightarrow> (int \<times> words) option" where
  "reg_op m bitmap pos order op =
     (let nbits_reg = 2 ^ order;
          index = pos div BITS_PER_LONG;
          offset = pos - index * BITS_PER_LONG;
          nlongs_reg = BITS_TO_LONGS nbits_reg;
          nbitsinlong = min nbits_reg BITS_PER_LONG;
          msk = reg_mask nbitsinlong offset in
      case op of
        REG_OP_ISFREE \<Rightarrow>
          map_option (\<lambda>free. (if free then 1 else 0, m))
            (zero_words (\<lambda>i. map_option (\<lambda>w. w AND msk) (rdw m (bitmap + (index + i)))) 0 nlongs_reg)
      | REG_OP_ALLOC \<Rightarrow>
          map_option (\<lambda>(r, m). (0, m))
            (words_loop (\<lambda>m i. map_option (\<lambda>w. w OR msk) (rdw m (bitmap + (index + i)))) (bitmap + index) 0 nlongs_reg m)
      | REG_OP_RELEASE \<Rightarrow>
          map_option (\<lambda>(r, m). (0, m))
            (words_loop (\<lambda>m i. map_option (\<lambda>w. w AND NOT msk) (rdw m (bitmap + (index + i)))) (bitmap + index) 0 nlongs_reg m))"

lemma region_step_less: "pos + 2 ^ order \<le> bits \<Longrightarrow> bits - (pos + 2 ^ order) < bits - (pos::nat)"
  using zero_less_power [of "2::nat" order] by linarith

function find_free_from :: "words \<Rightarrow> nat \<Rightarrow> nat \<Rightarrow> nat \<Rightarrow> nat \<Rightarrow> (int \<times> words) option" where
  "find_free_from m bitmap bits order pos =
     (let end' = pos + 2 ^ order in
      if end' \<le> bits then
        (case reg_op m bitmap pos order REG_OP_ISFREE of None \<Rightarrow> None
         | Some (free, m) \<Rightarrow>
             if free = 0 then find_free_from m bitmap bits order end'
             else map_option (\<lambda>(_, m). (int pos, m)) (reg_op m bitmap pos order REG_OP_ALLOC))
      else Some (- ENOMEM, m))"
  by pat_completeness auto
termination by (relation "measure (\<lambda>(m, bitmap, bits, order, pos). bits - pos)") (auto intro: region_step_less)

declare find_free_from.simps [simp del]

definition bitmap_find_free_region :: "words \<Rightarrow> nat \<Rightarrow> nat \<Rightarrow> nat \<Rightarrow> (int \<times> words) option" where
  "bitmap_find_free_region m bitmap bits order = find_free_from m bitmap bits order 0"

definition bitmap_release_region :: "words \<Rightarrow> nat \<Rightarrow> nat \<Rightarrow> nat \<Rightarrow> words option" where
  "bitmap_release_region m bitmap pos order = map_option snd (reg_op m bitmap pos order REG_OP_RELEASE)"

definition bitmap_allocate_region :: "words \<Rightarrow> nat \<Rightarrow> nat \<Rightarrow> nat \<Rightarrow> (int \<times> words) option" where
  "bitmap_allocate_region m bitmap pos order = do {
     (free, m) \<leftarrow> reg_op m bitmap pos order REG_OP_ISFREE;
     if free = 0 then Some (- EBUSY, m)
     else map_option (\<lambda>(_, m). (0, m)) (reg_op m bitmap pos order REG_OP_ALLOC) }"

definition region :: "nat \<Rightarrow> nat \<Rightarrow> nat set" where
  "region pos order = {pos..<pos + 2 ^ order}"

lemma bit_reg_mask:
  assumes "0 < nb" "nb + off \<le> 32" "r < 32"
  shows "bit (reg_mask nb off) r \<longleftrightarrow> off \<le> r \<and> r < off + nb"
proof -
  have "push_bit (nb - 1) 1 + (push_bit (nb - 1) 1 - 1) = (2 ^ nb - 1 :: u32)"
    using assms(1) by (cases nb) (simp_all add: push_bit_of_1)
  then have "reg_mask nb off = push_bit off (mask nb)" by (simp add: reg_mask_def Let_def mask_eq_exp_minus_1)
  then show ?thesis using assms by (auto simp: bit_push_bit_iff bit_mask_iff)
qed

text \<open>The words and the mask of a region: either the region lies in one word, or it consists of whole words.\<close>

lemma region_words:
  fixes pos order :: nat
  defines "index \<equiv> pos div 32" and "nl \<equiv> BITS_TO_LONGS (2 ^ order)"
  defines "msk \<equiv> reg_mask (min (2 ^ order) 32) (pos - index * 32)"
  assumes al: "2 ^ order dvd pos" and r: "r < 32"
  shows "32 * q + r \<in> region pos order \<longleftrightarrow> index \<le> q \<and> q < index + nl \<and> bit msk r"
proof -
  define off where "off = pos - index * 32"
  have pos: "pos = 32 * index + off" and off: "off < 32" by (simp_all add: off_def index_def minus_mult_div_eq_mod)
  show ?thesis
  proof (cases "order \<le> 5")
    case True
    then have d: "2 ^ order dvd (32::nat)" using le_imp_power_dvd [of order 5 "2::nat"] by simp
    then have le: "(2::nat) ^ order \<le> 32" by (simp add: dvd_imp_le)
    then have nl: "nl = 1" using lt_BITS_TO_LONGS [of 0 "2 ^ order"] lt_BITS_TO_LONGS [of 1 "2 ^ order"] by (auto simp: nl_def)
    have "2 ^ order dvd off" using al d pos by (metis dvd_add_right_iff dvd_mult2)
    moreover have "2 ^ order dvd (32 - off)" using d calculation off by (simp add: dvd_diff_nat)
    ultimately have "2 ^ order \<le> 32 - off" using off by (intro dvd_imp_le) auto
    then have "bit msk r \<longleftrightarrow> off \<le> r \<and> r < off + 2 ^ order"
      unfolding msk_def off_def [symmetric] using le r off by (subst bit_reg_mask) (auto simp: min_def)
    moreover have "off + 2 ^ order \<le> 32" using \<open>2 ^ order \<le> 32 - off\<close> off by linarith
    ultimately show ?thesis unfolding region_def pos nl using r
      by (cases q index rule: linorder_cases) auto
  next
    case False
    then obtain j where j: "order = 5 + j" by (metis le_Suc_ex nat_le_linear)
    have p: "(2::nat) ^ order = 32 * 2 ^ j" by (simp add: j power_add)
    have "32 dvd pos" using al unfolding p by (rule dvd_mult_left)
    then have o0: "off = 0" using pos off by (metis dvd_add_right_iff dvd_imp_le dvd_triv_left gr0I not_less)
    have nl: "nl = 2 ^ j" unfolding nl_def p by simp
    have "min (2 ^ order) 32 = (32::nat)" unfolding p using one_le_power [of "2::nat" j] by simp
    then have "bit msk r" unfolding msk_def off_def [symmetric] o0 using r by (simp add: bit_reg_mask)
    moreover have "32 * index + 32 * 2 ^ j = 32 * (index + nl)" by (simp add: nl)
    ultimately show ?thesis unfolding region_def pos o0 p using r by auto
  qed
qed

lemma region_fits:
  assumes "2 ^ order dvd pos" "pos + 2 ^ order \<le> n"
  shows "pos div 32 + BITS_TO_LONGS (2 ^ order) \<le> BITS_TO_LONGS n"
proof (cases "order \<le> 5")
  case True
  then have le: "(2::nat) ^ order \<le> 32" using power_increasing [of order 5 "2::nat"] by simp
  then have "BITS_TO_LONGS (2 ^ order) = 1"
    using lt_BITS_TO_LONGS [of 0 "2 ^ order"] lt_BITS_TO_LONGS [of 1 "2 ^ order"] by auto
  moreover have "pos < n" using assms(2) zero_less_power [of "2::nat" order] by linarith
  ultimately show ?thesis using div_lt_BITS_TO_LONGS [of pos n] by simp
next
  case False
  then obtain j where j: "order = 5 + j" by (metis le_Suc_ex nat_le_linear)
  have p: "(2::nat) ^ order = 32 * 2 ^ j" by (simp add: j power_add)
  have "(pos + 32 * 2 ^ j + 31) div 32 \<le> (n + 31) div 32" using assms(2) p by (intro div_le_mono) simp
  moreover have "32 dvd pos" using assms(1) unfolding p by (rule dvd_mult_left)
  then have "(pos + 32 * 2 ^ j + 31) div 32 = pos div 32 + 2 ^ j" by (elim dvdE) simp
  ultimately show ?thesis unfolding p BITS_TO_LONGS_idem by (simp add: BITS_TO_LONGS_def)
qed

context masking_op
begin

lemma region_loop_bits:
  assumes v: "valid_bitmap m a n" and al: "2 ^ order dvd pos" and le: "pos + 2 ^ order \<le> n"
  defines "msk \<equiv> reg_mask (min (2 ^ order) 32) (pos - pos div 32 * 32)"
  shows "\<exists>r m'. words_loop (\<lambda>m i. map_option (\<lambda>w. f w msk) (rdw m (a + (pos div 32 + i)))) (a + pos div 32) 0
      (BITS_TO_LONGS (2 ^ order)) m = Some (r, m') \<and> run_bits P m m' a pos (pos + 2 ^ order)"
proof -
  let ?i = "pos div 32" and ?nl = "BITS_TO_LONGS (2 ^ order)"
  let ?h = "\<lambda>j. f (m ! (a + (?i + j))) msk"
  have fit: "?i + ?nl \<le> BITS_TO_LONGS (pos + 2 ^ order)" by (rule region_fits [OF al order_refl])
  have len: "a + (?i + ?nl) \<le> length m" using region_fits [OF al le] v by (simp add: valid_bitmap_def)
  have "\<exists>r m'. words_loop (\<lambda>m i. map_option (\<lambda>w. f w msk) (rdw m (a + (?i + i)))) (a + ?i) 0 ?nl m = Some (r, m') \<and>
    only_changes m m' (a + ?i + 0) ?nl \<and> (\<forall>j. 0 \<le> j \<and> j < 0 + ?nl \<longrightarrow> m' ! (a + ?i + j) = ?h j) \<and>
    (r = 0 \<longleftrightarrow> (\<forall>j. 0 \<le> j \<and> j < 0 + ?nl \<longrightarrow> ?h j = 0))"
  proof (rule words_loop_spec)
    fix j m' assume j: "j < 0 + ?nl" and o: "only_changes m m' (a + ?i + 0) (j - 0)"
    then have "m' ! (a + (?i + j)) = m ! (a + (?i + j))" "a + (?i + j) < length m'"
      using len by (auto simp: only_changes_def)
    then show "map_option (\<lambda>w. f w msk) (rdw m' (a + (?i + j))) = Some (?h j)" by (simp add: rdw_Some)
  qed (use len in simp)
  then obtain r m' where w: "words_loop (\<lambda>m i. map_option (\<lambda>w. f w msk) (rdw m (a + (?i + i)))) (a + ?i) 0 ?nl m = Some (r, m')"
    and o: "only_changes m m' (a + ?i) ?nl" and h: "\<And>j. j < ?nl \<Longrightarrow> m' ! (a + ?i + j) = ?h j" by auto
  have "bit (m' ! (a + q)) r = P (bit (m ! (a + q)) r) (pos \<le> 32 * q + r \<and> 32 * q + r < pos + 2 ^ order)"
    if r: "r < 32" for q r
  proof (cases "?i \<le> q \<and> q < ?i + ?nl")
    case True
    then have "m' ! (a + q) = f (m ! (a + q)) msk" using h [of "q - ?i"] by (simp add: less_diff_conv2)
    then show ?thesis using True r region_words [OF al r, of q] by (simp add: bit_f region_def msk_def)
  next
    case False
    then have "m' ! (a + q) = m ! (a + q)" using o by (auto simp: only_changes_def)
    moreover have "(pos \<le> 32 * q + r \<and> 32 * q + r < pos + 2 ^ order) = False"
      using False region_words [OF al r, of q] by (auto simp: region_def)
    ultimately show ?thesis by (simp only: P_False)
  qed
  moreover have "only_changes m m' a (BITS_TO_LONGS (pos + 2 ^ order))"
    by (rule only_changes_mono [OF o]) (use fit in auto)
  ultimately show ?thesis using w by (auto simp: run_bits_def)
qed

end

lemma bits_of_region_run:
  assumes "pos + 2 ^ order \<le> n"
  shows "run_bits (\<or>) m m' a pos (pos + 2 ^ order) \<Longrightarrow> bits_of m' a n = bits_of m a n \<union> region pos order"
    and "run_bits (\<lambda>p q. p \<and> \<not> q) m m' a pos (pos + 2 ^ order) \<Longrightarrow> bits_of m' a n = bits_of m a n - region pos order"
  using assms run_bits_bits_of [of _ m m' a pos "pos + 2 ^ order" n] by (auto simp: region_def bits_of_def)

lemma reg_op_alloc:
  assumes "valid_bitmap m a n" "2 ^ order dvd pos" "pos + 2 ^ order \<le> n"
  shows "\<exists>m'. reg_op m a pos order REG_OP_ALLOC = Some (0, m') \<and> only_changes m m' a (BITS_TO_LONGS (pos + 2 ^ order)) \<and>
    bits_of m' a n = bits_of m a n \<union> region pos order"
  using or_mask.region_loop_bits [OF assms] bits_of_region_run(1) [OF assms(3), of m _ a]
  by (auto simp: reg_op_def Let_def run_bits_def)

lemma reg_op_release:
  assumes "valid_bitmap m a n" "2 ^ order dvd pos" "pos + 2 ^ order \<le> n"
  shows "\<exists>m'. reg_op m a pos order REG_OP_RELEASE = Some (0, m') \<and> only_changes m m' a (BITS_TO_LONGS (pos + 2 ^ order)) \<and>
    bits_of m' a n = bits_of m a n - region pos order"
  using andnot_mask.region_loop_bits [OF assms] bits_of_region_run(2) [OF assms(3), of m _ a]
  by (auto simp: reg_op_def Let_def run_bits_def)

lemma reg_op_isfree:
  assumes v: "valid_bitmap m a n" and al: "2 ^ order dvd pos" and le: "pos + 2 ^ order \<le> n"
  shows "reg_op m a pos order REG_OP_ISFREE = Some (if bits_of m a n \<inter> region pos order = {} then 1 else 0, m)"
proof -
  let ?i = "pos div 32" and ?nl = "BITS_TO_LONGS (2 ^ order)"
  define msk where "msk = reg_mask (min (2 ^ order) 32) (pos - ?i * 32)"
  note rw = region_words [OF al, folded msk_def]
  have len: "a + (?i + ?nl) \<le> length m" using region_fits [OF al le] v by (simp add: valid_bitmap_def)
  have "zero_words (\<lambda>i. map_option (\<lambda>w. w AND msk) (rdw m (a + (?i + i)))) 0 ?nl =
    Some (\<forall>j. 0 \<le> j \<and> j < 0 + ?nl \<longrightarrow> m ! (a + (?i + j)) AND msk = 0)"
    by (rule zero_words_spec) (use len in \<open>auto simp: rdw_Some\<close>)
  moreover have "(\<forall>j. 0 \<le> j \<and> j < 0 + ?nl \<longrightarrow> m ! (a + (?i + j)) AND msk = 0) \<longleftrightarrow> bits_of m a n \<inter> region pos order = {}"
    (is "?l \<longleftrightarrow> ?r")
  proof
    assume l: ?l
    have False if "i \<in> bits_of m a n" "i \<in> region pos order" for i
    proof -
      have "i mod 32 < 32" and e: "32 * (i div 32) + i mod 32 = i" by simp_all
      then have "?i \<le> i div 32" "i div 32 < ?i + ?nl" "bit msk (i mod 32)" using that(2) rw [of "i mod 32" "i div 32"] by auto
      with l [rule_format, of "i div 32 - ?i"] that(1) show False
        by (auto simp: word32_zero_iff bit_and_iff bits_of_def)
    qed
    then show ?r by blast
  next
    assume r: ?r
    show ?l
    proof (intro allI impI)
      fix j assume j: "0 \<le> j \<and> j < 0 + ?nl"
      have "\<not> bit (m ! (a + (?i + j)) AND msk) t" if t: "t < 32" for t
      proof
        assume b: "bit (m ! (a + (?i + j)) AND msk) t"
        then have i: "32 * (?i + j) + t \<in> region pos order" using rw [OF t, of "?i + j"] j by (simp add: bit_and_iff)
        then have "32 * (?i + j) + t < n" using le by (simp add: region_def)
        then have "32 * (?i + j) + t \<in> bits_of m a n" using b t bits_of_word [OF t, of "?i + j" m a n] by (simp add: bit_and_iff)
        with i r show False by blast
      qed
      then show "m ! (a + (?i + j)) AND msk = 0" by (simp add: word32_zero_iff)
    qed
  qed
  ultimately show ?thesis by (simp add: reg_op_def Let_def msk_def)
qed

lemma find_free_from_spec:
  assumes "valid_bitmap m a n" "2 ^ order dvd pos"
  shows "(\<exists>p m'. find_free_from m a n order pos = Some (int p, m') \<and> pos \<le> p \<and> 2 ^ order dvd p \<and> p + 2 ^ order \<le> n \<and>
      bits_of m a n \<inter> region p order = {} \<and>
      (\<forall>q. pos \<le> q \<and> q < p \<and> 2 ^ order dvd q \<longrightarrow> bits_of m a n \<inter> region q order \<noteq> {}) \<and>
      only_changes m m' a (BITS_TO_LONGS n) \<and> bits_of m' a n = bits_of m a n \<union> region p order) \<or>
    find_free_from m a n order pos = Some (- ENOMEM, m) \<and>
      (\<forall>p. pos \<le> p \<and> 2 ^ order dvd p \<and> p + 2 ^ order \<le> n \<longrightarrow> bits_of m a n \<inter> region p order \<noteq> {})"
  using assms
proof (induction "n - pos" arbitrary: pos rule: less_induct)
  case less
  show ?case
  proof (cases "pos + 2 ^ order \<le> n")
    case False
    then have "find_free_from m a n order pos = Some (- ENOMEM, m)" by (subst find_free_from.simps) simp
    with False show ?thesis by auto
  next
    case le: True
    note free = reg_op_isfree [OF less.prems le]
    show ?thesis
    proof (cases "bits_of m a n \<inter> region pos order = {}")
      case True
      obtain m' where m': "reg_op m a pos order REG_OP_ALLOC = Some (0, m')"
        "only_changes m m' a (BITS_TO_LONGS (pos + 2 ^ order))" "bits_of m' a n = bits_of m a n \<union> region pos order"
        using reg_op_alloc [OF less.prems le] by blast
      have "only_changes m m' a (BITS_TO_LONGS n)"
        by (rule only_changes_mono [OF m'(2)]) (use le in \<open>auto simp: BITS_TO_LONGS_def div_le_mono\<close>)
      moreover have "find_free_from m a n order pos = Some (int pos, m')"
        using free True le m'(1) by (subst find_free_from.simps) simp
      moreover have "\<forall>q. pos \<le> q \<and> q < pos \<and> 2 ^ order dvd q \<longrightarrow> bits_of m a n \<inter> region q order \<noteq> {}" by auto
      ultimately show ?thesis using True le m'(3) less.prems(2) by blast
    next
      case False
      have s: "find_free_from m a n order pos = find_free_from m a n order (pos + 2 ^ order)"
        using free False le by (subst find_free_from.simps) simp
      have nxt: "pos + 2 ^ order \<le> p" if "pos \<le> p" "2 ^ order dvd p" "p \<noteq> pos" for p
        using that less.prems(2) dvd_imp_le [of "2 ^ order" "p - pos"] by (simp add: dvd_diff_nat)
      note IH = less.hyps [OF region_step_less [OF le] less.prems(1)]
      have "2 ^ order dvd pos + 2 ^ order" using less.prems(2) by simp
      from IH [OF this] show ?thesis
      proof (elim disjE exE conjE)
        assume "find_free_from m a n order (pos + 2 ^ order) = Some (- ENOMEM, m)"
          and "\<forall>p. pos + 2 ^ order \<le> p \<and> 2 ^ order dvd p \<and> p + 2 ^ order \<le> n \<longrightarrow> bits_of m a n \<inter> region p order \<noteq> {}"
        then show ?thesis using s nxt False by metis
      next
        fix p m' assume "find_free_from m a n order (pos + 2 ^ order) = Some (int p, m')" "pos + 2 ^ order \<le> p"
          and "2 ^ order dvd p" "p + 2 ^ order \<le> n" "bits_of m a n \<inter> region p order = {}"
          and q: "\<forall>q. pos + 2 ^ order \<le> q \<and> q < p \<and> 2 ^ order dvd q \<longrightarrow> bits_of m a n \<inter> region q order \<noteq> {}"
          and "only_changes m m' a (BITS_TO_LONGS n)" "bits_of m' a n = bits_of m a n \<union> region p order"
        moreover have "\<forall>q. pos \<le> q \<and> q < p \<and> 2 ^ order dvd q \<longrightarrow> bits_of m a n \<inter> region q order \<noteq> {}"
          using q nxt False by metis
        ultimately show ?thesis using s by (intro disjI1 exI [of _ p] exI [of _ m'] conjI) simp_all
      qed
    qed
  qed
qed

text \<open>
  The allocator in use: a history of searches, allocations at a position and releases of regions that are held, with the
  list of the regions that are held. A position asked for is aligned and inside the bitmap, as the callers see to.
\<close>

inductive region_step :: "nat \<Rightarrow> nat \<Rightarrow> (nat \<times> nat) list \<times> words \<Rightarrow> (nat \<times> nat) list \<times> words \<Rightarrow> bool" for a n where
  Find: "bitmap_find_free_region m a n order = Some (r, m') \<Longrightarrow>
    region_step a n (own, m) (if 0 \<le> r then (nat r, order) # own else own, m')"
| Allocate: "2 ^ order dvd pos \<Longrightarrow> pos + 2 ^ order \<le> n \<Longrightarrow> bitmap_allocate_region m a pos order = Some (r, m') \<Longrightarrow>
    region_step a n (own, m) (if r = 0 then (pos, order) # own else own, m')"
| Release: "(pos, order) \<in> set own \<Longrightarrow> bitmap_release_region m a pos order = Some m' \<Longrightarrow>
    region_step a n (own, m) (remove1 (pos, order) own, m')"

inductive_cases region_stepE [elim]: "region_step a n s s'"

abbreviation held :: "nat \<times> nat \<Rightarrow> nat set" where
  "held r \<equiv> region (fst r) (snd r)"

definition regions_ok :: "nat \<Rightarrow> nat \<Rightarrow> (nat \<times> nat) list \<times> words \<Rightarrow> bool" where
  "regions_ok a n = (\<lambda>(own, m). valid_bitmap m a n \<and> distinct own \<and>
     (\<forall>r \<in> set own. 2 ^ snd r dvd fst r \<and> fst r + 2 ^ snd r \<le> n) \<and>
     pairwise (\<lambda>r r'. disjnt (held r) (held r')) (set own) \<and> bits_of m a n = (\<Union>r \<in> set own. held r))"

lemma region_nonempty: "region p ord \<noteq> {}"
  by (simp add: region_def)

lemma valid_bitmap_changed: "only_changes m m' a' c \<Longrightarrow> valid_bitmap m' a n = valid_bitmap m a n"
  by (auto simp: valid_bitmap_def only_changes_def)

lemma regions_ok_add:
  assumes "regions_ok a n (own, m)" "2 ^ ord dvd p" "p + 2 ^ ord \<le> n" "bits_of m a n \<inter> region p ord = {}"
    and "bits_of m' a n = bits_of m a n \<union> region p ord" "valid_bitmap m' a n"
  shows "regions_ok a n ((p, ord) # own, m')"
proof -
  have d: "disjnt (held r) (region p ord)" if "r \<in> set own" for r
    using assms(1,4) that unfolding regions_ok_def disjnt_def by auto
  then have "(p, ord) \<notin> set own" using region_nonempty [of p ord] by (fastforce simp: disjnt_def)
  with assms d show ?thesis unfolding regions_ok_def by (auto simp: pairwise_insert disjnt_sym)
qed

lemma regions_ok_remove:
  assumes "regions_ok a n (own, m)" "(p, ord) \<in> set own"
    and "bits_of m' a n = bits_of m a n - region p ord" "valid_bitmap m' a n"
  shows "regions_ok a n (remove1 (p, ord) own, m')"
proof -
  have s: "set (remove1 (p, ord) own) = set own - {(p, ord)}" using assms(1) by (simp add: regions_ok_def set_remove1_eq)
  have pw: "pairwise (\<lambda>r r'. disjnt (held r) (held r')) (set own)" using assms(1) by (simp add: regions_ok_def)
  have u: "(\<Union>r \<in> set own. held r) - region p ord = (\<Union>r \<in> set own - {(p, ord)}. held r)"
  proof -
    have "held r \<inter> region p ord = {}" if "r \<in> set own" "r \<noteq> (p, ord)" for r
      using pairwiseD [OF pw that(1) assms(2) that(2)] by (simp add: disjnt_def)
    then show ?thesis using assms(2) by auto
  qed
  have "pairwise (\<lambda>r r'. disjnt (held r) (held r')) (set own - {(p, ord)})" by (rule pairwise_subset [OF pw]) auto
  with assms s u show ?thesis unfolding regions_ok_def by (simp add: distinct_remove1)
qed

lemma bitmap_allocate_region_spec:
  assumes "valid_bitmap m a n" "2 ^ order dvd pos" "pos + 2 ^ order \<le> n"
  shows "if bits_of m a n \<inter> region pos order = {}
    then \<exists>m'. bitmap_allocate_region m a pos order = Some (0, m') \<and>
      only_changes m m' a (BITS_TO_LONGS (pos + 2 ^ order)) \<and> bits_of m' a n = bits_of m a n \<union> region pos order
    else bitmap_allocate_region m a pos order = Some (- EBUSY, m)"
  using reg_op_isfree [OF assms] reg_op_alloc [OF assms] by (auto simp: bitmap_allocate_region_def)

lemma region_step_ok: "region_step a n s s' \<Longrightarrow> regions_ok a n s \<Longrightarrow> regions_ok a n s'"
proof (induction rule: region_step.induct)
  case (Find m order r m' own)
  then have v: "valid_bitmap m a n" by (simp add: regions_ok_def)
  have "2 ^ order dvd (0::nat)" by simp
  from find_free_from_spec [OF v this] show ?case
  proof (elim disjE exE conjE)
    fix p m1 assume p: "2 ^ order dvd p" "p + 2 ^ order \<le> n" "bits_of m a n \<inter> region p order = {}"
      "only_changes m m1 a (BITS_TO_LONGS n)" "bits_of m1 a n = bits_of m a n \<union> region p order"
      and "find_free_from m a n order 0 = Some (int p, m1)"
    then have "r = int p" "m' = m1" using Find.hyps by (auto simp: bitmap_find_free_region_def)
    then show ?case using regions_ok_add [OF Find.prems p(1-3) p(5)] v valid_bitmap_changed [OF p(4)] by simp
  qed (use Find in \<open>auto simp: bitmap_find_free_region_def\<close>)
next
  case (Allocate order pos m r m' own)
  then have v: "valid_bitmap m a n" by (simp add: regions_ok_def)
  show ?case
  proof (cases "bits_of m a n \<inter> region pos order = {}")
    case True
    then have "r = 0" "only_changes m m' a (BITS_TO_LONGS (pos + 2 ^ order))" "bits_of m' a n = bits_of m a n \<union> region pos order"
      using bitmap_allocate_region_spec [OF v Allocate.hyps(1,2)] Allocate.hyps(3) by auto
    then show ?thesis using regions_ok_add [OF Allocate.prems Allocate.hyps(1,2) True] v valid_bitmap_changed by simp
  next
    case False
    then have "r = - EBUSY" "m' = m" using bitmap_allocate_region_spec [OF v Allocate.hyps(1,2)] Allocate.hyps(3) by auto
    then show ?thesis using Allocate.prems by simp
  qed
next
  case (Release pos order own m m')
  have v: "valid_bitmap m a n" and "\<forall>r \<in> set own. 2 ^ snd r dvd fst r \<and> fst r + 2 ^ snd r \<le> n"
    using Release.prems unfolding regions_ok_def prod.case by blast+
  then have p: "2 ^ order dvd pos" "pos + 2 ^ order \<le> n" using Release.hyps(1) by (metis fst_conv snd_conv)+
  obtain m1 where r: "reg_op m a pos order REG_OP_RELEASE = Some (0, m1)"
    and o: "only_changes m m1 a (BITS_TO_LONGS (pos + 2 ^ order))" "bits_of m1 a n = bits_of m a n - region pos order"
    using reg_op_release [OF v p] by blast
  from r Release.hyps(2) have "m' = m1" by (simp add: bitmap_release_region_def)
  with o show ?case using regions_ok_remove [OF Release.prems Release.hyps(1)] v valid_bitmap_changed by simp
qed

lemma region_history_ok: "(region_step a n)\<^sup>*\<^sup>* s s' \<Longrightarrow> regions_ok a n s \<Longrightarrow> regions_ok a n s'"
  by (induction rule: rtranclp_induct) (auto intro: region_step_ok)

subsection \<open>Properties\<close>

text \<open>What the users of the searches rely on, and what the generic C routines provide.\<close>

locale bit_finder =
  fixes next_one :: "words \<Rightarrow> nat \<Rightarrow> nat \<Rightarrow> nat \<Rightarrow> nat option" and S :: "words \<Rightarrow> nat \<Rightarrow> nat \<Rightarrow> nat set"
  assumes S_bound: "S m a n \<subseteq> {..<n}"
    and finds: "valid_bitmap m a n \<Longrightarrow> \<exists>r. next_one m a n off = Some r \<and> is_next (S m a n) n off r"
begin

lemma found_unique: "valid_bitmap m a n \<Longrightarrow> next_one m a n off = Some r \<longleftrightarrow> is_next (S m a n) n off r"
  using finds [of m a n off] is_next_unique [OF S_bound, of m a n off] by auto

lemma found_size: "valid_bitmap m a n \<Longrightarrow> next_one m a n off = Some n \<longleftrightarrow> S m a n \<inter> {off..} = {}"
  using S_bound [of m a n] by (fastforce simp: found_unique is_next_def)

lemma found_least:
  "valid_bitmap m a n \<Longrightarrow> r < n \<Longrightarrow> next_one m a n off = Some r \<longleftrightarrow> r \<in> S m a n \<and> off \<le> r \<and> (\<forall>i \<in> S m a n. off \<le> i \<longrightarrow> r \<le> i)"
  by (auto simp: found_unique is_next_def)

end

interpretation ones: bit_finder find_next_bit bits_of
  by unfold_locales (simp_all add: find_next_bit_spec)

interpretation zeros: bit_finder find_next_zero_bit "\<lambda>m a n. {..<n} - bits_of m a n"
  by unfold_locales (auto simp: find_next_zero_bit_spec)

interpretation first_ones: bit_finder "\<lambda>m a n off. if off = 0 then find_first_bit m a n else find_next_bit m a n off" bits_of
  by unfold_locales (auto simp: find_next_bit_spec find_first_bit_spec)

text \<open>The searches for bits. On every bitmap in memory the search for a set bit returns, reads nothing outside
  the bitmap and gives the least set bit from the offset on, or the size if and only if there is none; and so does
  the search for a clear bit with the bits that are not set.\<close>

theorem find_next_bit_least:
  assumes "valid_bitmap m a n"
  shows "(\<exists>r. find_next_bit m a n off = Some r \<and> (r = n \<longleftrightarrow> bits_of m a n \<inter> {off..} = {}) \<and>
      (r \<noteq> n \<longrightarrow> r \<in> bits_of m a n \<and> off \<le> r \<and> (\<forall>i \<in> bits_of m a n. off \<le> i \<longrightarrow> r \<le> i))) \<and>
    (\<exists>r. find_next_zero_bit m a n off = Some r \<and> (r = n \<longleftrightarrow> {off..<n} \<subseteq> bits_of m a n) \<and>
      (r \<noteq> n \<longrightarrow> off \<le> r \<and> r < n \<and> r \<notin> bits_of m a n \<and> {off..<r} \<subseteq> bits_of m a n))"
proof
  obtain r where r: "find_next_bit m a n off = Some r" "is_next (bits_of m a n) n off r"
    using find_next_bit_spec [OF assms] by blast
  then show "\<exists>r. find_next_bit m a n off = Some r \<and> (r = n \<longleftrightarrow> bits_of m a n \<inter> {off..} = {}) \<and>
      (r \<noteq> n \<longrightarrow> r \<in> bits_of m a n \<and> off \<le> r \<and> (\<forall>i \<in> bits_of m a n. off \<le> i \<longrightarrow> r \<le> i))"
    using ones.found_size [OF assms, of off] by (intro exI [of _ r]) (auto simp: is_next_def)
  obtain z where z: "find_next_zero_bit m a n off = Some z" "is_next ({..<n} - bits_of m a n) n off z"
    using find_next_zero_bit_spec [OF assms] by blast
  have "{off..<n} \<subseteq> bits_of m a n \<longleftrightarrow> z = n"
    using zeros.found_size [OF assms, of off] z(1) by auto
  moreover have "{off..<z} \<subseteq> bits_of m a n" if "z < n"
    using z(2) that unfolding is_next_def by (auto simp: not_le [symmetric])
  ultimately show "\<exists>r. find_next_zero_bit m a n off = Some r \<and> (r = n \<longleftrightarrow> {off..<n} \<subseteq> bits_of m a n) \<and>
      (r \<noteq> n \<longrightarrow> off \<le> r \<and> r < n \<and> r \<notin> bits_of m a n \<and> {off..<r} \<subseteq> bits_of m a n)"
    using z by (intro exI [of _ z]) (auto simp: is_next_def)
qed

theorem find_next_bit_least_witness:
  "\<exists>r. find_next_bit [0, 0x60] 0 60 3 = Some r \<and> (r = 60 \<longleftrightarrow> bits_of [0, 0x60] 0 60 \<inter> {3..} = {})"
  using find_next_bit_least [of "[0, 0x60]" 0 60 3] by (auto simp: valid_bitmap_def BITS_TO_LONGS_def)

text \<open>C19. The search for an area. If the size, the length and the alignment add up to less than 2^32, the search for an area
  of clear bits ends, whatever the bitmap holds: it returns the least aligned position from the start on at which as
  many bits are clear, or more than the size if there is no such position.\<close>

theorem find_next_zero_area_ends_at_first:
  assumes "valid_bitmap m a (unat sz)" and "0 < unat nr" and "unat align_mask + 1 = 2 ^ k"
    and "unat sz + unat nr + unat align_mask < 2 ^ 32"
  shows "\<exists>r. bitmap_find_next_zero_area m a sz start nr align_mask = Some r \<and>
    (unat sz < unat r \<and> (\<forall>i. unat start \<le> i \<longrightarrow> \<not> free_area (bits_of m a (unat sz)) (unat sz) k (unat nr) i) \<or>
     free_area (bits_of m a (unat sz)) (unat sz) k (unat nr) (unat r) \<and> unat start \<le> unat r \<and>
     (\<forall>i. unat start \<le> i \<and> free_area (bits_of m a (unat sz)) (unat sz) k (unat nr) i \<longrightarrow> unat r \<le> i))"
  using find_area_spec [OF assms] .

theorem find_next_zero_area_ends_at_first_witness:
  "bitmap_find_next_zero_area [0xF1] 0 32 1 4 3 = Some 8 \<and> (\<exists>r. bitmap_find_next_zero_area [0xF1] 0 32 1 4 3 = Some r \<and>
    (32 < unat r \<or> free_area (bits_of [0xF1] 0 32) 32 2 4 (unat r)))"
proof
  show "bitmap_find_next_zero_area [0xF1] 0 32 1 4 3 = Some 8" by code_simp
  show "\<exists>r. bitmap_find_next_zero_area [0xF1] 0 32 1 4 3 = Some r \<and>
    (32 < unat r \<or> free_area (bits_of [0xF1] 0 32) 32 2 4 (unat r))"
    using find_next_zero_area_ends_at_first [of "[0xF1]" 0 32 4 3 2 1]
    by (auto simp: valid_bitmap_def BITS_TO_LONGS_def)
qed

text \<open>The search for a region. It allocates the first free region of the order: an aligned position, inside the
  bitmap, at which no bit was set and before which no region of the order is free; exactly the bits of the region
  become set. It fails without a change if and only if no region of the order is free.\<close>

theorem find_free_region_first_fit:
  assumes "valid_bitmap m a n"
  shows "\<exists>r m'. bitmap_find_free_region m a n order = Some (r, m') \<and>
    (if \<exists>p. 2 ^ order dvd p \<and> p + 2 ^ order \<le> n \<and> bits_of m a n \<inter> region p order = {}
     then \<exists>p. r = int p \<and> 2 ^ order dvd p \<and> p + 2 ^ order \<le> n \<and> bits_of m a n \<inter> region p order = {} \<and>
       (\<forall>q < p. 2 ^ order dvd q \<longrightarrow> bits_of m a n \<inter> region q order \<noteq> {}) \<and>
       bits_of m' a n = bits_of m a n \<union> region p order \<and> only_changes m m' a (BITS_TO_LONGS n)
     else r = - ENOMEM \<and> m' = m)"
proof -
  have "2 ^ order dvd (0::nat)" by simp
  from find_free_from_spec [OF assms this] show ?thesis
  proof (elim disjE exE conjE)
    fix p m' assume "find_free_from m a n order 0 = Some (int p, m')"
      and p: "2 ^ order dvd p" "p + 2 ^ order \<le> n" "bits_of m a n \<inter> region p order = {}"
        "\<forall>q. 0 \<le> q \<and> q < p \<and> 2 ^ order dvd q \<longrightarrow> bits_of m a n \<inter> region q order \<noteq> {}"
        "only_changes m m' a (BITS_TO_LONGS n)" "bits_of m' a n = bits_of m a n \<union> region p order"
    then have "bitmap_find_free_region m a n order = Some (int p, m')" by (simp add: bitmap_find_free_region_def)
    moreover have "\<exists>p. 2 ^ order dvd p \<and> p + 2 ^ order \<le> n \<and> bits_of m a n \<inter> region p order = {}" using p by blast
    moreover have "\<forall>q < p. 2 ^ order dvd q \<longrightarrow> bits_of m a n \<inter> region q order \<noteq> {}" using p(4) by simp
    ultimately show ?thesis using p by (intro exI [of _ "int p"] exI [of _ m']) (simp only: if_True, blast)
  next
    assume "find_free_from m a n order 0 = Some (- ENOMEM, m)"
      and "\<forall>p. 0 \<le> p \<and> 2 ^ order dvd p \<and> p + 2 ^ order \<le> n \<longrightarrow> bits_of m a n \<inter> region p order \<noteq> {}"
    then have "bitmap_find_free_region m a n order = Some (- ENOMEM, m)"
      and "\<not> (\<exists>p. 2 ^ order dvd p \<and> p + 2 ^ order \<le> n \<and> bits_of m a n \<inter> region p order = {})"
      by (simp add: bitmap_find_free_region_def, blast)
    then show ?thesis by (simp only: if_False option.inject prod.inject) blast
  qed
qed

theorem find_free_region_first_fit_witness:
  "\<exists>r m'. bitmap_find_free_region [0x13, 0] 0 40 2 = Some (r, m') \<and> (r = - ENOMEM \<or> (\<exists>p. r = int p \<and> 2 ^ 2 dvd p))"
  using find_free_region_first_fit [of "[0x13, 0]" 0 40 2] by (auto simp: valid_bitmap_def BITS_TO_LONGS_def split: if_splits)

text \<open>C9. The region allocator. In every history of searches, allocations and releases that starts with an empty bitmap
  the regions held are aligned, inside the bitmap and disjoint, and the set bits are exactly those of the regions held.\<close>

theorem region_allocator_disjoint:
  assumes "(region_step a n)\<^sup>*\<^sup>* ([], m) (own, m')" and "valid_bitmap m a n" and "bits_of m a n = {}"
  shows "distinct own \<and> (\<forall>r \<in> set own. 2 ^ snd r dvd fst r \<and> held r \<subseteq> {..<n}) \<and>
    (\<forall>r \<in> set own. \<forall>r' \<in> set own. r \<noteq> r' \<longrightarrow> held r \<inter> held r' = {}) \<and> bits_of m' a n = (\<Union>r \<in> set own. held r)"
proof -
  have "regions_ok a n ([], m)" using assms(2,3) by (simp add: regions_ok_def)
  from region_history_ok [OF assms(1) this] have o: "regions_ok a n (own, m')" .
  have "held r \<subseteq> {..<n}" if "r \<in> set own" for r
    using o that unfolding regions_ok_def prod.case region_def by fastforce
  with o show ?thesis unfolding regions_ok_def prod.case pairwise_def disjnt_def by blast
qed

lemma find_free_region_examples:
  "bitmap_find_free_region [0, 0] 0 40 0 = Some (0, [1, 0])"
  "bitmap_find_free_region [1, 0] 0 40 2 = Some (4, [0xF1, 0])"
  by code_simp+

theorem region_allocator_disjoint_witness:
  "\<exists>own m'. (region_step 0 40)\<^sup>*\<^sup>* ([], [0, 0]) (own, m') \<and> own = [(4, 2), (0, 0)] \<and> bits_of m' 0 40 = (\<Union>r \<in> set own. held r)"
proof -
  have 1: "region_step 0 40 ([], [0, 0]) ([(0, 0)], [1, 0])"
    using region_step.Find [of "[0, 0]" 0 40 0 0 "[1, 0]" "[]"] by (simp add: find_free_region_examples)
  have 2: "region_step 0 40 ([(0, 0)], [1, 0]) ([(4, 2), (0, 0)], [0xF1, 0])"
    using region_step.Find [of "[1, 0]" 0 40 2 4 "[0xF1, 0]" "[(0, 0)]"] by (simp add: find_free_region_examples)
  from 1 2 have h: "(region_step 0 40)\<^sup>*\<^sup>* ([], [0, 0]) ([(4, 2), (0, 0)], [0xF1, 0])"
    by (meson converse_rtranclp_into_rtranclp r_into_rtranclp)
  have v: "valid_bitmap [0, 0] 0 40" by (simp add: valid_bitmap_def BITS_TO_LONGS_def)
  have e: "bits_of [0, 0] 0 40 = {}" by code_simp
  show ?thesis using region_allocator_disjoint [OF h v e] h by blast
qed

end
