(* ===== verification/DmTimer.thy ===== *)
theory DmTimer
  imports KPrelude
begin

text \<open>
  The OMAP dual-mode timers (\<^verbatim>\<open>arch/arm/plat-omap/dmtimer.c\<close>), as built for the board's
  OMAP3: \<open>cpu_class_is_omap2()\<close> holds, \<open>cpu_is_ti81xx()\<close> does not, and there are twelve timers
  and two source clocks. The hardware behind \<open>readl\<close> and \<open>writel\<close> is a parameter with a state of its own.
  The polling loops of posted mode end only if the hardware completes its writes: a call that polls
  forever, or reads outside the array of source clocks, is \<open>None\<close>. Spin locks only order the operations.
\<close>

subsection \<open>Registers\<close>

datatype dm_reg = TIMER_ID | TIMER_OCP_CFG | TIMER_SYS_STAT | TIMER_STAT | TIMER_INT_EN | TIMER_WAKEUP_EN
  | TIMER_CTRL | TIMER_COUNTER | TIMER_LOAD | TIMER_TRIGGER | TIMER_WRITE_PEND | TIMER_MATCH
  | TIMER_CAPTURE | TIMER_IF_CTRL | TIMER_CAPTURE2 | TIMER_TICK_POS | TIMER_TICK_NEG | TIMER_TICK_COUNT
  | TIMER_TICK_INT_MASK_SET | TIMER_TICK_INT_MASK_COUNT

text \<open>The register's offset in the low byte, its write-pending bit from bit 16 on.\<close>

fun reg_map :: "dm_reg \<Rightarrow> u32" where
  "reg_map TIMER_ID = 0x00"
| "reg_map TIMER_OCP_CFG = 0x10"
| "reg_map TIMER_SYS_STAT = 0x14"
| "reg_map TIMER_STAT = 0x18"
| "reg_map TIMER_INT_EN = 0x1c"
| "reg_map TIMER_WAKEUP_EN = 0x20"
| "reg_map TIMER_CTRL = 0x00010024"
| "reg_map TIMER_COUNTER = 0x00020028"
| "reg_map TIMER_LOAD = 0x0004002c"
| "reg_map TIMER_TRIGGER = 0x00080030"
| "reg_map TIMER_WRITE_PEND = 0x34"
| "reg_map TIMER_MATCH = 0x00100038"
| "reg_map TIMER_CAPTURE = 0x3c"
| "reg_map TIMER_IF_CTRL = 0x40"
| "reg_map TIMER_CAPTURE2 = 0x44"
| "reg_map TIMER_TICK_POS = 0x00200048"
| "reg_map TIMER_TICK_NEG = 0x0040004c"
| "reg_map TIMER_TICK_COUNT = 0x00800050"
| "reg_map TIMER_TICK_INT_MASK_SET = 0x01000054"
| "reg_map TIMER_TICK_INT_MASK_COUNT = 0x02000058"

definition reg_off :: "dm_reg \<Rightarrow> nat" where
  "reg_off reg = unat (reg_map reg AND 0xff)"

definition reg_wp :: "dm_reg \<Rightarrow> u32" where
  "reg_wp reg = drop_bit 16 (reg_map reg)"

text \<open>
  The platform: bus reads and writes, the result of \<open>clk_set_parent\<close> for each source, and the rate of the
  functional clock. A timer counts the users of its two clocks.
\<close>

record 'd plat =
  pl_readl :: "'d \<Rightarrow> nat \<Rightarrow> u32 \<times> 'd"
  pl_writel :: "'d \<Rightarrow> nat \<Rightarrow> u32 \<Rightarrow> 'd"
  pl_set_parent :: "nat \<Rightarrow> int"
  pl_rate :: u32

record 'd dm_timer =
  dt_irq :: int
  dt_reserved :: bool
  dt_enabled :: bool
  dt_posted :: bool
  dt_iclk :: int
  dt_fclk :: int
  dt_dev :: 'd

partial_function (option) wait_pending :: "'d plat \<Rightarrow> 'd \<Rightarrow> u32 \<Rightarrow> 'd option" where
  "wait_pending pl d wp =
     (let (v, d) = pl_readl pl d (reg_off TIMER_WRITE_PEND)
      in if v AND wp \<noteq> 0 then wait_pending pl d wp else Some d)"

definition dm_settle :: "'d plat \<Rightarrow> 'd dm_timer \<Rightarrow> dm_reg \<Rightarrow> 'd option" where
  "dm_settle pl t reg = (if dt_posted t then wait_pending pl (dt_dev t) (reg_wp reg) else Some (dt_dev t))"

definition omap_dm_timer_read_reg :: "'d plat \<Rightarrow> 'd dm_timer \<Rightarrow> dm_reg \<Rightarrow> (u32 \<times> 'd dm_timer) option" where
  "omap_dm_timer_read_reg pl t reg = do {
     d \<leftarrow> dm_settle pl t reg;
     let (v, d) = pl_readl pl d (reg_off reg);
     Some (v, t\<lparr>dt_dev := d\<rparr>) }"

definition omap_dm_timer_write_reg :: "'d plat \<Rightarrow> 'd dm_timer \<Rightarrow> dm_reg \<Rightarrow> u32 \<Rightarrow> 'd dm_timer option" where
  "omap_dm_timer_write_reg pl t reg value = do {
     d \<leftarrow> dm_settle pl t reg;
     Some (t\<lparr>dt_dev := pl_writel pl d (reg_off reg) value\<rparr>) }"

definition omap_dm_timer_is_reset_done :: "'d plat \<Rightarrow> 'd dm_timer \<Rightarrow> (bool \<times> 'd dm_timer) option" where
  "omap_dm_timer_is_reset_done pl t = do {
     (v, t) \<leftarrow> omap_dm_timer_read_reg pl t TIMER_SYS_STAT;
     Some (v AND 1 = 1, t) }"

text \<open>At most 100001 looks at the status; then the driver reports a failure and goes on.\<close>

fun wait_for_reset_loop :: "'d plat \<Rightarrow> nat \<Rightarrow> 'd dm_timer \<Rightarrow> 'd dm_timer option" where
  "wait_for_reset_loop pl 0 t = Some t"
| "wait_for_reset_loop pl (Suc c) t = do {
     (fin, t) \<leftarrow> omap_dm_timer_is_reset_done pl t;
     if fin then Some t else wait_for_reset_loop pl c t }"

definition omap_dm_timer_wait_for_reset :: "'d plat \<Rightarrow> 'd dm_timer \<Rightarrow> 'd dm_timer option" where
  "omap_dm_timer_wait_for_reset pl t = wait_for_reset_loop pl 100001 t"

text \<open>The users of a clock that can be switched on: enabling adds one, disabling takes one away unless there is none.\<close>

definition clk_enable :: "int \<Rightarrow> int" where
  "clk_enable usecount = usecount + 1"

definition clk_disable :: "int \<Rightarrow> int" where
  "clk_disable usecount = (if usecount = 0 then 0 else usecount - 1)"

definition omap_dm_timer_set_source :: "'d plat \<Rightarrow> 'd dm_timer \<Rightarrow> int \<Rightarrow> (int \<times> 'd dm_timer) option" where
  "omap_dm_timer_set_source pl t source =
     (if source < 0 \<or> source \<ge> 3 then Some (- EINVAL, t)
      else let t = t\<lparr>dt_fclk := clk_disable (dt_fclk t)\<rparr> in
        if source \<ge> 2 then None
        else let ret = pl_set_parent pl (nat source) in Some (ret, t\<lparr>dt_fclk := clk_enable (dt_fclk t)\<rparr>))"

text \<open>\<open>i\<close> is the timer's index: the first timer, the system clock event source, is not reset.\<close>

definition omap_dm_timer_reset :: "'d plat \<Rightarrow> nat \<Rightarrow> 'd dm_timer \<Rightarrow> 'd dm_timer option" where
  "omap_dm_timer_reset pl i t = do {
     t \<leftarrow> (if i \<noteq> 0 then do {
              t \<leftarrow> omap_dm_timer_write_reg pl t TIMER_IF_CTRL 0x06;
              omap_dm_timer_wait_for_reset pl t }
           else Some t);
     (_, t) \<leftarrow> omap_dm_timer_set_source pl t 1;
     (l, t) \<leftarrow> omap_dm_timer_read_reg pl t TIMER_OCP_CFG;
     let l = l OR push_bit 3 0x02;
     let l = l OR push_bit 8 0x2;
     let l = l OR push_bit 2 1;
     t \<leftarrow> omap_dm_timer_write_reg pl t TIMER_OCP_CFG l;
     t \<leftarrow> omap_dm_timer_write_reg pl t TIMER_IF_CTRL (push_bit 2 1);
     Some (t\<lparr>dt_posted := True\<rparr>) }"

definition omap_dm_timer_enable :: "'d dm_timer \<Rightarrow> 'd dm_timer" where
  "omap_dm_timer_enable t =
     (if dt_enabled t then t
      else t\<lparr>dt_fclk := clk_enable (dt_fclk t), dt_iclk := clk_enable (dt_iclk t), dt_enabled := True\<rparr>)"

definition omap_dm_timer_disable :: "'d dm_timer \<Rightarrow> 'd dm_timer" where
  "omap_dm_timer_disable t =
     (if \<not> dt_enabled t then t
      else t\<lparr>dt_iclk := clk_disable (dt_iclk t), dt_fclk := clk_disable (dt_fclk t), dt_enabled := False\<rparr>)"

definition omap_dm_timer_prepare :: "'d plat \<Rightarrow> nat \<Rightarrow> 'd dm_timer \<Rightarrow> 'd dm_timer option" where
  "omap_dm_timer_prepare pl i t = omap_dm_timer_reset pl i (omap_dm_timer_enable t)"

subsection \<open>Allocation\<close>

fun first_free :: "'d dm_timer list \<Rightarrow> nat option" where
  "first_free [] = None"
| "first_free (t # ts) = (if dt_reserved t then map_option Suc (first_free ts) else Some 0)"

definition omap_dm_timer_request :: "'d plat \<Rightarrow> 'd dm_timer list \<Rightarrow> (nat option \<times> 'd dm_timer list) option" where
  "omap_dm_timer_request pl ts = (case first_free ts of
       None \<Rightarrow> Some (None, ts)
     | Some i \<Rightarrow> do {
         t \<leftarrow> omap_dm_timer_prepare pl i ((ts ! i)\<lparr>dt_reserved := True\<rparr>);
         Some (Some i, ts[i := t]) })"

definition omap_dm_timer_request_specific ::
  "'d plat \<Rightarrow> 'd dm_timer list \<Rightarrow> int \<Rightarrow> (nat option \<times> 'd dm_timer list) option" where
  "omap_dm_timer_request_specific pl ts tid =
     (if tid \<le> 0 \<or> tid > int (length ts) \<or> dt_reserved (ts ! nat (tid - 1)) then Some (None, ts)
      else let i = nat (tid - 1) in do {
        t \<leftarrow> omap_dm_timer_prepare pl i ((ts ! i)\<lparr>dt_reserved := True\<rparr>);
        Some (Some i, ts[i := t]) })"

definition omap_dm_timer_free :: "'d plat \<Rightarrow> nat \<Rightarrow> 'd dm_timer \<Rightarrow> 'd dm_timer option" where
  "omap_dm_timer_free pl i t = do {
     t \<leftarrow> omap_dm_timer_reset pl i (omap_dm_timer_enable t);
     Some ((omap_dm_timer_disable t)\<lparr>dt_reserved := False\<rparr>) }"

subsection \<open>Operation\<close>

abbreviation CTRL_GPOCFG :: u32 where "CTRL_GPOCFG \<equiv> push_bit 14 1"
abbreviation CTRL_PT :: u32 where "CTRL_PT \<equiv> push_bit 12 1"
abbreviation CTRL_SCPWM :: u32 where "CTRL_SCPWM \<equiv> push_bit 7 1"
abbreviation CTRL_CE :: u32 where "CTRL_CE \<equiv> push_bit 6 1"
abbreviation CTRL_PRE :: u32 where "CTRL_PRE \<equiv> push_bit 5 1"
abbreviation CTRL_AR :: u32 where "CTRL_AR \<equiv> push_bit 1 1"
abbreviation CTRL_ST :: u32 where "CTRL_ST \<equiv> 1"
abbreviation INT_OVERFLOW :: u32 where "INT_OVERFLOW \<equiv> push_bit 1 1"

definition omap_dm_timer_trigger :: "'d plat \<Rightarrow> 'd dm_timer \<Rightarrow> 'd dm_timer option" where
  "omap_dm_timer_trigger pl t = omap_dm_timer_write_reg pl t TIMER_TRIGGER 0"

definition omap_dm_timer_start :: "'d plat \<Rightarrow> 'd dm_timer \<Rightarrow> 'd dm_timer option" where
  "omap_dm_timer_start pl t = do {
     (l, t) \<leftarrow> omap_dm_timer_read_reg pl t TIMER_CTRL;
     if l AND CTRL_ST = 0 then omap_dm_timer_write_reg pl t TIMER_CTRL (l OR CTRL_ST) else Some t }"

text \<open>Stopping divides by the rate of the functional clock for its delay: with a rate of 0 it faults.\<close>

definition omap_dm_timer_stop :: "'d plat \<Rightarrow> 'd dm_timer \<Rightarrow> 'd dm_timer option" where
  "omap_dm_timer_stop pl t = do {
     (l, t) \<leftarrow> omap_dm_timer_read_reg pl t TIMER_CTRL;
     t \<leftarrow> (if l AND CTRL_ST \<noteq> 0 then do {
              t \<leftarrow> omap_dm_timer_write_reg pl t TIMER_CTRL (l AND NOT 0x1);
              (_, t) \<leftarrow> omap_dm_timer_read_reg pl t TIMER_CTRL;
              if pl_rate pl = 0 then None else Some t }
           else Some t);
     omap_dm_timer_write_reg pl t TIMER_STAT INT_OVERFLOW }"

definition omap_dm_timer_set_load :: "'d plat \<Rightarrow> 'd dm_timer \<Rightarrow> bool \<Rightarrow> u32 \<Rightarrow> 'd dm_timer option" where
  "omap_dm_timer_set_load pl t autoreload load = do {
     (l, t) \<leftarrow> omap_dm_timer_read_reg pl t TIMER_CTRL;
     let l = (if autoreload then l OR CTRL_AR else l AND NOT CTRL_AR);
     t \<leftarrow> omap_dm_timer_write_reg pl t TIMER_CTRL l;
     t \<leftarrow> omap_dm_timer_write_reg pl t TIMER_LOAD load;
     omap_dm_timer_write_reg pl t TIMER_TRIGGER 0 }"

definition omap_dm_timer_set_load_start :: "'d plat \<Rightarrow> 'd dm_timer \<Rightarrow> bool \<Rightarrow> u32 \<Rightarrow> 'd dm_timer option" where
  "omap_dm_timer_set_load_start pl t autoreload load = do {
     (l, t) \<leftarrow> omap_dm_timer_read_reg pl t TIMER_CTRL;
     (l, t) \<leftarrow> (if autoreload then do {
                  t \<leftarrow> omap_dm_timer_write_reg pl t TIMER_LOAD load;
                  Some (l OR CTRL_AR, t) }
               else Some (l AND NOT CTRL_AR, t));
     let l = l OR CTRL_ST;
     t \<leftarrow> omap_dm_timer_write_reg pl t TIMER_COUNTER load;
     omap_dm_timer_write_reg pl t TIMER_CTRL l }"

definition omap_dm_timer_set_match :: "'d plat \<Rightarrow> 'd dm_timer \<Rightarrow> bool \<Rightarrow> u32 \<Rightarrow> 'd dm_timer option" where
  "omap_dm_timer_set_match pl t enable match = do {
     (l, t) \<leftarrow> omap_dm_timer_read_reg pl t TIMER_CTRL;
     let l = (if enable then l OR CTRL_CE else l AND NOT CTRL_CE);
     t \<leftarrow> omap_dm_timer_write_reg pl t TIMER_CTRL l;
     omap_dm_timer_write_reg pl t TIMER_MATCH match }"

definition omap_dm_timer_set_pwm :: "'d plat \<Rightarrow> 'd dm_timer \<Rightarrow> bool \<Rightarrow> bool \<Rightarrow> u32 \<Rightarrow> 'd dm_timer option" where
  "omap_dm_timer_set_pwm pl t def_on toggle trigger = do {
     (l, t) \<leftarrow> omap_dm_timer_read_reg pl t TIMER_CTRL;
     let l = l AND NOT (CTRL_GPOCFG OR CTRL_SCPWM OR CTRL_PT OR push_bit 10 0x03);
     let l = (if def_on then l OR CTRL_SCPWM else l);
     let l = (if toggle then l OR CTRL_PT else l);
     let l = l OR push_bit 10 trigger;
     omap_dm_timer_write_reg pl t TIMER_CTRL l }"

definition omap_dm_timer_set_prescaler :: "'d plat \<Rightarrow> 'd dm_timer \<Rightarrow> int \<Rightarrow> 'd dm_timer option" where
  "omap_dm_timer_set_prescaler pl t prescaler = do {
     (l, t) \<leftarrow> omap_dm_timer_read_reg pl t TIMER_CTRL;
     let l = l AND NOT (CTRL_PRE OR push_bit 2 0x07);
     let l = (if prescaler \<ge> 0 \<and> prescaler \<le> 7 then l OR CTRL_PRE OR push_bit 2 (of_int prescaler) else l);
     omap_dm_timer_write_reg pl t TIMER_CTRL l }"

definition omap_dm_timer_set_int_enable :: "'d plat \<Rightarrow> 'd dm_timer \<Rightarrow> u32 \<Rightarrow> 'd dm_timer option" where
  "omap_dm_timer_set_int_enable pl t value = do {
     t \<leftarrow> omap_dm_timer_write_reg pl t TIMER_INT_EN value;
     omap_dm_timer_write_reg pl t TIMER_WAKEUP_EN value }"

definition omap_dm_timer_read_status :: "'d plat \<Rightarrow> 'd dm_timer \<Rightarrow> (u32 \<times> 'd dm_timer) option" where
  "omap_dm_timer_read_status pl t = omap_dm_timer_read_reg pl t TIMER_STAT"

definition omap_dm_timer_write_status :: "'d plat \<Rightarrow> 'd dm_timer \<Rightarrow> u32 \<Rightarrow> 'd dm_timer option" where
  "omap_dm_timer_write_status pl t value = omap_dm_timer_write_reg pl t TIMER_STAT value"

definition omap_dm_timer_read_counter :: "'d plat \<Rightarrow> 'd dm_timer \<Rightarrow> (u32 \<times> 'd dm_timer) option" where
  "omap_dm_timer_read_counter pl t = omap_dm_timer_read_reg pl t TIMER_COUNTER"

definition omap_dm_timer_write_counter :: "'d plat \<Rightarrow> 'd dm_timer \<Rightarrow> u32 \<Rightarrow> 'd dm_timer option" where
  "omap_dm_timer_write_counter pl t value = omap_dm_timer_write_reg pl t TIMER_COUNTER value"

fun omap_dm_timers_active :: "'d plat \<Rightarrow> 'd dm_timer list \<Rightarrow> (int \<times> 'd dm_timer list) option" where
  "omap_dm_timers_active pl [] = Some (0, [])"
| "omap_dm_timers_active pl (t # ts) =
     (if \<not> dt_enabled t then do { (r, ts) \<leftarrow> omap_dm_timers_active pl ts; Some (r, t # ts) }
      else do {
        (l, t) \<leftarrow> omap_dm_timer_read_reg pl t TIMER_CTRL;
        if l AND CTRL_ST \<noteq> 0 then Some (1, t # ts)
        else do { (r, ts) \<leftarrow> omap_dm_timers_active pl ts; Some (r, t # ts) } })"

text \<open>The timers of the chip, physical base and interrupt, and their initial state.\<close>

definition omap3_dm_timers :: "(u32 \<times> int) list" where
  "omap3_dm_timers = [(0x48318000, 37), (0x49032000, 38), (0x49034000, 39), (0x49036000, 40),
     (0x49038000, 41), (0x4903A000, 42), (0x4903C000, 43), (0x4903E000, 44),
     (0x49040000, 45), (0x48086000, 46), (0x48088000, 47), (0x48304000, 95)]"

definition omap_dm_timer_init :: "(u32 \<Rightarrow> 'd) \<Rightarrow> 'd dm_timer list" where
  "omap_dm_timer_init ioremap = map (\<lambda>(phys_base, irq).
     \<lparr>dt_irq = irq, dt_reserved = False, dt_enabled = False, dt_posted = False, dt_iclk = 0, dt_fclk = 0,
      dt_dev = ioremap phys_base\<rparr>) omap3_dm_timers"

subsection \<open>Total correctness of fallible computations\<close>

text \<open>\<open>returns m P\<close>: the computation ends with a result, and the result satisfies \<open>P\<close>.\<close>

definition returns :: "'a option \<Rightarrow> ('a \<Rightarrow> bool) \<Rightarrow> bool" where
  "returns m P \<longleftrightarrow> (\<exists>x. m = Some x \<and> P x)"

lemma returns_Some [simp]: "returns (Some x) P = P x"
  by (simp add: returns_def)

lemma returns_None [simp]: "\<not> returns None P"
  by (simp add: returns_def)

lemma returns_bind: "returns m (\<lambda>x. returns (f x) P) \<Longrightarrow> returns (Option.bind m f) P"
  by (auto simp: returns_def)

lemma returns_mono: "returns m P \<Longrightarrow> (\<And>x. P x \<Longrightarrow> Q x) \<Longrightarrow> returns m Q"
  by (auto simp: returns_def)

subsection \<open>Registers of a posted-mode timer\<close>

text \<open>
  What the driver relies on of the hardware. \<open>view\<close> gives the value a register will have once all
  posted writes have completed, \<open>pend\<close> the write-pending bits, \<open>lat\<close> a bound on the polls until
  they are clear. A read of a register, or a write, whose pending bit is clear acts on the
  value; polling only makes time pass. Nothing is said of an access while a write is pending.
\<close>

definition stable_regs :: "dm_reg set" where
  "stable_regs = {TIMER_CTRL, TIMER_LOAD, TIMER_MATCH}"

definition op_regs :: "dm_reg set" where
  "op_regs = stable_regs \<union> {TIMER_STAT, TIMER_INT_EN, TIMER_WAKEUP_EN, TIMER_COUNTER, TIMER_TRIGGER}"

definition hw_posted :: "'d plat \<Rightarrow> ('d \<Rightarrow> dm_reg \<Rightarrow> u32) \<Rightarrow> ('d \<Rightarrow> u32) \<Rightarrow> ('d \<Rightarrow> nat) \<Rightarrow> bool" where
  "hw_posted pl view pend lat \<longleftrightarrow>
     (\<forall>d v d'. pl_readl pl d (reg_off TIMER_WRITE_PEND) = (v, d') \<longrightarrow>
        v = pend d \<and> (\<forall>r \<in> stable_regs. view d' r = view d r)
        \<and> (\<forall>wp. pend d AND wp = 0 \<longrightarrow> pend d' AND wp = 0) \<and> (pend d \<noteq> 0 \<longrightarrow> lat d' < lat d))
   \<and> (\<forall>d reg v d'. reg \<in> op_regs \<longrightarrow> pend d AND reg_wp reg = 0 \<longrightarrow> pl_readl pl d (reg_off reg) = (v, d') \<longrightarrow>
        (reg \<in> stable_regs \<longrightarrow> v = view d reg) \<and> (\<forall>r \<in> stable_regs. view d' r = view d r))
   \<and> (\<forall>d reg v. reg \<in> op_regs \<longrightarrow> pend d AND reg_wp reg = 0 \<longrightarrow>
        (\<forall>r \<in> stable_regs. view (pl_writel pl d (reg_off reg) v) r = (if r = reg then v else view d r)))"

lemma stable_regs_iff [simp]: "r \<in> stable_regs \<longleftrightarrow> r = TIMER_CTRL \<or> r = TIMER_LOAD \<or> r = TIMER_MATCH"
  by (simp add: stable_regs_def)

lemma op_regs_mem [simp]: "TIMER_CTRL \<in> op_regs" "TIMER_LOAD \<in> op_regs" "TIMER_MATCH \<in> op_regs" "TIMER_STAT \<in> op_regs"
    "TIMER_COUNTER \<in> op_regs" "TIMER_TRIGGER \<in> op_regs"
  by (simp_all add: op_regs_def)

lemma wait_pending_ends:
  assumes "hw_posted pl view pend lat"
  shows "returns (wait_pending pl d wp) (\<lambda>d'. pend d' AND wp = 0 \<and> (\<forall>r \<in> stable_regs. view d' r = view d r))"
proof (induction "lat d" arbitrary: d rule: less_induct)
  case less
  obtain v d' where r: "pl_readl pl d (reg_off TIMER_WRITE_PEND) = (v, d')" by fastforce
  note h = assms [unfolded hw_posted_def, THEN conjunct1, rule_format, OF r]
  show ?case
  proof (cases "v AND wp = 0")
    case True
    then show ?thesis using h r by (subst wait_pending.simps) auto
  next
    case False
    then have "pend d \<noteq> 0" using h by auto
    with h have "lat d' < lat d" by blast
    from less [OF this] show ?thesis using False r h
      by (subst wait_pending.simps) (auto elim!: returns_mono)
  qed
qed

text \<open>Register values and the rest of the timer, after an operation.\<close>

definition dm_after :: "('d \<Rightarrow> dm_reg \<Rightarrow> u32) \<Rightarrow> 'd dm_timer \<Rightarrow> (dm_reg \<Rightarrow> u32) \<Rightarrow> 'd dm_timer \<Rightarrow> bool" where
  "dm_after view t f t' \<longleftrightarrow> t' = t\<lparr>dt_dev := dt_dev t'\<rparr> \<and> (\<forall>r \<in> stable_regs. view (dt_dev t') r = f r)"

lemma dm_settle_ok:
  assumes "hw_posted pl view pend lat" "dt_posted t"
  shows "returns (dm_settle pl t reg) (\<lambda>d. pend d AND reg_wp reg = 0 \<and> (\<forall>r \<in> stable_regs. view d r = view (dt_dev t) r))"
  using assms(2) wait_pending_ends [OF assms(1), of "dt_dev t" "reg_wp reg"] by (simp add: dm_settle_def)

lemma read_reg_ok:
  assumes "hw_posted pl view pend lat" "dt_posted t" "reg \<in> stable_regs"
  shows "returns (omap_dm_timer_read_reg pl t reg)
    (\<lambda>(v, t'). v = view (dt_dev t) reg \<and> dm_after view t (view (dt_dev t)) t')"
proof -
  have op: "reg \<in> op_regs" using assms(3) by (auto simp: op_regs_def)
  note h = assms(1) [unfolded hw_posted_def, THEN conjunct2, THEN conjunct1, rule_format, OF op]
  have "returns (let (v, d) = pl_readl pl d (reg_off reg) in Some (v, t\<lparr>dt_dev := d\<rparr>))
      (\<lambda>(v, t'). v = view (dt_dev t) reg \<and> dm_after view t (view (dt_dev t)) t')"
    if d: "pend d AND reg_wp reg = 0" "\<And>r. r \<in> stable_regs \<Longrightarrow> view d r = view (dt_dev t) r" for d
  proof -
    obtain v d' where r: "pl_readl pl d (reg_off reg) = (v, d')" by fastforce
    from h [OF d(1) r] r d(2) assms(3) show ?thesis by (auto simp: dm_after_def)
  qed
  then show ?thesis unfolding omap_dm_timer_read_reg_def
    by (intro returns_bind, intro returns_mono [OF dm_settle_ok [OF assms(1,2)]]) auto
qed

lemma write_reg_ok:
  assumes "hw_posted pl view pend lat" "dt_posted t" "reg \<in> op_regs"
  shows "returns (omap_dm_timer_write_reg pl t reg v) (dm_after view t ((view (dt_dev t))(reg := v)))"
proof -
  note h = assms(1) [unfolded hw_posted_def, THEN conjunct2, THEN conjunct2, rule_format, OF assms(3)]
  show ?thesis unfolding omap_dm_timer_write_reg_def
    by (rule returns_bind, rule returns_mono, rule dm_settle_ok [OF assms(1,2)])
      (use h in \<open>auto simp: dm_after_def\<close>)
qed

text \<open>The two rules as they are used: continue with any timer that has the register values given.\<close>

lemma read_reg_last:
  assumes "hw_posted pl view pend lat" "dt_posted t" "reg \<in> stable_regs"
    and "\<And>d. (\<And>r. r \<in> stable_regs \<Longrightarrow> view d r = view (dt_dev t) r) \<Longrightarrow> P (view (dt_dev t) reg, t\<lparr>dt_dev := d\<rparr>)"
  shows "returns (omap_dm_timer_read_reg pl t reg) P"
proof (rule returns_mono, rule read_reg_ok [OF assms(1-3)])
  fix x
  assume "case x of (v, t') \<Rightarrow> v = view (dt_dev t) reg \<and> dm_after view t (view (dt_dev t)) t'"
  then show "P x" using assms(4) [of "dt_dev (snd x)"] by (auto simp: dm_after_def split: prod.splits)
qed

lemma read_reg_then:
  assumes "hw_posted pl view pend lat" "dt_posted t" "reg \<in> stable_regs"
    and "\<And>d. (\<And>r. r \<in> stable_regs \<Longrightarrow> view d r = view (dt_dev t) r) \<Longrightarrow> returns (k (view (dt_dev t) reg) (t\<lparr>dt_dev := d\<rparr>)) P"
  shows "returns (Option.bind (omap_dm_timer_read_reg pl t reg) (\<lambda>(v, t). k v t)) P"
  by (rule returns_bind, rule read_reg_last [OF assms(1-3)]) (simp add: assms(4) del: stable_regs_iff)

lemma write_reg_then:
  assumes "hw_posted pl view pend lat" "dt_posted t" "reg \<in> op_regs"
    and "\<And>d. (\<And>r. r \<in> stable_regs \<Longrightarrow> view d r = ((view (dt_dev t))(reg := v)) r) \<Longrightarrow> returns (k (t\<lparr>dt_dev := d\<rparr>)) P"
  shows "returns (Option.bind (omap_dm_timer_write_reg pl t reg v) k) P"
proof (rule returns_bind, rule returns_mono, rule write_reg_ok [OF assms(1-3)])
  fix t'
  assume "dm_after view t ((view (dt_dev t))(reg := v)) t'"
  then show "returns (k t') P" using assms(4) [of "dt_dev t'"] by (simp add: dm_after_def)
qed

lemma write_reg_last:
  assumes "hw_posted pl view pend lat" "dt_posted t" "reg \<in> op_regs"
    and "\<And>d. (\<And>r. r \<in> stable_regs \<Longrightarrow> view d r = ((view (dt_dev t))(reg := v)) r) \<Longrightarrow> P (t\<lparr>dt_dev := d\<rparr>)"
  shows "returns (omap_dm_timer_write_reg pl t reg v) P"
proof (rule returns_mono, rule write_reg_ok [OF assms(1-3)])
  fix t'
  assume "dm_after view t ((view (dt_dev t))(reg := v)) t'"
  then show "P t'" using assms(4) [of "dt_dev t'"] by (simp add: dm_after_def)
qed

lemma dm_afterI: "(\<And>r. r \<in> stable_regs \<Longrightarrow> view d r = f r) \<Longrightarrow> dm_after view t f (t\<lparr>dt_dev := d\<rparr>)"
  by (auto simp: dm_after_def)

lemma stop_ok:
  assumes "hw_posted pl view pend lat" "dt_posted t" "pl_rate pl \<noteq> 0"
  shows "returns (omap_dm_timer_stop pl t)
    (dm_after view t ((view (dt_dev t))(TIMER_CTRL := view (dt_dev t) TIMER_CTRL AND NOT 1)))"
proof (cases "view (dt_dev t) TIMER_CTRL AND 1 = 0")
  case True
  have off: "w AND 1 = 0 \<Longrightarrow> w AND NOT 1 = w" for w :: u32
  proof -
    assume "w AND 1 = 0"
    moreover have "w = (w AND 1) OR (w AND NOT 1)" by (simp flip: bit.conj_disj_distrib)
    ultimately show ?thesis by simp
  qed
  show ?thesis unfolding omap_dm_timer_stop_def
    by (rule read_reg_then [OF assms(1,2)]) (use True off assms(2) in
      \<open>auto intro!: write_reg_last [OF assms(1)] simp: dm_after_def\<close>)
next
  case False
  show ?thesis unfolding omap_dm_timer_stop_def
    by (rule read_reg_then [OF assms(1,2)])
      (use False assms(2,3) in \<open>auto intro!: write_reg_last [OF assms(1)] read_reg_last [OF assms(1)] write_reg_then [OF assms(1)]
        returns_bind simp: dm_after_def\<close>)
qed

lemma set_load_ok:
  assumes "hw_posted pl view pend lat" "dt_posted t"
  shows "returns (omap_dm_timer_set_load pl t ar load) (dm_after view t
    ((view (dt_dev t))(TIMER_CTRL := if ar then view (dt_dev t) TIMER_CTRL OR CTRL_AR else view (dt_dev t) TIMER_CTRL AND NOT CTRL_AR,
       TIMER_LOAD := load)))"
  unfolding omap_dm_timer_set_load_def Let_def
  by (intro read_reg_then [OF assms(1)] write_reg_then [OF assms(1)] write_reg_last [OF assms(1)])
    (use assms(2) in \<open>auto simp: dm_after_def\<close>)

lemma set_match_ok:
  assumes "hw_posted pl view pend lat" "dt_posted t"
  shows "returns (omap_dm_timer_set_match pl t en match) (dm_after view t
    ((view (dt_dev t))(TIMER_CTRL := if en then view (dt_dev t) TIMER_CTRL OR CTRL_CE else view (dt_dev t) TIMER_CTRL AND NOT CTRL_CE,
       TIMER_MATCH := match)))"
  unfolding omap_dm_timer_set_match_def Let_def
  by (intro read_reg_then [OF assms(1)] write_reg_then [OF assms(1)] write_reg_last [OF assms(1)])
    (use assms(2) in \<open>auto simp: dm_after_def\<close>)

lemma pwm_bits:
  "(if q then (if p then x OR a else x) OR b else (if p then x OR a else x)) OR c
     = x OR (if p then a else 0) OR (if q then b else 0) OR (c :: u32)"
  by (simp add: or.assoc)

lemma ctrl_rmw:
  assumes "hw_posted pl view pend lat" "dt_posted t"
  shows "returns (Option.bind (omap_dm_timer_read_reg pl t TIMER_CTRL) (\<lambda>(l, t). omap_dm_timer_write_reg pl t TIMER_CTRL (g l)))
    (dm_after view t ((view (dt_dev t))(TIMER_CTRL := g (view (dt_dev t) TIMER_CTRL))))"
  by (intro read_reg_then [OF assms(1)] write_reg_last [OF assms(1)]) (use assms(2) in \<open>auto simp: dm_after_def\<close>)

lemma set_pwm_ok:
  assumes "hw_posted pl view pend lat" "dt_posted t"
  shows "returns (omap_dm_timer_set_pwm pl t def_on toggle trigger) (dm_after view t
    ((view (dt_dev t))(TIMER_CTRL :=
       (view (dt_dev t) TIMER_CTRL AND NOT (CTRL_GPOCFG OR CTRL_SCPWM OR CTRL_PT OR push_bit 10 0x03))
         OR (if def_on then CTRL_SCPWM else 0) OR (if toggle then CTRL_PT else 0) OR push_bit 10 trigger)))"
  unfolding omap_dm_timer_set_pwm_def Let_def pwm_bits
  by (rule ctrl_rmw [OF assms])

lemma start_ok:
  assumes "hw_posted pl view pend lat" "dt_posted t"
  shows "returns (omap_dm_timer_start pl t)
    (dm_after view t ((view (dt_dev t))(TIMER_CTRL := view (dt_dev t) TIMER_CTRL OR CTRL_ST)))"
proof (cases "view (dt_dev t) TIMER_CTRL AND CTRL_ST = 0")
  case True
  then show ?thesis unfolding omap_dm_timer_start_def
    by (intro read_reg_then [OF assms(1,2)]) (use assms(2) in \<open>auto intro!: write_reg_last [OF assms(1)] simp: dm_after_def\<close>)
next
  case False
  then have "odd (view (dt_dev t) TIMER_CTRL)" by (simp add: and_one_eq odd_iff_mod_2_eq_one)
  then have "view (dt_dev t) TIMER_CTRL OR CTRL_ST = view (dt_dev t) TIMER_CTRL"
    by (intro bit_word_eqI) (auto simp: bit_simps bit_1_iff bit_0)
  then show ?thesis using False unfolding omap_dm_timer_start_def
    by (intro read_reg_then [OF assms(1,2)]) (use assms(2) in \<open>auto simp: dm_after_def\<close>)
qed

lemma write_counter_ok:
  assumes "hw_posted pl view pend lat" "dt_posted t"
  shows "returns (omap_dm_timer_write_counter pl t v) (dm_after view t (view (dt_dev t)))"
  unfolding omap_dm_timer_write_counter_def
  by (rule write_reg_last [OF assms]) (auto simp: dm_after_def)

subsection \<open>What the operations keep\<close>

text \<open>Register accesses change the device only.\<close>

lemma read_reg_frame: "omap_dm_timer_read_reg pl t reg = Some (v, t') \<Longrightarrow> t' = t\<lparr>dt_dev := dt_dev t'\<rparr>"
  by (auto simp: omap_dm_timer_read_reg_def split: bind_splits prod.splits)

lemma write_reg_frame: "omap_dm_timer_write_reg pl t reg v = Some t' \<Longrightarrow> t' = t\<lparr>dt_dev := dt_dev t'\<rparr>"
  by (auto simp: omap_dm_timer_write_reg_def split: bind_splits)

definition dm_frame :: "'d dm_timer \<Rightarrow> 'd dm_timer \<Rightarrow> bool" where
  "dm_frame t t' \<longleftrightarrow> dt_irq t' = dt_irq t \<and> dt_reserved t' = dt_reserved t \<and> dt_enabled t' = dt_enabled t
     \<and> dt_iclk t' = dt_iclk t \<and> dt_fclk t' = dt_fclk t"

lemma dm_frame_refl [simp]: "dm_frame t t"
  by (simp add: dm_frame_def)

lemma dm_frame_trans: "dm_frame t t' \<Longrightarrow> dm_frame t' t'' \<Longrightarrow> dm_frame t t''"
  by (simp add: dm_frame_def)

lemma read_reg_dm_frame: "omap_dm_timer_read_reg pl t reg = Some (v, t') \<Longrightarrow> dm_frame t t'"
  by (drule read_reg_frame, simp add: dm_frame_def, metis dm_timer.select_convs dm_timer.update_convs(7) dm_timer.surjective)

lemma write_reg_dm_frame: "omap_dm_timer_write_reg pl t reg v = Some t' \<Longrightarrow> dm_frame t t'"
  by (drule write_reg_frame, simp add: dm_frame_def, metis dm_timer.select_convs dm_timer.update_convs(7) dm_timer.surjective)

lemma wait_for_reset_frame: "wait_for_reset_loop pl c t = Some t' \<Longrightarrow> dm_frame t t'"
proof (induction pl c t rule: wait_for_reset_loop.induct)
  case (2 pl c t)
  then show ?case
    by (auto simp: omap_dm_timer_is_reset_done_def split: bind_splits prod.splits if_splits
        dest!: read_reg_dm_frame intro: dm_frame_trans)
qed simp

lemmas reg_frames = read_reg_dm_frame write_reg_dm_frame wait_for_reset_frame

text \<open>Changing the source keeps the users of the functional clock, if there is one.\<close>

definition dm_sourced :: "'d dm_timer \<Rightarrow> 'd dm_timer \<Rightarrow> bool" where
  "dm_sourced t t' \<longleftrightarrow> dt_irq t' = dt_irq t \<and> dt_reserved t' = dt_reserved t \<and> dt_enabled t' = dt_enabled t
     \<and> dt_iclk t' = dt_iclk t \<and> (dt_fclk t \<noteq> 0 \<longrightarrow> dt_fclk t' = dt_fclk t)"

lemma set_source_frame: "omap_dm_timer_set_source pl t src = Some (r, t') \<Longrightarrow> dm_sourced t t'"
  by (auto simp: omap_dm_timer_set_source_def Let_def dm_sourced_def clk_enable_def clk_disable_def split: if_splits)

lemma reset_frame: "omap_dm_timer_reset pl i t = Some t' \<Longrightarrow> dm_sourced t t' \<and> dt_posted t'"
  by (auto simp: omap_dm_timer_reset_def omap_dm_timer_wait_for_reset_def Let_def dm_frame_def dm_sourced_def
      split: bind_splits prod.splits if_splits dest!: reg_frames set_source_frame)

text \<open>The calls a client makes on one timer.\<close>

datatype dm_op = Enable | Disable | Start | Stop | Trigger | SetSource int | SetLoad bool u32 | SetLoadStart bool u32
  | SetMatch bool u32 | SetPwm bool bool u32 | SetPrescaler int | SetIntEnable u32 | WriteStatus u32 | WriteCounter u32
  | ReadStatus | ReadCounter

fun dm_op_step :: "'d plat \<Rightarrow> dm_op \<Rightarrow> 'd dm_timer \<Rightarrow> 'd dm_timer option" where
  "dm_op_step pl Enable t = Some (omap_dm_timer_enable t)"
| "dm_op_step pl Disable t = Some (omap_dm_timer_disable t)"
| "dm_op_step pl Start t = omap_dm_timer_start pl t"
| "dm_op_step pl Stop t = omap_dm_timer_stop pl t"
| "dm_op_step pl Trigger t = omap_dm_timer_trigger pl t"
| "dm_op_step pl (SetSource s) t = map_option snd (omap_dm_timer_set_source pl t s)"
| "dm_op_step pl (SetLoad ar v) t = omap_dm_timer_set_load pl t ar v"
| "dm_op_step pl (SetLoadStart ar v) t = omap_dm_timer_set_load_start pl t ar v"
| "dm_op_step pl (SetMatch en v) t = omap_dm_timer_set_match pl t en v"
| "dm_op_step pl (SetPwm on tg tr) t = omap_dm_timer_set_pwm pl t on tg tr"
| "dm_op_step pl (SetPrescaler p) t = omap_dm_timer_set_prescaler pl t p"
| "dm_op_step pl (SetIntEnable v) t = omap_dm_timer_set_int_enable pl t v"
| "dm_op_step pl (WriteStatus v) t = omap_dm_timer_write_status pl t v"
| "dm_op_step pl (WriteCounter v) t = omap_dm_timer_write_counter pl t v"
| "dm_op_step pl ReadStatus t = map_option snd (omap_dm_timer_read_status pl t)"
| "dm_op_step pl ReadCounter t = map_option snd (omap_dm_timer_read_counter pl t)"

lemma dm_op_frame:
  "dm_op_step pl op t = Some t' \<Longrightarrow> op \<noteq> Enable \<Longrightarrow> op \<noteq> Disable \<Longrightarrow> \<forall>src. op \<noteq> SetSource src \<Longrightarrow> dm_frame t t'"
proof (induction pl op t rule: dm_op_step.induct)
  case (3 pl t)
  then show ?case by (auto simp: omap_dm_timer_start_def split: bind_splits prod.splits if_splits
      dest!: reg_frames intro: dm_frame_trans)
next
  case (4 pl t)
  then show ?case by (auto simp: omap_dm_timer_stop_def dm_frame_def split: bind_splits prod.splits if_splits dest!: reg_frames)
next
  case (7 pl ar v t)
  then show ?case by (auto simp: omap_dm_timer_set_load_def Let_def dm_frame_def split: bind_splits prod.splits dest!: reg_frames)
next
  case (8 pl ar v t)
  then show ?case by (auto simp: omap_dm_timer_set_load_start_def Let_def dm_frame_def
      split: bind_splits prod.splits if_splits dest!: reg_frames)
next
  case (9 pl en v t)
  then show ?case by (auto simp: omap_dm_timer_set_match_def Let_def dm_frame_def split: bind_splits prod.splits dest!: reg_frames)
next
  case (10 pl on tg tr t)
  then show ?case unfolding dm_op_step.simps omap_dm_timer_set_pwm_def Let_def
    by (auto simp: dm_frame_def split: bind_splits prod.splits simp del: push_bit_numeral dest!: reg_frames)
next
  case (11 pl p t)
  then show ?case by (auto simp: omap_dm_timer_set_prescaler_def Let_def dm_frame_def split: bind_splits prod.splits dest!: reg_frames)
next
  case (12 pl v t)
  then show ?case by (auto simp: omap_dm_timer_set_int_enable_def dm_frame_def split: bind_splits dest!: reg_frames)
qed (auto simp: omap_dm_timer_trigger_def omap_dm_timer_write_status_def omap_dm_timer_write_counter_def
    omap_dm_timer_read_status_def omap_dm_timer_read_counter_def dest: reg_frames)

text \<open>A timer's clocks are in use exactly while the timer is enabled.\<close>

definition clocks_balanced :: "'d dm_timer \<Rightarrow> bool" where
  "clocks_balanced t \<longleftrightarrow> dt_fclk t = (if dt_enabled t then 1 else 0) \<and> dt_iclk t = (if dt_enabled t then 1 else 0)"

lemma clocks_balanced_frame: "dm_frame t t' \<Longrightarrow> clocks_balanced t \<Longrightarrow> clocks_balanced t'"
  by (simp add: clocks_balanced_def dm_frame_def)

lemma clocks_balanced_sourced: "dm_sourced t t' \<Longrightarrow> dt_enabled t \<Longrightarrow> clocks_balanced t \<Longrightarrow> clocks_balanced t'"
  by (simp add: clocks_balanced_def dm_sourced_def)

lemma clocks_balanced_switch [simp]:
  "clocks_balanced t \<Longrightarrow> clocks_balanced (omap_dm_timer_enable t)"
  "clocks_balanced t \<Longrightarrow> clocks_balanced (omap_dm_timer_disable t)"
  "clocks_balanced (t\<lparr>dt_reserved := b\<rparr>) = clocks_balanced t"
  by (auto simp: clocks_balanced_def omap_dm_timer_enable_def omap_dm_timer_disable_def clk_enable_def clk_disable_def)

text \<open>A call is in order if the clock source is changed only while the timer is enabled.\<close>

definition in_order :: "dm_op \<Rightarrow> 'd dm_timer \<Rightarrow> bool" where
  "in_order op t = (case op of SetSource src \<Rightarrow> dt_enabled t | _ \<Rightarrow> True)"

lemma dm_op_balanced:
  assumes "dm_op_step pl op t = Some t'" "in_order op t" "clocks_balanced t"
  shows "clocks_balanced t'"
proof (cases "\<exists>src. op = SetSource src")
  case True
  then obtain src r where "omap_dm_timer_set_source pl t src = Some (r, t')" "dt_enabled t" using assms(1,2) by (auto simp: in_order_def)
  then show ?thesis using set_source_frame clocks_balanced_sourced assms(3) by blast
next
  case False
  then show ?thesis using dm_op_frame [OF assms(1)] clocks_balanced_frame [of t t'] assms(1,3)
    by (cases "op = Enable \<or> op = Disable") auto
qed

text \<open>On a timer that is not enabled the clock has no user to take away, and one is left over.\<close>

lemma set_source_disabled:
  assumes "clocks_balanced t" "\<not> dt_enabled t" "0 \<le> src" "src < 2" "omap_dm_timer_set_source pl t src = Some (r, t')"
  shows "\<not> dt_enabled t' \<and> dt_fclk t' = 1"
  using assms by (auto simp: omap_dm_timer_set_source_def clocks_balanced_def Let_def clk_enable_def clk_disable_def split: if_splits)

text \<open>The calls on the set of timers, as a step relation.\<close>

inductive dm_step :: "'d plat \<Rightarrow> 'd dm_timer list \<Rightarrow> 'd dm_timer list \<Rightarrow> bool" for pl where
  request: "omap_dm_timer_request pl ts = Some (r, ts') \<Longrightarrow> dm_step pl ts ts'"
| request_specific: "omap_dm_timer_request_specific pl ts tid = Some (r, ts') \<Longrightarrow> dm_step pl ts ts'"
| free: "i < length ts \<Longrightarrow> omap_dm_timer_free pl i (ts ! i) = Some t \<Longrightarrow> dm_step pl ts (ts[i := t])"
| operate: "i < length ts \<Longrightarrow> in_order op (ts ! i) \<Longrightarrow> dm_op_step pl op (ts ! i) = Some t \<Longrightarrow> dm_step pl ts (ts[i := t])"

inductive dm_reach :: "'d plat \<Rightarrow> 'd dm_timer list \<Rightarrow> 'd dm_timer list \<Rightarrow> bool" for pl ts where
  init: "dm_reach pl ts ts"
| step: "dm_reach pl ts ts' \<Longrightarrow> dm_step pl ts' ts'' \<Longrightarrow> dm_reach pl ts ts''"

lemma prepare_shape:
  "omap_dm_timer_prepare pl i t = Some t' \<Longrightarrow> dm_sourced (omap_dm_timer_enable t) t' \<and> dt_posted t'"
  by (simp add: omap_dm_timer_prepare_def reset_frame)

lemma first_free_Some: "first_free ts = Some i \<Longrightarrow> i < length ts \<and> \<not> dt_reserved (ts ! i)"
  by (induction ts arbitrary: i) (auto split: if_splits)

lemma first_free_None: "first_free ts = None \<Longrightarrow> \<forall>t \<in> set ts. dt_reserved t"
  by (induction ts) (auto split: if_splits)

lemma enable_reserved [simp]: "dt_reserved (omap_dm_timer_enable t) = dt_reserved t" "dt_enabled (omap_dm_timer_enable t)"
  by (simp_all add: omap_dm_timer_enable_def)

lemma request_shape:
  assumes "omap_dm_timer_request pl ts = Some (r, ts') \<or> omap_dm_timer_request_specific pl ts tid = Some (r, ts')"
  shows "case r of None \<Rightarrow> ts' = ts
    | Some i \<Rightarrow> i < length ts \<and> \<not> dt_reserved (ts ! i)
        \<and> (\<exists>t. ts' = ts[i := t] \<and> omap_dm_timer_prepare pl i ((ts ! i)\<lparr>dt_reserved := True\<rparr>) = Some t)"
  using assms
proof
  assume a: "omap_dm_timer_request pl ts = Some (r, ts')"
  show ?thesis
  proof (cases "first_free ts")
    case None
    then show ?thesis using a by (auto simp: omap_dm_timer_request_def)
  next
    case (Some i)
    with a first_free_Some [OF Some] show ?thesis
      by (cases r) (auto simp: omap_dm_timer_request_def split: bind_splits)
  qed
next
  assume "omap_dm_timer_request_specific pl ts tid = Some (r, ts')"
  then show ?thesis
    by (auto simp: omap_dm_timer_request_specific_def Let_def split: if_splits bind_splits)
qed

lemma all_nth_update: "(\<forall>x \<in> set xs. P x) \<Longrightarrow> P y \<Longrightarrow> \<forall>x \<in> set (xs[i := y]). P x"
  using set_update_subset_insert [of xs i y] by auto

lemma dm_step_balanced:
  assumes "dm_step pl ts ts'" "\<forall>t \<in> set ts. clocks_balanced t"
  shows "\<forall>t \<in> set ts'. clocks_balanced t"
proof -
  have req: "\<forall>t \<in> set ts'. clocks_balanced t"
    if "omap_dm_timer_request pl ts = Some (r, ts') \<or> omap_dm_timer_request_specific pl ts tid = Some (r, ts')" for r tid
  proof (cases r)
    case (Some i)
    with request_shape [OF that] obtain t where t: "i < length ts" "ts' = ts[i := t]"
      "omap_dm_timer_prepare pl i ((ts ! i)\<lparr>dt_reserved := True\<rparr>) = Some t" by auto
    have "clocks_balanced t"
      using prepare_shape [OF t(3)] assms(2) t(1) by (auto elim!: clocks_balanced_sourced)
    then show ?thesis using t(2) all_nth_update [OF assms(2)] by simp
  qed (use request_shape [OF that] assms(2) in simp)
  show ?thesis using assms(1)
  proof cases
    case (free i t)
    then obtain t0 where "omap_dm_timer_reset pl i (omap_dm_timer_enable (ts ! i)) = Some t0"
      and "t = (omap_dm_timer_disable t0)\<lparr>dt_reserved := False\<rparr>"
      by (auto simp: omap_dm_timer_free_def split: bind_splits)
    moreover from this(1) have "clocks_balanced t0" using assms(2) free(2) reset_frame
      by (metis clocks_balanced_sourced clocks_balanced_switch(1) enable_reserved(2) nth_mem)
    ultimately have "clocks_balanced t" by simp
    then show ?thesis using free(1) all_nth_update [OF assms(2)] by simp
  next
    case (operate i op t)
    then have "clocks_balanced t" using assms(2) dm_op_balanced by (metis nth_mem)
    then show ?thesis using operate(1) all_nth_update [OF assms(2)] by simp
  qed (use req in blast)+
qed

subsection \<open>A simulated timer\<close>

text \<open>
  A device with posted writes, for concrete runs: every write leaves all write-pending bits set for
  two polls.
\<close>

type_synonym sim_dev = "(nat \<Rightarrow> u32) \<times> u32 \<times> nat"

fun sim_readl :: "sim_dev \<Rightarrow> nat \<Rightarrow> u32 \<times> sim_dev" where
  "sim_readl (m, p, n) off =
     (if off = 0x34 then (p, if n = 0 then (m, 0, 0) else (m, p, n - 1)) else (m off, (m, p, n)))"

fun sim_writel :: "sim_dev \<Rightarrow> nat \<Rightarrow> u32 \<Rightarrow> sim_dev" where
  "sim_writel (m, p, n) off v = (m(off := v), 0x3ff, 1)"

definition sim_plat :: "sim_dev plat" where
  "sim_plat = \<lparr>pl_readl = sim_readl, pl_writel = sim_writel, pl_set_parent = (\<lambda>_. 0), pl_rate = 26000000\<rparr>"

fun sim_view :: "sim_dev \<Rightarrow> dm_reg \<Rightarrow> u32" where
  "sim_view (m, p, n) reg = m (reg_off reg)"

fun sim_pend :: "sim_dev \<Rightarrow> u32" where
  "sim_pend (m, p, n) = p"

fun sim_lat :: "sim_dev \<Rightarrow> nat" where
  "sim_lat (m, p, n) = (if p = 0 then 0 else Suc n)"

lemma reg_off_eval: "reg_off TIMER_CTRL = 0x24" "reg_off TIMER_LOAD = 0x2c" "reg_off TIMER_MATCH = 0x38"
    "reg_off TIMER_STAT = 0x18" "reg_off TIMER_INT_EN = 0x1c" "reg_off TIMER_WAKEUP_EN = 0x20" "reg_off TIMER_COUNTER = 0x28"
    "reg_off TIMER_TRIGGER = 0x30" "reg_off TIMER_WRITE_PEND = 0x34"
  by (simp_all add: reg_off_def)

lemma sim_hw_posted: "hw_posted sim_plat sim_view sim_pend sim_lat"
  by (auto simp: hw_posted_def sim_plat_def reg_off_eval op_regs_def split: if_splits)

definition sim_timer :: "sim_dev dm_timer" where
  "sim_timer = \<lparr>dt_irq = 46, dt_reserved = True, dt_enabled = True, dt_posted = True, dt_iclk = 1, dt_fclk = 1,
     dt_dev = ((\<lambda>_. 0)(0x24 := 3), 0x3ff, 5)\<rparr>"

subsection \<open>Properties\<close>

lemma dm_init_balanced: "\<forall>t \<in> set (omap_dm_timer_init ioremap). clocks_balanced t"
  by (auto simp: omap_dm_timer_init_def clocks_balanced_def)

text \<open>C31. Clock accounting: after any sequence of timer calls from the initial state, requests and frees of timers and operations on any of them included, where the clock source is changed
  only while the timer is enabled and the clocks can be switched on, each timer uses its functional and its interface clock exactly once while it is enabled and not at all while it is
  not. (On a timer that is not enabled, changing the source leaves a user behind, see \<open>set_source_disabled\<close>.)\<close>

theorem dm_timer_clocks_balanced:
  assumes "dm_reach pl (omap_dm_timer_init ioremap) ts" and "t \<in> set ts"
  shows "dt_fclk t = (if dt_enabled t then 1 else 0) \<and> dt_iclk t = (if dt_enabled t then 1 else 0)"
proof -
  have "\<forall>t \<in> set ts. clocks_balanced t"
    using assms(1) by (induction rule: dm_reach.induct) (use dm_init_balanced dm_step_balanced in blast)+
  with assms(2) show ?thesis by (simp add: clocks_balanced_def)
qed

lemma sim_enable_reach:
  "dm_reach sim_plat (omap_dm_timer_init (\<lambda>_. (\<lambda>_. 0, 0, 0)))
     ((omap_dm_timer_init (\<lambda>_. (\<lambda>_. 0, 0, 0)))[3 := omap_dm_timer_enable (omap_dm_timer_init (\<lambda>_. (\<lambda>_. 0, 0, 0)) ! 3)])"
  by (rule dm_reach.step [OF dm_reach.init dm_step.operate [where op = Enable]])
    (simp_all add: in_order_def omap_dm_timer_init_def omap3_dm_timers_def)

theorem dm_timer_clocks_balanced_witness:
  "dt_fclk (omap_dm_timer_enable (omap_dm_timer_init (\<lambda>_. (\<lambda>_. 0, 0, 0) :: sim_dev) ! 3)) = 1"
proof -
  have "dt_enabled (omap_dm_timer_enable (omap_dm_timer_init (\<lambda>_. (\<lambda>_. 0, 0, 0) :: sim_dev) ! 3))" by simp
  moreover have "3 < length (omap_dm_timer_init (\<lambda>_. (\<lambda>_. 0, 0, 0) :: sim_dev))"
    by (simp add: omap_dm_timer_init_def omap3_dm_timers_def)
  ultimately show ?thesis
    using dm_timer_clocks_balanced [OF sim_enable_reach] by (metis set_update_memI)
qed

text \<open>C32. Exclusive allocation: when a request for any timer, or for a given one, returns a timer, that timer
  was free before, is reserved, enabled and in posted mode afterwards, and no other timer changed; when it returns
  NULL nothing changed, and a request for any timer does so only if all are reserved.\<close>

theorem dm_timer_request_exclusive:
  assumes "omap_dm_timer_request pl ts = Some (r, ts') \<or> omap_dm_timer_request_specific pl ts tid = Some (r, ts')"
  shows "case r of
      None \<Rightarrow> ts' = ts \<and> (omap_dm_timer_request pl ts = Some (None, ts) \<longrightarrow> (\<forall>t \<in> set ts. dt_reserved t))
    | Some i \<Rightarrow> i < length ts \<and> length ts' = length ts \<and> \<not> dt_reserved (ts ! i)
        \<and> dt_reserved (ts' ! i) \<and> dt_enabled (ts' ! i) \<and> dt_posted (ts' ! i)
        \<and> (\<forall>j < length ts. j \<noteq> i \<longrightarrow> ts' ! j = ts ! j)"
proof (cases r)
  case None
  have "omap_dm_timer_request pl ts = Some (None, ts) \<longrightarrow> (\<forall>t \<in> set ts. dt_reserved t)"
    using first_free_None [of ts] by (auto simp: omap_dm_timer_request_def split: option.splits bind_splits)
  with None request_shape [OF assms] show ?thesis by simp
next
  case (Some i)
  with request_shape [OF assms] obtain t where t: "i < length ts" "\<not> dt_reserved (ts ! i)" "ts' = ts[i := t]"
    "omap_dm_timer_prepare pl i ((ts ! i)\<lparr>dt_reserved := True\<rparr>) = Some t" by auto
  then show ?thesis using Some prepare_shape [OF t(4)] by (auto simp: dm_sourced_def)
qed

theorem dm_timer_request_exclusive_witness:
  "\<exists>ts'. omap_dm_timer_request sim_plat (omap_dm_timer_init (\<lambda>_. (\<lambda>_. 0, 0, 0))) = Some (Some 0, ts')
     \<and> dt_reserved (ts' ! 0) \<and> dt_enabled (ts' ! 0) \<and> dt_posted (ts' ! 0)
     \<and> ts' ! 1 = omap_dm_timer_init (\<lambda>_. (\<lambda>_. 0, 0, 0)) ! 1"
proof -
  let ?ts = "omap_dm_timer_init (\<lambda>_. (\<lambda>_. 0, 0, 0)) :: sim_dev dm_timer list"
  have l: "length ?ts = 12" by (simp add: omap_dm_timer_init_def omap3_dm_timers_def)
  obtain ts' where r: "omap_dm_timer_request sim_plat ?ts = Some (Some 0, ts')"
    by (simp add: omap_dm_timer_request_def omap_dm_timer_init_def omap3_dm_timers_def omap_dm_timer_prepare_def
        omap_dm_timer_enable_def omap_dm_timer_reset_def omap_dm_timer_set_source_def omap_dm_timer_read_reg_def
        omap_dm_timer_write_reg_def dm_settle_def sim_plat_def Let_def reg_off_def)
  from dm_timer_request_exclusive [OF disjI1 [OF r]] l r show ?thesis by auto
qed

end
