(* ===== verification/Pwm.thy ===== *)
theory Pwm
  imports DmTimer
begin

text \<open>
  The PWM driver (\<^verbatim>\<open>arch/arm/plat-omap/pwm.c\<close>): the list of PWM devices with their single-user
  reservation, programming a dual-mode timer for a period and a duty cycle, and binding devices to
  timers. A pointer to a PWM device is a natural number; \<open>pwm_lock\<close> only orders the operations.
  The theorems give the register contents \<open>pwm_config\<close> leaves behind on any posted-mode hardware, the
  exclusive use of a PWM, and the ownership of timers by bound devices.
\<close>

record pwm_device =
  pw_ptr :: nat
  pw_timer :: nat
  pw_polarity :: bool
  pw_label :: "string option"
  pw_use :: nat
  pw_id :: int

subsection \<open>Reservation\<close>

fun pwm_request :: "pwm_device list \<Rightarrow> int \<Rightarrow> string option \<Rightarrow> (int + nat) \<times> pwm_device list" where
  "pwm_request [] pwm_id label = (Inl (- ENOENT), [])"
| "pwm_request (pwm # pwms) pwm_id label =
     (if pw_id pwm = pwm_id then
        (if pw_use pwm = 0
         then (Inr (pw_ptr pwm), pwm\<lparr>pw_use := pw_use pwm + 1, pw_label := label\<rparr> # pwms)
         else (Inl (- EBUSY), pwm # pwms))
      else (let (r, pwms) = pwm_request pwms pwm_id label in (r, pwm # pwms)))"

definition pwm_free_dev :: "pwm_device \<Rightarrow> pwm_device" where
  "pwm_free_dev pwm = (if pw_use pwm \<noteq> 0 then pwm\<lparr>pw_use := pw_use pwm - 1, pw_label := None\<rparr> else pwm)"

definition pwm_free :: "pwm_device list \<Rightarrow> nat \<Rightarrow> pwm_device list" where
  "pwm_free pwms ptr = map (\<lambda>pwm. if pw_ptr pwm = ptr then pwm_free_dev pwm else pwm) pwms"

subsection \<open>Configuration\<close>

text \<open>The \<open>int\<close> parameters are 32-bit words read as signed; the product is computed in 64 bits.\<close>

definition DM_TIMER_LOAD_PWM_MIN :: u32 where
  "DM_TIMER_LOAD_PWM_MIN = 0xFFFFFFFD"

definition pwm_calc_value :: "u32 \<Rightarrow> 32 word \<Rightarrow> u32" where
  "pwm_calc_value clk_rate ns =
     (let c = (ucast clk_rate * scast ns) div (1000000000 :: u64);
          cycles = ucast c
      in DM_TIMER_LOAD_PWM_MIN - cycles)"

definition pwm_config :: "'d plat \<Rightarrow> pwm_device \<Rightarrow> 'd dm_timer \<Rightarrow> 32 word \<Rightarrow> 32 word \<Rightarrow> (int \<times> 'd dm_timer) option" where
  "pwm_config pl pwm t duty_ns period_ns = do {
     let clk_rate = pl_rate pl;
     let load_value = pwm_calc_value clk_rate period_ns;
     let match_value = pwm_calc_value clk_rate (period_ns - duty_ns);
     let t = omap_dm_timer_enable t;
     t \<leftarrow> omap_dm_timer_stop pl t;
     let enable = (duty_ns \<noteq> period_ns);
     t \<leftarrow> omap_dm_timer_set_load pl t True load_value;
     t \<leftarrow> omap_dm_timer_set_match pl t enable match_value;
     t \<leftarrow> omap_dm_timer_set_pwm pl t (\<not> pw_polarity pwm) True 2;
     Some (0, omap_dm_timer_disable t) }"

definition pwm_enable :: "'d plat \<Rightarrow> 'd dm_timer \<Rightarrow> (int \<times> 'd dm_timer) option" where
  "pwm_enable pl t = do {
     let t = omap_dm_timer_enable t;
     t \<leftarrow> omap_dm_timer_write_counter pl t DM_TIMER_LOAD_PWM_MIN;
     t \<leftarrow> omap_dm_timer_start pl t;
     Some (0, t) }"

definition pwm_disable :: "'d plat \<Rightarrow> 'd dm_timer \<Rightarrow> 'd dm_timer option" where
  "pwm_disable pl t = do {
     let t = omap_dm_timer_enable t;
     t \<leftarrow> omap_dm_timer_stop pl t;
     Some (omap_dm_timer_disable t) }"

subsection \<open>Binding\<close>

record 'd pwm_sys =
  sys_pwms :: "pwm_device list"
  sys_timers :: "'d dm_timer list"

record pwm_pdata =
  pd_timer_id :: int
  pd_polarity :: bool

text \<open>\<open>mem\<close> is the pointer \<open>kzalloc\<close> returns, \<open>None\<close> for NULL. Without platform data the kernel
  stops at \<open>BUG_ON\<close>: \<open>None\<close>.\<close>

definition omap_pwm_probe :: "'d plat \<Rightarrow> int \<Rightarrow> pwm_pdata option \<Rightarrow> nat option \<Rightarrow> 'd pwm_sys \<Rightarrow> (int \<times> 'd pwm_sys) option" where
  "omap_pwm_probe pl dev_id pdata mem s = (case pdata of None \<Rightarrow> None | Some pd \<Rightarrow>
     (case mem of None \<Rightarrow> Some (- ENOMEM, s) | Some ptr \<Rightarrow> do {
        (r, ts) \<leftarrow> omap_dm_timer_request_specific pl (sys_timers s) (pd_timer_id pd);
        (case r of None \<Rightarrow> Some (- ENOENT, s\<lparr>sys_timers := ts\<rparr>)
         | Some i \<Rightarrow> do {
             (_, t) \<leftarrow> omap_dm_timer_set_source pl (ts ! i) 0;
             let pwm = \<lparr>pw_ptr = ptr, pw_timer = i, pw_polarity = pd_polarity pd, pw_label = None, pw_use = 0, pw_id = dev_id\<rparr>;
             Some (0, s\<lparr>sys_pwms := sys_pwms s @ [pwm], sys_timers := ts[i := t]\<rparr>) }) }))"

text \<open>\<open>drvdata\<close> is the device stored with the platform device, \<open>None\<close> for NULL.\<close>

definition omap_pwm_remove :: "'d plat \<Rightarrow> pwm_device option \<Rightarrow> 'd pwm_sys \<Rightarrow> (int \<times> 'd pwm_sys) option" where
  "omap_pwm_remove pl drvdata s = (case drvdata of None \<Rightarrow> Some (- ENODEV, s)
     | Some pwm \<Rightarrow> do {
         let s = s\<lparr>sys_pwms := filter (\<lambda>p. pw_ptr p \<noteq> pw_ptr pwm) (sys_pwms s)\<rparr>;
         t \<leftarrow> omap_dm_timer_free pl (pw_timer pwm) (sys_timers s ! pw_timer pwm);
         Some (0, s\<lparr>sys_timers := (sys_timers s)[pw_timer pwm := t]\<rparr>) })"

subsection \<open>Counter values\<close>

lemma scast_nonneg: "0 \<le> sint (ns :: 32 word) \<Longrightarrow> unat (scast ns :: u64) = unat ns"
proof -
  assume a: "0 \<le> sint ns"
  have lt: "sint ns < 2 ^ 31" using sint_lt [of ns] by simp
  have "uint ns = take_bit 32 (sint ns)" by (simp add: uint_sint)
  then have 1: "uint ns = sint ns" using a lt by (simp add: take_bit_int_eq_self)
  have "uint (scast ns :: u64) = take_bit 64 (sint ns)" unfolding scast_eq by (subst uint_word_of_int_eq) simp
  then have "uint (scast ns :: u64) = sint ns" using a lt by (simp add: take_bit_int_eq_self)
  with 1 have "uint (scast ns :: u64) = uint ns" by simp
  then show ?thesis by (simp flip: nat_uint_eq)
qed

lemma pwm_calc_value_exact:
  assumes "0 \<le> sint ns" "unat clk * unat ns div 1000000000 \<le> 0xFFFFFFFD"
  shows "unat (pwm_calc_value clk ns) = 0xFFFFFFFD - unat clk * unat ns div 1000000000"
proof -
  have n: "unat (scast ns :: u64) = unat ns" using assms(1) by (rule scast_nonneg)
  have c: "unat (ucast clk :: u64) = unat clk" using unat_lt_32 [of clk] by (simp add: unsigned_ucast_eq take_bit_nat_eq_self)
  have "unat clk * unat ns < 2 ^ 32 * 2 ^ 32" using unat_lt_32 [of clk] unat_lt_32 [of ns] by (intro mult_strict_mono) simp_all
  then have m: "unat (ucast clk * scast ns :: u64) = unat clk * unat ns"
    using n c by (subst unat_mult_small) simp_all
  let ?q = "(ucast clk * scast ns) div (1000000000 :: u64)"
  have q: "unat ?q = unat clk * unat ns div 1000000000" using m by (simp add: unat_div)
  then have u: "unat (ucast ?q :: u32) = unat clk * unat ns div 1000000000"
    using assms(2) by (simp add: unsigned_ucast_eq take_bit_nat_eq_self)
  then show ?thesis unfolding pwm_calc_value_def Let_def DM_TIMER_LOAD_PWM_MIN_def
    using assms(2) by (subst unat_diff_small) simp_all
qed

lemma enable_keeps [simp]: "dt_posted (omap_dm_timer_enable t) = dt_posted t" "dt_dev (omap_dm_timer_enable t) = dt_dev t"
  by (simp_all add: omap_dm_timer_enable_def)

lemma disable_keeps [simp]: "dt_posted (omap_dm_timer_disable t) = dt_posted t" "dt_dev (omap_dm_timer_disable t) = dt_dev t"
    "\<not> dt_enabled (omap_dm_timer_disable t)"
  by (simp_all add: omap_dm_timer_disable_def)

lemma dm_afterD: "dm_after view t f t' \<Longrightarrow> dt_posted t' = dt_posted t \<and> dt_enabled t' = dt_enabled t \<and>
    view (dt_dev t') TIMER_CTRL = f TIMER_CTRL \<and> view (dt_dev t') TIMER_LOAD = f TIMER_LOAD \<and> view (dt_dev t') TIMER_MATCH = f TIMER_MATCH"
  unfolding dm_after_def by (metis dm_timer.select_convs(3,4) dm_timer.surjective dm_timer.update_convs(7) stable_regs_iff)

text \<open>The control word \<open>pwm_config\<close> computes from the one it finds.\<close>

definition pwm_ctrl :: "bool \<Rightarrow> bool \<Rightarrow> u32 \<Rightarrow> u32" where
  "pwm_ctrl polarity enable l =
     ((if enable then ((l AND NOT 1) OR CTRL_AR) OR CTRL_CE else ((l AND NOT 1) OR CTRL_AR) AND NOT CTRL_CE)
        AND NOT (CTRL_GPOCFG OR CTRL_SCPWM OR CTRL_PT OR push_bit 10 0x03))
      OR (if \<not> polarity then CTRL_SCPWM else 0) OR (if True then CTRL_PT else 0) OR push_bit 10 2"

lemma pwm_config_registers:
  assumes "hw_posted pl view pend lat" "dt_posted t" "pl_rate pl \<noteq> 0"
  shows "returns (pwm_config pl pwm t duty period) (\<lambda>(r, t'). r = 0 \<and> dt_posted t' \<and> \<not> dt_enabled t'
    \<and> view (dt_dev t') TIMER_CTRL = pwm_ctrl (pw_polarity pwm) (duty \<noteq> period) (view (dt_dev t) TIMER_CTRL)
    \<and> view (dt_dev t') TIMER_LOAD = pwm_calc_value (pl_rate pl) period
    \<and> view (dt_dev t') TIMER_MATCH = pwm_calc_value (pl_rate pl) (period - duty))"
  unfolding pwm_config_def Let_def
proof (rule returns_bind, rule returns_mono, rule stop_ok [OF assms(1) _ assms(3)])
  fix t1
  assume "dm_after view (omap_dm_timer_enable t) ((view (dt_dev (omap_dm_timer_enable t)))
    (TIMER_CTRL := view (dt_dev (omap_dm_timer_enable t)) TIMER_CTRL AND NOT 1)) t1"
  note d1 = dm_afterD [OF this]
  then have p1: "dt_posted t1" using assms(2) by simp
  show "returns (Option.bind (omap_dm_timer_set_load pl t1 True (pwm_calc_value (pl_rate pl) period))
     (\<lambda>t. Option.bind (omap_dm_timer_set_match pl t (duty \<noteq> period) (pwm_calc_value (pl_rate pl) (period - duty)))
     (\<lambda>t. Option.bind (omap_dm_timer_set_pwm pl t (\<not> pw_polarity pwm) True 2) (\<lambda>t. Some (0, omap_dm_timer_disable t)))))
    (\<lambda>(r, t'). r = 0 \<and> dt_posted t' \<and> \<not> dt_enabled t'
    \<and> view (dt_dev t') TIMER_CTRL = pwm_ctrl (pw_polarity pwm) (duty \<noteq> period) (view (dt_dev t) TIMER_CTRL)
    \<and> view (dt_dev t') TIMER_LOAD = pwm_calc_value (pl_rate pl) period
    \<and> view (dt_dev t') TIMER_MATCH = pwm_calc_value (pl_rate pl) (period - duty))"
  proof (rule returns_bind, rule returns_mono, rule set_load_ok [OF assms(1) p1],
      rule returns_bind, rule returns_mono, rule set_match_ok [OF assms(1)], goal_cases)
    case (1 t2)
    then show ?case using p1 by (auto dest: dm_afterD)
  next
    case (2 t2 t3)
    note d2 = dm_afterD [OF 2(1)] and d3 = dm_afterD [OF 2(2)]
    then have p3: "dt_posted t3" using p1 by simp
    show ?case
    proof (rule returns_bind, rule returns_mono, rule set_pwm_ok [OF assms(1) p3])
      fix t4
      assume "dm_after view t3 ((view (dt_dev t3))(TIMER_CTRL :=
         (view (dt_dev t3) TIMER_CTRL AND NOT (CTRL_GPOCFG OR CTRL_SCPWM OR CTRL_PT OR push_bit 10 0x03))
           OR (if \<not> pw_polarity pwm then CTRL_SCPWM else 0) OR (if True then CTRL_PT else 0) OR push_bit 10 2)) t4"
      note d4 = dm_afterD [OF this]
      have c: "view (dt_dev t4) TIMER_CTRL = pwm_ctrl (pw_polarity pwm) (duty \<noteq> period) (view (dt_dev t) TIMER_CTRL)"
        unfolding pwm_ctrl_def using d1 d2 d3 d4 by (simp only: fun_upd_apply dm_reg.distinct enable_keeps if_True if_False refl simp_thms)
      show "returns (Some (0, omap_dm_timer_disable t4)) (\<lambda>(r, t'). r = 0 \<and> dt_posted t' \<and> \<not> dt_enabled t'
        \<and> view (dt_dev t') TIMER_CTRL = pwm_ctrl (pw_polarity pwm) (duty \<noteq> period) (view (dt_dev t) TIMER_CTRL)
        \<and> view (dt_dev t') TIMER_LOAD = pwm_calc_value (pl_rate pl) period
        \<and> view (dt_dev t') TIMER_MATCH = pwm_calc_value (pl_rate pl) (period - duty))"
        using c d2 d3 d4 p3 by (simp only: returns_Some prod.case disable_keeps fun_upd_apply dm_reg.distinct if_True if_False refl simp_thms)
    qed
  qed
qed (use assms(2) in simp)

lemma pwm_ctrl_bits:
  "bit (pwm_ctrl polarity enable l) 0 = False" "bit (pwm_ctrl polarity enable l) 1 = True"
  "bit (pwm_ctrl polarity enable l) 6 = enable" "bit (pwm_ctrl polarity enable l) 7 = (\<not> polarity)"
  "bit (pwm_ctrl polarity enable l) 10 = False" "bit (pwm_ctrl polarity enable l) 11 = True"
  "bit (pwm_ctrl polarity enable l) 12 = True"
  unfolding pwm_ctrl_def by (auto simp: bit_simps)

subsection \<open>Reservation\<close>

lemma pwm_request_skip: "\<forall>x \<in> set xs. pw_id x \<noteq> pid \<Longrightarrow>
    pwm_request (xs @ ps) pid label = (fst (pwm_request ps pid label), xs @ snd (pwm_request ps pid label))"
  by (induction xs) (auto simp: split_beta)

lemma pwm_request_result:
  "pwm_request ps pid label = (r, ps') \<Longrightarrow> case r of
     Inr ptr \<Rightarrow> \<exists>xs p ys. ps = xs @ p # ys \<and> (\<forall>x \<in> set xs. pw_id x \<noteq> pid) \<and> pw_id p = pid \<and> pw_use p = 0
        \<and> ptr = pw_ptr p \<and> ps' = xs @ p\<lparr>pw_use := 1, pw_label := label\<rparr> # ys
   | Inl e \<Rightarrow> ps' = ps \<and> (e = - EBUSY \<and> (\<exists>p \<in> set ps. pw_id p = pid \<and> pw_use p \<noteq> 0)
        \<or> e = - ENOENT \<and> (\<forall>p \<in> set ps. pw_id p \<noteq> pid))"
proof (induction ps arbitrary: r ps')
  case (Cons p ps)
  show ?case
  proof (cases "pw_id p = pid")
    case True
    then show ?thesis using Cons.prems by (auto split: if_splits intro!: exI [of _ "[]"])
  next
    case False
    obtain r0 ps0 where r0: "pwm_request ps pid label = (r0, ps0)" by fastforce
    with Cons.prems False have "r = r0" "ps' = p # ps0" by auto
    with Cons.IH [OF r0] False show ?thesis
      by (auto split: sum.splits) (metis (no_types, lifting) append_Cons set_ConsD)
  qed
qed auto

definition pwms_ok :: "pwm_device list \<Rightarrow> bool" where
  "pwms_ok ps \<longleftrightarrow> distinct (map pw_ptr ps) \<and> (\<forall>p \<in> set ps. pw_use p \<le> 1)"

lemma pwms_ok_free: "pwms_ok ps \<Longrightarrow> pwms_ok (pwm_free ps ptr)"
proof -
  assume ok: "pwms_ok ps"
  have "map pw_ptr (pwm_free ps ptr) = map pw_ptr ps" by (simp add: pwm_free_def pwm_free_dev_def)
  moreover have "\<forall>p \<in> set (pwm_free ps ptr). pw_use p \<le> 1"
    using ok by (auto simp: pwms_ok_def pwm_free_def pwm_free_dev_def)
  ultimately show ?thesis using ok by (simp only: pwms_ok_def simp_thms)
qed

subsection \<open>Bound devices\<close>

text \<open>Each device on the list has a timer of its own, reserved, and a pointer of its own.\<close>

definition sys_ok :: "'d pwm_sys \<Rightarrow> bool" where
  "sys_ok s \<longleftrightarrow> distinct (map pw_timer (sys_pwms s)) \<and> distinct (map pw_ptr (sys_pwms s))
     \<and> (\<forall>p \<in> set (sys_pwms s). pw_timer p < length (sys_timers s) \<and> dt_reserved (sys_timers s ! pw_timer p))"

lemma probe_cases:
  assumes "omap_pwm_probe pl did pdata mem s = Some (r, s')"
  shows "if r = 0 then \<exists>pd ptr i t t'. pdata = Some pd \<and> mem = Some ptr \<and> i < length (sys_timers s) \<and> \<not> dt_reserved (sys_timers s ! i)
       \<and> int i = pd_timer_id pd - 1
       \<and> dt_reserved t' \<and> dt_posted t' \<and> sys_timers s' = (sys_timers s)[i := t'] \<and> sys_pwms s' = sys_pwms s @
          [\<lparr>pw_ptr = ptr, pw_timer = i, pw_polarity = pd_polarity pd, pw_label = None, pw_use = 0, pw_id = did\<rparr>]
     else s' = s \<and> (r = - ENOMEM \<and> mem = None \<or> r = - ENOENT)"
proof -
  obtain pd where pd: "pdata = Some pd" using assms by (auto simp: omap_pwm_probe_def split: option.splits)
  show ?thesis
  proof (cases mem)
    case None
    then show ?thesis using assms pd by (auto simp: omap_pwm_probe_def)
  next
    case (Some ptr)
    with assms pd obtain q ts where q: "omap_dm_timer_request_specific pl (sys_timers s) (pd_timer_id pd) = Some (q, ts)"
      by (auto simp: omap_pwm_probe_def split: bind_splits)
    note sh = request_shape [OF disjI2 [OF q]]
    show ?thesis
    proof (cases q)
      case None
      then show ?thesis using assms pd Some q sh by (auto simp: omap_pwm_probe_def)
    next
      case i: (Some i)
      with sh obtain t where t: "i < length (sys_timers s)" "\<not> dt_reserved (sys_timers s ! i)" "ts = (sys_timers s)[i := t]"
        "omap_dm_timer_prepare pl i ((sys_timers s ! i)\<lparr>dt_reserved := True\<rparr>) = Some t" by auto
      have ii: "int i = pd_timer_id pd - 1"
        using q i by (auto simp: omap_dm_timer_request_specific_def Let_def split: if_splits bind_splits)
      have tt: "dt_reserved t" "dt_posted t" using prepare_shape [OF t(4)] by (simp_all add: dm_sourced_def)
      define t' where "t' = t\<lparr>dt_fclk := clk_enable (clk_disable (dt_fclk t))\<rparr>"
      have tt': "dt_reserved t'" "dt_posted t'" using tt by (simp_all add: t'_def)
      have "r = 0" "sys_timers s' = (sys_timers s)[i := t']" "sys_pwms s' = sys_pwms s @
          [\<lparr>pw_ptr = ptr, pw_timer = i, pw_polarity = pd_polarity pd, pw_label = None, pw_use = 0, pw_id = did\<rparr>]"
        using assms pd Some q i t(1,3) by (auto simp: omap_pwm_probe_def omap_dm_timer_set_source_def Let_def t'_def)
      then show ?thesis using pd Some t(1,2) tt' ii by auto
    qed
  qed
qed

lemma sys_ok_probe:
  assumes "omap_pwm_probe pl did pdata mem s = Some (r, s')" "sys_ok s"
    and "\<forall>ptr. mem = Some ptr \<longrightarrow> ptr \<notin> pw_ptr ` set (sys_pwms s)"
  shows "sys_ok s'"
  using probe_cases [OF assms(1)] assms(2,3)
  by (auto simp: sys_ok_def nth_list_update split: if_splits)

lemma free_reserved: "omap_dm_timer_free pl i t = Some t' \<Longrightarrow> \<not> dt_reserved t'"
  by (auto simp: omap_dm_timer_free_def split: bind_splits)

lemma sys_ok_remove:
  assumes "omap_pwm_remove pl (Some p) s = Some (r, s')" "sys_ok s" "p \<in> set (sys_pwms s)"
  shows "sys_ok s'" and "\<not> dt_reserved (sys_timers s' ! pw_timer p)" and "set (sys_pwms s') = set (sys_pwms s) - {p}"
proof -
  from assms(1) obtain t where t: "omap_dm_timer_free pl (pw_timer p) (sys_timers s ! pw_timer p) = Some t"
    and s': "s' = s\<lparr>sys_pwms := filter (\<lambda>q. pw_ptr q \<noteq> pw_ptr p) (sys_pwms s), sys_timers := (sys_timers s)[pw_timer p := t]\<rparr>"
    by (auto simp: omap_pwm_remove_def Let_def split: bind_splits)
  have eq: "q = p" if "q \<in> set (sys_pwms s)" "pw_ptr q = pw_ptr p \<or> pw_timer q = pw_timer p" for q
    using that assms(2,3) by (auto simp: sys_ok_def distinct_map inj_on_def)
  show "set (sys_pwms s') = set (sys_pwms s) - {p}" using s' eq by auto
  have "pw_timer p < length (sys_timers s)" using assms(2,3) by (simp add: sys_ok_def)
  then show "\<not> dt_reserved (sys_timers s' ! pw_timer p)" using s' free_reserved [OF t] by simp
  have ne: "pw_timer p \<noteq> pw_timer q" if "q \<in> set (sys_pwms s)" "pw_ptr q \<noteq> pw_ptr p" for q
    using that eq by metis
  show "sys_ok s'" using assms(2) s' ne
    by (auto simp: sys_ok_def distinct_map_filter)
qed

subsection \<open>Properties\<close>

text \<open>C33. Programming a PWM: on hardware whose posted writes complete, \<open>pwm_config\<close> returns 0 and leaves the
  timer stopped and switched off, in auto-reload and toggle mode with triggers on overflow and compare, the output
  polarity as configured, and compare enabled exactly if the duty cycle is not 100%. The load value is the
  number of clock cycles of the period below \<open>0xFFFFFFFD\<close>, the match value that of the remaining part, and the
  match lies between load and overflow.\<close>

theorem pwm_config_programs_timer:
  assumes "hw_posted pl view pend lat" and "dt_posted t" and "pl_rate pl \<noteq> 0"
    and "0 \<le> sint duty" and "sint duty \<le> sint period"
    and "unat (pl_rate pl) * unat period div 1000000000 \<le> 0xFFFFFFFD"
  shows "\<exists>t' c l m. pwm_config pl pwm t duty period = Some (0, t') \<and> \<not> dt_enabled t'
    \<and> view (dt_dev t') TIMER_CTRL = c \<and> view (dt_dev t') TIMER_LOAD = l \<and> view (dt_dev t') TIMER_MATCH = m
    \<and> \<not> bit c 0 \<and> bit c 1 \<and> bit c 6 = (duty \<noteq> period) \<and> bit c 7 = (\<not> pw_polarity pwm)
    \<and> \<not> bit c 10 \<and> bit c 11 \<and> bit c 12
    \<and> unat l = 0xFFFFFFFD - unat (pl_rate pl) * unat period div 1000000000
    \<and> unat m = 0xFFFFFFFD - unat (pl_rate pl) * (unat period - unat duty) div 1000000000
    \<and> l \<le> m"
proof -
  from pwm_config_registers [OF assms(1-3), of pwm duty period] obtain t' where r:
    "pwm_config pl pwm t duty period = Some (0, t')" "\<not> dt_enabled t'"
    "view (dt_dev t') TIMER_CTRL = pwm_ctrl (pw_polarity pwm) (duty \<noteq> period) (view (dt_dev t) TIMER_CTRL)"
    "view (dt_dev t') TIMER_LOAD = pwm_calc_value (pl_rate pl) period"
    "view (dt_dev t') TIMER_MATCH = pwm_calc_value (pl_rate pl) (period - duty)"
    by (auto simp: returns_def)
  have p0: "0 \<le> sint period" using assms(4,5) by simp
  have u: "int (unat w) = sint w" if "0 \<le> sint w" for w :: "32 word"
    using that sint_lt [of w] by (simp add: uint_sint take_bit_int_eq_self)
  have le: "unat duty \<le> unat period" using u [OF assms(4)] u [OF p0] assms(5) by linarith
  then have d: "unat (period - duty) = unat period - unat duty" by (rule unat_diff_small)
  have lt: "unat period < 2 ^ 31" 
  proof -
    have "int (unat period) < int (2 ^ 31)" using u [OF p0] sint_lt [of period] by simp
    then show ?thesis by (simp only: of_nat_less_iff)
  qed
  have "sint (period - duty) = int (unat (period - duty))" using d lt
    by (intro sint_small) linarith
  then have d0: "0 \<le> sint (period - duty)" by simp
  have mono: "unat (pl_rate pl) * (unat period - unat duty) div 1000000000 \<le> unat (pl_rate pl) * unat period div 1000000000"
    by (intro div_le_mono mult_le_mono) simp_all
  have l: "unat (pwm_calc_value (pl_rate pl) period) = 0xFFFFFFFD - unat (pl_rate pl) * unat period div 1000000000"
    by (rule pwm_calc_value_exact [OF p0 assms(6)])
  have m: "unat (pwm_calc_value (pl_rate pl) (period - duty)) = 0xFFFFFFFD - unat (pl_rate pl) * (unat period - unat duty) div 1000000000"
    using pwm_calc_value_exact [OF d0, of "pl_rate pl"] d mono assms(6) by simp
  have "pwm_calc_value (pl_rate pl) period \<le> pwm_calc_value (pl_rate pl) (period - duty)"
    using l m mono by (simp add: word_le_nat_alt diff_le_mono2)
  moreover note b = pwm_ctrl_bits [of "pw_polarity pwm" "duty \<noteq> period" "view (dt_dev t) TIMER_CTRL", folded r(3)]
  ultimately show ?thesis using r(1,2) r(4,5) [symmetric] l m b by (metis (no_types))
qed

theorem pwm_config_programs_timer_witness:
  "\<exists>t' l m. pwm_config sim_plat \<lparr>pw_ptr = 0, pw_timer = 9, pw_polarity = False, pw_label = None, pw_use = 1, pw_id = 0\<rparr>
        sim_timer 250000 1000000 = Some (0, t')
    \<and> sim_view (dt_dev t') TIMER_LOAD = l \<and> sim_view (dt_dev t') TIMER_MATCH = m
    \<and> unat l = 0xFFFFFFFD - 26000 \<and> unat m = 0xFFFFFFFD - 19500 \<and> l \<le> m"
proof -
  have "dt_posted sim_timer" "pl_rate sim_plat = 26000000" by (simp_all add: sim_timer_def sim_plat_def)
  with pwm_config_programs_timer [OF sim_hw_posted, of sim_timer 250000 1000000
      "\<lparr>pw_ptr = 0, pw_timer = 9, pw_polarity = False, pw_label = None, pw_use = 1, pw_id = 0\<rparr>"]
  show ?thesis by auto
qed

text \<open>A PWM has one user at a time: a request that succeeds was for a device not in use; until it is freed
  every further request for it is refused with \<open>-EBUSY\<close>, after that it can be requested again. A request that
  fails changes nothing and says why.\<close>

theorem pwm_request_exclusive:
  assumes "pwms_ok ps" and "pwm_request ps pid label = (r, ps')"
  shows "pwms_ok ps' \<and> (case r of
      Inr ptr \<Rightarrow> (\<exists>p \<in> set ps. pw_ptr p = ptr \<and> pw_id p = pid \<and> pw_use p = 0)
        \<and> pwm_request ps' pid label' = (Inl (- EBUSY), ps')
        \<and> fst (pwm_request (pwm_free ps' ptr) pid label') = Inr ptr
    | Inl e \<Rightarrow> ps' = ps \<and> (e = - EBUSY \<and> (\<exists>p \<in> set ps. pw_id p = pid \<and> pw_use p = 1)
        \<or> e = - ENOENT \<and> (\<forall>p \<in> set ps. pw_id p \<noteq> pid)))"
proof (cases r)
  case (Inl e)
  then show ?thesis using pwm_request_result [OF assms(2)] assms(1) by (fastforce simp: pwms_ok_def)
next
  case (Inr ptr)
  with pwm_request_result [OF assms(2)] obtain xs p ys where p: "ps = xs @ p # ys" "\<forall>x \<in> set xs. pw_id x \<noteq> pid"
    "pw_id p = pid" "pw_use p = 0" "ptr = pw_ptr p" "ps' = xs @ p\<lparr>pw_use := 1, pw_label := label\<rparr> # ys" by auto
  have ok: "pwms_ok ps'" using assms(1) p by (auto simp: pwms_ok_def)
  have ne: "\<forall>x \<in> set xs \<union> set ys. pw_ptr x \<noteq> ptr" 
  proof -
    have "ptr \<notin> pw_ptr ` (set xs \<union> set ys)" using assms(1) p(1,5) by (auto simp: pwms_ok_def)
    then show ?thesis by (metis imageI)
  qed
  have "pwm_free ps' ptr = xs @ p\<lparr>pw_use := 0, pw_label := None\<rparr> # ys"
    using p ne by (auto simp: pwm_free_def pwm_free_dev_def intro!: map_idI)
  then show ?thesis using p Inr ok by (simp add: pwm_request_skip)
qed

theorem pwm_request_exclusive_witness:
  "\<exists>ps'. pwm_request [\<lparr>pw_ptr = 7, pw_timer = 9, pw_polarity = False, pw_label = None, pw_use = 0, pw_id = 3\<rparr>] 3 None = (Inr 7, ps')
     \<and> pwm_request ps' 3 None = (Inl (- EBUSY), ps') \<and> fst (pwm_request (pwm_free ps' 7) 3 None) = Inr 7"
proof -
  let ?ps = "[\<lparr>pw_ptr = 7, pw_timer = 9, pw_polarity = False, pw_label = None, pw_use = 0, pw_id = 3\<rparr>]"
  obtain ps' where r: "pwm_request ?ps 3 None = (Inr 7, ps')" by simp
  have "pwms_ok ?ps" by (simp add: pwms_ok_def)
  from pwm_request_exclusive [OF this r, of None] r show ?thesis by auto
qed

text \<open>Binding: probing a PWM either fails, with nothing changed, or appends a device that owns the timer its
  platform data names, which was free and is reserved now, keeping the rule that bound devices own
  distinct reserved timers. Removing the device takes it off the list and gives its timer back.\<close>

theorem pwm_probe_owns_timer:
  assumes "sys_ok s" and "omap_pwm_probe pl did (Some pd) mem s = Some (r, s')"
    and "\<forall>ptr. mem = Some ptr \<longrightarrow> ptr \<notin> pw_ptr ` set (sys_pwms s)"
  shows "sys_ok s' \<and> (r \<noteq> 0 \<longrightarrow> s' = s) \<and> (r = 0 \<longrightarrow> (\<exists>p. sys_pwms s' = sys_pwms s @ [p]
      \<and> int (pw_timer p) = pd_timer_id pd - 1 \<and> \<not> dt_reserved (sys_timers s ! pw_timer p)
      \<and> dt_reserved (sys_timers s' ! pw_timer p)
      \<and> (\<forall>r'' s''. omap_pwm_remove pl (Some p) s' = Some (r'', s'') \<longrightarrow>
           sys_ok s'' \<and> set (sys_pwms s'') = set (sys_pwms s) \<and> \<not> dt_reserved (sys_timers s'' ! pw_timer p))))"
proof (cases "r = 0")
  case False
  then show ?thesis using probe_cases [OF assms(2)] assms(1) by auto
next
  case True
  note ok = sys_ok_probe [OF assms(2,1,3)]
  from True probe_cases [OF assms(2)] obtain ptr i t' p where c: "i < length (sys_timers s)"
    "\<not> dt_reserved (sys_timers s ! i)" "int i = pd_timer_id pd - 1" "dt_reserved t'"
    "sys_timers s' = (sys_timers s)[i := t']" "sys_pwms s' = sys_pwms s @ [p]" "pw_timer p = i" by auto
  have p: "p \<in> set (sys_pwms s')" "p \<notin> set (sys_pwms s)"
    using c(6) ok by (auto simp: sys_ok_def)
  have rm: "sys_ok s'' \<and> set (sys_pwms s'') = set (sys_pwms s) \<and> \<not> dt_reserved (sys_timers s'' ! pw_timer p)"
    if "omap_pwm_remove pl (Some p) s' = Some (r'', s'')" for r'' s''
    using sys_ok_remove [OF that ok p(1)] p(2) c(6) by auto
  show ?thesis using True ok c rm by auto
qed

theorem pwm_probe_owns_timer_witness:
  "\<exists>s' p. omap_pwm_probe sim_plat 0 (Some \<lparr>pd_timer_id = 1, pd_polarity = True\<rparr>) (Some 5)
        \<lparr>sys_pwms = [], sys_timers = omap_dm_timer_init (\<lambda>_. (\<lambda>_. 0, 0, 0))\<rparr> = Some (0, s')
     \<and> sys_ok s' \<and> sys_pwms s' = [p] \<and> pw_timer p = 0 \<and> dt_reserved (sys_timers s' ! 0)"
proof -
  let ?s = "\<lparr>sys_pwms = [], sys_timers = omap_dm_timer_init (\<lambda>_. (\<lambda>_. 0, 0, 0))\<rparr> :: sim_dev pwm_sys"
  obtain s' where s': "omap_pwm_probe sim_plat 0 (Some \<lparr>pd_timer_id = 1, pd_polarity = True\<rparr>) (Some 5) ?s = Some (0, s')"
    by (simp add: omap_pwm_probe_def omap_dm_timer_request_specific_def omap_dm_timer_init_def omap3_dm_timers_def
        omap_dm_timer_prepare_def omap_dm_timer_enable_def omap_dm_timer_reset_def omap_dm_timer_set_source_def
        omap_dm_timer_read_reg_def omap_dm_timer_write_reg_def dm_settle_def sim_plat_def Let_def reg_off_def)
  have "sys_ok ?s" by (simp add: sys_ok_def)
  from pwm_probe_owns_timer [OF this s'] s' show ?thesis by auto
qed

end
