(* ===== verification/Reporter.thy ===== *)
theory Reporter
  imports KPrelude
begin

text \<open>
  What the input drivers with a relative axis have in common: a position in a word that wraps, moved by events, and a
  timer that reports the difference to the position it reported last. The locale \<open>position_reporter\<close> is the contract of such a
  driver; its lemmas say that the reports add up to the movement. The ring and the motion sensor interpret it.
\<close>

text \<open>The movement of a sequence of events, the movement since its last tick, and that no tick finds more than a report can tell.\<close>

fun net_moved :: "('e \<Rightarrow> 's \<Rightarrow> 's) \<Rightarrow> ('e \<Rightarrow> 's \<Rightarrow> int) \<Rightarrow> 'e list \<Rightarrow> 's \<Rightarrow> int" where
  "net_moved step moved [] s = 0"
| "net_moved step moved (e # es) s = moved e s + net_moved step moved es (step e s)"

fun since_tick :: "('e \<Rightarrow> 's \<Rightarrow> 's) \<Rightarrow> ('e \<Rightarrow> bool) \<Rightarrow> ('e \<Rightarrow> 's \<Rightarrow> int) \<Rightarrow> int \<Rightarrow> 'e list \<Rightarrow> 's \<Rightarrow> int" where
  "since_tick step tick moved n [] s = n"
| "since_tick step tick moved n (e # es) s = since_tick step tick moved (if tick e then 0 else n + moved e s) es (step e s)"

fun slow_enough :: "('e \<Rightarrow> 's \<Rightarrow> 's) \<Rightarrow> ('e \<Rightarrow> bool) \<Rightarrow> ('e \<Rightarrow> 's \<Rightarrow> int) \<Rightarrow> (int \<Rightarrow> bool) \<Rightarrow> int \<Rightarrow> 'e list \<Rightarrow> 's \<Rightarrow> bool" where
  "slow_enough step tick moved small n [] s = True"
| "slow_enough step tick moved small n (e # es) s =
     ((tick e \<longrightarrow> small n) \<and> slow_enough step tick moved small (if tick e then 0 else n + moved e s) es (step e s))"

locale position_reporter =
  fixes step :: "'e \<Rightarrow> 's \<Rightarrow> 's"
    and tick :: "'e \<Rightarrow> bool"
    and moved :: "'e \<Rightarrow> 's \<Rightarrow> int"
    and small :: "int \<Rightarrow> bool"
    and pend :: "'s \<Rightarrow> 'w::len word"
    and total :: "'s \<Rightarrow> int"
  assumes move: "\<not> tick e \<Longrightarrow> total (step e s) = total s \<and> pend (step e s) = pend s + of_int (moved e s)"
    and tick_still: "tick e \<Longrightarrow> moved e s = 0"
    and tick_pend: "tick e \<Longrightarrow> pend (step e s) = 0"
    and tick_mod: "tick e \<Longrightarrow> of_int (total (step e s)) = (of_int (total s) + pend s :: 'w word)"
    and tick_exact: "tick e \<Longrightarrow> small n \<Longrightarrow> pend s = of_int n \<Longrightarrow> total (step e s) = total s + n"
begin

lemma reports_exact:
  "pend s = of_int n \<Longrightarrow> slow_enough step tick moved small n es s \<Longrightarrow>
   total (fold step es s) + since_tick step tick moved n es s = total s + n + net_moved step moved es s"
proof (induction es arbitrary: s n)
  case (Cons e es)
  show ?case
  proof (cases "tick e")
    case True
    then have "total (fold step es (step e s)) + since_tick step tick moved 0 es (step e s)
        = total (step e s) + 0 + net_moved step moved es (step e s)"
      using Cons.prems(2) tick_pend [OF True] by (intro Cons.IH) auto
    then show ?thesis using True Cons.prems tick_exact [OF True] tick_still [OF True] by simp
  next
    case False
    with move [OF False] Cons.prems have "pend (step e s) = of_int (n + moved e s)" by simp
    from Cons.IH [OF this] False move [OF False] Cons.prems show ?thesis by simp
  qed
qed simp

lemma reports_mod:
  "of_int (total (fold step es s)) + pend (fold step es s) = (of_int (total s + net_moved step moved es s) + pend s :: 'w word)"
proof (induction es arbitrary: s)
  case (Cons e es)
  then show ?case using move [of e s] tick_pend [of e s] tick_mod [of e s] tick_still [of e s]
    by (cases "tick e") (simp_all add: algebra_simps)
qed simp

end

end
