(* ===== verification/Rotary.thy ===== *)
theory Rotary
  imports Reporter
begin

text \<open>
  The rotary ring of the thermostat (\<^verbatim>\<open>drivers/input/misc/rotary_encoder_lite.c\<close>): an interrupt per
  detent counts an 8-bit position up or down, and a timer reports the change since its last report as a
  relative input event. The theorems show that no step is lost as long as the ring makes at most 127
  steps between two reports, and account for the resources that probing and removing the driver hold.
\<close>

subsection \<open>Counting and reporting\<close>

text \<open>The positions, the values written to the flip-flop's clear line, and the events reported.\<close>

record rotary_encoder_lite =
  accumulatedPosition :: u8
  lastPositionSent :: u8
  re_clear :: "bool list"
  re_reports :: "int list"

definition rotary_encoder_lite_irq :: "bool \<Rightarrow> rotary_encoder_lite \<Rightarrow> rotary_encoder_lite" where
  "rotary_encoder_lite_irq direction e =
     e\<lparr>accumulatedPosition := accumulatedPosition e + (if direction then - 1 else 1),
       re_clear := re_clear e @ [False, True]\<rparr>"

definition encoder_timer :: "rotary_encoder_lite \<Rightarrow> rotary_encoder_lite" where
  "encoder_timer e =
     (let newPosition = accumulatedPosition e in
      if newPosition \<noteq> lastPositionSent e
      then e\<lparr>re_reports := re_reports e @ [sint (newPosition - lastPositionSent e)], lastPositionSent := newPosition\<rparr>
      else e)"

datatype ring_event = Detent bool | Tick

fun ring_step :: "ring_event \<Rightarrow> rotary_encoder_lite \<Rightarrow> rotary_encoder_lite" where
  "ring_step (Detent d) e = rotary_encoder_lite_irq d e"
| "ring_step Tick e = encoder_timer e"

fun ring_run :: "ring_event list \<Rightarrow> rotary_encoder_lite \<Rightarrow> rotary_encoder_lite" where
  "ring_run [] e = e"
| "ring_run (ev # evs) e = ring_run evs (ring_step ev e)"

text \<open>The true movement: the net steps of a run, and the steps since the last tick.\<close>

fun net_steps :: "ring_event list \<Rightarrow> int" where
  "net_steps [] = 0"
| "net_steps (Detent d # evs) = (if d then - 1 else 1) + net_steps evs"
| "net_steps (Tick # evs) = net_steps evs"

fun unreported :: "int \<Rightarrow> ring_event list \<Rightarrow> int" where
  "unreported n [] = n"
| "unreported n (Detent d # evs) = unreported (n + (if d then - 1 else 1)) evs"
| "unreported n (Tick # evs) = unreported 0 evs"

text \<open>No tick finds more than 127 steps in either direction (128 downwards).\<close>

fun ring_slow :: "int \<Rightarrow> ring_event list \<Rightarrow> bool" where
  "ring_slow n [] = True"
| "ring_slow n (Detent d # evs) = ring_slow (n + (if d then - 1 else 1)) evs"
| "ring_slow n (Tick # evs) = (- 128 \<le> n \<and> n \<le> 127 \<and> ring_slow 0 evs)"

definition pending_word :: "rotary_encoder_lite \<Rightarrow> u8" where
  "pending_word e = accumulatedPosition e - lastPositionSent e"

lemma sint_of_int_u8: "- 128 \<le> n \<Longrightarrow> n \<le> 127 \<Longrightarrow> sint (of_int n :: u8) = n"
  by (simp add: signed_of_int signed_take_bit_int_eq_self)

lemma tick_reports:
  "sum_list (re_reports (encoder_timer e)) = sum_list (re_reports e) + sint (pending_word e)"
  "pending_word (encoder_timer e) = 0"
  by (auto simp: encoder_timer_def Let_def pending_word_def)

text \<open>The ring is a position reporter.\<close>

fun ring_moved :: "ring_event \<Rightarrow> rotary_encoder_lite \<Rightarrow> int" where
  "ring_moved (Detent d) e = (if d then - 1 else 1)"
| "ring_moved Tick e = 0"

interpretation ring: position_reporter ring_step "\<lambda>ev. ev = Tick" ring_moved "\<lambda>n. - 128 \<le> n \<and> n \<le> 127" pending_word "\<lambda>e. sum_list (re_reports e)"
proof
  show "\<not> ev = Tick \<Longrightarrow> sum_list (re_reports (ring_step ev e)) = sum_list (re_reports e) \<and>
    pending_word (ring_step ev e) = pending_word e + of_int (ring_moved ev e)" for ev e
    by (cases ev) (auto simp: pending_word_def rotary_encoder_lite_irq_def)
qed (auto simp: tick_reports sint_of_int_u8)

lemma ring_run_fold: "ring_run evs e = fold ring_step evs e"
  by (induction evs arbitrary: e) auto

lemma ring_measures:
  "net_steps evs = net_moved ring_step ring_moved evs e"
  "unreported n evs = since_tick ring_step (\<lambda>ev. ev = Tick) ring_moved n evs e"
  "ring_slow n evs = slow_enough ring_step (\<lambda>ev. ev = Tick) ring_moved (\<lambda>n. - 128 \<le> n \<and> n \<le> 127) n evs e"
proof (induction evs arbitrary: n e)
  case (Cons ev evs)
  case 1 show ?case using Cons(1) by (cases ev) auto
  case 2 show ?case using Cons(2) by (cases ev) auto
  case 3 show ?case using Cons(3) by (cases ev) auto
qed auto

subsection \<open>Probing and removing\<close>

record rotary_pdata =
  gpio_a :: nat
  gpio_b :: nat
  gpio_clear :: nat

text \<open>What the driver holds: memory, the input device (allocated, registered), GPIO lines, the
  interrupt and the timer.\<close>

record rotary_res =
  rr_encoder :: bool
  rr_input :: bool
  rr_registered :: bool
  rr_gpios :: "nat set"
  rr_irq :: bool
  rr_timer :: bool

definition rr_none :: rotary_res where
  "rr_none = \<lparr>rr_encoder = False, rr_input = False, rr_registered = False, rr_gpios = {}, rr_irq = False, rr_timer = False\<rparr>"

text \<open>The results of the calls that may fail: the two allocations, and the error codes of
  registering the input device, requesting the three lines and requesting the interrupt.\<close>

record rotary_env =
  en_kzalloc :: bool
  en_input_alloc :: bool
  en_register :: int
  en_gpio_a :: int
  en_gpio_b :: int
  en_gpio_clear :: int
  en_irq :: int

definition exit_free_mem :: "rotary_res \<Rightarrow> rotary_res" where
  "exit_free_mem r = r\<lparr>rr_input := False, rr_encoder := False\<rparr>"

definition exit_unregister_input :: "rotary_res \<Rightarrow> rotary_res" where
  "exit_unregister_input r = exit_free_mem (r\<lparr>rr_registered := False, rr_input := False\<rparr>)"

definition exit_free_gpio_a :: "rotary_pdata \<Rightarrow> rotary_res \<Rightarrow> rotary_res" where
  "exit_free_gpio_a pd r = exit_unregister_input (r\<lparr>rr_gpios := rr_gpios r - {gpio_a pd}\<rparr>)"

definition exit_free_gpio_b :: "rotary_pdata \<Rightarrow> rotary_res \<Rightarrow> rotary_res" where
  "exit_free_gpio_b pd r = exit_free_gpio_a pd (r\<lparr>rr_gpios := rr_gpios r - {gpio_b pd}\<rparr>)"

definition rotary_encoder_lite_probe ::
  "rotary_env \<Rightarrow> rotary_pdata option \<Rightarrow> rotary_res \<Rightarrow> int \<times> rotary_res" where
  "rotary_encoder_lite_probe env pdata r = (case pdata of None \<Rightarrow> (- ENOENT, r) | Some pd \<Rightarrow>
     (let r = r\<lparr>rr_encoder := en_kzalloc env, rr_input := en_input_alloc env\<rparr> in
      if \<not> en_kzalloc env \<or> \<not> en_input_alloc env then (- ENOMEM, exit_free_mem r)
      else if en_register env \<noteq> 0 then (en_register env, exit_free_mem r)
      else let r = r\<lparr>rr_registered := True\<rparr> in
      if en_gpio_a env \<noteq> 0 then (en_gpio_a env, exit_unregister_input r)
      else let r = r\<lparr>rr_gpios := insert (gpio_a pd) (rr_gpios r)\<rparr> in
      if en_gpio_b env \<noteq> 0 then (en_gpio_b env, exit_free_gpio_a pd r)
      else let r = r\<lparr>rr_gpios := insert (gpio_b pd) (rr_gpios r)\<rparr> in
      if en_gpio_clear env \<noteq> 0 then (en_gpio_clear env, exit_free_gpio_a pd r)
      else let r = r\<lparr>rr_gpios := insert (gpio_clear pd) (rr_gpios r)\<rparr> in
      if en_irq env \<noteq> 0 then (en_irq env, exit_free_gpio_b pd r)
      else (0, r\<lparr>rr_irq := True, rr_timer := True\<rparr>)))"

definition rotary_encoder_lite_remove :: "rotary_pdata \<Rightarrow> rotary_res \<Rightarrow> int \<times> rotary_res" where
  "rotary_encoder_lite_remove pd r =
     (0, r\<lparr>rr_timer := False, rr_irq := False, rr_gpios := rr_gpios r - {gpio_a pd} - {gpio_b pd},
           rr_registered := False, rr_input := False, rr_encoder := False\<rparr>)"

subsection \<open>Properties\<close>

text \<open>C34. No step of the ring is lost or counted twice: whatever the interleaving of detents and timer
  ticks, the sum of the reports plus the steps since the last tick is the net movement, provided no tick finds more
  than 127 steps (128 downwards); and without that provision it is so modulo 256.\<close>

theorem ring_reports_movement:
  assumes "accumulatedPosition e = lastPositionSent e" and "re_reports e = []" and "ring_slow 0 evs"
  shows "sum_list (re_reports (ring_run evs e)) + unreported 0 evs = net_steps evs
    \<and> (\<forall>evs'. of_int (sum_list (re_reports (ring_run evs' e))) + pending_word (ring_run evs' e) = (of_int (net_steps evs') :: u8))"
  using assms ring.reports_exact [of e 0 evs] ring.reports_mod [of _ e]
  unfolding ring_run_fold ring_measures(1) [of _ e] ring_measures(2,3) [of _ _ e] by (simp add: pending_word_def)

theorem ring_reports_movement_witness:
  "let e = \<lparr>accumulatedPosition = 250, lastPositionSent = 250, re_clear = [], re_reports = []\<rparr>;
       evs = replicate 10 (Detent False) @ [Tick] @ replicate 3 (Detent True) @ [Tick, Detent True]
   in sum_list (re_reports (ring_run evs e)) + unreported 0 evs = net_steps evs \<and> net_steps evs = 6
        \<and> unreported 0 evs = - 1"
proof -
  have "ring_slow 0 (replicate 10 (Detent False) @ [Tick] @ replicate 3 (Detent True) @ [Tick, Detent True])"
    by (simp add: numeral_eq_Suc)
  from ring_reports_movement [OF _ _ this, of "\<lparr>accumulatedPosition = 250, lastPositionSent = 250, re_clear = [], re_reports = []\<rparr>"]
  show ?thesis by (simp add: Let_def) (simp add: numeral_eq_Suc)
qed

text \<open>Resources: probing either succeeds, holding all resources, or fails with nothing held, with two
  exceptions: if the clear line cannot be had, line B stays requested, and if the interrupt cannot be
  had, the clear line does. Removing the driver releases everything but the clear line, so a later probe finds it
  taken.\<close>

theorem rotary_probe_resources:
  assumes "distinct [gpio_a pd, gpio_b pd, gpio_clear pd]"
    and "rotary_encoder_lite_probe env (Some pd) rr_none = (err, r)"
  shows "(if err = 0
      then r = \<lparr>rr_encoder = True, rr_input = True, rr_registered = True,
                rr_gpios = {gpio_a pd, gpio_b pd, gpio_clear pd}, rr_irq = True, rr_timer = True\<rparr>
        \<and> rotary_encoder_lite_remove pd r = (0, rr_none\<lparr>rr_gpios := {gpio_clear pd}\<rparr>)
      else r = rr_none\<lparr>rr_gpios :=
          (if en_kzalloc env \<and> en_input_alloc env \<and> en_register env = 0 \<and> en_gpio_a env = 0 \<and> en_gpio_b env = 0
           then (if en_gpio_clear env \<noteq> 0 then {gpio_b pd} else {gpio_clear pd}) else {})\<rparr>)"
  using assms
  by (auto simp: rotary_encoder_lite_probe_def rotary_encoder_lite_remove_def rr_none_def exit_free_mem_def
      exit_unregister_input_def exit_free_gpio_a_def exit_free_gpio_b_def Let_def split: if_splits)

theorem rotary_probe_resources_witness:
  "rotary_encoder_lite_probe \<lparr>en_kzalloc = True, en_input_alloc = True, en_register = 0, en_gpio_a = 0, en_gpio_b = 0,
       en_gpio_clear = 0, en_irq = - 16\<rparr> (Some \<lparr>gpio_a = 1, gpio_b = 2, gpio_clear = 3\<rparr>) rr_none
     = (- 16, rr_none\<lparr>rr_gpios := {3}\<rparr>)"
proof -
  let ?env = "\<lparr>en_kzalloc = True, en_input_alloc = True, en_register = 0, en_gpio_a = 0, en_gpio_b = 0,
       en_gpio_clear = 0, en_irq = - 16\<rparr>"
  let ?pd = "\<lparr>gpio_a = 1, gpio_b = 2, gpio_clear = 3\<rparr>"
  obtain r where r: "rotary_encoder_lite_probe ?env (Some ?pd) rr_none = (- 16, r)"
    by (simp add: rotary_encoder_lite_probe_def Let_def)
  from rotary_probe_resources [OF _ r] r show ?thesis by simp
qed

end
