(* ===== verification/Lm3530.thy ===== *)
theory Lm3530
  imports Vsprintf
begin

text \<open>
  The display backlight (\<^verbatim>\<open>drivers/video/backlight/lm3530_bl.c\<close>): programming the LM3530 over I2C,
  setting the brightness, ramp rates and ramp law, suspend and resume, and probing and removing the driver.
  The chip is its register file behind the bus; the results of bus accesses are a list of error codes,
  consumed one by one (an exhausted list means success). \<open>BUG_ON\<close> is \<open>None\<close>.
\<close>

subsection \<open>Data\<close>

text \<open>\<open>LM3530_BL_MODE_OTHER\<close> is any number that is not an enumerator.\<close>

datatype lm3530_mode = LM3530_BL_MODE_MANUAL | LM3530_BL_MODE_ALS | LM3530_BL_MODE_PWM | LM3530_BL_MODE_OTHER

record lm3530_platform_data =
  lp_mode :: lm3530_mode
  als_input_mode :: u8
  max_current :: u8
  pwm_pol_hi :: bool
  als_avrg_time :: u8
  brt_ramp_law :: bool
  brt_ramp_fall :: u8
  brt_ramp_rise :: u8
  als1_resistor_sel :: u8
  als2_resistor_sel :: u8
  als_vmin :: u32
  als_vmax :: u32
  lp_max_brightness :: u32
  lp_dft_brightness :: u32

record lm3530_data =
  ld_pdata :: lm3530_platform_data
  ld_mode :: lm3530_mode
  ld_brightness :: int
  ld_enable :: bool
  ld_gpio :: bool
  ld_regs :: "u8 \<Rightarrow> u8"
  ld_faults :: "int list"

abbreviation LM3530_GEN_CONFIG :: u8 where "LM3530_GEN_CONFIG \<equiv> 0x10"
abbreviation LM3530_BRT_RAMP_RATE :: u8 where "LM3530_BRT_RAMP_RATE \<equiv> 0x30"
abbreviation LM3530_BRT_CTRL_REG :: u8 where "LM3530_BRT_CTRL_REG \<equiv> 0xA0"

definition lm3530_reg :: "u8 list" where
  "lm3530_reg = [0x10, 0x20, 0x30, 0x40, 0x41, 0xA0, 0x60, 0x61, 0x62, 0x63, 0x70, 0x71, 0x72, 0x73, 0x74]"

definition next_result :: "lm3530_data \<Rightarrow> int \<times> lm3530_data" where
  "next_result d = (case ld_faults d of [] \<Rightarrow> (0, d) | e # es \<Rightarrow> (e, d\<lparr>ld_faults := es\<rparr>))"

definition i2c_smbus_write_byte_data :: "lm3530_data \<Rightarrow> u8 \<Rightarrow> u8 \<Rightarrow> int \<times> lm3530_data" where
  "i2c_smbus_write_byte_data d reg v =
     (let (e, d) = next_result d in (e, if e = 0 then d\<lparr>ld_regs := (ld_regs d)(reg := v)\<rparr> else d))"

definition i2c_smbus_read_byte_data :: "lm3530_data \<Rightarrow> u8 \<Rightarrow> int \<times> lm3530_data" where
  "i2c_smbus_read_byte_data d reg =
     (let (e, d) = next_result d in (if e = 0 then uint (ld_regs d reg) else e, d))"

subsection \<open>Initialisation\<close>

definition ramp_value :: "lm3530_platform_data \<Rightarrow> u8" where
  "ramp_value p = brt_ramp_fall p OR push_bit 3 (brt_ramp_rise p)"

definition gen_value :: "lm3530_platform_data \<Rightarrow> lm3530_mode \<Rightarrow> u8" where
  "gen_value p mode =
     (push_bit 1 (if brt_ramp_law p then 1 else 0) OR push_bit 2 (max_current p AND 7))
     OR (if mode = LM3530_BL_MODE_PWM
         then push_bit 5 1 OR push_bit 6 (if pwm_pol_hi p then 1 else 0) OR push_bit 7 1 else 0)"

text \<open>The voltage window of the light sensor, and the four boundaries of its zones.\<close>

definition als_window :: "lm3530_platform_data \<Rightarrow> lm3530_platform_data" where
  "als_window p =
     (let p = (if als_vmax p = 0 then p\<lparr>als_vmin := 0, als_vmax := 1000\<rparr> else p) in
      if als_vmax p - als_vmin p > 1000 then p\<lparr>als_vmax := als_vmin p + 1000\<rparr> else p)"

definition als_zones :: "lm3530_platform_data \<Rightarrow> u8 list" where
  "als_zones p =
     (let als_vstep = (als_vmax p - als_vmin p) div 5 in
      map (\<lambda>i. ucast (((als_vmin p + 4) + als_vstep + (of_nat i * als_vstep)) * 255 div 1000)) [0, 1, 2, 3])"

fun write_regs :: "lm3530_data \<Rightarrow> (u8 \<times> u8) list \<Rightarrow> int \<times> lm3530_data" where
  "write_regs d [] = (0, d)"
| "write_regs d ((reg, v) # rest) =
     (let (ret, d) = i2c_smbus_write_byte_data d reg v in if ret \<noteq> 0 then (ret, d) else write_regs d rest)"

definition init_values :: "lm3530_data \<Rightarrow> u8 list" where
  "init_values d =
     (let p = ld_pdata d; als = (ld_mode d = LM3530_BL_MODE_ALS);
          zones = (if als then als_zones p else [0, 0, 0, 0]);
          als_config = (if als then als_avrg_time p OR push_bit 3 3 OR push_bit 5 (als_input_mode p) else 0);
          als_imp_sel = (if als then als1_resistor_sel p OR push_bit 4 (als2_resistor_sel p) else 0)
      in [gen_value p (ld_mode d), als_config, ramp_value p, 0, als_imp_sel, 0] @ zones @ [0x7F, 0x66, 0x4C, 0x33, 0x19])"

definition lm3530_init_registers :: "lm3530_data \<Rightarrow> int \<times> lm3530_data" where
  "lm3530_init_registers d =
     (let d = (if ld_mode d = LM3530_BL_MODE_ALS then d\<lparr>ld_pdata := als_window (ld_pdata d)\<rparr> else d);
          reg_val = init_values d;
          gen_config = gen_value (ld_pdata d) (ld_mode d);
          d = (if \<not> ld_enable d then d\<lparr>ld_gpio := True, ld_enable := True\<rparr> else d);
          (ret, d) = write_regs d (zip lm3530_reg reg_val)
      in if ld_mode d = LM3530_BL_MODE_MANUAL \<or> ld_mode d = LM3530_BL_MODE_ALS
         then i2c_smbus_write_byte_data d LM3530_GEN_CONFIG (gen_config OR 1)
         else (ret, d))"

subsection \<open>Brightness\<close>

record backlight_props =
  bl_brightness :: int
  bl_max_brightness :: int
  bl_power :: int
  bl_fb_blank :: int

definition lm3530_update_status :: "backlight_props \<Rightarrow> lm3530_data \<Rightarrow> (int \<times> lm3530_data) option" where
  "lm3530_update_status bl d =
     (let brightness = bl_brightness bl;
          brightness = (if bl_power bl \<noteq> 0 then 0 else brightness);
          brightness = (if bl_fb_blank bl \<noteq> 0 then 0 else brightness) in
      case ld_mode d of
        LM3530_BL_MODE_MANUAL \<Rightarrow>
          if brightness > bl_max_brightness bl then None
          else let (err, d) = (if \<not> ld_enable d then lm3530_init_registers d else (0, d)) in
            if err \<noteq> 0 then Some (0, d)
            else let (err, d) = i2c_smbus_write_byte_data d LM3530_BRT_CTRL_REG (of_int brightness) in
              Some (0, if err \<noteq> 0 then d else d\<lparr>ld_brightness := brightness\<rparr>)
      | _ \<Rightarrow> Some (0, d))"

definition lm3530_get_brightness :: "backlight_props \<Rightarrow> int" where
  "lm3530_get_brightness bl = bl_brightness bl"

definition lm3530_suspend :: "lm3530_data \<Rightarrow> lm3530_data" where
  "lm3530_suspend d = d\<lparr>ld_gpio := False, ld_enable := False\<rparr>"

definition lm3530_resume :: "backlight_props \<Rightarrow> lm3530_data \<Rightarrow> lm3530_data option" where
  "lm3530_resume bl d = map_option snd (lm3530_update_status bl d)"

definition lm3530_shutdown :: "lm3530_data \<Rightarrow> lm3530_data" where
  "lm3530_shutdown d = d\<lparr>ld_gpio := False\<rparr>"

subsection \<open>Ramp attributes\<close>

text \<open>Storing a value that was read from the buffer. Bus errors of the read go into the register value.\<close>

definition store_ramp_rise :: "u8 \<Rightarrow> lm3530_data \<Rightarrow> lm3530_data" where
  "store_ramp_rise v d =
     (if v \<le> 7 then
        let d = d\<lparr>ld_pdata := (ld_pdata d)\<lparr>brt_ramp_rise := v\<rparr>\<rparr>;
            (r, d) = i2c_smbus_read_byte_data d LM3530_BRT_RAMP_RATE;
            ramp_reg_val = (of_int r AND NOT (push_bit 3 7)) OR push_bit 3 v
        in snd (i2c_smbus_write_byte_data d LM3530_BRT_RAMP_RATE ramp_reg_val)
      else d)"

definition store_ramp_fall :: "u8 \<Rightarrow> lm3530_data \<Rightarrow> lm3530_data" where
  "store_ramp_fall v d =
     (if v \<le> 7 then
        let d = d\<lparr>ld_pdata := (ld_pdata d)\<lparr>brt_ramp_fall := v\<rparr>\<rparr>;
            (r, d) = i2c_smbus_read_byte_data d LM3530_BRT_RAMP_RATE;
            ramp_reg_val = (of_int r AND NOT 7) OR v
        in snd (i2c_smbus_write_byte_data d LM3530_BRT_RAMP_RATE ramp_reg_val)
      else d)"

definition store_ramp_law :: "u8 \<Rightarrow> lm3530_data \<Rightarrow> lm3530_data" where
  "store_ramp_law v d =
     (if v = 0 \<or> v = 1 then
        let d = d\<lparr>ld_pdata := (ld_pdata d)\<lparr>brt_ramp_law := (v = 1)\<rparr>\<rparr>;
            (r, d) = i2c_smbus_read_byte_data d LM3530_GEN_CONFIG;
            gen_config_reg = (of_int r AND NOT (push_bit 1 1)) OR push_bit 1 v
        in snd (i2c_smbus_write_byte_data d LM3530_GEN_CONFIG gen_config_reg)
      else d)"

text \<open>The store functions: \<open>stack\<close> is what the uninitialised variable holds, which is used if the buffer has no
  number. They return the length of the buffer's text.\<close>

abbreviation PAGE_SIZE :: nat where "PAGE_SIZE \<equiv> 4096"

definition lm3530_set_ramp_rise_rate :: "bytes \<Rightarrow> u8 \<Rightarrow> lm3530_data \<Rightarrow> (nat \<times> lm3530_data) option" where
  "lm3530_set_ramp_rise_rate buf stack d = do {
     (_, new_ramp_rate) \<leftarrow> sscanf_hhu buf stack;
     len \<leftarrow> strnlen buf PAGE_SIZE;
     Some (len, store_ramp_rise new_ramp_rate d) }"

definition lm3530_set_ramp_fall_rate :: "bytes \<Rightarrow> u8 \<Rightarrow> lm3530_data \<Rightarrow> (nat \<times> lm3530_data) option" where
  "lm3530_set_ramp_fall_rate buf stack d = do {
     (_, new_ramp_rate) \<leftarrow> sscanf_hhu buf stack;
     len \<leftarrow> strnlen buf PAGE_SIZE;
     Some (len, store_ramp_fall new_ramp_rate d) }"

definition lm3530_set_ramp_law :: "bytes \<Rightarrow> u8 \<Rightarrow> lm3530_data \<Rightarrow> (nat \<times> lm3530_data) option" where
  "lm3530_set_ramp_law buf stack d = do {
     (_, new_ramp_law) \<leftarrow> sscanf_hhu buf stack;
     len \<leftarrow> strnlen buf PAGE_SIZE;
     Some (len, store_ramp_law new_ramp_law d) }"

text \<open>The argument \<open>brightness=\<close> of the kernel command line.\<close>

definition lm3530_set_default_brightness :: "bytes option \<Rightarrow> int \<Rightarrow> int option" where
  "lm3530_set_default_brightness brightness default_brightness = (case brightness of
       None \<Rightarrow> Some default_brightness
     | Some s \<Rightarrow> map_option (\<lambda>(r, _). sint r) (simple_strtol s 10))"

subsection \<open>Probing and removing\<close>

text \<open>The driver data slot of the device, which \<open>i2c_set_clientdata\<close> and
  \<open>platform_set_drvdata\<close> both write, and the resources the driver holds.\<close>

datatype slot = NoData | DriverData | BacklightDevice

record lm3530_res =
  lr_drvdata :: bool
  lr_gpio :: bool
  lr_exported :: bool
  lr_link :: bool
  lr_backlight :: bool
  lr_sysfs :: bool
  lr_slot :: slot

record lm3530_env =
  le_framebuffer :: "bool option"
  le_i2c_func :: bool
  le_kzalloc :: bool
  le_gpio_request :: int
  le_gpio_direction :: int
  le_gpio_export :: int
  le_gpio_link :: int
  le_register :: int
  le_sysfs :: int

abbreviation EPROBE_DEFER :: int where "EPROBE_DEFER \<equiv> 517"

text \<open>The link that \<open>gpio_export_link\<close> made stays where it is.\<close>

definition unexport_gpio :: "lm3530_res \<Rightarrow> lm3530_res" where
  "unexport_gpio r = r\<lparr>lr_exported := False, lr_gpio := False, lr_drvdata := False\<rparr>"

text \<open>\<open>default_brightness\<close> is -1 unless the kernel command line sets it. The driver data is built
  around a chip with the registers \<open>regs\<close> and the bus results \<open>faults\<close>.\<close>

definition initial_brightness :: "int \<Rightarrow> lm3530_platform_data \<Rightarrow> int" where
  "initial_brightness default_brightness pd =
     (if default_brightness \<noteq> - 1 then default_brightness else sint (lp_dft_brightness pd))"

definition lm3530_probe ::
  "int \<Rightarrow> lm3530_env \<Rightarrow> lm3530_platform_data option \<Rightarrow> (u8 \<Rightarrow> u8) \<Rightarrow> int list \<Rightarrow> lm3530_res
     \<Rightarrow> (int \<times> lm3530_res \<times> lm3530_data option) option" where
  "lm3530_probe default_brightness env pdata regs faults r = (case pdata of None \<Rightarrow> Some (- ENODEV, r, None) | Some pd \<Rightarrow>
     if lp_mode pd = LM3530_BL_MODE_OTHER then Some (- EINVAL, r, None)
     else if le_framebuffer env = Some False then Some (- EPROBE_DEFER, r, None)
     else if \<not> le_i2c_func env then Some (- EIO, r, None)
     else if \<not> le_kzalloc env then Some (- ENOMEM, r, None)
     else
       let d = \<lparr>ld_pdata = pd, ld_mode = lp_mode pd, ld_brightness = 0, ld_enable = False, ld_gpio = False,
                ld_regs = regs, ld_faults = faults\<rparr>;
           r = r\<lparr>lr_drvdata := True, lr_slot := DriverData\<rparr> in
       if le_gpio_request env \<noteq> 0 then Some (le_gpio_request env, r\<lparr>lr_drvdata := False\<rparr>, None)
       else let r = r\<lparr>lr_gpio := True\<rparr> in
       if le_gpio_direction env \<noteq> 0 then Some (le_gpio_direction env, r\<lparr>lr_gpio := False, lr_drvdata := False\<rparr>, None)
       else if le_gpio_export env \<noteq> 0 then Some (le_gpio_export env, r\<lparr>lr_gpio := False, lr_drvdata := False\<rparr>, None)
       else let r = r\<lparr>lr_exported := True\<rparr> in
       if le_gpio_link env \<noteq> 0 then Some (le_gpio_link env, unexport_gpio r, None)
       else let r = r\<lparr>lr_link := True\<rparr> in
       if le_register env \<noteq> 0 then Some (le_register env, unexport_gpio r, None)
       else let r = r\<lparr>lr_backlight := True\<rparr>;
                bl = \<lparr>bl_brightness = initial_brightness default_brightness pd,
                      bl_max_brightness = sint (lp_max_brightness pd), bl_power = 0, bl_fb_blank = 0\<rparr> in
       if lp_dft_brightness pd > lp_max_brightness pd then None
       else (case lm3530_update_status bl d of None \<Rightarrow> None
         | Some (_, d) \<Rightarrow>
             let r = r\<lparr>lr_slot := BacklightDevice\<rparr> in
             if le_sysfs env \<noteq> 0 then Some (le_sysfs env, unexport_gpio r, None)
             else Some (0, r\<lparr>lr_sysfs := True\<rparr>, Some d)))"

text \<open>Removing reads the slot twice, as the driver data and as the backlight device; a pointer of the
  wrong type is dereferenced: \<open>None\<close>.\<close>

definition lm3530_remove :: "lm3530_res \<Rightarrow> lm3530_data \<Rightarrow> (int \<times> lm3530_res \<times> lm3530_data) option" where
  "lm3530_remove r d =
     (let drvdata = lr_slot r; bl = lr_slot r in
      if drvdata \<noteq> DriverData \<or> bl \<noteq> BacklightDevice then None
      else Some (0, r\<lparr>lr_sysfs := False, lr_backlight := False, lr_exported := False, lr_gpio := False, lr_drvdata := False\<rparr>,
                 d\<lparr>ld_gpio := False\<rparr>))"

subsection \<open>Bus accesses\<close>

lemma i2c_write_ok [simp]: "ld_faults d = [] \<Longrightarrow> i2c_smbus_write_byte_data d reg v = (0, d\<lparr>ld_regs := (ld_regs d)(reg := v)\<rparr>)"
  by (simp add: i2c_smbus_write_byte_data_def next_result_def)

lemma i2c_read_ok [simp]: "ld_faults d = [] \<Longrightarrow> i2c_smbus_read_byte_data d reg = (uint (ld_regs d reg), d)"
  by (simp add: i2c_smbus_read_byte_data_def next_result_def)

fun put_regs :: "(u8 \<Rightarrow> u8) \<Rightarrow> (u8 \<times> u8) list \<Rightarrow> u8 \<Rightarrow> u8" where
  "put_regs m [] = m"
| "put_regs m ((reg, v) # rest) = put_regs (m(reg := v)) rest"

lemma write_regs_ok: "ld_faults d = [] \<Longrightarrow>
    write_regs d rvs = (0, d\<lparr>ld_regs := put_regs (ld_regs d) rvs\<rparr>)"
  by (induction d rvs rule: write_regs.induct) auto

lemma write_regs_fault:
  "ld_faults d = replicate k 0 @ e # es \<Longrightarrow> e \<noteq> 0 \<Longrightarrow> k < length rvs \<Longrightarrow>
   write_regs d rvs = (e, d\<lparr>ld_faults := es, ld_regs := put_regs (ld_regs d) (take k rvs)\<rparr>)"
proof (induction d rvs arbitrary: k rule: write_regs.induct)
  case (2 d reg v rest)
  show ?case
  proof (cases k)
    case 0
    then show ?thesis using "2.prems" by (simp add: i2c_smbus_write_byte_data_def next_result_def)
  next
    case (Suc k')
    let ?d = "d\<lparr>ld_faults := replicate k' 0 @ e # es, ld_regs := (ld_regs d)(reg := v)\<rparr>"
    have w: "i2c_smbus_write_byte_data d reg v = (0, ?d)"
      using "2.prems" Suc by (simp add: i2c_smbus_write_byte_data_def next_result_def)
    have "write_regs ?d rest = (e, ?d\<lparr>ld_faults := es, ld_regs := put_regs (ld_regs ?d) (take k' rest)\<rparr>)"
      using "2.prems" Suc by (intro "2.IH" [OF w [symmetric] refl]) simp_all
    then show ?thesis using w Suc by simp
  qed
qed simp

lemma init_values_length: "length (init_values d) = length lm3530_reg"
  by (simp add: init_values_def Let_def als_zones_def lm3530_reg_def)

text \<open>The chip after initialisation in manual mode.\<close>

definition manual_regs :: "lm3530_platform_data \<Rightarrow> (u8 \<Rightarrow> u8) \<Rightarrow> u8 \<Rightarrow> u8" where
  "manual_regs p m = m(0x10 := gen_value p LM3530_BL_MODE_MANUAL OR 1, 0x20 := 0, 0x30 := ramp_value p, 0x40 := 0, 0x41 := 0,
     0xA0 := 0, 0x60 := 0, 0x61 := 0, 0x62 := 0, 0x63 := 0, 0x70 := 0x7F, 0x71 := 0x66, 0x72 := 0x4C, 0x73 := 0x33, 0x74 := 0x19)"

lemma init_registers_manual:
  assumes "ld_mode d = LM3530_BL_MODE_MANUAL" "ld_faults d = []" "\<not> ld_enable d"
  shows "lm3530_init_registers d =
    (0, d\<lparr>ld_gpio := True, ld_enable := True, ld_regs := manual_regs (ld_pdata d) (ld_regs d)\<rparr>)"
  using assms
  by (simp add: lm3530_init_registers_def Let_def write_regs_ok init_values_def lm3530_reg_def manual_regs_def fun_upd_twist)

subsection \<open>Ramp fields\<close>

text \<open>The chip's ramp rates and law are those of the platform data.\<close>

definition ramp_synced :: "lm3530_data \<Rightarrow> bool" where
  "ramp_synced d \<longleftrightarrow> brt_ramp_fall (ld_pdata d) \<le> 7 \<and> brt_ramp_rise (ld_pdata d) \<le> 7
     \<and> ld_regs d LM3530_BRT_RAMP_RATE = ramp_value (ld_pdata d)
     \<and> bit (ld_regs d LM3530_GEN_CONFIG) 1 = brt_ramp_law (ld_pdata d)"

text \<open>A write to an attribute: the buffer, and what the uninitialised variable happens to hold.\<close>

datatype ramp_op = SetRise bytes u8 | SetFall bytes u8 | SetLaw bytes u8

fun ramp_step :: "ramp_op \<Rightarrow> lm3530_data \<Rightarrow> (nat \<times> lm3530_data) option" where
  "ramp_step (SetRise buf stack) d = lm3530_set_ramp_rise_rate buf stack d"
| "ramp_step (SetFall buf stack) d = lm3530_set_ramp_fall_rate buf stack d"
| "ramp_step (SetLaw buf stack) d = lm3530_set_ramp_law buf stack d"

fun ramp_run :: "ramp_op list \<Rightarrow> lm3530_data \<Rightarrow> lm3530_data option" where
  "ramp_run [] d = Some d"
| "ramp_run (op # ops) d = do { (_, d) \<leftarrow> ramp_step op d; ramp_run ops d }"

fun ramp_buf :: "ramp_op \<Rightarrow> bytes" where
  "ramp_buf (SetRise buf stack) = buf"
| "ramp_buf (SetFall buf stack) = buf"
| "ramp_buf (SetLaw buf stack) = buf"

lemma small_bits: "v \<le> (7::u8) \<Longrightarrow> bit v i \<Longrightarrow> i < 3"
proof (rule ccontr)
  assume v: "v \<le> 7" and b: "bit v i" and i: "\<not> i < 3"
  have "unat v < 2 ^ 3" using v by (simp add: word_le_nat_alt)
  then have "take_bit 3 (unat v) = unat v" by (rule take_bit_nat_eq_self)
  then have "\<not> bit (unat v) i" using i by (metis bit_take_bit_iff)
  with b show False by (simp add: bit_unsigned_iff)
qed

lemma ramp_merge:
  assumes "f \<le> (7::u8)" "r \<le> 7" "v \<le> 7"
  shows "((f OR push_bit 3 r) AND NOT (push_bit 3 7)) OR push_bit 3 v = f OR push_bit 3 v"
    and "((f OR push_bit 3 r) AND NOT 7) OR v = v OR push_bit 3 r"
proof -
  have seven: "bit (7::u8) i = (i < 3)" for i
  proof -
    have "(7::u8) = mask 3" by (simp add: mask_eq_exp_minus_1)
    then show ?thesis by (simp only: bit_mask_iff) auto
  qed
  show "((f OR push_bit 3 r) AND NOT (push_bit 3 7)) OR push_bit 3 v = f OR push_bit 3 v"
  proof (rule bit_word_eqI)
    fix n
    assume "n < LENGTH(8)"
    moreover have "bit f n \<Longrightarrow> n < 3" "bit r (n - 3) \<Longrightarrow> n - 3 < 3" using small_bits assms by blast+
    ultimately show "bit (((f OR push_bit 3 r) AND NOT (push_bit 3 7)) OR push_bit 3 v) n = bit (f OR push_bit 3 v) n"
      by (simp only: bit_simps seven possible_bit_word) auto
  qed
  show "((f OR push_bit 3 r) AND NOT 7) OR v = v OR push_bit 3 r"
  proof (rule bit_word_eqI)
    fix n
    assume "n < LENGTH(8)"
    moreover have "bit f n \<Longrightarrow> n < 3" "bit v n \<Longrightarrow> n < 3" using small_bits assms by blast+
    ultimately show "bit (((f OR push_bit 3 r) AND NOT 7) OR v) n = bit (v OR push_bit 3 r) n"
      by (simp only: bit_simps seven possible_bit_word) auto
  qed
qed

lemma store_ramp_synced:
  assumes "ramp_synced d" "ld_faults d = []"
  shows "ramp_synced (store_ramp_rise v d) \<and> ld_faults (store_ramp_rise v d) = []"
    and "ramp_synced (store_ramp_fall v d) \<and> ld_faults (store_ramp_fall v d) = []"
    and "ramp_synced (store_ramp_law v d) \<and> ld_faults (store_ramp_law v d) = []"
proof -
  have u: "of_int (uint w) = w" for w :: u8 by simp
  show "ramp_synced (store_ramp_rise v d) \<and> ld_faults (store_ramp_rise v d) = []"
    using assms ramp_merge(1) by (cases "v \<le> 7")
      (simp_all add: store_ramp_rise_def Let_def ramp_synced_def ramp_value_def u del: push_bit_numeral)
  show "ramp_synced (store_ramp_fall v d) \<and> ld_faults (store_ramp_fall v d) = []"
    using assms ramp_merge(2) by (cases "v \<le> 7") (simp_all add: store_ramp_fall_def Let_def ramp_synced_def ramp_value_def u)
  show "ramp_synced (store_ramp_law v d) \<and> ld_faults (store_ramp_law v d) = []"
    using assms by (cases "v = 0 \<or> v = 1") (auto simp: store_ramp_law_def Let_def ramp_synced_def ramp_value_def u bit_simps)
qed

lemma ramp_step_synced:
  assumes "ramp_synced d" "ld_faults d = []" "0 \<in> set (ramp_buf op)"
  shows "\<exists>n d'. ramp_step op d = Some (n, d') \<and> ramp_synced d' \<and> ld_faults d' = []"
proof -
  from assms(3) obtain s rest where s: "ramp_buf op = s @ 0 # rest" "0 \<notin> set s" by (metis split_list_first)
  have len: "strnlen (ramp_buf op) PAGE_SIZE = Some (min PAGE_SIZE (length s))"
    using strnlen_terminated [OF s(2), of rest PAGE_SIZE] s(1) by simp
  have scan: "\<exists>k w. sscanf_hhu (ramp_buf op) v = Some (k, w)" for v using sscanf_hhu_total [OF s(2), of rest v] s(1) by auto
  note st = store_ramp_synced [OF assms(1,2)]
  show ?thesis
  proof (cases op)
    case (SetRise buf stack)
    with len scan [of stack] st(1) show ?thesis by (auto simp: lm3530_set_ramp_rise_rate_def)
  next
    case (SetFall buf stack)
    with len scan [of stack] st(2) show ?thesis by (auto simp: lm3530_set_ramp_fall_rate_def)
  next
    case (SetLaw buf stack)
    with len scan [of stack] st(3) show ?thesis by (auto simp: lm3530_set_ramp_law_def)
  qed
qed

lemma manual_regs_listed: "reg \<in> set lm3530_reg \<Longrightarrow> manual_regs p m reg = manual_regs p m' reg"
  by (auto simp: lm3530_reg_def manual_regs_def)

lemma manual_regs_fields [simp]:
  "manual_regs p m 0x30 = ramp_value p" "manual_regs p m 0x10 = gen_value p LM3530_BL_MODE_MANUAL OR 1"
  by (simp_all add: manual_regs_def)

lemma gen_value_bits: "bit (gen_value p LM3530_BL_MODE_MANUAL OR 1) 1 = brt_ramp_law p" "bit (gen_value p LM3530_BL_MODE_MANUAL OR 1) 0"
  by (auto simp: gen_value_def bit_simps)

definition shown_brightness :: "backlight_props \<Rightarrow> int" where
  "shown_brightness bl = (if bl_power bl \<noteq> 0 \<or> bl_fb_blank bl \<noteq> 0 then 0 else bl_brightness bl)"

lemma update_status_manual:
  assumes "ld_mode d = LM3530_BL_MODE_MANUAL" "ld_faults d = []" "\<not> ld_enable d" "shown_brightness bl \<le> bl_max_brightness bl"
  shows "lm3530_update_status bl d = Some (0, d\<lparr>ld_gpio := True, ld_enable := True, ld_brightness := shown_brightness bl,
    ld_regs := (manual_regs (ld_pdata d) (ld_regs d))(LM3530_BRT_CTRL_REG := of_int (shown_brightness bl))\<rparr>)"
  using assms init_registers_manual [OF assms(1-3)]
  by (auto simp: lm3530_update_status_def shown_brightness_def Let_def)

subsection \<open>Properties\<close>

definition lm3530_example :: lm3530_data where
  "lm3530_example = \<lparr>ld_pdata = \<lparr>lp_mode = LM3530_BL_MODE_MANUAL, als_input_mode = 0, max_current = 5, pwm_pol_hi = False, als_avrg_time = 0,
       brt_ramp_law = True, brt_ramp_fall = 4, brt_ramp_rise = 2, als1_resistor_sel = 0, als2_resistor_sel = 0, als_vmin = 0,
       als_vmax = 0, lp_max_brightness = 127, lp_dft_brightness = 80\<rparr>, ld_mode = LM3530_BL_MODE_MANUAL, ld_brightness = 0,
     ld_enable = False, ld_gpio = False, ld_regs = (\<lambda>_. 0), ld_faults = []\<rparr>"

text \<open>In manual mode and without bus errors: setting the brightness of a chip that is off switches it on, programs all its registers
  from the platform data and shows the requested brightness (0 while blanked or powered down), with the ramp fields in step
  with the platform data. A suspend switches it off; the resume after it brings back every register
  whatever the chip held in between. (In the other modes the driver leaves the chip alone here.)\<close>

theorem lm3530_resume_restores:
  assumes "ld_mode d = LM3530_BL_MODE_MANUAL" and "ld_faults d = []" and "\<not> ld_enable d"
    and "shown_brightness bl \<le> bl_max_brightness bl"
    and "brt_ramp_fall (ld_pdata d) \<le> 7" and "brt_ramp_rise (ld_pdata d) \<le> 7"
  shows "\<exists>d'. lm3530_update_status bl d = Some (0, d') \<and> ld_gpio d' \<and> ld_enable d' \<and> ld_brightness d' = shown_brightness bl
    \<and> map (ld_regs d') lm3530_reg = [push_bit 1 (if brt_ramp_law (ld_pdata d) then 1 else 0) OR push_bit 2 (max_current (ld_pdata d) AND 7) OR 1,
        0, brt_ramp_fall (ld_pdata d) OR push_bit 3 (brt_ramp_rise (ld_pdata d)), 0, 0, of_int (shown_brightness bl), 0, 0, 0, 0,
        0x7F, 0x66, 0x4C, 0x33, 0x19] \<and> ramp_synced d'
    \<and> \<not> ld_gpio (lm3530_suspend d')
    \<and> (\<forall>m. \<exists>d''. lm3530_resume bl ((lm3530_suspend d')\<lparr>ld_regs := m\<rparr>) = Some d'' \<and> ld_gpio d''
        \<and> ld_brightness d'' = ld_brightness d' \<and> (\<forall>reg \<in> set lm3530_reg. ld_regs d'' reg = ld_regs d' reg))"
proof -
  let ?d = "d\<lparr>ld_gpio := True, ld_enable := True, ld_brightness := shown_brightness bl,
    ld_regs := (manual_regs (ld_pdata d) (ld_regs d))(LM3530_BRT_CTRL_REG := of_int (shown_brightness bl))\<rparr>"
  have sync: "ramp_synced ?d" using assms(5,6) gen_value_bits(1) [of "ld_pdata d"] by (simp add: ramp_synced_def)
  have regs: "map (ld_regs ?d) lm3530_reg = [push_bit 1 (if brt_ramp_law (ld_pdata d) then 1 else 0) OR push_bit 2 (max_current (ld_pdata d) AND 7) OR 1,
        0, brt_ramp_fall (ld_pdata d) OR push_bit 3 (brt_ramp_rise (ld_pdata d)), 0, 0, of_int (shown_brightness bl), 0, 0, 0, 0,
        0x7F, 0x66, 0x4C, 0x33, 0x19]"
    by (simp add: lm3530_reg_def manual_regs_def gen_value_def ramp_value_def or.assoc)
  have res: "\<exists>d''. lm3530_resume bl ((lm3530_suspend ?d)\<lparr>ld_regs := m\<rparr>) = Some d'' \<and> ld_gpio d''
        \<and> ld_brightness d'' = ld_brightness ?d \<and> (\<forall>reg \<in> set lm3530_reg. ld_regs d'' reg = ld_regs ?d reg)" for m
    using assms update_status_manual [of "(lm3530_suspend ?d)\<lparr>ld_regs := m\<rparr>" bl] manual_regs_listed
    by (simp add: lm3530_resume_def lm3530_suspend_def)
  show ?thesis using update_status_manual [OF assms(1-4)] sync regs res
    by (intro exI [of _ ?d]) (simp add: lm3530_suspend_def)
qed

theorem lm3530_resume_restores_witness:
  "\<exists>d'. lm3530_update_status \<lparr>bl_brightness = 80, bl_max_brightness = 127, bl_power = 0, bl_fb_blank = 0\<rparr> lm3530_example = Some (0, d')
    \<and> ld_regs d' LM3530_BRT_CTRL_REG = 80 \<and> ramp_synced d'"
  using lm3530_resume_restores [of lm3530_example "\<lparr>bl_brightness = 80, bl_max_brightness = 127, bl_power = 0, bl_fb_blank = 0\<rparr>"]
  by (auto simp: lm3530_example_def shown_brightness_def lm3530_reg_def)

text \<open>Ramp attributes: from a chip in step with its platform data, any sequence of writes of any text to the
  three ramp attributes is accepted and keeps it in step: rise, fall and law land in their own
  fields, and rejected values change nothing, also where the text has no number.\<close>

theorem lm3530_ramp_fields_synced:
  assumes "ramp_synced d" and "ld_faults d = []" and "\<forall>op \<in> set ops. 0 \<in> set (ramp_buf op)"
  shows "\<exists>d'. ramp_run ops d = Some d' \<and> ramp_synced d'"
  using assms
proof (induction ops arbitrary: d)
  case (Cons op ops)
  then obtain n d' where "ramp_step op d = Some (n, d')" "ramp_synced d'" "ld_faults d' = []"
    using ramp_step_synced [of d op] by auto
  then show ?case using Cons.IH [of d'] Cons.prems by simp
qed simp

theorem lm3530_ramp_fields_synced_witness:
  "\<exists>d'. ramp_run [SetRise [55, 10, 0] 0, SetFall [57, 0] 0, SetLaw [48, 0] 0, SetFall [120, 0] 3]
     (lm3530_example\<lparr>ld_regs := (\<lambda>_. 0)(0x30 := 0x14, 0x10 := 0x17)\<rparr>) = Some d' \<and> ramp_synced d'"
  by (rule lm3530_ramp_fields_synced) (auto simp: ramp_synced_def ramp_value_def lm3530_example_def)

text \<open>Initialisation reports only its last write: if writing the register number \<open>k\<close> fails, the
  remaining registers are not written, and yet the result is that of the final write of the enable bit, so
  success is reported for a chip that was not programmed.\<close>

theorem lm3530_init_masks_fault:
  assumes "ld_mode d = LM3530_BL_MODE_MANUAL" and "k < 15" and "e \<noteq> 0"
    and "ld_faults d = replicate k 0 @ e # 0 # es"
  shows "\<exists>d'. lm3530_init_registers d = (0, d')
    \<and> (\<forall>j. k \<le> j \<and> 0 < j \<and> j < 15 \<longrightarrow> ld_regs d' (lm3530_reg ! j) = ld_regs d (lm3530_reg ! j))"
proof -
  let ?d = "if \<not> ld_enable d then d\<lparr>ld_gpio := True, ld_enable := True\<rparr> else d"
  let ?rvs = "zip lm3530_reg (init_values d)"
  let ?regs = "put_regs (ld_regs d) (take k ?rvs)"
  have len: "length lm3530_reg = 15" "length (init_values d) = 15" by (simp_all add: init_values_length) (simp_all add: lm3530_reg_def)
  have w: "write_regs ?d ?rvs = (e, ?d\<lparr>ld_faults := 0 # es, ld_regs := ?regs\<rparr>)"
    using write_regs_fault [of ?d k e "0 # es" ?rvs] assms(2-4) len by (cases "ld_enable d") simp_all
  have frame: "reg \<notin> fst ` set rvs \<Longrightarrow> put_regs m rvs reg = m reg" for reg rvs m
    by (induction m rvs rule: put_regs.induct) auto
  have "?regs (lm3530_reg ! j) = ld_regs d (lm3530_reg ! j)" if "k \<le> j" "j < 15" for j
  proof (rule frame)
    have "fst ` set (take k ?rvs) \<subseteq> set (take k lm3530_reg)"
      by (auto simp: take_zip dest: set_zip_leftD)
    moreover have "distinct lm3530_reg" "length lm3530_reg = 15" by (simp_all add: lm3530_reg_def)
    then have "lm3530_reg ! j \<notin> set (take k lm3530_reg)"
      using that by (auto simp: in_set_conv_nth nth_eq_iff_index_eq)
    ultimately show "lm3530_reg ! j \<notin> fst ` set (take k ?rvs)" by blast
  qed
  moreover have "lm3530_reg ! j \<noteq> LM3530_GEN_CONFIG" if "0 < j" "j < 15" for j
  proof -
    have d: "distinct lm3530_reg" "length lm3530_reg = 15" "lm3530_reg ! 0 = 0x10" by (simp_all add: lm3530_reg_def)
    with that show ?thesis using nth_eq_iff_index_eq [OF d(1), of j 0] by auto
  qed
  ultimately show ?thesis using assms(1) w
    by (cases "ld_enable d") (auto simp: lm3530_init_registers_def Let_def i2c_smbus_write_byte_data_def next_result_def)
qed

theorem lm3530_init_masks_fault_witness:
  "\<exists>d'. lm3530_init_registers (lm3530_example\<lparr>ld_faults := [0, 0, - 5, 0]\<rparr>) = (0, d') \<and> ld_regs d' LM3530_BRT_RAMP_RATE = 0"
proof -
  let ?d = "lm3530_example\<lparr>ld_faults := [0, 0, - 5, 0]\<rparr>"
  have f: "ld_faults ?d = replicate 2 0 @ - 5 # 0 # []" by (simp add: lm3530_example_def numeral_2_eq_2)
  have m: "ld_mode ?d = LM3530_BL_MODE_MANUAL" by (simp add: lm3530_example_def)
  from lm3530_init_masks_fault [OF m _ _ f] obtain d' where "lm3530_init_registers ?d = (0, d')"
    and "ld_regs d' (lm3530_reg ! 2) = ld_regs ?d (lm3530_reg ! 2)" by auto
  then show ?thesis by (simp add: lm3530_reg_def lm3530_example_def)
qed

definition lr_none :: lm3530_res where
  "lr_none = \<lparr>lr_drvdata = False, lr_gpio = False, lr_exported = False, lr_link = False, lr_backlight = False, lr_sysfs = False, lr_slot = NoData\<rparr>"

text \<open>Life of the driver: a probe that fails holds nothing, except for the link to the line once it is made, and that a failure to create the
  attributes leaves the backlight device registered with its driver data freed. A probe that succeeds holds everything, but leaves
  the backlight device in the slot where the remove function looks for the driver data, so that removing
  the driver goes through a pointer of the wrong type.\<close>

theorem lm3530_probe_resources:
  assumes "lm3530_probe db env (Some pd) regs faults lr_none = Some (err, r, dd)"
  shows "if err = 0
    then r = \<lparr>lr_drvdata = True, lr_gpio = True, lr_exported = True, lr_link = True, lr_backlight = True, lr_sysfs = True, lr_slot = BacklightDevice\<rparr>
      \<and> dd \<noteq> None \<and> (\<forall>d. lm3530_remove r d = None)
    else \<not> lr_drvdata r \<and> \<not> lr_gpio r \<and> \<not> lr_exported r \<and> \<not> lr_sysfs r \<and> (lr_backlight r \<longrightarrow> lr_link r)
      \<and> (lr_backlight r \<longleftrightarrow> lp_mode pd \<noteq> LM3530_BL_MODE_OTHER \<and> le_framebuffer env \<noteq> Some False \<and> le_i2c_func env \<and> le_kzalloc env \<and> le_gpio_request env = 0
           \<and> le_gpio_direction env = 0 \<and> le_gpio_export env = 0 \<and> le_gpio_link env = 0 \<and> le_register env = 0)"
  using assms
  by (auto simp: lm3530_probe_def lr_none_def unexport_gpio_def lm3530_remove_def Let_def split: if_splits option.splits)

theorem lm3530_probe_resources_witness:
  "\<exists>r d. lm3530_probe (- 1) \<lparr>le_framebuffer = None, le_i2c_func = True, le_kzalloc = True, le_gpio_request = 0, le_gpio_direction = 0,
      le_gpio_export = 0, le_gpio_link = 0, le_register = 0, le_sysfs = 0\<rparr> (Some (ld_pdata lm3530_example)) (\<lambda>_. 0) [] lr_none
      = Some (0, r, Some d) \<and> lm3530_remove r d = None"
proof -
  let ?env = "\<lparr>le_framebuffer = None, le_i2c_func = True, le_kzalloc = True, le_gpio_request = 0, le_gpio_direction = 0,
      le_gpio_export = 0, le_gpio_link = 0, le_register = 0, le_sysfs = 0\<rparr>"
  obtain r d where p: "lm3530_probe (- 1) ?env (Some (ld_pdata lm3530_example)) (\<lambda>_. 0) [] lr_none = Some (0, r, Some d)"
    by (simp add: lm3530_probe_def Let_def update_status_manual shown_brightness_def initial_brightness_def lm3530_example_def)
  from lm3530_probe_resources [OF p] p show ?thesis by auto
qed

text \<open>The brightness of the command line is not checked against the maximum: a larger one stops the kernel.\<close>

lemma lm3530_cmdline_brightness_bug:
  assumes "lp_mode pd = LM3530_BL_MODE_MANUAL" "sint (lp_max_brightness pd) < db" "db \<noteq> - 1" "le_framebuffer env \<noteq> Some False"
    "le_i2c_func env" "le_kzalloc env" "le_gpio_request env = 0" "le_gpio_direction env = 0" "le_gpio_export env = 0"
    "le_gpio_link env = 0" "le_register env = 0"
  shows "lm3530_probe db env (Some pd) regs faults r = None"
  using assms by (simp add: lm3530_probe_def lm3530_update_status_def initial_brightness_def Let_def)

end
