(* ===== verification/Tea.thy ===== *)
theory Tea
  imports KPrelude
begin

text \<open>
  Block ciphers: the ciphers TEA, XTEA and XETA (\<^verbatim>\<open>crypto/tea.c\<close>) on byte blocks, and cipher
  block chaining (\<^verbatim>\<open>crypto/cbc.c\<close>) over any cipher. The loops of XTEA and XETA run until a
  32-bit sum reaches a limit and are partial functions, shown to return. The locale \<open>round_pair\<close> holds the
  inversion of a sequence of rounds, the locale \<open>block_cipher\<close> what chaining relies on.
\<close>

subsection \<open>Little-endian words\<close>

definition le32_to_cpu :: "bytes \<Rightarrow> nat \<Rightarrow> u32" where
  "le32_to_cpu m i = ucast (m ! (4 * i)) OR push_bit 8 (ucast (m ! (4 * i + 1)))
     OR push_bit 16 (ucast (m ! (4 * i + 2))) OR push_bit 24 (ucast (m ! (4 * i + 3)))"

definition cpu_to_le32 :: "u32 \<Rightarrow> bytes" where
  "cpu_to_le32 w = [ucast w, ucast (drop_bit 8 w), ucast (drop_bit 16 w), ucast (drop_bit 24 w)]"

lemma length_cpu_to_le32 [simp]: "length (cpu_to_le32 w) = 4"
  by (simp add: cpu_to_le32_def)

lemma join_bytes:
  "ucast (ucast w :: u8) OR push_bit 8 (ucast (ucast (drop_bit 8 w) :: u8)) OR push_bit 16 (ucast (ucast (drop_bit 16 w) :: u8))
     OR push_bit 24 (ucast (ucast (drop_bit 24 w) :: u8)) = (w :: u32)"
proof (rule bit_word_eqI)
  fix n
  assume n: "n < LENGTH(32)"
  consider "n < 8" | m where "n = 8 + m" "m < 8" | m where "n = 16 + m" "m < 8" | m where "n = 24 + m" "m < 8"
  proof -
    have "n < 8 \<or> n - 8 < 8 \<and> n = 8 + (n - 8) \<or> n - 16 < 8 \<and> n = 16 + (n - 16) \<or> n - 24 < 8 \<and> n = 24 + (n - 24)"
      using n by auto
    then show ?thesis using that by metis
  qed
  then show "bit (ucast (ucast w :: u8) OR push_bit 8 (ucast (ucast (drop_bit 8 w) :: u8)) OR push_bit 16 (ucast (ucast (drop_bit 16 w) :: u8))
     OR push_bit 24 (ucast (ucast (drop_bit 24 w) :: u8)) :: u32) n = bit w n"
    by cases (auto simp: bit_simps)
qed

lemma le32_of_cpu: "le32_to_cpu (cpu_to_le32 v @ cpu_to_le32 w) 0 = v" "le32_to_cpu (cpu_to_le32 v @ cpu_to_le32 w) 1 = w"
  by (simp_all add: le32_to_cpu_def cpu_to_le32_def join_bytes)

lemma cpu_of_le32_word:
  fixes a b c d :: u8
  shows "cpu_to_le32 (ucast a OR push_bit 8 (ucast b) OR push_bit 16 (ucast c) OR push_bit 24 (ucast d)) = [a, b, c, d]"
  unfolding cpu_to_le32_def list.inject
  by (intro conjI refl; rule bit_word_eqI; auto simp: bit_simps dest: bit_imp_le_length)

lemma cpu_of_le32: "length b = 8 \<Longrightarrow> cpu_to_le32 (le32_to_cpu b 0) @ cpu_to_le32 (le32_to_cpu b 1) = b"
proof -
  assume "length b = 8"
  then obtain b0 b1 b2 b3 b4 b5 b6 b7 where b: "b = [b0, b1, b2, b3, b4, b5, b6, b7]"
    by (auto simp: numeral_eq_Suc length_Suc_conv)
  show ?thesis unfolding b by (simp add: le32_to_cpu_def cpu_of_le32_word)
qed

subsection \<open>The ciphers\<close>

record tea_ctx =
  KEY :: "u32 list"

definition tea_setkey :: "bytes \<Rightarrow> tea_ctx" where
  "tea_setkey key = \<lparr>KEY = [le32_to_cpu key 0, le32_to_cpu key 1, le32_to_cpu key 2, le32_to_cpu key 3]\<rparr>"

definition TEA_DELTA :: u32 where
  "TEA_DELTA = 0x9e3779b9"

text \<open>The body of the loops of \<open>tea_encrypt\<close> and \<open>tea_decrypt\<close>: the sum the round works
  with is the one after, respectively before, the update.\<close>

definition tea_round :: "tea_ctx \<Rightarrow> u32 \<Rightarrow> u32 \<times> u32 \<Rightarrow> u32 \<times> u32" where
  "tea_round ctx s = (\<lambda>(y, z).
     let k = KEY ctx; s = s + TEA_DELTA;
         y = y + ((push_bit 4 z + k ! 0) XOR (z + s) XOR (drop_bit 5 z + k ! 1));
         z = z + ((push_bit 4 y + k ! 2) XOR (y + s) XOR (drop_bit 5 y + k ! 3))
     in (y, z))"

definition tea_unround :: "tea_ctx \<Rightarrow> u32 \<Rightarrow> u32 \<times> u32 \<Rightarrow> u32 \<times> u32" where
  "tea_unround ctx s = (\<lambda>(y, z).
     let k = KEY ctx;
         z = z - ((push_bit 4 y + k ! 2) XOR (y + s) XOR (drop_bit 5 y + k ! 3));
         y = y - ((push_bit 4 z + k ! 0) XOR (z + s) XOR (drop_bit 5 z + k ! 1))
     in (y, z))"

fun tea_enc_loop :: "tea_ctx \<Rightarrow> nat \<Rightarrow> u32 \<Rightarrow> u32 \<times> u32 \<Rightarrow> u32 \<times> u32" where
  "tea_enc_loop ctx 0 s x = x"
| "tea_enc_loop ctx (Suc n) s x = tea_enc_loop ctx n (s + TEA_DELTA) (tea_round ctx s x)"

fun tea_dec_loop :: "tea_ctx \<Rightarrow> nat \<Rightarrow> u32 \<Rightarrow> u32 \<times> u32 \<Rightarrow> u32 \<times> u32" where
  "tea_dec_loop ctx 0 s x = x"
| "tea_dec_loop ctx (Suc n) s x = tea_dec_loop ctx n (s - TEA_DELTA) (tea_unround ctx s x)"

definition tea_encrypt :: "tea_ctx \<Rightarrow> bytes \<Rightarrow> bytes" where
  "tea_encrypt ctx src =
     (let (y, z) = tea_enc_loop ctx 32 0 (le32_to_cpu src 0, le32_to_cpu src 1)
      in cpu_to_le32 y @ cpu_to_le32 z)"

definition tea_decrypt :: "tea_ctx \<Rightarrow> bytes \<Rightarrow> bytes" where
  "tea_decrypt ctx src =
     (let (y, z) = tea_dec_loop ctx 32 (push_bit 5 TEA_DELTA) (le32_to_cpu src 0, le32_to_cpu src 1)
      in cpu_to_le32 y @ cpu_to_le32 z)"

definition xtea_round :: "tea_ctx \<Rightarrow> u32 \<Rightarrow> u32 \<times> u32 \<Rightarrow> u32 \<times> u32" where
  "xtea_round ctx s = (\<lambda>(y, z).
     let y = y + (((push_bit 4 z XOR drop_bit 5 z) + z) XOR (s + KEY ctx ! unat (s AND 3)));
         s = s + TEA_DELTA;
         z = z + (((push_bit 4 y XOR drop_bit 5 y) + y) XOR (s + KEY ctx ! unat (drop_bit 11 s AND 3)))
     in (y, z))"

definition xtea_unround :: "tea_ctx \<Rightarrow> u32 \<Rightarrow> u32 \<times> u32 \<Rightarrow> u32 \<times> u32" where
  "xtea_unround ctx s = (\<lambda>(y, z).
     let z = z - (((push_bit 4 y XOR drop_bit 5 y) + y) XOR (s + KEY ctx ! unat (drop_bit 11 s AND 3)));
         s = s - TEA_DELTA;
         y = y - (((push_bit 4 z XOR drop_bit 5 z) + z) XOR (s + KEY ctx ! unat (s AND 3)))
     in (y, z))"

definition xeta_round :: "tea_ctx \<Rightarrow> u32 \<Rightarrow> u32 \<times> u32 \<Rightarrow> u32 \<times> u32" where
  "xeta_round ctx s = (\<lambda>(y, z).
     let y = y + ((push_bit 4 z XOR drop_bit 5 z) + (z XOR s) + KEY ctx ! unat (s AND 3));
         s = s + TEA_DELTA;
         z = z + ((push_bit 4 y XOR drop_bit 5 y) + (y XOR s) + KEY ctx ! unat (drop_bit 11 s AND 3))
     in (y, z))"

definition xeta_unround :: "tea_ctx \<Rightarrow> u32 \<Rightarrow> u32 \<times> u32 \<Rightarrow> u32 \<times> u32" where
  "xeta_unround ctx s = (\<lambda>(y, z).
     let z = z - ((push_bit 4 y XOR drop_bit 5 y) + (y XOR s) + KEY ctx ! unat (drop_bit 11 s AND 3));
         s = s - TEA_DELTA;
         y = y - ((push_bit 4 z XOR drop_bit 5 z) + (z XOR s) + KEY ctx ! unat (s AND 3))
     in (y, z))"

partial_function (option) xtea_enc_loop :: "tea_ctx \<Rightarrow> u32 \<Rightarrow> u32 \<times> u32 \<Rightarrow> (u32 \<times> u32) option" where
  "xtea_enc_loop ctx s x =
     (if s \<noteq> TEA_DELTA * 32 then xtea_enc_loop ctx (s + TEA_DELTA) (xtea_round ctx s x) else Some x)"

partial_function (option) xtea_dec_loop :: "tea_ctx \<Rightarrow> u32 \<Rightarrow> u32 \<times> u32 \<Rightarrow> (u32 \<times> u32) option" where
  "xtea_dec_loop ctx s x =
     (if s \<noteq> 0 then xtea_dec_loop ctx (s - TEA_DELTA) (xtea_unround ctx s x) else Some x)"

partial_function (option) xeta_enc_loop :: "tea_ctx \<Rightarrow> u32 \<Rightarrow> u32 \<times> u32 \<Rightarrow> (u32 \<times> u32) option" where
  "xeta_enc_loop ctx s x =
     (if s \<noteq> TEA_DELTA * 32 then xeta_enc_loop ctx (s + TEA_DELTA) (xeta_round ctx s x) else Some x)"

partial_function (option) xeta_dec_loop :: "tea_ctx \<Rightarrow> u32 \<Rightarrow> u32 \<times> u32 \<Rightarrow> (u32 \<times> u32) option" where
  "xeta_dec_loop ctx s x =
     (if s \<noteq> 0 then xeta_dec_loop ctx (s - TEA_DELTA) (xeta_unround ctx s x) else Some x)"

definition xtea_encrypt :: "tea_ctx \<Rightarrow> bytes \<Rightarrow> bytes option" where
  "xtea_encrypt ctx src = do {
     (y, z) \<leftarrow> xtea_enc_loop ctx 0 (le32_to_cpu src 0, le32_to_cpu src 1);
     Some (cpu_to_le32 y @ cpu_to_le32 z) }"

definition xtea_decrypt :: "tea_ctx \<Rightarrow> bytes \<Rightarrow> bytes option" where
  "xtea_decrypt ctx src = do {
     (y, z) \<leftarrow> xtea_dec_loop ctx (TEA_DELTA * 32) (le32_to_cpu src 0, le32_to_cpu src 1);
     Some (cpu_to_le32 y @ cpu_to_le32 z) }"

definition xeta_encrypt :: "tea_ctx \<Rightarrow> bytes \<Rightarrow> bytes option" where
  "xeta_encrypt ctx src = do {
     (y, z) \<leftarrow> xeta_enc_loop ctx 0 (le32_to_cpu src 0, le32_to_cpu src 1);
     Some (cpu_to_le32 y @ cpu_to_le32 z) }"

definition xeta_decrypt :: "tea_ctx \<Rightarrow> bytes \<Rightarrow> bytes option" where
  "xeta_decrypt ctx src = do {
     (y, z) \<leftarrow> xeta_dec_loop ctx (TEA_DELTA * 32) (le32_to_cpu src 0, le32_to_cpu src 1);
     Some (cpu_to_le32 y @ cpu_to_le32 z) }"

subsection \<open>Inverting a sequence of rounds\<close>

text \<open>\<open>n\<close> rounds upwards from the sum \<open>s\<close>, and \<open>n\<close> inverse rounds downwards.\<close>

fun rounds_up :: "(u32 \<Rightarrow> 'x \<Rightarrow> 'x) \<Rightarrow> nat \<Rightarrow> u32 \<Rightarrow> 'x \<Rightarrow> 'x" where
  "rounds_up f 0 s x = x"
| "rounds_up f (Suc n) s x = rounds_up f n (s + TEA_DELTA) (f s x)"

fun rounds_down :: "(u32 \<Rightarrow> 'x \<Rightarrow> 'x) \<Rightarrow> nat \<Rightarrow> u32 \<Rightarrow> 'x \<Rightarrow> 'x" where
  "rounds_down g 0 s x = x"
| "rounds_down g (Suc n) s x = rounds_down g n (s - TEA_DELTA) (g s x)"

locale round_pair =
  fixes f g :: "u32 \<Rightarrow> u32 \<times> u32 \<Rightarrow> u32 \<times> u32"
  assumes undo: "g (s + TEA_DELTA) (f s x) = x"
begin

lemma rounds_snoc: "rounds_up f (Suc n) s x = f (s + of_nat n * TEA_DELTA) (rounds_up f n s x)"
proof (induction n arbitrary: s x)
  case (Suc n)
  have "rounds_up f (Suc (Suc n)) s x = rounds_up f (Suc n) (s + TEA_DELTA) (f s x)" by simp
  also have "\<dots> = f (s + TEA_DELTA + of_nat n * TEA_DELTA) (rounds_up f n (s + TEA_DELTA) (f s x))" by (rule Suc.IH)
  finally show ?case by (simp add: algebra_simps)
qed simp

lemma rounds_inverse: "rounds_down g n (s + of_nat n * TEA_DELTA) (rounds_up f n s x) = x"
proof (induction n arbitrary: x)
  case (Suc n)
  have e: "s + of_nat (Suc n) * TEA_DELTA = (s + of_nat n * TEA_DELTA) + TEA_DELTA" by (simp add: algebra_simps)
  show ?case unfolding e rounds_snoc by (simp add: undo Suc.IH del: rounds_up.simps)
qed simp

end

interpretation tea_rounds: round_pair "tea_round ctx" "tea_unround ctx" for ctx
  by unfold_locales (auto simp: tea_round_def tea_unround_def Let_def)

interpretation xtea_rounds: round_pair "xtea_round ctx" "xtea_unround ctx" for ctx
  by unfold_locales (auto simp: xtea_round_def xtea_unround_def Let_def)

interpretation xeta_rounds: round_pair "xeta_round ctx" "xeta_unround ctx" for ctx
  by unfold_locales (auto simp: xeta_round_def xeta_unround_def Let_def)

lemma tea_loops: "tea_enc_loop ctx n s x = rounds_up (tea_round ctx) n s x" "tea_dec_loop ctx n s x = rounds_down (tea_unround ctx) n s x"
  by (induction n arbitrary: s x) simp_all

text \<open>The sums of fewer than 32 rounds differ from each other.\<close>

lemma delta_multiple: "0 < n \<Longrightarrow> n \<le> 32 \<Longrightarrow> of_nat n * TEA_DELTA \<noteq> 0"
proof -
  assume n: "0 < n" "n \<le> 32"
  have "list_all (\<lambda>n. of_nat n * TEA_DELTA \<noteq> 0) (map Suc [0, 1, 2, 3, 4, 5, 6, 7, 8, 9, 10, 11, 12, 13, 14, 15, 16, 17, 18, 19, 20,
      21, 22, 23, 24, 25, 26, 27, 28, 29, 30, 31])" by (simp add: TEA_DELTA_def)
  moreover have "[0, 1, 2, 3, 4, 5, 6, 7, 8, 9, 10, 11, 12, 13, 14, 15, 16, 17, 18, 19, 20,
      21, 22, 23, 24, 25, 26, 27, 28, 29, 30, 31] = [0..<32]" by (simp add: upt_rec)
  ultimately have "list_all (\<lambda>n. of_nat n * TEA_DELTA \<noteq> 0) (map Suc [0..<32])" by (simp only:)
  moreover have "n \<in> set (map Suc [0..<32])" using n by (cases n) auto
  ultimately show ?thesis unfolding list_all_iff by blast
qed

lemma up_loop_rounds:
  assumes L: "\<And>s x. L s x = (if s \<noteq> TEA_DELTA * 32 then L (s + TEA_DELTA) (f s x) else Some x)"
  shows "n \<le> 32 \<Longrightarrow> L (TEA_DELTA * 32 - of_nat n * TEA_DELTA) x = Some (rounds_up f n (TEA_DELTA * 32 - of_nat n * TEA_DELTA) x)"
proof (induction n arbitrary: x)
  case 0
  then show ?case by (subst L) simp
next
  case (Suc n)
  let ?s = "TEA_DELTA * 32 - of_nat (Suc n) * TEA_DELTA"
  have "?s \<noteq> TEA_DELTA * 32" using delta_multiple [of "Suc n"] Suc.prems by simp
  then have step: "L ?s x = L (?s + TEA_DELTA) (f ?s x)" by (subst L) simp
  have s: "?s + TEA_DELTA = TEA_DELTA * 32 - of_nat n * TEA_DELTA" by (simp add: algebra_simps)
  show ?case unfolding step rounds_up.simps s using Suc.IH Suc.prems by simp
qed

lemma down_loop_rounds:
  assumes L: "\<And>s x. L s x = (if s \<noteq> 0 then L (s - TEA_DELTA) (g s x) else Some x)"
  shows "n \<le> 32 \<Longrightarrow> L (of_nat n * TEA_DELTA) x = Some (rounds_down g n (of_nat n * TEA_DELTA) x)"
proof (induction n arbitrary: x)
  case 0
  then show ?case by (subst L) simp
next
  case (Suc n)
  let ?s = "of_nat (Suc n) * TEA_DELTA"
  have "?s \<noteq> 0" using delta_multiple [of "Suc n"] Suc.prems by simp
  then have step: "L ?s x = L (?s - TEA_DELTA) (g ?s x)" by (subst L) simp
  have s: "?s - TEA_DELTA = of_nat n * TEA_DELTA" by (simp add: algebra_simps)
  show ?case unfolding step rounds_down.simps s using Suc.IH Suc.prems by simp
qed

lemma xtea_loops: "xtea_enc_loop ctx 0 x = Some (rounds_up (xtea_round ctx) 32 0 x)"
    "xtea_dec_loop ctx (TEA_DELTA * 32) x = Some (rounds_down (xtea_unround ctx) 32 (TEA_DELTA * 32) x)"
  using up_loop_rounds [of "xtea_enc_loop ctx" "xtea_round ctx" 32 x, OF xtea_enc_loop.simps]
    down_loop_rounds [of "xtea_dec_loop ctx" "xtea_unround ctx" 32 x, OF xtea_dec_loop.simps]
  by (simp_all add: mult.commute)

lemma xeta_loops: "xeta_enc_loop ctx 0 x = Some (rounds_up (xeta_round ctx) 32 0 x)"
    "xeta_dec_loop ctx (TEA_DELTA * 32) x = Some (rounds_down (xeta_unround ctx) 32 (TEA_DELTA * 32) x)"
  using up_loop_rounds [of "xeta_enc_loop ctx" "xeta_round ctx" 32 x, OF xeta_enc_loop.simps]
    down_loop_rounds [of "xeta_dec_loop ctx" "xeta_unround ctx" 32 x, OF xeta_dec_loop.simps]
  by (simp_all add: mult.commute)

text \<open>A block put through rounds and back.\<close>

definition crypt_block :: "(u32 \<times> u32 \<Rightarrow> u32 \<times> u32) \<Rightarrow> bytes \<Rightarrow> bytes" where
  "crypt_block F b = (let (y, z) = F (le32_to_cpu b 0, le32_to_cpu b 1) in cpu_to_le32 y @ cpu_to_le32 z)"

lemma crypt_block_inverse:
  assumes "\<And>x. G (F x) = x" "length b = 8"
  shows "length (crypt_block F b) = 8" and "crypt_block G (crypt_block F b) = b"
proof -
  obtain y z where yz: "F (le32_to_cpu b 0, le32_to_cpu b 1) = (y, z)" by fastforce
  show "length (crypt_block F b) = 8" by (simp add: crypt_block_def yz del: One_nat_def)
  have "G (y, z) = (le32_to_cpu b 0, le32_to_cpu b 1)" using assms(1) yz by metis
  then show "crypt_block G (crypt_block F b) = b"
    by (simp add: crypt_block_def yz le32_of_cpu cpu_of_le32 [OF assms(2)] del: One_nat_def)
qed

lemma cipher_blocks:
  "tea_encrypt ctx b = crypt_block (rounds_up (tea_round ctx) 32 0) b"
  "tea_decrypt ctx b = crypt_block (rounds_down (tea_unround ctx) 32 (TEA_DELTA * 32)) b"
  "xtea_encrypt ctx b = Some (crypt_block (rounds_up (xtea_round ctx) 32 0) b)"
  "xtea_decrypt ctx b = Some (crypt_block (rounds_down (xtea_unround ctx) 32 (TEA_DELTA * 32)) b)"
  "xeta_encrypt ctx b = Some (crypt_block (rounds_up (xeta_round ctx) 32 0) b)"
  "xeta_decrypt ctx b = Some (crypt_block (rounds_down (xeta_unround ctx) 32 (TEA_DELTA * 32)) b)"
proof -
  have "push_bit 5 TEA_DELTA = TEA_DELTA * 32" by (simp add: push_bit_eq_mult)
  then show "tea_encrypt ctx b = crypt_block (rounds_up (tea_round ctx) 32 0) b"
    "tea_decrypt ctx b = crypt_block (rounds_down (tea_unround ctx) 32 (TEA_DELTA * 32)) b"
    by (simp_all only: tea_encrypt_def tea_decrypt_def tea_loops crypt_block_def)
qed (simp_all add: xtea_encrypt_def xtea_decrypt_def xeta_encrypt_def xeta_decrypt_def xtea_loops xeta_loops crypt_block_def split_beta
  del: rounds_up.simps rounds_down.simps)

lemma rounds_32:
  "rounds_down (tea_unround ctx) 32 (TEA_DELTA * 32) (rounds_up (tea_round ctx) 32 0 x) = x"
  "rounds_down (xtea_unround ctx) 32 (TEA_DELTA * 32) (rounds_up (xtea_round ctx) 32 0 x) = x"
  "rounds_down (xeta_unround ctx) 32 (TEA_DELTA * 32) (rounds_up (xeta_round ctx) 32 0 x) = x"
  using tea_rounds.rounds_inverse [of ctx 32 0 x] xtea_rounds.rounds_inverse [of ctx 32 0 x] xeta_rounds.rounds_inverse [of ctx 32 0 x]
  by (simp_all add: mult.commute del: rounds_up.simps rounds_down.simps)

subsection \<open>Cipher block chaining\<close>

text \<open>\<open>crypto_xor\<close> works on 32-bit words as long as there are four bytes left, then on bytes.\<close>

definition crypto_xor_byte :: "bytes \<Rightarrow> bytes \<Rightarrow> nat \<Rightarrow> bytes" where
  "crypto_xor_byte a b n = map2 (XOR) (take n a) (take n b)"

function crypto_xor :: "bytes \<Rightarrow> bytes \<Rightarrow> nat \<Rightarrow> bytes" where
  "crypto_xor dst src n =
     (if n \<ge> 4 then cpu_to_le32 (le32_to_cpu dst 0 XOR le32_to_cpu src 0) @ crypto_xor (drop 4 dst) (drop 4 src) (n - 4)
      else crypto_xor_byte dst src n)"
  by pat_completeness auto
termination by (relation "measure (\<lambda>(d, s, n). n)") auto

declare crypto_xor.simps [simp del]

text \<open>
  The four inner functions. \<open>fn\<close> and \<open>bsize\<close> are the child cipher's routine and block size. The
  loops are do-while loops: with less than a block the byte count would wrap, which is \<open>None\<close>.
  The result is the output, the next chaining value and the bytes left over.
\<close>

function crypto_cbc_encrypt_segment :: "(bytes \<Rightarrow> bytes) \<Rightarrow> nat \<Rightarrow> bytes \<Rightarrow> bytes \<Rightarrow> nat \<Rightarrow> (bytes \<times> bytes \<times> nat) option" where
  "crypto_cbc_encrypt_segment fn bsize iv src nbytes =
     (if nbytes < bsize \<or> bsize = 0 then None
      else let iv = crypto_xor iv src bsize;
               dst = fn iv;
               iv = dst;
               nbytes = nbytes - bsize
        in if nbytes \<ge> bsize then do {
             (rest, iv, left) \<leftarrow> crypto_cbc_encrypt_segment fn bsize iv (drop bsize src) nbytes;
             Some (dst @ rest, iv, left) }
           else Some (dst, iv, nbytes))"
  by pat_completeness auto
termination by (relation "measure (\<lambda>(fn, bsize, iv, src, nbytes). nbytes)") auto

function crypto_cbc_decrypt_segment :: "(bytes \<Rightarrow> bytes) \<Rightarrow> nat \<Rightarrow> bytes \<Rightarrow> bytes \<Rightarrow> nat \<Rightarrow> (bytes \<times> bytes \<times> nat) option" where
  "crypto_cbc_decrypt_segment fn bsize iv src nbytes =
     (if nbytes < bsize \<or> bsize = 0 then None
      else let blk = take bsize src;
               dst = crypto_xor (fn blk) iv bsize;
               iv = blk;
               nbytes = nbytes - bsize
        in if nbytes \<ge> bsize then do {
             (rest, iv, left) \<leftarrow> crypto_cbc_decrypt_segment fn bsize iv (drop bsize src) nbytes;
             Some (dst @ rest, iv, left) }
           else Some (dst, iv, nbytes))"
  by pat_completeness auto
termination by (relation "measure (\<lambda>(fn, bsize, iv, src, nbytes). nbytes)") auto

text \<open>In place, the buffer is \<open>m\<close> and the current block starts at \<open>p\<close>.\<close>

function crypto_cbc_encrypt_inplace :: "(bytes \<Rightarrow> bytes) \<Rightarrow> nat \<Rightarrow> bytes \<Rightarrow> bytes \<Rightarrow> nat \<Rightarrow> nat \<Rightarrow> (bytes \<times> bytes \<times> nat) option" where
  "crypto_cbc_encrypt_inplace fn bsize iv m p nbytes =
     (if nbytes < bsize \<or> bsize = 0 then None
      else do {
        blk \<leftarrow> mem_rd m p bsize;
        m \<leftarrow> mem_wr m p (crypto_xor blk iv bsize);
        blk \<leftarrow> mem_rd m p bsize;
        m \<leftarrow> mem_wr m p (fn blk);
        iv \<leftarrow> mem_rd m p bsize;
        let nbytes = nbytes - bsize;
        if nbytes \<ge> bsize then crypto_cbc_encrypt_inplace fn bsize iv m (p + bsize) nbytes
        else Some (m, iv, nbytes) })"
  by pat_completeness auto
termination by (relation "measure (\<lambda>(fn, bsize, iv, m, p, nbytes). nbytes)") auto

text \<open>The decryption in place goes from the last block to the first, with \<open>src\<close> the block's position.\<close>

function cbc_decrypt_back :: "(bytes \<Rightarrow> bytes) \<Rightarrow> nat \<Rightarrow> bytes \<Rightarrow> nat \<Rightarrow> nat \<Rightarrow> (bytes \<times> nat \<times> nat) option" where
  "cbc_decrypt_back fn bsize m src nbytes =
     (if nbytes < bsize \<or> bsize = 0 then None
      else do {
        blk \<leftarrow> mem_rd m src bsize;
        m \<leftarrow> mem_wr m src (fn blk);
        let nbytes = nbytes - bsize;
        if nbytes < bsize then Some (m, src, nbytes)
        else if src < bsize then None
        else do {
          blk \<leftarrow> mem_rd m src bsize;
          prev \<leftarrow> mem_rd m (src - bsize) bsize;
          m \<leftarrow> mem_wr m src (crypto_xor blk prev bsize);
          cbc_decrypt_back fn bsize m (src - bsize) nbytes } })"
  by pat_completeness auto
termination by (relation "measure (\<lambda>(fn, bsize, m, src, nbytes). nbytes)") auto

definition crypto_cbc_decrypt_inplace :: "(bytes \<Rightarrow> bytes) \<Rightarrow> nat \<Rightarrow> bytes \<Rightarrow> bytes \<Rightarrow> nat \<Rightarrow> (bytes \<times> bytes \<times> nat) option" where
  "crypto_cbc_decrypt_inplace fn bsize iv m nbytes =
     (if nbytes < bsize \<or> bsize = 0 then None
      else do {
        let src = nbytes - (nbytes AND (bsize - 1)) - bsize;
        last_iv \<leftarrow> mem_rd m src bsize;
        (m, src, nbytes) \<leftarrow> cbc_decrypt_back fn bsize m src nbytes;
        blk \<leftarrow> mem_rd m src bsize;
        m \<leftarrow> mem_wr m src (crypto_xor blk iv bsize);
        Some (m, last_iv, nbytes) })"

lemmas [simp del] = crypto_cbc_encrypt_segment.simps crypto_cbc_decrypt_segment.simps crypto_cbc_encrypt_inplace.simps cbc_decrypt_back.simps

text \<open>The mode as a function on lists of blocks.\<close>

fun cbc_enc :: "(bytes \<Rightarrow> bytes) \<Rightarrow> bytes \<Rightarrow> bytes list \<Rightarrow> bytes list" where
  "cbc_enc fn iv [] = []"
| "cbc_enc fn iv (b # bs) = (let c = fn (map2 (XOR) iv b) in c # cbc_enc fn c bs)"

fun cbc_dec :: "(bytes \<Rightarrow> bytes) \<Rightarrow> bytes \<Rightarrow> bytes list \<Rightarrow> bytes list" where
  "cbc_dec fn iv [] = []"
| "cbc_dec fn iv (c # cs) = map2 (XOR) (fn c) iv # cbc_dec fn c cs"

lemma xor_le32: "length a = 4 \<Longrightarrow> length b = 4 \<Longrightarrow> cpu_to_le32 (le32_to_cpu a 0 XOR le32_to_cpu b 0) = map2 (XOR) a b"
proof -
  assume "length a = 4" "length b = 4"
  then obtain a0 a1 a2 a3 b0 b1 b2 b3 where ab: "a = [a0, a1, a2, a3]" "b = [b0, b1, b2, b3]"
    by (auto simp: numeral_eq_Suc length_Suc_conv)
  have "le32_to_cpu a 0 XOR le32_to_cpu b 0 = ucast (a0 XOR b0) OR push_bit 8 (ucast (a1 XOR b1))
      OR push_bit 16 (ucast (a2 XOR b2)) OR push_bit 24 (ucast (a3 XOR b3))"
    unfolding ab le32_to_cpu_def by (rule bit_word_eqI) (auto simp: bit_simps dest: bit_imp_le_length)
  then show ?thesis by (simp add: cpu_of_le32_word ab)
qed

lemma crypto_xor_map2: "n \<le> length d \<Longrightarrow> n \<le> length s \<Longrightarrow> crypto_xor d s n = map2 (XOR) (take n d) (take n s)"
proof (induction d s n rule: crypto_xor.induct)
  case (1 d s n)
  show ?case
  proof (cases "n \<ge> 4")
    case True
    have "le32_to_cpu d 0 = le32_to_cpu (take 4 d) 0" "le32_to_cpu s 0 = le32_to_cpu (take 4 s) 0"
      using True "1.prems" by (simp_all add: le32_to_cpu_def)
    then have "cpu_to_le32 (le32_to_cpu d 0 XOR le32_to_cpu s 0) = map2 (XOR) (take 4 d) (take 4 s)"
      using True "1.prems" by (simp add: xor_le32)
    moreover have "take n d = take 4 d @ take (n - 4) (drop 4 d)" "take n s = take 4 s @ take (n - 4) (drop 4 s)"
      using True by (metis le_add_diff_inverse take_add)+
    ultimately show ?thesis using "1.IH" [OF True] True "1.prems" by (subst crypto_xor.simps) simp
  next
    case False
    then show ?thesis by (subst crypto_xor.simps) (simp add: crypto_xor_byte_def)
  qed
qed

subsection \<open>What chaining needs of a cipher, and what it gives\<close>

lemma xor_cancel: "length a = length b \<Longrightarrow> map2 (XOR) (map2 (XOR) a b) a = (b :: bytes)"
  by (induction a b rule: list_induct2) (simp_all add: xor.commute xor.assoc)

lemma xor_swap: "map2 (XOR) a b = map2 (XOR) b (a :: bytes)"
  by (induction a b rule: list_induct2') (simp_all add: xor.commute)

lemma cbc_dec_snoc: "cbc_dec fn iv (cs @ [c]) = cbc_dec fn iv cs @ [map2 (XOR) (fn c) (last (iv # cs))]"
  by (induction cs arbitrary: iv) simp_all

lemma mem_rd_at: "length pre = p \<Longrightarrow> length b = n \<Longrightarrow> mem_rd (pre @ b @ post) p n = Some b"
  by (simp add: mem_rd_def)

lemma mem_wr_at: "length pre = p \<Longrightarrow> length c = length b \<Longrightarrow> mem_wr (pre @ b @ post) p c = Some (pre @ c @ post)"
  by (simp add: mem_wr_def)

locale block_cipher =
  fixes bsize :: nat and enc dec :: "bytes \<Rightarrow> bytes"
  assumes pow2: "\<exists>k. bsize = 2 ^ k"
    and enc_length: "length b = bsize \<Longrightarrow> length (enc b) = bsize"
    and dec_length: "length b = bsize \<Longrightarrow> length (dec b) = bsize"
    and dec_enc: "length b = bsize \<Longrightarrow> dec (enc b) = b"
begin

lemma bsize_pos: "0 < bsize"
  using pow2 by auto

lemma cbc_enc_blocks: "length iv = bsize \<Longrightarrow> \<forall>b \<in> set bs. length b = bsize \<Longrightarrow> \<forall>c \<in> set (cbc_enc enc iv bs). length c = bsize"
proof (induction bs arbitrary: iv)
  case (Cons b bs)
  then have "length (enc (map2 (XOR) iv b)) = bsize" by (intro enc_length) simp
  with Cons.IH [OF this] Cons.prems show ?case by (simp add: Let_def)
qed simp

lemma cbc_enc_length: "length (cbc_enc enc iv bs) = length bs"
  by (induction bs arbitrary: iv) (simp_all add: Let_def)

lemma cbc_dec_cbc_enc: "length iv = bsize \<Longrightarrow> \<forall>b \<in> set bs. length b = bsize \<Longrightarrow> cbc_dec dec iv (cbc_enc enc iv bs) = bs"
  by (induction bs arbitrary: iv) (simp_all add: Let_def enc_length dec_enc xor_cancel)

lemma encrypt_segment:
  "length iv = bsize \<Longrightarrow> \<forall>b \<in> set bs. length b = bsize \<Longrightarrow> bs \<noteq> [] \<Longrightarrow> length rest < bsize \<Longrightarrow>
   crypto_cbc_encrypt_segment enc bsize iv (concat bs @ rest) (length (concat bs @ rest))
     = Some (concat (cbc_enc enc iv bs), last (cbc_enc enc iv bs), length rest)"
proof (induction bs arbitrary: iv)
  case (Cons b bs)
  have b: "length b = bsize" using Cons.prems by simp
  have x: "crypto_xor iv (b @ concat bs @ rest) bsize = map2 (XOR) iv b" using Cons.prems b by (simp add: crypto_xor_map2)
  show ?case
  proof (cases bs)
    case Nil
    then show ?thesis using Cons.prems b x bsize_pos by (simp add: crypto_cbc_encrypt_segment.simps Let_def)
  next
    case (Cons b' bs')
    let ?c = "enc (map2 (XOR) iv b)"
    have "length (concat bs @ rest) \<ge> bsize" using Cons Cons.prems by simp
    moreover have "crypto_cbc_encrypt_segment enc bsize ?c (concat bs @ rest) (length (concat bs @ rest))
        = Some (concat (cbc_enc enc ?c bs), last (cbc_enc enc ?c bs), length rest)"
      using Cons.IH [of ?c] Cons.prems Cons b enc_length by simp
    moreover have "cbc_enc enc ?c bs \<noteq> []" using Cons by (simp add: Let_def)
    ultimately show ?thesis using b x bsize_pos Cons.prems
      by (subst crypto_cbc_encrypt_segment.simps) (simp add: Let_def)
  qed
qed simp

lemma decrypt_segment:
  "length iv = bsize \<Longrightarrow> \<forall>c \<in> set cs. length c = bsize \<Longrightarrow> cs \<noteq> [] \<Longrightarrow> length rest < bsize \<Longrightarrow>
   crypto_cbc_decrypt_segment dec bsize iv (concat cs @ rest) (length (concat cs @ rest))
     = Some (concat (cbc_dec dec iv cs), last cs, length rest)"
proof (induction cs arbitrary: iv)
  case (Cons c cs)
  have c: "length c = bsize" using Cons.prems by simp
  have x: "crypto_xor (dec c) iv bsize = map2 (XOR) (dec c) iv" using Cons.prems c by (simp add: crypto_xor_map2 dec_length)
  show ?case
  proof (cases cs)
    case Nil
    then show ?thesis using Cons.prems c x bsize_pos by (simp add: crypto_cbc_decrypt_segment.simps Let_def)
  next
    case (Cons c' cs')
    have "length (concat cs @ rest) \<ge> bsize" using Cons Cons.prems by simp
    moreover have "crypto_cbc_decrypt_segment dec bsize c (concat cs @ rest) (length (concat cs @ rest))
        = Some (concat (cbc_dec dec c cs), last cs, length rest)"
      using Cons.IH [of c] Cons.prems Cons c by simp
    ultimately show ?thesis using c x bsize_pos Cons.prems Cons
      by (subst crypto_cbc_decrypt_segment.simps) (simp add: Let_def)
  qed
qed simp

lemma encrypt_inplace:
  "length iv = bsize \<Longrightarrow> \<forall>b \<in> set bs. length b = bsize \<Longrightarrow> bs \<noteq> [] \<Longrightarrow> length rest < bsize \<Longrightarrow>
   crypto_cbc_encrypt_inplace enc bsize iv (pre @ concat bs @ rest) (length pre) (length (concat bs @ rest))
     = Some (pre @ concat (cbc_enc enc iv bs) @ rest, last (cbc_enc enc iv bs), length rest)"
proof (induction bs arbitrary: iv pre)
  case (Cons b bs)
  have b: "length b = bsize" using Cons.prems by simp
  let ?x = "map2 (XOR) iv b" and ?r = "concat bs @ rest"
  let ?c = "enc ?x"
  have x: "crypto_xor b iv bsize = ?x" using Cons.prems b by (simp add: crypto_xor_map2 xor_swap)
  have lx: "length ?x = bsize" using Cons.prems b by simp
  have lc: "length ?c = bsize" using lx by (rule enc_length)
  note io = mem_rd_at [of pre "length pre" b bsize ?r] mem_wr_at [of pre "length pre" ?x b ?r]
    mem_rd_at [of pre "length pre" ?x bsize ?r] mem_wr_at [of pre "length pre" ?c ?x ?r] mem_rd_at [of pre "length pre" ?c bsize ?r]
  show ?case
  proof (cases bs)
    case Nil
    then show ?thesis using Cons.prems b x lx lc io bsize_pos by (subst crypto_cbc_encrypt_inplace.simps) (simp add: Let_def)
  next
    case (Cons b' bs')
    have "length ?r \<ge> bsize" using Cons Cons.prems by simp
    moreover have "crypto_cbc_encrypt_inplace enc bsize ?c ((pre @ ?c) @ ?r) (length (pre @ ?c)) (length ?r)
        = Some ((pre @ ?c) @ concat (cbc_enc enc ?c bs) @ rest, last (cbc_enc enc ?c bs), length rest)"
      using Cons.prems Cons lc by (intro Cons.IH) simp_all
    moreover have "cbc_enc enc ?c bs \<noteq> []" using Cons by (simp add: Let_def)
    ultimately show ?thesis using b x lx lc io bsize_pos Cons.prems
      by (subst crypto_cbc_encrypt_inplace.simps) (simp add: Let_def)
  qed
qed simp

lemma decrypt_back:
  "\<forall>d \<in> set (xs @ [c]). length d = bsize \<Longrightarrow> r < bsize \<Longrightarrow>
   cbc_decrypt_back dec bsize (concat (xs @ [c]) @ post) (length (concat xs)) (length (concat (xs @ [c])) + r)
     = Some (dec (hd (xs @ [c])) @ concat (cbc_dec dec (hd (xs @ [c])) (tl (xs @ [c]))) @ post, 0, r)"
proof (induction xs arbitrary: c post rule: rev_induct)
  case Nil
  then show ?case using bsize_pos dec_length [of c] mem_rd_at [of "[]" 0 c bsize post] mem_wr_at [of "[]" 0 "dec c" c post]
    by (subst cbc_decrypt_back.simps) (simp add: Let_def)
next
  case (snoc d xs)
  have len: "length c = bsize" "length d = bsize" using snoc.prems by auto
  have x: "crypto_xor (dec c) d bsize = map2 (XOR) (dec c) d" using len by (simp add: crypto_xor_map2 dec_length)
  let ?pre = "concat (xs @ [d])"
  let ?y = "map2 (XOR) (dec c) d"
  have IH: "cbc_decrypt_back dec bsize (concat (xs @ [d]) @ (?y @ post)) (length (concat xs)) (length (concat (xs @ [d])) + r)
     = Some (dec (hd (xs @ [d])) @ concat (cbc_dec dec (hd (xs @ [d])) (tl (xs @ [d]))) @ (?y @ post), 0, r)"
    using snoc.prems by (intro snoc.IH) auto
  have sp: "length ?pre = length (concat xs) + bsize" using len by simp
  note io = mem_rd_at [of ?pre "length ?pre" c bsize post] mem_wr_at [of ?pre "length ?pre" "dec c" c post]
    mem_rd_at [of ?pre "length ?pre" "dec c" bsize post] mem_wr_at [of ?pre "length ?pre" ?y "dec c" post]
    mem_rd_at [of "concat xs" "length (concat xs)" d bsize "dec c @ post"]
  have hd_tl: "hd (xs @ [d, c]) = hd (xs @ [d])" "tl (xs @ [d, c]) = tl (xs @ [d]) @ [c]"
    "last (hd (xs @ [d]) # tl (xs @ [d])) = d"
    by (cases xs; simp)+
  have dec2: "cbc_dec dec (hd (xs @ [d])) (tl (xs @ [d]) @ [c]) = cbc_dec dec (hd (xs @ [d])) (tl (xs @ [d])) @ [?y]"
    using hd_tl(3) by (simp only: cbc_dec_snoc)
  show ?case using io x len sp IH bsize_pos snoc.prems(2) hd_tl(1,2) dec2
    by (subst cbc_decrypt_back.simps) (simp add: Let_def dec_length add.assoc)
qed

lemma mask_mod: "n AND (bsize - 1) = n mod bsize"
proof -
  obtain k where k: "bsize = 2 ^ k" using pow2 by blast
  then have "bsize - 1 = mask k" by (simp add: mask_eq_exp_minus_1)
  then show ?thesis using k by (simp flip: take_bit_eq_mask add: take_bit_eq_mod)
qed

lemma decrypt_inplace:
  assumes "length iv = bsize" "\<forall>c \<in> set cs. length c = bsize" "cs \<noteq> []" "length rest < bsize"
  shows "crypto_cbc_decrypt_inplace dec bsize iv (concat cs @ rest) (length (concat cs @ rest))
     = Some (concat (cbc_dec dec iv cs) @ rest, last cs, length rest)"
proof -
  obtain xs c where cs: "cs = xs @ [c]" using assms(3) by (metis rev_exhaust)
  have c: "length c = bsize" using assms(2) cs by simp
  have len: "length (concat cs) = length cs * bsize" using assms(2) by (induction cs) auto
  have pos: "length (concat cs @ rest) - (length (concat cs @ rest) AND (bsize - 1)) - bsize = length (concat xs)"
    unfolding mask_mod using len assms(4) cs c by simp
  obtain c0 cs0 where c0: "cs = c0 # cs0" using assms(3) by (cases cs) auto
  have l0: "length (dec c0) = bsize" using assms(2) c0 dec_length by simp
  have x: "crypto_xor (dec c0) iv bsize = map2 (XOR) (dec c0) iv" using assms(1) l0 by (simp add: crypto_xor_map2)
  have ht: "hd (xs @ [c]) = c0" "tl (xs @ [c]) = cs0" using cs c0 by (metis list.sel(1), metis list.sel(3))
  have bk: "cbc_decrypt_back dec bsize (concat cs @ rest) (length (concat xs)) (length (concat cs @ rest))
      = Some (dec c0 @ concat (cbc_dec dec c0 cs0) @ rest, 0, length rest)"
    using decrypt_back [of xs c "length rest" rest] assms(2,4) cs ht by (simp add: add.assoc)
  have rd: "mem_rd (concat cs @ rest) (length (concat xs)) bsize = Some c"
    using mem_rd_at [of "concat xs" _ c bsize rest] c cs by simp
  have big: "\<not> (length (concat cs @ rest) < bsize \<or> bsize = 0)" using bsize_pos cs c by simp
  have lc: "(if cs0 = [] then c0 else last cs0) = c" using cs c0 by (metis last.simps last_snoc)
  show ?thesis unfolding crypto_cbc_decrypt_inplace_def if_not_P [OF big] Let_def pos rd
    using lc bk x l0 assms(1) c0 cs mem_rd_at [of "[]" 0 "dec c0" bsize] mem_wr_at [of "[]" 0 "map2 (XOR) (dec c0) iv" "dec c0"]
    by (simp del: concat_append length_append)
qed

end

text \<open>The ciphers are block ciphers: TEA directly, XTEA and XETA through their results.\<close>

lemma crypt_block_length: "length (crypt_block F b) = 8"
  by (simp add: crypt_block_def split_beta)

interpretation tea_cipher: block_cipher 8 "tea_encrypt ctx" "tea_decrypt ctx" for ctx
  by unfold_locales (auto simp: cipher_blocks crypt_block_length intro!: exI [of _ 3] crypt_block_inverse(2) rounds_32
      simp del: rounds_up.simps rounds_down.simps)

interpretation xtea_cipher: block_cipher 8 "\<lambda>b. the (xtea_encrypt ctx b)" "\<lambda>b. the (xtea_decrypt ctx b)" for ctx
  by unfold_locales (auto simp: cipher_blocks crypt_block_length intro!: exI [of _ 3] crypt_block_inverse(2) rounds_32
      simp del: rounds_up.simps rounds_down.simps)

interpretation xeta_cipher: block_cipher 8 "\<lambda>b. the (xeta_encrypt ctx b)" "\<lambda>b. the (xeta_decrypt ctx b)" for ctx
  by unfold_locales (auto simp: cipher_blocks crypt_block_length intro!: exI [of _ 3] crypt_block_inverse(2) rounds_32
      simp del: rounds_up.simps rounds_down.simps)

subsection \<open>Properties\<close>

text \<open>C37. Round trips of the ciphers: for every key and every 8-byte block, decrypting what TEA, XTEA or XETA encrypted
  gives the block back; the loops of XTEA and XETA, which run until their sum hits a limit,
  return.\<close>

theorem tea_ciphers_roundtrip:
  assumes "length b = 8"
  shows "tea_decrypt ctx (tea_encrypt ctx b) = b
    \<and> (\<exists>c. xtea_encrypt ctx b = Some c \<and> length c = 8 \<and> xtea_decrypt ctx c = Some b)
    \<and> (\<exists>c. xeta_encrypt ctx b = Some c \<and> length c = 8 \<and> xeta_decrypt ctx c = Some b)"
  using tea_cipher.dec_enc [OF assms, of ctx] xtea_cipher.dec_enc [OF assms, of ctx] xeta_cipher.dec_enc [OF assms, of ctx]
  by (simp add: cipher_blocks(3-6) crypt_block_length del: rounds_up.simps rounds_down.simps)

definition tea_example_ctx :: tea_ctx where
  "tea_example_ctx = tea_setkey [0, 1, 2, 3, 4, 5, 6, 7, 8, 9, 10, 11, 12, 13, 14, 15]"

theorem tea_ciphers_roundtrip_witness:
  "tea_decrypt (tea_example_ctx) (tea_encrypt (tea_example_ctx) [1, 2, 3, 4, 5, 6, 7, 8]) = [1, 2, 3, 4, 5, 6, 7, 8]"
  using tea_ciphers_roundtrip [of "[1, 2, 3, 4, 5, 6, 7, 8]" "tea_example_ctx"] by simp

text \<open>C38. Chaining over TEA: encrypting whole blocks, with a few bytes left over, from one buffer to another and in place
  give the same ciphertext, chaining value and count of bytes left, and the bytes left over stay as they are; decrypting
  the result with the same chaining value gives the blocks back, again the same from buffer
  to buffer and in place, where it works from the last block to the first.\<close>

theorem cbc_tea_roundtrip:
  assumes "length iv = 8" and "\<forall>b \<in> set bs. length b = 8" and "bs \<noteq> []" and "length rest < 8"
  shows "\<exists>ct iv'. length ct = length (concat bs)
    \<and> crypto_cbc_encrypt_segment (tea_encrypt ctx) 8 iv (concat bs @ rest) (length (concat bs @ rest)) = Some (ct, iv', length rest)
    \<and> crypto_cbc_encrypt_inplace (tea_encrypt ctx) 8 iv (concat bs @ rest) 0 (length (concat bs @ rest)) = Some (ct @ rest, iv', length rest)
    \<and> crypto_cbc_decrypt_segment (tea_decrypt ctx) 8 iv (ct @ rest) (length (ct @ rest)) = Some (concat bs, iv', length rest)
    \<and> crypto_cbc_decrypt_inplace (tea_decrypt ctx) 8 iv (ct @ rest) (length (ct @ rest)) = Some (concat bs @ rest, iv', length rest)"
proof -
  let ?cs = "cbc_enc (tea_encrypt ctx) iv bs"
  have cs: "\<forall>c \<in> set ?cs. length c = 8" using assms(1,2) by (rule tea_cipher.cbc_enc_blocks)
  have n: "length ?cs = length bs" by (rule tea_cipher.cbc_enc_length)
  then have ne: "?cs \<noteq> []" using assms(3) by auto
  have sz: "\<forall>b \<in> set xs. length b = 8 \<Longrightarrow> length (concat xs) = length xs * 8" for xs :: "bytes list"
    by (induction xs) simp_all
  have d: "cbc_dec (tea_decrypt ctx) iv ?cs = bs" using assms(1,2) by (rule tea_cipher.cbc_dec_cbc_enc)
  show ?thesis
    using tea_cipher.encrypt_segment [OF assms, of ctx] tea_cipher.encrypt_inplace [OF assms, of ctx "[]"]
      tea_cipher.decrypt_segment [OF assms(1) cs ne assms(4), of ctx] tea_cipher.decrypt_inplace [OF assms(1) cs ne assms(4), of ctx]
      d n sz [OF cs] sz [OF assms(2)]
    by (intro exI [of _ "concat ?cs"] exI [of _ "last ?cs"]) (simp del: length_append)
qed

theorem cbc_tea_roundtrip_witness:
  "\<exists>ct iv'. length ct = 16
    \<and> crypto_cbc_encrypt_segment (tea_encrypt (tea_example_ctx)) 8 (replicate 8 9) ([0, 1, 2, 3, 4, 5, 6, 7, 8, 9, 10, 11, 12, 13, 14, 15] @ [1, 2, 3]) 19 = Some (ct, iv', 3)
    \<and> crypto_cbc_decrypt_inplace (tea_decrypt (tea_example_ctx)) 8 (replicate 8 9) (ct @ [1, 2, 3]) 19
        = Some ([0, 1, 2, 3, 4, 5, 6, 7, 8, 9, 10, 11, 12, 13, 14, 15] @ [1, 2, 3], iv', 3)"
  using cbc_tea_roundtrip [of "replicate 8 9" "[[0, 1, 2, 3, 4, 5, 6, 7], [8, 9, 10, 11, 12, 13, 14, 15]]" "[1, 2, 3]" "tea_example_ctx"]
  by (auto simp: numeral_eq_Suc)

end
