(* ===== verification/Sort.thy ===== *)
theory Sort
  imports KPrelude "HOL-Library.Multiset"
begin

text \<open>
  Sorting (\<^verbatim>\<open>lib/sort.c\<close>): the heap sort of the kernel on a byte memory with scaled offsets, and its two routines that
  swap elements. It is shown to refine a heap sort on lists of elements, which sorts. What \<open>sort\<close> relies on is stated as two
  locales: \<open>elem_swap\<close>, what a swap function does to the elements of a memory, interpreted on both routines, and
  \<open>cmp_order\<close>, that the comparison is total and transitive on the elements at hand. A memory access outside the array's
  memory, and a loop that does not end, are \<open>None\<close>.
\<close>

subsection \<open>Swapping elements\<close>

definition u32_swap :: "bytes \<Rightarrow> nat \<Rightarrow> nat \<Rightarrow> nat \<Rightarrow> bytes option" where
  "u32_swap m a b sz = do {
     t \<leftarrow> mem_rd m a 4;
     u \<leftarrow> mem_rd m b 4;
     m \<leftarrow> mem_wr m a u;
     mem_wr m b t }"

text \<open>The loop is a do-while loop: one byte is swapped also for the size 0.\<close>

fun generic_swap :: "bytes \<Rightarrow> nat \<Rightarrow> nat \<Rightarrow> nat \<Rightarrow> bytes option" where
  "generic_swap m a b sz = do {
     t \<leftarrow> mem_rd m a 1;
     u \<leftarrow> mem_rd m b 1;
     m \<leftarrow> mem_wr m a u;
     m \<leftarrow> mem_wr m b t;
     if sz - 1 > 0 then generic_swap m (a + 1) (b + 1) (sz - 1) else Some m }"

declare generic_swap.simps [simp del]

subsection \<open>Heap sort on bytes\<close>

text \<open>The inner loop, which is the same in both phases: from the offset \<open>r\<close> down, below the offset \<open>n\<close>.\<close>

definition larger_child :: "(bytes \<Rightarrow> bytes \<Rightarrow> int) \<Rightarrow> nat \<Rightarrow> bytes \<Rightarrow> nat \<Rightarrow> nat \<Rightarrow> nat option" where
  "larger_child cmp_func sz m c n =
     (if c < n - sz then do {
        x \<leftarrow> mem_rd m c sz;
        y \<leftarrow> mem_rd m (c + sz) sz;
        Some (if cmp_func x y < 0 then c + sz else c) }
      else Some c)"

partial_function (option) sift_bytes ::
  "(bytes \<Rightarrow> nat \<Rightarrow> nat \<Rightarrow> nat \<Rightarrow> bytes option) \<Rightarrow> (bytes \<Rightarrow> bytes \<Rightarrow> int) \<Rightarrow> nat \<Rightarrow> bytes \<Rightarrow> nat \<Rightarrow> nat \<Rightarrow> bytes option" where
  "sift_bytes swap_func cmp_func sz m r n =
     (if r * 2 + sz < n then do {
        c \<leftarrow> larger_child cmp_func sz m (r * 2 + sz) n;
        x \<leftarrow> mem_rd m r sz;
        y \<leftarrow> mem_rd m c sz;
        if cmp_func x y \<ge> 0 then Some m
        else do {
          m \<leftarrow> swap_func m r c sz;
          sift_bytes swap_func cmp_func sz m c n } }
      else Some m)"

partial_function (option) heapify_bytes ::
  "(bytes \<Rightarrow> nat \<Rightarrow> nat \<Rightarrow> nat \<Rightarrow> bytes option) \<Rightarrow> (bytes \<Rightarrow> bytes \<Rightarrow> int) \<Rightarrow> nat \<Rightarrow> bytes \<Rightarrow> int \<Rightarrow> nat \<Rightarrow> bytes option" where
  "heapify_bytes swap_func cmp_func sz m i n =
     (if i \<ge> 0 then do {
        m \<leftarrow> sift_bytes swap_func cmp_func sz m (nat i) n;
        heapify_bytes swap_func cmp_func sz m (i - int sz) n }
      else Some m)"

partial_function (option) sort_down_bytes ::
  "(bytes \<Rightarrow> nat \<Rightarrow> nat \<Rightarrow> nat \<Rightarrow> bytes option) \<Rightarrow> (bytes \<Rightarrow> bytes \<Rightarrow> int) \<Rightarrow> nat \<Rightarrow> bytes \<Rightarrow> int \<Rightarrow> bytes option" where
  "sort_down_bytes swap_func cmp_func sz m i =
     (if i > 0 then do {
        m \<leftarrow> swap_func m 0 (nat i) sz;
        m \<leftarrow> sift_bytes swap_func cmp_func sz m 0 (nat i);
        sort_down_bytes swap_func cmp_func sz m (i - int sz) }
      else Some m)"

text \<open>The two counters are computed as \<open>size_t\<close> and stored as \<open>int\<close>; \<open>swap_func\<close> may be NULL.\<close>

definition sort_bytes ::
  "(bytes \<Rightarrow> nat \<Rightarrow> nat \<Rightarrow> nat \<Rightarrow> bytes option) option \<Rightarrow> (bytes \<Rightarrow> bytes \<Rightarrow> int) \<Rightarrow> nat \<Rightarrow> bytes \<Rightarrow> nat \<Rightarrow> bytes option" where
  "sort_bytes swap_func cmp_func sz base num =
     (let i = signed_take_bit 31 ((int (num div 2) - 1) * int sz);
          n = signed_take_bit 31 (int num * int sz);
          swap_func = (case swap_func of None \<Rightarrow> if sz = 4 then u32_swap else generic_swap | Some f \<Rightarrow> f) in
      do {
        m \<leftarrow> heapify_bytes swap_func cmp_func sz base i (nat n);
        sort_down_bytes swap_func cmp_func sz m (n - int sz) })"

subsection \<open>Heap sort on elements\<close>

definition swap :: "'a list \<Rightarrow> nat \<Rightarrow> nat \<Rightarrow> 'a list" where
  "swap xs i j = xs[i := xs ! j, j := xs ! i]"

text \<open>The same algorithm on a list of elements, counting elements.\<close>

function sift :: "('a \<Rightarrow> 'a \<Rightarrow> int) \<Rightarrow> 'a list \<Rightarrow> nat \<Rightarrow> nat \<Rightarrow> 'a list" where
  "sift cmp_func xs r n =
     (if r * 2 + 1 < n then
        let c = r * 2 + 1;
            c = (if c < n - 1 \<and> cmp_func (xs ! c) (xs ! (c + 1)) < 0 then c + 1 else c) in
        if cmp_func (xs ! r) (xs ! c) \<ge> 0 then xs
        else sift cmp_func (swap xs r c) c n
      else xs)"
  by pat_completeness auto
termination by (relation "measure (\<lambda>(f, xs, r, n). n - r)") (auto simp: Let_def split: if_splits)

declare sift.simps [simp del]

text \<open>Both outer loops count down: the argument is \<open>i + 1\<close> in the first, \<open>i\<close> in the second.\<close>

fun heapify :: "('a \<Rightarrow> 'a \<Rightarrow> int) \<Rightarrow> 'a list \<Rightarrow> nat \<Rightarrow> nat \<Rightarrow> 'a list" where
  "heapify cmp_func xs 0 n = xs"
| "heapify cmp_func xs (Suc i) n = heapify cmp_func (sift cmp_func xs i n) i n"

fun sort_down :: "('a \<Rightarrow> 'a \<Rightarrow> int) \<Rightarrow> 'a list \<Rightarrow> nat \<Rightarrow> 'a list" where
  "sort_down cmp_func xs 0 = xs"
| "sort_down cmp_func xs (Suc i) = sort_down cmp_func (sift cmp_func (swap xs 0 (Suc i)) 0 (Suc i)) i"

definition sort_array :: "('a \<Rightarrow> 'a \<Rightarrow> int) \<Rightarrow> 'a list \<Rightarrow> nat \<Rightarrow> 'a list" where
  "sort_array cmp_func base num =
     sort_down cmp_func (heapify cmp_func base (num div 2) num) (num - 1)"

subsection \<open>What sorting relies on\<close>

locale cmp_order =
  fixes A :: "'a set" and cmp :: "'a \<Rightarrow> 'a \<Rightarrow> int"
  assumes total: "x \<in> A \<Longrightarrow> y \<in> A \<Longrightarrow> cmp x y < 0 \<Longrightarrow> cmp y x \<ge> 0"
    and trans: "x \<in> A \<Longrightarrow> y \<in> A \<Longrightarrow> z \<in> A \<Longrightarrow> cmp x y \<ge> 0 \<Longrightarrow> cmp y z \<ge> 0 \<Longrightarrow> cmp x z \<ge> 0"

subsection \<open>Permutations\<close>

lemma swap_length [simp]: "length (swap xs i j) = length xs"
  by (simp add: swap_def)

lemma swap_nth: "i < length xs \<Longrightarrow> j < length xs \<Longrightarrow>
    swap xs i j ! k = (if k = j then xs ! i else if k = i then xs ! j else xs ! k)"
  by (auto simp: swap_def nth_list_update)

lemma swap_mset [simp]: "i < length xs \<Longrightarrow> j < length xs \<Longrightarrow> mset (swap xs i j) = mset xs"
  by (simp add: swap_def mset_swap)

text \<open>\<open>perm_upto n xs ys\<close>: \<open>ys\<close> is \<open>xs\<close> with its first \<open>n\<close> elements permuted.\<close>

definition perm_upto :: "nat \<Rightarrow> 'a list \<Rightarrow> 'a list \<Rightarrow> bool" where
  "perm_upto n xs ys \<longleftrightarrow> length ys = length xs \<and> mset (take n ys) = mset (take n xs) \<and> drop n ys = drop n xs"

lemma perm_upto_refl [simp]: "perm_upto n xs xs"
  by (simp add: perm_upto_def)

lemma perm_upto_trans: "perm_upto n xs ys \<Longrightarrow> perm_upto n ys zs \<Longrightarrow> perm_upto n xs zs"
  by (simp add: perm_upto_def)

lemma perm_upto_swap: "i < n \<Longrightarrow> j < n \<Longrightarrow> n \<le> length xs \<Longrightarrow> perm_upto n xs (swap xs i j)"
proof -
  assume a: "i < n" "j < n" "n \<le> length xs"
  have "take n (swap xs i j) = swap (take n xs) i j" using a by (simp add: swap_def take_update_swap)
  moreover have "drop n (swap xs i j) = drop n xs" using a by (simp add: swap_def)
  ultimately show ?thesis using a by (simp add: perm_upto_def)
qed

lemma perm_upto_mono: "perm_upto m xs ys \<Longrightarrow> m \<le> n \<Longrightarrow> perm_upto n xs ys"
proof -
  assume a: "perm_upto m xs ys" "m \<le> n"
  have "take n zs = take m zs @ take (n - m) (drop m zs)" for zs :: "'a list"
    using a(2) by (metis le_add_diff_inverse take_add)
  then show ?thesis using a by (auto simp: perm_upto_def) (metis drop_drop le_add_diff_inverse2)
qed

lemma perm_upto_set: "perm_upto n xs ys \<Longrightarrow> set (take n ys) = set (take n xs)"
  unfolding perm_upto_def by (metis set_mset_mset)

lemma sift_perm: "n \<le> length xs \<Longrightarrow> r < n \<Longrightarrow> perm_upto n xs (sift cmp xs r n)"
proof (induction cmp xs r n rule: sift.induct)
  case (1 cmp xs r n)
  let ?c = "if r * 2 + 1 < n - 1 \<and> cmp (xs ! (r * 2 + 1)) (xs ! (r * 2 + 1 + 1)) < 0 then r * 2 + 1 + 1 else r * 2 + 1"
  show ?case
  proof (cases "r * 2 + 1 < n \<and> \<not> cmp (xs ! r) (xs ! ?c) \<ge> 0")
    case True
    then have c: "?c < n" by auto
    have "perm_upto n xs (swap xs r ?c)" using "1.prems" c by (intro perm_upto_swap) auto
    moreover have "perm_upto n (swap xs r ?c) (sift cmp (swap xs r ?c) ?c n)"
      using True "1.IH" [OF _ refl refl] "1.prems" c by simp
    ultimately show ?thesis using True by (subst sift.simps) (auto simp: Let_def intro: perm_upto_trans)
  next
    case False
    then show ?thesis by (subst sift.simps) (auto simp: Let_def)
  qed
qed

subsection \<open>Heaps\<close>

text \<open>\<open>dominates cmp xs n p\<close>: element \<open>p\<close> is at least as large as its children among the first \<open>n\<close> elements.\<close>

definition dominates :: "('a \<Rightarrow> 'a \<Rightarrow> int) \<Rightarrow> 'a list \<Rightarrow> nat \<Rightarrow> nat \<Rightarrow> bool" where
  "dominates cmp xs n p \<longleftrightarrow> (\<forall>c. c = p * 2 + 1 \<or> c = p * 2 + 2 \<longrightarrow> c < n \<longrightarrow> cmp (xs ! p) (xs ! c) \<ge> 0)"

definition heap_from :: "('a \<Rightarrow> 'a \<Rightarrow> int) \<Rightarrow> 'a list \<Rightarrow> nat \<Rightarrow> nat \<Rightarrow> bool" where
  "heap_from cmp xs k n \<longleftrightarrow> (\<forall>p \<ge> k. dominates cmp xs n p)"

text \<open>During the inner loop, only \<open>r\<close> may fail to dominate its children, and the parent of \<open>r\<close> dominates them.\<close>

definition almost_heap :: "('a \<Rightarrow> 'a \<Rightarrow> int) \<Rightarrow> 'a list \<Rightarrow> nat \<Rightarrow> nat \<Rightarrow> nat \<Rightarrow> bool" where
  "almost_heap cmp xs k n r \<longleftrightarrow> (\<forall>p \<ge> k. p \<noteq> r \<longrightarrow> dominates cmp xs n p)
     \<and> (\<forall>q \<ge> k. (r = q * 2 + 1 \<or> r = q * 2 + 2) \<longrightarrow>
          (\<forall>c. c = r * 2 + 1 \<or> c = r * 2 + 2 \<longrightarrow> c < n \<longrightarrow> cmp (xs ! q) (xs ! c) \<ge> 0))"

context cmp_order
begin

lemma sift_step:
  assumes A: "set (take n xs) \<subseteq> A" and n: "n \<le> length xs" and ah: "almost_heap cmp xs k n r" and k: "k \<le> r"
    and c: "c = r * 2 + 1 \<or> c = r * 2 + 2" "c < n" and lt: "cmp (xs ! r) (xs ! c) < 0"
    and sib: "\<And>c'. c' = r * 2 + 1 \<or> c' = r * 2 + 2 \<Longrightarrow> c' < n \<Longrightarrow> cmp (xs ! c) (xs ! c') \<ge> 0"
  shows "almost_heap cmp (swap xs r c) k n c"
proof -
  let ?ys = "swap xs r c"
  have r: "r < c" "r < length xs" "c < length xs" using c n by auto
  have nth: "?ys ! j = (if j = c then xs ! r else if j = r then xs ! c else xs ! j)" for j using r by (intro swap_nth) auto
  have inA: "j < n \<Longrightarrow> xs ! j \<in> A" for j using A n by (metis length_take min.absorb2 nth_mem nth_take subsetD)
  have ge: "cmp (xs ! c) (xs ! r) \<ge> 0" using total lt inA c r by simp
  have dom: "dominates cmp ?ys n p" if p: "k \<le> p" "p \<noteq> c" for p
  proof (cases "p = r")
    case True
    show ?thesis unfolding dominates_def
    proof (intro allI impI)
      fix d assume d: "d = p * 2 + 1 \<or> d = p * 2 + 2" "d < n"
      show "cmp (?ys ! p) (?ys ! d) \<ge> 0"
        using ge sib [of d] d True r nth by (cases "d = c") auto
    qed
  next
    case False
    have old: "dominates cmp xs n p" using ah p False by (auto simp: almost_heap_def)
    show ?thesis unfolding dominates_def
    proof (intro allI impI)
      fix d assume d: "d = p * 2 + 1 \<or> d = p * 2 + 2" "d < n"
      have "d \<noteq> c" using c(1) d(1) False by auto
      moreover have "cmp (xs ! p) (xs ! d) \<ge> 0" using old d by (auto simp: dominates_def)
      moreover have "cmp (xs ! p) (xs ! c) \<ge> 0" if "d = r"
        using ah p(1) d(1) that c by (auto simp: almost_heap_def)
      ultimately show "cmp (?ys ! p) (?ys ! d) \<ge> 0" using nth False p by auto
    qed
  qed
  have "cmp (?ys ! q) (?ys ! d) \<ge> 0" if q: "k \<le> q" "c = q * 2 + 1 \<or> c = q * 2 + 2" and d: "d = c * 2 + 1 \<or> d = c * 2 + 2" "d < n" for q d
  proof -
    have "q = r" using q(2) c(1) by auto
    moreover have "dominates cmp xs n c" using ah k r(1) by (auto simp: almost_heap_def)
    then have "cmp (xs ! c) (xs ! d) \<ge> 0" using d by (auto simp: dominates_def)
    ultimately show ?thesis using nth d r(1) by auto
  qed
  with dom show ?thesis unfolding almost_heap_def by blast
qed

lemma sift_heap:
  "set (take n xs) \<subseteq> A \<Longrightarrow> n \<le> length xs \<Longrightarrow> almost_heap cmp xs k n r \<Longrightarrow> k \<le> r \<Longrightarrow> heap_from cmp (sift cmp xs r n) k n"
proof (induction "n - r" arbitrary: xs r rule: less_induct)
  case less
  let ?c0 = "r * 2 + 1"
  define c where "c = (if ?c0 < n - 1 \<and> cmp (xs ! ?c0) (xs ! (?c0 + 1)) < 0 then ?c0 + 1 else ?c0)"
  have inA: "j < n \<Longrightarrow> xs ! j \<in> A" for j using less.prems(1,2) by (metis length_take min.absorb2 nth_mem nth_take subsetD)
  have self: "x \<in> A \<Longrightarrow> cmp x x \<ge> 0" for x using total [of x x] by linarith
  have sf: "sift cmp xs r n = (if cmp (xs ! r) (xs ! c) \<ge> 0 then xs else sift cmp (swap xs r c) c n)" if "?c0 < n"
    using that unfolding c_def by (subst sift.simps) (simp only: Let_def if_True)
  show ?case
  proof (cases "?c0 < n")
    case False
    then have "dominates cmp xs n r" by (auto simp: dominates_def)
    then have "heap_from cmp xs k n" using less.prems(3) by (auto simp: heap_from_def almost_heap_def)
    then show ?thesis using False by (subst sift.simps) simp
  next
    case True
    have c: "c = r * 2 + 1 \<or> c = r * 2 + 2" "c < n" using True by (auto simp: c_def)
    have sib: "cmp (xs ! c) (xs ! c') \<ge> 0" if "c' = r * 2 + 1 \<or> c' = r * 2 + 2" "c' < n" for c'
      using that True inA self total [of "xs ! ?c0" "xs ! (?c0 + 1)"] by (auto simp: c_def)
    show ?thesis
    proof (cases "cmp (xs ! r) (xs ! c) \<ge> 0")
      case ge: True
      have "dominates cmp xs n r" unfolding dominates_def
      proof (intro allI impI)
        fix c' assume c': "c' = r * 2 + 1 \<or> c' = r * 2 + 2" "c' < n"
        have "r < n" using c by auto
        then show "cmp (xs ! r) (xs ! c') \<ge> 0" using trans [OF inA inA inA ge sib [OF c']] c(2) c'(2) by blast
      qed
      then have "heap_from cmp xs k n" using less.prems(3) by (auto simp: heap_from_def almost_heap_def)
      then show ?thesis using sf [OF True] ge by simp
    next
      case lt: False
      let ?ys = "swap xs r c"
      have "r < n" using c by auto
      then have p: "perm_upto n xs ?ys" using c less.prems(2) by (intro perm_upto_swap) auto
      have "almost_heap cmp ?ys k n c" using lt c sib less.prems by (intro sift_step) auto
      moreover have "set (take n ?ys) \<subseteq> A" using perm_upto_set [OF p] less.prems(1) by simp
      ultimately have "heap_from cmp (sift cmp ?ys c n) k n" using c less.prems by (intro less.hyps) auto
      then show ?thesis using sf [OF True] lt by simp
    qed
  qed
qed

end

subsection \<open>The two phases\<close>

lemma heapify_perm: "n \<le> length xs \<Longrightarrow> i \<le> n \<Longrightarrow> perm_upto n xs (heapify cmp xs i n)"
proof (induction cmp xs i n rule: heapify.induct)
  case (2 cmp xs i n)
  then have p: "perm_upto n xs (sift cmp xs i n)" by (simp add: sift_perm)
  then have "perm_upto n (sift cmp xs i n) (heapify cmp (sift cmp xs i n) i n)" using 2 by (simp add: perm_upto_def)
  with p show ?case by (auto intro: perm_upto_trans)
qed simp

lemma sort_down_perm: "i < n \<Longrightarrow> n \<le> length xs \<Longrightarrow> perm_upto n xs (sort_down cmp xs i)"
proof (induction cmp xs i rule: sort_down.induct)
  case (2 cmp xs i)
  let ?ys = "swap xs 0 (Suc i)" and ?zs = "sift cmp (swap xs 0 (Suc i)) 0 (Suc i)"
  have "perm_upto n xs ?ys" using 2 by (intro perm_upto_swap) auto
  moreover have "perm_upto n ?ys ?zs" using 2 by (intro perm_upto_mono [OF sift_perm]) auto
  moreover have "length ?zs = length xs" using 2 sift_perm [of "Suc i" ?ys 0 cmp] by (simp add: perm_upto_def)
  ultimately show ?case using 2 by (auto intro: perm_upto_trans)
qed simp

lemma sort_array_perm: "num \<le> length xs \<Longrightarrow> perm_upto num xs (sort_array cmp xs num)"
proof -
  assume num: "num \<le> length xs"
  let ?h = "heapify cmp xs (num div 2) num"
  have ph: "perm_upto num xs ?h" using num by (intro heapify_perm) auto
  show ?thesis
  proof (cases "num = 0")
    case False
    have "num \<le> length ?h" using ph num by (simp add: perm_upto_def)
    then have "perm_upto num ?h (sort_array cmp xs num)" using sort_down_perm [of "num - 1" num ?h cmp] False by (simp add: sort_array_def)
    then show ?thesis using perm_upto_trans [OF ph] by simp
  qed (simp add: sort_array_def)
qed

text \<open>The state of the second phase: a heap of the first \<open>i + 1\<close> elements, followed by larger ones in order.\<close>

definition heap_then_sorted :: "('a \<Rightarrow> 'a \<Rightarrow> int) \<Rightarrow> 'a list \<Rightarrow> nat \<Rightarrow> nat \<Rightarrow> bool" where
  "heap_then_sorted cmp xs i n \<longleftrightarrow> heap_from cmp xs 0 (Suc i)
     \<and> (\<forall>j k. j < k \<longrightarrow> i < k \<longrightarrow> k < n \<longrightarrow> cmp (xs ! k) (xs ! j) \<ge> 0)"

lemma perm_upto_elem:
  assumes "perm_upto n xs ys" "n \<le> length xs" "j < n"
  obtains b where "b < n" "ys ! j = xs ! b"
proof -
  have "ys ! j \<in> set (take n ys)" using assms by (auto simp: perm_upto_def in_set_conv_nth)
  then have "ys ! j \<in> set (take n xs)" using perm_upto_set [OF assms(1)] by simp
  then show thesis using that assms(2) by (auto simp: in_set_conv_nth)
qed

lemma perm_upto_above: "perm_upto n xs ys \<Longrightarrow> n \<le> j \<Longrightarrow> j < length xs \<Longrightarrow> ys ! j = xs ! j"
proof -
  assume a: "perm_upto n xs ys" "n \<le> j" "j < length xs"
  then have l: "length ys = length xs" "drop n ys = drop n xs" by (simp_all add: perm_upto_def)
  have "ys ! j = drop n ys ! (j - n)" "xs ! j = drop n xs ! (j - n)" using a(2,3) l(1) by simp_all
  then show ?thesis using l(2) by (simp only:)
qed

context cmp_order
begin

lemma heapify_heap:
  "set (take n xs) \<subseteq> A \<Longrightarrow> n \<le> length xs \<Longrightarrow> i \<le> n \<Longrightarrow> heap_from cmp xs i n \<Longrightarrow> heap_from cmp (heapify cmp xs i n) 0 n"
proof (induction i arbitrary: xs)
  case (Suc i)
  let ?ys = "sift cmp xs i n"
  have "perm_upto n xs ?ys" using Suc.prems by (intro sift_perm) auto
  then have "set (take n ?ys) \<subseteq> A" "n \<le> length ?ys" using Suc.prems perm_upto_set [of n xs ?ys] by (auto simp: perm_upto_def)
  moreover have "almost_heap cmp xs i n i"
    using Suc.prems(4) unfolding almost_heap_def heap_from_def by (auto simp: Suc_le_eq)
  then have "heap_from cmp ?ys i n" using Suc.prems by (intro sift_heap) auto
  ultimately show ?case using Suc.IH [of ?ys] Suc.prems(3) by simp
qed simp

lemma heap_root: "heap_from cmp xs 0 n \<Longrightarrow> set (take n xs) \<subseteq> A \<Longrightarrow> n \<le> length xs \<Longrightarrow> j < n \<Longrightarrow> cmp (xs ! 0) (xs ! j) \<ge> 0"
proof (induction j rule: less_induct)
  case (less j)
  have inA: "j < n \<Longrightarrow> xs ! j \<in> A" for j using less.prems(2,3) by (metis length_take min.absorb2 nth_mem nth_take subsetD)
  show ?case
  proof (cases "j = 0")
    case True
    then show ?thesis using total [of "xs ! 0" "xs ! 0"] inA less.prems(4) by fastforce
  next
    case False
    let ?p = "(j - 1) div 2"
    have p: "?p < j" "j = ?p * 2 + 1 \<or> j = ?p * 2 + 2" using False by presburger+
    then have "cmp (xs ! ?p) (xs ! j) \<ge> 0" using less.prems(1,4) unfolding heap_from_def dominates_def by blast
    moreover have "cmp (xs ! 0) (xs ! ?p) \<ge> 0" using less p(1) by auto
    moreover have "xs ! 0 \<in> A" "xs ! ?p \<in> A" "xs ! j \<in> A" using inA p(1) less.prems(4) by simp_all
    ultimately show ?thesis using trans by blast
  qed
qed

lemma sort_down_step:
  assumes A: "set (take n xs) \<subseteq> A" and n: "n \<le> length xs" "Suc i < n" and inv: "heap_then_sorted cmp xs (Suc i) n"
  shows "heap_then_sorted cmp (sift cmp (swap xs 0 (Suc i)) 0 (Suc i)) i n"
proof -
  let ?ys = "swap xs 0 (Suc i)" and ?zs = "sift cmp (swap xs 0 (Suc i)) 0 (Suc i)"
  have h: "heap_from cmp xs 0 (Suc (Suc i))" and srt: "\<And>j k. j < k \<Longrightarrow> Suc i < k \<Longrightarrow> k < n \<Longrightarrow> cmp (xs ! k) (xs ! j) \<ge> 0"
    using inv by (auto simp: heap_then_sorted_def)
  have nth: "?ys ! j = (if j = Suc i then xs ! 0 else if j = 0 then xs ! Suc i else xs ! j)" for j using n by (intro swap_nth) auto
  have A2: "set (take (Suc (Suc i)) xs) \<subseteq> A" using A n(2) set_take_subset_set_take [of "Suc (Suc i)" n xs] by auto
  have p: "perm_upto (Suc i) ?ys ?zs" using n by (intro sift_perm) auto
  have pys: "perm_upto n xs ?ys" using n by (intro perm_upto_swap) auto
  have A1: "set (take (Suc i) ?ys) \<subseteq> A" using perm_upto_set [OF pys] A n(2) set_take_subset_set_take [of "Suc i" n ?ys] by auto
  have "almost_heap cmp ?ys 0 (Suc i) 0"
    unfolding almost_heap_def
  proof (intro conjI allI impI)
    fix pa assume "(0::nat) \<le> pa" "pa \<noteq> 0"
    then show "dominates cmp ?ys (Suc i) pa" using h unfolding heap_from_def dominates_def nth by auto
  qed auto
  then have heap: "heap_from cmp ?zs 0 (Suc i)" using A1 n by (intro sift_heap) auto
  have "cmp (?zs ! k) (?zs ! j) \<ge> 0" if jk: "j < k" "i < k" "k < n" for j k
  proof -
    have zk: "?zs ! k = ?ys ! k" using perm_upto_above [OF p, of k] jk n by simp
    obtain b where b: "?zs ! j = xs ! b" "b < k \<or> b = 0 \<and> k = Suc i \<or> k = Suc i \<and> b = Suc i"
    proof (cases "j < Suc i")
      case True
      from perm_upto_elem [OF p _ True] n obtain c where c: "c < Suc i" "?zs ! j = ?ys ! c" by auto
      then show thesis using that [of "Suc i"] that [of c] nth jk Suc_leI [OF jk(2)] by (cases "c = 0") (auto simp: le_less)
    next
      case False
      then have "?zs ! j = ?ys ! j" using perm_upto_above [OF p, of j] jk n by simp
      then show thesis using that [of "if j = Suc i then 0 else j"] nth False jk by (auto split: if_splits)
    qed
    show ?thesis
    proof (cases "k = Suc i")
      case True
      then have "b < Suc (Suc i)" using b(2) by auto
      then show ?thesis using heap_root [OF h A2, of b] n zk b(1) True nth by simp
    next
      case False
      then show ?thesis using srt [of b k] b jk zk nth by auto
    qed
  qed
  with heap show ?thesis unfolding heap_then_sorted_def by blast
qed

lemma sort_down_sorted:
  "set (take n xs) \<subseteq> A \<Longrightarrow> n \<le> length xs \<Longrightarrow> i < n \<Longrightarrow> heap_then_sorted cmp xs i n \<Longrightarrow>
   heap_then_sorted cmp (sort_down cmp xs i) 0 n"
proof (induction i arbitrary: xs)
  case (Suc i)
  let ?ys = "swap xs 0 (Suc i)" and ?zs = "sift cmp (swap xs 0 (Suc i)) 0 (Suc i)"
  have p: "perm_upto n xs ?ys" "perm_upto n ?ys ?zs" using Suc.prems by (auto intro!: perm_upto_swap perm_upto_mono [OF sift_perm])
  have "perm_upto n xs ?zs" using perm_upto_trans [OF p] .
  then have "set (take n ?zs) \<subseteq> A" "n \<le> length ?zs" using perm_upto_set [of n xs ?zs] Suc.prems by (auto simp: perm_upto_def)
  then show ?case using Suc.IH [of ?zs] sort_down_step Suc.prems by simp
qed simp

lemma sort_sorted:
  assumes A: "set (take num xs) \<subseteq> A" and num: "num \<le> length xs"
  shows "sorted_wrt (\<lambda>x y. cmp y x \<ge> 0) (take num (sort_array cmp xs num))" and "perm_upto num xs (sort_array cmp xs num)"
proof -
  let ?h = "heapify cmp xs (num div 2) num"
  have ph: "perm_upto num xs ?h" using num by (intro heapify_perm) auto
  show "perm_upto num xs (sort_array cmp xs num)" using num by (rule sort_array_perm)
  show "sorted_wrt (\<lambda>x y. cmp y x \<ge> 0) (take num (sort_array cmp xs num))"
  proof (cases "num = 0")
    case False
    have "heap_from cmp xs (num div 2) num" by (auto simp: heap_from_def dominates_def)
    then have "heap_from cmp ?h 0 num" using A num by (intro heapify_heap) auto
    then have "heap_then_sorted cmp ?h (num - 1) num" using False by (auto simp: heap_then_sorted_def)
    moreover have "set (take num ?h) \<subseteq> A" "num \<le> length ?h" using perm_upto_set [OF ph] A ph num by (auto simp: perm_upto_def)
    ultimately have "heap_then_sorted cmp (sort_array cmp xs num) 0 num"
      using False sort_down_sorted by (simp add: sort_array_def)
    then show ?thesis by (auto simp: heap_then_sorted_def sorted_wrt_iff_nth_less)
  qed simp
qed

end

subsection \<open>Elements in memory\<close>

definition elems :: "nat \<Rightarrow> bytes \<Rightarrow> nat \<Rightarrow> bytes list" where
  "elems sz m n = map (\<lambda>i. take sz (drop (i * sz) m)) [0..<n]"

lemma elems_length [simp]: "length (elems sz m n) = n"
  by (simp add: elems_def)

lemma elems_nth [simp]: "i < n \<Longrightarrow> elems sz m n ! i = take sz (drop (i * sz) m)"
  by (simp add: elems_def)

text \<open>What a swap function promises: the two elements change places, nothing else changes.\<close>

locale elem_swap =
  fixes sz :: nat and sw :: "bytes \<Rightarrow> nat \<Rightarrow> nat \<Rightarrow> nat \<Rightarrow> bytes option"
  assumes pos: "0 < sz"
    and swaps: "n * sz \<le> length m \<Longrightarrow> i < n \<Longrightarrow> j < n \<Longrightarrow> i \<noteq> j \<Longrightarrow>
      \<exists>m'. sw m (i * sz) (j * sz) sz = Some m' \<and> length m' = length m \<and> elems sz m' n = swap (elems sz m n) i j
        \<and> drop (n * sz) m' = drop (n * sz) m"
begin

lemma scaled_less: "(a * sz < b * sz) = (a < b)" "(a * sz * 2 + sz < b * sz) = (a * 2 + 1 < b)"
proof -
  have "a * sz * 2 + sz = (a * 2 + 1) * sz" by (simp add: algebra_simps)
  then show "(a * sz * 2 + sz < b * sz) = (a * 2 + 1 < b)" using pos by (simp only: mult_less_cancel2) simp
qed (use pos in simp)

lemma rd_elem: "n * sz \<le> length m \<Longrightarrow> i < n \<Longrightarrow> mem_rd m (i * sz) sz = Some (elems sz m n ! i)"
proof -
  assume a: "n * sz \<le> length m" "i < n"
  have "i * sz + sz \<le> n * sz" using a(2) by (metis Suc_leI mult_Suc add.commute mult_le_mono1)
  then show ?thesis using a by (simp add: mem_rd_Some)
qed

lemma larger_child_elem:
  assumes "N * sz \<le> length m" "n \<le> N" "c < n"
  shows "larger_child cmp sz m (c * sz) (n * sz) =
    Some ((if c < n - 1 \<and> cmp (elems sz m N ! c) (elems sz m N ! (c + 1)) < 0 then c + 1 else c) * sz)"
proof -
  have e: "n * sz - sz = (n - 1) * sz" "c * sz + sz = (c + 1) * sz" by (simp_all add: algebra_simps diff_mult_distrib)
  show ?thesis unfolding larger_child_def e scaled_less(1)
    using assms rd_elem [OF assms(1), of c] rd_elem [OF assms(1), of "c + 1"] by (simp del: mult_Suc)
qed

lemma sift_bytes_refines:
  "N * sz \<le> length m \<Longrightarrow> n \<le> N \<Longrightarrow> xs = elems sz m N \<Longrightarrow>
   \<exists>m'. sift_bytes sw cmp sz m (r * sz) (n * sz) = Some m' \<and> length m' = length m \<and> elems sz m' N = sift cmp xs r n
     \<and> drop (N * sz) m' = drop (N * sz) m"
proof (induction cmp xs r n arbitrary: m rule: sift.induct)
  case (1 cmp xs r n)
  define c where "c = (if r * 2 + 1 < n - 1 \<and> cmp (xs ! (r * 2 + 1)) (xs ! (r * 2 + 1 + 1)) < 0 then r * 2 + 1 + 1 else r * 2 + 1)"
  have e: "r * sz * 2 + sz = (r * 2 + 1) * sz" by (simp add: algebra_simps)
  show ?case
  proof (cases "r * 2 + 1 < n")
    case False
    then show ?thesis using "1.prems" by (subst sift_bytes.simps, subst sift.simps) (simp add: scaled_less)
  next
    case True
    have c: "c < N" "r < N" "r \<noteq> c" using True "1.prems"(2) by (auto simp: c_def)
    have lc: "larger_child cmp sz m ((r * 2 + 1) * sz) (n * sz) = Some (c * sz)"
      using larger_child_elem [OF "1.prems"(1,2) True, of cmp] "1.prems"(3) by (simp only: c_def)
    note rd = rd_elem [OF "1.prems"(1) c(1)] rd_elem [OF "1.prems"(1) c(2)]
    have sb: "sift_bytes sw cmp sz m (r * sz) (n * sz) =
        (if cmp (xs ! r) (xs ! c) \<ge> 0 then Some m else do { m \<leftarrow> sw m (r * sz) (c * sz) sz; sift_bytes sw cmp sz m (c * sz) (n * sz) })"
    proof -
      have "(r * 2 + 1) * sz < n * sz" using True pos by (simp only: mult_less_cancel2)
      then show ?thesis by (subst sift_bytes.simps) (simp only: e if_True lc rd "1.prems"(3) Option.bind.simps)
    qed
    have sf: "sift cmp xs r n = (if cmp (xs ! r) (xs ! c) \<ge> 0 then xs else sift cmp (swap xs r c) c n)"
      using True unfolding c_def by (subst sift.simps) (simp only: Let_def if_True)
    show ?thesis
    proof (cases "cmp (xs ! r) (xs ! c) \<ge> 0")
      case False
      obtain m' where m': "sw m (r * sz) (c * sz) sz = Some m'" "length m' = length m" "elems sz m' N = swap xs r c"
        "drop (N * sz) m' = drop (N * sz) m" using swaps [OF "1.prems"(1) c(2,1,3)] "1.prems"(3) by blast
      from "1.IH" [OF True refl c_def False, of m'] m' "1.prems" obtain m'' where
        "sift_bytes sw cmp sz m' (c * sz) (n * sz) = Some m''" "length m'' = length m" "elems sz m'' N = sift cmp (swap xs r c) c n"
        "drop (N * sz) m'' = drop (N * sz) m" by auto
      then show ?thesis using sb sf False m'(1) by simp
    qed (use sb sf "1.prems" in simp)
  qed
qed

end

lemma int_diff_small: "0 \<le> a \<Longrightarrow> a < 2 ^ 30 \<Longrightarrow> 0 \<le> b \<Longrightarrow> b < 2 ^ 30 \<Longrightarrow> - (2 ^ 31) \<le> a - b \<and> a - b < (2 ^ 31 :: int)"
  by simp

context elem_swap
begin

lemma heapify_bytes_refines:
  "N * sz \<le> length m \<Longrightarrow> n \<le> N \<Longrightarrow>
   \<exists>m'. heapify_bytes sw cmp sz m ((int k - 1) * int sz) (n * sz) = Some m' \<and> length m' = length m
     \<and> elems sz m' N = heapify cmp (elems sz m N) k n \<and> drop (N * sz) m' = drop (N * sz) m"
proof (induction k arbitrary: m)
  case 0
  have "\<not> (int 0 - 1) * int sz \<ge> 0" using pos by simp
  then show ?case by (subst heapify_bytes.simps) simp
next
  case (Suc k)
  have i: "(int (Suc k) - 1) * int sz = int (k * sz)" "int (k * sz) - int sz = (int k - 1) * int sz" by (simp_all add: algebra_simps)
  obtain m1 where m1: "sift_bytes sw cmp sz m (k * sz) (n * sz) = Some m1" "length m1 = length m"
    "elems sz m1 N = sift cmp (elems sz m N) k n" "drop (N * sz) m1 = drop (N * sz) m"
    using sift_bytes_refines [OF Suc.prems refl] by blast
  have "heapify_bytes sw cmp sz m (int (k * sz)) (n * sz) = heapify_bytes sw cmp sz m1 ((int k - 1) * int sz) (n * sz)"
    by (subst heapify_bytes.simps) (simp only: nat_int m1(1) Option.bind.simps i(2) of_nat_0_le_iff if_True)
  then show ?case unfolding i(1) using Suc.IH [of m1] Suc.prems m1 by simp
qed

lemma sort_down_bytes_refines:
  "N * sz \<le> length m \<Longrightarrow> i < N \<Longrightarrow>
   \<exists>m'. sort_down_bytes sw cmp sz m (int (i * sz)) = Some m' \<and> length m' = length m
     \<and> elems sz m' N = sort_down cmp (elems sz m N) i \<and> drop (N * sz) m' = drop (N * sz) m"
proof (induction i arbitrary: m)
  case 0
  show ?case by (subst sort_down_bytes.simps) simp
next
  case (Suc i)
  have p: "int (Suc i * sz) > 0" using pos by (simp only: of_nat_0_less_iff) simp
  have d: "int (Suc i * sz) - int sz = int (i * sz)" by simp
  obtain m1 where m1: "sw m (0 * sz) (Suc i * sz) sz = Some m1" "length m1 = length m"
    "elems sz m1 N = swap (elems sz m N) 0 (Suc i)" "drop (N * sz) m1 = drop (N * sz) m"
    using swaps [OF Suc.prems(1), of 0 "Suc i"] Suc.prems(2) by auto
  have "N * sz \<le> length m1" "Suc i \<le> N" using m1(2) Suc.prems by simp_all
  from sift_bytes_refines [OF this m1(3) [symmetric], of cmp 0] obtain m2 where
    m2: "sift_bytes sw cmp sz m1 (0 * sz) (Suc i * sz) = Some m2" "length m2 = length m"
    "elems sz m2 N = sift cmp (swap (elems sz m N) 0 (Suc i)) 0 (Suc i)" "drop (N * sz) m2 = drop (N * sz) m"
    using m1(2,4) by auto
  have z: "0 * sz = 0" by simp
  have "sort_down_bytes sw cmp sz m (int (Suc i * sz)) = sort_down_bytes sw cmp sz m2 (int (i * sz))"
    by (subst sort_down_bytes.simps) (simp only: p if_True nat_int m1(1) [unfolded z] m2(1) [unfolded z] Option.bind.simps d)
  then show ?case using Suc.IH [of m2] Suc.prems m2 by simp
qed

lemma sort_bytes_refines:
  assumes len: "num * sz \<le> length m" and small: "num * sz < 2 ^ 30" and sz: "sz < 2 ^ 30" and sw: "s = Some sw \<or> s = None \<and> sw = (if sz = 4 then u32_swap else generic_swap)"
  shows "\<exists>m'. sort_bytes s cmp sz m num = Some m' \<and> length m' = length m \<and> elems sz m' num = sort_array cmp (elems sz m num) num
    \<and> drop (num * sz) m' = drop (num * sz) m"
proof -
  have n: "signed_take_bit 31 (int num * int sz) = int (num * sz)"
  proof -
    have "int (num * sz) < 2 ^ 30" using small by (metis of_nat_less_iff of_nat_numeral of_nat_power)
    then have "- (2 ^ 31) \<le> int (num * sz)" "int (num * sz) < 2 ^ 31" by (auto intro: order_trans [of _ 0])
    then show ?thesis by (simp add: signed_take_bit_int_eq_self)
  qed
  have i: "signed_take_bit 31 ((int (num div 2) - 1) * int sz) = (int (num div 2) - 1) * int sz"
  proof -
    have "num div 2 * sz \<le> num * sz" by simp
    then have "num div 2 * sz < 2 ^ 30" using small by (rule order_le_less_trans)
    then have u: "int (num div 2 * sz) < 2 ^ 30" by (metis of_nat_less_iff of_nat_numeral of_nat_power)
    have l: "int sz < 2 ^ 30" using sz by (metis of_nat_less_iff of_nat_numeral of_nat_power)
    have e: "(int (num div 2) - 1) * int sz = int (num div 2 * sz) - int sz" by (simp add: algebra_simps)
    show ?thesis unfolding e using int_diff_small [OF _ u _ l] by (intro signed_take_bit_int_eq_self) auto
  qed
  have f: "(case s of None \<Rightarrow> if sz = 4 then u32_swap else generic_swap | Some f \<Rightarrow> f) = sw" using sw by auto
  obtain m1 where m1: "heapify_bytes sw cmp sz m ((int (num div 2) - 1) * int sz) (num * sz) = Some m1" "length m1 = length m"
    "elems sz m1 num = heapify cmp (elems sz m num) (num div 2) num" "drop (num * sz) m1 = drop (num * sz) m"
    using heapify_bytes_refines [OF len order_refl] by blast
  have sb: "sort_bytes s cmp sz m num = sort_down_bytes sw cmp sz m1 (int (num * sz) - int sz)"
    by (simp only: sort_bytes_def Let_def n i f nat_int m1(1) Option.bind.simps)
  show ?thesis
  proof (cases num)
    case 0
    have "sort_down_bytes sw cmp sz m1 (int (num * sz) - int sz) = Some m1" using 0 by (subst sort_down_bytes.simps) simp
    then show ?thesis using sb m1 0 by (simp add: sort_array_def)
  next
    case (Suc k)
    have "int (num * sz) - int sz = int (k * sz)" using Suc by simp
    moreover from sort_down_bytes_refines [of num m1 k cmp] len m1(2) Suc obtain m2 where
      "sort_down_bytes sw cmp sz m1 (int (k * sz)) = Some m2" "length m2 = length m"
      "elems sz m2 num = sort_down cmp (elems sz m1 num) k" "drop (num * sz) m2 = drop (num * sz) m" using m1(4) by auto
    moreover have "num - 1 = k" using Suc by simp
    ultimately show ?thesis unfolding sb sort_array_def using m1(3) by auto
  qed
qed

end

subsection \<open>The swap routines keep the contract\<close>

lemma mem_one: "a < length m \<Longrightarrow> mem_rd m a 1 = Some [m ! a]" "a < length m \<Longrightarrow> mem_wr m a [x] = Some (m[a := x])"
  by (simp_all add: mem_rd_Some mem_wr_Some take_Suc_conv_app_nth hd_drop_conv_nth upd_conv_take_nth_drop take_Suc hd_drop_conv_nth)

lemma mem_wr_nth: "mem_wr m a bs = Some m' \<Longrightarrow> k < length m \<Longrightarrow> m' ! k = (if a \<le> k \<and> k < a + length bs then bs ! (k - a) else m ! k)"
  by (auto simp: mem_wr_def nth_append split: if_splits)

text \<open>The bytes of two blocks have changed places.\<close>

definition blocks_swapped :: "bytes \<Rightarrow> bytes \<Rightarrow> nat \<Rightarrow> nat \<Rightarrow> nat \<Rightarrow> bool" where
  "blocks_swapped m m' a b sz \<longleftrightarrow> length m' = length m
     \<and> (\<forall>k < length m. m' ! k = (if a \<le> k \<and> k < a + sz then m ! (b + (k - a)) else if b \<le> k \<and> k < b + sz then m ! (a + (k - b)) else m ! k))"

lemma generic_swap_blocks:
  "0 < sz \<Longrightarrow> a + sz \<le> length m \<Longrightarrow> b + sz \<le> length m \<Longrightarrow> a + sz \<le> b \<or> b + sz \<le> a \<Longrightarrow>
   \<exists>m'. generic_swap m a b sz = Some m' \<and> blocks_swapped m m' a b sz"
proof (induction sz arbitrary: m a b)
  case (Suc sz)
  let ?m = "m[a := m ! b, b := m ! a]"
  have l: "a < length m" "b < length m" "a \<noteq> b" using Suc.prems by auto
  have g: "generic_swap m a b (Suc sz) = (if sz > 0 then generic_swap ?m (a + 1) (b + 1) sz else Some ?m)"
    using l by (subst generic_swap.simps) (simp add: mem_one [simplified])
  show ?case
  proof (cases "sz = 0")
    case True
    then show ?thesis using g l by (auto simp: blocks_swapped_def nth_list_update)
  next
    case False
    then obtain m' where m': "generic_swap ?m (a + 1) (b + 1) sz = Some m'" "blocks_swapped ?m m' (a + 1) (b + 1) sz"
      using Suc.IH [of "a + 1" ?m "b + 1"] Suc.prems by auto
    have "m' ! k = (if a \<le> k \<and> k < a + Suc sz then m ! (b + (k - a)) else if b \<le> k \<and> k < b + Suc sz then m ! (a + (k - b)) else m ! k)"
      if k: "k < length m" for k
    proof -
      have e: "m' ! k = (if a + 1 \<le> k \<and> k < a + 1 + sz then ?m ! (b + 1 + (k - (a + 1))) else if b + 1 \<le> k \<and> k < b + 1 + sz then ?m ! (a + 1 + (k - (b + 1))) else ?m ! k)"
        using m'(2) k by (simp add: blocks_swapped_def)
      have u: "?m ! x = (if x = b then m ! a else if x = a then m ! b else m ! x)" for x using l by (simp add: nth_list_update)
      have d: "\<not> (a < k \<and> k < a + Suc sz) \<or> \<not> (b < k \<and> k < b + Suc sz)" using Suc.prems(4) by auto
      consider "k = a" | "k = b" | "a < k" "k < a + Suc sz" | "b < k" "k < b + Suc sz"
        | "k \<noteq> a" "k \<noteq> b" "\<not> (a < k \<and> k < a + Suc sz)" "\<not> (b < k \<and> k < b + Suc sz)" by blast
      then show ?thesis
      proof cases
        case 1
        then show ?thesis using e l(3) Suc.prems(4) unfolding u by auto
      next
        case 2
        then show ?thesis using e l(3) Suc.prems(4) unfolding u by auto
      next
        case 3
        then have "m' ! k = ?m ! (b + 1 + (k - (a + 1)))" using e by simp
        also have "b + 1 + (k - (a + 1)) = b + (k - a)" using 3 by simp
        finally show ?thesis using 3 Suc.prems(4) unfolding u by auto
      next
        case 4
        have na: "\<not> (a + 1 \<le> k \<and> k < a + 1 + sz)" "\<not> (a \<le> k \<and> k < a + Suc sz)" using 4 d Suc.prems(4) by auto
        have yb: "b + 1 \<le> k \<and> k < b + 1 + sz" using 4 by auto
        have "m' ! k = ?m ! (a + 1 + (k - (b + 1)))" using e unfolding if_not_P [OF na(1)] if_P [OF yb] .
        also have "a + 1 + (k - (b + 1)) = a + (k - b)" using 4 by simp
        finally have "m' ! k = m ! (a + (k - b))" using 4 Suc.prems(4) unfolding u by auto
        then show ?thesis using na(2) 4 by auto
      next
        case 5
        have na: "\<not> (a + 1 \<le> k \<and> k < a + 1 + sz)" "\<not> (a \<le> k \<and> k < a + Suc sz)" using 5 by auto
        have nb: "\<not> (b + 1 \<le> k \<and> k < b + 1 + sz)" "\<not> (b \<le> k \<and> k < b + Suc sz)" using 5 by auto
        have "m' ! k = m ! k" using e 5(1,2) unfolding if_not_P [OF na(1)] if_not_P [OF nb(1)] u by simp
        then show ?thesis unfolding if_not_P [OF na(2)] if_not_P [OF nb(2)] .
      qed
    qed
    then show ?thesis using g False m' by (auto simp: blocks_swapped_def)
  qed
qed simp

lemma u32_swap_blocks:
  assumes "a + 4 \<le> length m" "b + 4 \<le> length m" "a + 4 \<le> b \<or> b + 4 \<le> a"
  shows "\<exists>m'. u32_swap m a b 4 = Some m' \<and> blocks_swapped m m' a b 4"
proof -
  let ?t = "take 4 (drop a m)" and ?u = "take 4 (drop b m)"
  obtain m1 where m1: "mem_wr m a ?u = Some m1" using assms by (simp add: mem_wr_Some)
  then have l1: "length m1 = length m" by (rule mem_wr_length)
  obtain m2 where m2: "mem_wr m1 b ?t = Some m2" using assms l1 by (simp add: mem_wr_Some)
  then have l2: "length m2 = length m" using l1 mem_wr_length by metis
  have "m2 ! k = (if a \<le> k \<and> k < a + 4 then m ! (b + (k - a)) else if b \<le> k \<and> k < b + 4 then m ! (a + (k - b)) else m ! k)"
    if "k < length m" for k
    using that assms mem_wr_nth [OF m1, of k] mem_wr_nth [OF m2, of k] l1 by (auto split: if_splits)
  moreover have "u32_swap m a b 4 = Some m2" using assms m1 m2 by (simp add: u32_swap_def mem_rd_Some)
  ultimately show ?thesis using l2 by (auto simp: blocks_swapped_def)
qed

lemma block_end: "s < t \<Longrightarrow> s * sz + sz \<le> t * (sz :: nat)"
  by (metis Suc_leI mult_Suc add.commute mult_le_mono1)

lemma in_block: "x < sz \<Longrightarrow> (t * sz \<le> s * sz + x \<and> s * sz + x < t * sz + sz) = (s = (t :: nat))"
  using block_end [of s t sz] block_end [of t s sz] by (cases s t rule: linorder_cases) auto

lemma blocks_to_elems:
  assumes bs: "blocks_swapped m m' (i * sz) (j * sz) sz" and n: "n * sz \<le> length m" "i < n" "j < n"
  shows "length m' = length m \<and> elems sz m' n = swap (elems sz m n) i j \<and> drop (n * sz) m' = drop (n * sz) m"
proof (intro conjI)
  show len: "length m' = length m" using bs by (simp add: blocks_swapped_def)
  show "elems sz m' n = swap (elems sz m n) i j"
  proof (rule nth_equalityI)
    fix t assume "t < length (elems sz m' n)"
    then have t: "t < n" by simp
    let ?t = "if t = j then i else if t = i then j else t"
    have t': "?t < n" using t n by simp
    have b: "t * sz + sz \<le> length m" "?t * sz + sz \<le> length m"
      using block_end [OF t, of sz] block_end [OF t', of sz] n(1) by linarith+
    have "take sz (drop (t * sz) m') = take sz (drop (?t * sz) m)"
    proof (rule nth_equalityI)
      fix x assume "x < length (take sz (drop (t * sz) m'))"
      then have x: "x < sz" by simp
      have "m' ! (t * sz + x) = (if t = i then m ! (j * sz + x) else if t = j then m ! (i * sz + x) else m ! (t * sz + x))"
        using bs x b(1) in_block [OF x, of i t] in_block [OF x, of j t] by (auto simp: blocks_swapped_def)
      then show "take sz (drop (t * sz) m') ! x = take sz (drop (?t * sz) m) ! x" using x b len by auto
    qed (use b len in auto)
    then show "elems sz m' n ! t = swap (elems sz m n) i j ! t" using t n by (auto simp: swap_nth)
  qed simp
  show "drop (n * sz) m' = drop (n * sz) m"
  proof (rule nth_equalityI)
    fix k assume "k < length (drop (n * sz) m')"
    then have "n * sz + k < length m" using len by simp
    then show "drop (n * sz) m' ! k = drop (n * sz) m ! k"
      using bs len block_end [OF n(2), of sz] block_end [OF n(3), of sz] by (auto simp: blocks_swapped_def)
  qed (simp add: len)
qed

lemma disjoint_blocks: "i \<noteq> j \<Longrightarrow> i * sz + sz \<le> j * sz \<or> j * sz + sz \<le> i * (sz :: nat)"
  using block_end [of i j sz] block_end [of j i sz] by (cases i j rule: linorder_cases) auto

text \<open>\<open>generic_swap\<close> for every element size, \<open>u32_swap\<close> for the size it is used for.\<close>

interpretation generic: elem_swap "Suc k" generic_swap for k
proof
  fix n i j :: nat and m :: bytes
  assume a: "n * Suc k \<le> length m" "i < n" "j < n" "i \<noteq> j"
  have "i * Suc k + Suc k \<le> length m" "j * Suc k + Suc k \<le> length m"
    using a block_end [of i n "Suc k"] block_end [of j n "Suc k"] by linarith+
  from generic_swap_blocks [OF zero_less_Suc this disjoint_blocks [OF a(4)]] obtain m' where
    m': "generic_swap m (i * Suc k) (j * Suc k) (Suc k) = Some m'" "blocks_swapped m m' (i * Suc k) (j * Suc k) (Suc k)" by blast
  from blocks_to_elems [OF m'(2) a(1-3)] m'(1)
  show "\<exists>m'. generic_swap m (i * Suc k) (j * Suc k) (Suc k) = Some m' \<and> length m' = length m
    \<and> elems (Suc k) m' n = swap (elems (Suc k) m n) i j \<and> drop (n * Suc k) m' = drop (n * Suc k) m" by blast
qed simp

interpretation u32: elem_swap 4 u32_swap
proof
  fix n i j :: nat and m :: bytes
  assume a: "n * 4 \<le> length m" "i < n" "j < n" "i \<noteq> j"
  have "i * 4 + 4 \<le> length m" "j * 4 + 4 \<le> length m"
    using a block_end [of i n 4] block_end [of j n 4] by linarith+
  from u32_swap_blocks [OF this disjoint_blocks [OF a(4)]] obtain m' where
    m': "u32_swap m (i * 4) (j * 4) 4 = Some m'" "blocks_swapped m m' (i * 4) (j * 4) (4)" by blast
  from blocks_to_elems [OF m'(2) a(1-3)] m'(1)
  show "\<exists>m'. u32_swap m (i * 4) (j * 4) 4 = Some m' \<and> length m' = length m
    \<and> elems 4 m' n = swap (elems 4 m n) i j \<and> drop (n * 4) m' = drop (n * 4) m" by blast
qed simp

subsection \<open>Sorting bytes\<close>

lemma sort_bytes_elements:
  assumes "0 < sz" "sz < 2 ^ 30" "num * sz < 2 ^ 30" "num * sz \<le> length m"
  shows "\<exists>m'. sort_bytes None cmp sz m num = Some m' \<and> length m' = length m \<and> elems sz m' num = sort_array cmp (elems sz m num) num
    \<and> drop (num * sz) m' = drop (num * sz) m"
proof (cases "sz = 4")
  case True
  then show ?thesis using u32.sort_bytes_refines [of num m None cmp] assms by simp
next
  case False
  obtain k where k: "sz = Suc k" using assms(1) by (cases sz) auto
  show ?thesis using generic.sort_bytes_refines [of num k m None cmp] assms False unfolding k by auto
qed

text \<open>C5. Sorting sorts: for every element size and number of elements (less than \<open>2 ^ 30\<close> bytes), the heap sort on bytes
  returns, leaves everything behind the elements alone, and the elements are then a permutation of what they
  were, in ascending order of the comparison, provided it is total and transitive on them.\<close>

theorem sort_sorts:
  assumes "cmp_order A cmp" and "set (elems sz m num) \<subseteq> A" and "0 < sz" and "sz < 2 ^ 30" and "num * sz < 2 ^ 30" and "num * sz \<le> length m"
  shows "\<exists>m'. sort_bytes None cmp sz m num = Some m' \<and> length m' = length m \<and> drop (num * sz) m' = drop (num * sz) m
    \<and> mset (elems sz m' num) = mset (elems sz m num) \<and> sorted_wrt (\<lambda>x y. cmp y x \<ge> 0) (elems sz m' num)"
proof -
  let ?s = "sort_array cmp (elems sz m num) num"
  have "sorted_wrt (\<lambda>x y. cmp y x \<ge> 0) (take num ?s)" and p: "perm_upto num (elems sz m num) ?s"
    using cmp_order.sort_sorted [OF assms(1), of num "elems sz m num"] assms(2) by auto
  moreover have "length ?s = num" "mset (take num ?s) = mset (elems sz m num)" using p by (auto simp: perm_upto_def)
  ultimately have "sorted_wrt (\<lambda>x y. cmp y x \<ge> 0) ?s" "mset ?s = mset (elems sz m num)" by auto
  then show ?thesis using sort_bytes_elements [OF assms(3-6)] by metis
qed

definition cmp_first_byte :: "bytes \<Rightarrow> bytes \<Rightarrow> int" where
  "cmp_first_byte x y = int (unat (hd x)) - int (unat (hd y))"

theorem sort_sorts_witness:
  "\<exists>m'. sort_bytes None cmp_first_byte 2 [3, 9, 1, 8, 2, 7, 5] 3 = Some m' \<and> drop 6 m' = [5]
    \<and> mset (elems 2 m' 3) = {#[3, 9], [1, 8], [2, 7]#} \<and> sorted_wrt (\<lambda>x y. cmp_first_byte y x \<ge> 0) (elems 2 m' 3)"
proof -
  have "cmp_order UNIV cmp_first_byte" by unfold_locales (auto simp: cmp_first_byte_def)
  moreover have "elems 2 [3, 9, 1, 8, 2, 7, 5 :: u8] 3 = [[3, 9], [1, 8], [2, 7]]" by (simp add: elems_def upt_rec)
  ultimately show ?thesis using sort_sorts [of UNIV cmp_first_byte 2 "[3, 9, 1, 8, 2, 7, 5]" 3] by auto
qed

end
