(* ===== verification/Range.thy ===== *)
theory Range
  imports Sort
begin

text \<open>
  Address ranges (\<^verbatim>\<open>kernel/range.c\<close>): an array of half-open ranges of 64-bit addresses, an entry with
  end 0 being free. An array stands for the set of addresses it covers; adding and subtracting a
  range are shown to be union and difference of that set.
\<close>

record range =
  r_start :: u64
  r_end :: u64

definition free_slot :: range where
  "free_slot = \<lparr>r_start = 0, r_end = 0\<rparr>"

subsection \<open>Operations\<close>

text \<open>The size \<open>az\<close> of the array is the length of the list.\<close>

definition add_range :: "range list \<Rightarrow> nat \<Rightarrow> u64 \<Rightarrow> u64 \<Rightarrow> nat \<times> range list" where
  "add_range rs nr_range start fin =
     (if start \<ge> fin then (nr_range, rs)
      else if nr_range \<ge> length rs then (nr_range, rs)
      else (nr_range + 1, rs[nr_range := \<lparr>r_start = start, r_end = fin\<rparr>]))"

text \<open>The search for an entry to merge with, among the entries from \<open>i\<close> on. The callers keep
  \<open>nr_range\<close> within \<open>az\<close>; entries outside the array are not looked at.\<close>

function merge_loop :: "range list \<Rightarrow> nat \<Rightarrow> nat \<Rightarrow> u64 \<Rightarrow> u64 \<Rightarrow> range list option" where
  "merge_loop rs i nr_range start fin =
     (if i < nr_range \<and> i < length rs then
        let r = rs ! i; common_start = max (r_start r) start; common_end = min (r_end r) fin in
        if r_end r = 0 then merge_loop rs (i + 1) nr_range start fin
        else if common_start > common_end then merge_loop rs (i + 1) nr_range start fin
        else Some (rs[i := \<lparr>r_start = min (r_start r) start, r_end = max (r_end r) fin\<rparr>])
      else None)"
  by pat_completeness auto
termination by (relation "measure (\<lambda>(rs, i, nr_range, s, e). nr_range - i)") auto

declare merge_loop.simps [simp del]

definition add_range_with_merge :: "range list \<Rightarrow> nat \<Rightarrow> u64 \<Rightarrow> u64 \<Rightarrow> nat \<times> range list" where
  "add_range_with_merge rs nr_range start fin =
     (if start \<ge> fin then (nr_range, rs)
      else (case merge_loop rs 0 nr_range start fin of
          Some rs \<Rightarrow> (nr_range, rs)
        | None \<Rightarrow> add_range rs nr_range start fin))"

fun find_free :: "range list \<Rightarrow> nat option" where
  "find_free [] = None"
| "find_free (r # rs) = (if r_end r = 0 then Some 0 else map_option Suc (find_free rs))"

text \<open>One round of the loop of \<open>subtract_range\<close>, for the entry \<open>j\<close>; the flag says whether it ran out of
  slots.\<close>

definition subtract_step :: "u64 \<Rightarrow> u64 \<Rightarrow> nat \<Rightarrow> range list \<Rightarrow> range list \<times> bool" where
  "subtract_step start fin j rs =
     (let r = rs ! j in
      if r_end r = 0 then (rs, False)
      else if start \<le> r_start r \<and> fin \<ge> r_end r then (rs[j := free_slot], False)
      else if start \<le> r_start r \<and> fin < r_end r \<and> r_start r < fin then (rs[j := r\<lparr>r_start := fin\<rparr>], False)
      else if start > r_start r \<and> fin \<ge> r_end r \<and> r_end r > start then (rs[j := r\<lparr>r_end := start\<rparr>], False)
      else if start > r_start r \<and> fin < r_end r then
        (case find_free rs of
           Some i \<Rightarrow> ((rs[i := \<lparr>r_start = fin, r_end = r_end r\<rparr>])[j := r\<lparr>r_end := start\<rparr>], False)
         | None \<Rightarrow> (rs[j := r\<lparr>r_end := start\<rparr>], True))
      else (rs, False))"

fun subtract_loop :: "u64 \<Rightarrow> u64 \<Rightarrow> nat list \<Rightarrow> range list \<Rightarrow> range list \<times> bool" where
  "subtract_loop start fin [] rs = (rs, False)"
| "subtract_loop start fin (j # js) rs =
     (let (rs, full) = subtract_step start fin j rs;
          (rs, full') = subtract_loop start fin js rs
      in (rs, full \<or> full'))"

definition subtract_range :: "range list \<Rightarrow> u64 \<Rightarrow> u64 \<Rightarrow> range list \<times> bool" where
  "subtract_range rs start fin =
     (if start \<ge> fin then (rs, False) else subtract_loop start fin [0..<length rs] rs)"

text \<open>The comparison of the sort: the difference of the starts, cut to an \<open>int\<close>.\<close>

definition cmp_range :: "range \<Rightarrow> range \<Rightarrow> int" where
  "cmp_range r1 r2 = sint (ucast (r_start r1 - r_start r2) :: u32)"

text \<open>\<open>clean_sort_range\<close>: the search for the last entry in use above \<open>i\<close>, the loop that moves entries down into free
  slots, and the count of the entries in use before the sort.\<close>

fun last_used :: "range list \<Rightarrow> nat \<Rightarrow> nat \<Rightarrow> nat option" where
  "last_used rs i 0 = None"
| "last_used rs i (Suc j) = (if Suc j > i then (if r_end (rs ! Suc j) \<noteq> 0 then Some (Suc j) else last_used rs i j) else None)"

lemma last_used_Some: "last_used rs i k = Some j \<Longrightarrow> i < j \<and> j \<le> k \<and> r_end (rs ! j) \<noteq> 0 \<and> (\<forall>l. j < l \<and> l \<le> k \<longrightarrow> r_end (rs ! l) = 0)"
  by (induction rs i k rule: last_used.induct) (auto simp: le_Suc_eq split: if_splits)

lemma last_used_None: "last_used rs i k = None \<Longrightarrow> i < l \<Longrightarrow> l \<le> k \<Longrightarrow> r_end (rs ! l) = 0"
  by (induction rs i k rule: last_used.induct) (auto simp: le_Suc_eq split: if_splits)

function pack_down :: "range list \<Rightarrow> nat \<Rightarrow> nat \<Rightarrow> range list" where
  "pack_down rs i k =
     (if i < k then
        if r_end (rs ! i) \<noteq> 0 then pack_down rs (i + 1) k
        else (case last_used rs i k of
            None \<Rightarrow> rs
          | Some j \<Rightarrow> pack_down (rs[i := rs ! j, j := free_slot]) (i + 1) (j - 1))
      else rs)"
  by pat_completeness auto
termination by (relation "measure (\<lambda>(rs, i, k). k - i)") (auto dest: last_used_Some)

declare pack_down.simps [simp del]

definition sort_range :: "range list \<Rightarrow> nat \<Rightarrow> range list" where
  "sort_range rs nr_range = sort_array cmp_range rs nr_range"

definition clean_sort_range :: "range list \<Rightarrow> nat \<times> range list" where
  "clean_sort_range rs =
     (let rs = pack_down rs 0 (length rs - 1);
          nr_range = (case find_free rs of None \<Rightarrow> length rs | Some i \<Rightarrow> i)
      in (nr_range, sort_array cmp_range rs nr_range))"

subsection \<open>The addresses covered\<close>

definition in_range :: "range \<Rightarrow> u64 \<Rightarrow> bool" where
  "in_range r x \<longleftrightarrow> r_start r \<le> x \<and> x < r_end r"

definition covers :: "range list \<Rightarrow> u64 set" where
  "covers rs = {x. \<exists>r \<in> set rs. in_range r x}"

lemma covers_nth: "x \<in> covers rs \<longleftrightarrow> (\<exists>i < length rs. in_range (rs ! i) x)"
  unfolding covers_def by (simp add: set_conv_nth Bex_def) blast

lemma covers_update:
  "i < length rs \<Longrightarrow> x \<in> covers (rs[i := r]) \<longleftrightarrow> in_range r x \<or> (\<exists>k < length rs. k \<noteq> i \<and> in_range (rs ! k) x)"
  by (auto simp: covers_nth nth_list_update)

lemma covers_split:
  "i < length rs \<Longrightarrow> x \<in> covers rs \<longleftrightarrow> in_range (rs ! i) x \<or> (\<exists>k < length rs. k \<noteq> i \<and> in_range (rs ! k) x)"
  using covers_update [of i rs x "rs ! i"] by simp

lemma free_covers_nothing: "r_end r = 0 \<Longrightarrow> \<not> in_range r x"
  by (simp add: in_range_def)

lemma find_free_Some: "find_free rs = Some i \<Longrightarrow> i < length rs \<and> r_end (rs ! i) = 0"
  by (induction rs arbitrary: i) (auto split: if_splits)

lemma find_free_None: "find_free rs = None \<Longrightarrow> \<forall>r \<in> set rs. r_end r \<noteq> 0"
  by (induction rs) (auto split: if_splits)

subsection \<open>Adding\<close>

lemma merge_loop_covers:
  "merge_loop rs i nr s e = Some rs' \<Longrightarrow> s < e \<Longrightarrow>
   length rs' = length rs \<and> covers rs' = covers rs \<union> {s..<e} \<and> (\<forall>k. nr \<le> k \<longrightarrow> rs' ! k = rs ! k)"
proof (induction rs i nr s e rule: merge_loop.induct)
  case (1 rs i nr s e)
  let ?r = "rs ! i"
  show ?case
  proof (cases "i < nr \<and> i < length rs \<and> (r_end ?r = 0 \<or> max (r_start ?r) s > min (r_end ?r) e)")
    case True
    then have "merge_loop rs (i + 1) nr s e = Some rs'" using "1.prems"(1) by (subst (asm) merge_loop.simps) (auto simp: Let_def split: if_splits)
    note m = this
    have i: "i < nr \<and> i < length rs" using True by simp
    show ?thesis
    proof (cases "r_end ?r = 0")
      case z: True
      from "1.IH"(1) [OF i refl refl refl z m "1.prems"(2)] show ?thesis .
    next
      case z: False
      with True have c: "max (r_start ?r) s > min (r_end ?r) e" by simp
      from "1.IH"(2) [OF i refl refl refl z c m "1.prems"(2)] show ?thesis .
    qed
  next
    case False
    with "1.prems"(1) have i: "i < nr" "i < length rs" "r_end ?r \<noteq> 0" "max (r_start ?r) s \<le> min (r_end ?r) e"
      and rs': "rs' = rs[i := \<lparr>r_start = min (r_start ?r) s, r_end = max (r_end ?r) e\<rparr>]"
      by (subst (asm) merge_loop.simps; auto simp: Let_def not_less split: if_splits)+
    have "in_range \<lparr>r_start = min (r_start ?r) s, r_end = max (r_end ?r) e\<rparr> x \<longleftrightarrow> in_range ?r x \<or> s \<le> x \<and> x < e" for x
      using i(4) "1.prems"(2) by (auto simp: in_range_def min_def max_def split: if_splits)
    then have "covers rs' = covers rs \<union> {s..<e}"
      using i(2) rs' by (auto simp: covers_update covers_split [of i rs])
    then show ?thesis using rs' i(1) by auto
  qed
qed

lemma merge_loop_None:
  "merge_loop rs i nr s e = None \<Longrightarrow> nr \<le> length rs \<Longrightarrow> i \<le> k \<Longrightarrow> k < nr \<Longrightarrow>
   r_end (rs ! k) = 0 \<or> max (r_start (rs ! k)) s > min (r_end (rs ! k)) e"
proof (induction rs i nr s e rule: merge_loop.induct)
  case (1 rs i nr s e)
  have i: "i < nr \<and> i < length rs" using "1.prems" by auto
  have c: "r_end (rs ! i) = 0 \<or> max (r_start (rs ! i)) s > min (r_end (rs ! i)) e"
    and n: "merge_loop rs (i + 1) nr s e = None"
    using "1.prems"(1) i by (subst (asm) merge_loop.simps; auto simp: Let_def split: if_splits)+
  show ?case
  proof (cases "k = i")
    case False
    then have k: "i + 1 \<le> k" using "1.prems"(3) by simp
    show ?thesis
    proof (cases "r_end (rs ! i) = 0")
      case True
      from "1.IH"(1) [OF i refl refl refl True n "1.prems"(2) k "1.prems"(4)] show ?thesis .
    next
      case False
      with c have m: "max (r_start (rs ! i)) s > min (r_end (rs ! i)) e" by simp
      from "1.IH"(2) [OF i refl refl refl False m n "1.prems"(2) k "1.prems"(4)] show ?thesis .
    qed
  qed (use c in simp)
qed

subsection \<open>Subtracting\<close>

lemma subtract_step_cases:
  assumes "subtract_step s e j rs = (rs', full)" "j < length rs" "s < e"
  shows "\<exists>r'. (\<not> full \<and> rs' = rs[j := r'] \<and> (\<forall>x. in_range r' x \<longleftrightarrow> in_range (rs ! j) x \<and> \<not> (s \<le> x \<and> x < e)))
     \<or> (\<exists>i q. \<not> full \<and> i < length rs \<and> i \<noteq> j \<and> r_end (rs ! i) = 0 \<and> rs' = (rs[i := q])[j := r']
         \<and> (\<forall>x. in_range q x \<longrightarrow> e \<le> x)
         \<and> (\<forall>x. in_range r' x \<or> in_range q x \<longleftrightarrow> in_range (rs ! j) x \<and> \<not> (s \<le> x \<and> x < e))
         \<and> (\<forall>x. in_range r' x \<longrightarrow> \<not> (s \<le> x \<and> x < e)))
     \<or> (full \<and> rs' = rs[j := r'] \<and> (\<forall>x. in_range r' x \<longrightarrow> in_range (rs ! j) x \<and> \<not> (s \<le> x \<and> x < e)))"
proof -
  let ?r = "rs ! j"
  consider (free) "r_end ?r = 0"
    | (all) "r_end ?r \<noteq> 0" "s \<le> r_start ?r" "r_end ?r \<le> e"
    | (low) "r_end ?r \<noteq> 0" "s \<le> r_start ?r" "e < r_end ?r" "r_start ?r < e"
    | (high) "r_end ?r \<noteq> 0" "r_start ?r < s" "r_end ?r \<le> e" "s < r_end ?r"
    | (mid) "r_end ?r \<noteq> 0" "r_start ?r < s" "e < r_end ?r"
    | (out) "r_end ?r \<noteq> 0" "s \<le> r_start ?r \<and> e < r_end ?r \<and> e \<le> r_start ?r \<or> r_start ?r < s \<and> r_end ?r \<le> e \<and> r_end ?r \<le> s"
    by force
  then show ?thesis
  proof cases
    case free
    then have "rs' = rs" "\<not> full" using assms(1) by (auto simp: subtract_step_def Let_def split: if_splits)
    then show ?thesis using free by (intro exI [of _ ?r] disjI1) (auto simp: free_covers_nothing)
  next
    case all
    then have "rs' = rs[j := free_slot]" "\<not> full" using assms(1) by (auto simp: subtract_step_def Let_def split: if_splits)
    then show ?thesis using all by (intro exI [of _ free_slot] disjI1) (auto simp: in_range_def free_slot_def)
  next
    case low
    then have "rs' = rs[j := ?r\<lparr>r_start := e\<rparr>]" "\<not> full" using assms(1) by (auto simp: subtract_step_def Let_def split: if_splits)
    then show ?thesis using low by (intro exI [of _ "?r\<lparr>r_start := e\<rparr>"] disjI1) (auto simp: in_range_def)
  next
    case high
    then have "rs' = rs[j := ?r\<lparr>r_end := s\<rparr>]" "\<not> full" using assms(1) by (auto simp: subtract_step_def Let_def split: if_splits)
    then show ?thesis using high by (intro exI [of _ "?r\<lparr>r_end := s\<rparr>"] disjI1) (auto simp: in_range_def)
  next
    case out
    then have "rs' = rs" "\<not> full" using assms(1) by (auto simp: subtract_step_def Let_def split: if_splits)
    then show ?thesis using out assms(3) by (intro exI [of _ ?r] disjI1) (auto simp: in_range_def)
  next
    case mid
    show ?thesis
    proof (cases "find_free rs")
      case None
      then have "rs' = rs[j := ?r\<lparr>r_end := s\<rparr>]" "full" using mid assms(1,3) by (auto simp: subtract_step_def Let_def split: if_splits)
      then show ?thesis using mid assms(3) by (intro exI [of _ "?r\<lparr>r_end := s\<rparr>"] disjI2) (auto simp: in_range_def)
    next
      case (Some i)
      note i = find_free_Some [OF Some]
      have "rs' = (rs[i := \<lparr>r_start = e, r_end = r_end ?r\<rparr>])[j := ?r\<lparr>r_end := s\<rparr>]" "\<not> full"
        using mid assms(1,3) Some by (auto simp: subtract_step_def Let_def split: if_splits)
      moreover have "i \<noteq> j" using i mid(1) by auto
      ultimately show ?thesis using mid assms(3) i
        by (intro exI [of _ "?r\<lparr>r_end := s\<rparr>"] disjI2 disjI1 exI [of _ i] exI [of _ "\<lparr>r_start = e, r_end = r_end ?r\<rparr>"])
          (auto simp: in_range_def)
    qed
  qed
qed

text \<open>A step in terms of the covered addresses: it only removes addresses, removes only addresses to be removed
  unless it runs out of slots, and entry \<open>j\<close> and a new entry hold none of them.\<close>

definition clean :: "u64 \<Rightarrow> u64 \<Rightarrow> range list \<Rightarrow> nat \<Rightarrow> bool" where
  "clean s e rs k \<longleftrightarrow> (\<forall>x. in_range (rs ! k) x \<longrightarrow> \<not> (s \<le> x \<and> x < e))"

lemma covers_update2:
  assumes "i < length rs" "j < length rs" "i \<noteq> j"
  shows "x \<in> covers ((rs[i := q])[j := r']) \<longleftrightarrow> in_range r' x \<or> in_range q x \<or> (\<exists>k < length rs. k \<noteq> j \<and> k \<noteq> i \<and> in_range (rs ! k) x)"
  using assms by (auto simp: covers_nth nth_list_update)

lemma subtract_step_covers:
  assumes "subtract_step s e j rs = (rs', full)" "j < length rs" "s < e"
  shows "length rs' = length rs" and "covers rs' \<subseteq> covers rs"
    and "\<not> full \<Longrightarrow> covers rs - {s..<e} \<subseteq> covers rs'"
    and "clean s e rs' j" and "k < length rs \<Longrightarrow> clean s e rs k \<Longrightarrow> clean s e rs' k"
proof -
  from subtract_step_cases [OF assms] consider
      (one) r' where "rs' = rs[j := r']" "\<And>x. in_range r' x \<Longrightarrow> in_range (rs ! j) x \<and> \<not> (s \<le> x \<and> x < e)"
        "\<And>x. \<not> full \<Longrightarrow> in_range (rs ! j) x \<Longrightarrow> \<not> (s \<le> x \<and> x < e) \<Longrightarrow> in_range r' x"
    | (two) i q r' where "\<not> full" "i < length rs" "i \<noteq> j" "r_end (rs ! i) = 0" "rs' = (rs[i := q])[j := r']"
        "\<And>x. in_range q x \<Longrightarrow> e \<le> x" "\<And>x. in_range r' x \<or> in_range q x \<longleftrightarrow> in_range (rs ! j) x \<and> \<not> (s \<le> x \<and> x < e)"
        "\<And>x. in_range r' x \<Longrightarrow> \<not> (s \<le> x \<and> x < e)"
    by blast
  then have "length rs' = length rs \<and> covers rs' \<subseteq> covers rs \<and> (\<not> full \<longrightarrow> covers rs - {s..<e} \<subseteq> covers rs')
    \<and> clean s e rs' j \<and> (\<forall>k < length rs. clean s e rs k \<longrightarrow> clean s e rs' k)"
  proof cases
    case one
    have "covers rs' \<subseteq> covers rs" using one(1,2) assms(2) by (auto simp: covers_update covers_split [OF assms(2)])
    moreover have "covers rs - {s..<e} \<subseteq> covers rs'" if "\<not> full"
      using one(1) one(3) [OF that] assms(2) by (auto simp: covers_update covers_split [OF assms(2)])
    ultimately show ?thesis using one(1,2) assms(2) by (auto simp: clean_def nth_list_update)
  next
    case two
    have free: "\<not> in_range (rs ! i) x" for x using two(4) by (rule free_covers_nothing)
    have "x \<in> covers rs' \<longleftrightarrow> x \<in> covers rs \<and> (in_range (rs ! j) x \<longrightarrow> \<not> (s \<le> x \<and> x < e) \<or> (\<exists>k < length rs. k \<noteq> j \<and> in_range (rs ! k) x))" for x
      using covers_update2 [OF two(2) assms(2) two(3)] two(5,7) free covers_split [OF assms(2)] by metis
    moreover have "clean s e rs' j" using two(3,5,8) assms(2) two(2) by (simp add: clean_def)
    moreover have "\<forall>k < length rs. clean s e rs k \<longrightarrow> clean s e rs' k"
      using two(2,5,6,8) assms(2) by (auto simp: clean_def nth_list_update) (meson leD)
    ultimately show ?thesis using two(1,5) by auto
  qed
  then show "length rs' = length rs" "covers rs' \<subseteq> covers rs" "\<not> full \<Longrightarrow> covers rs - {s..<e} \<subseteq> covers rs'"
    "clean s e rs' j" "k < length rs \<Longrightarrow> clean s e rs k \<Longrightarrow> clean s e rs' k" by blast+
qed

lemma subtract_loop_covers:
  "subtract_loop s e js rs = (rs', full) \<Longrightarrow> \<forall>j \<in> set js. j < length rs \<Longrightarrow> s < e \<Longrightarrow>
   length rs' = length rs \<and> covers rs' \<subseteq> covers rs \<and> (\<not> full \<longrightarrow> covers rs - {s..<e} \<subseteq> covers rs')
     \<and> (\<forall>k < length rs. k \<in> set js \<or> clean s e rs k \<longrightarrow> clean s e rs' k)"
proof (induction js arbitrary: rs full)
  case (Cons j js)
  obtain rs1 f1 where 1: "subtract_step s e j rs = (rs1, f1)" by fastforce
  obtain f2 where 2: "subtract_loop s e js rs1 = (rs', f2)" and f: "full = (f1 \<or> f2)"
    using Cons.prems(1) 1 by (auto split: prod.splits)
  have j: "j < length rs" using Cons.prems(2) by simp
  note st = subtract_step_covers [OF 1 j Cons.prems(3)]
  have "\<forall>j \<in> set js. j < length rs1" using Cons.prems(2) st(1) by simp
  note IH = Cons.IH [OF 2 this Cons.prems(3)]
  have "clean s e rs' k" if "k < length rs" "k \<in> set (j # js) \<or> clean s e rs k" for k
    using that IH st(1,4) st(5) [of k] by auto
  moreover have "\<not> full \<longrightarrow> covers rs - {s..<e} \<subseteq> covers rs'" using IH st(3) f by blast
  ultimately show ?case using IH st(1,2) by auto
qed auto

subsection \<open>Properties\<close>

text \<open>Adding a range with merging: the array then covers exactly the addresses it covered before and those
  of the new range, the entries from the count on stay free, and the count grows by at most one; only if
  all slots are taken and no entry touches the range, nothing changes.\<close>

theorem add_range_with_merge_union:
  assumes "nr \<le> length rs" and "\<forall>k. nr \<le> k \<and> k < length rs \<longrightarrow> rs ! k = free_slot"
    and "add_range_with_merge rs nr s e = (nr', rs')"
  shows "(covers rs' = covers rs \<union> {s..<e} \<and> length rs' = length rs \<and> nr \<le> nr' \<and> nr' \<le> nr + 1 \<and> nr' \<le> length rs'
        \<and> (\<forall>k. nr' \<le> k \<and> k < length rs' \<longrightarrow> rs' ! k = free_slot))
    \<or> (nr = length rs \<and> nr' = nr \<and> rs' = rs
        \<and> (\<forall>r \<in> set rs. r_end r = 0 \<or> max (r_start r) s > min (r_end r) e))"
proof (cases "s < e")
  case False
  then show ?thesis using assms by (auto simp: add_range_with_merge_def not_less)
next
  case True
  then have ns: "\<not> s \<ge> e" by (simp only: not_le)
  show ?thesis
  proof (cases "merge_loop rs 0 nr s e")
    case (Some rs1)
    then have "rs' = rs1" "nr' = nr" using assms(3) ns by (simp_all add: add_range_with_merge_def)
    then show ?thesis using assms(1,2) merge_loop_covers [OF Some True] by simp
  next
    case None
    show ?thesis
    proof (cases "nr < length rs")
      case nr: True
      then have eq: "nr' = nr + 1" "rs' = rs[nr := \<lparr>r_start = s, r_end = e\<rparr>]"
        using assms(3) ns None by (auto simp: add_range_with_merge_def add_range_def)
      have "r_end (rs ! nr) = 0" using assms(2) nr by (simp add: free_slot_def)
      then have "covers rs' = covers rs \<union> {s..<e}"
        unfolding eq(2) using nr by (auto simp: covers_update covers_split [OF nr] free_covers_nothing in_range_def)
      then show ?thesis using eq nr assms(2) by (auto simp: nth_list_update)
    next
      case False
      then have n: "nr = length rs" using assms(1) by simp
      have "r_end r = 0 \<or> max (r_start r) s > min (r_end r) e" if "r \<in> set rs" for r
        using that merge_loop_None [OF None] n by (auto simp: in_set_conv_nth)
      then show ?thesis using assms(3) ns None n by (auto simp: add_range_with_merge_def add_range_def)
    qed
  qed
qed

theorem add_range_with_merge_union_witness:
  "covers (snd (add_range_with_merge [\<lparr>r_start = 10, r_end = 20\<rparr>, free_slot] 1 15 30)) = covers [\<lparr>r_start = 10, r_end = 20\<rparr>, free_slot] \<union> {15..<30}"
proof -
  let ?rs = "[\<lparr>r_start = 10, r_end = 20\<rparr>, free_slot]"
  have free: "\<forall>k. 1 \<le> k \<and> k < length ?rs \<longrightarrow> ?rs ! k = free_slot" by (auto simp: less_Suc_eq)
  obtain nr' rs' where r: "add_range_with_merge ?rs 1 15 30 = (nr', rs')" by fastforce
  from add_range_with_merge_union [OF _ free r] r show ?thesis by auto
qed

text \<open>C39. Subtracting a range removes exactly its addresses: afterwards none of them is covered, nothing new is, and
  all others still are, unless the array ran out of free slots for the upper part of an entry cut in two, which is
  then reported.\<close>

theorem subtract_range_difference:
  assumes "subtract_range rs s e = (rs', full)" and "s < e"
  shows "length rs' = length rs \<and> covers rs' \<subseteq> covers rs - {s..<e} \<and> (\<not> full \<longrightarrow> covers rs' = covers rs - {s..<e})"
proof -
  have l: "subtract_loop s e [0..<length rs] rs = (rs', full)" 
  proof -
    have "\<not> s \<ge> e" using assms(2) by (simp only: not_le)
    then show ?thesis using assms(1) by (simp add: subtract_range_def)
  qed
  note c = subtract_loop_covers [OF l _ assms(2)]
  have "x \<notin> covers rs'" if "s \<le> x" "x < e" for x
    using c that by (auto simp: covers_nth clean_def)
  then have "covers rs' \<subseteq> covers rs - {s..<e}" using c by auto
  then show ?thesis using c by auto
qed

theorem subtract_range_difference_witness:
  "covers (fst (subtract_range [\<lparr>r_start = 10, r_end = 20\<rparr>, free_slot] 12 15)) = covers [\<lparr>r_start = 10, r_end = 20\<rparr>, free_slot] - {12..<15}"
proof -
  let ?rs = "[\<lparr>r_start = 10, r_end = 20\<rparr>, free_slot]"
  have r: "subtract_range ?rs 12 15 = (fst (subtract_range ?rs 12 15), False)"
    by (simp add: subtract_range_def subtract_step_def free_slot_def Let_def)
  from subtract_range_difference [OF r] show ?thesis by simp
qed

text \<open>The comparison used for sorting cuts a 64-bit difference to 32 bits: ranges 4 GB apart compare as equal.\<close>

lemma cmp_range_truncates: "cmp_range \<lparr>r_start = 0x100000000, r_end = e\<rparr> \<lparr>r_start = 0, r_end = e'\<rparr> = 0"
  by (simp add: cmp_range_def)

subsection \<open>Cleaning and sorting\<close>

abbreviation used :: "range \<Rightarrow> bool" where "used r \<equiv> r_end r \<noteq> 0"

text \<open>The entries in use come first.\<close>

definition packed :: "range list \<Rightarrow> nat \<Rightarrow> bool" where
  "packed rs n \<longleftrightarrow> n \<le> length rs \<and> (\<forall>l < n. used (rs ! l)) \<and> (\<forall>l. n \<le> l \<and> l < length rs \<longrightarrow> \<not> used (rs ! l))"

lemma find_free_packed: "packed rs n \<Longrightarrow> (case find_free rs of None \<Rightarrow> length rs | Some i \<Rightarrow> i) = n"
proof -
  assume p: "packed rs n"
  have first: "find_free rs = Some i \<Longrightarrow> l < i \<Longrightarrow> used (rs ! l)" for i l
  proof (induction rs arbitrary: i l)
    case (Cons r rs)
    then show ?case by (cases l) (auto split: if_splits)
  qed simp
  show ?thesis
  proof (cases "find_free rs")
    case None
    then have "n = length rs" using find_free_None [OF None] p unfolding packed_def by (metis le_neq_implies_less nth_mem order_refl)
    then show ?thesis using None by simp
  next
    case (Some i)
    have "n \<le> i" using p find_free_Some [OF Some] unfolding packed_def by (metis not_le)
    moreover have "i \<le> n" using p first [OF Some, of n] find_free_Some [OF Some] unfolding packed_def by (meson not_le order.strict_trans order_refl)
    ultimately show ?thesis using Some by simp
  qed
qed

lemma move_down_mset:
  assumes "i < length rs" "j < length rs" "i \<noteq> j" "\<not> used (rs ! i)"
  shows "mset (filter used (rs[i := rs ! j, j := free_slot])) = mset (filter used rs)"
proof -
  have i: "filter_mset used (mset rs - {#rs ! i#}) = filter_mset used (mset rs)"
    using assms(4) by (simp add: filter_diff_mset del: mset_filter)
  have "mset (rs[i := rs ! j, j := free_slot]) = add_mset free_slot (add_mset (rs ! j) (mset rs - {#rs ! i#}) - {#rs ! j#})"
    using assms by (simp add: mset_update)
  moreover have "\<not> used free_slot" by (simp add: free_slot_def)
  ultimately show ?thesis unfolding mset_filter using i by simp
qed

lemma pack_down_packed:
  "k < length rs \<Longrightarrow> \<forall>l < i. l < length rs \<longrightarrow> used (rs ! l) \<Longrightarrow> \<forall>l. k < l \<and> l < length rs \<longrightarrow> \<not> used (rs ! l) \<Longrightarrow> i \<le> k + 1 \<Longrightarrow>
   length (pack_down rs i k) = length rs \<and> mset (filter used (pack_down rs i k)) = mset (filter used rs) \<and> (\<exists>n. packed (pack_down rs i k) n)"
proof (induction rs i k rule: pack_down.induct)
  case (1 rs i k)
  have stop: "\<exists>n. packed rs n" if "\<forall>l. i < l \<and> l < length rs \<longrightarrow> \<not> used (rs ! l)" "i \<le> length rs"
  proof (cases "i < length rs \<and> used (rs ! i)")
    case True
    then have "packed rs (i + 1)" using that "1.prems"(2) by (auto simp: packed_def less_Suc_eq)
    then show ?thesis by blast
  next
    case False
    then have "packed rs i" using that "1.prems"(2) unfolding packed_def by (metis le_neq_implies_less less_le_trans)
    then show ?thesis by blast
  qed
  show ?case
  proof (cases "i < k")
    case False
    then have "\<forall>l. i < l \<and> l < length rs \<longrightarrow> \<not> used (rs ! l)" using "1.prems"(3) by auto
    then show ?thesis using False stop "1.prems"(1,4) by (subst (1 2 3) pack_down.simps) auto
  next
    case ik: True
    show ?thesis
    proof (cases "used (rs ! i)")
      case True
      then have "\<forall>l < i + 1. l < length rs \<longrightarrow> used (rs ! l)" using "1.prems"(2) by (auto simp: less_Suc_eq)
      then show ?thesis using ik True "1.IH"(1) "1.prems" by (subst (1 2 3) pack_down.simps) simp
    next
      case False
      show ?thesis
      proof (cases "last_used rs i k")
        case None
        then have "\<forall>l. i < l \<and> l < length rs \<longrightarrow> \<not> used (rs ! l)"
          using last_used_None [OF None] "1.prems"(3) by (metis not_le)
        then show ?thesis using ik False None stop "1.prems"(1) by (subst (1 2 3) pack_down.simps) simp
      next
        case (Some j)
        note j = last_used_Some [OF Some]
        let ?rs = "rs[i := rs ! j, j := free_slot]"
        have c: "pack_down rs i k = pack_down ?rs (i + 1) (j - 1)" using ik False Some by (subst pack_down.simps) simp
        have "mset (filter used ?rs) = mset (filter used rs)" using j ik False "1.prems"(1) by (intro move_down_mset) auto
        moreover have "\<forall>l < i + 1. l < length ?rs \<longrightarrow> used (?rs ! l)" using j ik "1.prems"(1,2) by (auto simp: nth_list_update less_Suc_eq)
        moreover have "\<forall>l. j - 1 < l \<and> l < length ?rs \<longrightarrow> \<not> used (?rs ! l)"
        proof (intro allI impI)
          fix l assume l: "j - 1 < l \<and> l < length ?rs"
          then have "l = j \<or> j < l" using j by auto
          then show "\<not> used (?rs ! l)" using j l "1.prems"(3) ik by (auto simp: nth_list_update free_slot_def) (metis not_le)
        qed
        moreover have "j - 1 < length ?rs" "i + 1 \<le> j - 1 + 1" using j "1.prems"(1) by auto
        ultimately show ?thesis unfolding c using "1.IH"(2) [OF ik _ Some] False by (simp del: One_nat_def)
      qed
    qed
  qed
qed

text \<open>The comparison is an order on ranges that start below 2 GB.\<close>

lemma word_eq_of_take_bit: "(ucast (word_of_int k :: u64) :: u32) = word_of_int k"
  by transfer simp

lemma diff_in_range: "0 \<le> a \<Longrightarrow> a < 2 ^ 31 \<Longrightarrow> 0 \<le> b \<Longrightarrow> b < 2 ^ 31 \<Longrightarrow> - (2 ^ 31) \<le> a - b \<and> a - b < (2 ^ 31 :: int)"
  by simp

lemma cmp_range_small:
  assumes "r_start x < 2 ^ 31" "r_start y < 2 ^ 31"
  shows "cmp_range x y = uint (r_start x) - uint (r_start y)"
proof -
  have u: "uint (r_start x) < 2 ^ 31" "uint (r_start y) < 2 ^ 31" using assms by (simp_all add: word_less_def)
  have w: "r_start x - r_start y = word_of_int (uint (r_start x) - uint (r_start y))" by simp
  have "(ucast (r_start x - r_start y) :: u32) = word_of_int (uint (r_start x) - uint (r_start y))"
    unfolding w by (rule word_eq_of_take_bit)
  then have "cmp_range x y = signed_take_bit 31 (uint (r_start x) - uint (r_start y))"
    unfolding cmp_range_def by (simp only: sint_sbintrunc') simp
  then show ?thesis using diff_in_range [OF uint_ge_0 u(1) uint_ge_0 u(2)] by (simp only: signed_take_bit_int_eq_self)
qed

interpretation range_order: cmp_order "{r. r_start r < 2 ^ 31}" cmp_range
  by unfold_locales (auto simp: cmp_range_small)

lemma perm_upto_full:
  assumes "perm_upto n rs rs'" "n \<le> length rs"
  shows "mset rs' = mset rs"
proof -
  have "mset (take n rs' @ drop n rs') = mset (take n rs @ drop n rs)" using assms(1) by (simp add: perm_upto_def del: append_take_drop_id)
  then show ?thesis by simp
qed

lemma covers_used: "covers rs = {x. \<exists>r \<in># mset (filter used rs). in_range r x}"
  using free_covers_nothing by (auto simp: covers_def)

lemma packed_take: "packed rs n \<Longrightarrow> filter used rs = take n rs"
proof -
  assume p: "packed rs n"
  have "\<forall>r \<in> set (take n rs). used r" "\<forall>r \<in> set (drop n rs). \<not> used r"
    using p by (auto simp: packed_def in_set_conv_nth)
  then have "filter used (take n rs @ drop n rs) = take n rs" unfolding filter_append by (simp add: filter_empty_conv)
  then show ?thesis by simp
qed

text \<open>Cleaning and sorting: the entries in use end up at the front of the array, none lost and none added, so that the
  same addresses are covered; the count returned is their number and everything behind is free. If all of them start below
  2 GB, where the comparison does not overflow, they are in ascending order of their start.\<close>

theorem clean_sort_range_sorts:
  assumes "clean_sort_range rs = (nr, rs')"
  shows "length rs' = length rs \<and> packed rs' nr \<and> mset (take nr rs') = mset (filter used rs) \<and> covers rs' = covers rs
    \<and> ((\<forall>r \<in> set rs. used r \<longrightarrow> r_start r < 2 ^ 31) \<longrightarrow> sorted (map r_start (take nr rs')))"
proof (cases "rs = []")
  case True
  then show ?thesis using assms by (simp add: clean_sort_range_def pack_down.simps sort_array_def packed_def)
next
  case False
  let ?p = "pack_down rs 0 (length rs - 1)"
  obtain n where n: "packed ?p n" and m: "length ?p = length rs" "mset (filter used ?p) = mset (filter used rs)"
  proof -
    have "length rs - 1 < length rs" "\<forall>l. length rs - 1 < l \<and> l < length rs \<longrightarrow> \<not> used (rs ! l)" using False by auto
    from pack_down_packed [OF this(1) _ this(2), of 0] that show thesis by auto
  qed
  have nr: "nr = n" "rs' = sort_array cmp_range ?p n" using assms unfolding clean_sort_range_def Let_def find_free_packed [OF n] by auto
  have le: "n \<le> length ?p" using n by (simp add: packed_def)
  have perm: "perm_upto n ?p rs'" unfolding nr(2) by (rule sort_array_perm [OF le])
  have "packed rs' n"
    using n perm perm_upto_above [OF perm] perm_upto_elem [OF perm le] by (auto simp: packed_def perm_upto_def) metis
  moreover have t: "mset (take n rs') = mset (filter used rs)" using perm m(2) unfolding packed_take [OF n] perm_upto_def by simp
  moreover have "covers rs' = covers rs" using t packed_take [OF calculation(1)] unfolding covers_used by simp
  moreover have "sorted (map r_start (take n rs'))" if small: "\<forall>r \<in> set rs. used r \<longrightarrow> r_start r < 2 ^ 31"
  proof -
    have "set (take n ?p) = set (filter used rs)" using m(2) unfolding packed_take [OF n] by (metis set_mset_mset)
    then have A: "set (take n ?p) \<subseteq> {r. r_start r < 2 ^ 31}" using small by auto
    have A': "r_start r < 2 ^ 31" if "r \<in> set (take n rs')" for r using that A perm_upto_set [OF perm] by auto
    have s: "sorted_wrt (\<lambda>x y. cmp_range y x \<ge> 0) (take n rs')" unfolding nr(2) by (rule range_order.sort_sorted(1) [OF A le])
    show ?thesis unfolding sorted_map
      by (rule sorted_wrt_mono_rel [OF _ s]) (use A' cmp_range_small in \<open>simp add: word_le_def\<close>)
  qed
  ultimately show ?thesis using perm m(1) nr(1) by (auto simp: perm_upto_def)
qed

theorem clean_sort_range_sorts_witness:
  "\<exists>nr rs'. clean_sort_range [\<lparr>r_start = 30, r_end = 40\<rparr>, free_slot, \<lparr>r_start = 10, r_end = 20\<rparr>] = (nr, rs')
    \<and> mset (take nr rs') = {#\<lparr>r_start = 30, r_end = 40\<rparr>, \<lparr>r_start = 10, r_end = 20\<rparr>#} \<and> sorted (map r_start (take nr rs'))"
proof -
  let ?rs = "[\<lparr>r_start = 30, r_end = 40\<rparr>, free_slot, \<lparr>r_start = 10, r_end = 20\<rparr>]"
  obtain nr rs' where r: "clean_sort_range ?rs = (nr, rs')" by fastforce
  from clean_sort_range_sorts [OF r] r show ?thesis by (auto simp: free_slot_def)
qed

end
