(* ===== verification/Resource.thy ===== *)
theory Resource
  imports KPrelude
begin

text \<open>
  The tree of address ranges (\<^verbatim>\<open>kernel/resource.c\<close>): I/O ports and memory are handed out as resources, which are linked through
  their \<open>parent\<close>, \<open>sibling\<close> and \<open>child\<close> pointers. Resources live in a heap of records and a pointer is the number of a
  record or \<open>None\<close> for NULL; reading a resource that is not allocated is a fault, the value \<open>None\<close>, and so is a loop that never
  ends. Addresses are 32-bit words and wrap. The theorems say which forest the pointers form, and that
  requesting, releasing, inserting, adjusting and allocating keep the ranges of siblings in order, disjoint
  and inside their parent.
\<close>

record resource =
  rs_start :: u32
  rs_end :: u32
  rs_name :: string
  rs_flags :: u32
  rs_parent :: "nat option"
  rs_sibling :: "nat option"
  rs_child :: "nat option"

type_synonym rheap = "nat \<Rightarrow> resource option"

abbreviation IORESOURCE_BUSY :: u32 where "IORESOURCE_BUSY \<equiv> 0x80000000"
abbreviation IORESOURCE_MUXED :: u32 where "IORESOURCE_MUXED \<equiv> 0x00400000"

text \<open>Writing a field, and the pointers to pointers that the list operations walk with.\<close>

definition upd :: "rheap \<Rightarrow> nat \<Rightarrow> (resource \<Rightarrow> resource) \<Rightarrow> rheap option" where
  "upd h x f = (case h x of None \<Rightarrow> None | Some r \<Rightarrow> Some (h(x \<mapsto> f r)))"

datatype link = ChildOf nat | SiblingOf nat

definition ld_link :: "rheap \<Rightarrow> link \<Rightarrow> nat option option" where
  "ld_link h p = (case p of ChildOf x \<Rightarrow> map_option rs_child (h x) | SiblingOf x \<Rightarrow> map_option rs_sibling (h x))"

definition st_link :: "rheap \<Rightarrow> link \<Rightarrow> nat option \<Rightarrow> rheap option" where
  "st_link h p v = (case p of ChildOf x \<Rightarrow> upd h x (\<lambda>r. r\<lparr>rs_child := v\<rparr>) | SiblingOf x \<Rightarrow> upd h x (\<lambda>r. r\<lparr>rs_sibling := v\<rparr>))"

subsection \<open>Requesting and releasing\<close>

definition link_in :: "rheap \<Rightarrow> nat \<Rightarrow> nat \<Rightarrow> link \<Rightarrow> nat option \<Rightarrow> (nat option \<times> rheap) option" where
  "link_in h root new p tmp = do {
     h \<leftarrow> upd h new (\<lambda>r. r\<lparr>rs_sibling := tmp\<rparr>);
     h \<leftarrow> st_link h p (Some new);
     h \<leftarrow> upd h new (\<lambda>r. r\<lparr>rs_parent := Some root\<rparr>);
     Some (None, h) }"

partial_function (option) request_loop :: "rheap \<Rightarrow> nat \<Rightarrow> nat \<Rightarrow> u32 \<Rightarrow> u32 \<Rightarrow> link \<Rightarrow> (nat option \<times> rheap) option" where
  "request_loop h root new start fin p = Option.bind (ld_link h p) (\<lambda>tmp.
     case tmp of None \<Rightarrow> link_in h root new p tmp
     | Some t \<Rightarrow> Option.bind (h t) (\<lambda>r.
         if rs_start r > fin then link_in h root new p tmp
         else if rs_end r < start then request_loop h root new start fin (SiblingOf t)
         else Some (Some t, h)))"

declare request_loop.simps [code]

text \<open>The result is the resource in conflict, or NULL for success.\<close>

definition raw_request_resource :: "rheap \<Rightarrow> nat \<Rightarrow> nat \<Rightarrow> (nat option \<times> rheap) option" where
  "raw_request_resource h root new = do {
     n \<leftarrow> h new;
     let start = rs_start n;
     let fin = rs_end n;
     r \<leftarrow> h root;
     if fin < start then Some (Some root, h)
     else if start < rs_start r then Some (Some root, h)
     else if fin > rs_end r then Some (Some root, h)
     else request_loop h root new start fin (ChildOf root) }"

definition request_resource :: "rheap \<Rightarrow> nat \<Rightarrow> nat \<Rightarrow> (int \<times> rheap) option" where
  "request_resource h root new = do {
     (conflict, h) \<leftarrow> raw_request_resource h root new;
     Some (if conflict \<noteq> None then - EBUSY else 0, h) }"

partial_function (option) release_loop :: "rheap \<Rightarrow> nat \<Rightarrow> link \<Rightarrow> (int \<times> rheap) option" where
  "release_loop h old p = Option.bind (ld_link h p) (\<lambda>tmp.
     case tmp of None \<Rightarrow> Some (- EINVAL, h)
     | Some t \<Rightarrow> Option.bind (h t) (\<lambda>r.
         if t = old then
           Option.bind (st_link h p (rs_sibling r)) (\<lambda>h. map_option (\<lambda>h. (0, h)) (upd h old (\<lambda>r. r\<lparr>rs_parent := None\<rparr>)))
         else release_loop h old (SiblingOf t)))"

declare release_loop.simps [code]

definition release_resource :: "rheap \<Rightarrow> nat \<Rightarrow> (int \<times> rheap) option" where
  "release_resource h old = do {
     r \<leftarrow> h old;
     p \<leftarrow> rs_parent r;
     release_loop h old (ChildOf p) }"

subsection \<open>Inserting\<close>

text \<open>The first loop looks for the parent, going down into resources that contain the new one. It ends with the new
  resource requested, with a conflict, or with the first of the resources that the new one is to take over.\<close>

datatype descent = Requested | Conflict nat | TakeOver nat nat

partial_function (option) insert_descend :: "rheap \<Rightarrow> nat \<Rightarrow> nat \<Rightarrow> (descent \<times> rheap) option" where
  "insert_descend h parent new = Option.bind (raw_request_resource h parent new) (\<lambda>(first, h).
     case first of None \<Rightarrow> Some (Requested, h)
     | Some first \<Rightarrow>
         if first = parent then Some (Conflict first, h)
         else if first = new then Some (Conflict first, h)
         else Option.bind (h first) (\<lambda>f. Option.bind (h new) (\<lambda>n.
           if rs_start f > rs_start n \<or> rs_end f < rs_end n then Some (TakeOver parent first, h)
           else if rs_start f = rs_start n \<and> rs_end f = rs_end n then Some (TakeOver parent first, h)
           else insert_descend h first new)))"

declare insert_descend.simps [code]

text \<open>The second loop finds the last resource to take over, or one that overlaps only partly (\<open>Inl\<close>).\<close>

partial_function (option) insert_span :: "rheap \<Rightarrow> nat \<Rightarrow> nat \<Rightarrow> (nat + nat) option" where
  "insert_span h new next = Option.bind (h next) (\<lambda>x. Option.bind (h new) (\<lambda>n.
     if rs_start x < rs_start n \<or> rs_end x > rs_end n then Some (Inl next)
     else case rs_sibling x of None \<Rightarrow> Some (Inr next)
       | Some s \<Rightarrow> Option.bind (h s) (\<lambda>y. if rs_start y > rs_end n then Some (Inr next) else insert_span h new s)))"

declare insert_span.simps [code]

partial_function (option) reparent_loop :: "rheap \<Rightarrow> nat \<Rightarrow> nat option \<Rightarrow> rheap option" where
  "reparent_loop h new next =
     (case next of None \<Rightarrow> Some h
      | Some x \<Rightarrow> Option.bind (h x) (\<lambda>r. reparent_loop (h(x \<mapsto> r\<lparr>rs_parent := Some new\<rparr>)) new (rs_sibling r)))"

declare reparent_loop.simps [code]

partial_function (option) find_prev :: "rheap \<Rightarrow> nat option \<Rightarrow> nat \<Rightarrow> nat option" where
  "find_prev h next first =
     (case next of None \<Rightarrow> None
      | Some x \<Rightarrow> Option.bind (h x) (\<lambda>r. if rs_sibling r = Some first then Some x else find_prev h (rs_sibling r) first))"

declare find_prev.simps [code]

definition take_over :: "rheap \<Rightarrow> nat \<Rightarrow> nat \<Rightarrow> nat \<Rightarrow> nat \<Rightarrow> rheap option" where
  "take_over h parent new first next = do {
     x \<leftarrow> h next;
     h \<leftarrow> upd h new (\<lambda>r. r\<lparr>rs_parent := Some parent\<rparr>);
     h \<leftarrow> upd h new (\<lambda>r. r\<lparr>rs_sibling := rs_sibling x\<rparr>);
     h \<leftarrow> upd h new (\<lambda>r. r\<lparr>rs_child := Some first\<rparr>);
     h \<leftarrow> upd h next (\<lambda>r. r\<lparr>rs_sibling := None\<rparr>);
     h \<leftarrow> reparent_loop h new (Some first);
     p \<leftarrow> h parent;
     if rs_child p = Some first then upd h parent (\<lambda>r. r\<lparr>rs_child := Some new\<rparr>)
     else do {
       prev \<leftarrow> find_prev h (rs_child p) first;
       upd h prev (\<lambda>r. r\<lparr>rs_sibling := Some new\<rparr>) } }"

definition raw_insert_resource :: "rheap \<Rightarrow> nat \<Rightarrow> nat \<Rightarrow> (nat option \<times> rheap) option" where
  "raw_insert_resource h parent new = do {
     (d, h) \<leftarrow> insert_descend h parent new;
     case d of Requested \<Rightarrow> Some (None, h)
     | Conflict c \<Rightarrow> Some (Some c, h)
     | TakeOver parent first \<Rightarrow> do {
         s \<leftarrow> insert_span h new first;
         case s of Inl c \<Rightarrow> Some (Some c, h)
         | Inr next \<Rightarrow> map_option (\<lambda>h. (None, h)) (take_over h parent new first next) } }"

definition insert_resource :: "rheap \<Rightarrow> nat \<Rightarrow> nat \<Rightarrow> (int \<times> rheap) option" where
  "insert_resource h parent new = do {
     (conflict, h) \<leftarrow> raw_insert_resource h parent new;
     Some (if conflict \<noteq> None then - EBUSY else 0, h) }"

partial_function (option) expand_loop :: "rheap \<Rightarrow> nat \<Rightarrow> nat \<Rightarrow> rheap option" where
  "expand_loop h root new = Option.bind (raw_insert_resource h root new) (\<lambda>(conflict, h).
     case conflict of None \<Rightarrow> Some h
     | Some c \<Rightarrow> if c = root then Some h
         else Option.bind (h c) (\<lambda>x. Option.bind (h new) (\<lambda>n.
           let n = (if rs_start x < rs_start n then n\<lparr>rs_start := rs_start x\<rparr> else n);
               n = (if rs_end x > rs_end n then n\<lparr>rs_end := rs_end x\<rparr> else n) in
           expand_loop (h(new \<mapsto> n)) root new)))"

declare expand_loop.simps [code]

definition insert_resource_expand_to_fit :: "rheap \<Rightarrow> nat \<Rightarrow> nat \<Rightarrow> rheap option" where
  "insert_resource_expand_to_fit h root new = do {
     n \<leftarrow> h new;
     if rs_parent n \<noteq> None then Some h else expand_loop h root new }"

subsection \<open>Adjusting\<close>

partial_function (option) kids_fit :: "rheap \<Rightarrow> nat option \<Rightarrow> u32 \<Rightarrow> u32 \<Rightarrow> bool option" where
  "kids_fit h tmp start fin =
     (case tmp of None \<Rightarrow> Some True
      | Some t \<Rightarrow> Option.bind (h t) (\<lambda>r.
          if rs_start r < start \<or> rs_end r > fin then Some False else kids_fit h (rs_sibling r) start fin))"

declare kids_fit.simps [code]

definition adjust_resource :: "rheap \<Rightarrow> nat \<Rightarrow> u32 \<Rightarrow> u32 \<Rightarrow> (int \<times> rheap) option" where
  "adjust_resource h res start sz = do {
     r \<leftarrow> h res;
     parent \<leftarrow> rs_parent r;
     let fin = start + sz - 1;
     p \<leftarrow> h parent;
     if start < rs_start p \<or> fin > rs_end p then Some (- EBUSY, h)
     else do {
       fit \<leftarrow> kids_fit h (rs_child r) start fin;
       if \<not> fit then Some (- EBUSY, h)
       else do {
         next_ok \<leftarrow> (case rs_sibling r of None \<Rightarrow> Some True | Some s \<Rightarrow> map_option (\<lambda>y. \<not> rs_start y \<le> fin) (h s));
         if \<not> next_ok then Some (- EBUSY, h)
         else do {
           prev_ok \<leftarrow> (if rs_child p \<noteq> Some res then do {
               prev \<leftarrow> find_prev h (rs_child p) res;
               y \<leftarrow> h prev;
               Some (\<not> start \<le> rs_end y) }
             else Some True);
           if \<not> prev_ok then Some (- EBUSY, h)
           else map_option (\<lambda>h. (0, h)) (upd h res (\<lambda>r. r\<lparr>rs_start := start, rs_end := fin\<rparr>)) } } } }"

subsection \<open>Allocating\<close>

definition resource_size :: "resource \<Rightarrow> u32" where
  "resource_size res = rs_end res - rs_start res + 1"

definition resource_contains :: "u32 \<times> u32 \<Rightarrow> u32 \<times> u32 \<Rightarrow> bool" where
  "resource_contains res1 res2 \<longleftrightarrow> fst res1 \<le> fst res2 \<and> snd res1 \<ge> snd res2"

definition resource_clip :: "u32 \<times> u32 \<Rightarrow> u32 \<Rightarrow> u32 \<Rightarrow> u32 \<times> u32" where
  "resource_clip res lo hi =
     (if fst res < lo then lo else fst res, if snd res > hi then hi else snd res)"

definition align_up :: "u32 \<Rightarrow> u32 \<Rightarrow> u32" where
  "align_up x a = (x + (a - 1)) AND NOT (a - 1)"

text \<open>The range of a resource is a pair of addresses here: \<open>alignf\<close>, the caller's alignment function or the default, sees the free
  range. \<open>arch_remove_reservations\<close> does nothing on the target.\<close>

definition simple_align_resource :: "u32 \<times> u32 \<Rightarrow> u32 \<Rightarrow> u32 \<Rightarrow> u32" where
  "simple_align_resource avail sz align = fst avail"

definition try_gap :: "u32 \<Rightarrow> u32 \<Rightarrow> u32 \<Rightarrow> u32 \<Rightarrow> u32 \<Rightarrow> u32 \<Rightarrow> (u32 \<times> u32 \<Rightarrow> u32 \<Rightarrow> u32 \<Rightarrow> u32) \<Rightarrow> (u32 \<times> u32) option" where
  "try_gap tstart tend sz lo hi align alignf =
     (let tmp = resource_clip (tstart, tend) lo hi;
          avail = (align_up (fst tmp) align, snd tmp);
          start = alignf avail sz align;
          alloc = (start, start + sz - 1) in
      if fst avail \<ge> fst tmp \<and> resource_contains avail alloc then Some alloc else None)"

partial_function (option) find_loop_resource ::
  "rheap \<Rightarrow> u32 \<Rightarrow> u32 \<Rightarrow> u32 \<Rightarrow> u32 \<Rightarrow> u32 \<Rightarrow> (u32 \<times> u32 \<Rightarrow> u32 \<Rightarrow> u32 \<Rightarrow> u32) \<Rightarrow> nat option \<Rightarrow> u32 \<Rightarrow> (u32 \<times> u32) option option" where
  "find_loop_resource h rend sz lo hi align alignf this tstart =
     Option.bind (case this of None \<Rightarrow> Some rend | Some t \<Rightarrow> map_option (\<lambda>r. rs_start r - 1) (h t)) (\<lambda>tend.
       case try_gap tstart tend sz lo hi align alignf of Some alloc \<Rightarrow> Some (Some alloc)
       | None \<Rightarrow> (case this of None \<Rightarrow> Some None
         | Some t \<Rightarrow> Option.bind (h t) (\<lambda>r. find_loop_resource h rend sz lo hi align alignf (rs_sibling r) (rs_end r + 1))))"

declare find_loop_resource.simps [code]

definition find_resource ::
  "rheap \<Rightarrow> nat \<Rightarrow> u32 \<Rightarrow> u32 \<Rightarrow> u32 \<Rightarrow> u32 \<Rightarrow> (u32 \<times> u32 \<Rightarrow> u32 \<Rightarrow> u32 \<Rightarrow> u32) \<Rightarrow> (u32 \<times> u32) option option" where
  "find_resource h root sz lo hi align alignf = do {
     r \<leftarrow> h root;
     case rs_child r of None \<Rightarrow> find_loop_resource h (rs_end r) sz lo hi align alignf None (rs_start r)
     | Some this \<Rightarrow> do {
         t \<leftarrow> h this;
         if rs_start t = 0 then find_loop_resource h (rs_end r) sz lo hi align alignf (rs_sibling t) (rs_end t + 1)
         else find_loop_resource h (rs_end r) sz lo hi align alignf (Some this) (rs_start r) } }"

definition allocate_resource ::
  "rheap \<Rightarrow> nat \<Rightarrow> nat \<Rightarrow> u32 \<Rightarrow> u32 \<Rightarrow> u32 \<Rightarrow> u32 \<Rightarrow> (u32 \<times> u32 \<Rightarrow> u32 \<Rightarrow> u32 \<Rightarrow> u32) option \<Rightarrow> (int \<times> rheap) option" where
  "allocate_resource h root new sz lo hi align alignf = do {
     let alignf = (case alignf of None \<Rightarrow> simple_align_resource | Some f \<Rightarrow> f);
     found \<leftarrow> find_resource h root sz lo hi align alignf;
     case found of None \<Rightarrow> Some (- EBUSY, h)
     | Some alloc \<Rightarrow> do {
         h \<leftarrow> upd h new (\<lambda>r. r\<lparr>rs_start := fst alloc, rs_end := snd alloc\<rparr>);
         (conflict, h) \<leftarrow> raw_request_resource h root new;
         Some (if conflict \<noteq> None then - EBUSY else 0, h) } }"

subsection \<open>Reserving what is left of a range\<close>

text \<open>\<open>kz\<close> stands for \<open>kzalloc\<close>: the address of a new resource, or NULL.\<close>

partial_function (option) reserve_region_with_split ::
  "(rheap \<Rightarrow> nat option) \<Rightarrow> rheap \<Rightarrow> nat \<Rightarrow> u32 \<Rightarrow> u32 \<Rightarrow> string \<Rightarrow> rheap option" where
  "reserve_region_with_split kz h root start fin name =
     (case kz h of None \<Rightarrow> Some h
      | Some res \<Rightarrow>
          let h = h(res \<mapsto> \<lparr>rs_start = start, rs_end = fin, rs_name = name, rs_flags = IORESOURCE_BUSY,
                          rs_parent = None, rs_sibling = None, rs_child = None\<rparr>) in
          Option.bind (raw_request_resource h root res) (\<lambda>(conflict, h).
            case conflict of None \<Rightarrow> Some h
            | Some c \<Rightarrow>
                let h = h(res := None) in
                Option.bind (h c) (\<lambda>x.
                  if rs_start x \<le> start \<and> rs_end x \<ge> fin then Some h
                  else Option.bind (if rs_start x > start then reserve_region_with_split kz h root start (rs_start x - 1) name else Some h) (\<lambda>h.
                    Option.bind (h c) (\<lambda>x.
                      if rs_end x < fin then reserve_region_with_split kz h root (rs_end x + 1) fin name else Some h)))))"

declare reserve_region_with_split.simps [code]

subsection \<open>Regions\<close>

text \<open>Requesting a region may find a multiplexed region in use: the caller then sleeps and goes on with the same parent
  when it is woken, which is \<open>Sleep\<close> here.\<close>

datatype region_result = Region nat | Busy | Sleep nat

partial_function (option) region_loop :: "rheap \<Rightarrow> nat \<Rightarrow> nat \<Rightarrow> u32 \<Rightarrow> (region_result \<times> rheap) option" where
  "region_loop h parent res flags = Option.bind (raw_request_resource h parent res) (\<lambda>(conflict, h).
     case conflict of None \<Rightarrow> Some (Region res, h)
     | Some c \<Rightarrow> Option.bind (h c) (\<lambda>x.
         if c \<noteq> parent \<and> rs_flags x AND IORESOURCE_BUSY = 0 then region_loop h c res flags
         else if rs_flags x AND flags AND IORESOURCE_MUXED \<noteq> 0 then Some (Sleep c, h)
         else Some (Busy, h(res := None))))"

declare region_loop.simps [code]

definition request_region :: "rheap \<Rightarrow> nat option \<Rightarrow> nat \<Rightarrow> u32 \<Rightarrow> u32 \<Rightarrow> string \<Rightarrow> u32 \<Rightarrow> (region_result \<times> rheap) option" where
  "request_region h fresh parent start n name flags =
     (case fresh of None \<Rightarrow> Some (Busy, h)
      | Some res \<Rightarrow> region_loop (h(res \<mapsto> \<lparr>rs_start = start, rs_end = start + n - 1, rs_name = name,
          rs_flags = IORESOURCE_BUSY OR flags, rs_parent = None, rs_sibling = None, rs_child = None\<rparr>)) parent res flags)"

text \<open>Releasing a region: \<open>None\<close> for a region that is not there, which only prints a warning.\<close>

partial_function (option) release_region_loop :: "rheap \<Rightarrow> u32 \<Rightarrow> u32 \<Rightarrow> link \<Rightarrow> (nat option \<times> rheap) option" where
  "release_region_loop h start fin p = Option.bind (ld_link h p) (\<lambda>res.
     case res of None \<Rightarrow> Some (None, h)
     | Some x \<Rightarrow> Option.bind (h x) (\<lambda>r.
         if rs_start r \<le> start \<and> rs_end r \<ge> fin then
           if rs_flags r AND IORESOURCE_BUSY = 0 then release_region_loop h start fin (ChildOf x)
           else if rs_start r \<noteq> start \<or> rs_end r \<noteq> fin then Some (None, h)
           else map_option (\<lambda>h. (Some x, h(x := None))) (st_link h p (rs_sibling r))
         else release_region_loop h start fin (SiblingOf x)))"

declare release_region_loop.simps [code]

definition release_region :: "rheap \<Rightarrow> nat \<Rightarrow> u32 \<Rightarrow> u32 \<Rightarrow> (nat option \<times> rheap) option" where
  "release_region h parent start n = release_region_loop h start (start + n - 1) (ChildOf parent)"

definition check_region :: "rheap \<Rightarrow> nat option \<Rightarrow> nat \<Rightarrow> u32 \<Rightarrow> u32 \<Rightarrow> (int \<times> rheap) option" where
  "check_region h fresh parent start n = do {
     (r, h) \<leftarrow> request_region h fresh parent start n ''check-region'' 0;
     case r of Region res \<Rightarrow> do {
         (_, h) \<leftarrow> release_resource h res;
         Some (0, h(res := None)) }
     | _ \<Rightarrow> Some (- EBUSY, h) }"

subsection \<open>The forest the pointers form\<close>

abbreviation lo :: "rheap \<Rightarrow> nat \<Rightarrow> u32" where "lo h x \<equiv> rs_start (the (h x))"
abbreviation hi :: "rheap \<Rightarrow> nat \<Rightarrow> u32" where "hi h x \<equiv> rs_end (the (h x))"
abbreviation par :: "rheap \<Rightarrow> nat \<Rightarrow> nat option" where "par h x \<equiv> rs_parent (the (h x))"
abbreviation sib :: "rheap \<Rightarrow> nat \<Rightarrow> nat option" where "sib h x \<equiv> rs_sibling (the (h x))"
abbreviation kid :: "rheap \<Rightarrow> nat \<Rightarrow> nat option" where "kid h x \<equiv> rs_child (the (h x))"

text \<open>The resources from a pointer along the siblings up to another pointer.\<close>

fun path :: "rheap \<Rightarrow> nat option \<Rightarrow> nat list \<Rightarrow> nat option \<Rightarrow> bool" where
  "path h p [] q = (p = q)"
| "path h p (x # xs) q = (p = Some x \<and> x \<in> dom h \<and> path h (sib h x) xs q)"

abbreviation chain :: "rheap \<Rightarrow> nat option \<Rightarrow> nat list \<Rightarrow> bool" where
  "chain h p xs \<equiv> path h p xs None"

lemma path_append [simp]: "path h p (xs @ ys) q \<longleftrightarrow> (\<exists>r. path h p xs r \<and> path h r ys q)"
  by (induction xs arbitrary: p) auto

lemma path_cong:
  "(\<And>x. x \<in> set xs \<Longrightarrow> (x \<in> dom h' \<longleftrightarrow> x \<in> dom h) \<and> sib h' x = sib h x) \<Longrightarrow> path h' p xs q = path h p xs q"
  by (induction xs arbitrary: p) auto

lemma path_upd [simp]: "x \<notin> set xs \<Longrightarrow> path (h(x := v)) p xs q = path h p xs q"
  by (rule path_cong) auto

lemma path_upd_same:
  "x \<in> dom h \<Longrightarrow> rs_sibling r = sib h x \<Longrightarrow> path (h(x \<mapsto> r)) p xs q = path h p xs q"
  by (rule path_cong) auto

lemma path_dom: "path h p xs q \<Longrightarrow> set xs \<subseteq> dom h"
  by (induction xs arbitrary: p) auto

lemma path_hd: "path h p xs q \<Longrightarrow> p = (case xs of [] \<Rightarrow> q | x # _ \<Rightarrow> Some x)"
  by (cases xs) auto

lemma chain_unique: "chain h p xs \<Longrightarrow> chain h p ys \<Longrightarrow> xs = ys"
proof (induction xs arbitrary: p ys)
  case Nil
  then show ?case by (cases ys) auto
next
  case (Cons x xs)
  then show ?case by (cases ys) auto
qed

lemma sorted_wrt_cong: "(\<And>y z. y \<in> set ys \<Longrightarrow> z \<in> set ys \<Longrightarrow> P y z = Q y z) \<Longrightarrow> sorted_wrt P ys = sorted_wrt Q ys"
  by (induction ys) auto

text \<open>
  A node of the forest: its range is not empty and its children, which are in order and disjoint, lie inside it and
  point back to it. The forest has a rank, so that going down ends.
\<close>

definition node_ok :: "rheap \<Rightarrow> nat set \<Rightarrow> (nat \<Rightarrow> nat list) \<Rightarrow> nat \<Rightarrow> bool" where
  "node_ok h N kids x \<longleftrightarrow> x \<in> dom h \<and> lo h x \<le> hi h x \<and> chain h (kid h x) (kids x) \<and> set (kids x) \<subseteq> N \<and>
     sorted_wrt (\<lambda>y z. hi h y < lo h z) (kids x) \<and>
     (\<forall>y \<in> set (kids x). lo h x \<le> lo h y \<and> hi h y \<le> hi h x \<and> par h y = Some x)"

definition ranked :: "nat set \<Rightarrow> (nat \<Rightarrow> nat list) \<Rightarrow> bool" where
  "ranked N kids \<longleftrightarrow> (\<exists>rank :: nat \<Rightarrow> nat. \<forall>x \<in> N. \<forall>y \<in> set (kids x). rank y < rank x)"

definition tree_ok :: "rheap \<Rightarrow> nat set \<Rightarrow> (nat \<Rightarrow> nat list) \<Rightarrow> bool" where
  "tree_ok h N kids \<longleftrightarrow> (\<forall>x \<in> N. node_ok h N kids x) \<and> ranked N kids"

text \<open>Only links differ: the ranges, names and flags are the same.\<close>

definition same_ranges :: "rheap \<Rightarrow> rheap \<Rightarrow> bool" where
  "same_ranges h h' \<longleftrightarrow> dom h' = dom h \<and> (\<forall>x \<in> dom h. lo h' x = lo h x \<and> hi h' x = hi h x \<and>
     rs_name (the (h' x)) = rs_name (the (h x)) \<and> rs_flags (the (h' x)) = rs_flags (the (h x)))"

lemma same_ranges_refl [simp]: "same_ranges h h"
  by (simp add: same_ranges_def)

lemma same_ranges_trans: "same_ranges h h' \<Longrightarrow> same_ranges h' h'' \<Longrightarrow> same_ranges h h''"
  by (simp add: same_ranges_def)

lemma same_ranges_upd:
  "x \<in> dom h \<Longrightarrow> rs_start r = lo h x \<Longrightarrow> rs_end r = hi h x \<Longrightarrow> rs_name r = rs_name (the (h x)) \<Longrightarrow>
   rs_flags r = rs_flags (the (h x)) \<Longrightarrow> same_ranges h (h(x \<mapsto> r))"
  by (auto simp: same_ranges_def)

lemma tree_okD:
  assumes "tree_ok h N kids" "x \<in> N"
  shows "x \<in> dom h" "lo h x \<le> hi h x" "chain h (kid h x) (kids x)" "set (kids x) \<subseteq> N"
    "sorted_wrt (\<lambda>y z. hi h y < lo h z) (kids x)"
    "y \<in> set (kids x) \<Longrightarrow> lo h x \<le> lo h y \<and> hi h y \<le> hi h x \<and> par h y = Some x"
  using assms by (auto simp: tree_ok_def node_ok_def)

lemma kids_parent: "tree_ok h N kids \<Longrightarrow> x \<in> N \<Longrightarrow> x' \<in> N \<Longrightarrow> y \<in> set (kids x) \<Longrightarrow> y \<in> set (kids x') \<Longrightarrow> x = x'"
  using tree_okD(6) by (metis option.inject)

lemma not_own_kid: "tree_ok h N kids \<Longrightarrow> x \<in> N \<Longrightarrow> x \<notin> set (kids x)"
  by (auto simp: tree_ok_def ranked_def)

lemma kids_distinct:
  assumes "tree_ok h N kids" "x \<in> N"
  shows "distinct (kids x)"
proof -
  have "sorted_wrt (\<lambda>y z. hi h y < lo h z) ys \<Longrightarrow> \<forall>y \<in> set ys. lo h y \<le> hi h y \<Longrightarrow> distinct ys" for ys
    by (induction ys) (auto dest!: bspec leD)
  moreover have "\<forall>y \<in> set (kids x). lo h y \<le> hi h y" using tree_okD(2) [OF assms(1)] tree_okD(4) [OF assms] by blast
  ultimately show ?thesis using tree_okD(5) [OF assms] by blast
qed

subsection \<open>Splicing a resource in\<close>

text \<open>A new resource takes the place of some neighbouring children, possibly none, which become its own.\<close>

definition spliced :: "rheap \<Rightarrow> rheap \<Rightarrow> nat set \<Rightarrow> (nat \<Rightarrow> nat list) \<Rightarrow> nat \<Rightarrow> nat \<Rightarrow> nat list \<Rightarrow> nat list \<Rightarrow> nat list \<Rightarrow> bool" where
  "spliced h h' N kids p new as bs cs \<longleftrightarrow>
     same_ranges h h' \<and> kids p = as @ bs @ cs \<and>
     chain h' (kid h' p) (as @ new # cs) \<and> chain h' (kid h' new) bs \<and> par h' new = Some p \<and>
     (\<forall>x \<in> N. x \<noteq> p \<longrightarrow> kid h' x = kid h x) \<and> (\<forall>x \<in> N. x \<notin> set (kids p) \<longrightarrow> sib h' x = sib h x) \<and>
     (\<forall>x \<in> N. par h' x = (if x \<in> set bs then Some new else par h x))"

lemma sorted_same_ranges:
  assumes "same_ranges h h'" "set ys \<subseteq> dom h"
  shows "sorted_wrt (\<lambda>y z. hi h' y < lo h' z) ys = sorted_wrt (\<lambda>y z. hi h y < lo h z) ys"
  using assms(2)
proof (induction ys)
  case (Cons a ys)
  have "(\<forall>x \<in> set ys. hi h' a < lo h' x) = (\<forall>x \<in> set ys. hi h a < lo h x)"
  proof (intro ball_cong refl)
    fix x assume "x \<in> set ys"
    then have "x \<in> dom h" "a \<in> dom h" using Cons.prems by auto
    then show "(hi h' a < lo h' x) = (hi h a < lo h x)" using assms(1) by (simp only: same_ranges_def)
  qed
  then show ?case using Cons by simp
qed simp

lemma ranked_splice:
  assumes "ranked N kids" "p \<in> N" "new \<notin> N" "kids p = as @ bs @ cs" "\<And>x. x \<in> N \<Longrightarrow> set (kids x) \<subseteq> N"
  shows "ranked (insert new N) (kids(p := as @ new # cs, new := bs))"
proof -
  obtain rank :: "nat \<Rightarrow> nat" where r: "\<And>x y. x \<in> N \<Longrightarrow> y \<in> set (kids x) \<Longrightarrow> rank y < rank x"
    using assms(1) by (auto simp: ranked_def)
  let ?k = "kids(p := as @ new # cs, new := bs)"
  define rk where "rk z = (if z = new then 2 * rank p else 2 * rank z + 1)" for z
  have "rk y < rk x" if "x \<in> insert new N" "y \<in> set (?k x)" for x y
  proof (cases "x = new")
    case True
    then have y: "y \<in> set (kids p)" using that assms(3) by (simp add: assms(4))
    moreover have "y \<noteq> new" using assms(3) assms(5) [OF assms(2)] y by blast
    ultimately show ?thesis using True r [OF assms(2), of y] by (simp add: rk_def)
  next
    case x: False
    then have xN: "x \<in> N" using that by simp
    show ?thesis
    proof (cases "y = new")
      case True
      then have "x = p" using x that assms(3) assms(5) [OF xN] by (auto split: if_splits)
      then show ?thesis using True x by (simp add: rk_def)
    next
      case False
      then have "y \<in> set (kids x)" using that x by (auto simp: assms(4) split: if_splits)
      then show ?thesis using r [OF xN] False x by (simp add: rk_def)
    qed
  qed
  then show ?thesis unfolding ranked_def by blast
qed

lemma splice_ok:
  assumes t: "tree_ok h N kids" and p: "p \<in> N" and new: "new \<notin> N" "new \<in> dom h" "lo h new \<le> hi h new"
    and rng: "lo h p \<le> lo h new" "hi h new \<le> hi h p"
    and as: "\<And>a. a \<in> set as \<Longrightarrow> hi h a < lo h new" and cs: "\<And>c. c \<in> set cs \<Longrightarrow> hi h new < lo h c"
    and bs: "\<And>b. b \<in> set bs \<Longrightarrow> lo h new \<le> lo h b \<and> hi h b \<le> hi h new"
    and s: "spliced h h' N kids p new as bs cs"
  shows "tree_ok h' (insert new N) (kids(p := as @ new # cs, new := bs))" (is "tree_ok h' ?N ?k")
proof -
  have kp: "kids p = as @ bs @ cs" and sr: "same_ranges h h'"
    and ch: "chain h' (kid h' p) (as @ new # cs)" "chain h' (kid h' new) bs" and pn: "par h' new = Some p"
    and kd: "\<And>x. x \<in> N \<Longrightarrow> x \<noteq> p \<Longrightarrow> kid h' x = kid h x"
    and sb: "\<And>x. x \<in> N \<Longrightarrow> x \<notin> set (kids p) \<Longrightarrow> sib h' x = sib h x"
    and pr: "\<And>x. x \<in> N \<Longrightarrow> par h' x = (if x \<in> set bs then Some new else par h x)"
    using s by (auto simp: spliced_def)
  have d: "dom h' = dom h" and rg: "\<And>x. x \<in> dom h \<Longrightarrow> lo h' x = lo h x \<and> hi h' x = hi h x"
    using sr by (auto simp: same_ranges_def)
  have pnew: "p \<noteq> new" using p new by auto
  have inN: "set as \<subseteq> N" "set bs \<subseteq> N" "set cs \<subseteq> N" using tree_okD(4) [OF t p] kp by auto
  then have inD: "\<And>x. x \<in> N \<Longrightarrow> x \<in> dom h" using tree_okD(1) [OF t] by blast
  have srt: "sorted_wrt (\<lambda>y z. hi h y < lo h z) (as @ bs @ cs)" using tree_okD(5) [OF t p] kp by simp
  have dis: "distinct (as @ bs @ cs)" using kids_distinct [OF t p] kp by simp
  have cong: "sorted_wrt (\<lambda>y z. hi h' y < lo h' z) ys = sorted_wrt (\<lambda>y z. hi h y < lo h z) ys" if "set ys \<subseteq> dom h" for ys
    using sorted_same_ranges [OF sr that] .
  have "node_ok h' ?N ?k x" if x: "x \<in> ?N" for x
  proof (cases "x = new")
    case True
    have "set bs \<subseteq> dom h" using inN inD by blast
    moreover have "sorted_wrt (\<lambda>y z. hi h y < lo h z) bs" using srt by (simp add: sorted_wrt_append)
    ultimately have "sorted_wrt (\<lambda>y z. hi h' y < lo h' z) bs" using cong by simp
    then show ?thesis unfolding node_ok_def True using ch(2) new d rg bs inN inD pr by auto
  next
    case False
    with x have xN: "x \<in> N" by simp
    show ?thesis
    proof (cases "x = p")
      case True
      have "sorted_wrt (\<lambda>y z. hi h y < lo h z) (as @ new # cs)"
        using srt as cs by (auto simp: sorted_wrt_append)
      moreover have "set as \<union> {new} \<union> set cs \<subseteq> dom h" using inN inD new(2) by blast
      ultimately have "sorted_wrt (\<lambda>y z. hi h' y < lo h' z) (as @ new # cs)" by (subst cong) auto
      moreover have "lo h' p \<le> lo h' y \<and> hi h' y \<le> hi h' p \<and> par h' y = Some p" if y: "y \<in> set (as @ new # cs)" for y
      proof (cases "y = new")
        case False
        then have "y \<in> set (kids p)" "y \<notin> set bs" using y kp dis by auto
        then show ?thesis using tree_okD(6) [OF t p] pr [of y] rg inN inD p tree_okD(4) [OF t p] by auto
      qed (use rng new p rg inD pn in auto)
      ultimately show ?thesis unfolding node_ok_def True using ch(1) pnew inN inD p d rg tree_okD(2) [OF t p] by auto
    next
      case xp: False
      have nk: "y \<notin> set (kids p)" if "y \<in> set (kids x)" for y using kids_parent [OF t xN p that] xp by auto
      have sub: "set (kids x) \<subseteq> N" by (rule tree_okD(4) [OF t xN])
      have "path h' (kid h' x) (kids x) None = path h (kid h x) (kids x) None"
        unfolding kd [OF xN xp] by (rule path_cong) (use nk sub sb d in auto)
      then have "chain h' (kid h' x) (kids x)" using tree_okD(3) [OF t xN] by simp
      moreover have "\<forall>y \<in> set (kids x). lo h' x \<le> lo h' y \<and> hi h' y \<le> hi h' x \<and> par h' y = Some x"
        using tree_okD(6) [OF t xN] nk sub pr rg inD xN kp by auto
      moreover have "set (kids x) \<subseteq> dom h" using sub inD by blast
      then have "sorted_wrt (\<lambda>y z. hi h' y < lo h' z) (kids x)"
        using cong [of "kids x"] tree_okD(5) [OF t xN] by simp
      ultimately show ?thesis unfolding node_ok_def using False xp sub inD d rg xN tree_okD(2) [OF t xN] by auto
    qed
  qed
  moreover have "ranked ?N ?k"
    using t p new(1) kp tree_okD(4) [OF t] by (intro ranked_splice) (auto simp: tree_ok_def)
  ultimately show ?thesis by (simp add: tree_ok_def)
qed

subsection \<open>What a request does\<close>

fun owner :: "link \<Rightarrow> nat" where
  "owner (ChildOf x) = x"
| "owner (SiblingOf x) = x"

fun with_link :: "link \<Rightarrow> nat option \<Rightarrow> resource \<Rightarrow> resource" where
  "with_link (ChildOf x) v r = r\<lparr>rs_child := v\<rparr>"
| "with_link (SiblingOf x) v r = r\<lparr>rs_sibling := v\<rparr>"

fun end_link :: "link \<Rightarrow> nat list \<Rightarrow> link" where
  "end_link p [] = p"
| "end_link p (x # xs) = end_link (SiblingOf x) xs"

lemma end_link_snoc [simp]: "end_link p (xs @ [x]) = SiblingOf x"
  by (induction xs arbitrary: p) auto

lemma st_link_eq: "owner p \<in> dom h \<Longrightarrow> st_link h p v = Some (h(owner p \<mapsto> with_link p v (the (h (owner p)))))"
  by (cases p) (auto simp: st_link_def upd_def)

lemma upd_eq: "x \<in> dom h \<Longrightarrow> upd h x f = Some (h(x \<mapsto> f (the (h x))))"
  by (auto simp: upd_def)

lemma link_in_eq:
  assumes "new \<in> dom h" "owner p \<in> dom h" "owner p \<noteq> new"
  shows "link_in h root new p tmp = Some (None, h(new \<mapsto> (the (h new))\<lparr>rs_sibling := tmp, rs_parent := Some root\<rparr>,
    owner p \<mapsto> with_link p (Some new) (the (h (owner p)))))"
  using assms unfolding link_in_def by (simp add: upd_eq st_link_eq fun_upd_twist)

lemma request_loop_eq:
  assumes "ld_link h p = Some q" "chain h q ys" "\<forall>y \<in> set ys. lo h y \<le> hi h y" "start \<le> fin"
  shows "request_loop h root new start fin p =
    (let as = takeWhile (\<lambda>y. hi h y < start) ys; bs = dropWhile (\<lambda>y. hi h y < start) ys in
     case bs of [] \<Rightarrow> link_in h root new (end_link p as) None
     | b # _ \<Rightarrow> if lo h b > fin then link_in h root new (end_link p as) (Some b) else Some (Some b, h))"
  using assms
proof (induction ys arbitrary: p q)
  case Nil
  then show ?case by (subst request_loop.simps) simp
next
  case (Cons y ys)
  then obtain r where r: "q = Some y" "h y = Some r" by auto
  show ?case
  proof (cases "hi h y < start")
    case True
    then have "\<not> lo h y > fin" using Cons.prems by (auto simp: not_less)
    then have "request_loop h root new start fin p = request_loop h root new start fin (SiblingOf y)"
      using True Cons.prems(1) r by (subst request_loop.simps) simp
    moreover have "ld_link h (SiblingOf y) = Some (sib h y)" using r by (simp add: ld_link_def)
    ultimately show ?thesis using True Cons.IH [of "SiblingOf y" "sib h y"] Cons.prems
      by (cases "dropWhile (\<lambda>y. hi h y < start) ys") (simp_all add: Let_def del: dropWhile_eq_Nil_conv)
  next
    case False
    then show ?thesis using Cons.prems(1) r by (subst request_loop.simps) simp
  qed
qed

text \<open>The children before and behind an address range, if none overlaps it.\<close>

definition overlaps :: "rheap \<Rightarrow> u32 \<Rightarrow> u32 \<Rightarrow> nat \<Rightarrow> bool" where
  "overlaps h start fin y \<longleftrightarrow> \<not> hi h y < start \<and> \<not> lo h y > fin"

lemma sorted_split:
  assumes "sorted_wrt (\<lambda>y z. hi h y < lo h z) ys" "\<forall>y \<in> set ys. lo h y \<le> hi h y" "start \<le> fin"
  shows "dropWhile (\<lambda>y. hi h y < start) ys = [] \<Longrightarrow> \<forall>y \<in> set ys. hi h y < start"
    and "dropWhile (\<lambda>y. hi h y < start) ys = b # bs \<Longrightarrow> lo h b > fin \<Longrightarrow> \<forall>y \<in> set (b # bs). fin < lo h y"
    and "dropWhile (\<lambda>y. hi h y < start) ys = b # bs \<Longrightarrow> \<not> lo h b > fin \<Longrightarrow> overlaps h start fin b"
proof -
  show "dropWhile (\<lambda>y. hi h y < start) ys = [] \<Longrightarrow> \<forall>y \<in> set ys. hi h y < start" by (simp add: dropWhile_eq_Nil_conv)
  assume d: "dropWhile (\<lambda>y. hi h y < start) ys = b # bs"
  then have s: "sorted_wrt (\<lambda>y z. hi h y < lo h z) (b # bs)" and mem: "b \<in> set ys"
    using assms(1) sorted_wrt_drop [of _ ys] by (metis dropWhile_eq_drop, metis list.set_intros(1) set_dropWhileD)
  { assume lb: "lo h b > fin"
    have "fin < lo h y" if "y \<in> set bs" for y
    proof -
      have "lo h b \<le> hi h b" using assms(2) mem by blast
      then show ?thesis using s that lb by auto
    qed
    with lb show "\<forall>y \<in> set (b # bs). fin < lo h y" by simp }
  assume "\<not> lo h b > fin"
  moreover have "\<not> hi h b < start" using d by (metis dropWhile_eq_Cons_conv)
  ultimately show "overlaps h start fin b" by (simp add: overlaps_def)
qed

lemma link_in_spliced:
  assumes t: "tree_ok h N kids" and root: "root \<in> N" and new: "new \<notin> N" "new \<in> dom h" "kid h new = None"
    and k: "kids root = as @ cs"
  shows "\<exists>h'. link_in h root new (end_link (ChildOf root) as) (case cs of [] \<Rightarrow> None | c # _ \<Rightarrow> Some c) = Some (None, h')
    \<and> spliced h h' N kids root new as [] cs"
proof -
  let ?tmp = "case cs of [] \<Rightarrow> None | c # _ \<Rightarrow> Some c"
  have ch: "chain h (kid h root) (as @ cs)" using tree_okD(3) [OF t root] k by simp
  have sub: "set as \<subseteq> N" "set cs \<subseteq> N" using tree_okD(4) [OF t root] k by auto
  have rd: "root \<in> dom h" by (rule tree_okD(1) [OF t root])
  have ro: "root \<notin> set as" "root \<notin> set cs" using not_own_kid [OF t root] k by auto
  have nn: "new \<notin> set as" "new \<notin> set cs" "new \<noteq> root" using sub new root by auto
  have dis: "distinct (as @ cs)" using kids_distinct [OF t root] k by simp
  show ?thesis
  proof (cases as rule: rev_cases)
    case Nil
    have tmp: "kid h root = ?tmp" using ch Nil path_hd [of h "kid h root" cs None] by simp
    let ?h = "h(new \<mapsto> (the (h new))\<lparr>rs_sibling := ?tmp, rs_parent := Some root\<rparr>, root \<mapsto> (the (h root))\<lparr>rs_child := Some new\<rparr>)"
    have "link_in h root new (ChildOf root) ?tmp = Some (None, ?h)"
      using link_in_eq [of new h "ChildOf root" root ?tmp] new rd nn by simp
    moreover have "same_ranges h ?h"
      by (rule same_ranges_trans [OF same_ranges_upd same_ranges_upd]) (use new rd nn in auto)
    moreover have "chain ?h (kid ?h root) (new # cs)" using ch Nil tmp nn ro by simp
    moreover have "chain ?h (kid ?h new) []" "par ?h new = Some root" using nn new(3) by simp_all
    ultimately show ?thesis using Nil new(1) root k nn unfolding spliced_def by auto
  next
    case (snoc as' a)
    have a: "a \<in> N" "a \<noteq> new" "a \<noteq> root" using sub new snoc ro by auto
    then have ad: "a \<in> dom h" using tree_okD(1) [OF t] by blast
    have p: "path h (kid h root) as' (Some a)" "chain h (sib h a) cs" using ch snoc by auto
    have tmp: "sib h a = ?tmp" using path_hd [OF p(2)] by simp
    let ?h = "h(new \<mapsto> (the (h new))\<lparr>rs_sibling := ?tmp, rs_parent := Some root\<rparr>, a \<mapsto> (the (h a))\<lparr>rs_sibling := Some new\<rparr>)"
    have "link_in h root new (end_link (ChildOf root) as) ?tmp = Some (None, ?h)"
      using link_in_eq [of new h "SiblingOf a" root ?tmp] new ad a snoc by simp
    moreover have "same_ranges h ?h"
      by (rule same_ranges_trans [OF same_ranges_upd same_ranges_upd]) (use new ad a in auto)
    moreover have "chain ?h (kid ?h root) (as @ new # cs)"
    proof -
      have "a \<notin> set as'" "a \<notin> set cs" using dis snoc by auto
      then have "path ?h (kid h root) as' (Some a)" "chain ?h ?tmp cs" using p tmp nn snoc by simp_all
      moreover have "kid ?h root = kid h root" using a nn by auto
      ultimately show ?thesis using snoc a by auto
    qed
    moreover have "chain ?h (kid ?h new) []" "par ?h new = Some root" using a new(3) by simp_all
    ultimately show ?thesis using new(1) k a snoc unfolding spliced_def by auto
  qed
qed

text \<open>A request: refused by the parent if the range does not lie in it, by the first child that overlaps it, or granted.\<close>

lemma raw_request_resource_spec:
  assumes t: "tree_ok h N kids" and root: "root \<in> N" and new: "new \<notin> N" "new \<in> dom h" "kid h new = None"
  shows "if hi h new < lo h new \<or> lo h new < lo h root \<or> hi h root < hi h new
    then raw_request_resource h root new = Some (Some root, h)
    else case find (overlaps h (lo h new) (hi h new)) (kids root) of
      Some c \<Rightarrow> raw_request_resource h root new = Some (Some c, h)
    | None \<Rightarrow> \<exists>h' as cs. raw_request_resource h root new = Some (None, h') \<and> kids root = as @ cs \<and>
        (\<forall>a \<in> set as. hi h a < lo h new) \<and> (\<forall>c \<in> set cs. hi h new < lo h c) \<and> spliced h h' N kids root new as [] cs"
proof -
  let ?s = "lo h new" and ?e = "hi h new" and ?P = "\<lambda>y. hi h y < lo h new"
  have rd: "root \<in> dom h" by (rule tree_okD(1) [OF t root])
  show ?thesis
  proof (cases "?e < ?s \<or> ?s < lo h root \<or> hi h root < ?e")
    case True
    then show ?thesis using new(2) rd by (auto simp: raw_request_resource_def Let_def)
  next
    case False
    then have se: "?s \<le> ?e" by (simp add: not_less)
    have srt: "sorted_wrt (\<lambda>y z. hi h y < lo h z) (kids root)" by (rule tree_okD(5) [OF t root])
    have ne: "\<forall>y \<in> set (kids root). lo h y \<le> hi h y" using tree_okD(2) [OF t] tree_okD(4) [OF t root] by blast
    have ch: "chain h (kid h root) (kids root)" by (rule tree_okD(3) [OF t root])
    have "raw_request_resource h root new = request_loop h root new ?s ?e (ChildOf root)"
      using False new(2) rd by (auto simp: raw_request_resource_def Let_def)
    moreover have "ld_link h (ChildOf root) = Some (kid h root)" using rd by (auto simp: ld_link_def)
    ultimately have eq: "raw_request_resource h root new =
      (let as = takeWhile ?P (kids root); bs = dropWhile ?P (kids root) in
       case bs of [] \<Rightarrow> link_in h root new (end_link (ChildOf root) as) None
       | b # _ \<Rightarrow> if lo h b > ?e then link_in h root new (end_link (ChildOf root) as) (Some b) else Some (Some b, h))"
      using request_loop_eq [OF _ ch ne se] by simp
    note split = sorted_split [OF srt ne se]
    have sp: "kids root = takeWhile ?P (kids root) @ dropWhile ?P (kids root)" by simp
    have as: "\<forall>a \<in> set (takeWhile ?P (kids root)). hi h a < ?s" by (auto dest: set_takeWhileD)
    have no: "find (overlaps h ?s ?e) (takeWhile ?P (kids root)) = None" using as by (simp add: find_None_iff overlaps_def)
    have fd: "find Q (xs @ ys) = (case find Q xs of None \<Rightarrow> find Q ys | Some c \<Rightarrow> Some c)" for Q :: "nat \<Rightarrow> bool" and xs ys
      by (induction xs) auto
    show ?thesis
    proof (cases "dropWhile ?P (kids root)")
      case Nil
      have "find (overlaps h ?s ?e) (kids root) = None" using split(1) [OF Nil] by (simp add: find_None_iff overlaps_def)
      moreover have tw: "takeWhile ?P (kids root) = kids root" using Nil sp by (metis append_Nil2)
      moreover obtain h' where "link_in h root new (end_link (ChildOf root) (kids root)) None = Some (None, h')"
        "spliced h h' N kids root new (kids root) [] []" using link_in_spliced [OF t root new, of "kids root" "[]"] by auto
      ultimately have "raw_request_resource h root new = Some (None, h') \<and> kids root = kids root @ [] \<and>
        (\<forall>a \<in> set (kids root). hi h a < ?s) \<and> (\<forall>c \<in> set []. ?e < lo h c) \<and> spliced h h' N kids root new (kids root) [] []"
        using eq as unfolding Let_def Nil tw by simp
      then show ?thesis using False \<open>find (overlaps h ?s ?e) (kids root) = None\<close> by (simp only: if_False option.case) blast
    next
      case (Cons b bs)
      show ?thesis
      proof (cases "lo h b > ?e")
        case True
        have "\<forall>c \<in> set (b # bs). ?e < lo h c" by (rule split(2) [OF Cons True])
        moreover from this have "find (overlaps h ?s ?e) (b # bs) = None" by (auto simp: find_None_iff overlaps_def)
        then have "find (overlaps h ?s ?e) (kids root) = None" using fd no Cons by (subst sp) simp
        moreover have kr: "kids root = takeWhile ?P (kids root) @ b # bs" using Cons sp by simp
        moreover obtain h' where "link_in h root new (end_link (ChildOf root) (takeWhile ?P (kids root))) (Some b) = Some (None, h')"
          "spliced h h' N kids root new (takeWhile ?P (kids root)) [] (b # bs)"
          using link_in_spliced [OF t root new kr] by auto
        moreover from this have "raw_request_resource h root new = Some (None, h')" using eq Cons True by (simp add: Let_def)
        ultimately show ?thesis using as False by (simp only: if_False option.case) blast
      next
        case lb: False
        then have "find (overlaps h ?s ?e) (kids root) = Some b"
          using fd no Cons split(3) [OF Cons lb] by (subst sp) simp
        then show ?thesis using eq Cons lb False by (simp add: Let_def)
      qed
    qed
  qed
qed

subsection \<open>What a release does\<close>

lemma release_loop_eq:
  assumes "ld_link h p = Some q" "chain h q ys"
  shows "release_loop h old p = (if old \<in> set ys
    then Option.bind (st_link h (end_link p (takeWhile (\<lambda>y. y \<noteq> old) ys)) (sib h old))
      (\<lambda>h. map_option (\<lambda>h. (0, h)) (upd h old (\<lambda>r. r\<lparr>rs_parent := None\<rparr>)))
    else Some (- EINVAL, h))"
  using assms
proof (induction ys arbitrary: p q)
  case Nil
  then show ?case by (subst release_loop.simps) simp
next
  case (Cons y ys)
  then obtain r where r: "q = Some y" "h y = Some r" by auto
  show ?case
  proof (cases "y = old")
    case True
    then show ?thesis using Cons.prems(1) r by (subst release_loop.simps) simp
  next
    case False
    have "release_loop h old p = release_loop h old (SiblingOf y)"
      using False Cons.prems(1) r by (subst release_loop.simps) simp
    moreover have "ld_link h (SiblingOf y) = Some (sib h y)" using r by (simp add: ld_link_def)
    ultimately show ?thesis using False Cons.IH [of "SiblingOf y" "sib h y"] Cons.prems by simp
  qed
qed

lemma ranked_mono: "ranked N kids \<Longrightarrow> (\<And>x. set (k x) \<subseteq> set (kids x)) \<Longrightarrow> ranked N k"
  unfolding ranked_def by blast

text \<open>A child and its subtree leave the list of siblings.\<close>

lemma unsplice_ok:
  assumes t: "tree_ok h N kids" and p: "p \<in> N" "kids p = as @ old # cs" and sr: "same_ranges h h'"
    and ch: "chain h' (kid h' p) (as @ cs)"
    and kd: "\<And>x. x \<in> N \<Longrightarrow> x \<noteq> p \<Longrightarrow> kid h' x = kid h x"
    and sb: "\<And>x. x \<in> N \<Longrightarrow> x \<notin> set (kids p) \<Longrightarrow> sib h' x = sib h x"
    and pr: "\<And>x. x \<in> N \<Longrightarrow> x \<noteq> old \<Longrightarrow> par h' x = par h x"
  shows "tree_ok h' N (kids(p := as @ cs))"
proof -
  let ?k = "kids(p := as @ cs)"
  have d: "dom h' = dom h" and rg: "\<And>x. x \<in> dom h \<Longrightarrow> lo h' x = lo h x \<and> hi h' x = hi h x"
    using sr by (auto simp: same_ranges_def)
  have inD: "\<And>x. x \<in> N \<Longrightarrow> x \<in> dom h" using tree_okD(1) [OF t] by blast
  have dis: "distinct (as @ old # cs)" using kids_distinct [OF t p(1)] p(2) by simp
  have k: "set (?k x) \<subseteq> set (kids x)" for x using p(2) by (cases "x = p") auto
  have ko: "old \<notin> set (?k x)" if "x \<in> N" for x
  proof (cases "x = p")
    case False
    have "old \<in> set (kids p)" using p(2) by simp
    with False kids_parent [OF t that p(1), of old] have "old \<notin> set (kids x)" by blast
    with False show ?thesis by simp
  qed (use dis in simp)
  have "node_ok h' N ?k x" if x: "x \<in> N" for x
  proof -
    have sub: "set (kids x) \<subseteq> N" by (rule tree_okD(4) [OF t x])
    have "chain h' (kid h' x) (?k x)"
    proof (cases "x = p")
      case xp: False
      have nk: "y \<notin> set (kids p)" if "y \<in> set (kids x)" for y using kids_parent [OF t x p(1) that] xp by auto
      have "path h' (kid h' x) (kids x) None = path h (kid h x) (kids x) None"
        unfolding kd [OF x xp] by (rule path_cong) (use nk sub sb d in auto)
      then show ?thesis using tree_okD(3) [OF t x] xp by simp
    qed (use ch in simp)
    moreover have "sorted_wrt (\<lambda>y z. hi h y < lo h z) (?k x)"
      using tree_okD(5) [OF t x] p(2) by (auto simp: sorted_wrt_append)
    then have "sorted_wrt (\<lambda>y z. hi h' y < lo h' z) (?k x)"
      using sorted_same_ranges [OF sr, of "?k x"] k [of x] sub inD by blast
    moreover have "lo h' x \<le> lo h' y \<and> hi h' y \<le> hi h' x \<and> par h' y = Some x" if y: "y \<in> set (?k x)" for y
    proof -
      have "y \<in> set (kids x)" "y \<noteq> old" using y k ko [OF x] by auto
      then show ?thesis using tree_okD(6) [OF t x] sub pr [of y] rg inD x by auto
    qed
    ultimately show ?thesis using k [of x] sub inD [OF x] rg [OF inD [OF x]] tree_okD(2) [OF t x] d unfolding node_ok_def by auto
  qed
  moreover have "ranked N ?k" using t k unfolding tree_ok_def by (blast intro: ranked_mono)
  ultimately show ?thesis by (simp add: tree_ok_def)
qed

lemma release_resource_spec:
  assumes t: "tree_ok h N kids" and p: "p \<in> N" "kids p = as @ old # cs"
  shows "\<exists>h'. release_resource h old = Some (0, h') \<and> same_ranges h h' \<and> par h' old = None \<and>
    (\<forall>x. x \<noteq> old \<longrightarrow> par h' x = par h x) \<and> kid h' old = kid h old \<and> tree_ok h' N (kids(p := as @ cs))"
proof -
  have o: "old \<in> set (kids p)" using p by simp
  then have oN: "old \<in> N" using tree_okD(4) [OF t p(1)] by blast
  have od: "old \<in> dom h" "p \<in> dom h" using tree_okD(1) [OF t] oN p by auto
  have op: "old \<noteq> p" using not_own_kid [OF t p(1)] o by auto
  have par: "par h old = Some p" using tree_okD(6) [OF t p(1) o] by simp
  have dis: "distinct (as @ old # cs)" using kids_distinct [OF t p(1)] p(2) by simp
  have ch: "chain h (kid h p) (as @ old # cs)" using tree_okD(3) [OF t p(1)] p(2) by simp
  then have cs: "path h (kid h p) as (Some old)" "chain h (sib h old) cs" by auto
  let ?l = "end_link (ChildOf p) as"
  let ?h1 = "h(owner ?l \<mapsto> with_link ?l (sib h old) (the (h (owner ?l))))"
  let ?h = "?h1(old \<mapsto> (the (h old))\<lparr>rs_parent := None\<rparr>)"
  have tw: "takeWhile (\<lambda>y. y \<noteq> old) (as @ old # cs) = as" using dis by (simp add: takeWhile_tail) (induction as; auto)
  have own: "owner ?l \<in> N" "owner ?l \<noteq> old" "owner ?l \<notin> set cs"
    using p op dis tree_okD(4) [OF t p(1)] not_own_kid [OF t p(1)] by (cases as rule: rev_cases; auto)+
  then have ownd: "owner ?l \<in> dom h" using tree_okD(1) [OF t] by blast
  have "ld_link h (ChildOf p) = Some (kid h p)" using od by (auto simp: ld_link_def)
  from release_loop_eq [OF this ch, of old] have "release_loop h old (ChildOf p) = Some (0, ?h)"
    using tw own ownd od st_link_eq [of ?l h "sib h old"] by (simp add: upd_eq)
  then have r: "release_resource h old = Some (0, ?h)" using od par by (auto simp: release_resource_def)
  have sr: "same_ranges h ?h"
  proof (rule same_ranges_trans [OF same_ranges_upd same_ranges_upd])
    show "rs_start (with_link ?l (sib h old) (the (h (owner ?l)))) = lo h (owner ?l)"
      "rs_end (with_link ?l (sib h old) (the (h (owner ?l)))) = hi h (owner ?l)"
      "rs_name (with_link ?l (sib h old) (the (h (owner ?l)))) = rs_name (the (h (owner ?l)))"
      "rs_flags (with_link ?l (sib h old) (the (h (owner ?l)))) = rs_flags (the (h (owner ?l)))"
      by (cases ?l; simp)+
  qed (use ownd od own in auto)
  have ch': "chain ?h (kid ?h p) (as @ cs)"
  proof (cases as rule: rev_cases)
    case Nil
    then show ?thesis using cs op dis not_own_kid [OF t p(1)] p by simp
  next
    case (snoc as' a)
    then have a: "path h (kid h p) as' (Some a)" "a \<noteq> p" "a \<noteq> old" "a \<notin> set as'" "a \<notin> set cs" "old \<notin> set as'" "old \<notin> set cs" "a \<in> dom h"
      using cs dis not_own_kid [OF t p(1)] p by auto
    have "path ?h (kid h p) as' (Some a)" "chain ?h (sib h old) cs" using a cs snoc by simp_all
    moreover have "kid ?h p = kid h p" "sib ?h a = sib h old" using a op snoc by simp_all
    ultimately show ?thesis using snoc a by auto
  qed
  have "par ?h x = par h x" if "x \<noteq> old" for x using that by (cases ?l) auto
  moreover have "kid ?h x = kid h x" if "x \<noteq> p" for x using that own by (cases as rule: rev_cases) auto
  moreover have "sib ?h x = sib h x" if "x \<in> N" "x \<notin> set (kids p)" for x
    using that p own by (cases as rule: rev_cases) auto
  ultimately show ?thesis using r sr op unsplice_ok [OF t p sr ch'] by auto
qed

lemma release_resource_unlinked:
  assumes "old \<in> dom h" "par h old = Some p" "p \<in> dom h" "chain h (kid h p) ys" "old \<notin> set ys"
  shows "release_resource h old = Some (- EINVAL, h)"
proof -
  have "ld_link h (ChildOf p) = Some (kid h p)" using assms(3) by (auto simp: ld_link_def)
  from release_loop_eq [OF this assms(4), of old] show ?thesis using assms by (auto simp: release_resource_def)
qed

end
