(* ===== verification/ResourceInsert.thy ===== *)
theory ResourceInsert
  imports Resource
begin

text \<open>
  Insertion, adjustment and the search for free ranges in the tree of address ranges: what the loops of \<^verbatim>\<open>__insert_resource\<close>,
  \<^verbatim>\<open>insert_resource_expand_to_fit\<close>, \<^verbatim>\<open>adjust_resource\<close> and \<^verbatim>\<open>find_resource\<close> do on a well-formed forest, as lemmas for the
  theorems of \<open>ResourceTree\<close>.
\<close>



subsection \<open>What an insertion does\<close>

definition within :: "rheap \<Rightarrow> nat \<Rightarrow> nat \<Rightarrow> bool" where
  "within h x p \<longleftrightarrow> lo h p \<le> lo h x \<and> lo h x \<le> hi h x \<and> hi h x \<le> hi h p"

lemma find_prev_eq: "path h p (xs @ [a]) (Some f) \<Longrightarrow> f \<notin> set (xs @ [a]) \<Longrightarrow> find_prev h p f = Some a"
proof (induction xs arbitrary: p)
  case Nil
  then show ?case by (subst find_prev.simps) auto
next
  case (Cons x xs)
  then obtain r where r: "p = Some x" "h x = Some r" by auto
  have "sib h x \<noteq> Some f" using Cons.prems by (cases xs) auto
  then have "find_prev h p f = find_prev h (sib h x) f" using r by (subst find_prev.simps) simp
  then show ?case using Cons by simp
qed

lemma reparent_loop_eq:
  assumes "chain h p bs" "distinct bs"
  shows "reparent_loop h new p = Some (\<lambda>x. if x \<in> set bs then map_option (\<lambda>r. r\<lparr>rs_parent := Some new\<rparr>) (h x) else h x)"
  using assms
proof (induction bs arbitrary: h p)
  case Nil
  then show ?case by (subst reparent_loop.simps) simp
next
  case (Cons b bs)
  then obtain r where r: "p = Some b" "h b = Some r" by auto
  let ?h = "h(b \<mapsto> r\<lparr>rs_parent := Some new\<rparr>)"
  have "reparent_loop h new p = reparent_loop ?h new (sib h b)" using r by (subst reparent_loop.simps) simp
  also have "\<dots> = Some (\<lambda>x. if x \<in> set bs then map_option (\<lambda>r. r\<lparr>rs_parent := Some new\<rparr>) (?h x) else ?h x)"
  proof -
    have "chain ?h (sib h b) bs" "distinct bs" using Cons.prems r by simp_all
    then show ?thesis by (rule Cons.IH)
  qed
  finally show ?case using r Cons.prems(2) by (auto simp: fun_eq_iff)
qed

lemma take_over_spliced:
  assumes t: "tree_ok h N kids" and q: "q \<in> N" and new: "new \<notin> N" "new \<in> dom h"
    and k: "kids q = as @ bs @ cs" and bs: "bs \<noteq> []"
  shows "\<exists>h'. take_over h q new (hd bs) (last bs) = Some h' \<and> spliced h h' N kids q new as bs cs"
proof -
  let ?f = "hd bs" and ?z = "last bs"
  obtain bi where bi: "bs = bi @ [?z]" using bs by (metis append_butlast_last_id)
  obtain bt where bt: "bs = ?f # bt" using bs by (metis list.collapse)
  have dis: "distinct (as @ bs @ cs)" using kids_distinct [OF t q] k by simp
  have sub: "set as \<subseteq> N" "set bs \<subseteq> N" "set cs \<subseteq> N" using tree_okD(4) [OF t q] k by auto
  have qo: "q \<notin> set as" "q \<notin> set bs" "q \<notin> set cs" using not_own_kid [OF t q] k by auto
  have nn: "new \<notin> set as" "new \<notin> set bs" "new \<notin> set cs" "new \<noteq> q" using sub new q by auto
  have qd: "q \<in> dom h" by (rule tree_okD(1) [OF t q])
  have zb: "?z \<in> set bs" "?f \<in> set bs" using bs by auto
  then have zd: "?z \<in> dom h" using sub tree_okD(1) [OF t] by blast
  have ch: "chain h (kid h q) (as @ bs @ cs)" using tree_okD(3) [OF t q] k by simp
  obtain r1 r2 where r12: "path h (kid h q) as r1" "path h r1 bs r2" "chain h r2 cs" using ch by auto
  have r1: "r1 = Some ?f" using path_hd [OF r12(2)] by (subst (asm) bt) simp
  have "path h r1 (bi @ [?z]) r2" using r12(2) bi by simp
  then have pbi: "path h (Some ?f) bi (Some ?z)" and r2: "r2 = sib h ?z" using r1 by auto
  have pas: "path h (kid h q) as (Some ?f)" and pcs: "chain h (sib h ?z) cs" using r12 r1 r2 by simp_all
  let ?n = "(the (h new))\<lparr>rs_parent := Some q, rs_sibling := sib h ?z, rs_child := Some ?f\<rparr>"
  let ?h2 = "h(new \<mapsto> ?n, ?z \<mapsto> (the (h ?z))\<lparr>rs_sibling := None\<rparr>)"
  let ?h3 = "\<lambda>x. if x \<in> set bs then map_option (\<lambda>r. r\<lparr>rs_parent := Some new\<rparr>) (?h2 x) else ?h2 x"
  have zn: "?z \<noteq> new" using zb nn by auto
  have "distinct bs" using dis by simp
  then have zbi: "?z \<notin> set bi" by (subst (asm) bi) simp
  have ch2: "chain ?h2 (Some ?f) bs"
  proof -
    have "new \<notin> set bi" using nn(2) by (subst (asm) bi) simp
    then have "path ?h2 (Some ?f) bi (Some ?z)" using pbi zbi by simp
    then have "chain ?h2 (Some ?f) (bi @ [?z])" by simp
    then show ?thesis using bi by simp
  qed
  have rep: "reparent_loop ?h2 new (Some ?f) = Some ?h3" by (rule reparent_loop_eq [OF ch2]) (use dis in simp)
  have h3q: "?h3 q = h q" using qo nn zb by auto
  have upds: "take_over h q new ?f ?z = (if kid h q = Some ?f then upd ?h3 q (\<lambda>r. r\<lparr>rs_child := Some new\<rparr>)
      else Option.bind (find_prev ?h3 (kid h q) ?f) (\<lambda>prev. upd ?h3 prev (\<lambda>r. r\<lparr>rs_sibling := Some new\<rparr>)))"
    using zd zn new(2) qd rep h3q unfolding take_over_def by (auto simp: upd_eq)
  have "\<exists>h4. take_over h q new ?f ?z = Some h4 \<and> same_ranges h h4 \<and>
    (\<forall>x \<in> dom h. sib h4 x = (if x = new then sib h ?z else if x = ?z then None else if as \<noteq> [] \<and> x = last as then Some new else sib h x) \<and>
      kid h4 x = (if x = new then Some ?f else if as = [] \<and> x = q then Some new else kid h x) \<and>
      par h4 x = (if x = new then Some q else if x \<in> set bs then Some new else par h x))"
  proof -
    have d3: "dom ?h3 = dom h" using new(2) zd by (auto split: if_splits)
    have s3: "same_ranges h ?h3"
      using new(2) zd zn unfolding same_ranges_def d3 by (auto split: if_splits)
    have f3: "\<forall>x \<in> dom h. sib ?h3 x = (if x = new then sib h ?z else if x = ?z then None else sib h x) \<and>
      kid ?h3 x = (if x = new then Some ?f else kid h x) \<and>
      par ?h3 x = (if x = new then Some q else if x \<in> set bs then Some new else par h x)"
      using nn zb zn by (auto split: if_splits)
    obtain h3 where u: "take_over h q new ?f ?z = (if kid h q = Some ?f then upd h3 q (\<lambda>r. r\<lparr>rs_child := Some new\<rparr>)
      else Option.bind (find_prev h3 (kid h q) ?f) (\<lambda>prev. upd h3 prev (\<lambda>r. r\<lparr>rs_sibling := Some new\<rparr>)))"
      and d3: "dom h3 = dom h" and s3: "same_ranges h h3"
      and f3: "\<forall>x \<in> dom h. sib h3 x = (if x = new then sib h ?z else if x = ?z then None else sib h x) \<and>
        kid h3 x = (if x = new then Some ?f else kid h x) \<and>
        par h3 x = (if x = new then Some q else if x \<in> set bs then Some new else par h x)"
      using upds d3 s3 f3 by blast
    show ?thesis
    proof (cases as rule: rev_cases)
      case Nil
      let ?h4 = "h3(q \<mapsto> (the (h3 q))\<lparr>rs_child := Some new\<rparr>)"
      have "kid h q = Some ?f" using pas Nil by simp
      then have "take_over h q new ?f ?z = Some (h3(q \<mapsto> (the (h3 q))\<lparr>rs_child := Some new\<rparr>))"
        using u qd d3 by (simp add: upd_eq)
      moreover have "same_ranges h (h3(q \<mapsto> (the (h3 q))\<lparr>rs_child := Some new\<rparr>))"
        by (rule same_ranges_trans [OF s3 same_ranges_upd]) (use qd d3 in auto)
      moreover have "sib ?h4 x = (if x = new then sib h ?z else if x = ?z then None else if as \<noteq> [] \<and> x = last as then Some new else sib h x) \<and>
        kid ?h4 x = (if x = new then Some ?f else if as = [] \<and> x = q then Some new else kid h x) \<and>
        par ?h4 x = (if x = new then Some q else if x \<in> set bs then Some new else par h x)" if x: "x \<in> dom h" for x
        using f3 [rule_format, OF x] Nil nn(4) by (cases "x = q") (simp_all add: nn(4) [symmetric])
      ultimately show ?thesis by blast
    next
      case (snoc as' a)
      let ?h4 = "h3(a \<mapsto> (the (h3 a))\<lparr>rs_sibling := Some new\<rparr>)"
      have fas: "?f \<notin> set (as' @ [a])" 
      proof -
        have "?f \<notin> set as" using dis zb(2) by auto
        then show ?thesis using snoc by simp
      qed
      have "kid h q \<noteq> Some ?f" using pas snoc fas by (cases as') auto
      moreover have "path h3 (kid h q) as (Some ?f) = path h (kid h q) as (Some ?f)"
      proof (rule path_cong)
        fix x assume x: "x \<in> set as"
        then have "x \<in> dom h" using sub tree_okD(1) [OF t] by blast
        moreover have "x \<noteq> new" "x \<noteq> ?z" using x nn(1) zb(1) dis by auto
        ultimately show "(x \<in> dom h3) = (x \<in> dom h) \<and> sib h3 x = sib h x" using f3 d3 by simp
      qed
      then have "find_prev h3 (kid h q) ?f = Some a" using find_prev_eq [of h3 "kid h q" as' a ?f] pas snoc fas by simp
      moreover have ad: "a \<in> dom h" "a \<noteq> new" "a \<noteq> ?z" using sub snoc tree_okD(1) [OF t] nn dis zb by auto
      ultimately have "take_over h q new ?f ?z = Some (h3(a \<mapsto> (the (h3 a))\<lparr>rs_sibling := Some new\<rparr>))"
        using u d3 by (simp add: upd_eq)
      moreover have "same_ranges h (h3(a \<mapsto> (the (h3 a))\<lparr>rs_sibling := Some new\<rparr>))"
        by (rule same_ranges_trans [OF s3 same_ranges_upd]) (use ad d3 in auto)
      moreover have "sib ?h4 x = (if x = new then sib h ?z else if x = ?z then None else if as \<noteq> [] \<and> x = last as then Some new else sib h x) \<and>
        kid ?h4 x = (if x = new then Some ?f else if as = [] \<and> x = q then Some new else kid h x) \<and>
        par ?h4 x = (if x = new then Some q else if x \<in> set bs then Some new else par h x)" if x: "x \<in> dom h" for x
        using f3 [rule_format, OF x] snoc ad(2,3) by (cases "x = a") simp_all
      ultimately show ?thesis by blast
    qed
  qed
  then obtain h4 where h4': "take_over h q new ?f ?z = Some h4" "same_ranges h h4"
    and sib4: "\<And>x. x \<in> dom h \<Longrightarrow> sib h4 x = (if x = new then sib h ?z else if x = ?z then None else if as \<noteq> [] \<and> x = last as then Some new else sib h x)"
    and kid4: "\<And>x. x \<in> dom h \<Longrightarrow> kid h4 x = (if x = new then Some ?f else if as = [] \<and> x = q then Some new else kid h x)"
    and par4: "\<And>x. x \<in> dom h \<Longrightarrow> par h4 x = (if x = new then Some q else if x \<in> set bs then Some new else par h x)"
    by blast
  then have h4: "take_over h q new ?f ?z = Some h4" "dom h4 = dom h" "same_ranges h h4" by (auto simp: same_ranges_def)
  have inD: "x \<in> dom h" if "x \<in> N" for x using tree_okD(1) [OF t that] .
  have same: "(x \<in> dom h4) = (x \<in> dom h) \<and> sib h4 x = sib h x"
    if "x \<in> N" "x \<noteq> ?z" "as \<noteq> [] \<Longrightarrow> x \<noteq> last as" for x
    using sib4 [OF inD [OF that(1)]] h4(2) that new(1) by auto
  have "chain h4 (sib h ?z) cs = chain h (sib h ?z) cs"
  proof (rule path_cong)
    fix x assume x: "x \<in> set cs"
    have "x \<noteq> last as" if "as \<noteq> []" using last_in_set [OF that] x dis by auto
    then show "(x \<in> dom h4) = (x \<in> dom h) \<and> sib h4 x = sib h x"
      by (rule same [rotated 2]) (use x sub zb(1) dis in auto)
  qed
  then have c4: "chain h4 (sib h ?z) cs" using pcs by simp
  have "chain h4 (kid h4 q) (as @ new # cs)"
  proof (cases as rule: rev_cases)
    case Nil
    then show ?thesis using c4 kid4 [OF qd] sib4 [OF new(2)] nn h4(2) new(2) by simp
  next
    case (snoc as' a)
    have a: "a \<in> dom h" "a \<noteq> new" "a \<noteq> ?z" "a \<notin> set as'" using snoc sub inD nn dis zb by auto
    have "path h4 (kid h q) as' (Some a) = path h (kid h q) as' (Some a)"
    proof (rule path_cong)
      fix x assume "x \<in> set as'"
      then show "(x \<in> dom h4) = (x \<in> dom h) \<and> sib h4 x = sib h x" using sub zb(1) dis snoc a(4) by (intro same) auto
    qed
    then have "path h4 (kid h q) as' (Some a)" using pas snoc by simp
    moreover have "kid h4 q = kid h q" using kid4 [OF qd] nn snoc by simp
    moreover have "sib h4 a = Some new" using sib4 [OF a(1)] a snoc by simp
    ultimately show ?thesis using c4 sib4 [OF new(2)] h4(2) new(2) a(1) snoc by auto
  qed
  moreover have "chain h4 (kid h4 new) bs"
  proof -
    have "path h4 (Some ?f) bi (Some ?z) = path h (Some ?f) bi (Some ?z)"
    proof (rule path_cong)
      fix x assume "x \<in> set bi"
      then have x: "x \<in> set bs" "x \<noteq> ?z" using bi zbi by (metis Un_iff set_append, blast)
      have "x \<noteq> last as" if "as \<noteq> []" using last_in_set [OF that] x dis by auto
      then show "(x \<in> dom h4) = (x \<in> dom h) \<and> sib h4 x = sib h x" by (rule same [rotated 2]) (use x sub in auto)
    qed
    then have "chain h4 (Some ?f) (bi @ [?z])" using pbi sib4 [OF zd] zn zd h4(2) by simp
    then show ?thesis using bi kid4 [OF new(2)] by simp
  qed
  moreover have "\<forall>x \<in> N. x \<notin> set (kids q) \<longrightarrow> sib h4 x = sib h x"
  proof (intro ballI impI)
    fix x assume x: "x \<in> N" "x \<notin> set (kids q)"
    have "x \<noteq> last as" if "as \<noteq> []" using last_in_set [OF that] x k by auto
    then show "sib h4 x = sib h x" using x zb(1) k same [of x] by auto
  qed
  moreover have "\<forall>x \<in> N. x \<noteq> q \<longrightarrow> kid h4 x = kid h x" using kid4 inD new(1) by auto
  moreover have "\<forall>x \<in> N. par h4 x = (if x \<in> set bs then Some new else par h x)" using par4 inD new(1) by auto
  moreover have "par h4 new = Some q" using par4 [OF new(2)] by simp
  ultimately show ?thesis using h4 k unfolding spliced_def by blast
qed

lemma find_split: "find P xs = Some c \<Longrightarrow> \<exists>as bs. xs = as @ c # bs \<and> P c \<and> (\<forall>a \<in> set as. \<not> P a)"
proof (induction xs)
  case (Cons x xs)
  show ?case
  proof (cases "P x")
    case True
    with Cons.prems have "x # xs = [] @ c # xs \<and> P c \<and> (\<forall>a \<in> set []. \<not> P a)" by simp
    then show ?thesis by blast
  next
    case False
    with Cons obtain as bs where "xs = as @ c # bs" "P c" "\<forall>a \<in> set as. \<not> P a" by auto
    with False have "x # xs = (x # as) @ c # bs \<and> P c \<and> (\<forall>a \<in> set (x # as). \<not> P a)" by simp
    then show ?thesis by blast
  qed
qed simp

text \<open>The children in front of the first that overlaps a range lie before the range.\<close>

lemma before_first_overlap:
  assumes "sorted_wrt (\<lambda>y z. hi h y < lo h z) (as @ c # bs)" "overlaps h start fin c"
    and "\<forall>a \<in> set as. \<not> overlaps h start fin a" "\<forall>y \<in> set (as @ c # bs). lo h y \<le> hi h y"
  shows "\<forall>a \<in> set as. hi h a < start"
proof
  fix a assume a: "a \<in> set as"
  then have "hi h a < lo h c" "lo h a \<le> hi h a" using assms(1,4) by (auto simp: sorted_wrt_append)
  moreover have "lo h c \<le> fin" using assms(2) by (simp add: overlaps_def not_less)
  ultimately have "\<not> lo h a > fin" by (simp add: not_less)
  then show "hi h a < start" using assms(3) a by (auto simp: overlaps_def)
qed

text \<open>The resources a new one takes over: those from the first on that start inside it, if all of them lie inside.\<close>

lemma insert_span_spec:
  assumes "chain h (Some x) (x # ys)" "new \<in> dom h"
  shows "(\<exists>c \<in> set (x # ys). insert_span h new x = Some (Inl c) \<and> (lo h c < lo h new \<or> hi h c > hi h new) \<and> (c = x \<or> lo h c \<le> hi h new)) \<or>
    (\<exists>bs cs. x # ys = bs @ cs \<and> bs \<noteq> [] \<and> insert_span h new x = Some (Inr (last bs)) \<and>
      (\<forall>b \<in> set bs. lo h new \<le> lo h b \<and> hi h b \<le> hi h new) \<and> (cs = [] \<or> hi h new < lo h (hd cs)))"
  using assms(1)
proof (induction ys arbitrary: x)
  case Nil
  then obtain r where r: "h x = Some r" by auto
  obtain n where n: "h new = Some n" using assms(2) by auto
  show ?case
  proof (cases "lo h x < lo h new \<or> hi h x > hi h new")
    case True
    then have "insert_span h new x = Some (Inl x)" using r n by (subst insert_span.simps) auto
    with True show ?thesis by auto
  next
    case False
    then have "insert_span h new x = Some (Inr x)" using r n Nil by (subst insert_span.simps) auto
    with False show ?thesis by (intro disjI2 exI [of _ "[x]"] exI [of _ "[]"]) (auto simp: not_less)
  qed
next
  case (Cons y ys)
  then obtain r ry where r: "h x = Some r" "rs_sibling r = Some y" "h y = Some ry" by auto
  obtain n where n: "h new = Some n" using assms(2) by auto
  show ?case
  proof (cases "lo h x < lo h new \<or> hi h x > hi h new")
    case True
    then have "insert_span h new x = Some (Inl x)" using r n by (subst insert_span.simps) auto
    with True show ?thesis by auto
  next
    case x: False
    show ?thesis
    proof (cases "lo h y > hi h new")
      case True
      then have "insert_span h new x = Some (Inr x)" using r n x by (subst insert_span.simps) auto
      with True x show ?thesis by (intro disjI2 exI [of _ "[x]"] exI [of _ "y # ys"]) (auto simp: not_less)
    next
      case False
      then have s: "insert_span h new x = insert_span h new y" using r n x by (subst insert_span.simps) auto
      have "chain h (Some y) (y # ys)" using Cons.prems by auto
      from Cons.IH [OF this] show ?thesis
      proof (rule disjE)
        assume "\<exists>c \<in> set (y # ys). insert_span h new y = Some (Inl c) \<and> (lo h c < lo h new \<or> hi h c > hi h new) \<and> (c = y \<or> lo h c \<le> hi h new)"
        with s False show ?thesis by (intro disjI1) (auto simp: not_less)
      next
        assume "\<exists>bs cs. y # ys = bs @ cs \<and> bs \<noteq> [] \<and> insert_span h new y = Some (Inr (last bs)) \<and>
          (\<forall>b \<in> set bs. lo h new \<le> lo h b \<and> hi h b \<le> hi h new) \<and> (cs = [] \<or> hi h new < lo h (hd cs))"
        then obtain bs cs where b: "y # ys = bs @ cs" "bs \<noteq> []" "insert_span h new y = Some (Inr (last bs))"
          "\<forall>b \<in> set bs. lo h new \<le> lo h b \<and> hi h b \<le> hi h new" "cs = [] \<or> hi h new < lo h (hd cs)" by blast
        with s x show ?thesis by (intro disjI2 exI [of _ "x # bs"] exI [of _ cs]) (auto simp: not_less)
      qed
    qed
  qed
qed

lemma insert_descend_spec:
  assumes t: "tree_ok h N kids" and q: "q \<in> N" and new: "new \<notin> N" "new \<in> dom h" "kid h new = None"
    and rank: "\<forall>x \<in> N. \<forall>y \<in> set (kids x). rank y < (rank x :: nat)"
  shows "(\<not> within h new q \<and> insert_descend h q new = Some (Conflict q, h)) \<or>
    (\<exists>p h' as cs. within h new q \<and> within h p q \<and> within h new p \<and> insert_descend h q new = Some (Requested, h') \<and> p \<in> N \<and> kids p = as @ cs \<and>
      (\<forall>a \<in> set as. hi h a < lo h new) \<and> (\<forall>c \<in> set cs. hi h new < lo h c) \<and> spliced h h' N kids p new as [] cs) \<or>
    (\<exists>p first as ys. within h new q \<and> within h p q \<and> within h new p \<and> insert_descend h q new = Some (TakeOver p first, h) \<and> p \<in> N \<and> kids p = as @ first # ys \<and>
      rank p \<le> rank q \<and> (\<forall>a \<in> set as. hi h a < lo h new) \<and> overlaps h (lo h new) (hi h new) first \<and>
      (within h new first \<longrightarrow> lo h first = lo h new \<and> hi h first = hi h new))"
  using q
proof (induction "rank q" arbitrary: q rule: less_induct)
  case less
  note req = raw_request_resource_spec [OF t less.prems new]
  show ?case
  proof (cases "within h new q")
    case False
    then have "hi h new < lo h new \<or> lo h new < lo h q \<or> hi h q < hi h new" by (auto simp: within_def not_le)
    then have "raw_request_resource h q new = Some (Some q, h)" using req by simp
    then have "insert_descend h q new = Some (Conflict q, h)" by (subst insert_descend.simps) simp
    with False show ?thesis by blast
  next
    case w: True
    have qq: "within h q q" using tree_okD(2) [OF t less.prems] by (simp add: within_def)
    from w have nw: "\<not> (hi h new < lo h new \<or> lo h new < lo h q \<or> hi h q < hi h new)" by (auto simp: within_def not_less)
    show ?thesis
    proof (cases "find (overlaps h (lo h new) (hi h new)) (kids q)")
      case None
      then obtain h' as cs where r: "raw_request_resource h q new = Some (None, h')" "kids q = as @ cs"
        "\<forall>a \<in> set as. hi h a < lo h new" "\<forall>c \<in> set cs. hi h new < lo h c" "spliced h h' N kids q new as [] cs"
        using req nw by auto
      then have "insert_descend h q new = Some (Requested, h')" by (subst insert_descend.simps) simp
      with r w qq less.prems show ?thesis by blast
    next
      case (Some c)
      then have r: "raw_request_resource h q new = Some (Some c, h)" using req nw by simp
      obtain as ys where k: "kids q = as @ c # ys" "overlaps h (lo h new) (hi h new) c"
        "\<forall>a \<in> set as. \<not> overlaps h (lo h new) (hi h new) a"
        using find_split [OF Some] by blast
      have "\<forall>y \<in> set (kids q). lo h y \<le> hi h y" using tree_okD(2) [OF t] tree_okD(4) [OF t less.prems] by blast
      then have as: "\<forall>a \<in> set as. hi h a < lo h new"
        using before_first_overlap [of h as c ys] tree_okD(5) [OF t less.prems] k by metis
      have cq: "c \<in> set (kids q)" using k by simp
      then have cN: "c \<in> N" using tree_okD(4) [OF t less.prems] by blast
      have cc: "c \<noteq> q" "c \<noteq> new" using cq not_own_kid [OF t less.prems] cN new by auto
      obtain f n where fn: "h c = Some f" "h new = Some n" using tree_okD(1) [OF t cN] new by auto
      show ?thesis
      proof (cases "lo h c > lo h new \<or> hi h c < hi h new \<or> lo h c = lo h new \<and> hi h c = hi h new")
        case True
        then have "insert_descend h q new = Some (TakeOver q c, h)" using r cc fn by (subst insert_descend.simps) auto
        moreover have "within h new c \<longrightarrow> lo h c = lo h new \<and> hi h c = hi h new" using True by (auto simp: within_def)
        ultimately show ?thesis using k as w qq less.prems by (meson order_refl)
      next
        case False
        then have d: "insert_descend h q new = insert_descend h c new" using r cc fn by (subst insert_descend.simps) auto
        have "within h new c" using False w by (auto simp: within_def not_less)
        moreover have "within h p q" if "within h p c" for p
          using that tree_okD(6) [OF t less.prems cq] unfolding within_def by (meson order_trans)
        moreover have "rank c \<le> rank q" using rank [rule_format, OF less.prems cq] by simp
        ultimately show ?thesis using less.hyps [OF rank [rule_format, OF less.prems cq] cN] w unfolding d by (meson order_trans)
      qed
    qed
  qed
qed

text \<open>An insertion: refused by the parent or by a resource that overlaps in part, or spliced in.\<close>

lemma raw_insert_resource_spec:
  assumes t: "tree_ok h N kids" and q: "q \<in> N" and new: "new \<notin> N" "new \<in> dom h" "kid h new = None"
  shows "(\<not> within h new q \<and> raw_insert_resource h q new = Some (Some q, h)) \<or>
    (\<exists>c \<in> N. c \<noteq> q \<and> within h new q \<and> within h c q \<and> raw_insert_resource h q new = Some (Some c, h) \<and> overlaps h (lo h new) (hi h new) c \<and>
      (lo h c < lo h new \<or> hi h new < hi h c) \<and> \<not> within h new c) \<or>
    (\<exists>p h' as bs cs. raw_insert_resource h q new = Some (None, h') \<and> p \<in> N \<and> within h new p \<and> kids p = as @ bs @ cs \<and>
      (\<forall>a \<in> set as. hi h a < lo h new) \<and> (\<forall>b \<in> set bs. within h b new) \<and> (\<forall>c \<in> set cs. hi h new < lo h c) \<and>
      spliced h h' N kids p new as bs cs)"
proof -
  obtain rank :: "nat \<Rightarrow> nat" where rank: "\<forall>x \<in> N. \<forall>y \<in> set (kids x). rank y < rank x"
    using t by (auto simp: tree_ok_def ranked_def)
  show ?thesis
    using insert_descend_spec [OF assms rank]
  proof (elim disjE exE conjE)
    assume "\<not> within h new q" "insert_descend h q new = Some (Conflict q, h)"
    then show ?thesis by (simp add: raw_insert_resource_def)
  next
    fix p h' as cs assume "insert_descend h q new = Some (Requested, h')" "p \<in> N" "within h new p" "kids p = as @ cs"
      "\<forall>a \<in> set as. hi h a < lo h new" "\<forall>c \<in> set cs. hi h new < lo h c" "spliced h h' N kids p new as [] cs"
    then show ?thesis
      by (intro disjI2 exI [of _ p] exI [of _ h'] exI [of _ as] exI [of _ "[]"] exI [of _ cs]) (simp add: raw_insert_resource_def)
  next
    fix p first as ys assume d: "insert_descend h q new = Some (TakeOver p first, h)" and p: "p \<in> N" and w: "within h new q" "within h new p" "within h p q"
      and k: "kids p = as @ first # ys" and rk: "rank p \<le> rank q" and as: "\<forall>a \<in> set as. hi h a < lo h new" and ov: "overlaps h (lo h new) (hi h new) first"
      and fd: "within h new first \<longrightarrow> lo h first = lo h new \<and> hi h first = hi h new"
    have sub: "set (first # ys) \<subseteq> N" using tree_okD(4) [OF t p] k by auto
    have srt: "sorted_wrt (\<lambda>y z. hi h y < lo h z) (first # ys)" using tree_okD(5) [OF t p] k by (auto simp: sorted_wrt_append)
    have ne: "\<forall>y \<in> set (first # ys). lo h y \<le> hi h y" using tree_okD(2) [OF t] sub by blast
    have "chain h (Some first) (first # ys)" using tree_okD(3) [OF t p] k by auto
    from insert_span_spec [OF this new(2)] show ?thesis
    proof (rule disjE)
      assume "\<exists>c \<in> set (first # ys). insert_span h new first = Some (Inl c) \<and> (lo h c < lo h new \<or> hi h c > hi h new) \<and> (c = first \<or> lo h c \<le> hi h new)"
      then obtain c where c: "c \<in> set (first # ys)" "insert_span h new first = Some (Inl c)" "lo h c < lo h new \<or> hi h c > hi h new"
        "c = first \<or> lo h c \<le> hi h new" by blast
      have "overlaps h (lo h new) (hi h new) c"
      proof (cases "c = first")
        case False
        then have "hi h first < lo h c" "lo h c \<le> hi h c" using c(1) srt ne by auto
        then have "\<not> hi h c < lo h new" using ov by (auto simp: overlaps_def not_less)
        then show ?thesis using c(4) False by (auto simp: overlaps_def not_less)
      qed (use ov in simp)
      moreover have "within h c q"
        using tree_okD(6) [OF t p, of c] k c(1) ne w(3) unfolding within_def by (auto intro: order_trans)
      moreover have "\<not> within h new c"
      proof (cases "c = first")
        case True
        with c(3) fd show ?thesis by auto
      next
        case False
        then have "hi h first < lo h c" using c(1) srt by auto
        then show ?thesis using ov by (auto simp: within_def overlaps_def not_less)
      qed
      moreover have "c \<noteq> q" using rank [rule_format, OF p, of c] k c(1) rk by auto
      ultimately show ?thesis using c d w sub by (intro disjI2 disjI1 bexI [of _ c]) (auto simp: raw_insert_resource_def)
    next
      assume "\<exists>bs cs. first # ys = bs @ cs \<and> bs \<noteq> [] \<and> insert_span h new first = Some (Inr (last bs)) \<and>
        (\<forall>b \<in> set bs. lo h new \<le> lo h b \<and> hi h b \<le> hi h new) \<and> (cs = [] \<or> hi h new < lo h (hd cs))"
      then obtain bs cs where b: "first # ys = bs @ cs" "bs \<noteq> []" "insert_span h new first = Some (Inr (last bs))"
        "\<forall>b \<in> set bs. lo h new \<le> lo h b \<and> hi h b \<le> hi h new" "cs = [] \<or> hi h new < lo h (hd cs)" by blast
      have hd: "hd bs = first" using b(1,2) by (metis hd_append2 list.sel(1))
      obtain h' where h': "take_over h p new first (last bs) = Some h'" "spliced h h' N kids p new as bs cs"
        using take_over_spliced [OF t p new(1,2) _ b(2), of as cs] k b(1) hd by auto
      have cs: "\<forall>c \<in> set cs. hi h new < lo h c"
      proof (cases cs)
        case (Cons z zs)
        have "sorted_wrt (\<lambda>y z. hi h y < lo h z) cs" using srt unfolding b(1) by (simp add: sorted_wrt_append)
        moreover have "lo h z \<le> hi h z" using ne b(1) Cons by auto
        ultimately show ?thesis using b(5) Cons by auto
      qed simp
      have "\<forall>b \<in> set bs. within h b new" using b(1,4) ne by (auto simp: within_def)
      then show ?thesis using d b(3) h' p w k as cs b(1)
        by (intro disjI2 exI [of _ p] exI [of _ h'] exI [of _ as] exI [of _ bs] exI [of _ cs]) (simp add: raw_insert_resource_def)
    qed
  qed
qed

subsection \<open>What an adjustment does\<close>

lemma kids_fit_eq: "chain h p ys \<Longrightarrow> kids_fit h p start fin = Some (\<forall>y \<in> set ys. start \<le> lo h y \<and> hi h y \<le> fin)"
proof (induction ys arbitrary: p)
  case Nil
  then show ?case by (subst kids_fit.simps) simp
next
  case (Cons y ys)
  then obtain r where "p = Some y" "h y = Some r" by auto
  then show ?case using Cons by (subst kids_fit.simps) (auto simp: not_less)
qed

text \<open>A range a child can take: inside the parent, around the own children, between the neighbours.\<close>

definition can_adjust :: "rheap \<Rightarrow> (nat \<Rightarrow> nat list) \<Rightarrow> nat \<Rightarrow> nat list \<Rightarrow> nat \<Rightarrow> nat list \<Rightarrow> u32 \<Rightarrow> u32 \<Rightarrow> bool" where
  "can_adjust h kids p as x cs start fin \<longleftrightarrow> lo h p \<le> start \<and> fin \<le> hi h p \<and>
     (\<forall>y \<in> set (kids x). start \<le> lo h y \<and> hi h y \<le> fin) \<and> (\<forall>a \<in> set as. hi h a < start) \<and> (\<forall>c \<in> set cs. fin < lo h c)"

lemma adjust_ok:
  assumes t: "tree_ok h N kids" and p: "p \<in> N" "kids p = as @ x # cs" and c: "can_adjust h kids p as x cs start fin" and se: "start \<le> fin"
  shows "tree_ok (h(x \<mapsto> (the (h x))\<lparr>rs_start := start, rs_end := fin\<rparr>)) N kids" (is "tree_ok ?h N kids")
proof -
  have xN: "x \<in> N" and xk: "x \<in> set (kids p)" using tree_okD(4) [OF t p(1)] p(2) by auto
  have xd: "x \<in> dom h" using tree_okD(1) [OF t xN] .
  have dis: "distinct (as @ x # cs)" using kids_distinct [OF t p(1)] p(2) by simp
  have f: "lo ?h y = (if y = x then start else lo h y)" "hi ?h y = (if y = x then fin else hi h y)"
    "kid ?h y = kid h y" "par ?h y = par h y" for y by simp_all
  have "node_ok ?h N kids y" if y: "y \<in> N" for y
  proof -
    have "y \<in> dom ?h" using tree_okD(1) [OF t y] by simp
    moreover have "lo ?h y \<le> hi ?h y" using f se tree_okD(2) [OF t y] by auto
    moreover have "chain ?h (kid ?h y) (kids y)"
      using tree_okD(3) [OF t y] path_upd_same [OF xd, of "(the (h x))\<lparr>rs_start := start, rs_end := fin\<rparr>"] unfolding f by simp
    moreover have "sorted_wrt (\<lambda>y z. hi ?h y < lo ?h z) (kids y)"
    proof (cases "y = p")
      case True
      have "sorted_wrt (\<lambda>y z. hi h y < lo h z) (as @ x # cs)" using tree_okD(5) [OF t p(1)] p(2) by simp
      then have "sorted_wrt (\<lambda>y z. hi h y < lo h z) as" "sorted_wrt (\<lambda>y z. hi h y < lo h z) cs"
        "\<forall>a \<in> set as. \<forall>c \<in> set cs. hi h a < lo h c" by (auto simp: sorted_wrt_append)
      moreover have "sorted_wrt (\<lambda>y z. hi ?h y < lo ?h z) ys = sorted_wrt (\<lambda>y z. hi h y < lo h z) ys" if "x \<notin> set ys" for ys
        using that by (intro sorted_wrt_cong) auto
      ultimately show ?thesis using True p(2) c dis unfolding can_adjust_def by (auto simp: sorted_wrt_append)
    next
      case False
      then have "x \<notin> set (kids y)" using kids_parent [OF t y p(1) _ xk] by blast
      moreover have "sorted_wrt (\<lambda>y z. hi ?h y < lo ?h z) (kids y) = sorted_wrt (\<lambda>y z. hi h y < lo h z) (kids y)"
        using calculation by (intro sorted_wrt_cong) auto
      ultimately show ?thesis using tree_okD(5) [OF t y] by simp
    qed
    moreover have "lo ?h y \<le> lo ?h z \<and> hi ?h z \<le> hi ?h y \<and> par ?h z = Some y" if z: "z \<in> set (kids y)" for z
    proof -
      have zy: "z \<noteq> y" using z not_own_kid [OF t y] by auto
      have old: "lo h y \<le> lo h z \<and> hi h z \<le> hi h y \<and> par h z = Some y" by (rule tree_okD(6) [OF t y z])
      show ?thesis
      proof (cases "z = x")
        case True
        then have "y = p" using kids_parent [OF t y p(1)] z xk by blast
        then show ?thesis using True zy c old unfolding f can_adjust_def by simp
      next
        case False
        then show ?thesis using old c z unfolding f can_adjust_def by auto
      qed
    qed
    ultimately show ?thesis using tree_okD(4) [OF t y] unfolding node_ok_def by blast
  qed
  then show ?thesis using t by (simp add: tree_ok_def)
qed

lemma adjust_resource_spec:
  assumes t: "tree_ok h N kids" and p: "p \<in> N" "kids p = as @ x # cs"
  shows "adjust_resource h x start sz = Some (if can_adjust h kids p as x cs start (start + sz - 1)
    then (0, h(x \<mapsto> (the (h x))\<lparr>rs_start := start, rs_end := start + sz - 1\<rparr>)) else (- EBUSY, h))"
proof -
  let ?fin = "start + sz - 1"
  have xN: "x \<in> N" and xk: "x \<in> set (kids p)" using tree_okD(4) [OF t p(1)] p(2) by auto
  obtain r where r: "h x = Some r" using tree_okD(1) [OF t xN] by auto
  obtain rp where rp: "h p = Some rp" using tree_okD(1) [OF t p(1)] by auto
  have par: "rs_parent r = Some p" using tree_okD(6) [OF t p(1) xk] r by simp
  have fit: "kids_fit h (rs_child r) start ?fin = Some (\<forall>y \<in> set (kids x). start \<le> lo h y \<and> hi h y \<le> ?fin)"
    using kids_fit_eq [OF tree_okD(3) [OF t xN]] r by simp
  have ch: "chain h (kid h p) (as @ x # cs)" using tree_okD(3) [OF t p(1)] p(2) by simp
  then have cs: "chain h (rs_sibling r) cs" and as: "path h (rs_child rp) as (Some x)" using r rp by auto
  have srt: "sorted_wrt (\<lambda>y z. hi h y < lo h z) (as @ x # cs)" using tree_okD(5) [OF t p(1)] p(2) by simp
  have sub: "set as \<subseteq> N" "set cs \<subseteq> N" using tree_okD(4) [OF t p(1)] p(2) by auto
  have dis: "distinct (as @ x # cs)" using kids_distinct [OF t p(1)] p(2) by simp
  have nxt: "(case rs_sibling r of None \<Rightarrow> Some True | Some s \<Rightarrow> map_option (\<lambda>y. \<not> rs_start y \<le> ?fin) (h s))
    = Some (\<forall>c \<in> set cs. ?fin < lo h c)"
  proof (cases cs)
    case Nil
    then show ?thesis using cs by simp
  next
    case (Cons c cs')
    then obtain rc where rc: "rs_sibling r = Some c" "h c = Some rc" using cs by auto
    have "lo h c \<le> hi h c" "\<forall>z \<in> set cs'. hi h c < lo h z" using tree_okD(2) [OF t, of c] sub Cons srt by (auto simp: sorted_wrt_append)
    then have "(\<forall>z \<in> set cs. ?fin < lo h z) \<longleftrightarrow> ?fin < lo h c" using Cons by auto
    then show ?thesis using rc by (simp add: not_le)
  qed
  have prv: "(if rs_child rp \<noteq> Some x then do { prev \<leftarrow> find_prev h (rs_child rp) x; y \<leftarrow> h prev; Some (\<not> start \<le> rs_end y) } else Some True)
    = Some (\<forall>a \<in> set as. hi h a < start)"
  proof (cases as rule: rev_cases)
    case Nil
    then show ?thesis using as by simp
  next
    case (snoc as' a)
    have ne: "rs_child rp \<noteq> Some x" using as snoc dis by (cases as') auto
    have fp: "find_prev h (rs_child rp) x = Some a" using find_prev_eq [of h _ as' a x] as snoc dis by auto
    have aN: "a \<in> N" using sub snoc by auto
    then obtain ra where ra: "h a = Some ra" using tree_okD(1) [OF t] by blast
    have "hi h z < start" if "z \<in> set as'" "hi h a < start" for z
    proof -
      have "hi h z < lo h a" using srt snoc that(1) by (auto simp: sorted_wrt_append)
      moreover have "lo h a \<le> hi h a" by (rule tree_okD(2) [OF t aN])
      ultimately show ?thesis using that(2) by simp
    qed
    then have "(\<forall>z \<in> set as. hi h z < start) \<longleftrightarrow> hi h a < start" using snoc by auto
    then show ?thesis using ne fp ra by (simp add: not_le)
  qed
  show ?thesis
    unfolding adjust_resource_def can_adjust_def using r rp par fit nxt prv
    by (simp add: Let_def upd_def not_less) (auto simp: not_less not_le)
qed

subsection \<open>What an allocation does\<close>

text \<open>A slot that an allocation may take: aligned, inside the limits and the root, and clear of the children.\<close>

definition slot :: "rheap \<Rightarrow> (nat \<Rightarrow> nat list) \<Rightarrow> nat \<Rightarrow> u32 \<Rightarrow> u32 \<Rightarrow> u32 \<Rightarrow> nat \<Rightarrow> u32 \<Rightarrow> bool" where
  "slot h kids root sz mn mx k s \<longleftrightarrow> 2 ^ k dvd unat s \<and> 0 < unat sz \<and> unat s + unat sz \<le> 2 ^ 32 \<and>
     mn \<le> s \<and> lo h root \<le> s \<and> s + sz - 1 \<le> mx \<and> s + sz - 1 \<le> hi h root \<and>
     (\<forall>c \<in> set (kids root). \<not> overlaps h s (s + sz - 1) c)"

lemma unat_last:
  assumes "0 < unat sz" "unat s + unat sz \<le> 2 ^ 32"
  shows "unat (s + sz - 1 :: u32) = unat s + unat sz - 1" and "s \<le> s + sz - 1"
proof -
  have e: "s + sz - 1 = s + (sz - 1)" by simp
  have "sz \<noteq> 0" using assms(1) by auto
  then have z: "unat (sz - 1) = unat sz - 1" by (simp add: unat_minus_one)
  show u: "unat (s + sz - 1) = unat s + unat sz - 1"
    unfolding e using unat_add_small [of s "sz - 1"] z assms by simp
  show "s \<le> s + sz - 1" unfolding word_le_nat_alt u using assms(1) by linarith
qed

lemma align_up_le:
  assumes al: "unat al = 2 ^ k" and s: "2 ^ k dvd unat s" "x \<le> s"
  shows "x \<le> align_up x al" "align_up x al \<le> s" "2 ^ k dvd unat (align_up x al)"
proof -
  have a0: "al \<noteq> 0" using al by auto
  have k: "unat (al - 1) + 1 = 2 ^ k" using al a0 by (simp add: unat_minus_one)
  have sx: "(unat x + (2 ^ k - 1)) div 2 ^ k * 2 ^ k \<le> unat s"
    using aligned_ge [OF s(1), of "unat x"] s(2) by (simp add: word_le_nat_alt)
  have m: "unat (al - 1) = 2 ^ k - 1" using k by simp
  have "unat x + unat (al - 1) < 2 ^ 32"
  proof (rule ccontr)
    assume "\<not> unat x + unat (al - 1) < 2 ^ 32"
    then have "(2 ^ 32) div 2 ^ k * 2 ^ k \<le> (unat x + (2 ^ k - 1)) div 2 ^ k * 2 ^ k"
      unfolding m by (intro mult_le_mono1 div_le_mono) simp
    moreover have "k \<le> 32"
    proof (rule ccontr)
      assume "\<not> k \<le> 32"
      then have "(2::nat) ^ 32 < 2 ^ k" by (intro power_strict_increasing) auto
      then show False using al unat_lt_32 [of al] by simp
    qed
    then have "(2 ^ 32) div 2 ^ k * 2 ^ k = (2 ^ 32 :: nat)" by (intro dvd_div_mult_self le_imp_power_dvd)
    ultimately show False using sx unat_lt_32 [of s] by linarith
  qed
  then have u: "unat (align_up x al) = (unat x + (2 ^ k - 1)) div 2 ^ k * 2 ^ k"
    using unat_align [OF k, of x] m by (simp add: align_up_def)
  show "2 ^ k dvd unat (align_up x al)" unfolding u by simp
  show "align_up x al \<le> s" unfolding word_le_nat_alt u by (rule sx)
  show "x \<le> align_up x al"
  proof -
    have "unat x + (2 ^ k - 1) < (unat x + (2 ^ k - 1)) div 2 ^ k * 2 ^ k + 2 ^ k"
      using div_mult_mod_eq [of "unat x + (2 ^ k - 1)" "2 ^ k"] mod_less_divisor [of "2 ^ k" "unat x + (2 ^ k - 1)"]
      by (metis add_less_cancel_left zero_less_numeral zero_less_power)
    then show ?thesis unfolding word_le_nat_alt u by linarith
  qed
qed

text \<open>Whatever the search finds lies inside the limits and ends where its size says; with the default alignment it is aligned.\<close>

lemma try_gap_sound:
  assumes "try_gap ts te sz mn mx al alignf = Some (a, b)"
  shows "mn \<le> a \<and> b \<le> mx \<and> b = a + sz - 1 \<and> (alignf = simple_align_resource \<longrightarrow> (\<exists>x. a = align_up x al))"
proof -
  let ?tmp = "resource_clip (ts, te) mn mx"
  have "mn \<le> fst ?tmp" "snd ?tmp \<le> mx" by (auto simp: resource_clip_def not_less)
  then show ?thesis using assms
    by (auto simp: try_gap_def Let_def resource_contains_def simple_align_resource_def intro: order_trans split: if_splits)
qed

lemma find_loop_sound:
  assumes "chain h p ys"
  shows "\<exists>r. find_loop_resource h rend sz mn mx al alignf p ts = Some r \<and>
    (\<forall>a b. r = Some (a, b) \<longrightarrow> mn \<le> a \<and> b \<le> mx \<and> b = a + sz - 1 \<and> (alignf = simple_align_resource \<longrightarrow> (\<exists>x. a = align_up x al)))"
  using assms
proof (induction ys arbitrary: p ts)
  case Nil
  show ?case
  proof (cases "try_gap ts rend sz mn mx al alignf")
    case (Some ab)
    then show ?thesis using Nil try_gap_sound [of ts rend sz mn mx al alignf] by (subst find_loop_resource.simps) (cases ab, simp)
  qed (use Nil in \<open>subst find_loop_resource.simps, simp\<close>)
next
  case (Cons y ys)
  then obtain r where r: "p = Some y" "h y = Some r" by auto
  show ?case
  proof (cases "try_gap ts (rs_start r - 1) sz mn mx al alignf")
    case None
    then have "find_loop_resource h rend sz mn mx al alignf p ts
      = find_loop_resource h rend sz mn mx al alignf (rs_sibling r) (rs_end r + 1)"
      using r by (subst find_loop_resource.simps) simp
    then show ?thesis using Cons.IH [of "rs_sibling r" "rs_end r + 1"] Cons.prems r by simp
  next
    case (Some ab)
    then show ?thesis using r try_gap_sound [of ts "rs_start r - 1" sz mn mx al alignf]
      by (subst find_loop_resource.simps) (cases ab, simp)
  qed
qed

text \<open>A gap is taken if a slot lies in it, at the least aligned address.\<close>

lemma try_gap_takes:
  assumes al: "unat al = 2 ^ k" and s: "2 ^ k dvd unat s" "ts \<le> s" "mn \<le> s" "s + sz - 1 \<le> te" "s + sz - 1 \<le> mx"
    and sz: "0 < unat sz" "unat s + unat sz \<le> 2 ^ 32"
  shows "\<exists>a. try_gap ts te sz mn mx al simple_align_resource = Some (a, a + sz - 1) \<and>
    2 ^ k dvd unat a \<and> ts \<le> a \<and> mn \<le> a \<and> a \<le> s \<and> a + sz - 1 \<le> s + sz - 1"
proof -
  let ?x = "if ts < mn then mn else ts" and ?e = "if te > mx then mx else te"
  have x: "?x \<le> s" "ts \<le> ?x" "mn \<le> ?x" using s by (auto simp: not_less)
  note a = align_up_le [OF al s(1) x(1)]
  let ?a = "align_up ?x al"
  have "unat ?a + unat sz \<le> 2 ^ 32" using a(2) sz(2) by (simp add: word_le_nat_alt)
  then have "?a + sz - 1 \<le> s + sz - 1"
    using unat_last(1) [OF sz] unat_last(1) [OF sz(1), of ?a] a(2) by (simp add: word_le_nat_alt)
  moreover from this have "?a + sz - 1 \<le> ?e" using s(4,5) by auto
  ultimately show ?thesis using a x
    by (intro exI [of _ ?a]) (auto simp: try_gap_def Let_def resource_clip_def resource_contains_def simple_align_resource_def)
qed

lemma slotD:
  assumes "slot h kids root sz mn mx k s"
  shows "2 ^ k dvd unat s" "0 < unat sz" "unat s + unat sz \<le> 2 ^ 32" "mn \<le> s" "lo h root \<le> s" "s + sz - 1 \<le> mx"
    "s + sz - 1 \<le> hi h root" "c \<in> set (kids root) \<Longrightarrow> hi h c < s \<or> s + sz - 1 < lo h c" "s \<le> s + sz - 1"
  using assms unat_last(2) [of sz s] by (auto simp: slot_def overlaps_def)

text \<open>A gap between children: the search takes it exactly if it holds a slot, and then the first slot of all.\<close>

lemma try_gap_slot:
  assumes al: "unat al = 2 ^ k" and s: "slot h kids root sz mn mx k s"
    and all: "\<And>s'. slot h kids root sz mn mx k s' \<Longrightarrow> ts \<le> s'"
    and root: "lo h root \<le> ts" "te \<le> hi h root"
    and kd: "\<And>c. c \<in> set (kids root) \<Longrightarrow> hi h c < ts \<or> te < lo h c"
  shows "case try_gap ts te sz mn mx al simple_align_resource of
      None \<Rightarrow> \<forall>s'. slot h kids root sz mn mx k s' \<longrightarrow> te < s' + sz - 1
    | Some ab \<Rightarrow> snd ab = fst ab + sz - 1 \<and> slot h kids root sz mn mx k (fst ab) \<and>
        (\<forall>s'. slot h kids root sz mn mx k s' \<longrightarrow> fst ab \<le> s')"
proof (cases "try_gap ts te sz mn mx al simple_align_resource")
  case None
  have "te < s' + sz - 1" if sl: "slot h kids root sz mn mx k s'" for s'
  proof (rule ccontr)
    note d = slotD [OF sl]
    assume "\<not> te < s' + sz - 1"
    then have "s' + sz - 1 \<le> te" by (simp add: not_less)
    from try_gap_takes [OF al d(1) all [OF sl] d(4) this d(6) d(2,3)] None show False by simp
  qed
  with None show ?thesis by simp
next
  case (Some ab)
  let ?x = "if ts < mn then mn else ts"
  define a where "a = align_up ?x al"
  have ab: "ab = (a, a + sz - 1)" and le: "a + sz - 1 \<le> te" "a + sz - 1 \<le> mx"
    using Some by (auto simp: try_gap_def Let_def resource_clip_def resource_contains_def simple_align_resource_def a_def not_less split: if_splits)
  have x: "ts \<le> ?x" "mn \<le> ?x" by auto
  have least: "a \<le> s'" and agood: "?x \<le> a" "2 ^ k dvd unat a" if sl: "slot h kids root sz mn mx k s'" for s'
  proof -
    have "?x \<le> s'" using all [OF sl] slotD(4) [OF sl] by auto
    from align_up_le [OF al slotD(1) [OF sl] this] show "a \<le> s'" "?x \<le> a" "2 ^ k dvd unat a" unfolding a_def by auto
  qed
  note d = slotD [OF s]
  have nw: "unat a + unat sz \<le> 2 ^ 32" using least [OF s] d(3) by (simp add: word_le_nat_alt)
  have ge: "ts \<le> a" "mn \<le> a" using agood(1) [OF s] x by (auto intro: order_trans)
  have "\<not> overlaps h a (a + sz - 1) c" if "c \<in> set (kids root)" for c
    using kd [OF that] ge(1) le(1) by (auto simp: overlaps_def)
  then have "slot h kids root sz mn mx k a"
    using agood(2) [OF s] d(2) nw ge le root unfolding slot_def by (auto intro: order_trans)
  then show ?thesis using Some ab least by auto
qed

lemma find_loop_takes:
  assumes t: "tree_ok h N kids" and root: "root \<in> N" and al: "unat al = 2 ^ k" and s: "slot h kids root sz mn mx k s"
  shows "chain h p ys \<Longrightarrow> kids root = as @ ys \<Longrightarrow> (\<And>s'. slot h kids root sz mn mx k s' \<Longrightarrow> ts \<le> s') \<Longrightarrow> lo h root \<le> ts \<Longrightarrow>
    (\<And>a. a \<in> set as \<Longrightarrow> hi h a < ts) \<Longrightarrow> (ys \<noteq> [] \<Longrightarrow> lo h (hd ys) \<noteq> 0) \<Longrightarrow>
    \<exists>a. find_loop_resource h (hi h root) sz mn mx al simple_align_resource p ts = Some (Some (a, a + sz - 1)) \<and>
      slot h kids root sz mn mx k a \<and> (\<forall>s'. slot h kids root sz mn mx k s' \<longrightarrow> a \<le> s')"
proof (induction ys arbitrary: as p ts)
  case Nil
  have "\<And>c. c \<in> set (kids root) \<Longrightarrow> hi h c < ts \<or> hi h root < lo h c" using Nil.prems by simp
  note g = try_gap_slot [OF al s Nil.prems(3,4) order_refl this]
  show ?case
  proof (cases "try_gap ts (hi h root) sz mn mx al simple_align_resource")
    case None
    with g s slotD(7) [OF s] show ?thesis by auto
  next
    case (Some ab)
    then have "find_loop_resource h (hi h root) sz mn mx al simple_align_resource p ts = Some (Some ab)"
      using Nil.prems(1) by (subst find_loop_resource.simps) simp
    then show ?thesis using g Some by (intro exI [of _ "fst ab"]) (cases ab, auto)
  qed
next
  case (Cons y ys)
  then obtain r where r: "p = Some y" "h y = Some r" by auto
  have yk: "y \<in> set (kids root)" using Cons.prems(2) by simp
  have yN: "y \<in> N" using tree_okD(4) [OF t root] yk by blast
  have ly: "lo h y \<le> hi h y" by (rule tree_okD(2) [OF t yN])
  have iny: "lo h root \<le> lo h y" "hi h y \<le> hi h root" using tree_okD(6) [OF t root yk] by auto
  have srt: "sorted_wrt (\<lambda>y z. hi h y < lo h z) (as @ y # ys)" using tree_okD(5) [OF t root] Cons.prems(2) by simp
  have y0: "lo h y \<noteq> 0" using Cons.prems(6) by simp
  have pred: "x \<le> lo h y - 1 \<longleftrightarrow> x < lo h y" for x
    using y0 by (simp add: word_le_nat_alt word_less_nat_alt unat_minus_one) (metis One_nat_def Suc_le_eq Suc_pred le_simps(2) unat_eq_0 gr0I)
  have "c = y \<or> hi h c < ts \<or> lo h y \<le> lo h c" if "c \<in> set (kids root)" for c
  proof -
    have "lo h y < lo h c" if "c \<in> set ys" using srt that ly by (auto simp: sorted_wrt_append)
    then show ?thesis using that Cons.prems(2,5) by auto
  qed
  then have kd: "hi h c < ts \<or> lo h y - 1 < lo h c" if "c \<in> set (kids root)" for c
    using that pred [of "lo h c"] by (auto simp: not_le [symmetric])
  have "lo h y - 1 < lo h y" using pred [of "lo h y"] by (simp add: not_le [symmetric])
  then have te: "lo h y - 1 \<le> hi h root" using ly iny by simp
  note g = try_gap_slot [OF al s Cons.prems(3,4) te kd]
  show ?case
  proof (cases "try_gap ts (lo h y - 1) sz mn mx al simple_align_resource")
    case (Some ab)
    then have "find_loop_resource h (hi h root) sz mn mx al simple_align_resource p ts = Some (Some ab)"
      using r by (subst find_loop_resource.simps) simp
    then show ?thesis using g Some by (intro exI [of _ "fst ab"]) (cases ab, auto)
  next
    case None
    then have e: "find_loop_resource h (hi h root) sz mn mx al simple_align_resource p ts
        = find_loop_resource h (hi h root) sz mn mx al simple_align_resource (rs_sibling r) (rs_end r + 1)"
      using r by (subst find_loop_resource.simps) simp
    have beh: "hi h y < s'" if sl: "slot h kids root sz mn mx k s'" for s'
    proof -
      have "lo h y - 1 < s' + sz - 1" using g None sl by simp
      then have "\<not> s' + sz - 1 < lo h y" using pred [of "s' + sz - 1"] leD by blast
      then show ?thesis using slotD(8) [OF sl yk] by blast
    qed
    have suc: "x < hi h y + 1 \<longleftrightarrow> x \<le> hi h y" "hi h y < x \<Longrightarrow> hi h y + 1 \<le> x" for x
    proof -
      have "unat (hi h y) < unat s" using beh [OF s] by (simp add: word_less_nat_alt)
      then have "unat (hi h y + 1) = unat (hi h y) + 1" using unat_add_small [of "hi h y" 1] unat_lt_32 [of s] by simp
      then show "x < hi h y + 1 \<longleftrightarrow> x \<le> hi h y" "hi h y < x \<Longrightarrow> hi h y + 1 \<le> x"
        by (auto simp: word_less_nat_alt word_le_nat_alt)
    qed
    show ?thesis unfolding e
    proof (rule Cons.IH [of "rs_sibling r" "as @ [y]"])
      show "hi h a < rs_end r + 1" if "a \<in> set (as @ [y])" for a
      proof -
        have "a = y \<or> hi h a < lo h y" using that srt by (auto simp: sorted_wrt_append)
        then have "hi h a \<le> hi h y" using ly by (meson less_imp_le order_refl order_trans)
        then show ?thesis using suc(1) [of "hi h a"] r by simp
      qed
      show "lo h (hd ys) \<noteq> 0" if "ys \<noteq> []"
      proof -
        have "hi h y < lo h (hd ys)" using srt that by (cases ys) (auto simp: sorted_wrt_append)
        then show ?thesis by auto
      qed
      show "rs_end r + 1 \<le> s'" if "slot h kids root sz mn mx k s'" for s'
        using suc(2) [OF beh [OF that]] r by simp
      have "lo h root \<le> hi h y" using iny ly by (meson order_trans)
      then show "lo h root \<le> rs_end r + 1" using suc(1) [of "lo h root"] r by simp
    qed (use Cons.prems r in auto)
  qed
qed

lemma tree_ok_outside:
  assumes "tree_ok h N kids" "x \<notin> N"
  shows "tree_ok (h(x := v)) N kids"
proof -
  have "node_ok (h(x := v)) N kids y" if y: "y \<in> N" for y
  proof -
    have sub: "set (kids y) \<subseteq> N" by (rule tree_okD(4) [OF assms(1) y])
    have ne: "z \<noteq> x" if "z \<in> insert y (set (kids y))" for z using that sub y assms(2) by auto
    have "chain (h(x := v)) (kid h y) (kids y)" using tree_okD(3) [OF assms(1) y] sub assms(2) by (subst path_upd) auto
    moreover have "sorted_wrt (\<lambda>y z. hi (h(x := v)) y < lo (h(x := v)) z) (kids y) = sorted_wrt (\<lambda>y z. hi h y < lo h z) (kids y)"
      by (rule sorted_wrt_cong) (use ne in simp)
    ultimately show ?thesis
      using assms(1) y sub ne unfolding tree_ok_def node_ok_def by (simp add: domIff)
  qed
  then show ?thesis using assms(1) by (simp add: tree_ok_def)
qed

lemma find_resource_sound:
  assumes t: "tree_ok h N kids" and root: "root \<in> N"
  shows "\<exists>r. find_resource h root sz mn mx al alignf = Some r \<and>
    (\<forall>a b. r = Some (a, b) \<longrightarrow> mn \<le> a \<and> b \<le> mx \<and> b = a + sz - 1 \<and> (alignf = simple_align_resource \<longrightarrow> (\<exists>x. a = align_up x al)))"
proof -
  obtain r where r: "h root = Some r" using tree_okD(1) [OF t root] by auto
  have ch: "chain h (rs_child r) (kids root)" using tree_okD(3) [OF t root] r by simp
  show ?thesis
  proof (cases "kids root")
    case Nil
    then show ?thesis using ch r find_loop_sound [of h None "[]"] by (simp add: find_resource_def)
  next
    case (Cons y ys)
    then obtain ry where ry: "rs_child r = Some y" "h y = Some ry" "chain h (rs_sibling ry) ys" using ch by auto
    show ?thesis
    proof (cases "rs_start ry = 0")
      case True
      then show ?thesis using find_loop_sound [OF ry(3)] r ry by (simp add: find_resource_def)
    next
      case False
      then show ?thesis using find_loop_sound [OF ch] r ry by (simp add: find_resource_def)
    qed
  qed
qed

lemma find_resource_takes:
  assumes t: "tree_ok h N kids" and root: "root \<in> N" and al: "unat al = 2 ^ k" and s: "slot h kids root sz mn mx k s"
  shows "\<exists>a. find_resource h root sz mn mx al simple_align_resource = Some (Some (a, a + sz - 1)) \<and>
    slot h kids root sz mn mx k a \<and> (\<forall>s'. slot h kids root sz mn mx k s' \<longrightarrow> a \<le> s')"
proof -
  obtain r where r: "h root = Some r" using tree_okD(1) [OF t root] by auto
  have ch: "chain h (rs_child r) (kids root)" using tree_okD(3) [OF t root] r by simp
  note takes = find_loop_takes [OF t root al s]
  show ?thesis
  proof (cases "kids root")
    case Nil
    then have "rs_child r = None" using ch by simp
    moreover have "\<exists>a. find_loop_resource h (hi h root) sz mn mx al simple_align_resource None (lo h root) = Some (Some (a, a + sz - 1)) \<and>
      slot h kids root sz mn mx k a \<and> (\<forall>s'. slot h kids root sz mn mx k s' \<longrightarrow> a \<le> s')"
      by (rule takes [of None "[]" "[]"]) (use Nil slotD(5) in auto)
    ultimately show ?thesis using r by (simp add: find_resource_def)
  next
    case (Cons y ys)
    then obtain ry where ry: "rs_child r = Some y" "h y = Some ry" "chain h (rs_sibling ry) ys" using ch by auto
    have yk: "y \<in> set (kids root)" using Cons by simp
    show ?thesis
    proof (cases "rs_start ry = 0")
      case False
      have "\<exists>a. find_loop_resource h (hi h root) sz mn mx al simple_align_resource (rs_child r) (lo h root) = Some (Some (a, a + sz - 1)) \<and>
        slot h kids root sz mn mx k a \<and> (\<forall>s'. slot h kids root sz mn mx k s' \<longrightarrow> a \<le> s')"
        by (rule takes [OF ch, of "[]"]) (use False Cons ry slotD(5) in auto)
      then show ?thesis using r ry False by (simp add: find_resource_def)
    next
      case True
      have beh: "hi h y < s'" if sl: "slot h kids root sz mn mx k s'" for s'
        using slotD(8) [OF sl yk] True ry by simp
      have "unat (hi h y) < unat s" using beh [OF s] by (simp add: word_less_nat_alt)
      then have u: "unat (hi h y + 1) = unat (hi h y) + 1" using unat_add_small [of "hi h y" 1] unat_lt_32 [of s] by simp
      have "\<exists>a. find_loop_resource h (hi h root) sz mn mx al simple_align_resource (rs_sibling ry) (hi h y + 1) = Some (Some (a, a + sz - 1)) \<and>
        slot h kids root sz mn mx k a \<and> (\<forall>s'. slot h kids root sz mn mx k s' \<longrightarrow> a \<le> s')"
      proof (rule takes [OF ry(3), of "[y]"])
        show "hi h y + 1 \<le> s'" if "slot h kids root sz mn mx k s'" for s'
          using beh [OF that] u by (simp add: word_less_nat_alt word_le_nat_alt)
        have "lo h root = 0" using tree_okD(6) [OF t root yk] True ry by simp
        then show "lo h root \<le> hi h y + 1" by simp
        show "hi h a < hi h y + 1" if "a \<in> set [y]" for a using that u by (simp add: word_less_nat_alt)
        show "lo h (hd ys) \<noteq> 0" if "ys \<noteq> []"
        proof -
          have "hi h y < lo h (hd ys)" using tree_okD(5) [OF t root] Cons that by (cases ys) auto
          then show ?thesis by auto
        qed
      qed (use Cons in simp)
      then show ?thesis using r ry True by (simp add: find_resource_def)
    qed
  qed
qed

lemma slot_cong:
  assumes "\<And>x. x \<in> insert root (set (kids root)) \<Longrightarrow> h' x = h x"
  shows "slot h' kids root sz mn mx k s = slot h kids root sz mn mx k s"
  using assms by (simp add: slot_def overlaps_def)

subsection \<open>Inserting with expansion\<close>

lemma insert_splice_ok:
  assumes t: "tree_ok h N kids" and p: "p \<in> N" and new: "new \<notin> N" "new \<in> dom h" and w: "within h new p"
    and as: "\<forall>a \<in> set as. hi h a < lo h new" and bs: "\<forall>b \<in> set bs. within h b new" and cs: "\<forall>c \<in> set cs. hi h new < lo h c"
    and s: "spliced h h' N kids p new as bs cs"
  shows "tree_ok h' (insert new N) (kids(p := as @ new # cs, new := bs))"
  by (rule splice_ok [OF t p new _ _ _ _ _ _ s]) (use w as bs cs in \<open>auto simp: within_def\<close>)

text \<open>Every resource of the forest with a parent pointer is a child of that parent.\<close>

definition linked :: "rheap \<Rightarrow> nat set \<Rightarrow> (nat \<Rightarrow> nat list) \<Rightarrow> bool" where
  "linked h N kids \<longleftrightarrow> (\<forall>x \<in> N. \<forall>p. par h x = Some p \<longrightarrow> p \<in> N \<and> x \<in> set (kids p))"

lemma linked_outside: "x \<notin> N \<Longrightarrow> linked h N kids \<Longrightarrow> linked (h(x := v)) N kids"
  by (auto simp: linked_def)

lemma linked_splice:
  assumes l: "linked h N kids" and p: "p \<in> N" and new: "new \<notin> N" and s: "spliced h h' N kids p new as bs cs"
  shows "linked h' (insert new N) (kids(p := as @ new # cs, new := bs))"
  unfolding linked_def
proof (intro ballI allI impI)
  fix x p' assume x: "x \<in> insert new N" and p': "par h' x = Some p'"
  have pn: "p \<noteq> new" using p new by auto
  show "p' \<in> insert new N \<and> x \<in> set ((kids(p := as @ new # cs, new := bs)) p')"
  proof (cases "x = new \<or> x \<in> set bs")
    case True
    then show ?thesis using s x p p' pn by (auto simp: spliced_def)
  next
    case False
    then have "par h x = Some p'" "x \<in> N" using s x p' by (auto simp: spliced_def)
    then have "p' \<in> N" "x \<in> set (kids p')" using l by (auto simp: linked_def)
    then show ?thesis using False s new by (auto simp: spliced_def)
  qed
qed

lemma expand_loop_spec:
  assumes t: "tree_ok h N kids" and q: "q \<in> N" and new: "new \<notin> N" "new \<in> dom h" "kid h new = None" and w: "within h new q"
  shows "\<exists>h' kids'. expand_loop h q new = Some h' \<and> tree_ok h' (insert new N) kids' \<and> (\<exists>p \<in> N. new \<in> set (kids' p)) \<and>
    dom h' = dom h \<and> (\<forall>x \<in> N. lo h' x = lo h x \<and> hi h' x = hi h x) \<and>
    lo h' new \<le> lo h new \<and> hi h new \<le> hi h' new \<and> within h' new q \<and> (linked h N kids \<longrightarrow> linked h' (insert new N) kids')"
  using assms
proof (induction "unat (lo h new) + (2 ^ 32 - unat (hi h new))" arbitrary: h rule: less_induct)
  case less
  note t = less.prems(1) and new = less.prems(3,4,5) and w = less.prems(6)
  consider (no) "\<not> within h new q" | (part) c where "c \<in> N" "c \<noteq> q" "within h c q" "raw_insert_resource h q new = Some (Some c, h)"
      "overlaps h (lo h new) (hi h new) c" "lo h c < lo h new \<or> hi h new < hi h c"
    | (ins) p h' as bs cs where "raw_insert_resource h q new = Some (None, h')" "p \<in> N" "within h new p" "kids p = as @ bs @ cs"
      "\<forall>a \<in> set as. hi h a < lo h new" "\<forall>b \<in> set bs. within h b new" "\<forall>c \<in> set cs. hi h new < lo h c" "spliced h h' N kids p new as bs cs"
    using raw_insert_resource_spec [OF t q new] by blast
  then show ?case
  proof cases
    case no
    with w show ?thesis by blast
  next
    case ins
    have e: "expand_loop h q new = Some h'" using ins(1) by (subst expand_loop.simps) simp
    have ok: "tree_ok h' (insert new N) (kids(p := as @ new # cs, new := bs))"
      by (rule insert_splice_ok [OF t ins(2) new(1,2) ins(3,5,6,7,8)])
    have sr: "same_ranges h h'" using ins(8) by (simp add: spliced_def)
    have "p \<noteq> new" using ins(2) new by auto
    then have "new \<in> set ((kids(p := as @ new # cs, new := bs)) p)" by simp
    moreover have "\<forall>x \<in> N. lo h' x = lo h x \<and> hi h' x = hi h x" using sr tree_okD(1) [OF t] by (simp add: same_ranges_def)
    moreover have "lo h' new = lo h new" "hi h' new = hi h new" "dom h' = dom h" using sr new(2) by (simp_all add: same_ranges_def)
    moreover have "within h' new q" using w calculation q by (simp add: within_def)
    moreover have "linked h N kids \<longrightarrow> linked h' (insert new N) (kids(p := as @ new # cs, new := bs))"
      using linked_splice [OF _ ins(2) new(1) ins(8)] by blast
    ultimately show ?thesis using e ok ins(2) by (intro exI conjI bexI) (assumption | simp)+
  next
    case part
    define n where "n = the (h new)"
    define n1 where "n1 = (if lo h c < rs_start n then n\<lparr>rs_start := lo h c\<rparr> else n)"
    define n2 where "n2 = (if hi h c > rs_end n1 then n1\<lparr>rs_end := hi h c\<rparr> else n1)"
    let ?h = "h(new \<mapsto> n2)"
    have hn: "h new = Some n" using new(2) by (auto simp: n_def)
    obtain rc where rc: "h c = Some rc" using tree_okD(1) [OF t part(1)] by auto
    have e: "expand_loop h q new = expand_loop ?h q new"
      using part(2,4) hn rc by (subst expand_loop.simps) (simp add: Let_def n1_def n2_def)
    have n2: "rs_start n2 = (if lo h c < lo h new then lo h c else lo h new)" "rs_end n2 = (if hi h new < hi h c then hi h c else hi h new)"
      "rs_child n2 = kid h new" using hn by (auto simp: n1_def n2_def)
    have ov: "lo h c \<le> hi h new" "lo h new \<le> hi h c" using part(5) by (auto simp: overlaps_def not_less)
    have m: "unat (lo ?h new) + (2 ^ 32 - unat (hi ?h new)) < unat (lo h new) + (2 ^ 32 - unat (hi h new))"
      using part(6) n2 unat_lt_32 [of "hi h new"] unat_lt_32 [of "hi h c"] by (auto simp: word_less_nat_alt)
    have t': "tree_ok ?h N kids" by (rule tree_ok_outside [OF t new(1)])
    have "within ?h new q" using w part(3) ov n2 new(1) q by (auto simp: within_def)
    moreover have "new \<in> dom ?h" "kid ?h new = None" using n2 new by simp_all
    ultimately obtain h' kids' where IH: "expand_loop ?h q new = Some h'" "tree_ok h' (insert new N) kids'" "\<exists>p \<in> N. new \<in> set (kids' p)"
      "dom h' = dom ?h" "\<forall>x \<in> N. lo h' x = lo ?h x \<and> hi h' x = hi ?h x" "lo h' new \<le> lo ?h new" "hi ?h new \<le> hi h' new" "within h' new q"
      "linked ?h N kids \<longrightarrow> linked h' (insert new N) kids'"
      using less.hyps [OF m t' q new(1)] by blast
    have "\<forall>x \<in> N. lo h' x = lo h x \<and> hi h' x = hi h x" using IH(5) new(1) by auto
    moreover have "lo h' new \<le> lo h new" "hi h new \<le> hi h' new" using IH(6,7) n2 by (auto intro: order_trans split: if_splits)
    moreover have "dom h' = dom h" using IH(4) new(2) by auto
    moreover have "linked h N kids \<longrightarrow> linked h' (insert new N) kids'" using IH(9) linked_outside [OF new(1)] by blast
    ultimately show ?thesis using e IH(1,2,3,8) by (intro exI [of _ h'] exI [of _ kids']) simp
  qed
qed

end
