(* ===== verification/ResourceTree.thy ===== *)
theory ResourceTree
  imports ResourceInsert
begin

text \<open>
  The theorems on the tree of address ranges: the outcome of every operation in both directions, what any history of
  operations keeps, how reserving with splits covers a range, and how regions are requested and released. The locale
  \<open>forest_linking\<close> states the contract that requesting, inserting and allocating share.
\<close>



subsection \<open>The results\<close>

lemma tree_ok_mono:
  assumes "tree_ok h N kids" "M \<subseteq> N" "\<forall>x \<in> M. set (kids' x) \<subseteq> M \<and> kids' x = kids x"
  shows "tree_ok h M kids'"
proof -
  have "node_ok h M kids' x" if "x \<in> M" for x
  proof -
    have "set (kids x) \<subseteq> M" "kids' x = kids x" using assms(3) that by metis+
    then show ?thesis using tree_okD [OF assms(1) subsetD [OF assms(2) that]] unfolding node_ok_def by simp
  qed
  moreover have "ranked M kids'" using assms unfolding tree_ok_def ranked_def by (metis subsetD)
  ultimately show ?thesis by (simp add: tree_ok_def)
qed

lemma find_None_overlaps: "find P xs = None \<longleftrightarrow> (\<forall>x \<in> set xs. \<not> P x)"
  by (auto simp: find_None_iff)

text \<open>Requesting on the forest: success is a splice, failure leaves the heap alone.\<close>

lemma request_resource_splice:
  assumes t: "tree_ok h N kids" and root: "root \<in> N" and new: "new \<notin> N" "new \<in> dom h" "kid h new = None"
    and w: "within h new root" and free: "\<forall>c \<in> set (kids root). \<not> overlaps h (lo h new) (hi h new) c"
  shows "\<exists>h' as cs. request_resource h root new = Some (0, h') \<and> kids root = as @ cs \<and> spliced h h' N kids root new as [] cs \<and>
    tree_ok h' (insert new N) (kids(root := as @ new # cs, new := []))"
proof -
  have "\<not> (hi h new < lo h new \<or> lo h new < lo h root \<or> hi h root < hi h new)" using w by (auto simp: within_def not_less)
  moreover have "find (overlaps h (lo h new) (hi h new)) (kids root) = None" using free by (simp add: find_None_overlaps)
  ultimately obtain h' as cs where r: "raw_request_resource h root new = Some (None, h')" "kids root = as @ cs"
    "\<forall>a \<in> set as. hi h a < lo h new" "\<forall>c \<in> set cs. hi h new < lo h c" "spliced h h' N kids root new as [] cs"
    using raw_request_resource_spec [OF t root new] by auto
  have "tree_ok h' (insert new N) (kids(root := as @ new # cs, new := []))"
    using insert_splice_ok [OF t root new(1,2) w r(3) _ r(4,5)] by simp
  then show ?thesis using r by (auto simp: request_resource_def)
qed

lemma request_resource_refused:
  assumes t: "tree_ok h N kids" and root: "root \<in> N" and new: "new \<notin> N" "new \<in> dom h" "kid h new = None"
    and no: "\<not> (within h new root \<and> (\<forall>c \<in> set (kids root). \<not> overlaps h (lo h new) (hi h new) c))"
  shows "request_resource h root new = Some (- EBUSY, h)"
proof (cases "within h new root")
  case False
  then have "hi h new < lo h new \<or> lo h new < lo h root \<or> hi h root < hi h new" by (auto simp: within_def not_le)
  then show ?thesis using raw_request_resource_spec [OF t root new] by (simp add: request_resource_def)
next
  case True
  then have "\<not> (hi h new < lo h new \<or> lo h new < lo h root \<or> hi h root < hi h new)" by (auto simp: within_def not_less)
  moreover from True no have "find (overlaps h (lo h new) (hi h new)) (kids root) \<noteq> None" by (auto simp: find_None_overlaps)
  ultimately show ?thesis using raw_request_resource_spec [OF t root new]
    by (auto simp: request_resource_def split: option.splits)
qed

text \<open>Requesting a resource, which must not be in the tree yet and have no children, under a root of a well-formed tree always
  returns. It succeeds exactly if the range is not empty, lies inside the root and meets the range of no child of the root; the
  resource is then one of the children, at its place in the order, the tree is well formed and no range has changed. Otherwise
  the call returns \<open>-EBUSY\<close> and has changed nothing.\<close>

theorem request_resource_exact:
  assumes "tree_ok h N kids" "root \<in> N" "new \<notin> N" "new \<in> dom h" "kid h new = None"
  shows "if within h new root \<and> (\<forall>c \<in> set (kids root). \<not> overlaps h (lo h new) (hi h new) c)
    then \<exists>h' as cs. request_resource h root new = Some (0, h') \<and> kids root = as @ cs \<and> same_ranges h h' \<and>
      tree_ok h' (insert new N) (kids(root := as @ new # cs, new := []))
    else request_resource h root new = Some (- EBUSY, h)"
proof (cases "within h new root \<and> (\<forall>c \<in> set (kids root). \<not> overlaps h (lo h new) (hi h new) c)")
  case True
  with request_resource_splice [OF assms] show ?thesis by (auto simp: spliced_def)
next
  case False
  then show ?thesis using request_resource_refused [OF assms False] by (simp only: if_False)
qed

text \<open>Releasing a resource that was just requested brings the tree back: the release returns 0, the forest is the one
  before the request, no range has changed, and the resource has no parent, so that it can be requested again.\<close>

theorem request_release_roundtrip:
  assumes t: "tree_ok h N kids" and root: "root \<in> N" and new: "new \<notin> N" "new \<in> dom h" "kid h new = None"
    and ok: "request_resource h root new = Some (0, h')"
  shows "\<exists>h''. release_resource h' new = Some (0, h'') \<and> tree_ok h'' N kids \<and> same_ranges h h'' \<and>
    par h'' new = None \<and> kid h'' new = None"
proof -
  have "within h new root \<and> (\<forall>c \<in> set (kids root). \<not> overlaps h (lo h new) (hi h new) c)"
    using request_resource_refused [OF t root new] ok by (cases "within h new root \<and> (\<forall>c \<in> set (kids root). \<not> overlaps h (lo h new) (hi h new) c)") auto
  then obtain as cs where s: "kids root = as @ cs" "spliced h h' N kids root new as [] cs"
    "tree_ok h' (insert new N) (kids(root := as @ new # cs, new := []))" (is "tree_ok h' ?N ?kids")
    using request_resource_splice [OF t root new] ok by auto
  have rn: "root \<noteq> new" using root new by auto
  then have "?kids root = as @ new # cs" by simp
  from release_resource_spec [OF s(3) _ this] root obtain h'' where r: "release_resource h' new = Some (0, h'')" "same_ranges h' h''"
    "par h'' new = None" "kid h'' new = kid h' new" "tree_ok h'' ?N (?kids(root := as @ cs))" by blast
  have "tree_ok h'' N kids"
    by (rule tree_ok_mono [OF r(5)]) (use tree_okD(4) [OF t] new rn s in auto)
  moreover have "same_ranges h h''" using s(2) r(2) by (auto simp: spliced_def intro: same_ranges_trans)
  moreover have "kid h' new = None" using s(2) by (auto simp: spliced_def)
  ultimately show ?thesis using r by auto
qed

lemma align_up_dvd:
  assumes "unat al = 2 ^ k"
  shows "2 ^ k dvd unat (align_up x al)"
proof -
  have "al = word_of_nat (2 ^ k)" using assms by (metis of_nat_unat ucast_id)
  then have "al - 1 = mask k" by (simp add: mask_eq_exp_minus_1)
  then have "take_bit k (align_up x al) = 0" unfolding align_up_def by (intro bit_word_eqI) (simp add: bit_simps)
  then have "take_bit k (unat (align_up x al)) = 0" by (metis take_bit_word_eq_self unsigned_take_bit_eq unsigned_0)
  then show ?thesis by (simp add: take_bit_eq_0_iff)
qed

lemma no_wrap_last:
  assumes "0 < unat (sz :: u32)" "a \<le> a + sz - 1"
  shows "unat a + unat sz \<le> 2 ^ 32"
proof (rule ccontr)
  assume "\<not> ?thesis"
  moreover have "sz \<noteq> 0" using assms(1) by auto
  then have "unat (sz - 1) = unat sz - 1" by (simp add: unat_minus_one)
  ultimately have w: "2 ^ 32 \<le> unat a + unat (sz - 1)" by simp
  have e: "a + sz - 1 = a + (sz - 1)" by simp
  have "unat (a + sz - 1) = (unat a + unat (sz - 1)) mod 2 ^ 32" unfolding e using unat_word_ariths(1) [of a "sz - 1"] by simp
  also have "\<dots> = unat a + unat (sz - 1) - 2 ^ 32"
    using w unat_lt_32 [of a] unat_lt_32 [of "sz - 1"] by (subst le_mod_geq) auto
  also have "\<dots> < unat a" using w unat_lt_32 [of "sz - 1"] by linarith
  finally show False using assms(2) by (simp add: word_le_nat_alt)
qed

text \<open>C11. Inserting a resource below a root of a well-formed tree always returns. It is refused, with nothing changed, if its range
  is empty or not inside the root, or if some resource below the root overlaps it in part, neither range containing the other. Otherwise it becomes a
  child of a resource that contains it and takes over those of its children that lie inside it; the tree is well
  formed and no range has changed.\<close>

theorem insert_resource_exact:
  assumes "tree_ok h N kids" "q \<in> N" "new \<notin> N" "new \<in> dom h" "kid h new = None"
  shows "(\<not> within h new q \<and> insert_resource h q new = Some (- EBUSY, h)) \<or>
    (\<exists>c \<in> N. within h new q \<and> within h c q \<and> overlaps h (lo h new) (hi h new) c \<and> \<not> within h c new \<and> \<not> within h new c \<and>
      insert_resource h q new = Some (- EBUSY, h)) \<or>
    (\<exists>p h' as bs cs. insert_resource h q new = Some (0, h') \<and> p \<in> N \<and> within h new p \<and> kids p = as @ bs @ cs \<and>
      (\<forall>b \<in> set bs. within h b new) \<and> same_ranges h h' \<and> tree_ok h' (insert new N) (kids(p := as @ new # cs, new := bs)))"
  using raw_insert_resource_spec [OF assms]
proof (elim disjE bexE exE conjE)
  fix p h' as bs cs assume i: "raw_insert_resource h q new = Some (None, h')" "p \<in> N" "within h new p" "kids p = as @ bs @ cs"
    "\<forall>a \<in> set as. hi h a < lo h new" "\<forall>b \<in> set bs. within h b new" "\<forall>c \<in> set cs. hi h new < lo h c" "spliced h h' N kids p new as bs cs"
  have "tree_ok h' (insert new N) (kids(p := as @ new # cs, new := bs))"
    by (rule insert_splice_ok [OF assms(1) i(2) assms(3,4) i(3,5,6,7,8)])
  moreover have "same_ranges h h'" using i(8) by (simp add: spliced_def)
  moreover have "insert_resource h q new = Some (0, h')" using i(1) by (simp add: insert_resource_def)
  ultimately show ?thesis using i by blast
qed (auto simp: insert_resource_def within_def not_less not_le)

text \<open>C23. Inserting with expansion ends: the loop that widens a new resource by the resources it overlaps in part terminates, with the
  resource below the root, covering at least the range it was given and still inside the root, in a well-formed tree
  where no other range has changed.\<close>

theorem insert_expand_ends_covering:
  assumes t: "tree_ok h N kids" and q: "q \<in> N" and new: "new \<notin> N" "new \<in> dom h" "kid h new = None" "par h new = None"
    and w: "within h new q"
  shows "\<exists>h' kids'. insert_resource_expand_to_fit h q new = Some h' \<and> tree_ok h' (insert new N) kids' \<and>
    (\<exists>p \<in> N. new \<in> set (kids' p)) \<and> (\<forall>x \<in> N. lo h' x = lo h x \<and> hi h' x = hi h x) \<and>
    lo h' new \<le> lo h new \<and> hi h new \<le> hi h' new \<and> within h' new q"
proof -
  have "insert_resource_expand_to_fit h q new = expand_loop h q new"
    using new by (auto simp: insert_resource_expand_to_fit_def)
  then show ?thesis using expand_loop_spec [OF t q new(1-3) w] by auto
qed

text \<open>Moving or resizing a resource of the tree to a range that does not wrap always returns. It succeeds exactly if
  the new range lies inside the parent, contains all the children and stays clear of the siblings before and after; only this range
  changes and the tree is well formed. Otherwise \<open>-EBUSY\<close> is returned and nothing has changed.\<close>

theorem adjust_resource_exact:
  assumes t: "tree_ok h N kids" and p: "p \<in> N" "kids p = as @ x # cs" and sz: "0 < unat sz" "unat start + unat sz \<le> 2 ^ 32"
  shows "if can_adjust h kids p as x cs start (start + sz - 1)
    then \<exists>h'. adjust_resource h x start sz = Some (0, h') \<and> h' = h(x \<mapsto> (the (h x))\<lparr>rs_start := start, rs_end := start + sz - 1\<rparr>) \<and>
      tree_ok h' N kids
    else adjust_resource h x start sz = Some (- EBUSY, h)"
  using adjust_resource_spec [OF t p, of start sz] adjust_ok [OF t p _ unat_last(2) [OF sz]] by simp

subsection \<open>Allocation\<close>

lemma find_resource_returns:
  assumes "tree_ok h N kids" "root \<in> N" "unat al = 2 ^ k"
  shows "\<exists>r. find_resource h root sz mn mx al simple_align_resource = Some r \<and>
    (\<forall>ab. r = Some ab \<longrightarrow> mn \<le> fst ab \<and> snd ab \<le> mx \<and> snd ab = fst ab + sz - 1 \<and> 2 ^ k dvd unat (fst ab))"
  using find_resource_sound [OF assms(1,2), of sz mn mx al simple_align_resource] align_up_dvd [OF assms(3)] by fastforce

text \<open>The new resource with a range written to it can be requested exactly where the range is a slot.\<close>

lemma slot_requestable:
  assumes t: "tree_ok h N kids" and root: "root \<in> N" and new: "new \<notin> N" "new \<in> dom h"
    and sz: "0 < unat sz" and k: "2 ^ k dvd unat a" and m: "mn \<le> a" "a + sz - 1 \<le> mx"
  defines "h1 \<equiv> h(new \<mapsto> (the (h new))\<lparr>rs_start := a, rs_end := a + sz - 1\<rparr>)"
  shows "(within h1 new root \<and> (\<forall>c \<in> set (kids root). \<not> overlaps h1 (lo h1 new) (hi h1 new) c)) = slot h kids root sz mn mx k a"
proof -
  have r: "root \<noteq> new" using root new by auto
  have f: "lo h1 new = a" "hi h1 new = a + sz - 1" "lo h1 root = lo h root" "hi h1 root = hi h root" using r by (simp_all add: h1_def)
  have o: "overlaps h1 s e c = overlaps h s e c" if "c \<in> set (kids root)" for s e c
    using that tree_okD(4) [OF t root] new by (auto simp: overlaps_def h1_def)
  show ?thesis unfolding slot_def within_def f using o sz k m no_wrap_last [OF sz, of a] unat_last(2) [OF sz, of a] by auto
qed

text \<open>C12. Allocating a range of a size that is not zero, at an address that is a multiple of a power of two and between two limits, always
  returns. If the free space of the root has such a range, the call succeeds and the range is the lowest one; the resource is a child of the root in a
  well-formed tree, and no other range has changed. If there is none, the call returns \<open>-EBUSY\<close> and has changed at most the
  new resource.\<close>

theorem allocate_resource_first_fit:
  assumes t: "tree_ok h N kids" and root: "root \<in> N" and new: "new \<notin> N" "new \<in> dom h" "kid h new = None"
    and al: "unat al = 2 ^ k" and sz: "0 < unat sz"
  shows "if \<exists>s. slot h kids root sz mn mx k s
    then \<exists>s h' as cs. allocate_resource h root new sz mn mx al None = Some (0, h') \<and> slot h kids root sz mn mx k s \<and>
      (\<forall>s'. slot h kids root sz mn mx k s' \<longrightarrow> s \<le> s') \<and> lo h' new = s \<and> hi h' new = s + sz - 1 \<and>
      (\<forall>x \<in> N. lo h' x = lo h x \<and> hi h' x = hi h x) \<and> kids root = as @ cs \<and>
      tree_ok h' (insert new N) (kids(root := as @ new # cs, new := []))
    else \<exists>h'. allocate_resource h root new sz mn mx al None = Some (- EBUSY, h') \<and> (\<forall>x. x \<noteq> new \<longrightarrow> h' x = h x)"
proof -
  let ?u = "\<lambda>a. h(new \<mapsto> (the (h new))\<lparr>rs_start := a, rs_end := a + sz - 1\<rparr>)"
  let ?ar = "allocate_resource h root new sz mn mx al None"
  have u: "tree_ok (?u a) N kids" "new \<in> dom (?u a)" "kid (?u a) new = None" for a
    using tree_ok_outside [OF t new(1)] new by auto
  have ar: "?ar = request_resource (?u a) root new"
    if "find_resource h root sz mn mx al simple_align_resource = Some (Some (a, a + sz - 1))" for a
    using that new(2) by (auto simp: allocate_resource_def upd_def request_resource_def)
  show ?thesis
  proof (cases "\<exists>s. slot h kids root sz mn mx k s")
    case True
    then obtain a where a: "find_resource h root sz mn mx al simple_align_resource = Some (Some (a, a + sz - 1))"
      "slot h kids root sz mn mx k a" "\<forall>s'. slot h kids root sz mn mx k s' \<longrightarrow> a \<le> s'"
      using find_resource_takes [OF t root al] by blast
    note sd = slotD [OF a(2)]
    have "within (?u a) new root \<and> (\<forall>c \<in> set (kids root). \<not> overlaps (?u a) (lo (?u a) new) (hi (?u a) new) c)"
      using slot_requestable [OF t root new(1,2) sz sd(1,4,6)] a(2) by simp
    from request_resource_splice [OF u(1) root new(1) u(2,3) conjunct1 [OF this] conjunct2 [OF this]]
    obtain h' as cs where r: "request_resource (?u a) root new = Some (0, h')" "kids root = as @ cs" "spliced (?u a) h' N kids root new as [] cs"
      "tree_ok h' (insert new N) (kids(root := as @ new # cs, new := []))" by blast
    have sr: "same_ranges (?u a) h'" using r(3) by (simp add: spliced_def)
    have "lo h' new = a" "hi h' new = a + sz - 1" using sr u(2) [of a] by (simp_all add: same_ranges_def)
    moreover have "\<forall>x \<in> N. lo h' x = lo h x \<and> hi h' x = hi h x"
      using sr new(1) tree_okD(1) [OF t] by (auto simp: same_ranges_def)
    ultimately show ?thesis using True a r ar [OF a(1)] by (simp only: if_True) blast
  next
    case False
    obtain f where f: "find_resource h root sz mn mx al simple_align_resource = Some f"
      "\<forall>ab. f = Some ab \<longrightarrow> mn \<le> fst ab \<and> snd ab \<le> mx \<and> snd ab = fst ab + sz - 1 \<and> 2 ^ k dvd unat (fst ab)"
      using find_resource_returns [OF t root al] by blast
    have "\<exists>h'. ?ar = Some (- EBUSY, h') \<and> (\<forall>x. x \<noteq> new \<longrightarrow> h' x = h x)"
    proof (cases f)
      case None
      then show ?thesis using f by (simp add: allocate_resource_def)
    next
      case (Some ab)
      then obtain a where a: "ab = (a, a + sz - 1)" "mn \<le> a" "a + sz - 1 \<le> mx" "2 ^ k dvd unat a" using f(2) by (cases ab) auto
      have "\<not> (within (?u a) new root \<and> (\<forall>c \<in> set (kids root). \<not> overlaps (?u a) (lo (?u a) new) (hi (?u a) new) c))"
        using slot_requestable [OF t root new(1,2) sz a(4,2,3)] False by simp
      from request_resource_refused [OF u(1) root new(1) u(2,3) this] have "?ar = Some (- EBUSY, ?u a)"
        using ar [of a] f(1) Some a(1) by (simp only: )
      then show ?thesis by simp
    qed
    then show ?thesis using False by simp
  qed
qed

subsection \<open>Histories\<close>

text \<open>The states that callers can bring about: the heap and the resources that are in the forest. Callers write only resources that are not in the
  forest, link in only such ones, without children, and give ranges that do not wrap; a released resource without children may leave.\<close>

inductive rstep :: "rheap \<times> nat set \<Rightarrow> rheap \<times> nat set \<Rightarrow> bool" where
  rs_write: "x \<notin> N \<Longrightarrow> rstep (h, N) (h(x := v), N)"
| rs_request: "request_resource h root new = Some (r, h') \<Longrightarrow> root \<in> N \<Longrightarrow> new \<notin> N \<Longrightarrow> h new = Some n \<Longrightarrow> rs_child n = None \<Longrightarrow>
    rstep (h, N) (h', if r = 0 then insert new N else N)"
| rs_release: "release_resource h old = Some (r, h') \<Longrightarrow> old \<in> N \<Longrightarrow> rstep (h, N) (h', N)"
| rs_leave: "h x = Some r \<Longrightarrow> rs_parent r = None \<Longrightarrow> rs_child r = None \<Longrightarrow> rstep (h, N) (h, N - {x})"
| rs_insert: "insert_resource h root new = Some (r, h') \<Longrightarrow> root \<in> N \<Longrightarrow> new \<notin> N \<Longrightarrow> h new = Some n \<Longrightarrow> rs_child n = None \<Longrightarrow>
    rstep (h, N) (h', if r = 0 then insert new N else N)"
| rs_expand: "insert_resource_expand_to_fit h root new = Some h' \<Longrightarrow> root \<in> N \<Longrightarrow> new \<notin> N \<Longrightarrow> h new = Some n \<Longrightarrow>
    rs_child n = None \<Longrightarrow> rs_parent n = None \<Longrightarrow> within h new root \<Longrightarrow> rstep (h, N) (h', insert new N)"
| rs_adjust: "adjust_resource h x start sz = Some (r, h') \<Longrightarrow> x \<in> N \<Longrightarrow> 0 < unat sz \<Longrightarrow> unat start + unat sz \<le> 2 ^ 32 \<Longrightarrow>
    rstep (h, N) (h', N)"
| rs_allocate: "allocate_resource h root new sz mn mx al alignf = Some (r, h') \<Longrightarrow> root \<in> N \<Longrightarrow> new \<notin> N \<Longrightarrow> h new = Some n \<Longrightarrow>
    rs_child n = None \<Longrightarrow> rstep (h, N) (h', if r = 0 then insert new N else N)"

definition forest :: "rheap \<Rightarrow> nat set \<Rightarrow> bool" where
  "forest h N \<longleftrightarrow> (\<exists>kids. tree_ok h N kids \<and> linked h N kids)"

lemma forest_outside: "forest h N \<Longrightarrow> x \<notin> N \<Longrightarrow> forest (h(x := v)) N"
  unfolding forest_def using tree_ok_outside linked_outside by blast

lemma forest_request:
  assumes f: "forest h N" and r: "request_resource h root new = Some (r, h')" "root \<in> N" "new \<notin> N" "new \<in> dom h" "kid h new = None"
  shows "forest h' (if r = 0 then insert new N else N)"
proof -
  obtain kids where k: "tree_ok h N kids" "linked h N kids" using f by (auto simp: forest_def)
  show ?thesis
  proof (cases "within h new root \<and> (\<forall>c \<in> set (kids root). \<not> overlaps h (lo h new) (hi h new) c)")
    case True
    then obtain as cs where s: "r = 0" "spliced h h' N kids root new as [] cs"
      "tree_ok h' (insert new N) (kids(root := as @ new # cs, new := []))"
      using request_resource_splice [OF k(1) r(2-5)] r(1) by auto
    with linked_splice [OF k(2) r(2,3) s(2)] show ?thesis by (auto simp: forest_def)
  next
    case False
    from request_resource_refused [OF k(1) r(2-5) this] r(1) f show ?thesis by simp
  qed
qed

lemma forest_insert:
  assumes f: "forest h N" and r: "insert_resource h root new = Some (r, h')" "root \<in> N" "new \<notin> N" "new \<in> dom h" "kid h new = None"
  shows "forest h' (if r = 0 then insert new N else N)"
proof -
  obtain kids where k: "tree_ok h N kids" "linked h N kids" using f by (auto simp: forest_def)
  from raw_insert_resource_spec [OF k(1) r(2-5)] show ?thesis
  proof (elim disjE bexE exE conjE)
    fix p h2 as bs cs assume i: "raw_insert_resource h root new = Some (None, h2)" "p \<in> N" "within h new p" "kids p = as @ bs @ cs"
      "\<forall>a \<in> set as. hi h a < lo h new" "\<forall>b \<in> set bs. within h b new" "\<forall>c \<in> set cs. hi h new < lo h c" "spliced h h2 N kids p new as bs cs"
    have e: "r = 0" "h2 = h'" using i(1) r(1) by (auto simp: insert_resource_def)
    have "tree_ok h2 (insert new N) (kids(p := as @ new # cs, new := bs))"
      by (rule insert_splice_ok [OF k(1) i(2) r(3,4) i(3,5,6,7,8)])
    with linked_splice [OF k(2) i(2) r(3) i(8)] show ?thesis by (auto simp: forest_def e)
  qed (use r(1) f in \<open>auto simp: insert_resource_def\<close>)
qed

lemma forest_member:
  assumes "tree_ok h N kids" "linked h N kids" "x \<in> N" "par h x = Some p"
  obtains as cs where "p \<in> N" "kids p = as @ x # cs"
  using assms unfolding linked_def by (metis split_list)

lemma forest_release:
  assumes f: "forest h N" and r: "release_resource h old = Some (r, h')" "old \<in> N"
  shows "forest h' N"
proof -
  obtain kids where k: "tree_ok h N kids" "linked h N kids" using f by (auto simp: forest_def)
  obtain p where p: "par h old = Some p" using r(1) tree_okD(1) [OF k(1) r(2)] by (cases "par h old") (auto simp: release_resource_def)
  obtain as cs where s: "p \<in> N" "kids p = as @ old # cs" by (rule forest_member [OF k r(2) p])
  obtain h2 where h2: "release_resource h old = Some (0, h2)" "par h2 old = None" "\<forall>x. x \<noteq> old \<longrightarrow> par h2 x = par h x"
    "tree_ok h2 N (kids(p := as @ cs))" using release_resource_spec [OF k(1) s] by blast
  have "linked h2 N (kids(p := as @ cs))" unfolding linked_def
  proof (intro ballI allI impI)
    fix x q assume x: "x \<in> N" "par h2 x = Some q"
    then have "x \<noteq> old" using h2(2) by auto
    then have "q \<in> N" "x \<in> set (kids q)" using x h2(3) k(2) by (auto simp: linked_def)
    then show "q \<in> N \<and> x \<in> set ((kids(p := as @ cs)) q)" using s(2) \<open>x \<noteq> old\<close> by auto
  qed
  with h2(1,4) r(1) show ?thesis by (auto simp: forest_def)
qed

lemma forest_leave:
  assumes f: "forest h N" and x: "h x = Some r" "rs_parent r = None" "rs_child r = None"
  shows "forest h (N - {x})"
proof -
  obtain kids where k: "tree_ok h N kids" "linked h N kids" using f by (auto simp: forest_def)
  have nk: "x \<notin> set (kids y)" if "y \<in> N" for y using tree_okD(6) [OF k(1) that, of x] x by auto
  have "tree_ok h (N - {x}) kids"
    by (rule tree_ok_mono [OF k(1)]) (use nk tree_okD(4) [OF k(1)] in auto)
  moreover have "linked h (N - {x}) kids" unfolding linked_def
  proof (intro ballI allI impI)
    fix y p assume y: "y \<in> N - {x}" "par h y = Some p"
    then have p: "p \<in> N" "y \<in> set (kids p)" using k(2) by (auto simp: linked_def)
    have "p \<noteq> x"
    proof
      assume "p = x"
      then have "chain h None (kids x)" using tree_okD(3) [OF k(1) p(1)] x by simp
      then show False using p(2) \<open>p = x\<close> by (cases "kids x") auto
    qed
    then show "p \<in> N - {x} \<and> y \<in> set (kids p)" using p by simp
  qed
  ultimately show ?thesis by (auto simp: forest_def)
qed

lemma forest_expand:
  assumes f: "forest h N" and r: "insert_resource_expand_to_fit h root new = Some h'" "root \<in> N" "new \<notin> N" "new \<in> dom h" "kid h new = None"
    "par h new = None" "within h new root"
  shows "forest h' (insert new N)"
proof -
  obtain kids where k: "tree_ok h N kids" "linked h N kids" using f by (auto simp: forest_def)
  have "expand_loop h root new = Some h'" using r(1,4,6) by (auto simp: insert_resource_expand_to_fit_def)
  then show ?thesis using expand_loop_spec [OF k(1) r(2-5,7)] k(2) by (auto simp: forest_def)
qed

lemma forest_adjust:
  assumes f: "forest h N" and r: "adjust_resource h x start sz = Some (r, h')" "x \<in> N" "0 < unat sz" "unat start + unat sz \<le> 2 ^ 32"
  shows "forest h' N"
proof -
  obtain kids where k: "tree_ok h N kids" "linked h N kids" using f by (auto simp: forest_def)
  obtain p where p: "par h x = Some p" using r(1) tree_okD(1) [OF k(1) r(2)] by (cases "par h x") (auto simp: adjust_resource_def)
  obtain as cs where s: "p \<in> N" "kids p = as @ x # cs" by (rule forest_member [OF k r(2) p])
  show ?thesis
  proof (cases "can_adjust h kids p as x cs start (start + sz - 1)")
    case True
    then have "h' = h(x \<mapsto> (the (h x))\<lparr>rs_start := start, rs_end := start + sz - 1\<rparr>)"
      using adjust_resource_spec [OF k(1) s, of start sz] r(1) by simp
    moreover have "linked h' N kids" using k(2) unfolding calculation by (auto simp: linked_def)
    ultimately show ?thesis using adjust_ok [OF k(1) s True unat_last(2) [OF r(3,4)]] by (auto simp: forest_def)
  next
    case False
    then show ?thesis using adjust_resource_spec [OF k(1) s, of start sz] r(1) f by simp
  qed
qed

lemma forest_allocate:
  assumes f: "forest h N" and r: "allocate_resource h root new sz mn mx al alignf = Some (r, h')" "root \<in> N" "new \<notin> N" "new \<in> dom h" "kid h new = None"
  shows "forest h' (if r = 0 then insert new N else N)"
proof -
  let ?f = "case alignf of None \<Rightarrow> simple_align_resource | Some f \<Rightarrow> f"
  obtain found where fd: "find_resource h root sz mn mx al ?f = Some found"
    using r(1) by (auto simp: allocate_resource_def bind_eq_Some_conv)
  show ?thesis
  proof (cases found)
    case None
    then show ?thesis using r(1) fd f by (simp add: allocate_resource_def)
  next
    case (Some ab)
    let ?h = "h(new \<mapsto> (the (h new))\<lparr>rs_start := fst ab, rs_end := snd ab\<rparr>)"
    have "request_resource ?h root new = Some (r, h')"
      using r(1,4) fd Some by (auto simp: allocate_resource_def request_resource_def upd_def)
    from forest_request [OF forest_outside [OF f r(3)] this r(2,3)] show ?thesis using r(5) by simp
  qed
qed

text \<open>The contract of an operation that tries to link a resource in: whatever it returns, the forest is one afterwards, with the new
  resource in it if the result is 0.\<close>

locale forest_linking =
  fixes op :: "rheap \<Rightarrow> nat \<Rightarrow> nat \<Rightarrow> (int \<times> rheap) option"
  assumes op_forest: "forest h N \<Longrightarrow> op h root new = Some (r, h') \<Longrightarrow> root \<in> N \<Longrightarrow> new \<notin> N \<Longrightarrow> new \<in> dom h \<Longrightarrow> kid h new = None \<Longrightarrow>
    forest h' (if r = 0 then insert new N else N)"
begin

lemma op_step:
  assumes "forest h N" "op h root new = Some (r, h')" "root \<in> N" "new \<notin> N" "h new = Some n" "rs_child n = None"
  shows "forest h' (if r = 0 then insert new N else N)"
  by (rule op_forest [OF assms(1-4)]) (use assms(5,6) in auto)

end

interpretation lnk_request: forest_linking request_resource
  by unfold_locales (rule forest_request)

interpretation lnk_insert: forest_linking insert_resource
  by unfold_locales (rule forest_insert)

interpretation lnk_allocate: forest_linking "\<lambda>h root new. allocate_resource h root new sz mn mx al alignf" for sz mn mx al alignf
  by unfold_locales (rule forest_allocate)

lemma rstep_forest: "rstep s s' \<Longrightarrow> forest (fst s) (snd s) \<Longrightarrow> forest (fst s') (snd s')"
proof (induction rule: rstep.induct)
  case (rs_write x N h v) then show ?case using forest_outside [of h N x v] by (simp del: fun_upd_apply)
next
  case (rs_request h root new r h' N n) then show ?case using lnk_request.op_step [of h N root new r h' n] by simp
next
  case (rs_release h old r h' N) then show ?case using forest_release [of h N old r h'] by simp
next
  case (rs_leave h x r N) then show ?case using forest_leave [of h N x r] by simp
next
  case (rs_insert h root new r h' N n) then show ?case using lnk_insert.op_step [of h N root new r h' n] by simp
next
  case (rs_expand h root new h' N n) then show ?case using forest_expand [of h N root new h'] by (auto simp: domIff)
next
  case (rs_adjust h x start sz r h' N) then show ?case using forest_adjust [of h N x start sz r h'] by simp
next
  case (rs_allocate h root new sz mn mx al alignf r h' N n)
  then show ?case using lnk_allocate.op_step [of h N root new sz mn mx al alignf r h' n] by simp
qed

lemma root_forest:
  assumes "h x = Some r" "rs_start r \<le> rs_end r" "rs_parent r = None" "rs_child r = None"
  shows "forest h {x}"
proof -
  have "tree_ok h {x} (\<lambda>_. [])" using assms by (auto simp: tree_ok_def node_ok_def ranked_def)
  then show ?thesis using assms unfolding forest_def linked_def by (intro exI [of _ "\<lambda>_. []"]) simp
qed

text \<open>C10. Whatever callers do, from a single root on, in any number and order of requests, releases, insertions, expansions, adjustments and allocations
  that succeed or fail: the pointers form a forest in which each resource has a non-empty range, the children of each are in
  the order of their addresses, pairwise disjoint, inside it and point back to it, no resource is below itself, and every resource with a parent is one of its children.\<close>

theorem resource_forest_invariant:
  assumes "h0 root = Some r" "rs_start r \<le> rs_end r" "rs_parent r = None" "rs_child r = None" "rstep\<^sup>*\<^sup>* (h0, {root}) (h, N)"
  shows "\<exists>kids. tree_ok h N kids \<and> linked h N kids"
proof -
  have "forest (fst s) (snd s)" if "rstep\<^sup>*\<^sup>* (h0, {root}) s" for s
    using that by induction (auto intro: root_forest [of h0, OF assms(1-4)] dest: rstep_forest)
  from this [OF assms(5)] show ?thesis by (simp add: forest_def)
qed

subsection \<open>Reserving with splits\<close>

text \<open>The forest has grown by resources inside a range, and every address of a range belongs to a child.\<close>

definition grown :: "nat \<Rightarrow> u32 \<Rightarrow> u32 \<Rightarrow> rheap \<Rightarrow> nat set \<Rightarrow> (nat \<Rightarrow> nat list) \<Rightarrow> rheap \<Rightarrow> nat set \<Rightarrow> (nat \<Rightarrow> nat list) \<Rightarrow> bool" where
  "grown root s e h N kids h' N' kids' \<longleftrightarrow> N \<subseteq> N' \<and> tree_ok h' N' kids' \<and> finite (dom h') \<and> set (kids root) \<subseteq> set (kids' root) \<and>
     (\<forall>x \<in> N. lo h' x = lo h x \<and> hi h' x = hi h x) \<and> (\<forall>x \<in> N' - N. s \<le> lo h' x \<and> hi h' x \<le> e)"

definition covered :: "rheap \<Rightarrow> (nat \<Rightarrow> nat list) \<Rightarrow> nat \<Rightarrow> u32 \<Rightarrow> u32 \<Rightarrow> bool" where
  "covered h kids root s e \<longleftrightarrow> (\<forall>a. s \<le> a \<and> a \<le> e \<longrightarrow> (\<exists>c \<in> set (kids root). lo h c \<le> a \<and> a \<le> hi h c))"

lemma grown_refl: "tree_ok h N kids \<Longrightarrow> finite (dom h) \<Longrightarrow> grown root s e h N kids h N kids"
  by (simp add: grown_def)

lemma grown_trans:
  assumes "grown root s e h N kids h1 N1 kids1" "grown root s' e' h1 N1 kids1 h2 N2 kids2" "s0 \<le> s" "s0 \<le> s'" "e \<le> e0" "e' \<le> e0"
  shows "grown root s0 e0 h N kids h2 N2 kids2"
proof -
  have "s0 \<le> lo h2 x \<and> hi h2 x \<le> e0" if "x \<in> N2 - N" for x
  proof (cases "x \<in> N1")
    case True
    then have "s \<le> lo h2 x \<and> hi h2 x \<le> e" using assms(1,2) that by (auto simp: grown_def)
    with assms show ?thesis by auto
  next
    case False
    then have "s' \<le> lo h2 x \<and> hi h2 x \<le> e'" using assms(2) that by (auto simp: grown_def)
    with assms show ?thesis by auto
  qed
  then show ?thesis using assms(1,2) unfolding grown_def by (simp add: subset_iff)
qed

lemma covered_grown:
  assumes "covered h kids root s e" "grown root s' e' h N kids h' N' kids'" "set (kids root) \<subseteq> N"
  shows "covered h' kids' root s e"
  unfolding covered_def
proof (intro allI impI)
  fix a assume "s \<le> a \<and> a \<le> e"
  then obtain c where "c \<in> set (kids root)" "lo h c \<le> a" "a \<le> hi h c" using assms(1) by (auto simp: covered_def)
  then show "\<exists>c \<in> set (kids' root). lo h' c \<le> a \<and> a \<le> hi h' c" using assms(2,3) unfolding grown_def by (metis subsetD)
qed

lemma covered_one: "c \<in> set (kids root) \<Longrightarrow> lo h c \<le> s \<Longrightarrow> e \<le> hi h c \<Longrightarrow> covered h kids root s e"
  unfolding covered_def by (meson order_trans)

lemma covered_glue:
  assumes "covered h kids root s m" "covered h kids root m' e" "c \<in> set (kids root)"
    "\<And>a. s \<le> a \<Longrightarrow> a \<le> e \<Longrightarrow> a \<le> m \<or> m' \<le> a \<or> lo h c \<le> a \<and> a \<le> hi h c"
  shows "covered h kids root s e"
  using assms unfolding covered_def by metis

lemma u32_pred: "(s :: u32) < x \<Longrightarrow> unat (x - 1) = unat x - 1"
  by (metis unat_minus_one word_not_simps(1))

lemma u32_succ: "(x :: u32) < e \<Longrightarrow> unat (x + 1) = unat x + 1"
  using unat_add_small [of x 1] unat_lt_32 [of e] by (simp add: word_less_nat_alt)

text \<open>One call: the whole range is granted, or a child is in the way and what is left on its sides is reserved.\<close>

lemma reserve_step:
  assumes res: "kz h = Some res" "res \<notin> dom h"
    and t: "tree_ok h N kids" and root: "root \<in> N" and fin: "finite (dom h)" and rg: "lo h root \<le> start" "start \<le> fin" "fin \<le> hi h root"
  shows "(\<exists>h' N' kids'. reserve_region_with_split kz h root start fin name = Some h' \<and> grown root start fin h N kids h' N' kids' \<and>
      covered h' kids' root start fin) \<or>
    (\<exists>c \<in> set (kids root). start \<le> hi h c \<and> lo h c \<le> fin \<and>
      reserve_region_with_split kz h root start fin name = (if lo h c \<le> start \<and> fin \<le> hi h c then Some h
        else Option.bind (if start < lo h c then reserve_region_with_split kz h root start (lo h c - 1) name else Some h) (\<lambda>h.
          Option.bind (h c) (\<lambda>x. if rs_end x < fin then reserve_region_with_split kz h root (rs_end x + 1) fin name else Some h))))"
proof -
  define h1 where "h1 = h(res \<mapsto> \<lparr>rs_start = start, rs_end = fin, rs_name = name, rs_flags = IORESOURCE_BUSY,
    rs_parent = None, rs_sibling = None, rs_child = None\<rparr>)"
  have rN: "res \<notin> N" using res tree_okD(1) [OF t] by blast
  have rr: "root \<noteq> res" using rN root by auto
  have t1: "tree_ok h1 N kids" unfolding h1_def by (rule tree_ok_outside [OF t rN])
  have f1: "res \<in> dom h1" "kid h1 res = None" "lo h1 res = start" "hi h1 res = fin" "h1(res := None) = h" and
    n1: "\<And>x. x \<in> N \<Longrightarrow> h1 x = h x" using res rN by (auto simp: h1_def)
  have w: "within h1 res root" using rg rr f1 n1 [OF root] by (simp add: within_def)
  then have nw: "\<not> (hi h1 res < lo h1 res \<or> lo h1 res < lo h1 root \<or> hi h1 root < hi h1 res)" by (auto simp: within_def not_less)
  note req = raw_request_resource_spec [OF t1 root rN f1(1,2)]
  let ?rec = "reserve_region_with_split kz"
  show ?thesis
  proof (cases "find (overlaps h1 start fin) (kids root)")
    case None
    then obtain h' as cs where r: "raw_request_resource h1 root res = Some (None, h')" "kids root = as @ cs"
      "\<forall>a \<in> set as. hi h1 a < start" "\<forall>c \<in> set cs. fin < lo h1 c" "spliced h1 h' N kids root res as [] cs"
      using req nw unfolding f1(3,4) by auto
    let ?k = "kids(root := as @ res # cs, res := [])"
    have ok: "tree_ok h' (insert res N) ?k" by (rule insert_splice_ok [OF t1 root rN f1(1) w _ _ _ r(5)]) (use r f1 in auto)
    have sr: "same_ranges h1 h'" using r(5) by (simp add: spliced_def)
    have res': "lo h' res = start" "hi h' res = fin" "dom h' = dom h1" using sr f1 by (auto simp: same_ranges_def)
    have e: "?rec h root start fin name = Some h'"
      using res r(1) by (subst reserve_region_with_split.simps) (simp add: h1_def Let_def del: fun_upd_apply)
    have "\<forall>x \<in> N. lo h' x = lo h x \<and> hi h' x = hi h x"
      using sr tree_okD(1) [OF t1] n1 by (simp add: same_ranges_def)
    then have "grown root start fin h N kids h' (insert res N) ?k" using ok res' fin rr r(2) f1(1) unfolding grown_def by (auto simp: h1_def)
    moreover have "covered h' ?k root start fin" using res' rr by (auto simp: covered_def)
    ultimately show ?thesis using e by blast
  next
    case (Some c)
    then have r: "raw_request_resource h1 root res = Some (Some c, h1)" using req nw unfolding f1(3,4) by auto
    have c: "c \<in> set (kids root)" "overlaps h1 start fin c" using Some by (auto simp: find_Some_iff)
    then have cN: "c \<in> N" using tree_okD(4) [OF t root] by blast
    obtain rc where rc: "h c = Some rc" using tree_okD(1) [OF t cN] by auto
    have ov: "start \<le> hi h c" "lo h c \<le> fin" using c(2) n1 [OF cN] by (auto simp: overlaps_def not_less)
    have "?rec h root start fin name = (if lo h c \<le> start \<and> fin \<le> hi h c then Some h
      else Option.bind (if start < lo h c then ?rec h root start (lo h c - 1) name else Some h) (\<lambda>h.
        Option.bind (h c) (\<lambda>x. if rs_end x < fin then ?rec h root (rs_end x + 1) fin name else Some h)))"
      using res r rc f1(5) by (subst reserve_region_with_split.simps) (simp add: h1_def [symmetric] Let_def del: fun_upd_apply)
    with c(1) ov show ?thesis by blast
  qed
qed

lemma reserve_grows:
  assumes kz: "\<And>h x. finite (dom h) \<Longrightarrow> kz h = Some x \<Longrightarrow> x \<notin> dom h" and ok: "\<And>h. ok \<Longrightarrow> finite (dom h) \<Longrightarrow> kz h \<noteq> None"
    and "tree_ok h N kids" "root \<in> N" "finite (dom h)" "lo h root \<le> start" "start \<le> fin" "fin \<le> hi h root"
  shows "\<exists>h' N' kids'. reserve_region_with_split kz h root start fin name = Some h' \<and> grown root start fin h N kids h' N' kids' \<and>
    (ok \<longrightarrow> covered h' kids' root start fin)"
  using assms(3-)
proof (induction "unat fin - unat start" arbitrary: h N kids start fin rule: less_induct)
  case less
  note t = less.prems(1) and root = less.prems(2) and fin = less.prems(3) and rg = less.prems(4-6)
  let ?rec = "reserve_region_with_split kz"
  consider (failed) "kz h = None" | (granted) "\<exists>h' N' kids'. ?rec h root start fin name = Some h' \<and> grown root start fin h N kids h' N' kids' \<and> covered h' kids' root start fin"
    | (conflict) c where "c \<in> set (kids root)" "start \<le> hi h c" "lo h c \<le> fin"
      "?rec h root start fin name = (if lo h c \<le> start \<and> fin \<le> hi h c then Some h
        else Option.bind (if start < lo h c then ?rec h root start (lo h c - 1) name else Some h) (\<lambda>h.
          Option.bind (h c) (\<lambda>x. if rs_end x < fin then ?rec h root (rs_end x + 1) fin name else Some h)))"
    using reserve_step [of kz h, OF _ kz [OF fin] t root fin rg, of _ name] by (cases "kz h") blast+
  then show ?case
  proof cases
    case failed
    then have "?rec h root start fin name = Some h" by (subst reserve_region_with_split.simps) simp
    then show ?thesis using grown_refl [OF t fin] ok [OF _ fin] failed by blast
  next
    case granted
    then show ?thesis by blast
  next
    case conflict
    note c = conflict(1) and ov = conflict(2,3) and e = conflict(4)
    have cN: "c \<in> N" using c tree_okD(4) [OF t root] by blast
    have cr: "lo h root \<le> lo h c" "lo h c \<le> hi h c" "hi h c \<le> hi h root" using tree_okD(6) [OF t root c] tree_okD(2) [OF t cN] by auto
    show ?thesis
    proof (cases "lo h c \<le> start \<and> fin \<le> hi h c")
      case True
      then have "covered h kids root start fin" using c by (auto intro: covered_one)
      moreover have "?rec h root start fin name = Some h" using e True by simp
      ultimately show ?thesis using grown_refl [OF t fin] by blast
    next
      case False
      have "\<exists>h2 N2 kids2. (if start < lo h c then ?rec h root start (lo h c - 1) name else Some h) = Some h2 \<and>
        grown root start fin h N kids h2 N2 kids2 \<and> (start < lo h c \<longrightarrow> ok \<longrightarrow> covered h2 kids2 root start (lo h c - 1))"
      proof (cases "start < lo h c")
        case True
        note p = u32_pred [OF True]
        have "lo h c - 1 \<le> fin" "start \<le> lo h c - 1" "lo h c - 1 \<le> hi h root" "unat (lo h c - 1) - unat start < unat fin - unat start"
          using True ov cr rg p by (simp_all add: word_le_nat_alt word_less_nat_alt)
        then show ?thesis using less.hyps [OF _ t root fin rg(1)] True grown_trans [OF grown_refl [OF t fin]] by fastforce
      next
        case False
        then show ?thesis by (intro exI [of _ h] exI [of _ N] exI [of _ kids]) (simp add: grown_refl [OF t fin])
      qed
      then obtain h2 N2 kids2 where l: "(if start < lo h c then ?rec h root start (lo h c - 1) name else Some h) = Some h2"
        "grown root start fin h N kids h2 N2 kids2" "start < lo h c \<longrightarrow> ok \<longrightarrow> covered h2 kids2 root start (lo h c - 1)" by blast
      have g: "tree_ok h2 N2 kids2" "root \<in> N2" "finite (dom h2)" "c \<in> N2" "c \<in> set (kids2 root)"
        "lo h2 root = lo h root" "hi h2 root = hi h root" "lo h2 c = lo h c" "hi h2 c = hi h c"
        using l(2) root cN c by (auto simp: grown_def)
      obtain rc2 where rc2: "h2 c = Some rc2" "rs_end rc2 = hi h c" using tree_okD(1) [OF g(1,4)] g(9) by auto
      have e2: "?rec h root start fin name = (if hi h c < fin then ?rec h2 root (hi h c + 1) fin name else Some h2)"
        unfolding e l(1) if_not_P [OF False] by (simp add: rc2)
      show ?thesis
      proof (cases "hi h c < fin")
        case True
        note s = u32_succ [OF True]
        have b: "lo h2 root \<le> hi h c + 1" "hi h c + 1 \<le> fin" "fin \<le> hi h2 root" "start \<le> hi h c + 1" "unat fin - unat (hi h c + 1) < unat fin - unat start"
          using True ov cr rg s g(6,7) by (simp_all add: word_le_nat_alt word_less_nat_alt)
        obtain h3 N3 kids3 where i: "?rec h2 root (hi h c + 1) fin name = Some h3" "grown root (hi h c + 1) fin h2 N2 kids2 h3 N3 kids3"
          "ok \<longrightarrow> covered h3 kids3 root (hi h c + 1) fin" using less.hyps [OF b(5) g(1-3) b(1-3)] by blast
        have gr: "grown root start fin h N kids h3 N3 kids3" by (rule grown_trans [OF l(2) i(2)]) (use b in auto)
        have c3: "c \<in> set (kids3 root)" "lo h3 c = lo h c" "hi h3 c = hi h c" using i(2) g by (auto simp: grown_def)
        have "covered h3 kids3 root start fin" if ok
        proof (cases "start < lo h c")
          case left: True
          then have "covered h3 kids3 root start (lo h c - 1)" using covered_grown [OF _ i(2) tree_okD(4) [OF g(1,2)]] l(3) that by blast
          then show ?thesis by (rule covered_glue [OF _ mp [OF i(3) that] c3(1)]) (use s u32_pred [OF left] in \<open>auto simp: c3 word_le_nat_alt\<close>)
        next
          case no: False
          have "covered h3 kids3 root start (hi h c)" using no c3 by (auto intro: covered_one simp: not_less)
          then show ?thesis by (rule covered_glue [OF _ mp [OF i(3) that] c3(1)]) (use s in \<open>auto simp: c3 word_le_nat_alt\<close>)
        qed
        then show ?thesis using e2 True i(1) gr by auto
      next
        case no: False
        then have left: "start < lo h c" using False by auto
        have cr2: "covered h2 kids2 root (lo h c) fin" using no g by (auto intro: covered_one simp: not_less)
        have "covered h2 kids2 root start (lo h c - 1)" if ok using l(3) left that by blast
        then have "covered h2 kids2 root start fin" if ok
          using that by - (rule covered_glue [OF _ cr2 g(5)], use u32_pred [OF left] in \<open>auto simp: g word_le_nat_alt\<close>)
        then show ?thesis using e2 no l(2) by auto
      qed
    qed
  qed
qed

text \<open>C14. Reserving a range inside the root whatever is in the way ends, also when allocations of memory for the new resources fail: the resources that were added lie inside the range,
  all the others are still there with their ranges, and the tree is well formed. If no allocation fails, every address of the range then belongs to a child of the root.\<close>

theorem reserve_with_split_covers:
  assumes "\<forall>h x. finite (dom h) \<and> kz h = Some x \<longrightarrow> x \<notin> dom h" "tree_ok h N kids" "root \<in> N" "finite (dom h)"
    "lo h root \<le> start" "start \<le> fin" "fin \<le> hi h root"
  shows "\<exists>h' N' kids'. reserve_region_with_split kz h root start fin name = Some h' \<and> tree_ok h' N' kids' \<and> N \<subseteq> N' \<and>
    (\<forall>x \<in> N. lo h' x = lo h x \<and> hi h' x = hi h x) \<and> (\<forall>x \<in> N' - N. start \<le> lo h' x \<and> hi h' x \<le> fin) \<and>
    set (kids root) \<subseteq> set (kids' root) \<and>
    ((\<forall>h. finite (dom h) \<longrightarrow> kz h \<noteq> None) \<longrightarrow> (\<forall>a. start \<le> a \<and> a \<le> fin \<longrightarrow> (\<exists>c \<in> set (kids' root). lo h' c \<le> a \<and> a \<le> hi h' c)))"
proof -
  have "\<exists>h' N' kids'. reserve_region_with_split kz h root start fin name = Some h' \<and> grown root start fin h N kids h' N' kids' \<and>
    ((\<forall>h. finite (dom h) \<longrightarrow> kz h \<noteq> None) \<longrightarrow> covered h' kids' root start fin)"
    by (rule reserve_grows) (use assms in simp_all)
  then obtain h' N' kids' where g: "reserve_region_with_split kz h root start fin name = Some h'" "grown root start fin h N kids h' N' kids'"
    "(\<forall>h. finite (dom h) \<longrightarrow> kz h \<noteq> None) \<longrightarrow> covered h' kids' root start fin" by blast
  show ?thesis using g(1,3) g(2) [unfolded grown_def] unfolding covered_def by (intro exI [of _ h'] exI [of _ N'] exI [of _ kids']) simp
qed

text \<open>A range that begins in front of the root is not cut to the root: the call asks for the part in front of it again and
  again, with the same arguments, and never returns.\<close>

lemma reserve_before_root_diverges:
  assumes kz: "kz h = Some res" "h res = None" and root: "h root = Some r" "start < rs_start r" "fin = rs_start r - 1"
  shows "reserve_region_with_split kz h root start fin name = None"
proof (cases "reserve_region_with_split kz h root start fin name")
  case (Some y)
  define bad where "bad = (\<lambda>kz (h :: rheap) root start fin. \<exists>res r. kz h = Some res \<and> h res = None \<and> h root = Some r \<and> start < rs_start r \<and> fin = rs_start r - 1)"
  have "\<not> bad kz h root start fin"
  proof (rule reserve_region_with_split.raw_induct [OF _ Some, where P = "\<lambda>kz h root start fin name y. \<not> bad kz h root start fin"], rule notI)
    fix rec kz h root start fin name y
    assume IH: "\<And>kz h root start fin name y. rec kz h root start fin name = Some y \<Longrightarrow> \<not> bad kz h root start fin"
      and body: "(case kz h of None \<Rightarrow> Some h
      | Some res \<Rightarrow>
          let h = h(res \<mapsto> \<lparr>rs_start = start, rs_end = fin, rs_name = name, rs_flags = IORESOURCE_BUSY,
                          rs_parent = None, rs_sibling = None, rs_child = None\<rparr>) in
          Option.bind (raw_request_resource h root res) (\<lambda>(conflict, h).
            case conflict of None \<Rightarrow> Some h
            | Some c \<Rightarrow>
                let h = h(res := None) in
                Option.bind (h c) (\<lambda>x.
                  if rs_start x \<le> start \<and> rs_end x \<ge> fin then Some h
                  else Option.bind (if rs_start x > start then rec kz h root start (rs_start x - 1) name else Some h) (\<lambda>h.
                    Option.bind (h c) (\<lambda>x.
                      if rs_end x < fin then rec kz h root (rs_end x + 1) fin name else Some h))))) = Some y"
      and "bad kz h root start fin"
    then obtain res r where b: "kz h = Some res" "h res = None" "h root = Some r" "start < rs_start r" "fin = rs_start r - 1"
      by (auto simp: bad_def)
    define h1 where "h1 = h(res \<mapsto> \<lparr>rs_start = start, rs_end = fin, rs_name = name, rs_flags = IORESOURCE_BUSY,
      rs_parent = None, rs_sibling = None, rs_child = None\<rparr>)"
    have rr: "root \<noteq> res" using b by auto
    have rq: "raw_request_resource h1 root res = Some (Some root, h1)"
      using b rr by (auto simp: raw_request_resource_def h1_def Let_def)
    have undo: "h1(res := None) = h" using b(2) by (auto simp: h1_def)
    have "rec kz h root start (rs_start r - 1) name \<noteq> None"
    proof
      assume "rec kz h root start (rs_start r - 1) name = None"
      then have "rec kz (h1(res := None)) root start (rs_start r - 1) name = None" "(h1(res := None)) root = Some r"
        unfolding undo using b(3) by simp_all
      with body b(4) show False by (simp add: b(1) h1_def [symmetric] rq Let_def leD del: fun_upd_apply split: if_splits)
    qed
    then have "rec kz h root start fin name \<noteq> None" unfolding b(5) .
    then show False using IH \<open>bad kz h root start fin\<close> by auto
  qed
  then show ?thesis using kz root by (auto simp: bad_def)
qed

subsection \<open>Requesting and releasing regions\<close>

text \<open>The resources that a request for a region passes on its way down: not busy, and containing the region.\<close>

inductive descends :: "rheap \<Rightarrow> (nat \<Rightarrow> nat list) \<Rightarrow> u32 \<Rightarrow> u32 \<Rightarrow> nat \<Rightarrow> nat \<Rightarrow> bool" for h kids s e where
  descends_refl: "descends h kids s e p p"
| descends_step: "c \<in> set (kids q) \<Longrightarrow> rs_flags (the (h c)) AND IORESOURCE_BUSY = 0 \<Longrightarrow> lo h c \<le> s \<Longrightarrow> e \<le> hi h c \<Longrightarrow>
    descends h kids s e c p \<Longrightarrow> descends h kids s e q p"

lemma region_loop_spec:
  assumes t: "tree_ok h N kids" and q: "q \<in> N" and new: "new \<notin> N" "new \<in> dom h" "kid h new = None"
  shows "(\<exists>h' p as cs. region_loop h q new flags = Some (Region new, h') \<and> p \<in> N \<and> within h new p \<and> kids p = as @ cs \<and>
      (\<forall>a \<in> set as. hi h a < lo h new) \<and> (\<forall>c \<in> set cs. hi h new < lo h c) \<and> spliced h h' N kids p new as [] cs \<and>
      within h new q \<and> descends h kids (lo h new) (hi h new) q p) \<or>
    region_loop h q new flags = Some (Busy, h(new := None)) \<or>
    (\<exists>c \<in> N. region_loop h q new flags = Some (Sleep c, h) \<and> rs_flags (the (h c)) AND flags AND IORESOURCE_MUXED \<noteq> 0)"
proof -
  obtain rank :: "nat \<Rightarrow> nat" where rank: "\<And>x y. x \<in> N \<Longrightarrow> y \<in> set (kids x) \<Longrightarrow> rank y < rank x"
    using t by (auto simp: tree_ok_def ranked_def)
  show ?thesis using q
  proof (induction "rank q" arbitrary: q rule: less_induct)
    case less
    note req = raw_request_resource_spec [OF t less.prems new]
    have stop: ?case if a: "raw_request_resource h q new = Some (Some c, h)" "c \<in> N" "c = q \<or> rs_flags (the (h c)) AND IORESOURCE_BUSY \<noteq> 0" for c
    proof -
      obtain x where "h c = Some x" using tree_okD(1) [OF t a(2)] by auto
      then show ?thesis using a by (subst region_loop.simps, subst region_loop.simps, subst region_loop.simps) auto
    qed
    show ?case
    proof (cases "within h new q")
      case False
      then have "hi h new < lo h new \<or> lo h new < lo h q \<or> hi h q < hi h new" by (auto simp: within_def not_le)
      then have "raw_request_resource h q new = Some (Some q, h)" using req by simp
      then show ?thesis using stop less.prems by blast
    next
      case w: True
      then have nw: "\<not> (hi h new < lo h new \<or> lo h new < lo h q \<or> hi h q < hi h new)" by (auto simp: within_def not_less)
      show ?thesis
      proof (cases "find (overlaps h (lo h new) (hi h new)) (kids q)")
        case None
        then obtain h' as cs where r: "raw_request_resource h q new = Some (None, h')" "kids q = as @ cs"
          "\<forall>a \<in> set as. hi h a < lo h new" "\<forall>c \<in> set cs. hi h new < lo h c" "spliced h h' N kids q new as [] cs"
          using req nw by auto
        then have "region_loop h q new flags = Some (Region new, h')" by (subst region_loop.simps) simp
        with r w less.prems show ?thesis by (blast intro: descends_refl)
      next
        case (Some c)
        then have r: "raw_request_resource h q new = Some (Some c, h)" using req nw by simp
        have c: "c \<in> set (kids q)" using Some by (auto simp: find_Some_iff)
        then have cN: "c \<in> N" "c \<noteq> q" using tree_okD(4) [OF t less.prems] not_own_kid [OF t less.prems] by auto
        obtain x where x: "h c = Some x" using tree_okD(1) [OF t cN(1)] by auto
        show ?thesis
        proof (cases "rs_flags x AND IORESOURCE_BUSY = 0")
          case True
          then have e: "region_loop h q new flags = region_loop h c new flags" using r cN x by (subst region_loop.simps) simp
          have "descends h kids (lo h new) (hi h new) q p" if "within h new c" "descends h kids (lo h new) (hi h new) c p" for p
            by (rule descends_step [OF c _ _ _ that(2)]) (use that(1) True x in \<open>auto simp: within_def\<close>)
          then show ?thesis using less.hyps [OF rank [OF less.prems c] cN(1)] w unfolding e by blast
        next
          case False
          show ?thesis by (rule stop [OF r cN(1)]) (simp add: False x)
        qed
      qed
    qed
  qed
qed

lemma release_region_skip:
  assumes "path h q as r" "ld_link h l = Some q" "\<forall>a \<in> set as. \<not> (lo h a \<le> s \<and> e \<le> hi h a)"
  shows "release_region_loop h s e l = release_region_loop h s e (end_link l as) \<and> ld_link h (end_link l as) = Some r"
  using assms
proof (induction as arbitrary: q l)
  case (Cons a as)
  then obtain x where x: "q = Some a" "h a = Some x" by auto
  have "release_region_loop h s e l = release_region_loop h s e (SiblingOf a)"
    using Cons.prems x by (subst release_region_loop.simps) auto
  moreover have "ld_link h (SiblingOf a) = Some (sib h a)" using x by (simp add: ld_link_def)
  ultimately show ?case using Cons.IH [of "sib h a" "SiblingOf a"] Cons.prems by auto
qed simp

lemma release_region_finds:
  assumes t: "tree_ok h N kids" and p: "p \<in> N" "kids p = as @ x # cs"
    and x: "rs_flags (the (h x)) AND IORESOURCE_BUSY \<noteq> 0" and d: "descends h kids (lo h x) (hi h x) q p" and q: "q \<in> N"
  shows "release_region_loop h (lo h x) (hi h x) (ChildOf q) =
    map_option (\<lambda>h. (Some x, h(x := None))) (st_link h (end_link (ChildOf p) as) (sib h x))"
  using d q p
proof (induction rule: descends.induct [case_names refl step])
  case (refl p)
  have xk: "x \<in> set (kids p)" using refl by simp
  have px: "path h (kid h p) as (Some x)" using tree_okD(3) [OF t refl(1)] refl(3) by auto
  have xd: "x \<in> dom h" "p \<in> dom h" "lo h x \<le> hi h x" using tree_okD(1,2) [OF t] tree_okD(4) [OF t refl(1)] xk refl(1) by auto
  have "\<not> (lo h a \<le> lo h x \<and> hi h x \<le> hi h a)" if "a \<in> set as" for a
  proof -
    have "hi h a < lo h x" using tree_okD(5) [OF t refl(1)] refl(3) that by (auto simp: sorted_wrt_append)
    with xd(3) show ?thesis by auto
  qed
  moreover have "ld_link h (ChildOf p) = Some (kid h p)" using xd by (auto simp: ld_link_def)
  ultimately have "release_region_loop h (lo h x) (hi h x) (ChildOf p) = release_region_loop h (lo h x) (hi h x) (end_link (ChildOf p) as)"
    "ld_link h (end_link (ChildOf p) as) = Some (Some x)" using release_region_skip [OF px] by blast+
  then show ?case using x xd(1) by (subst (asm) (2) release_region_loop.simps) (auto simp del: fun_upd_apply)
next
  case (step c q p)
  obtain as2 cs2 where k: "kids q = as2 @ c # cs2" using step(1) by (auto dest: split_list)
  have cN: "c \<in> N" using tree_okD(4) [OF t step(7)] step(1) by blast
  have pc: "path h (kid h q) as2 (Some c)" using tree_okD(3) [OF t step(7)] k by auto
  have xk: "x \<in> set (kids p)" using step by simp
  then have xl: "lo h x \<le> hi h x" using tree_okD(2) [OF t] tree_okD(4) [OF t step(8)] by blast
  have "\<not> (lo h a \<le> lo h x \<and> hi h x \<le> hi h a)" if "a \<in> set as2" for a
  proof -
    have "hi h a < lo h c" using tree_okD(5) [OF t step(7)] k that by (auto simp: sorted_wrt_append)
    with xl step(3) show ?thesis by auto
  qed
  moreover have "ld_link h (ChildOf q) = Some (kid h q)" using tree_okD(1) [OF t step(7)] by (auto simp: ld_link_def)
  ultimately have "release_region_loop h (lo h x) (hi h x) (ChildOf q) = release_region_loop h (lo h x) (hi h x) (end_link (ChildOf q) as2)"
    "ld_link h (end_link (ChildOf q) as2) = Some (Some c)" using release_region_skip [OF pc] by blast+
  moreover have "release_region_loop h (lo h x) (hi h x) (end_link (ChildOf q) as2) = release_region_loop h (lo h x) (hi h x) (ChildOf c)"
    using calculation(2) tree_okD(1) [OF t cN] step(2-4) by (subst release_region_loop.simps) auto
  ultimately show ?case using step.IH [OF cN step(8,9)] by simp
qed

text \<open>Unlinking a region is what releasing a resource does, up to the record that is freed.\<close>

lemma unlink_eq_release:
  assumes t: "tree_ok h N kids" and p: "p \<in> N" "kids p = as @ old # cs"
  shows "\<exists>h1 h2. st_link h (end_link (ChildOf p) as) (sib h old) = Some h1 \<and> release_resource h old = Some (0, h2) \<and>
    h1(old := None) = h2(old := None)"
proof -
  obtain h2 where h2: "release_resource h old = Some (0, h2)" using release_resource_spec [OF t p] by blast
  have ok: "old \<in> set (kids p)" using p by simp
  have od: "old \<in> dom h" "p \<in> dom h" "par h old = Some p"
    using tree_okD(1) [OF t] tree_okD(4) [OF t p(1)] tree_okD(6) [OF t p(1) ok] ok p by auto
  have ch: "chain h (kid h p) (as @ old # cs)" using tree_okD(3) [OF t p(1)] p(2) by simp
  have "distinct (as @ old # cs)" using kids_distinct [OF t p(1)] p(2) by simp
  then have tw: "takeWhile (\<lambda>y. y \<noteq> old) (as @ old # cs) = as" by (simp add: takeWhile_tail) (induction as; auto)
  have "ld_link h (ChildOf p) = Some (kid h p)" using od by (auto simp: ld_link_def)
  from release_loop_eq [OF this ch, of old] tw have "release_loop h old (ChildOf p) =
    Option.bind (st_link h (end_link (ChildOf p) as) (sib h old)) (\<lambda>h. map_option (\<lambda>h. (0, h)) (upd h old (\<lambda>r. r\<lparr>rs_parent := None\<rparr>)))" by simp
  moreover have "release_loop h old (ChildOf p) = Some (0, h2)" using h2 od by (auto simp: release_resource_def)
  ultimately have "Option.bind (st_link h (end_link (ChildOf p) as) (sib h old))
    (\<lambda>h. map_option (\<lambda>h. (0 :: int, h)) (upd h old (\<lambda>r. r\<lparr>rs_parent := None\<rparr>))) = Some (0, h2)" by (rule trans [OF sym])
  then obtain h1 where h1: "st_link h (end_link (ChildOf p) as) (sib h old) = Some h1" "upd h1 old (\<lambda>r. r\<lparr>rs_parent := None\<rparr>) = Some h2"
    by (auto simp: bind_eq_Some_conv)
  then have "h1(old := None) = h2(old := None)" by (auto simp: upd_def split: option.splits)
  with h1 h2 show ?thesis by blast
qed

lemma descends_spliced:
  assumes "descends h kids s e q p'" "spliced h h' N kids p new as [] cs" "tree_ok h N kids" "q \<in> N" "new \<notin> N"
  shows "descends h' (kids(p := as @ new # cs, new := [])) s e q p'"
  using assms(1,4)
proof (induction rule: descends.induct)
  case (descends_step c q p')
  have c: "c \<in> N" using tree_okD(4) [OF assms(3) descends_step.prems] descends_step.hyps(1) by blast
  then have "rs_flags (the (h' c)) = rs_flags (the (h c))" "lo h' c = lo h c" "hi h' c = hi h c"
    using assms(2) tree_okD(1) [OF assms(3)] by (auto simp: spliced_def same_ranges_def)
  moreover have "c \<in> set ((kids(p := as @ new # cs, new := [])) q)"
    using descends_step.hyps(1) descends_step.prems assms(2,5) by (auto simp: spliced_def)
  moreover have "descends h' (kids(p := as @ new # cs, new := [])) s e c p'" by (rule descends_step.IH [OF c])
  ultimately show ?case using descends_step.hyps(2-4) descends.descends_step [of c _ q h' s e p'] by metis
qed (rule descends_refl)

lemma region_record:
  "rs_flags \<lparr>rs_start = s, rs_end = e, rs_name = n, rs_flags = IORESOURCE_BUSY OR f, rs_parent = a, rs_sibling = b, rs_child = c\<rparr> AND IORESOURCE_BUSY \<noteq> 0"
proof -
  have "bit ((IORESOURCE_BUSY OR f) AND IORESOURCE_BUSY) 31" by (simp add: bit_simps)
  then show ?thesis by auto
qed

text \<open>C22. Requesting a region always returns: the region is granted, refused with everything as before, or the caller is to wait for a
  multiplexed region. A granted region holds the range that was asked for, in a well-formed tree, and releasing the same range from the
  same parent finds it, frees it and brings the forest back, with the ranges as they were.\<close>

theorem region_request_release:
  assumes t: "tree_ok h N kids" and q: "q \<in> N" and fresh: "h res = None"
  shows "\<exists>r h'. request_region h (Some res) q start n name flags = Some (r, h') \<and> (case r of
      Busy \<Rightarrow> h' = h
    | Sleep c \<Rightarrow> c \<in> N \<and> rs_flags (the (h c)) AND flags AND IORESOURCE_MUXED \<noteq> 0
    | Region x \<Rightarrow> x = res \<and> lo h' res = start \<and> hi h' res = start + n - 1 \<and>
        (\<exists>p as cs. tree_ok h' (insert res N) (kids(p := as @ res # cs, res := []))) \<and>
        (\<exists>h''. release_region h' q start n = Some (Some res, h'') \<and> tree_ok h'' N kids \<and> h'' res = None \<and>
          (\<forall>x \<in> N. lo h'' x = lo h x \<and> hi h'' x = hi h x)))"
proof -
  define rec where "rec = \<lparr>rs_start = start, rs_end = start + n - 1, rs_name = name, rs_flags = IORESOURCE_BUSY OR flags,
    rs_parent = None, rs_sibling = None, rs_child = None\<rparr>"
  let ?h = "h(res \<mapsto> rec)" and ?rl = "region_loop (h(res \<mapsto> rec)) q res flags"
  have rN: "res \<notin> N" using tree_okD(1) [OF t] fresh by auto
  note t1 = tree_ok_outside [OF t rN, of "Some rec"]
  have f: "res \<in> dom ?h" "kid ?h res = None" "lo ?h res = start" "hi ?h res = start + n - 1" "?h(res := None) = h"
    using fresh by (auto simp: rec_def)
  have rq: "request_region h (Some res) q start n name flags = ?rl" by (simp add: request_region_def rec_def)
  have Ninh: "lo ?h x = lo h x \<and> hi ?h x = hi h x \<and> rs_flags (the (?h x)) = rs_flags (the (h x))" if "x \<in> N" for x using that rN by auto
  from region_loop_spec [OF t1 q rN f(1,2), of flags] show ?thesis
  proof (elim disjE exE bexE conjE)
    assume "?rl = Some (Busy, ?h(res := None))"
    then show ?thesis unfolding rq f(5) by auto
  next
    fix c assume "c \<in> N" "?rl = Some (Sleep c, ?h)" "rs_flags (the (?h c)) AND flags AND IORESOURCE_MUXED \<noteq> 0"
    then show ?thesis unfolding rq using Ninh [of c] by auto
  next
    fix h' p as cs assume r: "?rl = Some (Region res, h')" "p \<in> N" "within ?h res p" "kids p = as @ cs"
      "\<forall>a \<in> set as. hi ?h a < lo ?h res" "\<forall>c \<in> set cs. hi ?h res < lo ?h c" "spliced ?h h' N kids p res as [] cs"
      "within ?h res q" "descends ?h kids (lo ?h res) (hi ?h res) q p"
    let ?k = "kids(p := as @ res # cs, res := [])"
    have ok: "tree_ok h' (insert res N) ?k" by (rule insert_splice_ok [OF t1 r(2) rN f(1) r(3,5) _ r(6,7)]) simp
    have sr: "same_ranges ?h h'" using r(7) by (simp add: spliced_def)
    have lr: "lo h' res = start" "hi h' res = start + n - 1" "rs_flags (the (h' res)) AND IORESOURCE_BUSY \<noteq> 0"
      using sr f(1,3,4) region_record [of start _ name flags] by (auto simp: same_ranges_def rec_def)
    have pr: "p \<noteq> res" using r(2) rN by auto
    then have kp: "?k p = as @ res # cs" by simp
    have pN: "p \<in> insert res N" "q \<in> insert res N" using r(2) q by simp_all
    have "descends h' ?k (lo h' res) (hi h' res) q p" using descends_spliced [OF r(9,7) t1 q rN] unfolding lr f .
    from release_region_finds [OF ok pN(1) kp lr(3) this pN(2)]
    have rel: "release_region h' q start n =
      map_option (\<lambda>h. (Some res, h(res := None))) (st_link h' (end_link (ChildOf p) as) (sib h' res))" unfolding release_region_def lr .
    obtain h1 h2 where u: "st_link h' (end_link (ChildOf p) as) (sib h' res) = Some h1" "release_resource h' res = Some (0, h2)"
      "h1(res := None) = h2(res := None)" using unlink_eq_release [OF ok pN(1) kp] by blast
    have h2: "same_ranges h' h2 \<and> tree_ok h2 (insert res N) (?k(p := as @ cs))"
      using release_resource_spec [OF ok pN(1) kp] unfolding u(2) by (auto simp del: fun_upd_apply)
    have "tree_ok h2 N kids" by (rule tree_ok_mono [OF conjunct2 [OF h2]]) (use r(4) rN pr tree_okD(4) [OF t] in auto)
    then have "tree_ok (h2(res := None)) N kids" by (rule tree_ok_outside [OF _ rN])
    moreover have "lo (h2(res := None)) x = lo h x \<and> hi (h2(res := None)) x = hi h x" if "x \<in> N" for x
    proof -
      have "x \<in> dom ?h" using tree_okD(1) [OF t1 that] .
      moreover have "same_ranges ?h h2" using sr h2 by (blast intro: same_ranges_trans)
      ultimately have "lo h2 x = lo ?h x \<and> hi h2 x = hi ?h x" unfolding same_ranges_def by blast
      then show ?thesis using Ninh [OF that] rN that by auto
    qed
    moreover have "release_region h' q start n = Some (Some res, h2(res := None))" using rel u by simp
    ultimately have B: "\<exists>h''. release_region h' q start n = Some (Some res, h'') \<and> tree_ok h'' N kids \<and> h'' res = None \<and>
      (\<forall>x \<in> N. lo h'' x = lo h x \<and> hi h'' x = hi h x)" by (intro exI [of _ "h2(res := None)"]) simp
    have A: "\<exists>p as cs. tree_ok h' (insert res N) (kids(p := as @ res # cs, res := []))" using ok by blast
    show ?thesis unfolding rq r(1) by (rule exI [of _ "Region res"], rule exI [of _ h']) (simp only: A B lr region_result.case simp_thms)
  qed
qed

text \<open>The caller that waits for a multiplexed region remembers the region as its parent. When the owner releases the region, which frees it, the
  caller goes on below the freed resource: a fault, although the range is free now and its old parent would grant it.\<close>

definition mux_heap :: rheap where
  "mux_heap = [0 \<mapsto> \<lparr>rs_start = 0, rs_end = 0xFF, rs_name = ''ioports'', rs_flags = 0, rs_parent = None, rs_sibling = None, rs_child = Some 1\<rparr>,
    1 \<mapsto> \<lparr>rs_start = 0x2E, rs_end = 0x2F, rs_name = ''owner'', rs_flags = IORESOURCE_BUSY OR IORESOURCE_MUXED, rs_parent = Some 0,
      rs_sibling = None, rs_child = None\<rparr>]"

lemma muxed_wait_uses_freed_parent:
  "Option.bind (request_region mux_heap (Some 2) 0 0x2E 2 ''waiter'' IORESOURCE_MUXED) (\<lambda>(r, h).
     Option.bind (release_region h 0 0x2E 2) (\<lambda>(freed, h).
       Some (r, freed, map_option fst (region_loop h 1 2 IORESOURCE_MUXED), map_option fst (region_loop h 0 2 IORESOURCE_MUXED)))) =
   Some (Sleep 1, Some 1, None, Some (Region 2))"
  by code_simp

subsection \<open>A tree to try the theorems on\<close>

definition plain_resource :: "u32 \<Rightarrow> u32 \<Rightarrow> nat option \<Rightarrow> nat option \<Rightarrow> nat option \<Rightarrow> resource" where
  "plain_resource s e p sb c = \<lparr>rs_start = s, rs_end = e, rs_name = ''mem'', rs_flags = 0, rs_parent = p, rs_sibling = sb, rs_child = c\<rparr>"

definition small_heap :: rheap where
  "small_heap = [0 \<mapsto> plain_resource 0x100 0x1FF None None (Some 1), 1 \<mapsto> plain_resource 0x110 0x11F (Some 0) None None,
    2 \<mapsto> plain_resource 0x180 0x18F None None None]"

definition small_kids :: "nat \<Rightarrow> nat list" where
  "small_kids = (\<lambda>_. [])(0 := [1])"

lemma small_heap_ok: "tree_ok small_heap {0, 1} small_kids"
proof -
  have "ranked {0, 1} small_kids" unfolding ranked_def by (rule exI [of _ "\<lambda>x. 1 - x"]) (simp add: small_kids_def)
  then show ?thesis by (simp add: tree_ok_def node_ok_def small_heap_def small_kids_def plain_resource_def)
qed

lemma small_heap_new: "(2 :: nat) \<notin> {0, 1}" "2 \<in> dom small_heap" "kid small_heap 2 = None" "par small_heap 2 = None" "(0 :: nat) \<in> {0, 1}"
  "within small_heap 2 0" "finite (dom small_heap)" "small_kids 0 = [] @ 1 # []" "small_heap 3 = None"
  by (simp_all add: small_heap_def plain_resource_def within_def small_kids_def)

lemma small_heap_free: "\<forall>c \<in> set (small_kids 0). \<not> overlaps small_heap (lo small_heap 2) (hi small_heap 2) c"
  by (simp add: small_kids_def overlaps_def small_heap_def plain_resource_def)

theorem request_resource_exact_witness:
  "\<exists>h' as cs. request_resource small_heap 0 2 = Some (0, h') \<and> small_kids 0 = as @ cs \<and> same_ranges small_heap h' \<and>
     tree_ok h' (insert 2 {0, 1}) (small_kids(0 := as @ 2 # cs, 2 := []))"
  using request_resource_exact [OF small_heap_ok small_heap_new(5,1,2,3)]
  unfolding if_P [OF conjI [OF small_heap_new(6) small_heap_free]] .

theorem request_release_roundtrip_witness:
  "\<exists>h' h''. request_resource small_heap 0 2 = Some (0, h') \<and> release_resource h' 2 = Some (0, h'') \<and>
     tree_ok h'' {0, 1} small_kids \<and> same_ranges small_heap h'' \<and> par h'' 2 = None \<and> kid h'' 2 = None"
proof -
  obtain h' where r: "request_resource small_heap 0 2 = Some (0, h')"
    using request_resource_splice [OF small_heap_ok small_heap_new(5,1,2,3,6) small_heap_free] by blast
  from request_release_roundtrip [OF small_heap_ok small_heap_new(5,1,2,3) r] r show ?thesis by blast
qed

theorem insert_resource_exact_witness:
  "within small_heap 2 0 \<and>
    ((\<not> within small_heap 2 0 \<and> insert_resource small_heap 0 2 = Some (- EBUSY, small_heap)) \<or>
    (\<exists>c \<in> {0, 1}. within small_heap 2 0 \<and> within small_heap c 0 \<and> overlaps small_heap (lo small_heap 2) (hi small_heap 2) c \<and>
      \<not> within small_heap c 2 \<and> \<not> within small_heap 2 c \<and> insert_resource small_heap 0 2 = Some (- EBUSY, small_heap)) \<or>
    (\<exists>p h' as bs cs. insert_resource small_heap 0 2 = Some (0, h') \<and> p \<in> {0, 1} \<and> within small_heap 2 p \<and> small_kids p = as @ bs @ cs \<and>
      (\<forall>b \<in> set bs. within small_heap b 2) \<and> same_ranges small_heap h' \<and> tree_ok h' (insert 2 {0, 1}) (small_kids(p := as @ 2 # cs, 2 := bs))))"
  using insert_resource_exact [OF small_heap_ok small_heap_new(5,1,2,3)] small_heap_new(6) by (rule conjI [rotated])

theorem insert_expand_ends_covering_witness:
  "\<exists>h' kids'. insert_resource_expand_to_fit small_heap 0 2 = Some h' \<and> tree_ok h' (insert 2 {0, 1}) kids' \<and>
    (\<exists>p \<in> {0, 1}. 2 \<in> set (kids' p)) \<and> (\<forall>x \<in> {0, 1}. lo h' x = lo small_heap x \<and> hi h' x = hi small_heap x) \<and>
    lo h' 2 \<le> lo small_heap 2 \<and> hi small_heap 2 \<le> hi h' 2 \<and> within h' 2 0"
  by (rule insert_expand_ends_covering [OF small_heap_ok small_heap_new(5,1,2,3,4,6)])

theorem adjust_resource_exact_witness:
  "can_adjust small_heap small_kids 0 [] 1 [] 0x120 (0x120 + 0x10 - 1) \<and>
   (\<exists>h'. adjust_resource small_heap 1 0x120 0x10 = Some (0, h') \<and>
     h' = small_heap(1 \<mapsto> (the (small_heap 1))\<lparr>rs_start := 0x120, rs_end := 0x120 + 0x10 - 1\<rparr>) \<and> tree_ok h' {0, 1} small_kids)"
proof -
  have c: "can_adjust small_heap small_kids 0 [] 1 [] 0x120 (0x120 + 0x10 - 1)"
    by (simp add: can_adjust_def small_heap_def small_kids_def plain_resource_def)
  have "0 < unat (0x10 :: u32)" "unat (0x120 :: u32) + unat (0x10 :: u32) \<le> 2 ^ 32" by simp_all
  from adjust_resource_exact [OF small_heap_ok small_heap_new(5,8) this] c show ?thesis by (simp only: if_True simp_thms)
qed

theorem allocate_resource_first_fit_witness:
  "\<exists>s h' as cs. allocate_resource small_heap 0 2 0x20 0 0xFFFFFFFF 0x10 None = Some (0, h') \<and>
     slot small_heap small_kids 0 0x20 0 0xFFFFFFFF 4 s \<and> (\<forall>s'. slot small_heap small_kids 0 0x20 0 0xFFFFFFFF 4 s' \<longrightarrow> s \<le> s') \<and>
     lo h' 2 = s \<and> hi h' 2 = s + 0x20 - 1 \<and> (\<forall>x \<in> {0, 1}. lo h' x = lo small_heap x \<and> hi h' x = hi small_heap x) \<and>
     small_kids 0 = as @ cs \<and> tree_ok h' (insert 2 {0, 1}) (small_kids(0 := as @ 2 # cs, 2 := []))"
proof -
  have s: "\<exists>s. slot small_heap small_kids 0 0x20 0 0xFFFFFFFF 4 s"
    by (rule exI [of _ "0x120"]) (simp add: slot_def small_heap_def small_kids_def plain_resource_def overlaps_def)
  have "unat (0x10 :: u32) = 2 ^ 4" "0 < unat (0x20 :: u32)" by simp_all
  from allocate_resource_first_fit [OF small_heap_ok small_heap_new(5,1,2,3) this, of 0 "0xFFFFFFFF"] show ?thesis unfolding if_P [OF s] .
qed

theorem reserve_with_split_covers_witness:
  "\<exists>h' N' kids'. reserve_region_with_split (\<lambda>h. Some (LEAST x. x \<notin> dom h)) small_heap 0 0x100 0x1FF ''rest'' = Some h' \<and>
     tree_ok h' N' kids' \<and> {0, 1} \<subseteq> N' \<and> (\<forall>x \<in> {0, 1}. lo h' x = lo small_heap x \<and> hi h' x = hi small_heap x) \<and>
     (\<forall>a. 0x100 \<le> a \<and> a \<le> 0x1FF \<longrightarrow> (\<exists>c \<in> set (kids' 0). lo h' c \<le> a \<and> a \<le> hi h' c))"
proof -
  have f: "(LEAST x. x \<notin> dom h) \<notin> dom h" if "finite (dom h)" for h :: rheap using that by (metis LeastI_ex ex_new_if_finite infinite_UNIV_nat)
  show ?thesis using reserve_with_split_covers [of "\<lambda>h. Some (LEAST x. x \<notin> dom h)", OF _ small_heap_ok small_heap_new(5,7), of "0x100" "0x1FF" "''rest''"] f
    by (simp add: small_heap_def plain_resource_def) blast
qed

theorem region_request_release_witness:
  "\<exists>r h'. request_region small_heap (Some 3) 0 0x140 0x10 ''io'' 0 = Some (r, h') \<and> (case r of
      Busy \<Rightarrow> h' = small_heap
    | Sleep c \<Rightarrow> c \<in> {0, 1} \<and> rs_flags (the (small_heap c)) AND 0 AND IORESOURCE_MUXED \<noteq> 0
    | Region x \<Rightarrow> x = 3 \<and> lo h' 3 = 0x140 \<and> hi h' 3 = 0x140 + 0x10 - 1 \<and>
        (\<exists>p as cs. tree_ok h' (insert 3 {0, 1}) (small_kids(p := as @ 3 # cs, 3 := []))) \<and>
        (\<exists>h''. release_region h' 0 0x140 0x10 = Some (Some 3, h'') \<and> tree_ok h'' {0, 1} small_kids \<and> h'' 3 = None \<and>
          (\<forall>x \<in> {0, 1}. lo h'' x = lo small_heap x \<and> hi h'' x = hi small_heap x)))"
  by (rule region_request_release [OF small_heap_ok small_heap_new(5,9)])

theorem resource_forest_invariant_witness:
  "\<exists>h. rstep\<^sup>*\<^sup>* ([0 \<mapsto> plain_resource 0 0xFF None None None, 1 \<mapsto> plain_resource 0x10 0x1F None None None], {0}) (h, {0, 1}) \<and>
     (\<exists>kids. tree_ok h {0, 1} kids \<and> linked h {0, 1} kids)"
proof -
  let ?h0 = "[0 :: nat \<mapsto> plain_resource 0 0xFF None None None, 1 \<mapsto> plain_resource 0x10 0x1F None None None]"
  have "tree_ok ?h0 {0} (\<lambda>_. [])" by (simp add: tree_ok_def node_ok_def ranked_def plain_resource_def)
  from request_resource_splice [OF this, of 0 1] obtain h where r: "request_resource ?h0 0 1 = Some (0, h)"
    by (auto simp: within_def plain_resource_def)
  have "rstep (?h0, {0}) (h, if (0 :: int) = 0 then insert 1 {0} else {0})" by (rule rs_request [OF r, where n = "plain_resource 0x10 0x1F None None None"]) (simp_all add: plain_resource_def)
  then have s: "rstep\<^sup>*\<^sup>* (?h0, {0}) (h, {0, 1})" by (simp add: insert_commute)
  have "?h0 0 = Some (plain_resource 0 0xFF None None None)" by simp
  from resource_forest_invariant [OF this _ _ _ s] s show ?thesis by (auto simp: plain_resource_def)
qed

end
