(* ===== verification/Adbs.thy ===== *)
theory Adbs
  imports Reporter Vsprintf
begin

text \<open>
  The motion sensor behind the ring (\<^verbatim>\<open>drivers/input/misc/adbs-a330.c\<close>): an interrupt schedules work that reads the two motion registers over
  I2C until they are zero and adds the motion along the chosen axis to a 32-bit position; a timer reports the difference to
  the last report as a relative input event. Probing powers the chip up, identifies and programs it, and acquires the regulator, the input
  device, three GPIO lines, the interrupt and the attributes. The results of the bus reads are a sequence \<open>bus\<close>, consumed one by
  one; the results of the other calls that may fail are a record. The driver ignores the results of its bus
  writes.
\<close>

subsection \<open>Reading and reporting the motion\<close>

abbreviation (input) ADBS_A330_DELTA_X :: int where "ADBS_A330_DELTA_X \<equiv> 0"
abbreviation (input) ADBS_A330_DIRECTION_NEG :: int where "ADBS_A330_DIRECTION_NEG \<equiv> - 1"

record adbs_a330_data =
  ad_accumulatedPosition :: u32
  ad_lastPositionSent :: u32
  ad_direction :: int
  ad_mode :: int
  ad_dwork :: bool
  ad_reads :: nat
  ad_reports :: "int list"

text \<open>The loop over the motion registers: an error ends it without a result. It goes on for as long as there is motion.\<close>

partial_function (option) adbs_motion_loop :: "(nat \<Rightarrow> int) \<Rightarrow> nat \<Rightarrow> u32 \<Rightarrow> u32 \<Rightarrow> ((u32 \<times> u32) option \<times> nat) option" where
  "adbs_motion_loop bus k delta_x delta_y =
     (let val = bus k;
          val_x = signed_take_bit 7 val;
          delta_x = delta_x + of_int val_x in
      if val < 0 then Some (None, k + 1)
      else let val = bus (k + 1);
               val_y = signed_take_bit 7 val;
               delta_y = delta_y + of_int val_y in
        if val < 0 then Some (None, k + 2)
        else if val_x = 0 \<and> val_y = 0 then Some (Some (delta_x, delta_y), k + 2)
        else adbs_motion_loop bus (k + 2) delta_x delta_y)"

declare adbs_motion_loop.simps [code]

definition adbs_a330_i2c_work_handler :: "(nat \<Rightarrow> int) \<Rightarrow> adbs_a330_data \<Rightarrow> adbs_a330_data option" where
  "adbs_a330_i2c_work_handler bus rot = do {
     (r, k) \<leftarrow> adbs_motion_loop bus (ad_reads rot) 0 0;
     let rot = rot\<lparr>ad_reads := k, ad_dwork := False\<rparr>;
     Some (case r of None \<Rightarrow> rot
       | Some (delta_x, delta_y) \<Rightarrow>
           if ad_mode rot = ADBS_A330_DELTA_X then rot\<lparr>ad_accumulatedPosition := ad_accumulatedPosition rot + delta_x\<rparr>
           else rot\<lparr>ad_accumulatedPosition := ad_accumulatedPosition rot + delta_y\<rparr>) }"

definition adbs_a330_i2c_reschedule_work :: "adbs_a330_data \<Rightarrow> adbs_a330_data" where
  "adbs_a330_i2c_reschedule_work data = data\<lparr>ad_dwork := True\<rparr>"

definition adbs_a330_irq :: "adbs_a330_data \<Rightarrow> adbs_a330_data" where
  "adbs_a330_irq data = adbs_a330_i2c_reschedule_work data"

definition adbs_a330_timer :: "adbs_a330_data \<Rightarrow> adbs_a330_data" where
  "adbs_a330_timer rot =
     (let newPosition = ad_accumulatedPosition rot in
      if newPosition \<noteq> ad_lastPositionSent rot then
        let delta = newPosition - ad_lastPositionSent rot;
            delta = (if ad_direction rot = ADBS_A330_DIRECTION_NEG then - delta else delta) in
        rot\<lparr>ad_reports := ad_reports rot @ [sint delta], ad_lastPositionSent := newPosition\<rparr>
      else rot)"

subsection \<open>Attributes\<close>

text \<open>\<open>stack\<close> is what the uninitialised variable holds, which is stored if the buffer has no number.\<close>

definition adbs_a330_set_direction :: "bytes \<Rightarrow> u32 \<Rightarrow> adbs_a330_data \<Rightarrow> (nat \<times> adbs_a330_data) option" where
  "adbs_a330_set_direction buf stack data = do {
     (_, new_direction) \<leftarrow> sscanf_d buf stack;
     len \<leftarrow> strnlen buf 4096;
     Some (len, data\<lparr>ad_direction := sint new_direction\<rparr>) }"

definition adbs_a330_set_mode :: "bytes \<Rightarrow> u32 \<Rightarrow> adbs_a330_data \<Rightarrow> (nat \<times> adbs_a330_data) option" where
  "adbs_a330_set_mode buf stack data = do {
     (_, new_mode) \<leftarrow> sscanf_u buf stack;
     len \<leftarrow> strnlen buf 4096;
     Some (len, data\<lparr>ad_mode := sint new_mode\<rparr>) }"

definition adbs_a330_get_direction :: "adbs_a330_data \<Rightarrow> bytes" where
  "adbs_a330_get_direction data = show_int (ad_direction data)"

definition adbs_a330_get_mode :: "adbs_a330_data \<Rightarrow> bytes" where
  "adbs_a330_get_mode data = show_int (ad_mode data)"

subsection \<open>Initialisation of the chip\<close>

record adbs_pdata =
  ap_vdda_supply :: bool
  ap_vdda_uv :: int
  ap_motion_gpio :: nat
  ap_reset_gpio :: nat
  ap_shutdown_gpio :: nat
  ap_direction :: int
  ap_mode :: int

text \<open>What the driver holds, and what it did: references to the regulator and its enable count, the input device (allocated, registered), GPIO lines
  (requested, exported, linked from the device's directory), wake-up of the interrupt and of the device, interrupt, timer, attributes; the values written to GPIO lines and to registers.\<close>

record adbs_res =
  ar_data :: bool
  ar_vdd :: bool
  ar_reg :: nat
  ar_reg_on :: nat
  ar_input :: bool
  ar_registered :: bool
  ar_gpios :: "nat set"
  ar_exported :: "nat set"
  ar_links :: "nat set"
  ar_wake :: bool
  ar_wakeup :: bool
  ar_irq :: bool
  ar_timer :: bool
  ar_sysfs :: bool
  ar_lines :: "(nat \<times> int) list"
  ar_writes :: "(u8 \<times> u8) list"
  ar_reads :: nat

record adbs_env =
  ae_func :: bool
  ae_kzalloc :: bool
  ae_reg_get :: int
  ae_supported :: int
  ae_set_voltage :: int
  ae_input :: bool
  ae_request :: "nat \<Rightarrow> int"
  ae_set_dir :: "nat \<Rightarrow> int"
  ae_export :: "nat \<Rightarrow> int"
  ae_link :: "nat \<Rightarrow> int"
  ae_wake :: int
  ae_register :: int
  ae_enable :: int
  ae_irq :: int
  ae_sysfs :: int

definition adbs_read :: "(nat \<Rightarrow> int) \<Rightarrow> adbs_res \<Rightarrow> int \<times> adbs_res" where
  "adbs_read bus r = (bus (ar_reads r), r\<lparr>ar_reads := ar_reads r + 1\<rparr>)"

definition adbs_write :: "u8 \<Rightarrow> int \<Rightarrow> adbs_res \<Rightarrow> adbs_res" where
  "adbs_write reg v r = r\<lparr>ar_writes := ar_writes r @ [(reg, of_int v)]\<rparr>"

definition adbs_set_line :: "nat \<Rightarrow> int \<Rightarrow> adbs_res \<Rightarrow> adbs_res" where
  "adbs_set_line gpio v r = r\<lparr>ar_lines := ar_lines r @ [(gpio, v)]\<rparr>"

definition adbs_a350_init :: "(nat \<Rightarrow> int) \<Rightarrow> adbs_res \<Rightarrow> int \<times> adbs_res" where
  "adbs_a350_init bus r =
     (let r = adbs_write 0x60 0xe4 r;
          r = adbs_write 0x61 0xc9 r;
          r = adbs_write 0x6c 0x00 r;
          r = adbs_write 0x1d 0x0e r;
          (val, r) = adbs_read bus r in
      if val < 0 then (- ENODEV, r)
      else let val = (val AND NOT (push_bit 4 0xF)) OR push_bit 4 1;
               r = adbs_write 0x62 val r;
               r = adbs_write 0x60 0x84 r in (0, r))"

definition adbs_a320_init :: "(nat \<Rightarrow> int) \<Rightarrow> adbs_res \<Rightarrow> int \<times> adbs_res" where
  "adbs_a320_init bus r =
     (let (val, r) = adbs_read bus r in
      if val < 0 then (- ENODEV, r)
      else let val = (val AND NOT (push_bit 3 7)) OR push_bit 3 1 in (0, adbs_write 0x62 val r))"

definition adbs_speed_control :: "(nat \<Rightarrow> int) \<Rightarrow> adbs_res \<Rightarrow> int \<times> adbs_res" where
  "adbs_speed_control bus r =
     (let (val, r) = adbs_read bus r in
      if val < 0 then (- ENODEV, r)
      else (0, adbs_write 0x63 ((val OR push_bit 1 1) AND NOT 1) r))"

definition adbs_a330_init_client :: "adbs_env \<Rightarrow> (nat \<Rightarrow> int) \<Rightarrow> adbs_pdata \<Rightarrow> adbs_res \<Rightarrow> int \<times> adbs_res" where
  "adbs_a330_init_client env bus pd r =
     (if ar_vdd r \<and> ae_enable env \<noteq> 0 then (ae_enable env, r)
      else let r = (if ar_vdd r then r\<lparr>ar_reg_on := ar_reg_on r + 1\<rparr> else r);
               r = adbs_set_line (ap_shutdown_gpio pd) 0 r;
               r = adbs_set_line (ap_reset_gpio pd) 0 r;
               r = adbs_set_line (ap_reset_gpio pd) 1 r;
               (product_id, r) = adbs_read bus r in
        if product_id < 0 then (product_id, r)
        else if product_id \<noteq> 0x83 \<and> product_id \<noteq> 0x88 then (- ENODEV, r)
        else let (err, r) = adbs_read bus r in
          if err < 0 then (err, r)
          else if err \<noteq> 0x01 \<and> err \<noteq> 0x00 then (- ENODEV, r)
          else let (_, r) = adbs_read bus r;
                   (retval, r) = (if product_id = 0x88 then adbs_a350_init bus r else (0, r)) in
            if retval \<noteq> 0 then (retval, r)
            else let (retval, r) = (if product_id = 0x83 then adbs_a320_init bus r else (0, r)) in
              if retval \<noteq> 0 then (retval, r)
              else adbs_speed_control bus r)"

subsection \<open>Probing and removing\<close>

definition adbs_a330_gpio_output_request_and_export :: "adbs_env \<Rightarrow> nat \<Rightarrow> int \<Rightarrow> adbs_res \<Rightarrow> int \<times> adbs_res" where
  "adbs_a330_gpio_output_request_and_export env gpio value r =
     (if ae_request env gpio \<noteq> 0 then (ae_request env gpio, r)
      else let r = r\<lparr>ar_gpios := insert gpio (ar_gpios r)\<rparr> in
      if ae_set_dir env gpio \<noteq> 0 then (ae_set_dir env gpio, r\<lparr>ar_gpios := ar_gpios r - {gpio}\<rparr>)
      else let r = adbs_set_line gpio value r in
      if ae_export env gpio \<noteq> 0 then (ae_export env gpio, r\<lparr>ar_gpios := ar_gpios r - {gpio}\<rparr>)
      else let r = r\<lparr>ar_exported := insert gpio (ar_exported r)\<rparr> in
      if ae_link env gpio \<noteq> 0
      then (ae_link env gpio, r\<lparr>ar_exported := ar_exported r - {gpio}, ar_gpios := ar_gpios r - {gpio}\<rparr>)
      else (0, r\<lparr>ar_links := insert gpio (ar_links r)\<rparr>))"

definition adbs_a330_gpio_input_request_and_export :: "adbs_env \<Rightarrow> nat \<Rightarrow> adbs_res \<Rightarrow> int \<times> adbs_res" where
  "adbs_a330_gpio_input_request_and_export env gpio r =
     (if ae_request env gpio \<noteq> 0 then (ae_request env gpio, r)
      else let r = r\<lparr>ar_gpios := insert gpio (ar_gpios r)\<rparr> in
      if ae_set_dir env gpio \<noteq> 0 then (ae_set_dir env gpio, r\<lparr>ar_gpios := ar_gpios r - {gpio}\<rparr>)
      else if ae_export env gpio \<noteq> 0 then (ae_export env gpio, r\<lparr>ar_gpios := ar_gpios r - {gpio}\<rparr>)
      else let r = r\<lparr>ar_exported := insert gpio (ar_exported r)\<rparr> in
      if ae_link env gpio \<noteq> 0
      then (ae_link env gpio, r\<lparr>ar_exported := ar_exported r - {gpio}, ar_gpios := ar_gpios r - {gpio}\<rparr>)
      else (0, r\<lparr>ar_links := insert gpio (ar_links r)\<rparr>))"

text \<open>The link that \<open>gpio_export_link\<close> made is left to its caller, who does not remove it.\<close>

definition adbs_a330_gpio_unexport_and_free :: "nat \<Rightarrow> adbs_res \<Rightarrow> adbs_res" where
  "adbs_a330_gpio_unexport_and_free gpio r = r\<lparr>ar_exported := ar_exported r - {gpio}, ar_gpios := ar_gpios r - {gpio}\<rparr>"

definition adbs_a330_init_regulator :: "adbs_env \<Rightarrow> int \<Rightarrow> adbs_res \<Rightarrow> int \<times> adbs_res" where
  "adbs_a330_init_regulator env uv r =
     (if uv < 2600000 \<or> uv > 3300000 then (- EINVAL, r)
      else if ae_reg_get env < 0 then (ae_reg_get env, r)
      else let r = r\<lparr>ar_reg := ar_reg r + 1\<rparr> in
      if ae_supported env \<le> 0
      then (if ae_supported env = 0 then - EINVAL else ae_supported env, r\<lparr>ar_reg := ar_reg r - 1\<rparr>)
      else if ae_set_voltage env \<noteq> 0 then (ae_set_voltage env, r\<lparr>ar_reg := ar_reg r - 1\<rparr>)
      else (0, r\<lparr>ar_vdd := True\<rparr>))"

text \<open>The labels at the end of the probe function, each going on to the next.\<close>

definition adbs_exit_free_mem :: "adbs_res \<Rightarrow> adbs_res" where
  "adbs_exit_free_mem r = r\<lparr>ar_data := False\<rparr>"

definition adbs_exit_free_regulator :: "adbs_res \<Rightarrow> adbs_res" where
  "adbs_exit_free_regulator r = adbs_exit_free_mem (if ar_vdd r then r\<lparr>ar_reg := ar_reg r - 1\<rparr> else r)"

definition adbs_exit_free_input :: "adbs_res \<Rightarrow> adbs_res" where
  "adbs_exit_free_input r = adbs_exit_free_regulator (r\<lparr>ar_input := False\<rparr>)"

definition adbs_exit_free_reset_gpio :: "adbs_pdata \<Rightarrow> adbs_res \<Rightarrow> adbs_res" where
  "adbs_exit_free_reset_gpio pd r = adbs_exit_free_input (adbs_a330_gpio_unexport_and_free (ap_reset_gpio pd) r)"

definition adbs_exit_free_shutdown_gpio :: "adbs_pdata \<Rightarrow> adbs_res \<Rightarrow> adbs_res" where
  "adbs_exit_free_shutdown_gpio pd r = adbs_exit_free_reset_gpio pd (adbs_a330_gpio_unexport_and_free (ap_shutdown_gpio pd) r)"

definition adbs_exit_free_motion_gpio :: "adbs_pdata \<Rightarrow> adbs_res \<Rightarrow> adbs_res" where
  "adbs_exit_free_motion_gpio pd r = adbs_exit_free_shutdown_gpio pd (adbs_a330_gpio_unexport_and_free (ap_motion_gpio pd) r)"

definition adbs_exit_disable_wake :: "adbs_pdata \<Rightarrow> adbs_res \<Rightarrow> adbs_res" where
  "adbs_exit_disable_wake pd r = adbs_exit_free_motion_gpio pd (r\<lparr>ar_wake := False\<rparr>)"

definition adbs_exit_unregister_input :: "adbs_pdata \<Rightarrow> adbs_res \<Rightarrow> adbs_res" where
  "adbs_exit_unregister_input pd r = adbs_exit_disable_wake pd (r\<lparr>ar_registered := False, ar_input := False\<rparr>)"

definition adbs_exit_free_irq :: "adbs_pdata \<Rightarrow> adbs_res \<Rightarrow> adbs_res" where
  "adbs_exit_free_irq pd r = adbs_exit_unregister_input pd (r\<lparr>ar_timer := False, ar_irq := False\<rparr>)"

definition adbs_initial_data :: "adbs_pdata \<Rightarrow> adbs_res \<Rightarrow> adbs_a330_data" where
  "adbs_initial_data pd r = \<lparr>ad_accumulatedPosition = 0, ad_lastPositionSent = 0, ad_direction = ap_direction pd, ad_mode = ap_mode pd,
     ad_dwork = False, ad_reads = ar_reads r, ad_reports = []\<rparr>"

definition adbs_probe_lines :: "adbs_env \<Rightarrow> adbs_pdata \<Rightarrow> adbs_res \<Rightarrow> int \<times> adbs_res" where
  "adbs_probe_lines env pd r =
     (let (err, r) = adbs_a330_gpio_output_request_and_export env (ap_reset_gpio pd) 1 r in
      if err \<noteq> 0 then (err, adbs_exit_free_input r)
      else let (err, r) = adbs_a330_gpio_output_request_and_export env (ap_shutdown_gpio pd) 1 r in
      if err \<noteq> 0 then (err, adbs_exit_free_reset_gpio pd r)
      else let (err, r) = adbs_a330_gpio_input_request_and_export env (ap_motion_gpio pd) r in
      if err \<noteq> 0 then (err, adbs_exit_free_shutdown_gpio pd r)
      else if ae_wake env \<noteq> 0 then (ae_wake env, adbs_exit_free_motion_gpio pd r)
      else (0, r\<lparr>ar_wake := True\<rparr>))"

definition adbs_probe_start :: "adbs_env \<Rightarrow> (nat \<Rightarrow> int) \<Rightarrow> adbs_pdata \<Rightarrow> adbs_res \<Rightarrow> int \<times> adbs_res \<times> adbs_a330_data option" where
  "adbs_probe_start env bus pd r =
     (if ae_register env \<noteq> 0 then (ae_register env, adbs_exit_disable_wake pd r, None)
      else let r = r\<lparr>ar_registered := True, ar_wakeup := True\<rparr>;
               (err, r) = adbs_a330_init_client env bus pd r in
      if err \<noteq> 0 then (err, adbs_exit_unregister_input pd r, None)
      else if ae_irq env \<noteq> 0 then (ae_irq env, adbs_exit_unregister_input pd r, None)
      else let r = r\<lparr>ar_irq := True, ar_timer := True\<rparr> in
      if ae_sysfs env \<noteq> 0 then (ae_sysfs env, adbs_exit_free_irq pd r, None)
      else (0, r\<lparr>ar_sysfs := True\<rparr>, Some (adbs_initial_data pd r)))"

definition adbs_a330_probe ::
  "adbs_env \<Rightarrow> (nat \<Rightarrow> int) \<Rightarrow> adbs_pdata option \<Rightarrow> adbs_res \<Rightarrow> int \<times> adbs_res \<times> adbs_a330_data option" where
  "adbs_a330_probe env bus pdata r = (case pdata of None \<Rightarrow> (- ENODEV, r, None) | Some pd \<Rightarrow>
     if \<not> ae_func env then (- EIO, r, None)
     else if \<not> ae_kzalloc env then (- ENOMEM, r, None)
     else let r = r\<lparr>ar_data := True\<rparr>;
              (err, r) = (if ap_vdda_supply pd then adbs_a330_init_regulator env (ap_vdda_uv pd) r else (0, r)) in
       if err \<noteq> 0 then (err, adbs_exit_free_mem r, None)
       else if \<not> ae_input env then (- ENOMEM, adbs_exit_free_regulator r, None)
       else let r = r\<lparr>ar_input := True\<rparr>;
                (err, r) = adbs_probe_lines env pd r in
         if err \<noteq> 0 then (err, r, None)
         else adbs_probe_start env bus pd r)"

text \<open>Removing the driver from a device with the state \<open>d\<close>: the second result is what is left of it. Its work is not cancelled, so
  one that is pending stays queued when the driver data is freed.\<close>

definition adbs_a330_remove :: "adbs_pdata \<Rightarrow> adbs_res \<Rightarrow> adbs_a330_data \<Rightarrow> int \<times> adbs_res \<times> adbs_a330_data" where
  "adbs_a330_remove pd r d =
     (let r = r\<lparr>ar_sysfs := False, ar_timer := False, ar_irq := False\<rparr>;
          r = adbs_a330_gpio_unexport_and_free (ap_motion_gpio pd) r;
          r = adbs_a330_gpio_unexport_and_free (ap_shutdown_gpio pd) r;
          r = adbs_a330_gpio_unexport_and_free (ap_reset_gpio pd) r;
          r = r\<lparr>ar_registered := False, ar_input := False, ar_wakeup := False\<rparr>;
          r = (if ar_vdd r then r\<lparr>ar_reg := ar_reg r - 1\<rparr> else r) in
      (0, r\<lparr>ar_data := False\<rparr>, d))"

subsection \<open>What a reading collects\<close>

text \<open>The pairs of reads from a position on: both without an error, and showing motion; the motion of the first ones along the axes.\<close>

definition pair_ok :: "(nat \<Rightarrow> int) \<Rightarrow> nat \<Rightarrow> bool" where
  "pair_ok bus k \<longleftrightarrow> 0 \<le> bus k \<and> 0 \<le> bus (k + 1)"

definition pair_still :: "(nat \<Rightarrow> int) \<Rightarrow> nat \<Rightarrow> bool" where
  "pair_still bus k \<longleftrightarrow> signed_take_bit 7 (bus k) = 0 \<and> signed_take_bit 7 (bus (k + 1)) = 0"

definition moving :: "(nat \<Rightarrow> int) \<Rightarrow> nat \<Rightarrow> nat \<Rightarrow> bool" where
  "moving bus k n \<longleftrightarrow> (\<forall>i < n. pair_ok bus (k + 2 * i) \<and> \<not> pair_still bus (k + 2 * i))"

fun motion_x :: "(nat \<Rightarrow> int) \<Rightarrow> nat \<Rightarrow> nat \<Rightarrow> int" where
  "motion_x bus k 0 = 0"
| "motion_x bus k (Suc n) = signed_take_bit 7 (bus k) + motion_x bus (k + 2) n"

definition motion_y :: "(nat \<Rightarrow> int) \<Rightarrow> nat \<Rightarrow> nat \<Rightarrow> int" where
  "motion_y bus k n = motion_x (\<lambda>i. bus (i + 1)) k n"

lemma moving_Suc: "moving bus k (Suc n) \<longleftrightarrow> pair_ok bus k \<and> \<not> pair_still bus k \<and> moving bus (k + 2) n"
proof -
  have "(\<forall>i < Suc n. P i) \<longleftrightarrow> P 0 \<and> (\<forall>i < n. P (Suc i))" for P :: "nat \<Rightarrow> bool" using less_Suc_eq_0_disj by auto
  then show ?thesis by (simp add: moving_def)
qed

lemma motion_y_Suc: "motion_y bus k (Suc n) = signed_take_bit 7 (bus (k + 1)) + motion_y bus (k + 2) n"
  by (simp add: motion_y_def)

lemma adbs_motion_loop_step:
  "pair_ok bus k \<Longrightarrow> \<not> pair_still bus k \<Longrightarrow> adbs_motion_loop bus k dx dy =
     adbs_motion_loop bus (k + 2) (dx + of_int (signed_take_bit 7 (bus k))) (dy + of_int (signed_take_bit 7 (bus (k + 1))))"
  by (subst adbs_motion_loop.simps) (auto simp: pair_ok_def pair_still_def Let_def)

lemma adbs_motion_loop_moves:
  "moving bus k n \<Longrightarrow> adbs_motion_loop bus k dx dy =
     adbs_motion_loop bus (k + 2 * n) (dx + of_int (motion_x bus k n)) (dy + of_int (motion_y bus k n))"
proof (induction n arbitrary: k dx dy)
  case (Suc n)
  then show ?case by (simp add: moving_Suc motion_y_Suc adbs_motion_loop_step add.assoc)
qed (simp add: motion_y_def)

lemma adbs_motion_loop_still:
  "pair_ok bus k \<Longrightarrow> pair_still bus k \<Longrightarrow> adbs_motion_loop bus k dx dy = Some (Some (dx, dy), k + 2)"
  by (subst adbs_motion_loop.simps) (auto simp: pair_ok_def pair_still_def Let_def)

lemma adbs_motion_loop_error:
  "\<not> pair_ok bus k \<Longrightarrow> adbs_motion_loop bus k dx dy = Some (None, if bus k < 0 then k + 1 else k + 2)"
  by (subst adbs_motion_loop.simps) (auto simp: pair_ok_def Let_def)

lemma adbs_motion_loop_forever:
  assumes "\<forall>n. moving bus k n"
  shows "adbs_motion_loop bus k dx dy = None"
proof (cases "adbs_motion_loop bus k dx dy")
  case (Some r)
  have "\<not> (\<forall>n. moving bus k n)"
  proof (rule adbs_motion_loop.raw_induct [OF _ Some, where P = "\<lambda>bus k dx dy r. \<not> (\<forall>n. moving bus k n)"], rule notI)
    fix rec bus k dx dy r
    assume IH: "\<And>bus k dx dy r. rec bus k dx dy = Some r \<Longrightarrow> \<not> (\<forall>n. moving bus k n)"
      and body: "(let val = bus k; val_x = signed_take_bit 7 val; delta_x = dx + of_int val_x in
        if val < 0 then Some (None, k + 1)
        else let val = bus (k + 1); val_y = signed_take_bit 7 val; delta_y = dy + of_int val_y in
          if val < 0 then Some (None, k + 2)
          else if val_x = 0 \<and> val_y = 0 then Some (Some (delta_x, delta_y), k + 2)
          else rec bus (k + 2) delta_x delta_y) = Some r"
      and m: "\<forall>n. moving bus k n"
    have "pair_ok bus k" "\<not> pair_still bus k" "\<forall>n. moving bus (k + 2) n" using m moving_Suc by blast+
    with body have "rec bus (k + 2) (dx + of_int (signed_take_bit 7 (bus k))) (dy + of_int (signed_take_bit 7 (bus (k + 1)))) = Some r"
      by (auto simp: Let_def pair_ok_def pair_still_def split: if_splits)
    from IH [OF this] show False using \<open>\<forall>n. moving bus (k + 2) n\<close> by blast
  qed
  with assms show ?thesis by blast
qed

text \<open>C36. A reading of the sensor returns exactly if the motion pauses or the bus fails. If the motion pauses after some pairs of reads, their sum along the
  chosen axis, as signed bytes, is added to the position, modulo \<open>2 ^ 32\<close>, and nothing else is changed; if a read fails first, the position stays as it was; and as
  long as the sensor shows motion, the reading goes on.\<close>

theorem adbs_reading_collects:
  "(case adbs_a330_i2c_work_handler bus rot of
      None \<Rightarrow> \<forall>n. moving bus (ad_reads rot) n
    | Some rot' \<Rightarrow> \<exists>n k. moving bus (ad_reads rot) n \<and> k = ad_reads rot + 2 * n \<and>
        (if pair_ok bus k
         then pair_still bus k \<and> rot' = rot\<lparr>ad_reads := k + 2, ad_dwork := False, ad_accumulatedPosition := ad_accumulatedPosition rot +
           of_int (if ad_mode rot = ADBS_A330_DELTA_X then motion_x bus (ad_reads rot) n else motion_y bus (ad_reads rot) n)\<rparr>
         else rot' = rot\<lparr>ad_reads := if bus k < 0 then k + 1 else k + 2, ad_dwork := False\<rparr>))"
proof (cases "\<forall>n. moving bus (ad_reads rot) n")
  case True
  then show ?thesis by (simp add: adbs_a330_i2c_work_handler_def adbs_motion_loop_forever)
next
  case False
  define n where "n = (LEAST m. \<not> moving bus (ad_reads rot) (Suc m))"
  have "\<exists>m. \<not> moving bus (ad_reads rot) (Suc m)"
  proof (rule ccontr)
    assume "\<nexists>m. \<not> moving bus (ad_reads rot) (Suc m)"
    then have "moving bus (ad_reads rot) n" for n by (cases n) (auto simp: moving_def)
    with False show False by blast
  qed
  then have stop: "\<not> moving bus (ad_reads rot) (Suc n)" unfolding n_def by (rule LeastI_ex)
  have mv: "moving bus (ad_reads rot) n"
  proof (cases n)
    case (Suc m)
    then show ?thesis using not_less_Least [of m "\<lambda>m. \<not> moving bus (ad_reads rot) (Suc m)"] n_def by auto
  qed (simp add: moving_def)
  let ?k = "ad_reads rot + 2 * n"
  have fin: "\<not> (pair_ok bus ?k \<and> \<not> pair_still bus ?k)"
    using stop mv by (auto simp: moving_def less_Suc_eq)
  show ?thesis
  proof (cases "pair_ok bus ?k")
    case True
    with fin have "pair_still bus ?k" by blast
    with True mv show ?thesis
      by (auto simp: adbs_a330_i2c_work_handler_def adbs_motion_loop_moves [OF mv] adbs_motion_loop_still Let_def intro!: exI [of _ n])
  next
    case no: False
    with mv show ?thesis
      by (auto simp: adbs_a330_i2c_work_handler_def adbs_motion_loop_moves [OF mv] adbs_motion_loop_error [OF no] Let_def intro!: exI [of _ n])
  qed
qed

subsection \<open>What is reported\<close>

datatype adbs_event = AIrq | AWork | ATick

fun adbs_do :: "(nat \<Rightarrow> int) \<Rightarrow> adbs_event \<Rightarrow> adbs_a330_data \<Rightarrow> adbs_a330_data option" where
  "adbs_do bus AIrq d = Some (adbs_a330_irq d)"
| "adbs_do bus AWork d = adbs_a330_i2c_work_handler bus d"
| "adbs_do bus ATick d = Some (adbs_a330_timer d)"

fun adbs_exec :: "(nat \<Rightarrow> int) \<Rightarrow> adbs_event list \<Rightarrow> adbs_a330_data \<Rightarrow> adbs_a330_data option" where
  "adbs_exec bus [] d = Some d"
| "adbs_exec bus (ev # evs) d = Option.bind (adbs_do bus ev d) (adbs_exec bus evs)"

text \<open>The position that is not reported yet, the reported movement with the direction taken out, and the movement of an event.\<close>

definition adbs_pend :: "adbs_a330_data \<Rightarrow> u32" where
  "adbs_pend d = ad_accumulatedPosition d - ad_lastPositionSent d"

definition adbs_total :: "adbs_a330_data \<Rightarrow> int" where
  "adbs_total d = (if ad_direction d = ADBS_A330_DIRECTION_NEG then - sum_list (ad_reports d) else sum_list (ad_reports d))"

definition adbs_step :: "(nat \<Rightarrow> int) \<Rightarrow> adbs_event \<Rightarrow> adbs_a330_data \<Rightarrow> adbs_a330_data" where
  "adbs_step bus ev d = (case adbs_do bus ev d of Some d' \<Rightarrow> d' | None \<Rightarrow> d)"

definition adbs_moved :: "(nat \<Rightarrow> int) \<Rightarrow> adbs_event \<Rightarrow> adbs_a330_data \<Rightarrow> int" where
  "adbs_moved bus ev d = (if ev = AWork then sint (ad_accumulatedPosition (adbs_step bus ev d) - ad_accumulatedPosition d) else 0)"

lemma adbs_work_frame:
  assumes "adbs_a330_i2c_work_handler bus d = Some d'"
  shows "ad_reports d' = ad_reports d \<and> ad_direction d' = ad_direction d \<and> ad_lastPositionSent d' = ad_lastPositionSent d"
proof -
  obtain r k where l: "adbs_motion_loop bus (ad_reads d) 0 0 = Some (r, k)"
    using assms by (auto simp: adbs_a330_i2c_work_handler_def bind_eq_Some_conv)
  show ?thesis using assms l by (cases r) (auto simp: adbs_a330_i2c_work_handler_def Let_def)
qed

lemma adbs_tick:
  "adbs_pend (adbs_a330_timer d) = 0"
  "of_int (adbs_total (adbs_a330_timer d)) = of_int (adbs_total d) + adbs_pend d"
  by (auto simp: adbs_pend_def adbs_total_def adbs_a330_timer_def Let_def)

lemma sint_of_int_u32: "- (2 ^ 31) < n \<Longrightarrow> n < 2 ^ 31 \<Longrightarrow> sint (of_int n :: u32) = n \<and> sint (- of_int n :: u32) = - n"
  using signed_take_bit_int_eq_self [of 31 n] signed_take_bit_int_eq_self [of 31 "- n"]
  by (simp add: signed_of_int flip: of_int_minus)

lemma adbs_tick_exact:
  assumes "- (2 ^ 31) < n" "n < 2 ^ 31" "adbs_pend d = of_int n"
  shows "adbs_total (adbs_a330_timer d) = adbs_total d + n"
proof -
  have p: "ad_accumulatedPosition d - ad_lastPositionSent d = of_int n" using assms(3) by (simp add: adbs_pend_def)
  show ?thesis
  proof (cases "ad_accumulatedPosition d = ad_lastPositionSent d")
    case True
    then have "n = 0" using p sint_of_int_u32 [OF assms(1,2)] by simp
    with True show ?thesis by (simp add: adbs_total_def adbs_a330_timer_def)
  next
    case False
    then show ?thesis using sint_of_int_u32 [OF assms(1,2)] unfolding adbs_total_def adbs_a330_timer_def Let_def p by simp
  qed
qed

interpretation adbs: position_reporter "adbs_step bus" "\<lambda>ev. ev = ATick" "adbs_moved bus" "\<lambda>n. - (2 ^ 31) < n \<and> n < 2 ^ 31" adbs_pend adbs_total for bus
proof
  show "\<not> ev = ATick \<Longrightarrow> adbs_total (adbs_step bus ev d) = adbs_total d \<and> adbs_pend (adbs_step bus ev d) = adbs_pend d + of_int (adbs_moved bus ev d)" for ev d
  proof (cases ev)
    case AWork
    then show ?thesis using adbs_work_frame [of bus d]
      by (cases "adbs_a330_i2c_work_handler bus d") (auto simp: adbs_step_def adbs_moved_def adbs_total_def adbs_pend_def)
  qed (auto simp: adbs_step_def adbs_moved_def adbs_total_def adbs_pend_def adbs_a330_irq_def adbs_a330_i2c_reschedule_work_def)
qed (auto simp: adbs_moved_def adbs_step_def adbs_tick adbs_tick_exact)

lemma adbs_exec_fold: "adbs_exec bus evs d = Some d' \<Longrightarrow> d' = fold (adbs_step bus) evs d"
  by (induction evs arbitrary: d) (auto simp: bind_eq_Some_conv adbs_step_def)

text \<open>C35. Whatever the interleaving of interrupts, readings and timer ticks, in either direction of the axis: the sum of the reports, with the
  sign of the direction, and the position not yet reported make up the movement collected by the readings, modulo \<open>2 ^ 32\<close>; and exactly,
  if no tick finds a movement of \<open>2 ^ 31\<close> or more.\<close>

theorem adbs_reports_movement:
  assumes "adbs_exec bus evs d = Some d'" "ad_accumulatedPosition d = ad_lastPositionSent d" "ad_reports d = []"
  shows "of_int (adbs_total d') + adbs_pend d' = (of_int (net_moved (adbs_step bus) (adbs_moved bus) evs d) :: u32) \<and>
    (slow_enough (adbs_step bus) (\<lambda>ev. ev = ATick) (adbs_moved bus) (\<lambda>n. - (2 ^ 31) < n \<and> n < 2 ^ 31) 0 evs d \<longrightarrow>
      adbs_total d' + since_tick (adbs_step bus) (\<lambda>ev. ev = ATick) (adbs_moved bus) 0 evs d = net_moved (adbs_step bus) (adbs_moved bus) evs d)"
proof -
  have "adbs_pend d = of_int 0" "adbs_total d = 0" using assms(2,3) by (simp_all add: adbs_pend_def adbs_total_def)
  with adbs.reports_mod [of bus evs d] adbs.reports_exact [of d 0 bus evs] adbs_exec_fold [OF assms(1)] show ?thesis by simp
qed

subsection \<open>What probing and removing hold\<close>

definition adbs_none :: adbs_res where
  "adbs_none = \<lparr>ar_data = False, ar_vdd = False, ar_reg = 0, ar_reg_on = 0, ar_input = False, ar_registered = False, ar_gpios = {}, ar_exported = {}, ar_links = {},
     ar_wake = False, ar_wakeup = False, ar_irq = False, ar_timer = False, ar_sysfs = False, ar_lines = [], ar_writes = [], ar_reads = 0\<rparr>"

text \<open>The resources alone, without the logs.\<close>

definition adbs_held :: "adbs_res \<Rightarrow> adbs_res" where
  "adbs_held r = r\<lparr>ar_lines := [], ar_writes := [], ar_reads := 0\<rparr>"

lemmas adbs_labels = adbs_exit_free_mem_def adbs_exit_free_regulator_def adbs_exit_free_input_def adbs_exit_free_reset_gpio_def
  adbs_exit_free_shutdown_gpio_def adbs_exit_free_motion_gpio_def adbs_exit_disable_wake_def adbs_exit_unregister_input_def
  adbs_exit_free_irq_def adbs_a330_gpio_unexport_and_free_def

lemma adbs_held_bus [simp]:
  "adbs_held (snd (adbs_read bus r)) = adbs_held r" "adbs_held (adbs_write reg v r) = adbs_held r" "adbs_held (adbs_set_line g v r) = adbs_held r"
  by (simp_all add: adbs_read_def adbs_write_def adbs_set_line_def adbs_held_def)

lemma adbs_held_chip [simp]:
  "adbs_held (snd (adbs_a350_init bus r)) = adbs_held r" "adbs_held (snd (adbs_a320_init bus r)) = adbs_held r"
  "adbs_held (snd (adbs_speed_control bus r)) = adbs_held r"
  by (simp_all add: adbs_a350_init_def adbs_a320_init_def adbs_speed_control_def adbs_held_def adbs_read_def adbs_write_def Let_def)

text \<open>Programming the chip changes nothing that is held but the enable count of the regulator.\<close>

lemma adbs_held_init_client:
  "adbs_held (snd (adbs_a330_init_client env bus pd r)) = adbs_held (if ar_vdd r \<and> ae_enable env = 0 then r\<lparr>ar_reg_on := ar_reg_on r + 1\<rparr> else r)"
proof -
  let ?r = "if ar_vdd r then r\<lparr>ar_reg_on := ar_reg_on r + 1\<rparr> else r"
  have rest: "adbs_held (snd (adbs_a330_init_client env bus pd r)) = adbs_held ?r" if "\<not> (ar_vdd r \<and> ae_enable env \<noteq> 0)"
    using that unfolding adbs_a330_init_client_def
    by (simp add: Let_def split_beta adbs_read_def adbs_set_line_def)
      (simp add: adbs_held_def adbs_a350_init_def adbs_a320_init_def adbs_speed_control_def adbs_read_def adbs_write_def Let_def)
  then show ?thesis by (cases "ar_vdd r \<and> ae_enable env \<noteq> 0") (auto simp: adbs_a330_init_client_def)
qed

lemma adbs_held_eqD: "adbs_held r = adbs_held s \<Longrightarrow> \<exists>ls ws n. r = s\<lparr>ar_lines := ls, ar_writes := ws, ar_reads := n\<rparr>"
  by (intro exI [of _ "ar_lines r"] exI [of _ "ar_writes r"] exI [of _ "ar_reads r"]) (cases r; cases s; simp add: adbs_held_def)

abbreviation lines_held :: "adbs_res \<Rightarrow> nat set \<Rightarrow> nat set \<Rightarrow> (nat \<times> int) list \<Rightarrow> adbs_res" where
  "lines_held r A L ls \<equiv> r\<lparr>ar_gpios := A, ar_exported := A, ar_links := L, ar_lines := ls\<rparr>"

lemma adbs_gpio_lines:
  assumes "gpio \<notin> A"
  shows "\<exists>err ls'. adbs_a330_gpio_output_request_and_export env gpio v (lines_held r A L ls) = (err, lines_held r (if err = 0 then insert gpio A else A) (if err = 0 then insert gpio L else L) ls')"
    and "\<exists>err. adbs_a330_gpio_input_request_and_export env gpio (lines_held r A L ls) = (err, lines_held r (if err = 0 then insert gpio A else A) (if err = 0 then insert gpio L else L) ls)"
proof -
  show "\<exists>err ls'. adbs_a330_gpio_output_request_and_export env gpio v (lines_held r A L ls) = (err, lines_held r (if err = 0 then insert gpio A else A) (if err = 0 then insert gpio L else L) ls')"
  proof (cases "ae_request env gpio = 0 \<and> ae_set_dir env gpio = 0")
    case True
    then show ?thesis using assms
      by (intro exI [of _ "if ae_export env gpio \<noteq> 0 then ae_export env gpio else ae_link env gpio"] exI [of _ "ls @ [(gpio, v)]"])
        (simp add: adbs_a330_gpio_output_request_and_export_def Let_def adbs_set_line_def)
  next
    case False
    then show ?thesis using assms
      by (intro exI [of _ "if ae_request env gpio \<noteq> 0 then ae_request env gpio else ae_set_dir env gpio"] exI [of _ ls])
        (simp add: adbs_a330_gpio_output_request_and_export_def Let_def)
  qed
  show "\<exists>err. adbs_a330_gpio_input_request_and_export env gpio (lines_held r A L ls) = (err, lines_held r (if err = 0 then insert gpio A else A) (if err = 0 then insert gpio L else L) ls)"
    using assms by (auto simp: adbs_a330_gpio_input_request_and_export_def Let_def)
qed

lemma adbs_probe_lines_spec:
  assumes w: "\<not> ar_wake r" and d: "distinct [ap_reset_gpio pd, ap_shutdown_gpio pd, ap_motion_gpio pd]"
  defines "G \<equiv> {ap_motion_gpio pd, ap_shutdown_gpio pd, ap_reset_gpio pd}"
  shows "\<exists>err L ls'. adbs_probe_lines env pd (lines_held r {} {} ls) = (err, if err = 0
    then (lines_held r G G ls')\<lparr>ar_wake := True\<rparr> else adbs_exit_free_input (lines_held r {} L ls'))"
proof -
  let ?g1 = "ap_reset_gpio pd" and ?g2 = "ap_shutdown_gpio pd" and ?g3 = "ap_motion_gpio pd"
  have dd: "?g1 \<notin> {}" "?g2 \<notin> {?g1}" "?g3 \<notin> {?g2, ?g1}" using d by auto
  obtain e1 l1 where 1: "adbs_a330_gpio_output_request_and_export env ?g1 1 (lines_held r {} {} ls) =
    (e1, lines_held r (if e1 = 0 then {?g1} else {}) (if e1 = 0 then {?g1} else {}) l1)"
    using adbs_gpio_lines(1) [OF dd(1), where env = env and v = 1 and r = r and L = "{}" and ls = ls] by blast
  obtain e2 l2 where 2: "adbs_a330_gpio_output_request_and_export env ?g2 1 (lines_held r {?g1} {?g1} l1) =
    (e2, lines_held r (if e2 = 0 then {?g2, ?g1} else {?g1}) (if e2 = 0 then {?g2, ?g1} else {?g1}) l2)"
    using adbs_gpio_lines(1) [OF dd(2), where env = env and v = 1 and r = r and L = "{?g1}" and ls = l1] by blast
  obtain e3 where 3: "adbs_a330_gpio_input_request_and_export env ?g3 (lines_held r {?g2, ?g1} {?g2, ?g1} l2) =
    (e3, lines_held r (if e3 = 0 then G else {?g2, ?g1}) (if e3 = 0 then G else {?g2, ?g1}) l2)"
    using adbs_gpio_lines(2) [OF dd(3), where env = env and r = r and L = "{?g2, ?g1}" and ls = l2] unfolding G_def by blast
  have G: "G - {?g3} - {?g2} - {?g1} = {}" "{?g2, ?g1} - {?g2} - {?g1} = {}" "{?g1} - {?g1} = {}" by (auto simp: G_def)
  show ?thesis
  proof (cases "e1 = 0")
    case e1: False
    then show ?thesis using 1 by (intro exI [of _ e1] exI [of _ "{}"] exI [of _ l1]) (simp add: adbs_probe_lines_def)
  next
    case e1: True
    show ?thesis
    proof (cases "e2 = 0")
      case e2: False
      then show ?thesis using 1 2 e1 by (intro exI [of _ e2] exI [of _ "{?g1}"] exI [of _ l2]) (simp add: adbs_probe_lines_def adbs_labels)
    next
      case e2: True
      show ?thesis
      proof (cases "e3 = 0")
        case e3: False
        then show ?thesis using 1 2 3 e1 e2 G by (intro exI [of _ e3] exI [of _ "{?g2, ?g1}"] exI [of _ l2]) (simp add: adbs_probe_lines_def adbs_labels)
      next
        case e3: True
        then show ?thesis using 1 2 3 e1 e2 G w by (intro exI [of _ "ae_wake env"] exI [of _ G] exI [of _ l2]) (simp add: adbs_probe_lines_def adbs_labels)
      qed
    qed
  qed
qed

lemma adbs_init_client_spec:
  "\<exists>err ls ws n. adbs_a330_init_client env bus pd r =
     (err, (if ar_vdd r \<and> ae_enable env = 0 then r\<lparr>ar_reg_on := ar_reg_on r + 1\<rparr> else r)\<lparr>ar_lines := ls, ar_writes := ws, ar_reads := n\<rparr>)"
  using adbs_held_eqD [OF adbs_held_init_client [of env bus pd r]] by (metis prod.collapse)

definition adbs_full :: "adbs_pdata \<Rightarrow> adbs_res" where
  "adbs_full pd =
     (let G = {ap_motion_gpio pd, ap_shutdown_gpio pd, ap_reset_gpio pd}; n = (if ap_vdda_supply pd then 1 else 0) in
      \<lparr>ar_data = True, ar_vdd = ap_vdda_supply pd, ar_reg = n, ar_reg_on = n, ar_input = True, ar_registered = True, ar_gpios = G, ar_exported = G, ar_links = G,
       ar_wake = True, ar_wakeup = True, ar_irq = True, ar_timer = True, ar_sysfs = True, ar_lines = [], ar_writes = [], ar_reads = 0\<rparr>)"

definition adbs_powered :: "bool \<Rightarrow> adbs_res" where
  "adbs_powered v = lines_held (adbs_none\<lparr>ar_data := True, ar_vdd := v, ar_reg := (if v then 1 else 0), ar_input := True\<rparr>) {} {} []"

lemma adbs_probe_start_spec:
  fixes pd :: adbs_pdata
  defines "G \<equiv> {ap_motion_gpio pd, ap_shutdown_gpio pd, ap_reset_gpio pd}"
  assumes p: "adbs_probe_start env bus pd ((lines_held (adbs_powered (ap_vdda_supply pd)) G G ls)\<lparr>ar_wake := True\<rparr>) = (err, r, dd)"
  shows "if err = 0 then adbs_held r = adbs_full pd \<and> dd = Some (adbs_initial_data pd r)
    else dd = None \<and> (adbs_held r)\<lparr>ar_vdd := False, ar_reg_on := 0, ar_wakeup := False, ar_links := {}\<rparr> = adbs_none"
proof -
  let ?r0 = "(lines_held (adbs_powered (ap_vdda_supply pd)) G G ls)\<lparr>ar_wake := True, ar_registered := True, ar_wakeup := True\<rparr>"
  obtain e ls' ws n where i: "adbs_a330_init_client env bus pd ?r0 = (e, (if ar_vdd ?r0 \<and> ae_enable env = 0
    then ?r0\<lparr>ar_reg_on := ar_reg_on ?r0 + 1\<rparr> else ?r0)\<lparr>ar_lines := ls', ar_writes := ws, ar_reads := n\<rparr>)"
    using adbs_init_client_spec [of env bus pd ?r0] by blast
  have on: "ae_enable env = 0" if "e = 0" "ap_vdda_supply pd"
    using i that by (auto simp: adbs_a330_init_client_def adbs_powered_def split: if_splits)
  have G: "G - {ap_motion_gpio pd} - {ap_shutdown_gpio pd} - {ap_reset_gpio pd} = {}" by (auto simp: G_def)
  show ?thesis
  proof (cases "ae_register env = 0 \<and> e = 0 \<and> ae_irq env = 0 \<and> ae_sysfs env = 0")
    case True
    with p i on show ?thesis
      by (auto simp: adbs_probe_start_def Let_def adbs_held_def adbs_full_def adbs_initial_data_def adbs_powered_def adbs_none_def G_def split: if_splits)
  next
    case False
    with p i have "err \<noteq> 0 \<and> dd = None" by (auto simp: adbs_probe_start_def Let_def split: if_splits)
    moreover from False p i G have "(adbs_held r)\<lparr>ar_vdd := False, ar_reg_on := 0, ar_wakeup := False, ar_links := {}\<rparr> = adbs_none"
      by (auto simp: adbs_probe_start_def Let_def adbs_held_def adbs_labels adbs_powered_def adbs_none_def split: if_splits)
    ultimately show ?thesis by simp
  qed
qed

lemma adbs_regulator_spec:
  assumes "ar_reg r = 0" "\<not> ar_vdd r"
  shows "\<exists>e. (if s then adbs_a330_init_regulator env uv r else (0, r)) = (e, if e = 0 then r\<lparr>ar_vdd := s, ar_reg := (if s then 1 else 0)\<rparr> else r)"
  using assms by (cases r) (auto simp: adbs_a330_init_regulator_def Let_def)

text \<open>Probing the motion sensor, for three different lines, either succeeds, holding every resource, with the positions equal and nothing
  reported; or it fails and holds nothing, but for what the error paths forget: the enable count of the regulator, the wake-up setting of the
  device and the links to the lines. Removing the driver forgets the enable count, the wake-up of the interrupt and the links, and whatever
  work is pending stays queued while the driver data is freed.\<close>

lemma adbs_probe_resources:
  assumes d: "distinct [ap_reset_gpio pd, ap_shutdown_gpio pd, ap_motion_gpio pd]"
    and p: "adbs_a330_probe env bus (Some pd) adbs_none = (err, r, dd)"
  shows "if err = 0
    then adbs_held r = adbs_full pd \<and> dd = Some (adbs_initial_data pd r) \<and> (\<forall>d. \<exists>r'. adbs_a330_remove pd r d = (0, r', d) \<and>
      adbs_held r' = adbs_none\<lparr>ar_vdd := ap_vdda_supply pd, ar_reg_on := (if ap_vdda_supply pd then 1 else 0), ar_wake := True,
        ar_links := {ap_motion_gpio pd, ap_shutdown_gpio pd, ap_reset_gpio pd}\<rparr>)
    else dd = None \<and> (adbs_held r)\<lparr>ar_vdd := False, ar_reg_on := 0, ar_wakeup := False, ar_links := {}\<rparr> = adbs_none"
proof -
  let ?r0 = "adbs_none\<lparr>ar_data := True\<rparr>"
  obtain e1 where 1: "(if ap_vdda_supply pd then adbs_a330_init_regulator env (ap_vdda_uv pd) ?r0 else (0, ?r0)) =
    (e1, if e1 = 0 then ?r0\<lparr>ar_vdd := ap_vdda_supply pd, ar_reg := (if ap_vdda_supply pd then 1 else 0)\<rparr> else ?r0)"
    using adbs_regulator_spec [of ?r0 "ap_vdda_supply pd" env "ap_vdda_uv pd"] by (auto simp: adbs_none_def)
  have pw: "?r0\<lparr>ar_vdd := ap_vdda_supply pd, ar_reg := (if ap_vdda_supply pd then 1 else 0), ar_input := True\<rparr> = adbs_powered (ap_vdda_supply pd)"
    by (simp add: adbs_powered_def adbs_none_def)
  have pl: "lines_held (adbs_powered s) {} {} [] = adbs_powered s" for s by (simp add: adbs_powered_def)
  have w: "\<not> ar_wake (adbs_powered s)" for s by (simp add: adbs_powered_def adbs_none_def)
  obtain e2 L ls where 2: "adbs_probe_lines env pd (adbs_powered (ap_vdda_supply pd)) = (e2, if e2 = 0
    then (lines_held (adbs_powered (ap_vdda_supply pd)) {ap_motion_gpio pd, ap_shutdown_gpio pd, ap_reset_gpio pd}
      {ap_motion_gpio pd, ap_shutdown_gpio pd, ap_reset_gpio pd} ls)\<lparr>ar_wake := True\<rparr>
    else adbs_exit_free_input (lines_held (adbs_powered (ap_vdda_supply pd)) {} L ls))"
    using adbs_probe_lines_spec [OF w [of "ap_vdda_supply pd"] d, of env "[]"] unfolding pl by blast
  show ?thesis
  proof (cases "ae_func env \<and> ae_kzalloc env \<and> e1 = 0 \<and> ae_input env \<and> e2 = 0")
    case True
    then have "adbs_probe_start env bus pd ((lines_held (adbs_powered (ap_vdda_supply pd))
      {ap_motion_gpio pd, ap_shutdown_gpio pd, ap_reset_gpio pd} {ap_motion_gpio pd, ap_shutdown_gpio pd, ap_reset_gpio pd} ls)\<lparr>ar_wake := True\<rparr>) = (err, r, dd)"
      using p 1 2 pw by (simp add: adbs_a330_probe_def Let_def)
    note s = adbs_probe_start_spec [OF this]
    show ?thesis
    proof (cases "err = 0")
      case True
      with s have h: "adbs_held r = adbs_full pd" by simp
      then obtain ls ws n where "r = (adbs_full pd)\<lparr>ar_lines := ls, ar_writes := ws, ar_reads := n\<rparr>"
        using adbs_held_eqD [of r "adbs_full pd"] by (auto simp: adbs_held_def adbs_full_def Let_def)
      then have "\<exists>r'. adbs_a330_remove pd r d = (0, r', d) \<and>
        adbs_held r' = adbs_none\<lparr>ar_vdd := ap_vdda_supply pd, ar_reg_on := (if ap_vdda_supply pd then 1 else 0), ar_wake := True,
          ar_links := {ap_motion_gpio pd, ap_shutdown_gpio pd, ap_reset_gpio pd}\<rparr>" for d
        by (auto simp: adbs_a330_remove_def adbs_full_def adbs_held_def adbs_none_def adbs_a330_gpio_unexport_and_free_def Let_def)
      with True s show ?thesis by simp
    qed (use s in simp)
  next
    case False
    with p 1 2 pw have "err \<noteq> 0 \<and> dd = None" by (auto simp: adbs_a330_probe_def Let_def split: if_splits)
    moreover from False p 1 2 pw have "(adbs_held r)\<lparr>ar_vdd := False, ar_reg_on := 0, ar_wakeup := False, ar_links := {}\<rparr> = adbs_none"
      by (auto simp: adbs_a330_probe_def Let_def adbs_held_def adbs_labels adbs_powered_def adbs_none_def split: if_splits)
    ultimately show ?thesis by simp
  qed
qed

subsection \<open>Examples\<close>

definition adbs_ok_env :: adbs_env where
  "adbs_ok_env = \<lparr>ae_func = True, ae_kzalloc = True, ae_reg_get = 0, ae_supported = 1, ae_set_voltage = 0, ae_input = True, ae_request = (\<lambda>_. 0),
     ae_set_dir = (\<lambda>_. 0), ae_export = (\<lambda>_. 0), ae_link = (\<lambda>_. 0), ae_wake = 0, ae_register = 0, ae_enable = 0, ae_irq = 0, ae_sysfs = 0\<rparr>"

definition adbs_board :: adbs_pdata where
  "adbs_board = \<lparr>ap_vdda_supply = True, ap_vdda_uv = 2800000, ap_motion_gpio = 3, ap_reset_gpio = 1, ap_shutdown_gpio = 2,
     ap_direction = - 1, ap_mode = 0\<rparr>"

definition adbs_a320_bus :: "nat \<Rightarrow> int" where
  "adbs_a320_bus i = (if i = 0 then 0x83 else if i = 1 then 0x01 else if i = 5 then 5 else if i = 7 then 253 else 0)"

lemmas adbs_example_defs = adbs_ok_env_def adbs_board_def adbs_a320_bus_def adbs_none_def adbs_a330_probe_def adbs_a330_init_regulator_def
  adbs_probe_lines_def adbs_a330_gpio_output_request_and_export_def adbs_a330_gpio_input_request_and_export_def adbs_probe_start_def
  adbs_a330_init_client_def adbs_a320_init_def adbs_speed_control_def adbs_read_def adbs_write_def adbs_set_line_def adbs_labels Let_def

text \<open>A failure behind the initialisation of the chip gives the regulator back with its supply still enabled.\<close>

lemma adbs_irq_failure_leaves_supply_on:
  "\<exists>r. adbs_a330_probe (adbs_ok_env\<lparr>ae_irq := - 16\<rparr>) adbs_a320_bus (Some adbs_board) adbs_none = (- 16, r, None) \<and>
     ar_reg r = 0 \<and> ar_reg_on r = 1 \<and> \<not> ar_data r \<and> ar_wakeup r"
  by (simp add: adbs_example_defs)

text \<open>A removal while a reading is pending frees the driver data that the queued work will use.\<close>

lemma adbs_remove_leaves_work:
  "\<exists>r d. adbs_a330_probe adbs_ok_env adbs_a320_bus (Some adbs_board) adbs_none = (0, r, Some d) \<and>
     (\<exists>r' d'. adbs_a330_remove adbs_board r (adbs_a330_irq d) = (0, r', d') \<and> ad_dwork d' \<and> \<not> ar_data r' \<and> ar_links r' = {1, 2, 3})"
  by (auto simp: adbs_example_defs adbs_initial_data_def adbs_a330_irq_def adbs_a330_i2c_reschedule_work_def adbs_a330_remove_def)

theorem adbs_reports_movement_witness:
  "\<exists>d'. adbs_exec adbs_a320_bus [AIrq, AWork, ATick, ATick] (adbs_initial_data adbs_board (adbs_none\<lparr>ar_reads := 5\<rparr>)) = Some d' \<and> ad_reports d' = [- 2] \<and>
     of_int (adbs_total d') + adbs_pend d' = (of_int (net_moved (adbs_step adbs_a320_bus) (adbs_moved adbs_a320_bus) [AIrq, AWork, ATick, ATick]
       (adbs_initial_data adbs_board (adbs_none\<lparr>ar_reads := 5\<rparr>))) :: u32)"
proof -
  let ?d = "adbs_initial_data adbs_board (adbs_none\<lparr>ar_reads := 5\<rparr>)" and ?evs = "[AIrq, AWork, ATick, ATick]"
  have "adbs_motion_loop adbs_a320_bus 5 0 0 = Some (Some (2, 0), 11)" by code_simp
  then obtain d' where e: "adbs_exec adbs_a320_bus ?evs ?d = Some d'" and r: "ad_reports d' = [- 2]"
    by (simp add: adbs_initial_data_def adbs_a330_irq_def adbs_a330_i2c_reschedule_work_def adbs_a330_i2c_work_handler_def adbs_a330_timer_def adbs_board_def)
  have "ad_accumulatedPosition ?d = ad_lastPositionSent ?d" "ad_reports ?d = []" by (simp_all add: adbs_initial_data_def)
  from adbs_reports_movement [OF e this] e r show ?thesis by blast
qed

end
