(* ===== verification/Si1143.thy ===== *)
theory Si1143
  imports Vsprintf
begin

text \<open>
  The proximity and light sensor (\<^verbatim>\<open>drivers/als/si1143.c\<close>): attributes that measure, and that read and set thresholds, gain and the
  spectrum of the light interrupt; the initialisation of the chip; and probing and removing. The bus and the chip behind it are a
  parameter, the record \<open>smbus\<close> of the transfers the driver uses, over any state of the chip. What the theorems rely on of it
  is the predicate \<open>register_bus\<close>: a register holds what was written to it last, and transfers of other registers leave it alone.
\<close>

subsection \<open>The bus\<close>

record 'c smbus =
  sb_write :: "u8 \<Rightarrow> u8 \<Rightarrow> 'c \<Rightarrow> int \<times> 'c"
  sb_read :: "u8 \<Rightarrow> 'c \<Rightarrow> int \<times> 'c"
  sb_block :: "u8 \<Rightarrow> nat \<Rightarrow> 'c \<Rightarrow> (int \<times> bytes) \<times> 'c"

text \<open>A transfer that returns its error, and otherwise goes on. A block read that delivers nothing leaves the byte \<open>old\<close> in the variable.\<close>

definition si_write :: "'c smbus \<Rightarrow> u8 \<Rightarrow> u8 \<Rightarrow> ('c \<Rightarrow> int \<times> 'c) \<Rightarrow> 'c \<Rightarrow> int \<times> 'c" where
  "si_write bus reg v k c = (case sb_write bus reg v c of (err, c) \<Rightarrow> if err < 0 then (err, c) else k c)"

definition si_read :: "'c smbus \<Rightarrow> u8 \<Rightarrow> u8 \<Rightarrow> (u8 \<Rightarrow> 'c \<Rightarrow> int \<times> 'c) \<Rightarrow> 'c \<Rightarrow> int \<times> 'c" where
  "si_read bus reg old k c = (case sb_block bus reg 1 c of ((err, bs), c) \<Rightarrow>
     if err < 0 then (err, c) else k (case bs of [] \<Rightarrow> old | b # _ \<Rightarrow> b) c)"

subsection \<open>Measuring\<close>

text \<open>A measurement is forced, and two bytes are read and printed; the result is the length of the text or an error. \<open>old\<close> is what the buffer
  on the stack holds.\<close>

definition si_show_pair :: "'c smbus \<Rightarrow> u8 \<Rightarrow> u8 \<Rightarrow> bytes \<Rightarrow> 'c \<Rightarrow> (int \<times> bytes) \<times> 'c" where
  "si_show_pair bus cmd reg old c =
     (case sb_write bus 0x18 cmd c of (err, c) \<Rightarrow>
       if err < 0 then ((err, []), c)
       else case sb_block bus reg 2 c of ((err, bs), c) \<Rightarrow>
         if err < 0 then ((err, []), c)
         else let b = take 2 (bs @ drop (length bs) old);
                  text = show_int (push_bit 8 (uint (b ! 1)) OR uint (b ! 0)) in
           ((int (length text), text), c))"

definition si1143_show_light :: "'c smbus \<Rightarrow> bytes \<Rightarrow> 'c \<Rightarrow> (int \<times> bytes) \<times> 'c" where
  "si1143_show_light bus visiblelight c = si_show_pair bus 0x06 0x22 visiblelight c"

definition si1143_show_ir :: "'c smbus \<Rightarrow> bytes \<Rightarrow> 'c \<Rightarrow> (int \<times> bytes) \<times> 'c" where
  "si1143_show_ir bus infrared c = si_show_pair bus 0x06 0x24 infrared c"

definition si1143_show_prox :: "'c smbus \<Rightarrow> bytes \<Rightarrow> 'c \<Rightarrow> (int \<times> bytes) \<times> 'c" where
  "si1143_show_prox bus proximity c = si_show_pair bus 0x05 0x26 proximity c"

subsection \<open>Thresholds, gain and spectrum\<close>

text \<open>Reading one byte and printing a value made of it.\<close>

definition si_show_byte :: "'c smbus \<Rightarrow> u8 \<Rightarrow> u8 \<Rightarrow> (u8 \<Rightarrow> bytes) \<Rightarrow> 'c \<Rightarrow> (int \<times> bytes) \<times> 'c" where
  "si_show_byte bus reg old f c = (case sb_block bus reg 1 c of ((err, bs), c) \<Rightarrow>
     if err < 0 then ((err, []), c)
     else let text = f (case bs of [] \<Rightarrow> old | b # _ \<Rightarrow> b) in ((int (length text), text), c))"

definition show_threshold :: "u8 \<Rightarrow> bytes" where
  "show_threshold threshold = show_int (push_bit 8 (uint threshold))"

definition si1143_get_prox_th :: "'c smbus \<Rightarrow> u8 \<Rightarrow> 'c \<Rightarrow> (int \<times> bytes) \<times> 'c" where
  "si1143_get_prox_th bus threshold c = si_show_byte bus 0x11 threshold show_threshold c"

definition device_th :: "u32 \<Rightarrow> u8" where
  "device_th threshold = ucast (drop_bit 8 (threshold AND 0xFF00))"

definition raw_set_prox_th :: "'c smbus \<Rightarrow> u32 \<Rightarrow> 'c \<Rightarrow> int \<times> 'c" where
  "raw_set_prox_th bus threshold =
     si_write bus 0x11 (device_th threshold) (
     si_read bus 0x04 0 (\<lambda>interrupt_val.
     si_write bus 0x04 (interrupt_val OR 0x04) (
     si_read bus 0x05 interrupt_val (\<lambda>interrupt_val.
     si_write bus 0x05 (interrupt_val OR 0x30) (
     si_write bus 0x08 0xb9 (
     si_write bus 0x0A 0x08 (
     si_write bus 0x18 0x0D (Pair 0))))))))"

text \<open>Storing an attribute: \<open>stack\<close> is what the uninitialised variable holds, which is used if the buffer has no number.\<close>

definition si_store :: "(u32 \<Rightarrow> 'c \<Rightarrow> int \<times> 'c) \<Rightarrow> bytes \<Rightarrow> u32 \<Rightarrow> 'c \<Rightarrow> (int \<times> 'c) option" where
  "si_store f buf stack c = do {
     (_, v) \<leftarrow> sscanf_u buf stack;
     let (ret, c) = f v c;
     if ret < 0 then Some (ret, c)
     else do {
       len \<leftarrow> strnlen buf 4096;
       Some (int len, c) } }"

definition si1143_set_prox_th :: "'c smbus \<Rightarrow> bytes \<Rightarrow> u32 \<Rightarrow> 'c \<Rightarrow> (int \<times> 'c) option" where
  "si1143_set_prox_th bus buf stack c = si_store (raw_set_prox_th bus) buf stack c"

definition si1143_get_prox_gain :: "'c smbus \<Rightarrow> u8 \<Rightarrow> 'c \<Rightarrow> (int \<times> bytes) \<times> 'c" where
  "si1143_get_prox_gain bus gain c = (case sb_write bus 0x18 (0x80 OR 0x0B) c of (err, c) \<Rightarrow>
     if err < 0 then ((err, []), c) else si_show_byte bus 0x2E gain (\<lambda>gain. show_int (uint gain)) c)"

definition raw_set_prox_gain :: "'c smbus \<Rightarrow> u8 \<Rightarrow> 'c \<Rightarrow> int \<times> 'c" where
  "raw_set_prox_gain bus gain =
     si_write bus 0x17 (min gain 4) (
     si_write bus 0x18 (0xA0 OR 0x0B) (Pair 0))"

definition si1143_set_prox_gain :: "'c smbus \<Rightarrow> bytes \<Rightarrow> u32 \<Rightarrow> 'c \<Rightarrow> (int \<times> 'c) option" where
  "si1143_set_prox_gain bus buf stack c = si_store (\<lambda>gain. raw_set_prox_gain bus (ucast gain)) buf stack c"

definition show_spectrum :: "u8 \<Rightarrow> bytes" where
  "show_spectrum interrupts = (if interrupts AND 0x03 = 0x03 then map (of_char :: char \<Rightarrow> u8) ''infrared'' else map of_char ''visible'') @ [10]"

definition si1143_get_als_spectrum :: "'c smbus \<Rightarrow> u8 \<Rightarrow> 'c \<Rightarrow> (int \<times> bytes) \<times> 'c" where
  "si1143_get_als_spectrum bus interrupts c = si_show_byte bus 0x05 interrupts show_spectrum c"

definition raw_set_als_spectrum :: "'c smbus \<Rightarrow> u32 \<Rightarrow> 'c \<Rightarrow> int \<times> 'c" where
  "raw_set_als_spectrum bus visible =
     si_read bus 0x05 0 (\<lambda>interrupt_val.
     let interrupt_val = (if visible \<noteq> 0 then (interrupt_val AND NOT 0x03) OR 0x01 else (interrupt_val AND NOT 0x03) OR 0x03) in
     si_write bus 0x05 interrupt_val (
     si_read bus 0x04 interrupt_val (\<lambda>interrupt_val.
     si_write bus 0x04 (interrupt_val OR 0x01) (Pair 0))))"

text \<open>The variable for the spectrum is initialised, so that the stack plays no part.\<close>

definition si1143_set_als_spectrum :: "'c smbus \<Rightarrow> bytes \<Rightarrow> 'c \<Rightarrow> (int \<times> 'c) option" where
  "si1143_set_als_spectrum bus buf c = si_store (raw_set_als_spectrum bus) buf 0 c"

datatype si1143_limit = SI1143_TH_LOW | SI1143_TH_HIGH

definition als_th_reg :: "si1143_limit \<Rightarrow> u8" where
  "als_th_reg limit = (if limit = SI1143_TH_HIGH then 0x0D else 0x0B)"

definition si1143_get_als_th :: "'c smbus \<Rightarrow> si1143_limit \<Rightarrow> u8 \<Rightarrow> 'c \<Rightarrow> (int \<times> bytes) \<times> 'c" where
  "si1143_get_als_th bus limit threshold c = si_show_byte bus (als_th_reg limit) threshold show_threshold c"

definition raw_set_als_th :: "'c smbus \<Rightarrow> u32 \<Rightarrow> si1143_limit \<Rightarrow> 'c \<Rightarrow> int \<times> 'c" where
  "raw_set_als_th bus threshold limit = si_write bus (als_th_reg limit) (device_th threshold) (Pair 0)"

definition si1143_set_als_th :: "'c smbus \<Rightarrow> si1143_limit \<Rightarrow> bytes \<Rightarrow> u32 \<Rightarrow> 'c \<Rightarrow> (int \<times> 'c) option" where
  "si1143_set_als_th bus limit buf stack c = si_store (\<lambda>threshold. raw_set_als_th bus threshold limit) buf stack c"

subsection \<open>Initialisation and interrupts\<close>

record si1143_pdata =
  proximity_tx_led1 :: bool
  proximity_tx_led2 :: bool
  proximity_tx_led3 :: bool

definition si1143_init_client :: "'c smbus \<Rightarrow> si1143_pdata \<Rightarrow> 'c \<Rightarrow> int \<times> 'c" where
  "si1143_init_client bus pd c = (case sb_read bus 0x00 c of (err, c) \<Rightarrow>
     if err < 0 then (err, c)
     else if err \<noteq> 0x43 then (- ENODEV, c)
     else (
       si_write bus 0x07 0x17 (
       si_write bus 0x03 0x01 (
       si_write bus 0x04 0x00 (
       si_write bus 0x05 0x00 (
       si_write bus 0x0F ((if proximity_tx_led1 pd then 0x0F else 0) OR (if proximity_tx_led2 pd then 0xF0 else 0)) (
       si_write bus 0x10 (if proximity_tx_led3 pd then 0x0F else 0) (
       si_write bus 0x17 0x31 (
       si_write bus 0x18 (0xA0 OR 0x01) (
       si_write bus 0x17 ((if proximity_tx_led1 pd then 0x01 else 0) OR (if proximity_tx_led2 pd then 0x02 else 0)
         OR (if proximity_tx_led3 pd then 0x04 else 0)) (
       si_write bus 0x18 (0xA0 OR 0x02) (
       si_write bus 0x17 2 (
       si_write bus 0x18 (0xA0 OR 0x0B) (
       si_write bus 0x17 3 (
       si_write bus 0x18 (0xA0 OR 0x11) (Pair 0))))))))))))))) c)"

text \<open>The work handler clears the interrupts it read; an error of the read is written back as the low byte of its code.\<close>

definition si1143_i2c_work_handler :: "'c smbus \<Rightarrow> 'c \<Rightarrow> 'c" where
  "si1143_i2c_work_handler bus c = (case sb_read bus 0x21 c of (results, c) \<Rightarrow> snd (sb_write bus 0x21 (of_int results) c))"

subsection \<open>Probing and removing\<close>

text \<open>What the driver holds: its data, the GPIO line, the interrupt, the attributes; whether the delayed work is initialised and pending. The platform data is
  given; the driver does not test for its absence.\<close>

record si1143_res =
  sr_data :: bool
  sr_gpio :: bool
  sr_irq :: bool
  sr_work :: bool
  sr_pending :: bool
  sr_sysfs :: bool

record si1143_env =
  se_func :: bool
  se_kzalloc :: bool
  se_gpio :: int
  se_irq :: int
  se_sysfs :: int

definition sr_none :: si1143_res where
  "sr_none = \<lparr>sr_data = False, sr_gpio = False, sr_irq = False, sr_work = False, sr_pending = False, sr_sysfs = False\<rparr>"

text \<open>The interrupt handler uses the driver data and schedules its work: a fault if the data is freed or the work not initialised.\<close>

definition si1143_i2c_reschedule_work :: "si1143_res \<Rightarrow> si1143_res option" where
  "si1143_i2c_reschedule_work r = (if sr_data r \<and> sr_work r then Some (r\<lparr>sr_pending := True\<rparr>) else None)"

definition si1143_irq :: "si1143_res \<Rightarrow> si1143_res option" where
  "si1143_irq r = si1143_i2c_reschedule_work r"

text \<open>Probing up to the request of the interrupt, and the rest.\<close>

definition si1143_probe_request :: "si1143_env \<Rightarrow> si1143_res \<Rightarrow> int \<times> si1143_res" where
  "si1143_probe_request env r =
     (if \<not> se_func env then (- EIO, r)
      else if \<not> se_kzalloc env then (- ENOMEM, r)
      else let r = r\<lparr>sr_data := True, sr_work := False\<rparr> in
      if se_gpio env \<noteq> 0 then (se_gpio env, r\<lparr>sr_data := False\<rparr>)
      else let r = r\<lparr>sr_gpio := True\<rparr> in
      if se_irq env \<noteq> 0 then (se_irq env, r\<lparr>sr_gpio := False, sr_data := False\<rparr>)
      else (0, r\<lparr>sr_irq := True\<rparr>))"

definition si1143_probe :: "'c smbus \<Rightarrow> si1143_env \<Rightarrow> si1143_pdata \<Rightarrow> 'c \<Rightarrow> si1143_res \<Rightarrow> int \<times> 'c \<times> si1143_res" where
  "si1143_probe bus env pd c r =
     (let (err, r) = si1143_probe_request env r in
      if err \<noteq> 0 then (err, c, r)
      else let (err, c) = si1143_init_client bus pd c in
      if err \<noteq> 0 then (err, c, r\<lparr>sr_data := False\<rparr>)
      else let r = r\<lparr>sr_work := True\<rparr> in
      if se_sysfs env \<noteq> 0 then (se_sysfs env, c, r\<lparr>sr_data := False\<rparr>)
      else (0, c, r\<lparr>sr_sysfs := True\<rparr>))"

definition si1143_remove :: "si1143_res \<Rightarrow> int \<times> si1143_res" where
  "si1143_remove r = (0, r\<lparr>sr_sysfs := False, sr_data := False\<rparr>)"

definition si1143_suspend :: "si1143_res \<Rightarrow> int \<times> si1143_res" where
  "si1143_suspend r = (0, r\<lparr>sr_pending := False\<rparr>)"

definition si1143_resume :: "si1143_res \<Rightarrow> int \<times> si1143_res" where
  "si1143_resume r = (0, r)"

subsection \<open>Registers behind the bus\<close>

text \<open>What the datasheet says of the configuration registers: they hold what a successful write stored, other transfers leave them alone, and block
  reads deliver them. \<open>reg\<close> reads them off the state of the chip.\<close>

definition config_regs :: "u8 set" where
  "config_regs = {0x04, 0x05, 0x0B, 0x0D, 0x11}"

definition register_bus :: "'c smbus \<Rightarrow> ('c \<Rightarrow> u8 \<Rightarrow> u8) \<Rightarrow> bool" where
  "register_bus bus reg \<longleftrightarrow>
     (\<forall>a v c e c'. sb_write bus a v c = (e, c') \<and> 0 \<le> e \<longrightarrow> (\<forall>x \<in> config_regs. reg c' x = (if x = a then v else reg c x))) \<and>
     (\<forall>a n c e bs c'. sb_block bus a n c = ((e, bs), c') \<and> 0 \<le> e \<longrightarrow>
        (\<forall>x \<in> config_regs. reg c' x = reg c x) \<and> (a \<in> config_regs \<and> n = 1 \<longrightarrow> bs = [reg c a]))"

lemma si_write_0:
  assumes "register_bus bus reg" "si_write bus a v k c = (0, c')"
  shows "\<exists>c1. k c1 = (0, c') \<and> (\<forall>x \<in> config_regs. reg c1 x = (if x = a then v else reg c x))"
proof -
  obtain e c1 where w: "sb_write bus a v c = (e, c1)" by fastforce
  then have "0 \<le> e" "k c1 = (0, c')" using assms(2) by (auto simp: si_write_def split: if_splits)
  with w assms(1) show ?thesis unfolding register_bus_def by blast
qed

lemma si_read_0:
  assumes "register_bus bus reg" "si_read bus a old k c = (0, c')" "a \<in> config_regs"
  shows "\<exists>c1. k (reg c a) c1 = (0, c') \<and> (\<forall>x \<in> config_regs. reg c1 x = reg c x)"
proof -
  obtain e bs c1 where w: "sb_block bus a 1 c = ((e, bs), c1)" by (metis prod.exhaust)
  then have e: "0 \<le> e" "k (case bs of [] \<Rightarrow> old | b # _ \<Rightarrow> b) c1 = (0, c')"
    using assms(2) by (auto simp: si_read_def split: if_splits)
  have "bs = [reg c a]" "\<forall>x \<in> config_regs. reg c1 x = reg c x" using w e(1) assms(1,3) unfolding register_bus_def by blast+
  with e(2) show ?thesis by auto
qed

lemma si_show_byte_text:
  assumes "register_bus bus reg" "si_show_byte bus a old f c = ((n, t), c')" "0 \<le> n" "a \<in> config_regs"
  shows "t = f (reg c a) \<and> n = int (length t)"
proof -
  obtain e bs c1 where w: "sb_block bus a 1 c = ((e, bs), c1)" by (metis prod.exhaust)
  then have "0 \<le> e" using assms(2,3) by (auto simp: si_show_byte_def split: if_splits)
  then have "bs = [reg c a]" using w assms(1,4) unfolding register_bus_def by blast
  then show ?thesis using assms(2,3) w \<open>0 \<le> e\<close> by (auto simp: si_show_byte_def Let_def)
qed

lemma config_regs_mem [simp]:
  "0x04 \<in> config_regs" "0x05 \<in> config_regs" "0x0B \<in> config_regs" "0x0D \<in> config_regs" "0x11 \<in> config_regs"
  by (simp_all add: config_regs_def)

lemma set_prox_th_regs:
  assumes b: "register_bus bus reg" and s: "raw_set_prox_th bus th c = (0, c')"
  shows "\<forall>x \<in> config_regs. reg c' x = (if x = 0x11 then device_th th else if x = 0x04 then reg c 0x04 OR 0x04
    else if x = 0x05 then reg c 0x05 OR 0x30 else reg c x)"
proof -
  note w = si_write_0 [OF b] and r = si_read_0 [OF b]
  from w [OF s [unfolded raw_set_prox_th_def]] obtain c1 where
    1: "\<forall>x \<in> config_regs. reg c1 x = (if x = 0x11 then device_th th else reg c x)" and k1: "si_read bus 0x04 0 (\<lambda>interrupt_val.
     si_write bus 0x04 (interrupt_val OR 0x04) (si_read bus 0x05 interrupt_val (\<lambda>interrupt_val.
     si_write bus 0x05 (interrupt_val OR 0x30) (si_write bus 0x08 0xb9 (si_write bus 0x0A 0x08 (
     si_write bus 0x18 0x0D (Pair 0))))))) c1 = (0, c')" by blast
  from r [OF k1] obtain c2 where 2: "\<forall>x \<in> config_regs. reg c2 x = reg c1 x" and
    k2: "si_write bus 0x04 (reg c1 0x04 OR 0x04) (si_read bus 0x05 (reg c1 0x04) (\<lambda>interrupt_val.
     si_write bus 0x05 (interrupt_val OR 0x30) (si_write bus 0x08 0xb9 (si_write bus 0x0A 0x08 (
     si_write bus 0x18 0x0D (Pair 0)))))) c2 = (0, c')" by auto
  from w [OF k2] obtain c3 where 3: "\<forall>x \<in> config_regs. reg c3 x = (if x = 0x04 then reg c1 0x04 OR 0x04 else reg c2 x)" and
    k3: "si_read bus 0x05 (reg c1 0x04) (\<lambda>interrupt_val. si_write bus 0x05 (interrupt_val OR 0x30) (si_write bus 0x08 0xb9 (si_write bus 0x0A 0x08 (
     si_write bus 0x18 0x0D (Pair 0))))) c3 = (0, c')" by blast
  from r [OF k3] obtain c4 where 4: "\<forall>x \<in> config_regs. reg c4 x = reg c3 x" and
    k4: "si_write bus 0x05 (reg c3 0x05 OR 0x30) (si_write bus 0x08 0xb9 (si_write bus 0x0A 0x08 (si_write bus 0x18 0x0D (Pair 0)))) c4 = (0, c')" by auto
  from w [OF k4] obtain c5 where 5: "\<forall>x \<in> config_regs. reg c5 x = (if x = 0x05 then reg c3 0x05 OR 0x30 else reg c4 x)" and
    k5: "si_write bus 0x08 0xb9 (si_write bus 0x0A 0x08 (si_write bus 0x18 0x0D (Pair 0))) c5 = (0, c')" by blast
  from w [OF k5] obtain c6 where 6: "\<forall>x \<in> config_regs. reg c6 x = (if x = 0x08 then 0xb9 else reg c5 x)" and
    k6: "si_write bus 0x0A 0x08 (si_write bus 0x18 0x0D (Pair 0)) c6 = (0, c')" by blast
  from w [OF k6] obtain c7 where 7: "\<forall>x \<in> config_regs. reg c7 x = (if x = 0x0A then 0x08 else reg c6 x)" and
    k7: "si_write bus 0x18 0x0D (Pair 0) c7 = (0, c')" by blast
  from w [OF k7] have 8: "\<forall>x \<in> config_regs. reg c' x = (if x = 0x18 then 0x0D else reg c7 x)" by auto
  show ?thesis using 1 2 3 4 5 6 7 8 by (simp add: config_regs_def)
qed

lemma set_als_spectrum_regs:
  assumes b: "register_bus bus reg" and s: "raw_set_als_spectrum bus v c = (0, c')"
  shows "\<forall>x \<in> config_regs. reg c' x = (if x = 0x05 then (reg c 0x05 AND NOT 0x03) OR (if v \<noteq> 0 then 0x01 else 0x03)
    else if x = 0x04 then reg c 0x04 OR 0x01 else reg c x)"
proof -
  note w = si_write_0 [OF b] and r = si_read_0 [OF b]
  let ?v = "(reg c 0x05 AND NOT 0x03) OR (if v \<noteq> 0 then 0x01 else 0x03)"
  have iv: "(if v \<noteq> 0 then (reg c 0x05 AND NOT 0x03) OR 0x01 else (reg c 0x05 AND NOT 0x03) OR 0x03) = ?v" by simp
  from r [OF s [unfolded raw_set_als_spectrum_def]] obtain c1 where 1: "\<forall>x \<in> config_regs. reg c1 x = reg c x" and
    k1: "si_write bus 0x05 ?v (si_read bus 0x04 ?v (\<lambda>interrupt_val. si_write bus 0x04 (interrupt_val OR 0x01) (Pair 0))) c1 = (0, c')"
    unfolding Let_def iv by auto
  from w [OF k1] obtain c2 where 2: "\<forall>x \<in> config_regs. reg c2 x = (if x = 0x05 then ?v else reg c1 x)" and
    k2: "si_read bus 0x04 ?v (\<lambda>interrupt_val. si_write bus 0x04 (interrupt_val OR 0x01) (Pair 0)) c2 = (0, c')" by blast
  from r [OF k2] obtain c3 where 3: "\<forall>x \<in> config_regs. reg c3 x = reg c2 x" and k3: "si_write bus 0x04 (reg c2 0x04 OR 0x01) (Pair 0) c3 = (0, c')" by auto
  from w [OF k3] have 4: "\<forall>x \<in> config_regs. reg c' x = (if x = 0x04 then reg c2 0x04 OR 0x01 else reg c3 x)" by auto
  show ?thesis using 1 2 3 4 by (simp add: config_regs_def)
qed

lemma set_als_th_regs:
  assumes "register_bus bus reg" "raw_set_als_th bus th limit c = (0, c')"
  shows "\<forall>x \<in> config_regs. reg c' x = (if x = als_th_reg limit then device_th th else reg c x)"
  using si_write_0 [OF assms(1) assms(2) [unfolded raw_set_als_th_def]] by auto

lemma als_th_reg_mem [simp]: "als_th_reg limit \<in> config_regs"
  by (simp add: als_th_reg_def)

lemma show_threshold_device: "show_threshold (device_th th) = show_int (uint (th AND 0xFF00))"
proof -
  have m: "(0xFF00 :: u32) = push_bit 8 (mask 8)" by (simp add: mask_eq_exp_minus_1 push_bit_eq_mult)
  have "push_bit 8 (uint (device_th th)) = uint (th AND 0xFF00)"
    unfolding device_th_def m by (rule bit_eqI) (auto simp: bit_simps)
  then show ?thesis by (simp add: show_threshold_def)
qed

lemma show_spectrum_stored:
  "show_spectrum ((w AND NOT 0x03) OR (if v \<noteq> 0 then 0x01 else 0x03)) = map of_char (if v \<noteq> 0 then ''visible'' else ''infrared'') @ [10]"
proof -
  have "((w AND NOT 0x03) OR 0x03) AND 0x03 = (0x03 :: u8)" by (rule bit_word_eqI) (auto simp: bit_simps)
  moreover have "((w AND NOT 0x03) OR 0x01) AND 0x03 = (0x01 :: u8)"
  proof -
    have m: "(0x03 :: u8) = mask 2" by (simp add: mask_eq_exp_minus_1)
    show ?thesis unfolding m by (rule bit_word_eqI) (auto simp: bit_simps)
  qed
  ultimately show ?thesis by (simp add: show_spectrum_def)
qed

subsection \<open>Properties\<close>

text \<open>What is read after a store, for every bus and chip with the registers of the datasheet: after a threshold was stored without an error,
  reading it prints the stored number modulo \<open>2 ^ 16\<close> rounded down to a multiple of 256, the resolution of the chip, for proximity and for both limits of the light; after the spectrum was stored, reading it prints it;
  and storing a proximity threshold leaves the light thresholds and the spectrum as they were.\<close>

theorem si1143_attributes_read_back:
  assumes b: "register_bus bus reg"
  shows "(\<forall>th c c1 old n t c2. raw_set_prox_th bus th c = (0, c1) \<and> si1143_get_prox_th bus old c1 = ((n, t), c2) \<and> 0 \<le> n \<longrightarrow>
      t = show_int (uint (th AND 0xFF00))) \<and>
    (\<forall>th limit c c1 old n t c2. raw_set_als_th bus th limit c = (0, c1) \<and> si1143_get_als_th bus limit old c1 = ((n, t), c2) \<and> 0 \<le> n \<longrightarrow>
      t = show_int (uint (th AND 0xFF00))) \<and>
    (\<forall>v c c1 old n t c2. raw_set_als_spectrum bus v c = (0, c1) \<and> si1143_get_als_spectrum bus old c1 = ((n, t), c2) \<and> 0 \<le> n \<longrightarrow>
      t = map of_char (if v \<noteq> 0 then ''visible'' else ''infrared'') @ [10]) \<and>
    (\<forall>th c c1. raw_set_prox_th bus th c = (0, c1) \<longrightarrow>
      reg c1 0x0B = reg c 0x0B \<and> reg c1 0x0D = reg c 0x0D \<and> show_spectrum (reg c1 0x05) = show_spectrum (reg c 0x05))"
proof (intro conjI allI impI; (elim conjE)?)
  fix th c c1 old n t c2
  assume "raw_set_prox_th bus th c = (0, c1)" "si1143_get_prox_th bus old c1 = ((n, t), c2)" "0 \<le> n"
  then show "t = show_int (uint (th AND 0xFF00))"
    using si_show_byte_text [OF b] set_prox_th_regs [OF b] by (fastforce simp: si1143_get_prox_th_def show_threshold_device)
next
  fix th limit c c1 old n t c2
  assume "raw_set_als_th bus th limit c = (0, c1)" "si1143_get_als_th bus limit old c1 = ((n, t), c2)" "0 \<le> n"
  then show "t = show_int (uint (th AND 0xFF00))"
    using si_show_byte_text [OF b] set_als_th_regs [OF b] by (fastforce simp: si1143_get_als_th_def show_threshold_device)
next
  fix v c c1 old n t c2
  assume s: "raw_set_als_spectrum bus v c = (0, c1)" and g: "si1143_get_als_spectrum bus old c1 = ((n, t), c2)" "0 \<le> n"
  have "t = show_spectrum (reg c1 0x05)"
    using si_show_byte_text [OF b g(1) [unfolded si1143_get_als_spectrum_def] g(2) config_regs_mem(2)] by (rule conjunct1)
  also have "reg c1 0x05 = (reg c 0x05 AND NOT 0x03) OR (if v \<noteq> 0 then 0x01 else 0x03)"
    using bspec [OF set_als_spectrum_regs [OF b s] config_regs_mem(2)] by (simp only: if_True simp_thms)
  finally show "t = map of_char (if v \<noteq> 0 then ''visible'' else ''infrared'') @ [10]" unfolding show_spectrum_stored .
next
  fix th c c1 assume s: "raw_set_prox_th bus th c = (0, c1)"
  note r = set_prox_th_regs [OF b s]
  show "reg c1 0x0B = reg c 0x0B" "reg c1 0x0D = reg c 0x0D" using r by (simp_all add: config_regs_def)
  have m: "(0x03 :: u8) = mask 2" "(0x30 :: u8) = push_bit 4 (mask 2)" by (simp_all add: mask_eq_exp_minus_1 push_bit_eq_mult)
  have "(w OR 0x30) AND 0x03 = w AND (0x03 :: u8)" for w unfolding m by (rule bit_word_eqI) (auto simp: bit_simps)
  then show "show_spectrum (reg c1 0x05) = show_spectrum (reg c 0x05)" using r by (simp add: config_regs_def show_spectrum_def)
qed

text \<open>A register file without faults, to try the theorem on.\<close>

definition file_bus :: "(u8 \<Rightarrow> u8) smbus" where
  "file_bus = \<lparr>sb_write = \<lambda>a v c. (0, c(a := v)), sb_read = \<lambda>a c. (uint (c a), c),
     sb_block = \<lambda>a n c. ((int n, map (\<lambda>i. c (a + of_nat i)) [0..<n]), c)\<rparr>"

theorem si1143_attributes_read_back_witness:
  "register_bus file_bus (\<lambda>c. c) \<and> (\<exists>c1. raw_set_prox_th file_bus 0x1234 (\<lambda>_. 0) = (0, c1) \<and> c1 0x04 = 0x04 \<and>
     snd (fst (si1143_get_prox_th file_bus 0 c1)) = show_int 0x1200)"
proof -
  have b: "register_bus file_bus (\<lambda>c. c)" by (auto simp: register_bus_def file_bus_def)
  obtain c1 where s: "raw_set_prox_th file_bus 0x1234 (\<lambda>_. 0) = (0, c1)" "c1 0x04 = 0x04"
    by (simp add: raw_set_prox_th_def si_write_def si_read_def file_bus_def)
  obtain n t c2 where g: "si1143_get_prox_th file_bus 0 c1 = ((n, t), c2)" "0 \<le> n"
    by (simp add: si1143_get_prox_th_def si_show_byte_def file_bus_def Let_def)
  have "t = show_int (uint ((0x1234 :: u32) AND 0xFF00))" 
    using si1143_attributes_read_back [OF b, THEN conjunct1, rule_format] s(1) g by blast
  then show ?thesis using b s g by simp
qed

text \<open>The gain of the proximity receiver is never set above 4, whatever is stored.\<close>

lemma prox_gain_limited: "raw_set_prox_gain bus g = raw_set_prox_gain bus (min g 4)" "min g 4 \<le> (4 :: u8)"
  by (simp_all add: raw_set_prox_gain_def)

text \<open>Probing the proximity sensor succeeds holding every resource, or fails with its data freed. A failure behind the request of the interrupt, and a removal
  in any case, leave the interrupt and the line requested, and an interrupt then makes the handler use the freed data; so does an interrupt that comes
  before the work is initialised.\<close>

theorem si1143_probe_resources:
  assumes "si1143_probe bus env pd c sr_none = (err, c', r)"
  shows "(if err = 0
      then r = \<lparr>sr_data = True, sr_gpio = True, sr_irq = True, sr_work = True, sr_pending = False, sr_sysfs = True\<rparr> \<and>
        si1143_irq r \<noteq> None \<and> sr_irq (snd (si1143_remove r)) \<and> sr_gpio (snd (si1143_remove r)) \<and> si1143_irq (snd (si1143_remove r)) = None
      else \<not> sr_data r \<and> \<not> sr_sysfs r \<and> sr_gpio r = sr_irq r \<and> (sr_irq r \<longleftrightarrow> fst (si1143_probe_request env sr_none) = 0) \<and> si1143_irq r = None) \<and>
    (fst (si1143_probe_request env sr_none) = 0 \<longrightarrow> sr_irq (snd (si1143_probe_request env sr_none)) \<and> si1143_irq (snd (si1143_probe_request env sr_none)) = None)"
  using assms
  by (auto simp: si1143_probe_def si1143_probe_request_def sr_none_def si1143_irq_def si1143_i2c_reschedule_work_def si1143_remove_def Let_def
      split: if_splits prod.splits)

theorem si1143_probe_resources_witness:
  "\<exists>r c'. si1143_probe file_bus \<lparr>se_func = True, se_kzalloc = True, se_gpio = 0, se_irq = 0, se_sysfs = 0\<rparr>
     \<lparr>proximity_tx_led1 = True, proximity_tx_led2 = False, proximity_tx_led3 = False\<rparr> (\<lambda>_. 0) sr_none = (- ENODEV, c', r) \<and>
     sr_irq r \<and> si1143_irq r = None"
proof -
  let ?env = "\<lparr>se_func = True, se_kzalloc = True, se_gpio = 0, se_irq = 0, se_sysfs = 0\<rparr>"
  let ?pd = "\<lparr>proximity_tx_led1 = True, proximity_tx_led2 = False, proximity_tx_led3 = False\<rparr>"
  obtain r c' where p: "si1143_probe file_bus ?env ?pd (\<lambda>_. 0) sr_none = (- ENODEV, c', r)"
    by (simp add: si1143_probe_def si1143_probe_request_def si1143_init_client_def file_bus_def)
  from si1143_probe_resources [OF p] p show ?thesis by (simp add: si1143_probe_request_def)
qed

end
