(* ===== verification/RbTree.thy ===== *)
theory RbTree
  imports KPrelude
begin

text \<open>
  Red-black trees (\<^verbatim>\<open>lib/rbtree.c\<close>, \<^verbatim>\<open>include/linux/rbtree.h\<close>) as the code has them: nodes in a heap with left, right and parent pointers, the colour in the lowest bit of
  the parent word. A read or write through NULL or outside the heap is \<open>None\<close>. This theory holds all the operations, the abstraction of the heap to a
  tree with a hole and its context, and what a rotation does; the theorems are in \<open>RbInsert\<close> and \<open>RbErase\<close>.
\<close>

subsection \<open>Nodes\<close>

record rb_node =
  rb_parent_color :: u32
  rb_right :: u32
  rb_left :: u32

text \<open>The heap of nodes and the root pointer.\<close>

record rb_root =
  rs_heap :: "u32 \<rightharpoonup> rb_node"
  rs_root :: u32

definition par_of :: "rb_node \<Rightarrow> u32" where
  "par_of nd = rb_parent_color nd AND NOT 3"

definition is_black :: "rb_node \<Rightarrow> bool" where
  "is_black nd \<longleftrightarrow> rb_parent_color nd AND 1 \<noteq> 0"

definition rget :: "u32 \<Rightarrow> rb_root \<Rightarrow> rb_node option" where
  "rget p s = (if p = 0 then None else rs_heap s p)"

definition rupd :: "(rb_node \<Rightarrow> rb_node) \<Rightarrow> u32 \<Rightarrow> rb_root \<Rightarrow> rb_root option" where
  "rupd f p s = map_option (\<lambda>nd. s\<lparr>rs_heap := (rs_heap s)(p \<mapsto> f nd)\<rparr>) (rget p s)"

text \<open>The parent and the colour of a node.\<close>

definition node_parent :: "u32 \<Rightarrow> rb_node \<Rightarrow> rb_node" where
  "node_parent p nd = nd\<lparr>rb_parent_color := (rb_parent_color nd AND 3) OR p\<rparr>"

definition node_red :: "rb_node \<Rightarrow> rb_node" where
  "node_red nd = nd\<lparr>rb_parent_color := rb_parent_color nd AND NOT 1\<rparr>"

definition node_black :: "rb_node \<Rightarrow> rb_node" where
  "node_black nd = nd\<lparr>rb_parent_color := rb_parent_color nd OR 1\<rparr>"

definition node_color :: "bool \<Rightarrow> rb_node \<Rightarrow> rb_node" where
  "node_color black nd = nd\<lparr>rb_parent_color := (rb_parent_color nd AND NOT 1) OR of_bool black\<rparr>"

definition rb_set_parent :: "u32 \<Rightarrow> u32 \<Rightarrow> rb_root \<Rightarrow> rb_root option" where
  "rb_set_parent rb p = rupd (node_parent p) rb"

definition rb_set_red :: "u32 \<Rightarrow> rb_root \<Rightarrow> rb_root option" where
  "rb_set_red = rupd node_red"

definition rb_set_black :: "u32 \<Rightarrow> rb_root \<Rightarrow> rb_root option" where
  "rb_set_black = rupd node_black"

definition rb_set_color :: "u32 \<Rightarrow> bool \<Rightarrow> rb_root \<Rightarrow> rb_root option" where
  "rb_set_color rb black = rupd (node_color black) rb"

definition set_left :: "u32 \<Rightarrow> u32 \<Rightarrow> rb_root \<Rightarrow> rb_root option" where
  "set_left p q = rupd (\<lambda>nd. nd\<lparr>rb_left := q\<rparr>) p"

definition set_right :: "u32 \<Rightarrow> u32 \<Rightarrow> rb_root \<Rightarrow> rb_root option" where
  "set_right p q = rupd (\<lambda>nd. nd\<lparr>rb_right := q\<rparr>) p"

text \<open>The parent of a node that may be missing.\<close>

definition set_parent_opt :: "u32 \<Rightarrow> u32 \<Rightarrow> rb_root \<Rightarrow> rb_root option" where
  "set_parent_opt q p s = (if q \<noteq> 0 then rb_set_parent q p s else Some s)"

text \<open>Whether a child is missing or black, as in \<open>!p || rb_is_black(p)\<close>.\<close>

definition black_or_null :: "u32 \<Rightarrow> rb_root \<Rightarrow> bool option" where
  "black_or_null p s = (if p = 0 then Some True else map_option is_black (rget p s))"

subsection \<open>Rotations\<close>

text \<open>The pointer to \<open>old\<close> in its parent, or the root pointer, is set to \<open>new\<close>; \<open>first\<close> is the side that is compared.\<close>

definition relink_left :: "u32 \<Rightarrow> u32 \<Rightarrow> u32 \<Rightarrow> rb_root \<Rightarrow> rb_root option" where
  "relink_left parent old new s =
     (if parent \<noteq> 0 then do {
        pn \<leftarrow> rget parent s;
        if old = rb_left pn then set_left parent new s else set_right parent new s }
      else Some (s\<lparr>rs_root := new\<rparr>))"

definition relink_right :: "u32 \<Rightarrow> u32 \<Rightarrow> u32 \<Rightarrow> rb_root \<Rightarrow> rb_root option" where
  "relink_right parent old new s =
     (if parent \<noteq> 0 then do {
        pn \<leftarrow> rget parent s;
        if old = rb_right pn then set_right parent new s else set_left parent new s }
      else Some (s\<lparr>rs_root := new\<rparr>))"

definition rb_rotate_left :: "u32 \<Rightarrow> rb_root \<Rightarrow> rb_root option" where
  "rb_rotate_left node s = do {
     nd \<leftarrow> rget node s;
     let right = rb_right nd;
     let parent = par_of nd;
     rn \<leftarrow> rget right s;
     s \<leftarrow> set_right node (rb_left rn) s;
     s \<leftarrow> set_parent_opt (rb_left rn) node s;
     s \<leftarrow> set_left right node s;
     s \<leftarrow> rb_set_parent right parent s;
     s \<leftarrow> relink_left parent node right s;
     rb_set_parent node right s }"

definition rb_rotate_right :: "u32 \<Rightarrow> rb_root \<Rightarrow> rb_root option" where
  "rb_rotate_right node s = do {
     nd \<leftarrow> rget node s;
     let left = rb_left nd;
     let parent = par_of nd;
     ln \<leftarrow> rget left s;
     s \<leftarrow> set_left node (rb_right ln) s;
     s \<leftarrow> set_parent_opt (rb_right ln) node s;
     s \<leftarrow> set_right left node s;
     s \<leftarrow> rb_set_parent left parent s;
     s \<leftarrow> relink_right parent node left s;
     rb_set_parent node left s }"

subsection \<open>Insertion\<close>

text \<open>The place a pointer to a node is kept: the root pointer, or a field of a node.\<close>

datatype rb_link = AtRoot | AtLeft u32 | AtRight u32

fun deref_link :: "rb_link \<Rightarrow> rb_root \<Rightarrow> u32 option" where
  "deref_link AtRoot s = Some (rs_root s)"
| "deref_link (AtLeft p) s = map_option rb_left (rget p s)"
| "deref_link (AtRight p) s = map_option rb_right (rget p s)"

fun store_link :: "rb_link \<Rightarrow> u32 \<Rightarrow> rb_root \<Rightarrow> rb_root option" where
  "store_link AtRoot n s = Some (s\<lparr>rs_root := n\<rparr>)"
| "store_link (AtLeft p) n s = set_left p n s"
| "store_link (AtRight p) n s = set_right p n s"

definition rb_link_node :: "u32 \<Rightarrow> u32 \<Rightarrow> rb_link \<Rightarrow> rb_root \<Rightarrow> rb_root option" where
  "rb_link_node node parent link s = do {
     s \<leftarrow> rupd (\<lambda>nd. \<lparr>rb_parent_color = parent, rb_right = 0, rb_left = 0\<rparr>) node s;
     store_link link node s }"

text \<open>A node that is in no tree is its own parent.\<close>

definition RB_EMPTY_NODE :: "u32 \<Rightarrow> rb_root \<Rightarrow> bool option" where
  "RB_EMPTY_NODE node s = map_option (\<lambda>nd. par_of nd = node) (rget node s)"

definition RB_CLEAR_NODE :: "u32 \<Rightarrow> rb_root \<Rightarrow> rb_root option" where
  "RB_CLEAR_NODE node s = rb_set_parent node node s"

text \<open>One round of the loop when the parent is a left or a right child: the node to go on with.\<close>

definition insert_left :: "u32 \<Rightarrow> u32 \<Rightarrow> u32 \<Rightarrow> rb_root \<Rightarrow> (u32 \<times> rb_root) option" where
  "insert_left node parent gparent s = do {
     gn \<leftarrow> rget gparent s;
     let uncle = rb_right gn;
     black \<leftarrow> black_or_null uncle s;
     if \<not> black then do {
       s \<leftarrow> rb_set_black uncle s;
       s \<leftarrow> rb_set_black parent s;
       s \<leftarrow> rb_set_red gparent s;
       Some (gparent, s) }
     else do {
       pn \<leftarrow> rget parent s;
       (node, parent, s) \<leftarrow> (if rb_right pn = node then do { s \<leftarrow> rb_rotate_left parent s; Some (parent, node, s) } else Some (node, parent, s));
       s \<leftarrow> rb_set_black parent s;
       s \<leftarrow> rb_set_red gparent s;
       s \<leftarrow> rb_rotate_right gparent s;
       Some (node, s) } }"

definition insert_right :: "u32 \<Rightarrow> u32 \<Rightarrow> u32 \<Rightarrow> rb_root \<Rightarrow> (u32 \<times> rb_root) option" where
  "insert_right node parent gparent s = do {
     gn \<leftarrow> rget gparent s;
     let uncle = rb_left gn;
     black \<leftarrow> black_or_null uncle s;
     if \<not> black then do {
       s \<leftarrow> rb_set_black uncle s;
       s \<leftarrow> rb_set_black parent s;
       s \<leftarrow> rb_set_red gparent s;
       Some (gparent, s) }
     else do {
       pn \<leftarrow> rget parent s;
       (node, parent, s) \<leftarrow> (if rb_left pn = node then do { s \<leftarrow> rb_rotate_right parent s; Some (parent, node, s) } else Some (node, parent, s));
       s \<leftarrow> rb_set_black parent s;
       s \<leftarrow> rb_set_red gparent s;
       s \<leftarrow> rb_rotate_left gparent s;
       Some (node, s) } }"

partial_function (option) insert_loop :: "u32 \<Rightarrow> rb_root \<Rightarrow> rb_root option" where
  "insert_loop node s = do {
     nd \<leftarrow> rget node s;
     let parent = par_of nd;
     if parent = 0 then Some s
     else do {
       pn \<leftarrow> rget parent s;
       if is_black pn then Some s
       else do {
         let gparent = par_of pn;
         gn \<leftarrow> rget gparent s;
         (node, s) \<leftarrow> (if parent = rb_left gn then insert_left node parent gparent s else insert_right node parent gparent s);
         insert_loop node s } } }"

definition rb_insert_color :: "u32 \<Rightarrow> rb_root \<Rightarrow> rb_root option" where
  "rb_insert_color node s = do {
     s \<leftarrow> insert_loop node s;
     rb_set_black (rs_root s) s }"

subsection \<open>Removal\<close>

text \<open>Whether the left and the right child are missing or black. Both are read here, also where \<open>&&\<close> skips the second one, whose value is then not used.\<close>

definition children_black :: "rb_node \<Rightarrow> rb_root \<Rightarrow> (bool \<times> bool) option" where
  "children_black nd s = do {
     lb \<leftarrow> black_or_null (rb_left nd) s;
     rb \<leftarrow> black_or_null (rb_right nd) s;
     Some (lb, rb) }"

text \<open>The sibling of the node, which a rotation has made black.\<close>

definition sibling_right :: "u32 \<Rightarrow> rb_root \<Rightarrow> (u32 \<times> rb_root) option" where
  "sibling_right parent s = do {
     pn \<leftarrow> rget parent s;
     let other = rb_right pn;
     on \<leftarrow> rget other s;
     if \<not> is_black on then do {
       s \<leftarrow> rb_set_black other s;
       s \<leftarrow> rb_set_red parent s;
       s \<leftarrow> rb_rotate_left parent s;
       pn \<leftarrow> rget parent s;
       Some (rb_right pn, s) }
     else Some (other, s) }"

definition sibling_left :: "u32 \<Rightarrow> rb_root \<Rightarrow> (u32 \<times> rb_root) option" where
  "sibling_left parent s = do {
     pn \<leftarrow> rget parent s;
     let other = rb_left pn;
     on \<leftarrow> rget other s;
     if \<not> is_black on then do {
       s \<leftarrow> rb_set_black other s;
       s \<leftarrow> rb_set_red parent s;
       s \<leftarrow> rb_rotate_right parent s;
       pn \<leftarrow> rget parent s;
       Some (rb_left pn, s) }
     else Some (other, s) }"

text \<open>The last rotation, with a red child of the sibling on the far side.\<close>

definition last_left :: "u32 \<Rightarrow> u32 \<Rightarrow> rb_root \<Rightarrow> rb_root option" where
  "last_left parent other s = do {
     pn \<leftarrow> rget parent s;
     s \<leftarrow> rb_set_color other (is_black pn) s;
     s \<leftarrow> rb_set_black parent s;
     on \<leftarrow> rget other s;
     s \<leftarrow> rb_set_black (rb_right on) s;
     rb_rotate_left parent s }"

definition last_right :: "u32 \<Rightarrow> u32 \<Rightarrow> rb_root \<Rightarrow> rb_root option" where
  "last_right parent other s = do {
     pn \<leftarrow> rget parent s;
     s \<leftarrow> rb_set_color other (is_black pn) s;
     s \<leftarrow> rb_set_black parent s;
     on \<leftarrow> rget other s;
     s \<leftarrow> rb_set_black (rb_left on) s;
     rb_rotate_right parent s }"

text \<open>The rest of a round, with a black sibling: whether the loop is left, and the node and parent to go on with.\<close>

definition fix_left :: "u32 \<Rightarrow> u32 \<Rightarrow> rb_root \<Rightarrow> (bool \<times> u32 \<times> u32 \<times> rb_root) option" where
  "fix_left parent other s = do {
     on \<leftarrow> rget other s;
     (lb, rb) \<leftarrow> children_black on s;
     if lb \<and> rb then do {
       s \<leftarrow> rb_set_red other s;
       pn \<leftarrow> rget parent s;
       Some (False, parent, par_of pn, s) }
     else do {
       (other, s) \<leftarrow> (if rb then do {
           s \<leftarrow> rb_set_black (rb_left on) s;
           s \<leftarrow> rb_set_red other s;
           s \<leftarrow> rb_rotate_right other s;
           pn \<leftarrow> rget parent s;
           Some (rb_right pn, s) }
         else Some (other, s));
       s \<leftarrow> last_left parent other s;
       Some (True, rs_root s, parent, s) } }"

definition fix_right :: "u32 \<Rightarrow> u32 \<Rightarrow> rb_root \<Rightarrow> (bool \<times> u32 \<times> u32 \<times> rb_root) option" where
  "fix_right parent other s = do {
     on \<leftarrow> rget other s;
     (lb, rb) \<leftarrow> children_black on s;
     if lb \<and> rb then do {
       s \<leftarrow> rb_set_red other s;
       pn \<leftarrow> rget parent s;
       Some (False, parent, par_of pn, s) }
     else do {
       (other, s) \<leftarrow> (if lb then do {
           s \<leftarrow> rb_set_black (rb_right on) s;
           s \<leftarrow> rb_set_red other s;
           s \<leftarrow> rb_rotate_left other s;
           pn \<leftarrow> rget parent s;
           Some (rb_left pn, s) }
         else Some (other, s));
       s \<leftarrow> last_right parent other s;
       Some (True, rs_root s, parent, s) } }"

text \<open>A round of the loop when the node is the left or the right child of its parent.\<close>

definition erase_left :: "u32 \<Rightarrow> rb_root \<Rightarrow> (bool \<times> u32 \<times> u32 \<times> rb_root) option" where
  "erase_left parent s = do {
     (other, s) \<leftarrow> sibling_right parent s;
     fix_left parent other s }"

definition erase_right :: "u32 \<Rightarrow> rb_root \<Rightarrow> (bool \<times> u32 \<times> u32 \<times> rb_root) option" where
  "erase_right parent s = do {
     (other, s) \<leftarrow> sibling_left parent s;
     fix_right parent other s }"

partial_function (option) erase_loop :: "u32 \<Rightarrow> u32 \<Rightarrow> rb_root \<Rightarrow> (u32 \<times> rb_root) option" where
  "erase_loop node parent s = do {
     black \<leftarrow> black_or_null node s;
     if black \<and> node \<noteq> rs_root s then do {
       pn \<leftarrow> rget parent s;
       (done, node, parent, s) \<leftarrow> (if rb_left pn = node then erase_left parent s else erase_right parent s);
       if done then Some (node, s) else erase_loop node parent s }
     else Some (node, s) }"

definition rb_erase_color :: "u32 \<Rightarrow> u32 \<Rightarrow> rb_root \<Rightarrow> rb_root option" where
  "rb_erase_color node parent s = do {
     (node, s) \<leftarrow> erase_loop node parent s;
     if node \<noteq> 0 then rb_set_black node s else Some s }"

text \<open>The walk down to the leftmost or rightmost node.\<close>

partial_function (option) leftmost :: "u32 \<Rightarrow> rb_root \<Rightarrow> u32 option" where
  "leftmost n s = do {
     nd \<leftarrow> rget n s;
     if rb_left nd \<noteq> 0 then leftmost (rb_left nd) s else Some n }"

partial_function (option) rightmost :: "u32 \<Rightarrow> rb_root \<Rightarrow> u32 option" where
  "rightmost n s = do {
     nd \<leftarrow> rget n s;
     if rb_right nd \<noteq> 0 then rightmost (rb_right nd) s else Some n }"

text \<open>A node with two children is replaced by its successor, whose only child goes to its old place: the child, its parent and the colour that is missing there.\<close>

definition erase_two :: "u32 \<Rightarrow> rb_root \<Rightarrow> (u32 \<times> u32 \<times> bool \<times> rb_root) option" where
  "erase_two old s = do {
     on \<leftarrow> rget old s;
     node \<leftarrow> leftmost (rb_right on) s;
     s \<leftarrow> relink_left (par_of on) old node s;
     nn \<leftarrow> rget node s;
     let child = rb_right nn;
     let parent = par_of nn;
     let color = is_black nn;
     (parent, s) \<leftarrow> (if parent = old then Some (node, s)
       else do {
         s \<leftarrow> set_parent_opt child parent s;
         s \<leftarrow> set_left parent child s;
         on \<leftarrow> rget old s;
         s \<leftarrow> set_right node (rb_right on) s;
         s \<leftarrow> rb_set_parent (rb_right on) node s;
         Some (parent, s) });
     on \<leftarrow> rget old s;
     s \<leftarrow> rupd (\<lambda>nd. nd\<lparr>rb_parent_color := rb_parent_color on\<rparr>) node s;
     s \<leftarrow> set_left node (rb_left on) s;
     s \<leftarrow> rb_set_parent (rb_left on) node s;
     Some (child, parent, color, s) }"

definition erase_one :: "u32 \<Rightarrow> u32 \<Rightarrow> rb_root \<Rightarrow> (u32 \<times> u32 \<times> bool \<times> rb_root) option" where
  "erase_one node child s = do {
     nd \<leftarrow> rget node s;
     let parent = par_of nd;
     s \<leftarrow> set_parent_opt child parent s;
     s \<leftarrow> relink_left parent node child s;
     Some (child, parent, is_black nd, s) }"

definition rb_erase :: "u32 \<Rightarrow> rb_root \<Rightarrow> rb_root option" where
  "rb_erase node s = do {
     nd \<leftarrow> rget node s;
     (child, parent, color, s) \<leftarrow> (if rb_left nd = 0 then erase_one node (rb_right nd) s
       else if rb_right nd = 0 then erase_one node (rb_left nd) s
       else erase_two node s);
     if color then rb_erase_color child parent s else Some s }"

subsection \<open>Walks and replacement\<close>

definition rb_first :: "rb_root \<Rightarrow> u32 option" where
  "rb_first s = (if rs_root s = 0 then Some 0 else leftmost (rs_root s) s)"

definition rb_last :: "rb_root \<Rightarrow> u32 option" where
  "rb_last s = (if rs_root s = 0 then Some 0 else rightmost (rs_root s) s)"

partial_function (option) up_right :: "u32 \<Rightarrow> rb_root \<Rightarrow> u32 option" where
  "up_right node s = do {
     nd \<leftarrow> rget node s;
     let parent = par_of nd;
     if parent = 0 then Some 0
     else do {
       pn \<leftarrow> rget parent s;
       if node = rb_right pn then up_right parent s else Some parent } }"

partial_function (option) up_left :: "u32 \<Rightarrow> rb_root \<Rightarrow> u32 option" where
  "up_left node s = do {
     nd \<leftarrow> rget node s;
     let parent = par_of nd;
     if parent = 0 then Some 0
     else do {
       pn \<leftarrow> rget parent s;
       if node = rb_left pn then up_left parent s else Some parent } }"

definition rb_next :: "u32 \<Rightarrow> rb_root \<Rightarrow> u32 option" where
  "rb_next node s = do {
     nd \<leftarrow> rget node s;
     if par_of nd = node then Some 0
     else if rb_right nd \<noteq> 0 then leftmost (rb_right nd) s
     else up_right node s }"

definition rb_prev :: "u32 \<Rightarrow> rb_root \<Rightarrow> u32 option" where
  "rb_prev node s = do {
     nd \<leftarrow> rget node s;
     if par_of nd = node then Some 0
     else if rb_left nd \<noteq> 0 then rightmost (rb_left nd) s
     else up_left node s }"

definition rb_replace_node :: "u32 \<Rightarrow> u32 \<Rightarrow> rb_root \<Rightarrow> rb_root option" where
  "rb_replace_node victim new s = do {
     vn \<leftarrow> rget victim s;
     s \<leftarrow> relink_left (par_of vn) victim new s;
     vn \<leftarrow> rget victim s;
     s \<leftarrow> set_parent_opt (rb_left vn) new s;
     vn \<leftarrow> rget victim s;
     s \<leftarrow> set_parent_opt (rb_right vn) new s;
     vn \<leftarrow> rget victim s;
     rupd (\<lambda>nd. vn) new s }"

text \<open>Augmented trees: the callback \<open>func\<close> works on data \<open>d\<close> kept beside the nodes. It is called for the node, the siblings and the parents up to the root.\<close>

partial_function (option) rb_augment_path :: "(u32 \<Rightarrow> rb_root \<Rightarrow> 'd \<Rightarrow> 'd) \<Rightarrow> u32 \<Rightarrow> rb_root \<Rightarrow> 'd \<Rightarrow> 'd option" where
  "rb_augment_path func node s d = do {
     let d = func node s d;
     nd \<leftarrow> rget node s;
     let parent = par_of nd;
     if parent = 0 then Some d
     else do {
       pn \<leftarrow> rget parent s;
       let d = (if node = rb_left pn \<and> rb_right pn \<noteq> 0 then func (rb_right pn) s d
                else if rb_left pn \<noteq> 0 then func (rb_left pn) s d
                else d);
       rb_augment_path func parent s d } }"

definition rb_augment_insert :: "(u32 \<Rightarrow> rb_root \<Rightarrow> 'd \<Rightarrow> 'd) \<Rightarrow> u32 \<Rightarrow> rb_root \<Rightarrow> 'd \<Rightarrow> 'd option" where
  "rb_augment_insert func node s d = do {
     nd \<leftarrow> rget node s;
     rb_augment_path func (if rb_left nd \<noteq> 0 then rb_left nd else if rb_right nd \<noteq> 0 then rb_right nd else node) s d }"

definition rb_augment_erase_begin :: "u32 \<Rightarrow> rb_root \<Rightarrow> u32 option" where
  "rb_augment_erase_begin node s = do {
     nd \<leftarrow> rget node s;
     if rb_right nd = 0 \<and> rb_left nd = 0 then Some (par_of nd)
     else if rb_right nd = 0 then Some (rb_left nd)
     else if rb_left nd = 0 then Some (rb_right nd)
     else do {
       deepest \<leftarrow> rb_next node s;
       dn \<leftarrow> rget deepest s;
       if rb_right dn \<noteq> 0 then Some (rb_right dn)
       else if par_of dn \<noteq> node then Some (par_of dn)
       else Some deepest } }"

definition rb_augment_erase_end :: "(u32 \<Rightarrow> rb_root \<Rightarrow> 'd \<Rightarrow> 'd) \<Rightarrow> u32 \<Rightarrow> rb_root \<Rightarrow> 'd \<Rightarrow> 'd option" where
  "rb_augment_erase_end func node s d = (if node \<noteq> 0 then rb_augment_path func node s d else Some d)"

subsection \<open>Words\<close>

text \<open>Nodes are aligned to four bytes, so that an address and a colour share a word.\<close>

definition aligned :: "u32 \<Rightarrow> bool" where
  "aligned p \<longleftrightarrow> p AND 3 = 0"

lemma aligned_0 [simp]: "aligned 0"
  by (simp add: aligned_def)

lemma bit_3 [simp]: "bit (3 :: u32) n \<longleftrightarrow> n < 2"
proof -
  have "(3 :: u32) = mask 2" by (simp add: mask_eq_exp_minus_1)
  then show ?thesis by (simp only: bit_mask_iff) auto
qed

lemma bit_low:
  "bit (w AND 3 :: u32) n \<longleftrightarrow> n < 2 \<and> bit w n" "bit (w AND NOT 3 :: u32) n \<longleftrightarrow> 2 \<le> n \<and> bit w n"
  "bit (w AND NOT 1 :: u32) n \<longleftrightarrow> n \<noteq> 0 \<and> bit w n" "bit (w OR 1 :: u32) n \<longleftrightarrow> n = 0 \<or> bit w n"
  by (auto simp only: bit_and_iff bit_not_iff bit_or_iff bit_3 bit_1_iff) (auto dest: bit_imp_le_length)

lemma aligned_bits: "aligned p \<longleftrightarrow> (\<forall>n < 2. \<not> bit p n)"
  unfolding aligned_def bit_eq_iff [of "p AND 3"] bit_low by auto

lemma color_bit: "w AND 1 = 0 \<longleftrightarrow> \<not> bit (w :: u32) 0"
  by (simp add: bit_0 and_one_eq even_iff_mod_2_eq_zero)

lemma par_set_parent: "aligned p \<Longrightarrow> ((w AND 3) OR p) AND NOT 3 = p"
  unfolding bit_eq_iff bit_low bit_or_iff aligned_bits by (auto intro: leI)

lemma color_set_parent: "aligned p \<Longrightarrow> ((w AND 3) OR p) AND 1 = (0 :: u32) \<longleftrightarrow> w AND 1 = 0"
  unfolding color_bit bit_or_iff bit_low aligned_bits by auto

lemma par_set_color: "(w AND NOT 1) AND NOT (3 :: u32) = w AND NOT 3" "(w OR 1) AND NOT (3 :: u32) = w AND NOT 3"
  unfolding bit_eq_iff [of _ "w AND NOT 3"] bit_low by auto

lemma color_set_color: "(w AND NOT 1) AND 1 = (0 :: u32)" "(w OR 1) AND 1 \<noteq> (0 :: u32)"
  unfolding color_bit bit_low by simp_all

text \<open>The fields of a node after a change of parent or colour.\<close>

named_theorems rb_node_simps \<open>fields of nodes after updates\<close>

lemma color_field: "rb_parent_color (nd\<lparr>rb_parent_color := w\<rparr>) = w"
  by simp

lemma node_set_parent [rb_node_simps]:
  "aligned p \<Longrightarrow> par_of (node_parent p nd) = p" "aligned p \<Longrightarrow> is_black (node_parent p nd) = is_black nd"
  by (simp_all only: par_of_def is_black_def node_parent_def color_field par_set_parent color_set_parent)

lemma node_set_red [rb_node_simps]: "par_of (node_red nd) = par_of nd" "is_black (node_red nd) = False"
  by (simp_all only: par_of_def is_black_def node_red_def color_field par_set_color color_set_color simp_thms)

lemma node_set_black [rb_node_simps]: "par_of (node_black nd) = par_of nd" "is_black (node_black nd) = True"
  by (simp_all only: par_of_def is_black_def node_black_def color_field par_set_color color_set_color simp_thms)

lemma node_set_color [rb_node_simps]: "par_of (node_color b nd) = par_of nd" "is_black (node_color b nd) = b"
proof -
  have "(w AND NOT 1) OR 1 = w OR (1 :: u32)" for w unfolding bit_eq_iff bit_or_iff bit_low bit_1_iff by auto
  then have "node_color True nd = node_black nd" "node_color False nd = node_red nd"
    by (simp_all only: node_color_def node_red_def node_black_def of_bool_eq or.right_neutral)
  then show "par_of (node_color b nd) = par_of nd" "is_black (node_color b nd) = b"
    by (cases b; simp add: node_set_red node_set_black)+
qed

lemma node_links [rb_node_simps]:
  "rb_left (node_parent p nd) = rb_left nd" "rb_right (node_parent p nd) = rb_right nd"
  "rb_left (node_red nd) = rb_left nd" "rb_right (node_red nd) = rb_right nd"
  "rb_left (node_black nd) = rb_left nd" "rb_right (node_black nd) = rb_right nd"
  "rb_left (node_color b nd) = rb_left nd" "rb_right (node_color b nd) = rb_right nd"
  "par_of (nd\<lparr>rb_left := p\<rparr>) = par_of nd" "is_black (nd\<lparr>rb_left := p\<rparr>) = is_black nd"
  "par_of (nd\<lparr>rb_right := p\<rparr>) = par_of nd" "is_black (nd\<lparr>rb_right := p\<rparr>) = is_black nd"
  by (simp_all add: par_of_def is_black_def node_parent_def node_red_def node_black_def node_color_def)

subsection \<open>Trees and contexts\<close>

datatype rbt = Lf | Nd bool rbt u32 rbt

fun ptr :: "rbt \<Rightarrow> u32" where
  "ptr Lf = 0"
| "ptr (Nd c l a r) = a"

fun addrs :: "rbt \<Rightarrow> u32 list" where
  "addrs Lf = []"
| "addrs (Nd c l a r) = addrs l @ a # addrs r"

text \<open>A frame is a node with a hole for its left or right child; a context is the frames from the hole up to the root.\<close>

datatype frame = InL bool u32 rbt | InR rbt bool u32

fun top :: "frame list \<Rightarrow> u32" where
  "top [] = 0"
| "top (InL c a r # up) = a"
| "top (InR l c a # up) = a"

fun plug :: "frame list \<Rightarrow> rbt \<Rightarrow> rbt" where
  "plug [] t = t"
| "plug (InL c a r # up) t = plug up (Nd c t a r)"
| "plug (InR l c a # up) t = plug up (Nd c l a t)"

fun ctx_addrs :: "frame list \<Rightarrow> u32 list" where
  "ctx_addrs [] = []"
| "ctx_addrs (InL c a r # up) = a # addrs r @ ctx_addrs up"
| "ctx_addrs (InR l c a # up) = a # addrs l @ ctx_addrs up"

text \<open>What the heap holds at an address.\<close>

definition node_is :: "rb_root \<Rightarrow> u32 \<Rightarrow> u32 \<Rightarrow> bool \<Rightarrow> u32 \<Rightarrow> u32 \<Rightarrow> bool" where
  "node_is s a p c l r \<longleftrightarrow> a \<noteq> 0 \<and> aligned a
     \<and> (\<exists>nd. rs_heap s a = Some nd \<and> par_of nd = p \<and> is_black nd = c \<and> rb_left nd = l \<and> rb_right nd = r)"

fun tree_at :: "rb_root \<Rightarrow> u32 \<Rightarrow> rbt \<Rightarrow> bool" where
  "tree_at s p Lf = True"
| "tree_at s p (Nd c l a r) = (node_is s a p c (ptr l) (ptr r) \<and> tree_at s a l \<and> tree_at s a r)"

fun ctx_at :: "rb_root \<Rightarrow> frame list \<Rightarrow> u32 \<Rightarrow> bool" where
  "ctx_at s [] q = (rs_root s = q)"
| "ctx_at s (InL c a r # up) q = (node_is s a (top up) c q (ptr r) \<and> tree_at s a r \<and> ctx_at s up a)"
| "ctx_at s (InR l c a # up) q = (node_is s a (top up) c (ptr l) q \<and> tree_at s a l \<and> ctx_at s up a)"

text \<open>The heap holds the tree \<open>t\<close> in the context, every node once.\<close>

definition rep :: "rb_root \<Rightarrow> frame list \<Rightarrow> rbt \<Rightarrow> bool" where
  "rep s ctx t \<longleftrightarrow> tree_at s (top ctx) t \<and> ctx_at s ctx (ptr t) \<and> distinct (addrs t @ ctx_addrs ctx)"

lemma rep_plug: "rep s ctx t \<longleftrightarrow> rep s [] (plug ctx t)"
proof (induction ctx t rule: plug.induct)
  case (2 c a r up t)
  have "rep s (InL c a r # up) t \<longleftrightarrow> rep s up (Nd c t a r)" by (auto simp: rep_def)
  then show ?case using 2 by simp
next
  case (3 l c a up t)
  have "rep s (InR l c a # up) t \<longleftrightarrow> rep s up (Nd c l a t)" by (auto simp: rep_def)
  then show ?case using 3 by simp
qed simp

subsection \<open>Frames\<close>

definition same_at :: "rb_root \<Rightarrow> rb_root \<Rightarrow> u32 set \<Rightarrow> bool" where
  "same_at s s' A \<longleftrightarrow> (\<forall>x \<in> A. rs_heap s' x = rs_heap s x)"

lemma node_is_same: "rs_heap s' a = rs_heap s a \<Longrightarrow> node_is s' a p c l r = node_is s a p c l r"
  by (simp add: node_is_def)

lemma tree_at_same: "same_at s s' (set (addrs t)) \<Longrightarrow> tree_at s' p t = tree_at s p t"
proof (induction t arbitrary: p)
  case (Nd c l a r)
  have "same_at s s' (set (addrs l))" "same_at s s' (set (addrs r))" "rs_heap s' a = rs_heap s a" using Nd.prems by (simp_all add: same_at_def)
  then show ?case using Nd.IH node_is_same [of s' a s] by simp
qed simp

lemma ctx_at_same: "same_at s s' (set (ctx_addrs ctx)) \<Longrightarrow> rs_root s' = rs_root s \<Longrightarrow> ctx_at s' ctx q = ctx_at s ctx q"
proof (induction s' ctx q rule: ctx_at.induct)
  case (2 s' c a r up q)
  have "same_at s s' (set (addrs r))" "same_at s s' (set (ctx_addrs up))" "rs_heap s' a = rs_heap s a" using "2.prems"(1) by (simp_all add: same_at_def)
  then show ?case using 2 node_is_same [of s' a s] tree_at_same [of s s' r] by simp
next
  case (3 s' l c a up q)
  have "same_at s s' (set (addrs l))" "same_at s s' (set (ctx_addrs up))" "rs_heap s' a = rs_heap s a" using "3.prems"(1) by (simp_all add: same_at_def)
  then show ?case using 3 node_is_same [of s' a s] tree_at_same [of s s' l] by simp
qed auto

lemma ptr_in: "t \<noteq> Lf \<Longrightarrow> ptr t \<in> set (addrs t)"
  by (cases t) simp_all

lemma tree_ptr_0: "tree_at s p t \<Longrightarrow> ptr t = 0 \<longleftrightarrow> t = Lf"
  by (cases t) (auto simp: node_is_def)

lemma tree_aligned: "tree_at s p t \<Longrightarrow> aligned (ptr t)"
  by (cases t) (auto simp: node_is_def)

lemma ctx_aligned: "ctx_at s ctx q \<Longrightarrow> aligned (top ctx)"
  by (cases ctx rule: top.cases) (auto simp: node_is_def)

lemma ctx_top_0: "ctx_at s ctx q \<Longrightarrow> top ctx = 0 \<longleftrightarrow> ctx = []"
  by (cases ctx rule: top.cases) (auto simp: node_is_def)

lemma top_in: "ctx \<noteq> [] \<Longrightarrow> top ctx \<in> set (ctx_addrs ctx)"
  by (cases ctx rule: top.cases) simp_all

lemma tree_zero: "tree_at s p t \<Longrightarrow> 0 \<notin> set (addrs t)"
  by (induction t arbitrary: p) (auto simp: node_is_def)

lemma ctx_zero: "ctx_at s ctx q \<Longrightarrow> 0 \<notin> set (ctx_addrs ctx)"
  by (induction s ctx q rule: ctx_at.induct) (auto simp: node_is_def dest: tree_zero)

text \<open>Setting the parent of a tree, if there is one, and relinking the hole of a context.\<close>

lemma set_parent_opt_tree:
  assumes "tree_at s p t" "aligned q" "distinct (addrs t)"
  shows "\<exists>s'. set_parent_opt (ptr t) q s = Some s' \<and> tree_at s' q t \<and> same_at s s' (- set (addrs t)) \<and> rs_root s' = rs_root s"
proof (cases t)
  case (Nd c l a r)
  then obtain nd where nd: "rs_heap s a = Some nd" "a \<noteq> 0" using assms(1) by (auto simp: node_is_def)
  define s' where "s' = s\<lparr>rs_heap := (rs_heap s)(a \<mapsto> node_parent q nd)\<rparr>"
  have sm: "same_at s s' (- {a})" by (simp add: same_at_def s'_def)
  have "same_at s s' (set (addrs l))" "same_at s s' (set (addrs r))" using sm assms(3) Nd by (auto simp: same_at_def)
  moreover have "node_is s' a q c (ptr l) (ptr r)" using assms(1,2) Nd nd by (auto simp: node_is_def s'_def rb_node_simps)
  ultimately have "tree_at s' q t" using assms(1) Nd by (simp add: tree_at_same)
  moreover have "set_parent_opt (ptr t) q s = Some s'" using Nd nd by (simp add: set_parent_opt_def rb_set_parent_def rupd_def rget_def s'_def)
  ultimately show ?thesis using sm Nd by (auto simp: s'_def same_at_def)
qed (simp add: set_parent_opt_def same_at_def)

lemma relink_left_ctx:
  assumes "ctx_at s ctx q" "q \<noteq> 0" "q \<notin> set (ctx_addrs ctx)" "distinct (ctx_addrs ctx)"
  shows "\<exists>s'. relink_left (top ctx) q q' s = Some s' \<and> ctx_at s' ctx q' \<and> same_at s s' (- {top ctx})"
proof (cases ctx rule: top.cases)
  case 1
  then show ?thesis by (simp add: relink_left_def same_at_def)
next
  case (2 c a r up)
  then obtain nd where nd: "rs_heap s a = Some nd" "a \<noteq> 0" "rb_left nd = q" using assms(1) by (auto simp: node_is_def)
  define s' where "s' = s\<lparr>rs_heap := (rs_heap s)(a \<mapsto> nd\<lparr>rb_left := q'\<rparr>)\<rparr>"
  have sm: "same_at s s' (- {a})" by (simp add: same_at_def s'_def)
  have "same_at s s' (set (addrs r))" "same_at s s' (set (ctx_addrs up))" using sm assms(4) 2 by (auto simp: same_at_def)
  moreover have "node_is s' a (top up) c q' (ptr r)" using assms(1) 2 nd by (auto simp: node_is_def s'_def rb_node_simps)
  moreover have "rs_root s' = rs_root s" by (simp add: s'_def)
  ultimately have "ctx_at s' ctx q'" using assms(1) 2 by (simp add: tree_at_same ctx_at_same)
  moreover have "relink_left (top ctx) q q' s = Some s'"
    using 2 nd by (simp add: relink_left_def set_left_def rupd_def rget_def s'_def)
  ultimately show ?thesis using sm 2 by auto
next
  case (3 l c a up)
  then obtain nd where nd: "rs_heap s a = Some nd" "a \<noteq> 0" "rb_right nd = q" "rb_left nd = ptr l" using assms(1) by (auto simp: node_is_def)
  have ne: "q \<noteq> ptr l" using assms(2,3) 3 ptr_in [of l] by (cases l) auto
  define s' where "s' = s\<lparr>rs_heap := (rs_heap s)(a \<mapsto> nd\<lparr>rb_right := q'\<rparr>)\<rparr>"
  have sm: "same_at s s' (- {a})" by (simp add: same_at_def s'_def)
  have "same_at s s' (set (addrs l))" "same_at s s' (set (ctx_addrs up))" using sm assms(4) 3 by (auto simp: same_at_def)
  moreover have "node_is s' a (top up) c (ptr l) q'" using assms(1) 3 nd by (auto simp: node_is_def s'_def rb_node_simps)
  moreover have "rs_root s' = rs_root s" by (simp add: s'_def)
  ultimately have "ctx_at s' ctx q'" using assms(1) 3 by (simp add: tree_at_same ctx_at_same)
  moreover have "relink_left (top ctx) q q' s = Some s'"
    using 3 nd ne by (simp add: relink_left_def set_right_def rupd_def rget_def s'_def)
  ultimately show ?thesis using sm 3 by auto
qed

subsection \<open>Rotating\<close>

text \<open>The state \<open>s'\<close> differs from \<open>s\<close> only at the nodes of \<open>A\<close>.\<close>

definition only_in :: "u32 set \<Rightarrow> rb_root \<Rightarrow> rb_root \<Rightarrow> bool" where
  "only_in A s s' \<longleftrightarrow> same_at s s' (- A) \<and> rs_root s' = rs_root s"

lemma only_in_tree: "only_in A s s' \<Longrightarrow> A \<inter> set (addrs t) = {} \<Longrightarrow> tree_at s' p t = tree_at s p t"
  by (rule tree_at_same) (auto simp: only_in_def same_at_def)

lemma only_in_ctx: "only_in A s s' \<Longrightarrow> A \<inter> set (ctx_addrs ctx) = {} \<Longrightarrow> ctx_at s' ctx q = ctx_at s ctx q"
  by (rule ctx_at_same) (auto simp: only_in_def same_at_def)

lemma only_in_node: "only_in A s s' \<Longrightarrow> x \<notin> A \<Longrightarrow> node_is s' x p c l r = node_is s x p c l r"
  by (rule node_is_same) (auto simp: only_in_def same_at_def)

lemma only_in_trans: "only_in A s s' \<Longrightarrow> only_in B s' s'' \<Longrightarrow> only_in (A \<union> B) s s''"
  by (auto simp: only_in_def same_at_def)

lemmas only_in_simps = only_in_tree only_in_ctx only_in_node

lemma same_tree: "same_at s s' (- A) \<Longrightarrow> A \<inter> set (addrs t) = {} \<Longrightarrow> tree_at s' p t = tree_at s p t"
  by (rule tree_at_same) (auto simp: same_at_def)

lemma same_node: "same_at s s' (- A) \<Longrightarrow> x \<notin> A \<Longrightarrow> node_is s' x p c l r = node_is s x p c l r"
  by (rule node_is_same) (auto simp: same_at_def)

lemma only_in_same: "only_in A s s' \<Longrightarrow> A \<subseteq> B \<Longrightarrow> same_at s s' (- B)"
  by (auto simp: only_in_def same_at_def)

lemma same_at_trans: "same_at s s' A \<Longrightarrow> same_at s' s'' A \<Longrightarrow> same_at s s'' A"
  by (simp add: same_at_def)

lemma rupd_node:
  assumes "node_is s a p c l r"
    "\<And>nd. par_of nd = p \<Longrightarrow> is_black nd = c \<Longrightarrow> rb_left nd = l \<Longrightarrow> rb_right nd = r \<Longrightarrow>
      par_of (f nd) = p' \<and> is_black (f nd) = c' \<and> rb_left (f nd) = l' \<and> rb_right (f nd) = r'"
  shows "\<exists>s'. rupd f a s = Some s' \<and> node_is s' a p' c' l' r' \<and> only_in {a} s s'"
proof -
  obtain nd where nd: "rs_heap s a = Some nd" "par_of nd = p" "is_black nd = c" "rb_left nd = l" "rb_right nd = r" "a \<noteq> 0" "aligned a"
    using assms(1) by (auto simp: node_is_def)
  show ?thesis using nd assms(2) [OF nd(2-5)]
    by (intro exI [of _ "s\<lparr>rs_heap := (rs_heap s)(a \<mapsto> f nd)\<rparr>"]) (auto simp: rupd_def rget_def node_is_def only_in_def same_at_def)
qed

lemma set_node:
  assumes "node_is s a p c l r"
  shows "\<exists>s'. set_left a q s = Some s' \<and> node_is s' a p c q r \<and> only_in {a} s s'"
    "\<exists>s'. set_right a q s = Some s' \<and> node_is s' a p c l q \<and> only_in {a} s s'"
    "aligned q \<Longrightarrow> \<exists>s'. rb_set_parent a q s = Some s' \<and> node_is s' a q c l r \<and> only_in {a} s s'"
    "\<exists>s'. rb_set_red a s = Some s' \<and> node_is s' a p False l r \<and> only_in {a} s s'"
    "\<exists>s'. rb_set_black a s = Some s' \<and> node_is s' a p True l r \<and> only_in {a} s s'"
    "\<exists>s'. rb_set_color a b s = Some s' \<and> node_is s' a p b l r \<and> only_in {a} s s'"
  unfolding set_left_def set_right_def rb_set_parent_def rb_set_red_def rb_set_black_def rb_set_color_def
  by (rule rupd_node [OF assms], simp add: rb_node_simps)+

lemma node_read: "node_is s a p c l r \<Longrightarrow> \<exists>nd. rget a s = Some nd \<and> par_of nd = p \<and> is_black nd = c \<and> rb_left nd = l \<and> rb_right nd = r"
  by (auto simp: node_is_def rget_def)

lemma node_address: "node_is s a p c l r \<Longrightarrow> a \<noteq> 0 \<and> aligned a"
  by (simp add: node_is_def)

text \<open>Relinking changes only the node above, or the root pointer.\<close>

lemma rotate_left_rep:
  assumes "rep s ctx (Nd c l a (Nd d m b r))"
  shows "\<exists>s'. rb_rotate_left a s = Some s' \<and> rep s' ctx (Nd d (Nd c l a m) b r)
    \<and> same_at s s' (- set (addrs (Nd c l a (Nd d m b r)) @ ctx_addrs ctx))"
proof -
  let ?p = "top ctx"
  have d: "distinct (addrs l @ a # addrs m @ b # addrs r @ ctx_addrs ctx)" using assms by (simp add: rep_def)
  have na: "node_is s a ?p c (ptr l) b" and nb: "node_is s b a d (ptr m) (ptr r)" and l: "tree_at s a l" and m: "tree_at s b m" and r: "tree_at s b r"
    and x: "ctx_at s ctx a" using assms by (simp_all add: rep_def)
  have al: "a \<noteq> 0" "aligned a" "b \<noteq> 0" "aligned b" "aligned ?p" using node_address [OF na] node_address [OF nb] ctx_aligned [OF x] by simp_all
  have tp: "?p \<noteq> a" "?p \<noteq> b" "?p \<notin> set (addrs l)" "?p \<notin> set (addrs m)" "?p \<notin> set (addrs r)"
    using d al(1,3) tree_zero [OF l] tree_zero [OF m] tree_zero [OF r] top_in [of ctx] by (cases "ctx = []"; auto)+
  obtain s1 where s1: "set_right a (ptr m) s = Some s1" "node_is s1 a ?p c (ptr l) (ptr m)" "only_in {a} s s1" using set_node(2) [OF na] by blast
  obtain s2 where s2: "set_parent_opt (ptr m) a s1 = Some s2" "tree_at s2 a m" "only_in (set (addrs m)) s1 s2"
    using set_parent_opt_tree [of s1 b m a] m d al s1(3) by (auto simp: only_in_simps only_in_def)
  have "node_is s2 b a d (ptr m) (ptr r)" using nb s1(3) s2(3) d by (auto simp: only_in_simps Int_Un_distrib Int_commute)
  then obtain s3 where s3: "set_left b a s2 = Some s3" "node_is s3 b a d a (ptr r)" "only_in {b} s2 s3" using set_node(1) by blast
  obtain s4 where s4: "rb_set_parent b ?p s3 = Some s4" "node_is s4 b ?p d a (ptr r)" "only_in {b} s3 s4" using set_node(3) [OF s3(2) al(5)] by blast
  have "ctx_at s4 ctx a" using x s1(3) s2(3) s3(3) s4(3) d by (auto simp: only_in_simps Int_Un_distrib Int_commute)
  then obtain s5 where s5: "relink_left ?p a b s4 = Some s5" "ctx_at s5 ctx b" "same_at s4 s5 (- {?p})"
    using relink_left_ctx [of s4 ctx a b] al d by auto
  have "node_is s5 a ?p c (ptr l) (ptr m)"
    using s1(2) s2(3) s3(3) s4(3) d tp s5(3) by (auto simp: only_in_simps same_node Int_Un_distrib Int_commute)
  then obtain s6 where s6: "rb_set_parent a b s5 = Some s6" "node_is s6 a b c (ptr l) (ptr m)" "only_in {a} s5 s6" using set_node(3) al(4) by blast
  obtain nda ndb where rd: "rget a s = Some nda" "par_of nda = ?p" "rb_right nda = b" "rget b s = Some ndb" "rb_left ndb = ptr m"
    using node_read [OF na] node_read [OF nb] by blast
  have "rb_rotate_left a s = Some s6"
    using rd s1(1) s2(1) s3(1) s4(1) s5(1) s6(1) by (simp add: rb_rotate_left_def Let_def)
  moreover have "node_is s6 b ?p d a (ptr r)" using s4(2) s5(3) s6(3) tp d by (auto simp: only_in_simps same_node Int_Un_distrib Int_commute)
  moreover have "tree_at s6 a l" using l s1(3) s2(3) s3(3) s4(3) s5(3) s6(3) tp d by (auto simp: only_in_simps same_tree Int_Un_distrib Int_commute)
  moreover have "tree_at s6 a m" using s2(2) s3(3) s4(3) s5(3) s6(3) tp d by (auto simp: only_in_simps same_tree Int_Un_distrib Int_commute)
  moreover have "tree_at s6 b r" using r s1(3) s2(3) s3(3) s4(3) s5(3) s6(3) tp d by (auto simp: only_in_simps same_tree Int_Un_distrib Int_commute)
  moreover have "ctx_at s6 ctx b" using s5(2) s6(3) d by (auto simp: only_in_simps Int_Un_distrib Int_commute)
  moreover have "same_at s s6 (- set (addrs (Nd c l a (Nd d m b r)) @ ctx_addrs ctx))"
  proof -
    have "same_at s s4 (- {a} - set (addrs m) - {b})" using s1(3) s2(3) s3(3) s4(3) by (auto simp: only_in_def same_at_def)
    then have "same_at s s6 (- {a} - set (addrs m) - {b} - {?p})" using s5(3) s6(3) by (auto simp: only_in_def same_at_def)
    moreover have "rs_heap s6 ?p = rs_heap s ?p" if "ctx = []"
      using that s1(3) s2(3) s3(3) s4(3) s5(1) s6(3) al tree_zero [OF m] by (auto simp: only_in_def same_at_def relink_left_def)
    ultimately show ?thesis using top_in [of ctx] by (cases "ctx = []") (auto simp: same_at_def)
  qed
  ultimately show ?thesis using s6(2) d by (auto simp: rep_def)
qed

subsection \<open>Mirroring\<close>

text \<open>Exchanging left and right in every node. The code has each case twice; the second is the mirror image of the first.\<close>

definition mir_node :: "rb_node \<Rightarrow> rb_node" where
  "mir_node nd = nd\<lparr>rb_left := rb_right nd, rb_right := rb_left nd\<rparr>"

definition mir :: "rb_root \<Rightarrow> rb_root" where
  "mir s = s\<lparr>rs_heap := \<lambda>a. map_option mir_node (rs_heap s a)\<rparr>"

fun mirt :: "rbt \<Rightarrow> rbt" where
  "mirt Lf = Lf"
| "mirt (Nd c l a r) = Nd c (mirt r) a (mirt l)"

fun mirf :: "frame \<Rightarrow> frame" where
  "mirf (InL c a r) = InR (mirt r) c a"
| "mirf (InR l c a) = InL c a (mirt l)"

named_theorems mirror_simps \<open>mirror images\<close>

lemma mir_node_fields [mirror_simps]:
  "par_of (mir_node nd) = par_of nd" "is_black (mir_node nd) = is_black nd" "rb_left (mir_node nd) = rb_right nd" "rb_right (mir_node nd) = rb_left nd"
  "mir_node (mir_node nd) = nd" "mir_node (node_parent p (mir_node nd)) = node_parent p nd" "mir_node (node_red (mir_node nd)) = node_red nd"
  "mir_node (node_black (mir_node nd)) = node_black nd" "mir_node (node_color b (mir_node nd)) = node_color b nd"
  by (simp_all add: mir_node_def par_of_def is_black_def node_parent_def node_red_def node_black_def node_color_def)

lemma mir_mir [mirror_simps]: "mir (mir s) = s"
  by (simp add: mir_def option.map_comp comp_def mirror_simps) (simp add: map_option.identity option.map_ident)

lemma mir_root [mirror_simps]: "rs_root (mir s) = rs_root s"
  by (simp add: mir_def)

lemma rget_mir [mirror_simps]: "rget p (mir s) = map_option mir_node (rget p s)"
  by (simp add: rget_def mir_def)

lemma rupd_mir: "(\<And>nd. mir_node (f (mir_node nd)) = g nd) \<Longrightarrow> rupd f p (mir s) = map_option mir (rupd g p s)"
proof -
  assume fg: "\<And>nd. mir_node (f (mir_node nd)) = g nd"
  have "f (mir_node nd) = mir_node (g nd)" for nd by (metis fg mir_node_fields(5))
  then show ?thesis by (cases "rget p s") (auto simp: rupd_def rget_mir, auto simp: mir_def fun_eq_iff)
qed

lemma set_mir [mirror_simps]:
  "set_left p q (mir s) = map_option mir (set_right p q s)" "set_right p q (mir s) = map_option mir (set_left p q s)"
  "rb_set_parent p q (mir s) = map_option mir (rb_set_parent p q s)" "rb_set_red p (mir s) = map_option mir (rb_set_red p s)"
  "rb_set_black p (mir s) = map_option mir (rb_set_black p s)" "rb_set_color p b (mir s) = map_option mir (rb_set_color p b s)"
  "set_parent_opt p q (mir s) = map_option mir (set_parent_opt p q s)"
  "black_or_null p (mir s) = black_or_null p s"
  unfolding set_left_def set_right_def rb_set_parent_def rb_set_red_def rb_set_black_def rb_set_color_def set_parent_opt_def black_or_null_def
  by (auto intro!: rupd_mir simp: mirror_simps option.map_comp comp_def) (simp_all add: mir_node_def)

lemma option_bind_map: "map_option f x \<bind> g = x \<bind> (\<lambda>y. g (f y))"
  by (cases x) simp_all

lemma option_map_bind: "map_option f (x \<bind> h) = x \<bind> (\<lambda>y. map_option f (h y))"
  by (cases x) simp_all

lemmas option_push = option_bind_map option_map_bind option.map_comp comp_def

lemma relink_mir [mirror_simps]: "relink_left p old new (mir s) = map_option mir (relink_right p old new s)"
  by (cases "rget p s") (auto simp: relink_left_def relink_right_def mirror_simps option_push, simp_all add: mir_def)

lemma rotate_mir [mirror_simps]: "rb_rotate_left n (mir s) = map_option mir (rb_rotate_right n s)"
  by (simp add: rb_rotate_left_def rb_rotate_right_def mirror_simps option_push Let_def)

lemma rotate_mir2 [mirror_simps]: "rb_rotate_right n (mir s) = map_option mir (rb_rotate_left n s)"
proof -
  have "map_option mir (rb_rotate_right n (mir s)) = rb_rotate_left n s" using rotate_mir [of n "mir s"] by (simp add: mirror_simps)
  then have "map_option mir (map_option mir (rb_rotate_right n (mir s))) = map_option mir (rb_rotate_left n s)" by simp
  then show ?thesis by (simp add: option.map_comp comp_def mirror_simps option.map_ident)
qed

lemma if_bind: "Option.bind (if b then x else y) f = (if b then Option.bind x f else Option.bind y f)"
  by simp

lemma if_map: "map_option f (if b then x else y) = (if b then map_option f x else map_option f y)"
  by simp

lemma insert_mir [mirror_simps]: "insert_left n p g (mir s) = map_option (map_prod id mir) (insert_right n p g s)"
  by (simp add: insert_left_def insert_right_def mirror_simps option_push Let_def if_bind if_map cong: if_cong)

lemma children_black_mir [mirror_simps]: "children_black (mir_node nd) (mir s) = map_option prod.swap (children_black nd s)"
  by (cases "black_or_null (rb_left nd) s"; cases "black_or_null (rb_right nd) s") (simp_all add: children_black_def mirror_simps)

lemma bind_pair_swap: "Option.bind (map_option prod.swap x) (\<lambda>(a, b). f a b) = Option.bind x (\<lambda>(b, a). f a b)"
  by (cases x) (auto split: prod.splits)

lemma sibling_mir [mirror_simps]: "sibling_right p (mir s) = map_option (map_prod id mir) (sibling_left p s)"
  by (simp add: sibling_right_def sibling_left_def mirror_simps option_push Let_def if_map cong: if_cong)

lemma last_mir [mirror_simps]: "last_left p q (mir s) = map_option mir (last_right p q s)"
  by (simp add: last_left_def last_right_def mirror_simps option_push)

lemma fix_mir [mirror_simps]: "fix_left p q (mir s) = map_option (map_prod id (map_prod id (map_prod id mir))) (fix_right p q s)"
  by (simp add: fix_left_def fix_right_def mirror_simps option_push if_bind if_map conj_commute split_def cong: if_cong)

lemma erase_mir [mirror_simps]: "erase_left p (mir s) = map_option (map_prod id (map_prod id (map_prod id mir))) (erase_right p s)"
  by (simp add: erase_left_def erase_right_def mirror_simps option_push split_def)

lemma addrs_mirt [mirror_simps]: "addrs (mirt t) = rev (addrs t)"
  by (induction t) simp_all

lemma ptr_mirt [mirror_simps]: "ptr (mirt t) = ptr t"
  by (cases t) simp_all

lemma mirt_mirt [mirror_simps]: "mirt (mirt t) = t"
  by (induction t) simp_all

lemma mirf_mirf [mirror_simps]: "mirf (mirf f) = f"
  by (cases f) (simp_all add: mirror_simps)

lemma top_mirf [mirror_simps]: "top (map mirf ctx) = top ctx"
  by (cases ctx rule: top.cases) simp_all

lemma ctx_addrs_mirf [mirror_simps]:
  "set (ctx_addrs (map mirf ctx)) = set (ctx_addrs ctx)" "distinct (ctx_addrs (map mirf ctx)) = distinct (ctx_addrs ctx)"
proof -
  have s: "set (ctx_addrs (map mirf ctx)) = set (ctx_addrs ctx)" for ctx
    by (induction ctx rule: ctx_addrs.induct) (simp_all add: mirror_simps)
  show "set (ctx_addrs (map mirf ctx)) = set (ctx_addrs ctx)" by (rule s)
  show "distinct (ctx_addrs (map mirf ctx)) = distinct (ctx_addrs ctx)"
    by (induction ctx rule: ctx_addrs.induct) (simp_all add: mirror_simps s)
qed

lemma node_is_mir [mirror_simps]: "node_is (mir s) a p c l r = node_is s a p c r l"
proof -
  have "(\<exists>nd. map_option mir_node (rs_heap s a) = Some nd \<and> P nd) \<longleftrightarrow> (\<exists>nd. rs_heap s a = Some nd \<and> P (mir_node nd))" for P
    by auto
  then show ?thesis by (simp add: node_is_def mir_def mirror_simps) metis
qed

lemma tree_at_mir [mirror_simps]: "tree_at (mir s) p (mirt t) = tree_at s p t"
  by (induction t arbitrary: p) (auto simp: mirror_simps)

lemma ctx_at_mir [mirror_simps]: "ctx_at (mir s) (map mirf ctx) q = ctx_at s ctx q"
  by (induction s ctx q rule: ctx_at.induct) (auto simp: mirror_simps)

lemma rep_mir [mirror_simps]: "rep (mir s) (map mirf ctx) (mirt t) = rep s ctx t"
  by (auto simp: rep_def mirror_simps)

lemma same_at_mir [mirror_simps]: "same_at (mir s) (mir s') A = same_at s s' A"
proof -
  have "map_option mir_node x = map_option mir_node y \<longleftrightarrow> x = y" for x y by (metis mir_node_fields(5) option.inj_map_strong)
  then show ?thesis by (simp add: same_at_def mir_def)
qed

lemma plug_mir [mirror_simps]: "plug (map mirf ctx) (mirt t) = mirt (plug ctx t)"
  by (induction ctx t rule: plug.induct) (simp_all flip: mirt.simps)

lemma rotate_right_rep:
  assumes "rep s ctx (Nd c (Nd d l b m) a r)"
  shows "\<exists>s'. rb_rotate_right a s = Some s' \<and> rep s' ctx (Nd d l b (Nd c m a r))
    \<and> same_at s s' (- set (addrs (Nd c (Nd d l b m) a r) @ ctx_addrs ctx))"
proof -
  have "rep (mir s) (map mirf ctx) (Nd c (mirt r) a (Nd d (mirt m) b (mirt l)))" using assms rep_mir [of s ctx "Nd c (Nd d l b m) a r"] by simp
  from rotate_left_rep [OF this] obtain s1 where s1: "rb_rotate_left a (mir s) = Some s1"
    "rep s1 (map mirf ctx) (mirt (Nd d l b (Nd c m a r)))" "same_at (mir s) s1 (- set (addrs (Nd c (Nd d l b m) a r) @ ctx_addrs ctx))"
    by (auto simp: mirror_simps Un_commute Un_left_commute insert_commute)
  obtain s' where s': "rb_rotate_right a s = Some s'" "s1 = mir s'" using s1(1) by (auto simp: mirror_simps)
  show ?thesis using s' s1(2,3) by (simp only: rep_mir same_at_mir) blast
qed

end
