(* ===== verification/RbInsert.thy ===== *)
theory RbInsert
  imports RbTree
begin

text \<open>
  Insertion into red-black trees: what one round of the loop does to the tree, that the loop ends, and that it restores the colours and black heights and keeps the
  order; the walks along the tree; and replacing a node. Each case of the code is proved for the left side and carried over to the right side by mirroring.
\<close>

subsection \<open>Moving the hole, painting nodes\<close>

lemma rep_InL: "rep s (InL c a r # up) t = rep s up (Nd c t a r)"
  by (auto simp: rep_def)

lemma rep_InR: "rep s (InR l c a # up) t = rep s up (Nd c l a t)"
  by (auto simp: rep_def)

lemma rep_read:
  assumes "rep s ctx (Nd c l a r)"
  shows "\<exists>nd. rget a s = Some nd \<and> par_of nd = top ctx \<and> is_black nd = c \<and> rb_left nd = ptr l \<and> rb_right nd = ptr r" "a \<noteq> 0"
  using assms node_read [of s a] by (auto simp: rep_def node_is_def)

lemma rep_paint:
  assumes "rep s ctx (Nd c l a r)"
  shows "\<exists>s'. rb_set_red a s = Some s' \<and> rep s' ctx (Nd False l a r) \<and> only_in {a} s s'"
    "\<exists>s'. rb_set_black a s = Some s' \<and> rep s' ctx (Nd True l a r) \<and> only_in {a} s s'"
    "\<exists>s'. rb_set_color a b s = Some s' \<and> rep s' ctx (Nd b l a r) \<and> only_in {a} s s'"
proof -
  have n: "node_is s a (top ctx) c (ptr l) (ptr r)" using assms by (simp add: rep_def)
  have k: "rep s' ctx (Nd c' l a r)" if "node_is s' a (top ctx) c' (ptr l) (ptr r)" "only_in {a} s s'" for s' c'
    using assms that by (auto simp: rep_def only_in_simps)
  show "\<exists>s'. rb_set_red a s = Some s' \<and> rep s' ctx (Nd False l a r) \<and> only_in {a} s s'" using set_node(4) [OF n] k by blast
  show "\<exists>s'. rb_set_black a s = Some s' \<and> rep s' ctx (Nd True l a r) \<and> only_in {a} s s'" using set_node(5) [OF n] k by blast
  show "\<exists>s'. rb_set_color a b s = Some s' \<and> rep s' ctx (Nd b l a r) \<and> only_in {a} s s'" using set_node(6) [OF n, of b] k by blast
qed

text \<open>The same for the left and the right child.\<close>

lemmas rep_paint_L = rep_paint [where ctx = "InL x g u # up" for x g u up, unfolded rep_InL]
lemmas rep_paint_R = rep_paint [where ctx = "InR u x g # up" for x g u up, unfolded rep_InR]

fun root_black :: "rbt \<Rightarrow> bool" where
  "root_black Lf = True"
| "root_black (Nd c l a r) = c"

lemma black_or_null_tree: "tree_at s p t \<Longrightarrow> black_or_null (ptr t) s = Some (root_black t)"
  by (cases t) (auto simp: black_or_null_def node_is_def rget_def)

lemma rep_children:
  assumes "rep s ctx (Nd c l a r)"
  shows "tree_at s a l" "tree_at s a r"
  using assms by (simp_all add: rep_def)

subsection \<open>One round\<close>

text \<open>All the nodes a state has: of the tree and of its context.\<close>

abbreviation nodes :: "frame list \<Rightarrow> rbt \<Rightarrow> u32 set" where
  "nodes ctx t \<equiv> set (addrs t) \<union> set (ctx_addrs ctx)"

lemma insert_left_red:
  assumes "rep s up (Nd True (Nd False pl p pr) g (Nd False ul u ur))"
  shows "\<exists>s'. insert_left n p g s = Some (g, s') \<and> rep s' up (Nd False (Nd True pl p pr) g (Nd True ul u ur)) \<and> only_in {u, p, g} s s'"
proof -
  obtain gn where gn: "rget g s = Some gn" "rb_right gn = u" using rep_read(1) [OF assms] by auto
  have b: "black_or_null u s = Some False" using black_or_null_tree [OF rep_children(2) [OF assms]] by simp
  obtain s1 where s1: "rb_set_black u s = Some s1" "rep s1 up (Nd True (Nd False pl p pr) g (Nd True ul u ur))" "only_in {u} s s1"
    using rep_paint_R(2) [OF assms] by blast
  obtain s2 where s2: "rb_set_black p s1 = Some s2" "rep s2 up (Nd True (Nd True pl p pr) g (Nd True ul u ur))" "only_in {p} s1 s2"
    using rep_paint_L(2) [OF s1(2)] by blast
  obtain s3 where s3: "rb_set_red g s2 = Some s3" "rep s3 up (Nd False (Nd True pl p pr) g (Nd True ul u ur))" "only_in {g} s2 s3"
    using rep_paint(1) [OF s2(2)] by auto
  have "only_in {u, p, g} s s3" using only_in_trans [OF only_in_trans [OF s1(3) s2(3)] s3(3)] by (simp add: insert_commute)
  then show ?thesis using gn b s1(1) s2(1) s3(1,2) by (simp add: insert_left_def)
qed

lemma paint_rotate_right:
  assumes "rep s up (Nd c (Nd d t p q) g u)"
  shows "\<exists>s1 s2 s3. rb_set_black p s = Some s1 \<and> rb_set_red g s1 = Some s2 \<and> rb_rotate_right g s2 = Some s3
    \<and> rep s3 up (Nd True t p (Nd False q g u)) \<and> same_at s s3 (- nodes up (Nd c (Nd d t p q) g u))"
proof -
  obtain s1 where s1: "rb_set_black p s = Some s1" "rep s1 up (Nd c (Nd True t p q) g u)" "only_in {p} s s1"
    using rep_paint_L(2) [OF assms] by blast
  obtain s2 where s2: "rb_set_red g s1 = Some s2" "rep s2 up (Nd False (Nd True t p q) g u)" "only_in {g} s1 s2" using rep_paint(1) [OF s1(2)] by auto
  obtain s3 where s3: "rb_rotate_right g s2 = Some s3" "rep s3 up (Nd True t p (Nd False q g u))"
    "same_at s2 s3 (- nodes up (Nd c (Nd d t p q) g u))" using rotate_right_rep [OF s2(2)] by (auto simp: Un_assoc)
  have "same_at s s2 (- nodes up (Nd c (Nd d t p q) g u))" using s1(3) s2(3) by (auto simp: only_in_def same_at_def)
  then show ?thesis using s1(1) s2(1) s3 same_at_trans by blast
qed

lemma insert_left_outer:
  assumes "rep s up (Nd True (Nd False (Nd False l n r) p q) g u)" "root_black u"
  shows "\<exists>s'. insert_left n p g s = Some (n, s') \<and> rep s' up (Nd True (Nd False l n r) p (Nd False q g u))
    \<and> same_at s s' (- nodes up (Nd True (Nd False (Nd False l n r) p q) g u))"
proof -
  obtain gn where gn: "rget g s = Some gn" "rb_right gn = ptr u" using rep_read(1) [OF assms(1)] by auto
  have b: "black_or_null (ptr u) s = Some True" using black_or_null_tree [OF rep_children(2) [OF assms(1)]] assms(2) by simp
  have "rep s (InL True g u # up) (Nd False (Nd False l n r) p q)" using assms(1) by (simp add: rep_InL)
  from rep_read(1) [OF this] obtain pn where pn: "rget p s = Some pn" "rb_right pn = ptr q" by auto
  have "ptr q \<noteq> n" using assms(1) by (cases q) (auto simp: rep_def node_is_def)
  then show ?thesis using gn b pn paint_rotate_right [OF assms(1)] by (auto simp: insert_left_def)
qed

lemma insert_left_inner:
  assumes "rep s up (Nd True (Nd False q p (Nd False l n r)) g u)" "root_black u"
  shows "\<exists>s'. insert_left n p g s = Some (p, s') \<and> rep s' up (Nd True (Nd False q p l) n (Nd False r g u))
    \<and> same_at s s' (- nodes up (Nd True (Nd False q p (Nd False l n r)) g u))"
proof -
  obtain gn where gn: "rget g s = Some gn" "rb_right gn = ptr u" using rep_read(1) [OF assms(1)] by auto
  have b: "black_or_null (ptr u) s = Some True" using black_or_null_tree [OF rep_children(2) [OF assms(1)]] assms(2) by simp
  have f: "rep s (InL True g u # up) (Nd False q p (Nd False l n r))" using assms(1) by (simp add: rep_InL)
  from rep_read(1) [OF f] obtain pn where pn: "rget p s = Some pn" "rb_right pn = n" by auto
  obtain s1 where s1: "rb_rotate_left p s = Some s1" "rep s1 up (Nd True (Nd False (Nd False q p l) n r) g u)"
    "same_at s s1 (- nodes up (Nd True (Nd False q p (Nd False l n r)) g u))"
    using rotate_left_rep [OF f] by (auto simp: rep_InL same_at_def)
  from paint_rotate_right [OF s1(2)] obtain s2 s3 s4 where s: "rb_set_black n s1 = Some s2" "rb_set_red g s2 = Some s3" "rb_rotate_right g s3 = Some s4"
    "rep s4 up (Nd True (Nd False q p l) n (Nd False r g u))" "same_at s1 s4 (- nodes up (Nd True (Nd False q p (Nd False l n r)) g u))" by (auto simp: insert_commute Un_assoc)
  show ?thesis using gn b pn s1(1) s(1-4) same_at_trans [OF s1(3) s(5)] by (simp add: insert_left_def)
qed

lemma insert_right_from_mir:
  assumes "\<exists>s1. insert_left n p g (mir s) = Some (k, s1) \<and> rep s1 (map mirf up) (mirt t) \<and> same_at (mir s) s1 A"
  shows "\<exists>s'. insert_right n p g s = Some (k, s') \<and> rep s' up t \<and> same_at s s' A"
proof -
  obtain s1 where s1: "insert_left n p g (mir s) = Some (k, s1)" "rep s1 (map mirf up) (mirt t)" "same_at (mir s) s1 A" using assms by blast
  obtain s' where "insert_right n p g s = Some (k, s')" "s1 = mir s'" using s1(1) by (auto simp: insert_mir)
  then show ?thesis using s1(2,3) by (auto simp: rep_mir same_at_mir)
qed

lemma root_black_mirt [mirror_simps]: "root_black (mirt t) = root_black t"
  by (cases t) simp_all

lemma insert_right_red:
  assumes "rep s up (Nd True (Nd False ul u ur) g (Nd False pl p pr))"
  shows "\<exists>s'. insert_right n p g s = Some (g, s') \<and> rep s' up (Nd False (Nd True ul u ur) g (Nd True pl p pr)) \<and> same_at s s' (- {u, p, g})"
proof (rule insert_right_from_mir)
  have "rep (mir s) (map mirf up) (Nd True (Nd False (mirt pr) p (mirt pl)) g (Nd False (mirt ur) u (mirt ul)))"
    using assms rep_mir [of s up "Nd True (Nd False ul u ur) g (Nd False pl p pr)"] by simp
  from insert_left_red [OF this]
  show "\<exists>s1. insert_left n p g (mir s) = Some (g, s1) \<and> rep s1 (map mirf up) (mirt (Nd False (Nd True ul u ur) g (Nd True pl p pr)))
    \<and> same_at (mir s) s1 (- {u, p, g})" by (auto simp: only_in_def)
qed

lemma insert_right_outer:
  assumes "rep s up (Nd True u g (Nd False q p (Nd False l n r)))" "root_black u"
  shows "\<exists>s'. insert_right n p g s = Some (n, s') \<and> rep s' up (Nd True (Nd False u g q) p (Nd False l n r))
    \<and> same_at s s' (- nodes up (Nd True u g (Nd False q p (Nd False l n r))))"
proof (rule insert_right_from_mir)
  have "rep (mir s) (map mirf up) (Nd True (Nd False (Nd False (mirt r) n (mirt l)) p (mirt q)) g (mirt u))"
    using assms(1) rep_mir [of s up "Nd True u g (Nd False q p (Nd False l n r))"] by simp
  from insert_left_outer [OF this] assms(2)
  show "\<exists>s1. insert_left n p g (mir s) = Some (n, s1) \<and> rep s1 (map mirf up) (mirt (Nd True (Nd False u g q) p (Nd False l n r)))
    \<and> same_at (mir s) s1 (- nodes up (Nd True u g (Nd False q p (Nd False l n r))))"
    by (auto simp: mirror_simps insert_commute Un_ac)
qed

lemma insert_right_inner:
  assumes "rep s up (Nd True u g (Nd False (Nd False l n r) p q))" "root_black u"
  shows "\<exists>s'. insert_right n p g s = Some (p, s') \<and> rep s' up (Nd True (Nd False u g l) n (Nd False r p q))
    \<and> same_at s s' (- nodes up (Nd True u g (Nd False (Nd False l n r) p q)))"
proof (rule insert_right_from_mir)
  have "rep (mir s) (map mirf up) (Nd True (Nd False (mirt q) p (Nd False (mirt r) n (mirt l))) g (mirt u))"
    using assms(1) rep_mir [of s up "Nd True u g (Nd False (Nd False l n r) p q)"] by simp
  from insert_left_inner [OF this] assms(2)
  show "\<exists>s1. insert_left n p g (mir s) = Some (p, s1) \<and> rep s1 (map mirf up) (mirt (Nd True (Nd False u g l) n (Nd False r p q)))
    \<and> same_at (mir s) s1 (- nodes up (Nd True u g (Nd False (Nd False l n r) p q)))"
    by (auto simp: mirror_simps insert_commute Un_ac)
qed

subsection \<open>Balanced trees\<close>

text \<open>The black height, no red node with a red child, and both for a context: the heights and colours that it expects of the tree in its hole.\<close>

fun bal :: "rbt \<Rightarrow> nat \<Rightarrow> bool" where
  "bal Lf n = (n = 0)"
| "bal (Nd c l a r) n = (\<exists>m. bal l m \<and> bal r m \<and> n = (if c then Suc m else m))"

fun col_ok :: "rbt \<Rightarrow> bool" where
  "col_ok Lf = True"
| "col_ok (Nd c l a r) = ((c \<or> root_black l \<and> root_black r) \<and> col_ok l \<and> col_ok r)"

fun cbal :: "frame list \<Rightarrow> nat \<Rightarrow> bool" where
  "cbal [] n = True"
| "cbal (InL c a r # up) n = (bal r n \<and> cbal up (if c then Suc n else n))"
| "cbal (InR l c a # up) n = (bal l n \<and> cbal up (if c then Suc n else n))"

fun ccol :: "frame list \<Rightarrow> bool \<Rightarrow> bool" where
  "ccol [] h = True"
| "ccol (InL c a r # up) h = ((c \<or> h \<and> root_black r) \<and> col_ok r \<and> ccol up c)"
| "ccol (InR l c a # up) h = ((c \<or> h \<and> root_black l) \<and> col_ok l \<and> ccol up c)"

fun croot :: "frame list \<Rightarrow> bool" where
  "croot [] = True"
| "croot (InL c a r # up) = (if up = [] then c else croot up)"
| "croot (InR l c a # up) = (if up = [] then c else croot up)"

definition rb_tree :: "rbt \<Rightarrow> bool" where
  "rb_tree t \<longleftrightarrow> root_black t \<and> col_ok t \<and> (\<exists>n. bal t n)"

lemma bal_plug: "(\<exists>k. bal (plug ctx t) k) \<longleftrightarrow> (\<exists>n. bal t n \<and> cbal ctx n)"
  by (induction ctx t rule: plug.induct) (auto; metis)+

lemma col_plug: "col_ok (plug ctx t) \<longleftrightarrow> col_ok t \<and> ccol ctx (root_black t)"
  by (induction ctx t rule: plug.induct) auto

lemma root_plug: "ctx \<noteq> [] \<Longrightarrow> root_black (plug ctx t) = croot ctx"
  by (induction ctx t rule: plug.induct) (auto split: if_splits)

lemma bal_unique: "bal t n \<Longrightarrow> bal t m \<Longrightarrow> n = m"
  by (induction t arbitrary: n m) (auto; metis)+

lemma ccol_mono: "ccol ctx h \<Longrightarrow> ccol ctx True"
  by (cases ctx rule: top.cases) auto

fun blackened :: "rbt \<Rightarrow> rbt" where
  "blackened Lf = Lf"
| "blackened (Nd c l a r) = Nd True l a r"

lemma blackened_black: "root_black t \<Longrightarrow> blackened t = t"
  by (cases t) simp_all

subsection \<open>The loop\<close>

lemma addrs_plug: "addrs t = addrs u \<Longrightarrow> addrs (plug ctx t) = addrs (plug ctx u)"
proof (induction ctx arbitrary: t u)
  case (Cons f ctx)
  then show ?case by (cases f) simp_all
qed simp

lemma set_addrs_plug: "set (addrs (plug ctx t)) = nodes ctx t"
  by (induction ctx t rule: plug.induct) auto

text \<open>The heap holds a tree that is balanced but for the colour of its root, with the nodes of the tree at the start in their order.\<close>

definition settled :: "rb_root \<Rightarrow> frame list \<Rightarrow> rbt \<Rightarrow> rb_root \<Rightarrow> bool" where
  "settled s ctx t s' \<longleftrightarrow> (\<exists>u. rep s' [] u \<and> addrs u = addrs (plug ctx t) \<and> col_ok (blackened u) \<and> (\<exists>k. bal u k) \<and> same_at s s' (- nodes ctx t))"

definition fcolor :: "frame \<Rightarrow> bool" where
  "fcolor f = (case f of InL c a r \<Rightarrow> c | InR l c a \<Rightarrow> c)"

lemma insert_loop_stop:
  assumes "rep s ctx (Nd False l n r)" "col_ok (Nd False l n r)" "bal (Nd False l n r) k" "cbal ctx k" "ccol ctx True" "croot ctx"
    "ctx = [] \<or> fcolor (hd ctx)"
  shows "insert_loop n s = Some s \<and> settled s ctx (Nd False l n r) s"
proof -
  let ?t = "Nd False l n r"
  obtain nd where nd: "rget n s = Some nd" "par_of nd = top ctx" using rep_read(1) [OF assms(1)] by auto
  have "insert_loop n s = Some s"
  proof (cases "ctx = []")
    case True
    then show ?thesis using nd by (simp add: insert_loop.simps)
  next
    case False
    then obtain f up where f: "ctx = f # up" by (cases ctx) auto
    have "\<exists>pn. rget (top ctx) s = Some pn \<and> is_black pn" "top ctx \<noteq> 0"
      using assms(1,7) f by (cases f; auto simp: rep_def node_is_def rget_def fcolor_def)+
    then show ?thesis using nd by (subst insert_loop.simps) auto
  qed
  moreover have "col_ok (blackened (plug ctx ?t))"
  proof (cases "ctx = []")
    case True
    then show ?thesis using assms(2) by simp
  next
    case False
    then obtain f up where f: "ctx = f # up" by (cases ctx) auto
    have "ccol ctx False" using assms(5,7) f by (cases f) (auto simp: fcolor_def)
    then show ?thesis using assms(2,6) False by (simp add: blackened_black root_plug col_plug)
  qed
  moreover have "\<exists>k. bal (plug ctx ?t) k" using assms(3,4) by (auto simp: bal_plug simp del: bal.simps)
  ultimately show ?thesis using assms(1) rep_plug [of s ctx ?t] unfolding settled_def by (auto simp: same_at_def)
qed

lemma settled_step:
  assumes "settled s1 ctx' t' s'" "addrs (plug ctx' t') = addrs (plug ctx t)" "same_at s s1 (- nodes ctx t)"
  shows "settled s ctx t s'"
proof -
  have n: "nodes ctx' t' = nodes ctx t" using assms(2) set_addrs_plug [of ctx' t'] set_addrs_plug [of ctx t] by simp
  obtain u where u: "rep s' [] u" "addrs u = addrs (plug ctx t)" "col_ok (blackened u)" "\<exists>k. bal u k" "same_at s1 s' (- nodes ctx t)"
    using assms(1,2) n unfolding settled_def by auto
  show ?thesis unfolding settled_def using u(1-4) same_at_trans [OF assms(3) u(5)] by blast
qed

text \<open>The two frames above a red node with a red parent.\<close>

lemma red_parent:
  assumes "ctx \<noteq> []" "\<not> fcolor (hd ctx)" "ccol ctx True" "croot ctx"
  shows "\<exists>f g up. ctx = f # g # up \<and> \<not> fcolor f \<and> fcolor g"
proof -
  obtain f rest where f: "ctx = f # rest" using assms(1) by (cases ctx) auto
  have "rest \<noteq> []" using assms(2,4) f by (cases f) (auto simp: fcolor_def)
  then obtain g up where g: "rest = g # up" by (cases rest) auto
  have "fcolor g" using assms(2,3) f g by (cases f; cases g) (auto simp: fcolor_def)
  then show ?thesis using assms(2) f g by auto
qed

lemma red_frames:
  assumes "ctx \<noteq> []" "\<not> fcolor (hd ctx)" "ccol ctx True" "croot ctx"
  obtains (LL) p q g u up where "ctx = InL False p q # InL True g u # up"
    | (RL) q p g u up where "ctx = InR q False p # InL True g u # up"
    | (LR) p q u g up where "ctx = InL False p q # InR u True g # up"
    | (RR) q p u g up where "ctx = InR q False p # InR u True g # up"
proof -
  obtain f g up where f: "ctx = f # g # up" "\<not> fcolor f" "fcolor g" using red_parent [OF assms] by blast
  then show ?thesis using that by (cases f; cases g) (auto simp: fcolor_def)
qed

lemma insert_loop_L:
  assumes "rep s up (Nd True (Nd False pl p pr) g u)" "rget n s = Some nd" "par_of nd = p"
  shows "insert_loop n s = insert_left n p g s \<bind> (\<lambda>(n, s). insert_loop n s)"
proof -
  obtain gn where gn: "rget g s = Some gn" "rb_left gn = p" using rep_read(1) [OF assms(1)] by auto
  have "rep s (InL True g u # up) (Nd False pl p pr)" using assms(1) by (simp add: rep_InL)
  from rep_read [OF this] obtain pn where pn: "rget p s = Some pn" "par_of pn = g" "\<not> is_black pn" "p \<noteq> 0" by auto
  show ?thesis using gn pn assms(2,3) by (subst insert_loop.simps) (simp add: Let_def)
qed

lemma insert_loop_R:
  assumes "rep s up (Nd True u g (Nd False pl p pr))" "rget n s = Some nd" "par_of nd = p"
  shows "insert_loop n s = insert_right n p g s \<bind> (\<lambda>(n, s). insert_loop n s)"
proof -
  have "ptr u \<noteq> p" using assms(1) ptr_in [of u] by (cases u) (auto simp: rep_def node_is_def)
  then obtain gn where gn: "rget g s = Some gn" "rb_left gn \<noteq> p" using rep_read(1) [OF assms(1)] by auto
  have "rep s (InR u True g # up) (Nd False pl p pr)" using assms(1) by (simp add: rep_InR)
  from rep_read [OF this] obtain pn where pn: "rget p s = Some pn" "par_of pn = g" "\<not> is_black pn" "p \<noteq> 0" by auto
  show ?thesis using gn pn assms(2,3) by (subst insert_loop.simps) (auto simp: Let_def)
qed

lemma red_root: "\<not> root_black u \<Longrightarrow> \<exists>ul a ur. u = Nd False ul a ur"
  by (cases u) auto

text \<open>A red node whose tree is balanced but for a red parent, and a round that goes on further up.\<close>

definition fixing :: "rb_root \<Rightarrow> frame list \<Rightarrow> u32 \<Rightarrow> rbt \<Rightarrow> bool" where
  "fixing s ctx n t \<longleftrightarrow> \<not> root_black t \<and> ptr t = n \<and> rep s ctx t \<and> col_ok t \<and> ccol ctx True \<and> croot ctx \<and> (\<exists>k. bal t k \<and> cbal ctx k)"

definition goes_on :: "rb_root \<Rightarrow> frame list \<Rightarrow> u32 \<Rightarrow> rbt \<Rightarrow> (u32 \<times> rb_root) option \<Rightarrow> bool" where
  "goes_on s ctx n t res \<longleftrightarrow> (\<exists>m s1 ctx' t'. res = Some (m, s1) \<and> fixing s1 ctx' m t' \<and> length ctx' < length ctx
     \<and> addrs (plug ctx' t') = addrs (plug ctx t) \<and> same_at s s1 (- nodes ctx t))"

lemma goes_onI:
  "res = Some (m, s1) \<Longrightarrow> fixing s1 ctx' m t' \<Longrightarrow> length ctx' < length ctx \<Longrightarrow> addrs (plug ctx' t') = addrs (plug ctx t)
    \<Longrightarrow> same_at s s1 (- nodes ctx t) \<Longrightarrow> goes_on s ctx n t res"
  unfolding goes_on_def by blast

lemma round_left_red:
  assumes "fixing s ctx n t" "ctx = InL False p q # InL True g u # up \<or> ctx = InR q False p # InL True g u # up" "\<not> root_black u"
  shows "goes_on s ctx n t (insert_left n p g s)"
proof -
  obtain ul a ur where u: "u = Nd False ul a ur" using red_root [OF assms(3)] by blast
  obtain pl pr where p: "(pl = t \<and> pr = q \<or> pl = q \<and> pr = t)" "plug ctx t = plug up (Nd True (Nd False pl p pr) g u)" using assms(2) by fastforce
  let ?v = "Nd False (Nd True pl p pr) g (Nd True ul a ur)"
  have r: "rep s up (Nd True (Nd False pl p pr) g (Nd False ul a ur))" using assms(1) p(2) u rep_plug [of s ctx t] rep_plug [of s up "Nd True (Nd False pl p pr) g u"] by (simp add: fixing_def)
  obtain s1 where s1: "insert_left n p g s = Some (g, s1)" "rep s1 up ?v" "only_in {a, p, g} s s1" using insert_left_red [OF r] by blast
  show ?thesis
  proof (rule goes_onI [OF s1(1)])
    obtain k where "bal t k" "cbal ctx k" using assms(1) by (auto simp: fixing_def)
    then have "bal ?v (Suc k) \<and> cbal up (Suc k)" using assms(2) p(1) u by auto
    moreover have "col_ok ?v" "ccol up True" "croot up" using assms(1,2) p(1) u unfolding fixing_def by (auto split: if_splits)
    ultimately show "fixing s1 up g ?v" using s1(2) unfolding fixing_def by (auto simp del: bal.simps)
    show "length up < length ctx" using assms(2) by auto
    show "addrs (plug up ?v) = addrs (plug ctx t)" unfolding p(2) u by (rule addrs_plug) simp
    show "same_at s s1 (- nodes ctx t)" using s1(3) set_addrs_plug [of ctx t] set_addrs_plug [of up "Nd True (Nd False pl p pr) g u"]
      unfolding p(2) u by (auto simp: only_in_def same_at_def)
  qed
qed

lemma round_left_outer:
  assumes "fixing s ctx n t" "ctx = InL False p q # InL True g u # up" "root_black u"
  shows "goes_on s ctx n t (insert_left n p g s)"
proof -
  obtain l r where t: "t = Nd False l n r" using assms(1) red_root [of t] by (auto simp: fixing_def)
  have "rep s up (Nd True (Nd False (Nd False l n r) p q) g u)" using assms(1,2) t by (simp add: fixing_def rep_InL)
  from insert_left_outer [OF this assms(3)] obtain s1 where s1: "insert_left n p g s = Some (n, s1)" "rep s1 up (Nd True t p (Nd False q g u))"
    "same_at s s1 (- nodes ctx t)" using assms(2) t by (auto simp: Un_ac insert_commute)
  show ?thesis
  proof (rule goes_onI [OF s1(1)])
    show "fixing s1 (InL True p (Nd False q g u) # up) n t" using assms s1(2) unfolding fixing_def by (auto simp: rep_InL)
    show "addrs (plug (InL True p (Nd False q g u) # up) t) = addrs (plug ctx t)" unfolding assms(2) plug.simps by (rule addrs_plug) simp
  qed (use assms(2) s1(3) in simp_all)
qed

lemma round_left_inner:
  assumes "fixing s ctx n t" "ctx = InR q False p # InL True g u # up" "root_black u"
  shows "goes_on s ctx n t (insert_left n p g s)"
proof -
  obtain l r where t: "t = Nd False l n r" using assms(1) red_root [of t] by (auto simp: fixing_def)
  have "rep s up (Nd True (Nd False q p (Nd False l n r)) g u)" using assms(1,2) t by (simp add: fixing_def rep_InL rep_InR)
  from insert_left_inner [OF this assms(3)] obtain s1 where s1: "insert_left n p g s = Some (p, s1)"
    "rep s1 up (Nd True (Nd False q p l) n (Nd False r g u))" "same_at s s1 (- nodes ctx t)" using assms(2) t by (auto simp: Un_ac insert_commute)
  show ?thesis
  proof (rule goes_onI [OF s1(1)])
    show "fixing s1 (InL True n (Nd False r g u) # up) p (Nd False q p l)" using assms s1(2) unfolding fixing_def t by (auto simp: rep_InL)
    show "addrs (plug (InL True n (Nd False r g u) # up) (Nd False q p l)) = addrs (plug ctx t)"
      unfolding assms(2) t plug.simps by (rule addrs_plug) simp
  qed (use assms(2) s1(3) in simp_all)
qed

lemma round_left:
  assumes "fixing s ctx n t" "ctx = f # InL True g u # up" "\<not> fcolor f"
  shows "goes_on s ctx n t (insert_left n (top ctx) g s)"
proof (cases f)
  case (InL c p q)
  then show ?thesis using assms round_left_red [of s ctx n t p q g u up] round_left_outer [of s ctx n t p q g u up]
    by (cases "root_black u") (auto simp: fcolor_def)
next
  case (InR q c p)
  then show ?thesis using assms round_left_red [of s ctx n t p q g u up] round_left_inner [of s ctx n t q p g u up]
    by (cases "root_black u") (auto simp: fcolor_def)
qed

lemma balance_mir [mirror_simps]:
  "bal (mirt t) n = bal t n" "col_ok (mirt t) = col_ok t" "cbal (map mirf ctx) n = cbal ctx n" "ccol (map mirf ctx) h = ccol ctx h"
  "croot (map mirf ctx) = croot ctx"
proof -
  show b: "bal (mirt t) n = bal t n" for t n by (induction t arbitrary: n) auto
  show c: "col_ok (mirt t) = col_ok t" for t by (induction t) (auto simp: mirror_simps)
  show "cbal (map mirf ctx) n = cbal ctx n" by (induction ctx n rule: cbal.induct) (auto simp: b)
  show "ccol (map mirf ctx) h = ccol ctx h" by (induction ctx h rule: ccol.induct) (auto simp: c mirror_simps)
  show "croot (map mirf ctx) = croot ctx" by (induction ctx rule: croot.induct) auto
qed

lemma fixing_mir [mirror_simps]: "fixing (mir s) (map mirf ctx) n (mirt t) = fixing s ctx n t"
  by (simp add: fixing_def mirror_simps)

lemma nodes_mir: "nodes (map mirf ctx) (mirt t) = nodes ctx t"
  by (simp add: mirror_simps)

lemma goes_on_mir:
  assumes "goes_on (mir s) (map mirf ctx) n (mirt t) (insert_left n p g (mir s))"
  shows "goes_on s ctx n t (insert_right n p g s)"
proof -
  obtain m s1 ctx' t' where g: "insert_left n p g (mir s) = Some (m, s1)" "fixing s1 ctx' m t'" "length ctx' < length ctx"
    "addrs (plug ctx' t') = addrs (mirt (plug ctx t))" "same_at (mir s) s1 (- nodes ctx t)"
    using assms unfolding goes_on_def nodes_mir plug_mir by auto
  obtain s' where s': "insert_right n p g s = Some (m, s')" "s1 = mir s'" using g(1) by (auto simp: insert_mir)
  have c: "map mirf (map mirf ctx') = ctx'" by (simp add: comp_def mirror_simps)
  have "fixing (mir s') (map mirf (map mirf ctx')) m (mirt (mirt t'))" using g(2) s'(2) c by (simp add: mirt_mirt)
  then have "fixing s' (map mirf ctx') m (mirt t')" unfolding fixing_mir .
  moreover have "addrs (plug (map mirf ctx') (mirt t')) = addrs (plug ctx t)" using g(4) by (simp add: mirror_simps)
  ultimately show ?thesis using s' g(3,5) by (intro goes_onI [OF s'(1), of "map mirf ctx'" "mirt t'"]) (auto simp: same_at_mir)
qed

lemma round_right:
  assumes "fixing s ctx n t" "ctx = f # InR u True g # up" "\<not> fcolor f"
  shows "goes_on s ctx n t (insert_right n (top ctx) g s)"
proof (rule goes_on_mir)
  have f: "\<not> fcolor (mirf f)" using assms(3) by (cases f) (auto simp: fcolor_def)
  have m: "fixing (mir s) (map mirf ctx) n (mirt t)" using assms(1) by (simp only: fixing_mir)
  have c: "map mirf ctx = mirf f # InL True g (mirt u) # map mirf up" using assms(2) by simp
  show "goes_on (mir s) (map mirf ctx) n (mirt t) (insert_left n (top ctx) g (mir s))" using round_left [OF m c f] by (simp only: top_mirf)
qed

lemma insert_round:
  assumes "fixing s ctx n t" "ctx \<noteq> []" "\<not> fcolor (hd ctx)"
  shows "\<exists>res. goes_on s ctx n t res \<and> insert_loop n s = res \<bind> (\<lambda>(n, s). insert_loop n s)"
proof -
  have f: "rep s ctx t" "ccol ctx True" "croot ctx" "\<not> root_black t" "ptr t = n" using assms(1) by (auto simp: fixing_def)
  obtain l r where t: "t = Nd False l n r" using red_root [OF f(4)] f(5) by auto
  obtain nd where nd: "rget n s = Some nd" "par_of nd = top ctx" using rep_read(1) f(1) t by blast
  show ?thesis using assms(2,3) f(2,3)
  proof (cases rule: red_frames)
    case (LL p q g u up)
    have "rep s up (Nd True (Nd False t p q) g u)" using f(1) LL by (simp add: rep_InL)
    from insert_loop_L [OF this nd(1)] nd(2) show ?thesis using round_left [OF assms(1) LL] LL by (auto simp: fcolor_def)
  next
    case (RL q p g u up)
    have "rep s up (Nd True (Nd False q p t) g u)" using f(1) RL by (simp add: rep_InL rep_InR)
    from insert_loop_L [OF this nd(1)] nd(2) show ?thesis using round_left [OF assms(1) RL] RL by (auto simp: fcolor_def)
  next
    case (LR p q u g up)
    have "rep s up (Nd True u g (Nd False t p q))" using f(1) LR by (simp add: rep_InL rep_InR)
    from insert_loop_R [OF this nd(1)] nd(2) show ?thesis using round_right [OF assms(1) LR] LR by (auto simp: fcolor_def)
  next
    case (RR q p u g up)
    have "rep s up (Nd True u g (Nd False q p t))" using f(1) RR by (simp add: rep_InR)
    from insert_loop_R [OF this nd(1)] nd(2) show ?thesis using round_right [OF assms(1) RR] RR by (auto simp: fcolor_def)
  qed
qed

lemma insert_loop_settles: "fixing s ctx n t \<Longrightarrow> \<exists>s'. insert_loop n s = Some s' \<and> settled s ctx t s'"
proof (induction ctx arbitrary: s n t rule: length_induct)
  case (1 ctx)
  show ?case
  proof (cases "ctx = [] \<or> fcolor (hd ctx)")
    case True
    obtain l r where t: "t = Nd False l n r" using "1.prems" red_root [of t] by (auto simp: fixing_def)
    obtain k where "bal t k" "cbal ctx k" using "1.prems" by (auto simp: fixing_def)
    then show ?thesis using "1.prems" True insert_loop_stop [of s ctx l n r k] t by (auto simp: fixing_def simp del: bal.simps)
  next
    case False
    then obtain m s1 ctx' t' where g: "fixing s1 ctx' m t'" "length ctx' < length ctx" "addrs (plug ctx' t') = addrs (plug ctx t)"
      "same_at s s1 (- nodes ctx t)" "insert_loop n s = insert_loop m s1"
      using insert_round [OF "1.prems"] unfolding goes_on_def by auto
    then obtain s' where "insert_loop m s1 = Some s'" "settled s1 ctx' t' s'" using "1.IH" by blast
    then show ?thesis using g settled_step by metis
  qed
qed

subsection \<open>Linking a node\<close>

text \<open>The nodes before and behind the hole, and the pointer to the hole.\<close>

fun before :: "frame list \<Rightarrow> u32 list" where
  "before [] = []"
| "before (InL c a r # up) = before up"
| "before (InR l c a # up) = before up @ addrs l @ [a]"

fun after :: "frame list \<Rightarrow> u32 list" where
  "after [] = []"
| "after (InL c a r # up) = a # addrs r @ after up"
| "after (InR l c a # up) = after up"

lemma addrs_around: "addrs (plug ctx t) = before ctx @ addrs t @ after ctx"
  by (induction ctx t rule: plug.induct) simp_all

fun link_of :: "frame list \<Rightarrow> rb_link" where
  "link_of [] = AtRoot"
| "link_of (InL c a r # up) = AtLeft a"
| "link_of (InR l c a # up) = AtRight a"

lemma store_link_ctx:
  assumes "ctx_at s ctx q" "distinct (ctx_addrs ctx)"
  shows "\<exists>s'. store_link (link_of ctx) q' s = Some s' \<and> ctx_at s' ctx q' \<and> same_at s s' (- set (ctx_addrs ctx))"
proof (cases ctx rule: top.cases)
  case (2 c a r up)
  then obtain s' where "set_left a q' s = Some s'" "node_is s' a (top up) c q' (ptr r)" "only_in {a} s s'"
    using assms(1) set_node(1) [of s a "top up" c q "ptr r" q'] by auto
  then show ?thesis using assms 2 by (auto simp: only_in_simps) (auto simp: only_in_def same_at_def)
next
  case (3 l c a up)
  then obtain s' where "set_right a q' s = Some s'" "node_is s' a (top up) c (ptr l) q'" "only_in {a} s s'"
    using assms(1) set_node(2) [of s a "top up" c "ptr l" q q'] by auto
  then show ?thesis using assms 3 by (auto simp: only_in_simps) (auto simp: only_in_def same_at_def)
qed (simp add: same_at_def)

lemma aligned_word: "aligned p \<Longrightarrow> p AND NOT 3 = p \<and> p AND 1 = 0"
  using par_set_parent [of p 0] color_set_parent [of p 0] by simp

lemma link_node_rep:
  assumes "rep s ctx Lf" "n \<noteq> 0" "aligned n" "n \<notin> set (ctx_addrs ctx)" "rs_heap s n \<noteq> None"
  shows "\<exists>s'. rb_link_node n (top ctx) (link_of ctx) s = Some s' \<and> rep s' ctx (Nd False Lf n Lf) \<and> same_at s s' (- insert n (set (ctx_addrs ctx)))"
proof -
  have x: "ctx_at s ctx 0" "distinct (ctx_addrs ctx)" using assms(1) by (simp_all add: rep_def)
  define s1 where "s1 = s\<lparr>rs_heap := (rs_heap s)(n \<mapsto> \<lparr>rb_parent_color = top ctx, rb_right = 0, rb_left = 0\<rparr>)\<rparr>"
  have u: "rupd (\<lambda>nd. \<lparr>rb_parent_color = top ctx, rb_right = 0, rb_left = 0\<rparr>) n s = Some s1"
    using assms(2,5) by (auto simp: rupd_def rget_def s1_def)
  have o: "only_in {n} s s1" by (simp add: only_in_def same_at_def s1_def)
  have n: "node_is s1 n (top ctx) False 0 0"
    using assms(2,3) aligned_word [OF ctx_aligned [OF x(1)]] by (simp add: node_is_def s1_def par_of_def is_black_def)
  have "ctx_at s1 ctx 0" using x(1) o assms(4) by (auto simp: only_in_simps)
  from store_link_ctx [OF this x(2)] obtain s2 where s2: "store_link (link_of ctx) n s1 = Some s2" "ctx_at s2 ctx n" "same_at s1 s2 (- set (ctx_addrs ctx))" by blast
  have "node_is s2 n (top ctx) False 0 0" using n s2(3) assms(4) same_node by blast
  then have "rep s2 ctx (Nd False Lf n Lf)" using s2(2) x(2) assms(4) by (simp add: rep_def)
  moreover have "same_at s s2 (- insert n (set (ctx_addrs ctx)))" using o s2(3) by (auto simp: only_in_def same_at_def)
  ultimately show ?thesis using u s2(1) by (simp add: rb_link_node_def)
qed

lemma fixing_linked:
  assumes "rb_tree (plug ctx Lf)" "rep s ctx (Nd False Lf n Lf)"
  shows "fixing s ctx n (Nd False Lf n Lf)"
proof -
  have "cbal ctx 0" using assms(1) bal_plug [of ctx Lf] by (auto simp: rb_tree_def)
  moreover have "ccol ctx True" using assms(1) col_plug [of ctx Lf] by (auto simp: rb_tree_def)
  moreover have "croot ctx" using assms(1) root_plug [of ctx Lf] by (cases "ctx = []") (auto simp: rb_tree_def)
  ultimately show ?thesis using assms(2) by (auto simp: fixing_def intro: exI [of _ 0])
qed

lemma bal_blackened: "(\<exists>k. bal t k) \<Longrightarrow> \<exists>k. bal (blackened t) k"
  by (cases t) auto

lemma insert_color_rep:
  assumes "fixing s ctx n t"
  shows "\<exists>s' u. rb_insert_color n s = Some s' \<and> rep s' [] u \<and> rb_tree u \<and> addrs u = addrs (plug ctx t) \<and> same_at s s' (- nodes ctx t)"
proof -
  obtain s1 u where s1: "insert_loop n s = Some s1" "rep s1 [] u" "addrs u = addrs (plug ctx t)" "col_ok (blackened u)" "\<exists>k. bal u k" "same_at s s1 (- nodes ctx t)"
    using insert_loop_settles [OF assms] unfolding settled_def by blast
  have "n \<in> nodes ctx t" using assms ptr_in [of t] by (cases t) (auto simp: fixing_def)
  then have "u \<noteq> Lf" using s1(3) set_addrs_plug [of ctx t] by (cases u) auto
  then obtain c l a r where u: "u = Nd c l a r" by (cases u) auto
  obtain s2 where s2: "rb_set_black a s1 = Some s2" "rep s2 [] (Nd True l a r)" "only_in {a} s1 s2" using rep_paint(2) s1(2) u by blast
  have "rs_root s1 = a" using s1(2) u by (simp add: rep_def)
  moreover have "rb_tree (blackened u)" using s1(4) bal_blackened [OF s1(5)] u by (simp add: rb_tree_def)
  moreover have "a \<in> nodes ctx t" using s1(3) u set_addrs_plug [of ctx t] by (metis addrs.simps(2) in_set_conv_decomp)
  moreover from this have "same_at s s2 (- nodes ctx t)" using same_at_trans [OF s1(6) only_in_same [OF s2(3)]] by blast
  ultimately show ?thesis using s1(1,3) s2 u
    by (intro exI [of _ s2] exI [of _ "blackened u"]) (auto simp: rb_insert_color_def)
qed

subsection \<open>Walking\<close>

lemma leftmost_tree: "tree_at s p (Nd c l a r) \<Longrightarrow> leftmost a s = Some (hd (addrs (Nd c l a r)))"
proof (induction l arbitrary: p c a r)
  case Lf
  then show ?case by (subst leftmost.simps) (auto simp: node_is_def rget_def)
next
  case (Nd c' l' a' r')
  have "node_is s a p c a' (ptr r)" "node_is s a' a c' (ptr l') (ptr r')" using Nd.prems by simp_all
  from node_read [OF this(1)] node_address [OF this(2)] obtain nd where "rget a s = Some nd" "rb_left nd = a'" "a' \<noteq> 0" by blast
  moreover have "leftmost a' s = Some (hd (addrs (Nd c' l' a' r')))" using Nd.IH(1) [of a c' a' r'] Nd.prems by simp
  ultimately show ?case by (subst leftmost.simps) (simp add: hd_append)
qed

lemma rightmost_tree: "tree_at s p (Nd c l a r) \<Longrightarrow> rightmost a s = Some (last (addrs (Nd c l a r)))"
proof (induction r arbitrary: p c a l)
  case Lf
  then show ?case by (subst rightmost.simps) (auto simp: node_is_def rget_def)
next
  case (Nd c' l' a' r')
  have "node_is s a p c (ptr l) a'" "node_is s a' a c' (ptr l') (ptr r')" using Nd.prems by simp_all
  from node_read [OF this(1)] node_address [OF this(2)] obtain nd where "rget a s = Some nd" "rb_right nd = a'" "a' \<noteq> 0" by blast
  moreover have "rightmost a' s = Some (last (addrs (Nd c' l' a' r')))" using Nd.IH(2) [of a c' l' a'] Nd.prems by simp
  ultimately show ?case by (subst rightmost.simps) simp
qed

text \<open>The first node of a list, or NULL.\<close>

definition hd0 :: "u32 list \<Rightarrow> u32" where
  "hd0 xs = (case xs of [] \<Rightarrow> 0 | x # _ \<Rightarrow> x)"

lemma hd0_simps [simp]: "hd0 [] = 0" "hd0 (x # xs) = x" "xs \<noteq> [] \<Longrightarrow> hd0 (xs @ ys) = hd0 xs"
  by (simp_all add: hd0_def split: list.splits)

lemma hd0_hd: "xs \<noteq> [] \<Longrightarrow> hd0 xs = hd xs"
  by (cases xs) simp_all

lemma up_right_ctx: "rep s ctx (Nd c l n r) \<Longrightarrow> up_right n s = Some (hd0 (after ctx))"
proof (induction ctx arbitrary: c l n r)
  case Nil
  then show ?case using rep_read(1) [OF Nil] by (subst up_right.simps) auto
next
  case (Cons f up)
  obtain nd where nd: "rget n s = Some nd" "par_of nd = top (f # up)" using rep_read(1) [OF Cons.prems] by auto
  show ?case
  proof (cases f)
    case (InL d a q)
    have q: "rep s up (Nd d (Nd c l n r) a q)" using Cons.prems InL by (simp add: rep_InL)
    have "ptr q \<noteq> n" using q by (cases q) (auto simp: rep_def node_is_def)
    then show ?thesis using nd InL rep_read [OF q] by (subst up_right.simps) auto
  next
    case (InR q d a)
    have q: "rep s up (Nd d q a (Nd c l n r))" using Cons.prems InR by (simp add: rep_InR)
    then have "up_right a s = Some (hd0 (after up))" by (rule Cons.IH)
    then show ?thesis using nd InR rep_read [OF q] by (subst up_right.simps) auto
  qed
qed

lemma up_left_ctx: "rep s ctx (Nd c l n r) \<Longrightarrow> up_left n s = Some (hd0 (rev (before ctx)))"
proof (induction ctx arbitrary: c l n r)
  case Nil
  then show ?case using rep_read(1) [OF Nil] by (subst up_left.simps) auto
next
  case (Cons f up)
  obtain nd where nd: "rget n s = Some nd" "par_of nd = top (f # up)" using rep_read(1) [OF Cons.prems] by auto
  show ?case
  proof (cases f)
    case (InL d a q)
    have q: "rep s up (Nd d (Nd c l n r) a q)" using Cons.prems InL by (simp add: rep_InL)
    then have "up_left a s = Some (hd0 (rev (before up)))" by (rule Cons.IH)
    then show ?thesis using nd InL rep_read [OF q] by (subst up_left.simps) auto
  next
    case (InR q d a)
    have q: "rep s up (Nd d q a (Nd c l n r))" using Cons.prems InR by (simp add: rep_InR)
    have "ptr q \<noteq> n" using q by (cases q) (auto simp: rep_def node_is_def)
    then show ?thesis using nd InR rep_read [OF q] by (subst up_left.simps) auto
  qed
qed

lemma addrs_ptr: "t \<noteq> Lf \<Longrightarrow> addrs t \<noteq> []"
  by (cases t) simp_all

lemma rb_next_ctx:
  assumes "rep s ctx (Nd c l n r)"
  shows "rb_next n s = Some (hd0 (addrs r @ after ctx))"
proof -
  obtain nd where nd: "rget n s = Some nd" "par_of nd = top ctx" "rb_right nd = ptr r" using rep_read(1) [OF assms] by auto
  have "top ctx \<noteq> n" using assms top_in [of ctx] rep_read(2) [OF assms] by (cases "ctx = []") (auto simp: rep_def)
  moreover have "r \<noteq> Lf \<Longrightarrow> leftmost (ptr r) s = Some (hd0 (addrs r)) \<and> ptr r \<noteq> 0"
    using leftmost_tree [of s n] rep_children(2) [OF assms] tree_ptr_0 [of s n r] addrs_ptr [of r] by (cases r) (auto simp: hd0_hd)
  ultimately show ?thesis using nd up_right_ctx [OF assms] addrs_ptr [of r] by (cases "r = Lf") (auto simp: rb_next_def)
qed

lemma rb_prev_ctx:
  assumes "rep s ctx (Nd c l n r)"
  shows "rb_prev n s = Some (hd0 (rev (before ctx @ addrs l)))"
proof -
  obtain nd where nd: "rget n s = Some nd" "par_of nd = top ctx" "rb_left nd = ptr l" using rep_read(1) [OF assms] by auto
  have "top ctx \<noteq> n" using assms top_in [of ctx] rep_read(2) [OF assms] by (cases "ctx = []") (auto simp: rep_def)
  moreover have "l \<noteq> Lf \<Longrightarrow> rightmost (ptr l) s = Some (hd0 (rev (addrs l))) \<and> ptr l \<noteq> 0"
    using rightmost_tree [of s n] rep_children(1) [OF assms] tree_ptr_0 [of s n l] addrs_ptr [of l] by (cases l) (auto simp: hd0_hd hd_rev)
  ultimately show ?thesis using nd up_left_ctx [OF assms] addrs_ptr [of l] by (cases "l = Lf") (auto simp: rb_prev_def)
qed

lemma focus: "n \<in> set (addrs t) \<Longrightarrow> \<exists>ctx c l r. t = plug ctx (Nd c l n r)"
proof -
  have "n \<in> set (addrs t) \<Longrightarrow> \<exists>ctx' c l r. plug ctx t = plug ctx' (Nd c l n r)" for ctx
  proof (induction t arbitrary: ctx)
    case (Nd d l a r)
    then consider "n \<in> set (addrs l)" | "n = a" | "n \<in> set (addrs r)" by auto
    then show ?case
    proof cases
      case 1
      then show ?thesis using Nd.IH(1) [of "InL d a r # ctx"] by simp
    next
      case 2
      then show ?thesis by blast
    next
      case 3
      then show ?thesis using Nd.IH(2) [of "InR l d a # ctx"] by simp
    qed
  qed simp
  from this [of "[]"] show "n \<in> set (addrs t) \<Longrightarrow> ?thesis" by simp
qed

lemma split_unique: "distinct (xs @ n # ys) \<Longrightarrow> xs @ n # ys = us @ n # vs \<Longrightarrow> xs = us \<and> ys = vs"
  by (metis append_Cons_eq_iff distinct.simps(2) distinct_append not_distinct_conv_prefix Int_iff empty_iff list.set_intros(1))

lemma focus_rep:
  assumes "rep s [] t" "addrs t = xs @ n # ys"
  shows "\<exists>ctx c l r. rep s ctx (Nd c l n r) \<and> t = plug ctx (Nd c l n r) \<and> xs = before ctx @ addrs l \<and> ys = addrs r @ after ctx"
proof -
  obtain ctx c l r where t: "t = plug ctx (Nd c l n r)" using focus [of n t] assms(2) by auto
  have "distinct (xs @ n # ys)" using assms by (simp add: rep_def)
  moreover have "xs @ n # ys = (before ctx @ addrs l) @ n # (addrs r @ after ctx)" using assms(2) t by (simp add: addrs_around)
  ultimately show ?thesis using split_unique assms(1) t rep_plug by metis
qed

subsection \<open>Replacing a node\<close>

lemma relink_left_frame:
  assumes "ctx_at s ctx q" "q \<noteq> 0" "q \<notin> set (ctx_addrs ctx)" "distinct (ctx_addrs ctx)"
  shows "\<exists>s'. relink_left (top ctx) q q' s = Some s' \<and> ctx_at s' ctx q' \<and> same_at s s' (- set (ctx_addrs ctx))"
proof (cases "ctx = []")
  case False
  then show ?thesis using relink_left_ctx [OF assms, of q'] top_in [of ctx] by (fastforce simp: same_at_def)
qed (simp add: relink_left_def same_at_def)

lemma replace_node_rep:
  assumes "rep s ctx (Nd c l n r)" "m \<noteq> 0" "aligned m" "m \<notin> nodes ctx (Nd c l n r)" "rs_heap s m \<noteq> None"
  shows "\<exists>s'. rb_replace_node n m s = Some s' \<and> rep s' ctx (Nd c l m r) \<and> same_at s s' (- insert m (nodes ctx (Nd c l n r)))"
proof -
  have d: "distinct (addrs l @ n # addrs r @ ctx_addrs ctx)" and x: "ctx_at s ctx n" and l: "tree_at s n l" and r: "tree_at s n r"
    using assms(1) by (simp_all add: rep_def)
  obtain vn where vn: "rget n s = Some vn" "par_of vn = top ctx" "is_black vn = c" "rb_left vn = ptr l" "rb_right vn = ptr r" using rep_read(1) [OF assms(1)] by blast
  have n0: "n \<noteq> 0" using rep_read(2) [OF assms(1)] .
  obtain s1 where s1: "relink_left (top ctx) n m s = Some s1" "ctx_at s1 ctx m" "same_at s s1 (- set (ctx_addrs ctx))"
    using relink_left_frame [OF x n0, of m] d by auto
  have "tree_at s1 n l" using l s1(3) d by (subst same_tree) auto
  then obtain s2 where s2: "set_parent_opt (ptr l) m s1 = Some s2" "tree_at s2 m l" "only_in (set (addrs l)) s1 s2"
    using set_parent_opt_tree [OF _ assms(3), of s1 n l] d by (auto simp: only_in_def)
  have "tree_at s2 n r" using r s1(3) s2(3) d same_tree [of s s1 "set (ctx_addrs ctx)" r n] by (subst only_in_tree [OF s2(3)]) auto
  then obtain s3 where s3: "set_parent_opt (ptr r) m s2 = Some s3" "tree_at s3 m r" "only_in (set (addrs r)) s2 s3"
    using set_parent_opt_tree [OF _ assms(3), of s2 n r] d by (auto simp: only_in_def)
  have rd: "rget n s1 = Some vn" "rget n s2 = Some vn" "rget n s3 = Some vn"
    using vn(1) n0 s1(3) s2(3) s3(3) d by (auto simp: rget_def same_at_def only_in_def)
  have hm: "rs_heap s3 m = rs_heap s m" using assms(4) s1(3) s2(3) s3(3) by (auto simp: same_at_def only_in_def)
  define s4 where "s4 = s3\<lparr>rs_heap := (rs_heap s3)(m \<mapsto> vn)\<rparr>"
  have s4: "rupd (\<lambda>nd. vn) m s3 = Some s4" "only_in {m} s3 s4" using assms(2,5) hm by (auto simp: rupd_def rget_def s4_def only_in_def same_at_def)
  have "node_is s4 m (top ctx) c (ptr l) (ptr r)" using vn assms(2,3) by (simp add: node_is_def s4_def)
  moreover have "tree_at s4 m l" "tree_at s4 m r" using s2(2) s3(2,3) s4(2) assms(4) d by (auto simp: only_in_simps Int_Un_distrib Int_commute)
  moreover have "ctx_at s4 ctx m" using s1(2) s2(3) s3(3) s4(2) assms(4) d by (auto simp: only_in_simps Int_Un_distrib Int_commute)
  ultimately have "rep s4 ctx (Nd c l m r)" using d assms(4) by (auto simp: rep_def)
  moreover have "rb_replace_node n m s = Some s4" using vn rd s1(1) s2(1) s3(1) s4(1) by (simp add: rb_replace_node_def)
  moreover have "same_at s s4 (- insert m (nodes ctx (Nd c l n r)))" using s1(3) s2(3) s3(3) s4(2) by (auto simp: same_at_def only_in_def)
  ultimately show ?thesis by blast
qed

lemma link_insert_rep:
  assumes "rep s ctx Lf" "rb_tree (plug ctx Lf)" "n \<noteq> 0" "aligned n" "n \<notin> set (ctx_addrs ctx)" "rs_heap s n \<noteq> None"
  shows "\<exists>s1 s2 u. rb_link_node n (top ctx) (link_of ctx) s = Some s1 \<and> rb_insert_color n s1 = Some s2 \<and> rep s2 [] u \<and> rb_tree u
    \<and> addrs u = before ctx @ n # after ctx \<and> same_at s s2 (- insert n (set (ctx_addrs ctx)))"
proof -
  from link_node_rep [OF assms(1,3-6)] obtain s1 where s1: "rb_link_node n (top ctx) (link_of ctx) s = Some s1"
    "rep s1 ctx (Nd False Lf n Lf)" "same_at s s1 (- insert n (set (ctx_addrs ctx)))" by blast
  have "fixing s1 ctx n (Nd False Lf n Lf)" using fixing_linked assms(2) s1(2) by blast
  from insert_color_rep [OF this] obtain s2 u where s2: "rb_insert_color n s1 = Some s2" "rep s2 [] u" "rb_tree u"
    "addrs u = addrs (plug ctx (Nd False Lf n Lf))" "same_at s1 s2 (- nodes ctx (Nd False Lf n Lf))" by blast
  have "same_at s s2 (- insert n (set (ctx_addrs ctx)))" using same_at_trans [OF s1(3)] s2(5) by (simp add: insert_commute)
  then show ?thesis using s1(1) s2(1-4) addrs_around [of ctx "Nd False Lf n Lf"] by auto
qed

subsection \<open>Properties\<close>

text \<open>C7. Inserting into a red-black tree: when a new node is linked into the empty place that a context gives, between the nodes \<open>before ctx\<close> and \<open>after ctx\<close>, the rebalancing ends without a
  fault, the pointers again form a red-black tree (a black root, no red node with a red child, equal black heights), its nodes are the old ones and the new one in their order, and no memory
  outside them changes.\<close>

theorem rb_insert_balances:
  assumes "rep s [] t" "rb_tree t" "t = plug ctx Lf" "n \<noteq> 0" "aligned n" "n \<notin> set (addrs t)" "rs_heap s n \<noteq> None"
  shows "\<exists>s1 s2 u. rb_link_node n (top ctx) (link_of ctx) s = Some s1 \<and> rb_insert_color n s1 = Some s2 \<and> rep s2 [] u \<and> rb_tree u
    \<and> addrs t = before ctx @ after ctx \<and> addrs u = before ctx @ n # after ctx \<and> same_at s s2 (- insert n (set (addrs t)))"
proof -
  have "set (ctx_addrs ctx) = set (addrs t)" using set_addrs_plug [of ctx Lf] assms(3) by simp
  moreover have "rep s ctx Lf" using assms(1,3) rep_plug [of s ctx Lf] by simp
  ultimately show ?thesis using link_insert_rep [of s ctx n] addrs_around [of ctx Lf] assms(2-7) by auto
qed

text \<open>Walking a tree: \<open>rb_first\<close> and \<open>rb_last\<close> return the ends of the order of the nodes, or NULL for an empty tree, and \<open>rb_next\<close> and \<open>rb_prev\<close> return the neighbours of a node in it, or NULL at the
  ends; all the walks end.\<close>

theorem rb_walks_in_order:
  assumes "rep s [] t" "addrs t = xs @ n # ys"
  shows "rb_first s = Some (hd (xs @ n # ys)) \<and> rb_last s = Some (last (xs @ n # ys))
    \<and> rb_next n s = Some (hd0 ys) \<and> rb_prev n s = Some (hd0 (rev xs))"
proof -
  obtain c l a r where t: "t = Nd c l a r" using assms(2) by (cases t) auto
  have root: "rs_root s = a" "a \<noteq> 0" "tree_at s 0 (Nd c l a r)" using assms(1) t by (auto simp: rep_def node_is_def)
  have e: "addrs (Nd c l a r) = xs @ n # ys" using assms(2) t by simp
  have "rb_first s = Some (hd (xs @ n # ys))" "rb_last s = Some (last (xs @ n # ys))"
    using leftmost_tree [OF root(3)] rightmost_tree [OF root(3)] root(1,2) unfolding e rb_first_def rb_last_def by simp_all
  moreover obtain ctx c' l' r' where f: "rep s ctx (Nd c' l' n r')" "xs = before ctx @ addrs l'" "ys = addrs r' @ after ctx"
    using focus_rep [OF assms] by blast
  ultimately show ?thesis using rb_next_ctx [OF f(1)] rb_prev_ctx [OF f(1)] by simp
qed

text \<open>A heap with one free node at address 4 and an empty tree; and with a tree of two nodes.\<close>

definition heap_example :: rb_root where
  "heap_example = \<lparr>rs_heap = [4 \<mapsto> \<lparr>rb_parent_color = 0, rb_right = 0, rb_left = 0\<rparr>], rs_root = 0\<rparr>"

definition pair_example :: rb_root where
  "pair_example = \<lparr>rs_heap = [4 \<mapsto> \<lparr>rb_parent_color = 1, rb_right = 8, rb_left = 0\<rparr>, 8 \<mapsto> \<lparr>rb_parent_color = 4, rb_right = 0, rb_left = 0\<rparr>],
     rs_root = 4\<rparr>"

lemma pair_example_rep: "rep pair_example [] (Nd True Lf 4 (Nd False Lf 8 Lf))"
  by (simp add: rep_def node_is_def pair_example_def aligned_def par_of_def is_black_def)

theorem rb_insert_balances_witness:
  "\<exists>s1 s2 u. rb_link_node 4 0 AtRoot heap_example = Some s1 \<and> rb_insert_color 4 s1 = Some s2 \<and> rep s2 [] u \<and> rb_tree u \<and> addrs u = [4]"
  using rb_insert_balances [of heap_example Lf "[]" 4] by (auto simp: rep_def heap_example_def rb_tree_def aligned_def)

theorem rb_walks_in_order_witness:
  "rb_first pair_example = Some 4 \<and> rb_last pair_example = Some 8 \<and> rb_next 4 pair_example = Some 8 \<and> rb_prev 4 pair_example = Some 0"
  using rb_walks_in_order [OF pair_example_rep, of "[]" 4 "[8]"] by simp

end
