(* ===== verification/RbErase.thy ===== *)
theory RbErase
  imports RbInsert
begin

text \<open>
  Removal from red-black trees: what unlinking a node leaves, what one round of the loop does to a tree that lacks one black node on the path to the hole, that the loop ends, and that the result is
  a red-black tree without the node; and the sequences of insertions, removals and replacements.
\<close>

subsection \<open>One round\<close>

lemma rep_nodes: "rep s ctx t \<Longrightarrow> rep s' ctx' t' \<Longrightarrow> addrs (plug ctx t) = addrs (plug ctx' t') \<Longrightarrow> nodes ctx t = nodes ctx' t'"
  using set_addrs_plug [of ctx t] set_addrs_plug [of ctx' t'] by simp

lemma sibling_black:
  assumes "rep s up (Nd c t p (Nd True ol q qr))"
  shows "sibling_right p s = Some (q, s)"
proof -
  have "rep s (InR t c p # up) (Nd True ol q qr)" using assms by (simp add: rep_InR)
  from rep_read(1) [OF this] rep_read(1) [OF assms] show ?thesis by (auto simp: sibling_right_def)
qed

lemma sibling_red:
  assumes "rep s up (Nd c t p (Nd False a w b))"
  shows "\<exists>s'. sibling_right p s = Some (ptr a, s') \<and> rep s' up (Nd True (Nd False t p a) w b) \<and> same_at s s' (- nodes up (Nd c t p (Nd False a w b)))"
proof -
  have "rep s (InR t c p # up) (Nd False a w b)" using assms by (simp add: rep_InR)
  from rep_read(1) [OF this] rep_read(1) [OF assms] obtain pn wn where rd: "rget p s = Some pn" "rb_right pn = w" "rget w s = Some wn" "\<not> is_black wn" by auto
  obtain s1 where s1: "rb_set_black w s = Some s1" "rep s1 up (Nd c t p (Nd True a w b))" "only_in {w} s s1" using rep_paint_R(2) [OF assms] by blast
  obtain s2 where s2: "rb_set_red p s1 = Some s2" "rep s2 up (Nd False t p (Nd True a w b))" "only_in {p} s1 s2" using rep_paint(1) [OF s1(2)] by blast
  obtain s3 where s3: "rb_rotate_left p s2 = Some s3" "rep s3 up (Nd True (Nd False t p a) w b)" "same_at s2 s3 (- nodes up (Nd c t p (Nd False a w b)))"
    using rotate_left_rep [OF s2(2)] by (auto simp: Un_assoc)
  have "rep s3 (InL True w b # up) (Nd False t p a)" using s3(2) by (simp add: rep_InL)
  from rep_read(1) [OF this] obtain pn' where "rget p s3 = Some pn'" "rb_right pn' = ptr a" by auto
  moreover have "same_at s s2 (- nodes up (Nd c t p (Nd False a w b)))" using s1(3) s2(3) by (auto simp: only_in_def same_at_def)
  ultimately show ?thesis using rd s1(1) s2(1) s3 same_at_trans by (auto simp: sibling_right_def)
qed

lemma last_left_rep:
  assumes "rep s up (Nd c t p (Nd d ol q (Nd e x r y)))"
  shows "\<exists>s'. last_left p q s = Some s' \<and> rep s' up (Nd c (Nd True t p ol) q (Nd True x r y))
    \<and> same_at s s' (- nodes up (Nd c t p (Nd d ol q (Nd e x r y))))"
proof -
  obtain pn where pn: "rget p s = Some pn" "is_black pn = c" using rep_read(1) [OF assms] by auto
  obtain s1 where s1: "rb_set_color q c s = Some s1" "rep s1 up (Nd c t p (Nd c ol q (Nd e x r y)))" "only_in {q} s s1" using rep_paint_R(3) [OF assms] by blast
  obtain s2 where s2: "rb_set_black p s1 = Some s2" "rep s2 up (Nd True t p (Nd c ol q (Nd e x r y)))" "only_in {p} s1 s2" using rep_paint(2) [OF s1(2)] by blast
  have f: "rep s2 (InR t True p # up) (Nd c ol q (Nd e x r y))" using s2(2) by (simp add: rep_InR)
  from rep_read(1) [OF f] obtain qn where qn: "rget q s2 = Some qn" "rb_right qn = r" by auto
  obtain s3 where s3: "rb_set_black r s2 = Some s3" "rep s3 (InR t True p # up) (Nd c ol q (Nd True x r y))" "only_in {r} s2 s3" using rep_paint_R(2) [OF f] by blast
  then have "rep s3 up (Nd True t p (Nd c ol q (Nd True x r y)))" by (simp add: rep_InR)
  from rotate_left_rep [OF this] obtain s4 where s4: "rb_rotate_left p s3 = Some s4" "rep s4 up (Nd c (Nd True t p ol) q (Nd True x r y))"
    "same_at s3 s4 (- nodes up (Nd c t p (Nd d ol q (Nd e x r y))))" by (auto simp: Un_assoc)
  have "same_at s s3 (- nodes up (Nd c t p (Nd d ol q (Nd e x r y))))" using s1(3) s2(3) s3(3) by (auto simp: only_in_def same_at_def)
  then show ?thesis using pn qn s1(1) s2(1) s3(1) s4 same_at_trans by (auto simp: last_left_def)
qed

lemma children_black_rep:
  assumes "rep s ctx (Nd c l a r)"
  shows "\<exists>nd. rget a s = Some nd \<and> rb_left nd = ptr l \<and> rb_right nd = ptr r \<and> children_black nd s = Some (root_black l, root_black r)"
  using rep_read(1) [OF assms] black_or_null_tree [OF rep_children(1) [OF assms]] black_or_null_tree [OF rep_children(2) [OF assms]]
  by (auto simp: children_black_def)

lemma fix_left_red:
  assumes "rep s up (Nd c t p (Nd True ol q qr))" "root_black ol" "root_black qr"
  shows "\<exists>s'. fix_left p q s = Some (False, p, top up, s') \<and> rep s' up (Nd c t p (Nd False ol q qr)) \<and> same_at s s' (- nodes up (Nd c t p (Nd True ol q qr)))"
proof -
  have f: "rep s (InR t c p # up) (Nd True ol q qr)" using assms(1) by (simp add: rep_InR)
  obtain s1 where s1: "rb_set_red q s = Some s1" "rep s1 up (Nd c t p (Nd False ol q qr))" "only_in {q} s s1" using rep_paint_R(1) [OF assms(1)] by blast
  obtain pn where pn: "rget p s1 = Some pn" "par_of pn = top up" using rep_read(1) [OF s1(2)] by auto
  show ?thesis using children_black_rep [OF f] assms(2,3) s1 pn by (auto simp: fix_left_def only_in_def same_at_def)
qed

lemma fix_left_far:
  assumes "rep s up (Nd c t p (Nd True ol q (Nd False x r y)))"
  shows "\<exists>s'. fix_left p q s = Some (True, rs_root s', p, s') \<and> rep s' up (Nd c (Nd True t p ol) q (Nd True x r y))
    \<and> same_at s s' (- nodes up (Nd c t p (Nd True ol q (Nd False x r y))))"
proof -
  have f: "rep s (InR t c p # up) (Nd True ol q (Nd False x r y))" using assms by (simp add: rep_InR)
  show ?thesis using children_black_rep [OF f] last_left_rep [OF assms] by (auto simp: fix_left_def)
qed

lemma fix_left_near:
  assumes "rep s up (Nd c t p (Nd True (Nd False x l y) q qr))" "root_black qr"
  shows "\<exists>s'. fix_left p q s = Some (True, rs_root s', p, s') \<and> rep s' up (Nd c (Nd True t p x) l (Nd True y q qr))
    \<and> same_at s s' (- nodes up (Nd c t p (Nd True (Nd False x l y) q qr)))"
proof -
  let ?n = "- nodes up (Nd c t p (Nd True (Nd False x l y) q qr))"
  have f: "rep s (InR t c p # up) (Nd True (Nd False x l y) q qr)" using assms(1) by (simp add: rep_InR)
  obtain qn where qn: "rget q s = Some qn" "rb_left qn = l" "children_black qn s = Some (False, True)" using children_black_rep [OF f] assms(2) by auto
  from paint_rotate_right [OF f] obtain s1 s2 s3 where s: "rb_set_black l s = Some s1" "rb_set_red q s1 = Some s2" "rb_rotate_right q s2 = Some s3"
    "rep s3 (InR t c p # up) (Nd True x l (Nd False y q qr))" "same_at s s3 ?n" by (auto simp: insert_commute Un_ac)
  have r3: "rep s3 up (Nd c t p (Nd True x l (Nd False y q qr)))" using s(4) by (simp add: rep_InR)
  obtain pn where pn: "rget p s3 = Some pn" "rb_right pn = l" using rep_read(1) [OF r3] by auto
  from last_left_rep [OF r3] obtain s4 where s4: "last_left p l s3 = Some s4" "rep s4 up (Nd c (Nd True t p x) l (Nd True y q qr))" "same_at s3 s4 ?n"
    by (auto simp: insert_commute Un_ac)
  show ?thesis using qn s(1-3) pn s4(1,2) same_at_trans [OF s(5) s4(3)] by (auto simp: fix_left_def)
qed

subsection \<open>Trees that lack a black node\<close>

text \<open>Every path through \<open>t\<close> has one black node too few; the tree is a red-black tree but for that and for the colour of \<open>t\<close>.\<close>

definition lacking :: "rb_root \<Rightarrow> frame list \<Rightarrow> u32 \<Rightarrow> rbt \<Rightarrow> bool" where
  "lacking s ctx n t \<longleftrightarrow> rep s ctx t \<and> ptr t = n \<and> col_ok (blackened t) \<and> ccol ctx True \<and> croot ctx \<and> (\<exists>k. bal t k \<and> cbal ctx (Suc k))"

text \<open>Painting the node black finishes the work.\<close>

definition mended :: "rb_root \<Rightarrow> frame list \<Rightarrow> u32 \<Rightarrow> rbt \<Rightarrow> bool" where
  "mended s ctx n t \<longleftrightarrow> rep s ctx t \<and> ptr t = n \<and> rb_tree (plug ctx (blackened t))"

text \<open>A round either finishes or goes on with a tree that lacks a black node.\<close>

definition mends :: "(frame list \<Rightarrow> rbt \<Rightarrow> bool) \<Rightarrow> rb_root \<Rightarrow> frame list \<Rightarrow> rbt \<Rightarrow> (bool \<times> u32 \<times> u32 \<times> rb_root) option \<Rightarrow> bool" where
  "mends G s ctx t res \<longleftrightarrow> (\<exists>d m par s1 ctx' t'. res = Some (d, m, par, s1) \<and> addrs (plug ctx' t') = addrs (plug ctx t) \<and> same_at s s1 (- nodes ctx t)
     \<and> (if d then mended s1 ctx' m t' else lacking s1 ctx' m t' \<and> par = top ctx' \<and> G ctx' t'))"

lemma mendsI:
  "res = Some (d, m, par, s1) \<Longrightarrow> addrs (plug ctx' t') = addrs (plug ctx t) \<Longrightarrow> same_at s s1 (- nodes ctx t)
    \<Longrightarrow> (d \<Longrightarrow> mended s1 ctx' m t') \<Longrightarrow> (\<not> d \<Longrightarrow> lacking s1 ctx' m t' \<and> par = top ctx' \<and> G ctx' t') \<Longrightarrow> mends G s ctx t res"
  unfolding mends_def by (cases d) auto

lemma mends_finished:
  assumes "res = Some (True, rs_root s1, par, s1)" "rep s1 up v" "addrs v = addrs w" "plug ctx t = plug up w" "same_at s s1 (- nodes up w)"
    "bal v k" "cbal up k" "col_ok v" "ccol up (root_black v)" "if up = [] then root_black v else croot up"
  shows "mends G s ctx t res"
proof (rule mendsI [OF assms(1), of "[]" "plug up v"])
  have r: "rep s1 [] (plug up v)" using assms(2) rep_plug [of s1 up v] by simp
  have b: "root_black (plug up v)" using assms(10) root_plug [of up v] by (cases "up = []") auto
  have "rb_tree (plug up v)" using b assms(6-9) col_plug [of up v] bal_plug [of up v] by (auto simp: rb_tree_def)
  then show "mended s1 [] (rs_root s1) (plug up v)" using r b by (auto simp: mended_def blackened_black rep_def)
  show "addrs (plug [] (plug up v)) = addrs (plug ctx t)" using addrs_plug [OF assms(3)] assms(4) by simp
  have "nodes up w = nodes ctx t" using set_addrs_plug [of ctx t] set_addrs_plug [of up w] assms(4) by simp
  then show "same_at s s1 (- nodes ctx t)" using assms(5) by (simp only:)
qed simp_all

lemma fix_left_mends:
  assumes "lacking s (InL c p (Nd True ol q qr) # up) n t" "root_black t"
  shows "mends (\<lambda>ctx' t'. ctx' = up \<and> root_black t' = c) s (InL c p (Nd True ol q qr) # up) t (fix_left p q s)"
proof -
  let ?v = "Nd c t p (Nd True ol q qr)"
  obtain k where k: "bal t k" "bal ol k" "bal qr k" "cbal up (if c then Suc (Suc k) else Suc k)"
    using assms(1) by (auto simp: lacking_def dest: bal_unique split: if_splits)
  have r: "rep s up ?v" using assms(1) by (simp add: lacking_def rep_InL)
  have c: "col_ok t" "col_ok ol" "col_ok qr" "ccol up c" "if up = [] then c else croot up"
    using assms by (simp_all add: lacking_def blackened_black)
  consider (red) "root_black ol" "root_black qr" | (far) x b y where "qr = Nd False x b y" | (near) x b y where "ol = Nd False x b y" "root_black qr"
    using red_root [of ol] red_root [of qr] by blast
  then show ?thesis
  proof cases
    case red
    from fix_left_red [OF r red] obtain s1 where s1: "fix_left p q s = Some (False, p, top up, s1)" "rep s1 up (Nd c t p (Nd False ol q qr))"
      "same_at s s1 (- nodes up ?v)" by blast
    show ?thesis
    proof (rule mendsI [OF s1(1), of up "Nd c t p (Nd False ol q qr)"])
      have "bal (Nd c t p (Nd False ol q qr)) (if c then Suc k else k)" using k by auto
      then have "lacking s1 up p (Nd c t p (Nd False ol q qr))" using s1(2) c red k(4) assms(2) ccol_mono [OF c(4)]
        unfolding lacking_def by (cases c) (auto simp del: bal.simps split: if_splits)
      then show "lacking s1 up p (Nd c t p (Nd False ol q qr)) \<and> top up = top up \<and> up = up \<and> root_black (Nd c t p (Nd False ol q qr)) = c" by simp
      show "addrs (plug up (Nd c t p (Nd False ol q qr))) = addrs (plug (InL c p (Nd True ol q qr) # up) t)" unfolding plug.simps by (rule addrs_plug) simp
    qed (use s1(3) in \<open>simp_all add: Un_ac insert_commute\<close>)
  next
    case (far x b y)
    from fix_left_far [of s up c t p ol q x b y] r far obtain s1 where s1: "fix_left p q s = Some (True, rs_root s1, p, s1)"
      "rep s1 up (Nd c (Nd True t p ol) q (Nd True x b y))" "same_at s s1 (- nodes up ?v)" by blast
    show ?thesis
    proof (rule mends_finished [OF s1(1,2), where w = ?v])
      show "bal (Nd c (Nd True t p ol) q (Nd True x b y)) (if c then Suc (Suc k) else Suc k)" using k far by auto
    qed (use s1(3) k(4) c far in \<open>simp_all add: Un_ac insert_commute\<close>)
  next
    case (near x b y)
    from fix_left_near [of s up c t p x b y q qr] r near obtain s1 where s1: "fix_left p q s = Some (True, rs_root s1, p, s1)"
      "rep s1 up (Nd c (Nd True t p x) b (Nd True y q qr))" "same_at s s1 (- nodes up ?v)" by blast
    show ?thesis
    proof (rule mends_finished [OF s1(1,2), where w = ?v])
      show "bal (Nd c (Nd True t p x) b (Nd True y q qr)) (if c then Suc (Suc k) else Suc k)" using k near by auto
    qed (use s1(3) k(4) c near in \<open>simp_all add: Un_ac insert_commute\<close>)
  qed
qed

lemma bal_Suc: "bal w (Suc k) \<Longrightarrow> \<exists>c l a r. w = Nd c l a r"
  by (cases w) auto

lemma mends_after:
  assumes "mends G s1 ctx1 t res" "plug ctx1 t = v" "addrs v = addrs (plug ctx t)" "same_at s s1 (- nodes ctx t)"
    "\<And>ctx' t'. G ctx' t' \<Longrightarrow> H ctx' t'"
  shows "mends H s ctx t res"
proof -
  have n: "nodes ctx1 t = nodes ctx t" using assms(2,3) set_addrs_plug [of ctx1 t] set_addrs_plug [of ctx t] by simp
  obtain d m par s2 ctx' t' where r: "res = Some (d, m, par, s2)" "addrs (plug ctx' t') = addrs (plug ctx t)" "same_at s1 s2 (- nodes ctx t)"
    "if d then mended s2 ctx' m t' else lacking s2 ctx' m t' \<and> par = top ctx' \<and> G ctx' t'"
    using assms(1-3) n unfolding mends_def by auto
  show ?thesis using r assms(5) same_at_trans [OF assms(4) r(3)] by (intro mendsI [OF r(1,2)]) (auto split: if_splits)
qed

text \<open>What the loop goes on with: a smaller context, or a red node, which ends it.\<close>

abbreviation smaller :: "frame list \<Rightarrow> frame list \<Rightarrow> rbt \<Rightarrow> bool" where
  "smaller ctx ctx' t' \<equiv> length ctx' < length ctx \<or> \<not> root_black t'"

lemma erase_left_mends:
  assumes "lacking s (InL c p w # up) n t" "root_black t"
  shows "mends (smaller (InL c p w # up)) s (InL c p w # up) t (erase_left p s)"
proof -
  have r: "rep s up (Nd c t p w)" using assms(1) by (simp add: lacking_def rep_InL)
  obtain k where k: "bal t k" "bal w (Suc k)" "cbal up (if c then Suc (Suc k) else Suc k)" using assms(1) by (auto simp: lacking_def)
  obtain b ol q qr where w: "w = Nd b ol q qr" using bal_Suc [OF k(2)] by blast
  show ?thesis
  proof (cases b)
    case True
    then have "erase_left p s = fix_left p q s" using sibling_black [of s up c t p ol q qr] r w by (simp add: erase_left_def)
    then show ?thesis using fix_left_mends [of s c p ol q qr up n t] assms w True by (auto intro: mends_after simp: same_at_def)
  next
    case False
    have c: c "root_black ol" "col_ok ol" "col_ok qr" "ccol up True" "croot up" "col_ok t" using assms w False by (auto simp: lacking_def blackened_black split: if_splits)
    have "bal ol (Suc k)" "bal qr (Suc k)" using k(2) w False by auto
    then obtain xl x xr where ol: "ol = Nd True xl x xr" using bal_Suc [of ol k] c(2) by auto
    from sibling_red [of s up c t p ol q qr] r w False ol obtain s1 where s1: "sibling_right p s = Some (x, s1)"
      "rep s1 up (Nd True (Nd False t p ol) q qr)" "same_at s s1 (- nodes up (Nd c t p w))" by auto
    let ?ctx = "InL False p (Nd True xl x xr) # InL True q qr # up"
    have "lacking s1 ?ctx n t"
      using assms(1) s1(2) c k \<open>bal ol (Suc k)\<close> \<open>bal qr (Suc k)\<close> unfolding lacking_def ol by (auto simp: rep_InL simp del: bal.simps)
    from fix_left_mends [OF this assms(2)] have m: "mends (\<lambda>ctx' t'. ctx' = InL True q qr # up \<and> root_black t' = False) s1 ?ctx t (erase_left p s)"
      using s1(1) by (simp add: erase_left_def)
    show ?thesis
    proof (rule mends_after [OF m refl])
      show "addrs (plug ?ctx t) = addrs (plug (InL c p w # up) t)" unfolding plug.simps w ol by (rule addrs_plug) simp
    qed (use s1(3) in \<open>simp_all add: Un_ac insert_commute\<close>)
  qed
qed

lemma map_mirf_twice [simp]: "map mirf (map mirf ctx) = ctx"
  by (simp add: comp_def mirror_simps)

lemma blackened_mir [mirror_simps]: "blackened (mirt t) = mirt (blackened t)"
  by (cases t) simp_all

lemma lacking_mir [mirror_simps]: "lacking (mir s) (map mirf ctx) n (mirt t) = lacking s ctx n t"
  by (simp add: lacking_def mirror_simps)

lemma mended_mir [mirror_simps]: "mended (mir s) (map mirf ctx) n (mirt t) = mended s ctx n t"
  by (simp add: mended_def mirror_simps rb_tree_def)

lemma mends_mir:
  assumes "mends (smaller ctx) (mir s) (map mirf ctx) (mirt t) (erase_left p (mir s))"
  shows "mends (smaller ctx) s ctx t (erase_right p s)"
proof -
  obtain d m par s1 ctx' t' where r: "erase_left p (mir s) = Some (d, m, par, s1)" "addrs (plug ctx' t') = addrs (mirt (plug ctx t))"
    "same_at (mir s) s1 (- nodes ctx t)" "if d then mended s1 ctx' m t' else lacking s1 ctx' m t' \<and> par = top ctx' \<and> smaller ctx ctx' t'"
    using assms unfolding mends_def nodes_mir plug_mir by blast
  obtain s' where s': "erase_right p s = Some (d, m, par, s')" "s1 = mir s'" using r(1) by (auto simp: erase_mir)
  have e: "mended s' (map mirf ctx') m (mirt t') = mended s1 ctx' m t'" "lacking s' (map mirf ctx') m (mirt t') = lacking s1 ctx' m t'"
    using mended_mir [of s' "map mirf ctx'" m "mirt t'"] lacking_mir [of s' "map mirf ctx'" m "mirt t'"] s'(2) unfolding map_mirf_twice mirt_mirt by simp_all
  show ?thesis
  proof (rule mendsI [OF s'(1), of "map mirf ctx'" "mirt t'"])
    show "addrs (plug (map mirf ctx') (mirt t')) = addrs (plug ctx t)" using r(2) by (simp add: mirror_simps)
    show "same_at s s' (- nodes ctx t)" using r(3) s'(2) by (simp only: same_at_mir)
  qed (use r(4) in \<open>auto simp: e mirror_simps\<close>)
qed

lemma erase_right_mends:
  assumes "lacking s (InR w c p # up) n t" "root_black t"
  shows "mends (smaller (InR w c p # up)) s (InR w c p # up) t (erase_right p s)"
proof (rule mends_mir)
  have "lacking (mir s) (InL c p (mirt w) # map mirf up) n (mirt t)" using assms(1) lacking_mir [of s "InR w c p # up" n t] by simp
  from erase_left_mends [OF this] assms(2)
  show "mends (smaller (InR w c p # up)) (mir s) (map mirf (InR w c p # up)) (mirt t) (erase_left p (mir s))" by (simp add: mirror_simps)
qed

subsection \<open>The loop of removal\<close>

lemma plug_ptr_in: "ctx \<noteq> [] \<Longrightarrow> ptr (plug ctx t) \<in> set (ctx_addrs ctx)"
proof (induction ctx t rule: plug.induct)
  case (2 c a r up t)
  then show ?case by (cases "up = []") auto
next
  case (3 l c a up t)
  then show ?case by (cases "up = []") auto
qed simp

lemma erase_loop_stop:
  assumes "lacking s ctx n t" "ctx = [] \<or> \<not> root_black t"
  shows "erase_loop n par s = Some (n, s) \<and> mended s ctx n t"
proof -
  have r: "rep s ctx t" "ptr t = n" using assms(1) by (auto simp: lacking_def)
  have b: "black_or_null n s = Some (root_black t)" using black_or_null_tree [of s "top ctx" t] r by (simp add: rep_def)
  have "ctx = [] \<Longrightarrow> n = rs_root s" using r by (simp add: rep_def)
  then have "erase_loop n par s = Some (n, s)" using b assms(2) by (subst erase_loop.simps) auto
  moreover have "rb_tree (plug ctx (blackened t))"
  proof -
    obtain k where k: "bal t k" "cbal ctx (Suc k)" using assms(1) by (auto simp: lacking_def)
    have "root_black (blackened t)" by (cases t) simp_all
    moreover have "\<exists>m. bal (blackened t) m \<and> cbal ctx m"
    proof (cases "ctx = []")
      case True
      then show ?thesis using k(1) bal_blackened [of t] by auto
    next
      case False
      then have "bal (blackened t) (Suc k)" using k(1) assms(2) red_root [of t] by auto
      then show ?thesis using k(2) by blast
    qed
    ultimately show ?thesis using assms(1) root_plug [of ctx "blackened t"]
      by (cases "ctx = []") (auto simp: rb_tree_def bal_plug col_plug lacking_def)
  qed
  ultimately show ?thesis using r by (simp add: mended_def)
qed

lemma erase_loop_round:
  assumes "lacking s ctx n t" "ctx \<noteq> []" "root_black t"
  shows "\<exists>res. mends (smaller ctx) s ctx t res \<and> erase_loop n (top ctx) s = res \<bind> (\<lambda>(d, m, par, s). if d then Some (m, s) else erase_loop m par s)"
proof -
  have r: "rep s ctx t" "ptr t = n" using assms(1) by (auto simp: lacking_def)
  have b: "black_or_null n s = Some True" using black_or_null_tree [of s "top ctx" t] r assms(3) by (simp add: rep_def)
  have "rs_root s = ptr (plug ctx t)" using r(1) rep_plug [of s ctx t] by (simp add: rep_def)
  moreover have "ptr (plug ctx t) \<in> set (ctx_addrs ctx)" using assms(2) by (rule plug_ptr_in)
  ultimately have ne: "n \<noteq> rs_root s" using r ptr_in [of t] ctx_zero [of s ctx n] by (cases "t = Lf") (auto simp: rep_def)
  show ?thesis
  proof (cases ctx rule: top.cases)
    case (2 c p w up)
    have "rep s up (Nd c t p w)" using r(1) 2 by (simp add: rep_InL)
    from rep_read(1) [OF this] have "erase_loop n (top ctx) s = erase_left p s \<bind> (\<lambda>(d, m, par, s). if d then Some (m, s) else erase_loop m par s)"
      using 2 r(2) b ne by (subst erase_loop.simps) (auto simp: split_def)
    then show ?thesis using erase_left_mends assms(1,3) 2 by blast
  next
    case (3 w c p up)
    have q: "rep s up (Nd c w p t)" using r(1) 3 by (simp add: rep_InR)
    obtain k where "bal w (Suc k)" using assms(1) 3 by (auto simp: lacking_def)
    then obtain wc wl wa wr where w: "w = Nd wc wl wa wr" using bal_Suc by blast
    have "ptr w \<noteq> n" using q w r(2) by (cases t) (auto simp: rep_def node_is_def)
    with rep_read(1) [OF q] have "erase_loop n (top ctx) s = erase_right p s \<bind> (\<lambda>(d, m, par, s). if d then Some (m, s) else erase_loop m par s)"
      using 3 b ne by (subst erase_loop.simps) (auto simp: split_def)
    then show ?thesis using erase_right_mends assms(1,3) 3 by blast
  qed (use assms(2) in simp)
qed

lemma erase_loop_mends:
  "lacking s ctx n t \<Longrightarrow> \<exists>m s' ctx' t'. erase_loop n (top ctx) s = Some (m, s') \<and> mended s' ctx' m t'
     \<and> addrs (plug ctx' t') = addrs (plug ctx t) \<and> same_at s s' (- nodes ctx t)"
proof (induction ctx arbitrary: s n t rule: length_induct)
  case (1 ctx)
  show ?case
  proof (cases "ctx = [] \<or> \<not> root_black t")
    case True
    then show ?thesis using erase_loop_stop [OF "1.prems" True] by (auto simp: same_at_def)
  next
    case False
    then obtain d m par s1 ctx' t' where r: "erase_loop n (top ctx) s = (if d then Some (m, s1) else erase_loop m par s1)"
      "addrs (plug ctx' t') = addrs (plug ctx t)" "same_at s s1 (- nodes ctx t)"
      "if d then mended s1 ctx' m t' else lacking s1 ctx' m t' \<and> par = top ctx' \<and> smaller ctx ctx' t'"
      using erase_loop_round [OF "1.prems"] unfolding mends_def by auto
    have n: "nodes ctx' t' = nodes ctx t" using r(2) set_addrs_plug [of ctx' t'] set_addrs_plug [of ctx t] by simp
    consider d | "\<not> d" "\<not> root_black t'" | "\<not> d" "length ctx' < length ctx" using r(4) by (auto split: if_splits)
    then show ?thesis
    proof cases
      case 1
      then show ?thesis using r by auto
    next
      case 2
      then show ?thesis using r erase_loop_stop [of s1 ctx' m t'] by auto
    next
      case 3
      then have "lacking s1 ctx' m t'" "par = top ctx'" using r(4) by auto
      with "1.IH" 3(2) obtain k s' ctx2 t2 where "erase_loop m par s1 = Some (k, s')" "mended s' ctx2 k t2" "addrs (plug ctx2 t2) = addrs (plug ctx t)"
        "same_at s1 s' (- nodes ctx t)" unfolding r(2) [symmetric] n [symmetric] by blast
      then show ?thesis using r(1) 3(1) same_at_trans [OF r(3)] by auto
    qed
  qed
qed

lemma erase_color_rep:
  assumes "lacking s ctx n t"
  shows "\<exists>s' u. rb_erase_color n (top ctx) s = Some s' \<and> rep s' [] u \<and> rb_tree u \<and> addrs u = addrs (plug ctx t) \<and> same_at s s' (- nodes ctx t)"
proof -
  obtain m s1 ctx' t' where e: "erase_loop n (top ctx) s = Some (m, s1)" "mended s1 ctx' m t'" "addrs (plug ctx' t') = addrs (plug ctx t)" "same_at s s1 (- nodes ctx t)"
    using erase_loop_mends [OF assms] by blast
  have r: "rep s1 ctx' t'" "ptr t' = m" "rb_tree (plug ctx' (blackened t'))" using e(2) by (auto simp: mended_def)
  have n: "nodes ctx' t' = nodes ctx t" using e(3) set_addrs_plug [of ctx' t'] set_addrs_plug [of ctx t] by simp
  have a: "addrs (plug ctx' (blackened t')) = addrs (plug ctx t)" using e(3) addrs_plug [of "blackened t'" t' ctx'] by (cases t') auto
  have "\<exists>s'. rb_erase_color n (top ctx) s = Some s' \<and> rep s' ctx' (blackened t') \<and> same_at s1 s' (- nodes ctx t)"
  proof (cases t')
    case Lf
    then show ?thesis using e(1) r by (auto simp: rb_erase_color_def same_at_def)
  next
    case (Nd c l a r')
    then obtain s2 where s2: "rb_set_black a s1 = Some s2" "rep s2 ctx' (Nd True l a r')" "only_in {a} s1 s2" using rep_paint(2) r(1) by blast
    have "a \<noteq> 0" "a \<in> nodes ctx t" using rep_read(2) r(1) Nd n by auto
    then show ?thesis using e(1) r(2) Nd s2 by (auto simp: rb_erase_color_def only_in_def same_at_def)
  qed
  then obtain s' where s': "rb_erase_color n (top ctx) s = Some s'" "rep s' ctx' (blackened t')" "same_at s1 s' (- nodes ctx t)" by blast
  then show ?thesis using r(3) a rep_plug [of s' ctx' "blackened t'"] same_at_trans [OF e(4) s'(3)] by auto
qed

subsection \<open>Unlinking a node\<close>

text \<open>Taking out a node with at most one child leaves a red-black tree if the node was red, and one that lacks a black node if it was black.\<close>

lemma unlinked:
  assumes "rb_tree (plug ctx (Nd c l x r))" "l = Lf \<and> t = r \<or> r = Lf \<and> t = l" "rep s ctx t"
  shows "\<not> c \<Longrightarrow> rb_tree (plug ctx t)" "c \<Longrightarrow> lacking s ctx (ptr t) t"
proof -
  obtain k where k: "bal t k" "cbal ctx (if c then Suc k else k)" using assms(1,2) bal_plug [of ctx "Nd c l x r"] by (auto simp: rb_tree_def)
  have c: "col_ok t" "ccol ctx c" "\<not> c \<Longrightarrow> root_black t" using assms(1,2) col_plug [of ctx "Nd c l x r"] by (auto simp: rb_tree_def)
  have r: "if ctx = [] then c else croot ctx" using assms(1) root_plug [of ctx "Nd c l x r"] by (cases "ctx = []") (auto simp: rb_tree_def)
  show "rb_tree (plug ctx t)" if "\<not> c"
    using that k c r ccol_mono [OF c(2)] root_plug [of ctx t] bal_plug [of ctx t] col_plug [of ctx t] by (auto simp: rb_tree_def split: if_splits)
  have "col_ok (blackened t)" using c(1) by (cases t) auto
  moreover have "croot ctx" using r by (cases "ctx = []") auto
  ultimately show "lacking s ctx (ptr t) t" if c
    using that k c(2) assms(3) by (auto simp: lacking_def)
qed

lemma erase_one_rep:
  assumes "rep s ctx (Nd c l n r)" "l = Lf \<and> t = r \<or> r = Lf \<and> t = l"
  shows "\<exists>s'. erase_one n (ptr t) s = Some (ptr t, top ctx, c, s') \<and> rep s' ctx t \<and> same_at s s' (- nodes ctx t)"
proof -
  have t: "tree_at s n t" "distinct (n # addrs t @ ctx_addrs ctx)" "ctx_at s ctx n"
    using assms by (auto simp: rep_def)
  obtain nd where nd: "rget n s = Some nd" "par_of nd = top ctx" "is_black nd = c" using rep_read(1) [OF assms(1)] by auto
  obtain s1 where s1: "set_parent_opt (ptr t) (top ctx) s = Some s1" "tree_at s1 (top ctx) t" "only_in (set (addrs t)) s s1"
    using set_parent_opt_tree [OF t(1) ctx_aligned [OF t(3)]] t(2) by (auto simp: only_in_def)
  have "ctx_at s1 ctx n" using t(2,3) s1(3) by (auto simp: only_in_simps)
  then obtain s2 where s2: "relink_left (top ctx) n (ptr t) s1 = Some s2" "ctx_at s2 ctx (ptr t)" "same_at s1 s2 (- set (ctx_addrs ctx))"
    using relink_left_frame [of s1 ctx n "ptr t"] t(2) rep_read(2) [OF assms(1)] by auto
  have "tree_at s2 (top ctx) t" using s1(2) s2(3) t(2) by (subst same_tree) auto
  then have "rep s2 ctx t" using s2(2) t(2) by (simp add: rep_def)
  moreover have "same_at s s2 (- nodes ctx t)" using s1(3) s2(3) by (auto simp: only_in_def same_at_def)
  ultimately show ?thesis using nd s1(1) s2(1) by (simp add: erase_one_def)
qed

text \<open>A node with two children: its successor is the leftmost node of the right subtree.\<close>

lemma node_parent_unique: "node_is s a p c l r \<Longrightarrow> node_is s a p' c' l' r' \<Longrightarrow> p' = p"
  by (auto simp: node_is_def)

lemma tree_at_part: "tree_at s q (plug dn v) \<Longrightarrow> \<exists>p. tree_at s p v"
  by (induction dn v rule: plug.induct) auto

lemma tree_at_replaced:
  "tree_at s q (plug dn v) \<Longrightarrow> ptr v' = ptr v \<Longrightarrow> (\<And>p. tree_at s p v \<Longrightarrow> tree_at s' p v') \<Longrightarrow> same_at s s' (set (ctx_addrs dn))
    \<Longrightarrow> tree_at s' q (plug dn v')"
proof (induction dn v arbitrary: v' rule: plug.induct)
  case (2 c a r up t)
  have "same_at s s' (set (addrs r))" "same_at s s' (set (ctx_addrs up))" "rs_heap s' a = rs_heap s a" using "2.prems"(4) by (simp_all add: same_at_def)
  then show ?case using "2.IH" [of "Nd c v' a r"] "2.prems" node_is_same [of s' a s] tree_at_same [of s s' r] by simp
next
  case (3 l c a up t)
  have "same_at s s' (set (addrs l))" "same_at s s' (set (ctx_addrs up))" "rs_heap s' a = rs_heap s a" using "3.prems"(4) by (simp_all add: same_at_def)
  then show ?case using "3.IH" [of "Nd c l a v'"] "3.prems" node_is_same [of s' a s] tree_at_same [of s s' l] by simp
qed simp

lemma ctx_addrs_append: "set (ctx_addrs (dn @ up)) = set (ctx_addrs dn) \<union> set (ctx_addrs up)"
  by (induction dn rule: ctx_addrs.induct) auto

lemma plug_append: "plug (dn @ up) t = plug up (plug dn t)"
  by (induction dn t rule: plug.induct) simp_all

lemma distinct_plug: "distinct (addrs (plug ctx t)) = distinct (addrs t @ ctx_addrs ctx)"
  by (induction ctx t rule: plug.induct) auto

lemma leftmost_split:
  "\<exists>dn cm m t. Nd d l a w = plug dn (Nd cm Lf m t) \<and> hd (addrs (Nd d l a w)) = m \<and> before dn = [] \<and> (dn = [] \<or> (\<exists>e p v up. dn = InL e p v # up))"
proof -
  have "\<exists>dn cm m t. plug ctx (Nd d l a w) = plug dn (Nd cm Lf m t) \<and> hd (addrs (Nd d l a w)) = m \<and> before dn = [] \<and> (dn = [] \<or> (\<exists>e p v up. dn = InL e p v # up))"
    if "before ctx = []" "ctx = [] \<or> (\<exists>e p v up. ctx = InL e p v # up)" for ctx
    using that
  proof (induction l arbitrary: ctx d a w)
    case Lf
    then show ?case by (intro exI [of _ ctx] exI [of _ d] exI [of _ a] exI [of _ w]) simp
  next
    case (Nd c' l' a' r')
    show ?case using Nd.IH(1) [of "InL d a w # ctx" c' a' r'] Nd.prems by (cases "addrs l' = []") (simp_all add: hd_append)
  qed
  from this [of "[]"] show ?thesis by simp
qed

text \<open>The child of the successor goes to the successor's old place.\<close>

lemma unlink_min:
  assumes "tree_at s n (plug dn (Nd d (Nd cm Lf m t) p w))" "distinct (addrs (plug dn (Nd d (Nd cm Lf m t) p w)))"
  shows "\<exists>s1 s2. set_parent_opt (ptr t) p s = Some s1 \<and> set_left p (ptr t) s1 = Some s2 \<and> tree_at s2 n (plug dn (Nd d t p w))
    \<and> only_in (insert p (set (addrs t))) s s2"
proof -
  let ?v = "Nd d (Nd cm Lf m t) p w"
  obtain q where v: "tree_at s q ?v" using tree_at_part [OF assms(1)] by blast
  have ds: "m \<notin> set (addrs t)" "p \<noteq> m" "p \<notin> set (addrs t)" "set (addrs t) \<inter> set (addrs w) = {}" "p \<notin> set (addrs w)" "distinct (addrs t)"
    "insert p (set (addrs t)) \<inter> set (ctx_addrs dn) = {}"
    using assms(2) distinct_plug [of dn ?v] by auto
  have ap: "aligned p" "p \<noteq> 0" using v by (auto simp: node_is_def)
  obtain s1 where s1: "set_parent_opt (ptr t) p s = Some s1" "tree_at s1 p t" "only_in (set (addrs t)) s s1"
    using set_parent_opt_tree [of s m t p] v ap ds(6) by (auto simp: only_in_def)
  have "node_is s1 p q d m (ptr w)" using v s1(3) ds by (simp add: only_in_simps)
  then obtain s2 where s2: "set_left p (ptr t) s1 = Some s2" "node_is s2 p q d (ptr t) (ptr w)" "only_in {p} s1 s2" using set_node(1) by blast
  have t2: "tree_at s2 p t" "tree_at s2 p w" using v s1(2,3) s2(3) ds by (auto simp: only_in_simps)
  have o: "only_in (insert p (set (addrs t))) s s2" using only_in_trans [OF s1(3) s2(3)] by simp
  have "tree_at s2 n (plug dn (Nd d t p w))"
  proof (rule tree_at_replaced [OF assms(1)])
    show "tree_at s2 k (Nd d t p w)" if "tree_at s k ?v" for k
    proof -
      have "k = q" using that v node_parent_unique by (auto simp del: ptr.simps)
      then show ?thesis using s2(2) t2 by simp
    qed
    show "same_at s s2 (set (ctx_addrs dn))" using o ds(7) by (auto simp: only_in_def same_at_def)
  qed simp
  then show ?thesis using s1(1) s2(1) o by blast
qed

text \<open>The successor takes over the node's parent, colour and left subtree.\<close>

lemma take_place:
  assumes "par_of on = top ctx" "is_black on = c" "tree_at s n l" "l \<noteq> Lf" "node_is s m q cm x (ptr r)" "tree_at s m r" "ctx_at s ctx m"
    "distinct (addrs l @ m # addrs r @ ctx_addrs ctx)"
  shows "\<exists>s1 s2 s3. rupd (\<lambda>nd. nd\<lparr>rb_parent_color := rb_parent_color on\<rparr>) m s = Some s1 \<and> set_left m (ptr l) s1 = Some s2
    \<and> rb_set_parent (ptr l) m s2 = Some s3 \<and> rep s3 ctx (Nd c l m r) \<and> only_in (insert m (set (addrs l))) s s3"
proof -
  have m: "aligned m" using assms(5) by (simp add: node_is_def)
  have "\<exists>s'. rupd (\<lambda>nd. nd\<lparr>rb_parent_color := rb_parent_color on\<rparr>) m s = Some s' \<and> node_is s' m (top ctx) c x (ptr r) \<and> only_in {m} s s'"
    by (rule rupd_node [OF assms(5)]) (use assms(1,2) in \<open>simp add: par_of_def is_black_def\<close>)
  then obtain s1 where s1: "rupd (\<lambda>nd. nd\<lparr>rb_parent_color := rb_parent_color on\<rparr>) m s = Some s1" "node_is s1 m (top ctx) c x (ptr r)" "only_in {m} s s1" by blast
  obtain s2 where s2: "set_left m (ptr l) s1 = Some s2" "node_is s2 m (top ctx) c (ptr l) (ptr r)" "only_in {m} s1 s2" using set_node(1) [OF s1(2)] by blast
  have "tree_at s2 n l" using assms(3,8) s1(3) s2(3) by (auto simp: only_in_simps)
  then obtain s3 where s3: "set_parent_opt (ptr l) m s2 = Some s3" "tree_at s3 m l" "only_in (set (addrs l)) s2 s3"
    using set_parent_opt_tree [OF _ m, of s2 n l] assms(8) by (auto simp: only_in_def)
  have "rb_set_parent (ptr l) m s2 = Some s3" using s3(1) tree_ptr_0 [OF assms(3)] assms(4) by (simp add: set_parent_opt_def)
  moreover have "rep s3 ctx (Nd c l m r)"
    using assms(6-8) s1(3) s2(2,3) s3(2,3) by (auto simp: rep_def only_in_simps Int_Un_distrib Int_commute)
  moreover have "only_in (insert m (set (addrs l))) s s3" using s1(3) s2(3) s3(3) by (auto simp: only_in_def same_at_def)
  ultimately show ?thesis using s1(1) s2(1) by blast
qed

lemma ptr_plug: "ptr t = ptr u \<Longrightarrow> ptr (plug ctx t) = ptr (plug ctx u)"
proof (induction ctx arbitrary: t u)
  case (Cons f ctx)
  then show ?case by (cases f) simp_all
qed simp

lemma erase_two_next:
  assumes "rep s ctx (Nd c l n (Nd cm Lf m t))" "l \<noteq> Lf"
  shows "\<exists>s'. erase_two n s = Some (ptr t, m, cm, s') \<and> rep s' ctx (Nd c l m t) \<and> same_at s s' (- nodes ctx (Nd c l m t))"
proof -
  have d: "distinct (addrs l @ n # m # addrs t @ ctx_addrs ctx)" and l: "tree_at s n l" and m: "node_is s m n cm 0 (ptr t)" and t: "tree_at s m t"
    and x: "ctx_at s ctx n" and tr: "tree_at s n (Nd cm Lf m t)" using assms(1) by (simp_all add: rep_def)
  obtain on where on: "rget n s = Some on" "par_of on = top ctx" "is_black on = c" "rb_left on = ptr l" "rb_right on = m" "n \<noteq> 0"
    using rep_read [OF assms(1)] by auto
  have lm: "leftmost m s = Some m" using leftmost_tree [OF tr] by simp
  obtain s1 where s1: "relink_left (top ctx) n m s = Some s1" "ctx_at s1 ctx m" "same_at s s1 (- set (ctx_addrs ctx))"
    using relink_left_frame [OF x on(6), of m] d by auto
  have dj: "set (ctx_addrs ctx) \<inter> set (addrs l) = {}" "set (ctx_addrs ctx) \<inter> set (addrs t) = {}" "m \<notin> set (ctx_addrs ctx)" "n \<notin> set (ctx_addrs ctx)" using d by auto
  have k: "tree_at s1 n l" "node_is s1 m n cm 0 (ptr t)" "tree_at s1 m t" "rget n s1 = Some on"
    using l m t on(1,6) dj same_tree [OF s1(3)] same_node [OF s1(3)] s1(3) by (simp_all add: rget_def same_at_def)
  obtain nn where nn: "rget m s1 = Some nn" "par_of nn = n" "is_black nn = cm" "rb_right nn = ptr t" using node_read [OF k(2)] by blast
  from take_place [OF on(2,3) k(1) assms(2) k(2,3) s1(2)] d obtain s2 s3 s4 where s4:
    "rupd (\<lambda>nd. nd\<lparr>rb_parent_color := rb_parent_color on\<rparr>) m s1 = Some s2" "set_left m (ptr l) s2 = Some s3" "rb_set_parent (ptr l) m s3 = Some s4"
    "rep s4 ctx (Nd c l m t)" "only_in (insert m (set (addrs l))) s1 s4" by auto
  have "same_at s s4 (- nodes ctx (Nd c l m t))" using s1(3) s4(5) by (auto simp: only_in_def same_at_def)
  moreover have "erase_two n s = Some (ptr t, m, cm, s4)" using on lm s1(1) nn k(4) s4(1-3) by (simp add: erase_two_def Let_def)
  ultimately show ?thesis using s4(4) by blast
qed

lemma erase_two_below:
  assumes "rep s ctx (Nd c l n r)" "l \<noteq> Lf" "r = plug dn (Nd d (Nd cm Lf m t) p w)" "hd (addrs r) = m"
  shows "\<exists>s'. erase_two n s = Some (ptr t, p, cm, s') \<and> rep s' ctx (Nd c l m (plug dn (Nd d t p w))) \<and> same_at s s' (- nodes ctx (Nd c l m (plug dn (Nd d t p w))))"
proof -
  let ?r = "plug dn (Nd d t p w)"
  have d: "distinct (addrs l @ n # addrs r @ ctx_addrs ctx)" and l: "tree_at s n l" and r: "tree_at s n r" and x: "ctx_at s ctx n"
    using assms(1) by (simp_all add: rep_def)
  have ra: "set (addrs r) = insert m (set (addrs ?r))" "m \<notin> set (addrs ?r)" "distinct (addrs ?r)" "p \<in> set (addrs r)" "set (addrs t) \<subseteq> set (addrs r)"
    "p \<noteq> m" "m \<notin> set (addrs t)"
    using d distinct_plug [of dn "Nd d (Nd cm Lf m t) p w"] distinct_plug [of dn "Nd d t p w"]
    unfolding assms(3) set_addrs_plug by auto
  have rp: "ptr ?r = ptr r" "r \<noteq> Lf" using assms(3) ptr_plug [of "Nd d t p w" "Nd d (Nd cm Lf m t) p w" dn] ra(4) by auto
  obtain on where on: "rget n s = Some on" "par_of on = top ctx" "is_black on = c" "rb_left on = ptr l" "rb_right on = ptr r" "n \<noteq> 0"
    using rep_read [OF assms(1)] by auto
  obtain rc rl rr where rn: "r = Nd rc rl (ptr r) rr" using rp(2) by (cases r) auto
  have lm: "leftmost (ptr r) s = Some m" using leftmost_tree [of s n rc rl "ptr r" rr] r rn assms(4) by simp
  obtain s1 where s1: "relink_left (top ctx) n m s = Some s1" "ctx_at s1 ctx m" "same_at s s1 (- set (ctx_addrs ctx))"
    using relink_left_frame [OF x on(6), of m] d by auto
  have dj: "set (ctx_addrs ctx) \<inter> set (addrs l) = {}" "set (ctx_addrs ctx) \<inter> set (addrs r) = {}" using d by auto
  have k: "tree_at s1 n l" "tree_at s1 n r" using l r dj same_tree [OF s1(3)] by simp_all
  obtain q where q: "tree_at s1 q (Nd d (Nd cm Lf m t) p w)" using tree_at_part [of s1 n dn] k(2) assms(3) by blast
  then obtain nn where nn: "rget m s1 = Some nn" "par_of nn = p" "is_black nn = cm" "rb_right nn = ptr t" using node_read [of s1 m p cm 0 "ptr t"] by auto
  from unlink_min [of s1 n dn d cm m t p w] k(2) assms(3) d obtain s2 s3 where s3: "set_parent_opt (ptr t) p s1 = Some s2" "set_left p (ptr t) s2 = Some s3"
    "tree_at s3 n ?r" "only_in (insert p (set (addrs t))) s1 s3" by auto
  have mm: "node_is s3 m p cm 0 (ptr t)" using q s3(4) ra by (auto simp: only_in_simps)
  obtain s4 where s4: "set_right m (ptr r) s3 = Some s4" "node_is s4 m p cm 0 (ptr r)" "only_in {m} s3 s4" using set_node(2) [OF mm] by blast
  have "tree_at s4 n ?r" using s3(3) s4(3) ra(2) by (simp add: only_in_simps)
  then obtain s5 where s5: "set_parent_opt (ptr r) m s4 = Some s5" "tree_at s5 m ?r" "only_in (set (addrs ?r)) s4 s5"
    using set_parent_opt_tree [of s4 n ?r m] ra(3) mm rp(1) by (auto simp: only_in_def node_is_def)
  have sp: "rb_set_parent (ptr r) m s4 = Some s5" using s5(1) tree_ptr_0 [OF r] rp(2) by (simp add: set_parent_opt_def)
  have o: "only_in (set (addrs r)) s1 s5" using s3(4) s4(3) s5(3) ra(1,4,5) by (auto simp: only_in_def same_at_def)
  have "n \<notin> insert p (set (addrs t))" "n \<notin> set (addrs r)" "n \<notin> set (ctx_addrs ctx)" using d ra(4,5) by auto
  then have h: "rget n s1 = Some on" "rget n s3 = Some on" "rget n s5 = Some on" using on(1,6) s1(3) s3(4) o by (simp_all add: rget_def only_in_def same_at_def)
  have m5: "node_is s5 m p cm 0 (ptr ?r)" using s4(2) s5(3) ra(2) rp(1) by (simp add: only_in_simps)
  have k5: "tree_at s5 n l" "ctx_at s5 ctx m" using k(1) s1(2) o d by (auto simp: only_in_simps Int_Un_distrib Int_commute)
  have "distinct (addrs l @ m # addrs ?r @ ctx_addrs ctx)" using d ra by auto
  from take_place [OF on(2,3) k5(1) assms(2) m5 s5(2) k5(2) this] obtain s6 s7 s8 where s8:
    "rupd (\<lambda>nd. nd\<lparr>rb_parent_color := rb_parent_color on\<rparr>) m s5 = Some s6" "set_left m (ptr l) s6 = Some s7"
    "rb_set_parent (ptr l) m s7 = Some s8" "rep s8 ctx (Nd c l m ?r)" "only_in (insert m (set (addrs l))) s5 s8" by blast
  have "p \<noteq> n" using d ra(4) by auto
  then have "erase_two n s = Some (ptr t, p, cm, s8)" using on lm s1(1) nn h s3(1,2) s4(1) sp s8(1-3) by (simp add: erase_two_def Let_def)
  moreover have "same_at s s8 (- nodes ctx (Nd c l m ?r))" using s1(3) o s8(5) unfolding ra(1) by (auto simp: only_in_def same_at_def)
  ultimately show ?thesis using s8(4) by blast
qed

text \<open>Unlinking in general: what is left is the tree with one node of the given colour taken out.\<close>

lemma rb_tree_relabel: "rb_tree (plug ctx (Nd c l n r)) \<Longrightarrow> rb_tree (plug ctx (Nd c l m r))"
  using root_plug [of ctx "Nd c l n r"] root_plug [of ctx "Nd c l m r"] by (cases "ctx = []") (auto simp: rb_tree_def bal_plug col_plug)

definition unlinks :: "rb_root \<Rightarrow> u32 list \<Rightarrow> (u32 \<times> u32 \<times> bool \<times> rb_root) option \<Rightarrow> bool" where
  "unlinks s xs res \<longleftrightarrow> (\<exists>ctx' t c l x r s'. res = Some (ptr t, top ctx', c, s') \<and> rep s' ctx' t \<and> addrs (plug ctx' t) = xs
     \<and> (l = Lf \<and> t = r \<or> r = Lf \<and> t = l) \<and> rb_tree (plug ctx' (Nd c l x r)) \<and> same_at s s' (- set xs))"

lemma unlinks_one:
  assumes "rep s ctx (Nd c l n r)" "rb_tree (plug ctx (Nd c l n r))" "l = Lf \<and> t = r \<or> r = Lf \<and> t = l"
  shows "unlinks s (before ctx @ addrs l @ addrs r @ after ctx) (erase_one n (ptr t) s)"
proof -
  obtain s' where s': "erase_one n (ptr t) s = Some (ptr t, top ctx, c, s')" "rep s' ctx t" "same_at s s' (- nodes ctx t)"
    using erase_one_rep [OF assms(1,3)] by blast
  have a: "addrs (plug ctx t) = before ctx @ addrs l @ addrs r @ after ctx" using assms(3) by (auto simp: addrs_around)
  have "same_at s s' (- set (before ctx @ addrs l @ addrs r @ after ctx))" using s'(3) unfolding a [symmetric] set_addrs_plug .
  then show ?thesis using s'(1,2) a assms(2,3) unfolding unlinks_def by blast
qed

lemma unlinks_two:
  assumes "rep s ctx (Nd c l n r)" "rb_tree (plug ctx (Nd c l n r))" "l \<noteq> Lf" "r \<noteq> Lf"
  shows "unlinks s (before ctx @ addrs l @ addrs r @ after ctx) (erase_two n s)"
proof -
  obtain rc rl ra rr where r: "r = Nd rc rl ra rr" using assms(4) by (cases r) auto
  obtain dn cm m t where dn: "r = plug dn (Nd cm Lf m t)" "hd (addrs r) = m" "before dn = []" "dn = [] \<or> (\<exists>e p v up. dn = InL e p v # up)"
    using leftmost_split [of rc rl ra rr] unfolding r by blast
  let ?ctx = "dn @ InR l c m # ctx"
  have ar: "addrs r = m # addrs (plug dn t)" using dn(1,3) by (simp add: addrs_around)
  have a: "addrs (plug ?ctx t) = before ctx @ addrs l @ addrs r @ after ctx" using ar by (simp add: plug_append addrs_around)
  have b: "rb_tree (plug ?ctx (Nd cm Lf m t))" using assms(2) dn(1) rb_tree_relabel by (simp add: plug_append)
  have "\<exists>s'. erase_two n s = Some (ptr t, top ?ctx, cm, s') \<and> rep s' ?ctx t \<and> same_at s s' (- nodes ctx (Nd c l m (plug dn t)))"
  proof (cases "dn = []")
    case True
    then show ?thesis using erase_two_next [of s ctx c l n cm m t] assms(1,3) dn(1) by (simp add: rep_InR)
  next
    case False
    then obtain e p v up where up: "dn = InL e p v # up" using dn(4) by blast
    then have rr: "r = plug up (Nd e (Nd cm Lf m t) p v)" using dn(1) by simp
    obtain s' where s': "erase_two n s = Some (ptr t, p, cm, s')" "rep s' ctx (Nd c l m (plug up (Nd e t p v)))" "same_at s s' (- nodes ctx (Nd c l m (plug up (Nd e t p v))))"
      using erase_two_below [OF assms(1,3) rr dn(2)] by blast
    have "rep s' ?ctx t" using s'(2) up rep_plug [of s' ?ctx t] rep_plug [of s' ctx "Nd c l m (plug up (Nd e t p v))"] by (simp add: plug_append)
    then show ?thesis using s' up by simp
  qed
  moreover have "nodes ctx (Nd c l m (plug dn t)) = set (addrs (plug ?ctx t))" by (simp only: plug_append plug.simps set_addrs_plug)
  ultimately show ?thesis using a b unfolding unlinks_def by metis
qed

lemma rb_erase_rep:
  assumes "rep s ctx (Nd c l n r)" "rb_tree (plug ctx (Nd c l n r))"
  shows "\<exists>s' u. rb_erase n s = Some s' \<and> rep s' [] u \<and> rb_tree u \<and> addrs u = before ctx @ addrs l @ addrs r @ after ctx
    \<and> same_at s s' (- set (addrs u))"
proof -
  let ?xs = "before ctx @ addrs l @ addrs r @ after ctx"
  obtain nd where nd: "rget n s = Some nd" "rb_left nd = ptr l" "rb_right nd = ptr r" using rep_read(1) [OF assms(1)] by auto
  have z: "ptr l = 0 \<longleftrightarrow> l = Lf" "ptr r = 0 \<longleftrightarrow> r = Lf" using tree_ptr_0 rep_children [OF assms(1)] by blast+
  let ?res = "if l = Lf then erase_one n (ptr r) s else if r = Lf then erase_one n (ptr l) s else erase_two n s"
  have "unlinks s ?xs ?res" using unlinks_one [OF assms, of r] unlinks_one [OF assms, of l] unlinks_two [OF assms] by (cases "l = Lf"; cases "r = Lf") simp_all
  then obtain ctx' t d l' x r' s1 where u: "rep s1 ctx' t" "addrs (plug ctx' t) = ?xs" "l' = Lf \<and> t = r' \<or> r' = Lf \<and> t = l'"
    "rb_tree (plug ctx' (Nd d l' x r'))" "same_at s s1 (- set ?xs)" "?res = Some (ptr t, top ctx', d, s1)"
    unfolding unlinks_def by blast
  have e: "rb_erase n s = (if d then rb_erase_color (ptr t) (top ctx') s1 else Some s1)"
    using nd z u(6) by (cases "l = Lf"; cases "r = Lf") (auto simp: rb_erase_def)
  have n: "nodes ctx' t = set ?xs" using u(2) set_addrs_plug [of ctx' t] by simp
  show ?thesis
  proof (cases d)
    case True
    then obtain s' w where "rb_erase n s = Some s'" "rep s' [] w" "rb_tree w" "addrs w = ?xs" "same_at s1 s' (- set ?xs)"
      using erase_color_rep [OF unlinked(2) [OF u(4,3,1)]] u(2) e n by auto
    then show ?thesis using same_at_trans [OF u(5)] by metis
  next
    case False
    then show ?thesis using u(1-5) e rep_plug [of s1 ctx' t] unlinked(1) [OF u(4,3,1)] by auto
  qed
qed

subsection \<open>Properties of removal\<close>

text \<open>C6. Removing a node from a red-black tree, whether it has no, one or two children: \<open>rb_erase\<close> ends without a fault, the pointers again form a red-black tree (a black root, no
  red node with a red child, equal black heights), its nodes are the old ones without the removed one in their order, and no memory but these nodes changes, the removed one included.\<close>

theorem rb_erase_balances:
  assumes "rep s [] t" "rb_tree t" "addrs t = xs @ n # ys"
  shows "\<exists>s' u. rb_erase n s = Some s' \<and> rep s' [] u \<and> rb_tree u \<and> addrs u = xs @ ys \<and> same_at s s' (- set (xs @ ys))"
proof -
  obtain ctx c l r where f: "rep s ctx (Nd c l n r)" "t = plug ctx (Nd c l n r)" "xs = before ctx @ addrs l" "ys = addrs r @ after ctx"
    using focus_rep [OF assms(1,3)] by blast
  from rb_erase_rep [OF f(1)] assms(2) f(2) obtain s' u where "rb_erase n s = Some s'" "rep s' [] u" "rb_tree u" "addrs u = xs @ ys" "same_at s s' (- set (addrs u))"
    using f(3,4) by auto
  then show ?thesis by metis
qed

theorem rb_erase_balances_witness:
  "\<exists>s' u. rb_erase 4 pair_example = Some s' \<and> rep s' [] u \<and> rb_tree u \<and> addrs u = [8]"
  using rb_erase_balances [OF pair_example_rep, of "[]" 4 "[8]"] by (auto simp: rb_tree_def)

subsection \<open>Depth\<close>

fun depth :: "rbt \<Rightarrow> nat" where
  "depth Lf = 0"
| "depth (Nd c l a r) = Suc (max (depth l) (depth r))"

text \<open>A red-black tree is at most twice as deep as its black height, and has at least as many nodes as a full tree of that height.\<close>

lemma depth_bal: "col_ok t \<Longrightarrow> bal t k \<Longrightarrow> depth t \<le> (if root_black t then 2 * k else 2 * k + 1)"
proof (induction t arbitrary: k)
  case (Nd c l a r)
  obtain m where m: "bal l m" "bal r m" "k = (if c then Suc m else m)" using Nd.prems(2) by auto
  have "depth l \<le> (if root_black l then 2 * m else 2 * m + 1)" "depth r \<le> (if root_black r then 2 * m else 2 * m + 1)"
    using Nd.IH m Nd.prems(1) by auto
  then show ?case using m(3) Nd.prems(1) by (cases c) (auto split: if_splits)
qed simp

lemma bal_nodes: "bal t k \<Longrightarrow> 2 ^ k \<le> length (addrs t) + 1"
proof (induction t arbitrary: k)
  case (Nd c l a r)
  then obtain m where m: "bal l m" "bal r m" "k = (if c then Suc m else m)" by auto
  then have "2 ^ m \<le> length (addrs l) + 1" "2 ^ m \<le> length (addrs r) + 1" using Nd.IH by auto
  then show ?case using m(3) by (cases c) (auto simp: mult_2)
qed simp

text \<open>The node that a sequence of left and right steps from \<open>n\<close> leads to.\<close>

fun descend :: "bool list \<Rightarrow> u32 \<Rightarrow> rb_root \<Rightarrow> u32 option" where
  "descend [] n s = Some n"
| "descend (b # bs) n s = do {
     nd \<leftarrow> rget n s;
     descend bs (if b then rb_left nd else rb_right nd) s }"

lemma descend_depth: "tree_at s p t \<Longrightarrow> descend bs (ptr t) s = Some n \<Longrightarrow> n \<noteq> 0 \<Longrightarrow> length bs < depth t"
proof (induction bs arbitrary: t p)
  case Nil
  then show ?case by (cases t) auto
next
  case (Cons b bs)
  obtain c l a r where t: "t = Nd c l a r" using Cons.prems(2) by (cases t) (auto simp: rget_def)
  have n: "node_is s a p c (ptr l) (ptr r)" "tree_at s a l" "tree_at s a r" using Cons.prems(1) t by auto
  obtain nd where nd: "rget a s = Some nd" "rb_left nd = ptr l" "rb_right nd = ptr r" using node_read [OF n(1)] by blast
  have "length bs < depth (if b then l else r)" using Cons.IH [of a "if b then l else r"] n(2,3) Cons.prems(2,3) nd t by auto
  then show ?case using t by (auto split: if_splits)
qed

subsection \<open>Augmented trees\<close>

text \<open>The nodes the callback is called for above the hole, in their order.\<close>

fun augment_above :: "frame list \<Rightarrow> u32 \<Rightarrow> u32 list" where
  "augment_above [] n = []"
| "augment_above (InL c a r # up) n = (if r = Lf then n else ptr r) # a # augment_above up a"
| "augment_above (InR l c a # up) n = (if l = Lf then [] else [ptr l]) @ a # augment_above up a"

lemma rb_augment_path_rep: "rep s ctx (Nd c l n r) \<Longrightarrow> rb_augment_path func n s d = Some (fold (\<lambda>m. func m s) (n # augment_above ctx n) d)"
proof (induction ctx arbitrary: c l n r d)
  case Nil
  then show ?case using rep_read(1) [OF Nil] by (subst rb_augment_path.simps) auto
next
  case (Cons f up)
  obtain nd where nd: "rget n s = Some nd" "par_of nd = top (f # up)" "n \<noteq> 0" using rep_read [OF Cons.prems] by auto
  show ?case
  proof (cases f)
    case (InL b a q)
    have q: "rep s up (Nd b (Nd c l n r) a q)" using Cons.prems InL by (simp add: rep_InL)
    have "ptr q = 0 \<longleftrightarrow> q = Lf" using tree_ptr_0 [OF rep_children(2) [OF q]] .
    then show ?thesis using nd InL rep_read [OF q] Cons.IH [OF q] by (subst rb_augment_path.simps) auto
  next
    case (InR q b a)
    have q: "rep s up (Nd b q a (Nd c l n r))" using Cons.prems InR by (simp add: rep_InR)
    have "ptr q = 0 \<longleftrightarrow> q = Lf" "ptr q \<noteq> n" using tree_ptr_0 [OF rep_children(1) [OF q]] ptr_in [of q] q nd(3) by (cases "q = Lf"; auto simp: rep_def)+
    then show ?thesis using nd InR rep_read [OF q] Cons.IH [OF q] by (subst rb_augment_path.simps) auto
  qed
qed

lemma rb_augment_insert_rep:
  assumes "rep s ctx (Nd c l n r)"
  shows "\<exists>d'. rb_augment_insert func n s d = Some d'"
proof -
  obtain nd where nd: "rget n s = Some nd" "rb_left nd = ptr l" "rb_right nd = ptr r" using rep_read(1) [OF assms] by auto
  have L: "rep s (InL c n r # ctx) l" and R: "rep s (InR l c n # ctx) r" using assms by (simp_all add: rep_InL rep_InR)
  have "ptr l = 0 \<longleftrightarrow> l = Lf" "ptr r = 0 \<longleftrightarrow> r = Lf" using tree_ptr_0 rep_children [OF assms] by blast+
  then show ?thesis using nd L R rb_augment_path_rep [OF assms, of func d]
    by (cases l; cases r) (auto simp: rb_augment_insert_def rb_augment_path_rep)
qed

text \<open>The node the second half of a removal starts from is not the removed one.\<close>

lemma rb_augment_erase_rep:
  assumes "rep s ctx (Nd c l n r)"
  shows "\<exists>m. rb_augment_erase_begin n s = Some m \<and> m \<noteq> n \<and> (m = 0 \<or> m \<in> nodes ctx (Nd c l n r))"
proof -
  obtain nd where nd: "rget n s = Some nd" "par_of nd = top ctx" "rb_left nd = ptr l" "rb_right nd = ptr r" "n \<noteq> 0" using rep_read [OF assms] by auto
  have z: "ptr l = 0 \<longleftrightarrow> l = Lf" "ptr r = 0 \<longleftrightarrow> r = Lf" using tree_ptr_0 rep_children [OF assms] by blast+
  have d: "distinct (addrs l @ n # addrs r @ ctx_addrs ctx)" using assms by (simp add: rep_def)
  have tp: "ctx \<noteq> [] \<Longrightarrow> top ctx \<in> set (ctx_addrs ctx)" by (rule top_in)
  show ?thesis
  proof (cases "l = Lf \<or> r = Lf")
    case True
    then show ?thesis using nd z d tp ptr_in [of l] ptr_in [of r] by (cases "ctx = []"; cases "l = Lf"; cases "r = Lf") (auto simp: rb_augment_erase_begin_def)
  next
    case False
    then obtain rc rl ra rr where r: "r = Nd rc rl ra rr" by (cases r) auto
    obtain dn cm m t where dn: "r = plug dn (Nd cm Lf m t)" "hd (addrs r) = m" using leftmost_split [of rc rl ra rr] unfolding r by blast
    have ne: "addrs r \<noteq> []" using r by simp
    have "rb_next n s = Some m" using rb_next_ctx [OF assms] dn(2) hd0_hd [OF ne] ne by simp
    moreover have "rep s (dn @ InR l c n # ctx) (Nd cm Lf m t)"
      using assms rep_plug [of s ctx] rep_plug [of s "dn @ InR l c n # ctx"] dn(1) by (simp add: plug_append)
    from rep_read(1) [OF this] tree_ptr_0 [OF rep_children(2) [OF this]] obtain mn where "rget m s = Some mn" "rb_right mn = ptr t" "ptr t = 0 \<longleftrightarrow> t = Lf"
      "par_of mn = top (dn @ InR l c n # ctx)" by auto
    moreover have "m \<in> set (addrs r)" "t \<noteq> Lf \<Longrightarrow> ptr t \<in> set (addrs r)" "dn \<noteq> [] \<Longrightarrow> top dn \<in> set (addrs r)" "dn \<noteq> [] \<Longrightarrow> top (dn @ InR l c n # ctx) = top dn"
      using ptr_in [of t] top_in [of dn] unfolding dn(1) set_addrs_plug by (auto, cases dn rule: top.cases, auto)
    moreover have "n \<notin> set (addrs r)" using d by simp
    ultimately show ?thesis using nd z False by (cases "t = Lf"; cases "dn = []") (auto simp: rb_augment_erase_begin_def)
  qed
qed

text \<open>How far a search goes: however one walks down from the root of a red-black tree with \<open>n\<close> nodes along the child pointers, a node is reached only within about \<open>2 log (n + 1)\<close> steps.\<close>

theorem rb_search_short:
  assumes "rep s [] t" "rb_tree t" "descend bs (rs_root s) s = Some m" "m \<noteq> 0"
  shows "2 ^ (length bs div 2 + 1) \<le> length (addrs t) + 1"
proof -
  obtain k where k: "bal t k" "depth t \<le> 2 * k" using assms(2) depth_bal by (fastforce simp: rb_tree_def)
  have "length bs < depth t" using descend_depth [of s 0 t bs m] assms(1,3,4) by (simp add: rep_def)
  then have "length bs div 2 + 1 \<le> k" using k(2) by linarith
  then have "2 ^ (length bs div 2 + 1) \<le> (2 ^ k :: nat)" by (rule power_increasing) simp
  then show ?thesis using bal_nodes [OF k(1)] by linarith
qed

theorem rb_search_short_witness:
  "descend [False] (rs_root pair_example) pair_example = Some 8 \<and> (2 :: nat) ^ (1 div 2 + 1) \<le> length (addrs (Nd True Lf 4 (Nd False Lf 8 Lf))) + 1"
  using rb_search_short [OF pair_example_rep, of "[False]" 8] by (simp add: rb_tree_def pair_example_def rget_def)

subsection \<open>Trees as sequences of nodes\<close>

text \<open>What the users of a tree rely on: the nodes in their order.\<close>

definition holds :: "rb_root \<Rightarrow> u32 list \<Rightarrow> bool" where
  "holds s xs \<longleftrightarrow> (\<exists>t. rep s [] t \<and> rb_tree t \<and> addrs t = xs)"

lemma holds_erase:
  assumes "holds s (xs @ n # ys)"
  shows "\<exists>s'. rb_erase n s = Some s' \<and> holds s' (xs @ ys) \<and> same_at s s' (- set (xs @ ys))"
proof -
  obtain t where t: "rep s [] t" "rb_tree t" "addrs t = xs @ n # ys" using assms by (auto simp: holds_def)
  obtain ctx c l r where f: "rep s ctx (Nd c l n r)" "t = plug ctx (Nd c l n r)" "xs = before ctx @ addrs l" "ys = addrs r @ after ctx"
    using focus_rep [OF t(1,3)] by blast
  from rb_erase_rep [OF f(1)] t(2) f(2) obtain s' u where "rb_erase n s = Some s'" "rep s' [] u" "rb_tree u" "addrs u = xs @ ys" "same_at s s' (- set (addrs u))"
    using f(3,4) by auto
  then show ?thesis unfolding holds_def by metis
qed

lemma holds_next: "holds s (xs @ n # ys) \<Longrightarrow> rb_next n s = Some (hd0 ys)"
  using focus_rep rb_next_ctx unfolding holds_def by blast

lemma holds_prev: "holds s (xs @ n # ys) \<Longrightarrow> rb_prev n s = Some (hd0 (rev xs))"
  using focus_rep rb_prev_ctx unfolding holds_def by blast

lemma holds_nodes: "holds s xs \<Longrightarrow> distinct xs \<and> 0 \<notin> set xs"
  using tree_zero by (auto simp: holds_def rep_def)

lemma holds_frame: "holds s xs \<Longrightarrow> same_at s s' (set xs) \<Longrightarrow> rs_root s' = rs_root s \<Longrightarrow> holds s' xs"
  using tree_at_same [of s s'] unfolding holds_def rep_def by auto

lemma holds_empty: "holds s [] \<longleftrightarrow> rs_root s = 0"
proof -
  have "addrs t = [] \<longleftrightarrow> t = Lf" for t by (cases t) auto
  then show ?thesis by (auto simp: holds_def rep_def rb_tree_def)
qed

lemma not_empty_node:
  assumes "holds s xs" "n \<in> set xs"
  shows "RB_EMPTY_NODE n s = Some False"
proof -
  obtain us vs where "xs = us @ n # vs" using split_list assms(2) by metis
  then obtain ctx c l r where f: "rep s ctx (Nd c l n r)" using assms(1) focus_rep unfolding holds_def by metis
  have "top ctx \<noteq> n" using f top_in [of ctx] rep_read(2) [OF f] by (cases "ctx = []") (auto simp: rep_def)
  then show ?thesis using rep_read(1) [OF f] by (auto simp: RB_EMPTY_NODE_def)
qed

lemma clear_node:
  assumes "rs_heap s n = Some nd" "n \<noteq> 0" "aligned n"
  shows "\<exists>s'. RB_CLEAR_NODE n s = Some s' \<and> RB_EMPTY_NODE n s' = Some True \<and> only_in {n} s s'"
  using assms by (auto simp: RB_CLEAR_NODE_def RB_EMPTY_NODE_def rb_set_parent_def rupd_def rget_def only_in_def same_at_def rb_node_simps)

lemma deref_link_rep: "rep s ctx t \<Longrightarrow> deref_link (link_of ctx) s = Some (ptr t)"
  by (cases ctx rule: top.cases) (auto simp: rep_def node_is_def rget_def)

text \<open>The heap determines the tree.\<close>

lemma tree_at_unique: "tree_at s p t \<Longrightarrow> tree_at s p u \<Longrightarrow> ptr t = ptr u \<Longrightarrow> t = u"
proof (induction t arbitrary: p u)
  case Lf
  then show ?case using tree_ptr_0 [of s p u] by auto
next
  case (Nd c l a r)
  have "a \<noteq> 0" using Nd.prems(1) by (simp add: node_is_def)
  then obtain c' l' r' where u: "u = Nd c' l' a r'" using Nd.prems(3) by (cases u) auto
  have "c = c'" "ptr l = ptr l'" "ptr r = ptr r'" using Nd.prems(1,2) u by (auto simp: node_is_def)
  then show ?case using Nd.IH(1) [of a l'] Nd.IH(2) [of a r'] Nd.prems(1,2) u by auto
qed

lemma rep_unique: "rep s [] t \<Longrightarrow> rep s [] u \<Longrightarrow> t = u"
  using tree_at_unique [of s 0 t u] by (simp add: rep_def)

lemma holds_insert:
  assumes "rep s ctx Lf" "holds s (before ctx @ after ctx)" "n \<noteq> 0" "aligned n" "n \<notin> set (before ctx @ after ctx)" "rs_heap s n \<noteq> None"
  shows "\<exists>s1 s2. rb_link_node n (top ctx) (link_of ctx) s = Some s1 \<and> rb_insert_color n s1 = Some s2 \<and> holds s2 (before ctx @ n # after ctx)
    \<and> same_at s s2 (- insert n (set (before ctx @ after ctx)))"
proof -
  have a: "addrs (plug ctx Lf) = before ctx @ after ctx" by (simp add: addrs_around)
  then have n: "set (ctx_addrs ctx) = set (before ctx @ after ctx)" using set_addrs_plug [of ctx Lf] by simp
  obtain t where t: "rep s [] t" "rb_tree t" "addrs t = before ctx @ after ctx" using assms(2) by (auto simp: holds_def)
  have "t = plug ctx Lf" using rep_unique [OF t(1)] assms(1) rep_plug [of s ctx Lf] by blast
  then show ?thesis using link_insert_rep [OF assms(1) _ assms(3,4) _ assms(6)] t(2) assms(5) n unfolding holds_def by metis
qed

end
