(* ===== verification/TimerQueue.thy ===== *)
theory TimerQueue
  imports RbErase
begin

text \<open>
  Queues of timers (\<^verbatim>\<open>lib/timerqueue.c\<close>, \<^verbatim>\<open>include/linux/timerqueue.h\<close>), which the high-resolution timers use, on top of the red-black trees. What they rely on of a
  tree is the interface \<open>node_order\<close>, whose laws are discharged for the operations of \<^verbatim>\<open>lib/rbtree.c\<close>; the request trees of \<open>ElvTree\<close> rely on it too.
\<close>

subsection \<open>Operations of timer queues\<close>

text \<open>The tree with the memory of the timer nodes, whose first member is the tree node; the cached first timer; the expiry times of the nodes; and
  whether the two \<^verbatim>\<open>WARN_ON_ONCE\<close> have fired.\<close>

record timerqueue_head =
  tq_head :: rb_root
  tq_next :: u32
  tq_expires :: "u32 \<Rightarrow> u64"
  tq_warned_add :: bool
  tq_warned_del :: bool

definition timerqueue_init_head :: "timerqueue_head \<Rightarrow> timerqueue_head" where
  "timerqueue_init_head h = h\<lparr>tq_head := (tq_head h)\<lparr>rs_root := 0\<rparr>, tq_next := 0\<rparr>"

definition timerqueue_init :: "u32 \<Rightarrow> timerqueue_head \<Rightarrow> timerqueue_head option" where
  "timerqueue_init node h = map_option (\<lambda>s. h\<lparr>tq_head := s\<rparr>) (RB_CLEAR_NODE node (tq_head h))"

text \<open>The loop of \<^verbatim>\<open>timerqueue_add\<close>: the parent of the new node and the link it goes to.\<close>

partial_function (option) timerqueue_search :: "(u32 \<Rightarrow> u64) \<Rightarrow> u32 \<Rightarrow> u32 \<Rightarrow> rb_link \<Rightarrow> rb_root \<Rightarrow> (u32 \<times> rb_link) option" where
  "timerqueue_search expires node parent p s = do {
     q \<leftarrow> deref_link p s;
     if q = 0 then Some (parent, p)
     else if sint (expires node) < sint (expires q) then timerqueue_search expires node q (AtLeft q) s
     else timerqueue_search expires node q (AtRight q) s }"

definition timerqueue_add :: "u32 \<Rightarrow> timerqueue_head \<Rightarrow> timerqueue_head option" where
  "timerqueue_add node h = do {
     empty \<leftarrow> RB_EMPTY_NODE node (tq_head h);
     let h = (if \<not> empty then h\<lparr>tq_warned_add := True\<rparr> else h);
     (parent, p) \<leftarrow> timerqueue_search (tq_expires h) node 0 AtRoot (tq_head h);
     s \<leftarrow> rb_link_node node parent p (tq_head h);
     s \<leftarrow> rb_insert_color node s;
     let h = h\<lparr>tq_head := s\<rparr>;
     Some (if tq_next h = 0 \<or> sint (tq_expires h node) < sint (tq_expires h (tq_next h)) then h\<lparr>tq_next := node\<rparr> else h) }"

definition timerqueue_del :: "u32 \<Rightarrow> timerqueue_head \<Rightarrow> timerqueue_head option" where
  "timerqueue_del node h = do {
     empty \<leftarrow> RB_EMPTY_NODE node (tq_head h);
     let h = (if empty then h\<lparr>tq_warned_del := True\<rparr> else h);
     h \<leftarrow> (if tq_next h = node then do { rbn \<leftarrow> rb_next node (tq_head h); Some (h\<lparr>tq_next := rbn\<rparr>) } else Some h);
     s \<leftarrow> rb_erase node (tq_head h);
     s \<leftarrow> RB_CLEAR_NODE node s;
     Some (h\<lparr>tq_head := s\<rparr>) }"

definition timerqueue_getnext :: "timerqueue_head \<Rightarrow> u32" where
  "timerqueue_getnext h = tq_next h"

definition timerqueue_iterate_next :: "u32 \<Rightarrow> timerqueue_head \<Rightarrow> u32 option" where
  "timerqueue_iterate_next node h = (if node = 0 then Some 0 else rb_next node (tq_head h))"

subsection \<open>The interface\<close>

text \<open>Nodes kept in an order: walking to the next one and taking one out. From these laws follow the facts that timer queues and request trees share.\<close>

locale node_order =
  fixes linked :: "rb_root \<Rightarrow> u32 list \<Rightarrow> bool"
    and nxt :: "u32 \<Rightarrow> rb_root \<Rightarrow> u32 option"
    and del :: "u32 \<Rightarrow> rb_root \<Rightarrow> rb_root option"
  assumes linked_nodes: "linked s xs \<Longrightarrow> distinct xs \<and> 0 \<notin> set xs"
    and nxt_law: "linked s (us @ n # vs) \<Longrightarrow> nxt n s = Some (hd0 vs)"
    and del_law: "linked s (us @ n # vs) \<Longrightarrow> \<exists>s'. del n s = Some s' \<and> linked s' (us @ vs) \<and> same_at s s' (- set (us @ vs))"
    and frame_law: "linked s xs \<Longrightarrow> same_at s s' (set xs) \<Longrightarrow> rs_root s' = rs_root s \<Longrightarrow> linked s' xs"
begin

text \<open>Taking out a node and marking it as empty.\<close>

lemma del_clear:
  assumes "linked s xs" "n \<in> set xs" "rs_heap s n \<noteq> None" "aligned n"
  shows "\<exists>s1 s2. del n s = Some s1 \<and> RB_CLEAR_NODE n s1 = Some s2 \<and> linked s2 (remove1 n xs) \<and> RB_EMPTY_NODE n s2 = Some True \<and> same_at s s2 (- set xs)"
proof -
  obtain us vs where xs: "xs = us @ n # vs" using assms(2) split_list by metis
  have d: "distinct xs" "n \<noteq> 0" using linked_nodes [OF assms(1)] assms(2) by auto
  then have r: "remove1 n xs = us @ vs" using xs by (simp add: remove1_append)
  obtain s1 where s1: "del n s = Some s1" "linked s1 (us @ vs)" "same_at s s1 (- set (us @ vs))" using del_law assms(1) xs by blast
  have "rs_heap s1 n = rs_heap s n" using s1(3) d(1) xs by (auto simp: same_at_def)
  then obtain s2 where s2: "RB_CLEAR_NODE n s1 = Some s2" "RB_EMPTY_NODE n s2 = Some True" "only_in {n} s1 s2" using clear_node [of s1 n] assms(3,4) d(2) by auto
  have "linked s2 (us @ vs)" using frame_law [OF s1(2)] s2(3) d(1) xs by (auto simp: only_in_def same_at_def)
  moreover have "same_at s s2 (- set xs)" using s1(3) s2(3) xs by (auto simp: only_in_def same_at_def)
  ultimately show ?thesis using s1(1) s2(1,2) r by auto
qed

text \<open>The node behind the first one is the first one after it is taken out.\<close>

lemma nxt_first: "linked s (n # vs) \<Longrightarrow> nxt n s = Some (hd0 (remove1 n (n # vs)))"
  using nxt_law [of s "[]" n vs] by simp

text \<open>Repeated steps visit all the nodes behind a node in their order.\<close>

lemma nxt_steps:
  assumes "linked s xs" "i < length xs"
  shows "nxt (xs ! i) s = Some (if Suc i < length xs then xs ! Suc i else 0)"
proof -
  have "xs = take i xs @ xs ! i # drop (Suc i) xs" using assms(2) by (simp add: id_take_nth_drop)
  then have "nxt (xs ! i) s = Some (hd0 (drop (Suc i) xs))" using nxt_law assms(1) by metis
  moreover have "hd0 (drop (Suc i) xs) = (if Suc i < length xs then xs ! Suc i else 0)" by (auto simp: hd0_hd hd_drop_conv_nth)
  ultimately show ?thesis by simp
qed

end

interpretation rb: node_order holds rb_next rb_erase
  by (unfold_locales; rule holds_nodes holds_next holds_erase holds_frame; assumption)

subsection \<open>Where a timer goes\<close>

text \<open>Behind every timer that expires no later.\<close>

definition enqueued :: "('a \<Rightarrow> int) \<Rightarrow> 'a \<Rightarrow> 'a list \<Rightarrow> 'a list" where
  "enqueued key n xs = takeWhile (\<lambda>x. key x \<le> key n) xs @ n # dropWhile (\<lambda>x. key x \<le> key n) xs"

lemma set_enqueued: "set (enqueued key n xs) = insert n (set xs)"
  using takeWhile_dropWhile_id [of "\<lambda>x. key x \<le> key n" xs] unfolding enqueued_def by (metis Un_insert_right list.simps(15) set_append)

lemma sorted_enqueued: "sorted (map key xs) \<Longrightarrow> sorted (map key (enqueued key n xs))"
proof (induction xs)
  case (Cons x xs)
  have "enqueued key n (x # xs) = (if key x \<le> key n then x # enqueued key n xs else n # x # xs)" by (simp add: enqueued_def)
  then show ?case using Cons set_enqueued [of key n xs] by auto
qed (simp add: enqueued_def)

lemma hd0_enqueued: "sorted (map key xs) \<Longrightarrow> hd0 (enqueued key n xs) = (if xs = [] \<or> key n < key (hd xs) then n else hd xs)"
  by (cases xs) (auto simp: enqueued_def)

lemma enqueued_split: "(\<forall>x \<in> set us. key x \<le> key n) \<Longrightarrow> (\<forall>x \<in> set vs. key n < key x) \<Longrightarrow> enqueued key n (us @ vs) = us @ n # vs"
proof -
  assume a: "\<forall>x \<in> set us. key x \<le> key n" "\<forall>x \<in> set vs. key n < key x"
  have "takeWhile (\<lambda>x. key x \<le> key n) vs = []" "dropWhile (\<lambda>x. key x \<le> key n) vs = vs" using a(2) by (cases vs; force)+
  then show ?thesis using a(1) by (simp add: enqueued_def takeWhile_append dropWhile_append)
qed

text \<open>The place in the tree that a search has found, between smaller and larger nodes.\<close>

lemma timerqueue_search_rep:
  assumes "rep s ctx t" "sorted (map key (addrs (plug ctx t)))" "\<forall>x \<in> set (before ctx). key x \<le> key n" "\<forall>x \<in> set (after ctx). key n < key x"
    "\<And>x. key x = sint (expires x)"
  shows "\<exists>ctx'. timerqueue_search expires n (top ctx) (link_of ctx) s = Some (top ctx', link_of ctx') \<and> rep s ctx' Lf \<and> plug ctx' Lf = plug ctx t
    \<and> (\<forall>x \<in> set (before ctx'). key x \<le> key n) \<and> (\<forall>x \<in> set (after ctx'). key n < key x)"
  using assms(1-4)
proof (induction t arbitrary: ctx)
  case Lf
  then show ?case using deref_link_rep [OF Lf(1)] by (subst timerqueue_search.simps) auto
next
  case (Nd c l a r)
  have d: "deref_link (link_of ctx) s = Some a" "a \<noteq> 0" using deref_link_rep [OF Nd.prems(1)] rep_read(2) [OF Nd.prems(1)] by simp_all
  have o: "\<forall>x \<in> set (addrs l). key x \<le> key a" "\<forall>x \<in> set (addrs r). key a \<le> key x" using Nd.prems(2) by (auto simp: addrs_around sorted_append)
  show ?case
  proof (cases "key n < key a")
    case True
    have "\<exists>ctx'. timerqueue_search expires n a (AtLeft a) s = Some (top ctx', link_of ctx') \<and> rep s ctx' Lf \<and> plug ctx' Lf = plug ctx (Nd c l a r)
      \<and> (\<forall>x \<in> set (before ctx'). key x \<le> key n) \<and> (\<forall>x \<in> set (after ctx'). key n < key x)"
      using Nd.IH(1) [of "InL c a r # ctx"] Nd.prems o True by (force simp: rep_InL)
    then show ?thesis using d True assms(5) by (subst timerqueue_search.simps) simp
  next
    case False
    have "\<exists>ctx'. timerqueue_search expires n a (AtRight a) s = Some (top ctx', link_of ctx') \<and> rep s ctx' Lf \<and> plug ctx' Lf = plug ctx (Nd c l a r)
      \<and> (\<forall>x \<in> set (before ctx'). key x \<le> key n) \<and> (\<forall>x \<in> set (after ctx'). key n < key x)"
      using Nd.IH(2) [of "InR l c a # ctx"] Nd.prems o False by (force simp: rep_InR)
    then show ?thesis using d False assms(5) by (subst timerqueue_search.simps) simp
  qed
qed

lemma timerqueue_insert:
  assumes "holds s xs" "sorted (map key xs)" "\<And>x. key x = sint (expires x)" "n \<noteq> 0" "aligned n" "n \<notin> set xs" "rs_heap s n \<noteq> None"
  shows "\<exists>parent p s1 s2. timerqueue_search expires n 0 AtRoot s = Some (parent, p) \<and> rb_link_node n parent p s = Some s1
    \<and> rb_insert_color n s1 = Some s2 \<and> holds s2 (enqueued key n xs) \<and> same_at s s2 (- insert n (set xs))"
proof -
  obtain t where t: "rep s [] t" "addrs t = xs" using assms(1) by (auto simp: holds_def)
  from timerqueue_search_rep [OF t(1), of key n expires] t(2) assms(2,3) obtain ctx where c: "timerqueue_search expires n 0 AtRoot s = Some (top ctx, link_of ctx)"
    "rep s ctx Lf" "plug ctx Lf = t" "\<forall>x \<in> set (before ctx). key x \<le> key n" "\<forall>x \<in> set (after ctx). key n < key x" by auto
  have x: "xs = before ctx @ after ctx" using addrs_around [of ctx Lf] c(3) t(2) by simp
  from holds_insert [OF c(2) _ assms(4,5) _ assms(7)] assms(1,6) x obtain s1 s2 where
    "rb_link_node n (top ctx) (link_of ctx) s = Some s1" "rb_insert_color n s1 = Some s2" "holds s2 (before ctx @ n # after ctx)" "same_at s s2 (- insert n (set xs))" by auto
  then show ?thesis using c(1) enqueued_split [OF c(4,5)] x by auto
qed

subsection \<open>The abstract queue\<close>

text \<open>The users of a timer queue initialise nodes, set the expiry time of nodes that are not queued, and add and remove timers. The abstract queue is a list in the order of
  expiry, timers that expire at the same time in the order they were added; it refuses what the users must not do.\<close>

datatype timer_op = Init u32 | Expire u32 u64 | Add u32 | Del u32

record timer_list =
  tl_memory :: "u32 set"
  tl_ready :: "u32 set"
  tl_expires :: "u32 \<Rightarrow> u64"
  tl_queue :: "u32 list"

abbreviation tl_key :: "timer_list \<Rightarrow> u32 \<Rightarrow> int" where
  "tl_key q \<equiv> (\<lambda>x. sint (tl_expires q x))"

fun list_op :: "timer_op \<Rightarrow> timer_list \<Rightarrow> timer_list option" where
  "list_op (Init n) q = (if n \<in> tl_memory q \<and> n \<notin> set (tl_queue q) then Some (q\<lparr>tl_ready := insert n (tl_ready q)\<rparr>) else None)"
| "list_op (Expire n e) q = (if n \<notin> set (tl_queue q) then Some (q\<lparr>tl_expires := (tl_expires q)(n := e)\<rparr>) else None)"
| "list_op (Add n) q = (if n \<in> tl_ready q \<and> n \<notin> set (tl_queue q) then Some (q\<lparr>tl_queue := enqueued (tl_key q) n (tl_queue q)\<rparr>) else None)"
| "list_op (Del n) q = (if n \<in> set (tl_queue q) then Some (q\<lparr>tl_queue := remove1 n (tl_queue q)\<rparr>) else None)"

fun list_run :: "timer_op list \<Rightarrow> timer_list \<Rightarrow> timer_list option" where
  "list_run [] q = Some q"
| "list_run (x # xs) q = do { q \<leftarrow> list_op x q; list_run xs q }"

fun timer_do :: "timer_op \<Rightarrow> timerqueue_head \<Rightarrow> timerqueue_head option" where
  "timer_do (Init n) h = timerqueue_init n h"
| "timer_do (Expire n e) h = Some (h\<lparr>tq_expires := (tq_expires h)(n := e)\<rparr>)"
| "timer_do (Add n) h = timerqueue_add n h"
| "timer_do (Del n) h = timerqueue_del n h"

fun timer_run :: "timer_op list \<Rightarrow> timerqueue_head \<Rightarrow> timerqueue_head option" where
  "timer_run [] h = Some h"
| "timer_run (x # xs) h = do { h \<leftarrow> timer_do x h; timer_run xs h }"

text \<open>The relation between the two: the tree holds the list, in the order of expiry, the cached timer is the first, and initialised timers outside the queue are marked as empty.\<close>

definition memory_ok :: "timer_list \<Rightarrow> rb_root \<Rightarrow> bool" where
  "memory_ok q s \<longleftrightarrow> (\<forall>x \<in> tl_memory q. x \<noteq> 0 \<and> aligned x \<and> rs_heap s x \<noteq> None) \<and> tl_ready q \<subseteq> tl_memory q \<and> set (tl_queue q) \<subseteq> tl_ready q
     \<and> (\<forall>x \<in> tl_ready q - set (tl_queue q). RB_EMPTY_NODE x s = Some True)"

definition queues :: "timerqueue_head \<Rightarrow> timer_list \<Rightarrow> bool" where
  "queues h q \<longleftrightarrow> holds (tq_head h) (tl_queue q) \<and> sorted (map (tl_key q) (tl_queue q)) \<and> timerqueue_getnext h = hd0 (tl_queue q)
     \<and> tq_expires h = tl_expires q \<and> memory_ok q (tq_head h) \<and> \<not> tq_warned_add h \<and> \<not> tq_warned_del h"

lemma same_empty_node: "same_at s s' {x} \<Longrightarrow> RB_EMPTY_NODE x s' = RB_EMPTY_NODE x s"
  by (simp add: RB_EMPTY_NODE_def rget_def same_at_def)

lemma memory_ok_step:
  assumes "memory_ok q s" "same_at s s' (- A)" "\<forall>x \<in> A \<inter> tl_memory q. rs_heap s' x \<noteq> None"
    "tl_memory q' = tl_memory q" "tl_ready q' \<subseteq> tl_memory q" "set (tl_queue q') \<subseteq> tl_ready q'"
    "\<forall>x \<in> tl_ready q' - set (tl_queue q'). x \<in> A \<longrightarrow> RB_EMPTY_NODE x s' = Some True"
    "tl_ready q' - set (tl_queue q') - A \<subseteq> tl_ready q - set (tl_queue q)"
  shows "memory_ok q' s'"
proof -
  have "rs_heap s' x \<noteq> None" if "x \<in> tl_memory q" for x using that assms(1-3) by (cases "x \<in> A") (auto simp: memory_ok_def same_at_def)
  moreover have "RB_EMPTY_NODE x s' = Some True" if "x \<in> tl_ready q' - set (tl_queue q')" for x
    using that assms(1,2,7,8) same_empty_node [of s s' x] by (cases "x \<in> A") (auto simp: memory_ok_def same_at_def)
  ultimately show ?thesis using assms(1,4-6) unfolding memory_ok_def by auto
qed

lemma queue_memory: "queues h q \<Longrightarrow> n \<in> tl_memory q \<Longrightarrow> n \<noteq> 0 \<and> aligned n \<and> (\<exists>nd. rs_heap (tq_head h) n = Some nd)"
  by (auto simp: queues_def memory_ok_def)

lemma holds_heap:
  assumes "holds s xs" "x \<in> set xs"
  shows "rs_heap s x \<noteq> None"
proof -
  obtain t us vs where t: "rep s [] t" "addrs t = us @ x # vs" using assms split_list unfolding holds_def by metis
  obtain ctx c l r where "rep s ctx (Nd c l x r)" using focus_rep [OF t] by blast
  from rep_read [OF this] show ?thesis by (auto simp: rget_def)
qed

lemma holds_aligned:
  assumes "holds s xs" "x \<in> set xs"
  shows "aligned x"
proof -
  obtain t us vs where t: "rep s [] t" "addrs t = us @ x # vs" using assms split_list unfolding holds_def by metis
  then show ?thesis using focus_rep [OF t] by (auto simp: rep_def node_is_def)
qed

lemma init_queues:
  assumes "queues h q" "n \<in> tl_memory q" "n \<notin> set (tl_queue q)"
  shows "\<exists>h'. timerqueue_init n h = Some h' \<and> queues h' (q\<lparr>tl_ready := insert n (tl_ready q)\<rparr>)"
proof -
  obtain nd where n: "n \<noteq> 0" "aligned n" "rs_heap (tq_head h) n = Some nd" using queue_memory [OF assms(1,2)] by blast
  obtain s where s: "RB_CLEAR_NODE n (tq_head h) = Some s" "RB_EMPTY_NODE n s = Some True" "only_in {n} (tq_head h) s" using clear_node [OF n(3,1,2)] by blast
  have q: "holds (tq_head h) (tl_queue q)" "memory_ok q (tq_head h)" using assms(1) by (auto simp: queues_def)
  have "memory_ok (q\<lparr>tl_ready := insert n (tl_ready q)\<rparr>) s"
  proof (rule memory_ok_step [OF q(2), of s "{n}"])
    show "\<forall>x \<in> {n} \<inter> tl_memory q. rs_heap s x \<noteq> None" using s(2) by (auto simp: RB_EMPTY_NODE_def rget_def split: if_splits)
  qed (use s q(2) assms(2) in \<open>auto simp: only_in_def memory_ok_def\<close>)
  moreover have "holds s (tl_queue q)" using holds_frame [OF q(1)] s(3) assms(3) by (auto simp: only_in_def same_at_def)
  ultimately show ?thesis using assms(1) s(1) by (auto simp: timerqueue_init_def queues_def timerqueue_getnext_def)
qed

lemma expire_queues:
  assumes "queues h q" "n \<notin> set (tl_queue q)"
  shows "queues (h\<lparr>tq_expires := (tq_expires h)(n := e)\<rparr>) (q\<lparr>tl_expires := (tl_expires q)(n := e)\<rparr>)"
proof -
  have "map (\<lambda>x. sint (if x = n then e else tl_expires q x)) (tl_queue q) = map (tl_key q) (tl_queue q)" using assms(2) by (auto intro: map_cong)
  then have "sorted (map (\<lambda>x. sint (if x = n then e else tl_expires q x)) (tl_queue q))" using assms(1) by (simp only: queues_def)
  then show ?thesis using assms(1) by (simp add: queues_def memory_ok_def timerqueue_getnext_def)
qed

lemma add_queues:
  assumes "queues h q" "n \<in> tl_ready q" "n \<notin> set (tl_queue q)"
  shows "\<exists>h'. timerqueue_add n h = Some h' \<and> queues h' (q\<lparr>tl_queue := enqueued (tl_key q) n (tl_queue q)\<rparr>)"
proof -
  let ?xs = "enqueued (tl_key q) n (tl_queue q)" and ?q = "q\<lparr>tl_queue := enqueued (tl_key q) n (tl_queue q)\<rparr>"
  have q: "holds (tq_head h) (tl_queue q)" "sorted (map (tl_key q) (tl_queue q))" "memory_ok q (tq_head h)" "tq_expires h = tl_expires q" "tq_next h = hd0 (tl_queue q)"
    "\<not> tq_warned_add h" "\<not> tq_warned_del h" using assms(1) by (auto simp: queues_def timerqueue_getnext_def)
  have "n \<in> tl_memory q" and e: "RB_EMPTY_NODE n (tq_head h) = Some True" using q(3) assms(2,3) by (auto simp: memory_ok_def)
  then obtain nd where n: "n \<noteq> 0" "aligned n" "rs_heap (tq_head h) n = Some nd" using queue_memory [OF assms(1)] by blast
  obtain parent p s1 s2 where s: "timerqueue_search (tq_expires h) n 0 AtRoot (tq_head h) = Some (parent, p)" "rb_link_node n parent p (tq_head h) = Some s1"
    "rb_insert_color n s1 = Some s2" "holds s2 ?xs" "same_at (tq_head h) s2 (- insert n (set (tl_queue q)))"
    using timerqueue_insert [OF q(1,2), of "tq_expires h" n] q(4) n assms(3) by auto
  have "memory_ok ?q s2"
    using holds_heap [OF s(4)] s(5) q(3) assms(2,3)
    by (intro memory_ok_step [OF q(3), of s2 "insert n (set (tl_queue q))"]) (auto simp: set_enqueued memory_ok_def)
  moreover have "hd0 ?xs = (if tq_next h = 0 \<or> sint (tq_expires h n) < sint (tq_expires h (tq_next h)) then n else tq_next h)"
    using hd0_enqueued [OF q(2), of n] q(4,5) rb.linked_nodes [OF q(1)] by (cases "tl_queue q") auto
  ultimately show ?thesis using e s(1-4) q sorted_enqueued [OF q(2), of n]
    by (auto simp: timerqueue_add_def queues_def timerqueue_getnext_def Let_def)
qed

lemma del_queues:
  assumes "queues h q" "n \<in> set (tl_queue q)"
  shows "\<exists>h'. timerqueue_del n h = Some h' \<and> queues h' (q\<lparr>tl_queue := remove1 n (tl_queue q)\<rparr>)"
proof -
  let ?xs = "remove1 n (tl_queue q)"
  have q: "holds (tq_head h) (tl_queue q)" "sorted (map (tl_key q) (tl_queue q))" "memory_ok q (tq_head h)" "tq_expires h = tl_expires q" "tq_next h = hd0 (tl_queue q)"
    "\<not> tq_warned_add h" "\<not> tq_warned_del h" using assms(1) by (auto simp: queues_def timerqueue_getnext_def)
  have m: "n \<in> tl_memory q" using q(3) assms(2) by (auto simp: memory_ok_def)
  then have n: "aligned n" "rs_heap (tq_head h) n \<noteq> None" using queue_memory [OF assms(1)] by auto
  have e: "RB_EMPTY_NODE n (tq_head h) = Some False" using not_empty_node [OF q(1) assms(2)] .
  obtain s1 s2 where s: "rb_erase n (tq_head h) = Some s1" "RB_CLEAR_NODE n s1 = Some s2" "holds s2 ?xs" "RB_EMPTY_NODE n s2 = Some True" "same_at (tq_head h) s2 (- set (tl_queue q))"
    using rb.del_clear [OF q(1) assms(2) n(2,1)] by blast
  obtain x xs where x: "tl_queue q = x # xs" using assms(2) by (cases "tl_queue q") auto
  have nx: "x = n \<Longrightarrow> rb_next n (tq_head h) = Some (hd0 ?xs)" "x \<noteq> n \<Longrightarrow> hd0 ?xs = x" using rb.nxt_first [of "tq_head h" n xs] q(1) x by auto
  have d: "set ?xs = set (tl_queue q) - {n}" using rb.linked_nodes [OF q(1)] by (simp add: set_remove1_eq)
  have "memory_ok (q\<lparr>tl_queue := ?xs\<rparr>) s2"
  proof (rule memory_ok_step [OF q(3) s(5)])
    show "\<forall>y \<in> set (tl_queue q) \<inter> tl_memory q. rs_heap s2 y \<noteq> None" using holds_heap [OF s(3)] s(4) d by (auto simp: RB_EMPTY_NODE_def rget_def split: if_splits)
  qed (use q(3) d s(4) in \<open>auto simp: memory_ok_def\<close>)
  moreover have "sorted (map (tl_key q) ?xs)" using q(2) by (simp add: sorted_map_remove1)
  ultimately show ?thesis using e s(1-3) q nx x by (cases "x = n") (auto simp: timerqueue_del_def queues_def timerqueue_getnext_def)
qed

lemma timer_op_simulated:
  assumes "queues h q" "list_op x q = Some q'"
  shows "\<exists>h'. timer_do x h = Some h' \<and> queues h' q'"
  using assms init_queues [OF assms(1)] expire_queues [OF assms(1)] add_queues [OF assms(1)] del_queues [OF assms(1)]
  by (cases x) (auto split: if_splits)

lemma timer_run_simulated: "queues h q \<Longrightarrow> list_run xs q = Some q' \<Longrightarrow> \<exists>h'. timer_run xs h = Some h' \<and> queues h' q'"
proof (induction xs arbitrary: h q)
  case (Cons x xs)
  then obtain q1 where q1: "list_op x q = Some q1" "list_run xs q1 = Some q'" by (auto split: bind_splits)
  then obtain h1 where "timer_do x h = Some h1" "queues h1 q1" using timer_op_simulated [OF Cons.prems(1)] by blast
  then show ?case using Cons.IH q1(2) by simp
qed simp

subsection \<open>Property of timer queues\<close>

text \<open>C8. Timer queues refine a list in the order of expiry: after \<^verbatim>\<open>timerqueue_init_head\<close>, any sequence of initialisations, changes of the expiry time of timers that are not queued,
  additions and removals that the abstract queue allows runs without a fault and without a warning; \<^verbatim>\<open>timerqueue_getnext\<close> then returns the timer that expires first, the one added first among those that expire
  together, or NULL; and \<^verbatim>\<open>timerqueue_iterate_next\<close> visits the queued timers one after the other.\<close>

theorem timerqueue_refines_list:
  assumes "\<forall>x \<in> M. x \<noteq> 0 \<and> aligned x \<and> rs_heap (tq_head h) x \<noteq> None" "\<not> tq_warned_add h" "\<not> tq_warned_del h"
    "list_run ops \<lparr>tl_memory = M, tl_ready = {}, tl_expires = tq_expires h, tl_queue = []\<rparr> = Some q"
  shows "\<exists>h'. timer_run ops (timerqueue_init_head h) = Some h' \<and> timerqueue_getnext h' = hd0 (tl_queue q) \<and> sorted (map (tl_key q) (tl_queue q))
    \<and> (\<forall>i < length (tl_queue q). timerqueue_iterate_next (tl_queue q ! i) h' = Some (if Suc i < length (tl_queue q) then tl_queue q ! Suc i else 0))
    \<and> \<not> tq_warned_add h' \<and> \<not> tq_warned_del h'"
proof -
  have "queues (timerqueue_init_head h) \<lparr>tl_memory = M, tl_ready = {}, tl_expires = tq_expires h, tl_queue = []\<rparr>"
    using assms(1-3) by (simp add: queues_def timerqueue_init_head_def timerqueue_getnext_def holds_empty memory_ok_def)
  from timer_run_simulated [OF this assms(4)] obtain h' where h': "timer_run ops (timerqueue_init_head h) = Some h'" "queues h' q" by blast
  have k: "holds (tq_head h') (tl_queue q)" using h'(2) by (simp add: queues_def)
  have "timerqueue_iterate_next (tl_queue q ! i) h' = Some (if Suc i < length (tl_queue q) then tl_queue q ! Suc i else 0)" if "i < length (tl_queue q)" for i
  proof -
    have "tl_queue q ! i \<noteq> 0" using rb.linked_nodes [OF k] nth_mem [OF that] by metis
    then show ?thesis using rb.nxt_steps [OF k that] by (simp add: timerqueue_iterate_next_def)
  qed
  then show ?thesis using h' by (auto simp: queues_def)
qed

definition timers_example :: timerqueue_head where
  "timers_example = \<lparr>tq_head = \<lparr>rs_heap = [4 \<mapsto> \<lparr>rb_parent_color = 0, rb_right = 0, rb_left = 0\<rparr>, 8 \<mapsto> \<lparr>rb_parent_color = 0, rb_right = 0, rb_left = 0\<rparr>], rs_root = 0\<rparr>,
     tq_next = 0, tq_expires = (\<lambda>x. 0), tq_warned_add = False, tq_warned_del = False\<rparr>"

theorem timerqueue_refines_list_witness:
  "\<exists>h'. timer_run [Init 4, Init 8, Expire 4 7, Expire 8 (- 1), Add 4, Add 8] (timerqueue_init_head timers_example) = Some h' \<and> timerqueue_getnext h' = 8
    \<and> timerqueue_iterate_next 8 h' = Some 4"
proof -
  let ?ops = "[Init 4, Init 8, Expire 4 7, Expire 8 (- 1), Add 4, Add 8]"
  let ?q = "\<lparr>tl_memory = {4, 8}, tl_ready = {8, 4}, tl_expires = (\<lambda>x. 0)(4 := 7, 8 := - 1), tl_queue = [8, 4]\<rparr> :: timer_list"
  have m: "\<forall>x \<in> {4, 8}. x \<noteq> 0 \<and> aligned x \<and> rs_heap (tq_head timers_example) x \<noteq> None" by (simp add: timers_example_def aligned_def)
  have w: "\<not> tq_warned_add timers_example" "\<not> tq_warned_del timers_example" by (simp_all add: timers_example_def)
  have r: "list_run ?ops \<lparr>tl_memory = {4, 8}, tl_ready = {}, tl_expires = tq_expires timers_example, tl_queue = []\<rparr> = Some ?q"
    by (simp add: timers_example_def enqueued_def)
  obtain h' where h': "timer_run ?ops (timerqueue_init_head timers_example) = Some h'" "timerqueue_getnext h' = hd0 [8, 4]"
    "\<forall>i < length [8, 4 :: u32]. timerqueue_iterate_next ([8, 4] ! i) h' = Some (if Suc i < length [8, 4 :: u32] then [8, 4] ! Suc i else 0)"
    using timerqueue_refines_list [OF m w r] by auto
  have "timerqueue_iterate_next 8 h' = Some 4" using h'(3) [rule_format, of 0] by simp
  then show ?thesis using h'(1,2) by (intro exI [of _ h']) simp
qed

end
