(* ===== verification/ElvTree.thy ===== *)
theory ElvTree
  imports TimerQueue
begin

text \<open>
  The sorted trees of requests that the I/O schedulers keep (\<^verbatim>\<open>elv_rb_add\<close>, \<^verbatim>\<open>elv_rb_del\<close>, \<^verbatim>\<open>elv_rb_find\<close>, \<^verbatim>\<open>elv_rb_former_request\<close> and \<^verbatim>\<open>elv_rb_latter_request\<close> of
  \<^verbatim>\<open>block/elevator.c\<close>). A request is its address; its tree node is the member at offset \<open>off\<close>, which the layout of the structure gives, and \<open>pos\<close> is the sector it
  starts at (\<^verbatim>\<open>blk_rq_pos\<close>).
\<close>

subsection \<open>Operations\<close>

text \<open>The loop of \<^verbatim>\<open>elv_rb_add\<close>: a request at the same sector, or the parent of the new node and the link it goes to.\<close>

partial_function (option) elv_rb_search :: "u32 \<Rightarrow> (u32 \<Rightarrow> u64) \<Rightarrow> u32 \<Rightarrow> u32 \<Rightarrow> rb_link \<Rightarrow> rb_root \<Rightarrow> (u32 + u32 \<times> rb_link) option" where
  "elv_rb_search off pos rq parent p s = do {
     q \<leftarrow> deref_link p s;
     if q = 0 then Some (Inr (parent, p))
     else if pos rq < pos (q - off) then elv_rb_search off pos rq q (AtLeft q) s
     else if pos rq > pos (q - off) then elv_rb_search off pos rq q (AtRight q) s
     else Some (Inl (q - off)) }"

definition elv_rb_add :: "u32 \<Rightarrow> (u32 \<Rightarrow> u64) \<Rightarrow> u32 \<Rightarrow> rb_root \<Rightarrow> (u32 \<times> rb_root) option" where
  "elv_rb_add off pos rq s = do {
     found \<leftarrow> elv_rb_search off pos rq 0 AtRoot s;
     case found of
       Inl alias \<Rightarrow> Some (alias, s)
     | Inr (parent, p) \<Rightarrow> do {
         s \<leftarrow> rb_link_node (rq + off) parent p s;
         s \<leftarrow> rb_insert_color (rq + off) s;
         Some (0, s) } }"

text \<open>\<^verbatim>\<open>BUG_ON\<close> is \<open>None\<close>.\<close>

definition elv_rb_del :: "u32 \<Rightarrow> u32 \<Rightarrow> rb_root \<Rightarrow> rb_root option" where
  "elv_rb_del off rq s = do {
     empty \<leftarrow> RB_EMPTY_NODE (rq + off) s;
     if empty then None
     else do {
       s \<leftarrow> rb_erase (rq + off) s;
       RB_CLEAR_NODE (rq + off) s } }"

partial_function (option) elv_find_loop :: "u32 \<Rightarrow> (u32 \<Rightarrow> u64) \<Rightarrow> u64 \<Rightarrow> u32 \<Rightarrow> rb_root \<Rightarrow> u32 option" where
  "elv_find_loop off pos sector n s =
     (if n = 0 then Some 0
      else do {
        nd \<leftarrow> rget n s;
        if sector < pos (n - off) then elv_find_loop off pos sector (rb_left nd) s
        else if sector > pos (n - off) then elv_find_loop off pos sector (rb_right nd) s
        else Some (n - off) })"

definition elv_rb_find :: "u32 \<Rightarrow> (u32 \<Rightarrow> u64) \<Rightarrow> u64 \<Rightarrow> rb_root \<Rightarrow> u32 option" where
  "elv_rb_find off pos sector s = elv_find_loop off pos sector (rs_root s) s"

definition elv_rb_former_request :: "u32 \<Rightarrow> u32 \<Rightarrow> rb_root \<Rightarrow> u32 option" where
  "elv_rb_former_request off rq s = map_option (\<lambda>n. if n \<noteq> 0 then n - off else 0) (rb_prev (rq + off) s)"

definition elv_rb_latter_request :: "u32 \<Rightarrow> u32 \<Rightarrow> rb_root \<Rightarrow> u32 option" where
  "elv_rb_latter_request off rq s = map_option (\<lambda>n. if n \<noteq> 0 then n - off else 0) (rb_next (rq + off) s)"

subsection \<open>Trees as maps from sectors\<close>

abbreviation rq_key :: "u32 \<Rightarrow> (u32 \<Rightarrow> u64) \<Rightarrow> u32 \<Rightarrow> int" where
  "rq_key off pos x \<equiv> uint (pos (x - off))"

text \<open>The tree holds requests at different sectors, in their order.\<close>

definition sorted_requests :: "u32 \<Rightarrow> (u32 \<Rightarrow> u64) \<Rightarrow> rb_root \<Rightarrow> u32 list \<Rightarrow> bool" where
  "sorted_requests off pos s rs \<longleftrightarrow> holds s (map (\<lambda>r. r + off) rs) \<and> sorted (map (uint \<circ> pos) rs) \<and> distinct (map pos rs)"

definition rq_at :: "(u32 \<Rightarrow> u64) \<Rightarrow> u32 list \<Rightarrow> u64 \<rightharpoonup> u32" where
  "rq_at pos rs = map_of (map (\<lambda>r. (pos r, r)) rs)"

definition or_null :: "u32 option \<Rightarrow> u32" where
  "or_null r = (case r of None \<Rightarrow> 0 | Some r \<Rightarrow> r)"

lemma rq_at_Some: "distinct (map pos rs) \<Longrightarrow> rq_at pos rs k = Some r \<longleftrightarrow> r \<in> set rs \<and> pos r = k"
  unfolding rq_at_def by (subst map_of_eq_Some_iff) (auto simp: comp_def)

lemma rq_at_None: "rq_at pos rs k = None \<longleftrightarrow> k \<notin> pos ` set rs"
  by (auto simp: rq_at_def map_of_eq_None_iff image_image)

text \<open>What the nodes of a tree say of the requests.\<close>

lemma key_less: "pos r < pos r' \<longleftrightarrow> uint (pos r) < uint (pos r')" for pos :: "u32 \<Rightarrow> u64"
  by (simp add: word_less_def)

lemma elv_find_loop_rep:
  "tree_at s p t \<Longrightarrow> sorted (map (rq_key off pos) (addrs t)) \<Longrightarrow> distinct (map (\<lambda>x. pos (x - off)) (addrs t))
    \<Longrightarrow> elv_find_loop off pos sector (ptr t) s = Some (or_null (rq_at pos (map (\<lambda>x. x - off) (addrs t)) sector))"
proof (induction t arbitrary: p)
  case Lf
  then show ?case by (subst elv_find_loop.simps) (simp add: or_null_def rq_at_def)
next
  case (Nd c l a r)
  have n: "node_is s a p c (ptr l) (ptr r)" "tree_at s a l" "tree_at s a r" using Nd.prems(1) by simp_all
  obtain nd where nd: "rget a s = Some nd" "rb_left nd = ptr l" "rb_right nd = ptr r" "a \<noteq> 0" using node_read [OF n(1)] node_address [OF n(1)] by blast
  let ?at = "\<lambda>t. rq_at pos (map (\<lambda>x. x - off) (addrs t)) sector"
  have at: "?at (Nd c l a r) = (case ?at l of Some q \<Rightarrow> Some q | None \<Rightarrow> if sector = pos (a - off) then Some (a - off) else ?at r)"
    by (simp add: rq_at_def map_add_def comp_def split: option.splits)
  have o: "\<forall>x \<in> set (addrs l). pos (x - off) < pos (a - off)" "\<forall>x \<in> set (addrs r). pos (a - off) < pos (x - off)"
    using Nd.prems(2,3) by (auto simp: sorted_append image_iff word_le_def order.strict_iff_order dest: sym)
  have L: "elv_find_loop off pos sector (ptr l) s = Some (or_null (?at l))" and R: "elv_find_loop off pos sector (ptr r) s = Some (or_null (?at r))"
    using Nd.IH n(2,3) Nd.prems(2,3) by (auto simp: sorted_append)
  consider "sector < pos (a - off)" | "sector > pos (a - off)" | "sector = pos (a - off)" by fastforce
  then show ?case
  proof cases
    case 1
    then have "?at r = None" using o by (force simp: rq_at_None image_image)
    then have "?at (Nd c l a r) = ?at l" using 1 unfolding at by (auto split: option.splits)
    then show ?thesis using L nd 1 by (subst elv_find_loop.simps) simp
  next
    case 2
    then have "?at l = None" using o by (force simp: rq_at_None image_image)
    then have "?at (Nd c l a r) = ?at r" using 2 unfolding at by auto
    then show ?thesis using R nd 2 by (subst elv_find_loop.simps) auto
  next
    case 3
    then have "?at l = None" using o by (force simp: rq_at_None image_image)
    then have "?at (Nd c l a r) = Some sector_rq" if "sector_rq = a - off" for sector_rq using 3 that unfolding at by simp
    then show ?thesis using nd 3 by (subst elv_find_loop.simps) (simp add: or_null_def)
  qed
qed

text \<open>A search ends at a request at the same sector, or at a hole between smaller and larger requests.\<close>

definition elv_place :: "u32 \<Rightarrow> (u32 \<Rightarrow> u64) \<Rightarrow> u32 \<Rightarrow> rb_root \<Rightarrow> rbt \<Rightarrow> (u32 + u32 \<times> rb_link) \<Rightarrow> bool" where
  "elv_place off pos rq s u res = (case res of
       Inl a \<Rightarrow> a + off \<in> set (addrs u) \<and> pos a = pos rq
     | Inr (parent, p) \<Rightarrow> \<exists>ctx. parent = top ctx \<and> p = link_of ctx \<and> rep s ctx Lf \<and> plug ctx Lf = u
         \<and> (\<forall>x \<in> set (before ctx). pos (x - off) < pos rq) \<and> (\<forall>x \<in> set (after ctx). pos rq < pos (x - off)))"

lemma elv_rb_search_rep:
  "rep s ctx t \<Longrightarrow> sorted (map (rq_key off pos) (addrs (plug ctx t))) \<Longrightarrow> \<forall>x \<in> set (before ctx). pos (x - off) < pos rq
    \<Longrightarrow> \<forall>x \<in> set (after ctx). pos rq < pos (x - off)
    \<Longrightarrow> \<exists>res. elv_rb_search off pos rq (top ctx) (link_of ctx) s = Some res \<and> elv_place off pos rq s (plug ctx t) res"
proof (induction t arbitrary: ctx)
  case Lf
  then show ?case using deref_link_rep [OF Lf(1)] by (subst elv_rb_search.simps) (auto simp: elv_place_def)
next
  case (Nd c l a r)
  have d: "deref_link (link_of ctx) s = Some a" "a \<noteq> 0" using deref_link_rep [OF Nd.prems(1)] rep_read(2) [OF Nd.prems(1)] by simp_all
  have o: "\<forall>x \<in> set (addrs l). pos (x - off) \<le> pos (a - off)" "\<forall>x \<in> set (addrs r). pos (a - off) \<le> pos (x - off)"
    using Nd.prems(2) by (auto simp: addrs_around sorted_append word_le_def)
  consider "pos rq < pos (a - off)" | "pos rq > pos (a - off)" | "pos rq = pos (a - off)" by fastforce
  then show ?case
  proof cases
    case 1
    have "\<forall>x \<in> set (after (InL c a r # ctx)). pos rq < pos (x - off)" using 1 o Nd.prems(4) by (auto intro: order.strict_trans2)
    then have "\<exists>res. elv_rb_search off pos rq a (AtLeft a) s = Some res \<and> elv_place off pos rq s (plug ctx (Nd c l a r)) res"
      using Nd.IH(1) [of "InL c a r # ctx"] Nd.prems(1-3) by (simp add: rep_InL)
    then show ?thesis using d 1 by (subst elv_rb_search.simps) simp
  next
    case 2
    have "\<forall>x \<in> set (before (InR l c a # ctx)). pos (x - off) < pos rq" using 2 o Nd.prems(3) by (auto intro: order.strict_trans1)
    then have "\<exists>res. elv_rb_search off pos rq a (AtRight a) s = Some res \<and> elv_place off pos rq s (plug ctx (Nd c l a r)) res"
      using Nd.IH(2) [of "InR l c a # ctx"] Nd.prems(1,2,4) by (simp add: rep_InR)
    then show ?thesis using d 2 by (subst elv_rb_search.simps) auto
  next
    case 3
    then show ?thesis using d by (subst elv_rb_search.simps) (auto simp: elv_place_def addrs_around)
  qed
qed

lemma elv_rb_search_root:
  assumes "rep s [] t" "sorted (map (rq_key off pos) (addrs t))"
  shows "\<exists>res. elv_rb_search off pos rq 0 AtRoot s = Some res \<and> elv_place off pos rq s t res"
  using elv_rb_search_rep [OF assms(1)] assms(2) by simp

lemma requests_nodes:
  assumes "sorted_requests off pos s rs"
  shows "\<exists>t. rep s [] t \<and> rb_tree t \<and> addrs t = map (\<lambda>r. r + off) rs \<and> sorted (map (rq_key off pos) (addrs t)) \<and> distinct (map (\<lambda>x. pos (x - off)) (addrs t))
    \<and> map (\<lambda>x. x - off) (addrs t) = rs"
  using assms by (auto simp: sorted_requests_def holds_def comp_def)

lemma elv_rb_find_map:
  assumes "sorted_requests off pos s rs"
  shows "elv_rb_find off pos sector s = Some (or_null (rq_at pos rs sector))"
proof -
  obtain t where t: "rep s [] t" "sorted (map (rq_key off pos) (addrs t))" "distinct (map (\<lambda>x. pos (x - off)) (addrs t))" "map (\<lambda>x. x - off) (addrs t) = rs"
    using requests_nodes [OF assms] by blast
  have "tree_at s 0 t" "rs_root s = ptr t" using t(1) by (simp_all add: rep_def)
  then show ?thesis using elv_find_loop_rep [OF _ t(2,3)] t(4) by (simp add: elv_rb_find_def)
qed

lemma elv_rb_add_taken:
  assumes "sorted_requests off pos s rs" "rq_at pos rs (pos rq) = Some r"
  shows "elv_rb_add off pos rq s = Some (r, s)"
proof -
  obtain t where t: "rep s [] t" "addrs t = map (\<lambda>r. r + off) rs" "sorted (map (rq_key off pos) (addrs t))" "distinct (map (\<lambda>x. pos (x - off)) (addrs t))"
    "map (\<lambda>x. x - off) (addrs t) = rs" using requests_nodes [OF assms(1)] by blast
  have r: "r \<in> set rs" "pos r = pos rq" "distinct (map pos rs)" using assms rq_at_Some [of pos rs] by (auto simp: sorted_requests_def)
  obtain res where res: "elv_rb_search off pos rq 0 AtRoot s = Some res" "elv_place off pos rq s t res" using elv_rb_search_root t by blast
  have "res = Inl r"
  proof (cases res)
    case (Inl a)
    then have "a \<in> set rs" "pos a = pos r" using res(2) t(2) r(2) by (auto simp: elv_place_def)
    then show ?thesis using Inl r by (auto simp: distinct_map inj_on_def)
  next
    case (Inr pp)
    then obtain ctx where c: "plug ctx Lf = t" "\<forall>x \<in> set (before ctx). pos (x - off) < pos rq" "\<forall>x \<in> set (after ctx). pos rq < pos (x - off)" using res(2) by (cases pp) (auto simp: elv_place_def)
    have "r + off \<in> set (addrs t)" using t(2) r(1) by auto
    then have "r + off \<in> set (before ctx @ after ctx)" using c(1) addrs_around [of ctx Lf] by simp
    then show ?thesis using c(2,3) r(2) by auto
  qed
  then show ?thesis using res(1) by (simp add: elv_rb_add_def)
qed

lemma elv_rb_add_new:
  assumes "sorted_requests off pos s rs" "rq_at pos rs (pos rq) = None" "rq + off \<noteq> 0" "aligned (rq + off)" "rq \<notin> set rs" "rs_heap s (rq + off) \<noteq> None"
  shows "\<exists>s' rs'. elv_rb_add off pos rq s = Some (0, s') \<and> sorted_requests off pos s' rs' \<and> set rs' = insert rq (set rs)"
proof -
  obtain t where t: "rep s [] t" "rb_tree t" "addrs t = map (\<lambda>r. r + off) rs" "sorted (map (rq_key off pos) (addrs t))" "distinct (map (\<lambda>x. pos (x - off)) (addrs t))"
    "map (\<lambda>x. x - off) (addrs t) = rs" using requests_nodes [OF assms(1)] by blast
  have h: "holds s (map (\<lambda>r. r + off) rs)" using assms(1) by (simp add: sorted_requests_def)
  obtain res where res: "elv_rb_search off pos rq 0 AtRoot s = Some res" "elv_place off pos rq s t res" using elv_rb_search_root t by blast
  have "\<exists>ctx. res = Inr (top ctx, link_of ctx) \<and> rep s ctx Lf \<and> plug ctx Lf = t
    \<and> (\<forall>x \<in> set (before ctx). pos (x - off) < pos rq) \<and> (\<forall>x \<in> set (after ctx). pos rq < pos (x - off))"
    using res(2) t(3) assms(2) by (cases res) (auto simp: rq_at_None elv_place_def image_iff)
  then obtain ctx where c: "res = Inr (top ctx, link_of ctx)" "rep s ctx Lf" "plug ctx Lf = t" "\<forall>x \<in> set (before ctx). pos (x - off) < pos rq"
    "\<forall>x \<in> set (after ctx). pos rq < pos (x - off)" by blast
  have x: "map (\<lambda>r. r + off) rs = before ctx @ after ctx" using addrs_around [of ctx Lf] c(3) t(3) by simp
  have "rq + off \<notin> set (before ctx @ after ctx)" using assms(5) unfolding x [symmetric] by auto
  from holds_insert [OF c(2) _ assms(3,4) this assms(6)] h x obtain s1 s2 where
    s: "rb_link_node (rq + off) (top ctx) (link_of ctx) s = Some s1" "rb_insert_color (rq + off) s1 = Some s2" "holds s2 (before ctx @ (rq + off) # after ctx)" by auto
  let ?rs = "map (\<lambda>x. x - off) (before ctx @ (rq + off) # after ctx)"
  have rs: "rs = map (\<lambda>x. x - off) (before ctx) @ map (\<lambda>x. x - off) (after ctx)" using x by (metis map_append t(3,6))
  have "set ?rs = insert rq (set rs)" unfolding rs by auto
  moreover have "distinct (map pos ?rs)" using t(5) c(4,5) unfolding t(3) x by (auto simp: comp_def image_iff)
  moreover have "sorted (map (uint \<circ> pos) ?rs)" using t(4) c(4,5) unfolding t(3) x by (auto simp: sorted_append word_less_def comp_def intro: less_imp_le)
  moreover have "map (\<lambda>r. r + off) ?rs = before ctx @ (rq + off) # after ctx" by (simp add: comp_def)
  ultimately have "sorted_requests off pos s2 ?rs \<and> set ?rs = insert rq (set rs)" using s(3) unfolding sorted_requests_def by presburger
  then show ?thesis using res(1) c(1) s(1,2) unfolding elv_rb_add_def by auto
qed

lemma elv_rb_del_map:
  assumes "sorted_requests off pos s rs" "rq \<in> set rs" "aligned (rq + off)" "rs_heap s (rq + off) \<noteq> None"
  shows "\<exists>s'. elv_rb_del off rq s = Some s' \<and> sorted_requests off pos s' (remove1 rq rs) \<and> RB_EMPTY_NODE (rq + off) s' = Some True"
proof -
  have h: "holds s (map (\<lambda>r. r + off) rs)" "rq + off \<in> set (map (\<lambda>r. r + off) rs)" using assms(1,2) by (auto simp: sorted_requests_def)
  obtain s1 s2 where s: "rb_erase (rq + off) s = Some s1" "RB_CLEAR_NODE (rq + off) s1 = Some s2" "holds s2 (remove1 (rq + off) (map (\<lambda>r. r + off) rs))"
    "RB_EMPTY_NODE (rq + off) s2 = Some True" using rb.del_clear [OF h assms(4,3)] by blast
  have "inj (\<lambda>r. r + off)" by (simp add: inj_def)
  then have "remove1 (rq + off) (map (\<lambda>r. r + off) rs) = map (\<lambda>r. r + off) (remove1 rq rs)" by (induction rs) (auto dest: injD)
  moreover have "distinct (map pos (remove1 rq rs))" using assms(1) by (auto simp: sorted_requests_def distinct_map intro: inj_on_diff)
  moreover have "sorted (map (uint \<circ> pos) (remove1 rq rs))" using assms(1) by (simp add: sorted_requests_def sorted_map_remove1)
  ultimately have "sorted_requests off pos s2 (remove1 rq rs)" using s(3) unfolding sorted_requests_def by presburger
  then show ?thesis using s(1,2,4) not_empty_node [OF h] by (simp add: elv_rb_del_def)
qed

text \<open>Two lists of the same requests give the same map.\<close>

lemma rq_at_insert: "distinct (map pos rs) \<Longrightarrow> distinct (map pos rs') \<Longrightarrow> set rs' = insert rq (set rs) \<Longrightarrow> pos rq \<notin> pos ` set rs \<Longrightarrow> rq_at pos rs' = (rq_at pos rs)(pos rq \<mapsto> rq)"
proof
  fix k
  assume a: "distinct (map pos rs)" "distinct (map pos rs')" "set rs' = insert rq (set rs)" "pos rq \<notin> pos ` set rs"
  have "rq_at pos rs' k = Some r \<longleftrightarrow> ((rq_at pos rs)(pos rq \<mapsto> rq)) k = Some r" for r
    using a rq_at_Some [OF a(1), of k r] rq_at_Some [OF a(2), of k r] by (auto simp: image_iff)
  then show "rq_at pos rs' k = ((rq_at pos rs)(pos rq \<mapsto> rq)) k" by (metis option.exhaust)
qed

lemma rq_at_remove: "distinct (map pos rs) \<Longrightarrow> rq \<in> set rs \<Longrightarrow> rq_at pos (remove1 rq rs) = (rq_at pos rs)(pos rq := None)"
proof
  fix k
  assume a: "distinct (map pos rs)" "rq \<in> set rs"
  have d: "distinct rs" using a(1) by (simp add: distinct_map)
  then have b: "distinct (map pos (remove1 rq rs))" using a(1) by (auto simp: distinct_map intro: inj_on_diff)
  have "rq_at pos (remove1 rq rs) k = Some r \<longleftrightarrow> ((rq_at pos rs)(pos rq := None)) k = Some r" for r
    using a d rq_at_Some [OF a(1), of k r] rq_at_Some [OF b, of k r] by (auto simp: set_remove1_eq distinct_map inj_on_def)
  then show "rq_at pos (remove1 rq rs) k = ((rq_at pos rs)(pos rq := None)) k" by (metis option.exhaust)
qed

text \<open>The neighbours of a request.\<close>

lemma back_to_request:
  assumes "0 \<notin> set (map (\<lambda>r. r + off) rs)"
  shows "(if hd0 (map (\<lambda>r. r + off) rs) \<noteq> 0 then hd0 (map (\<lambda>r. r + off) rs) - off else 0) = hd0 rs"
  using assms by (cases rs) (auto simp: hd0_def)

lemma elv_rb_neighbours:
  assumes "sorted_requests off pos s (us @ rq # vs)"
  shows "elv_rb_former_request off rq s = Some (hd0 (rev us))" "elv_rb_latter_request off rq s = Some (hd0 vs)"
proof -
  let ?m = "map (\<lambda>r. r + off)"
  have h: "holds s (?m us @ (rq + off) # ?m vs)" using assms by (simp add: sorted_requests_def)
  have z: "0 \<notin> set (?m (rev us))" "0 \<notin> set (?m vs)" using rb.linked_nodes [OF h] by auto
  show "elv_rb_former_request off rq s = Some (hd0 (rev us))"
    using holds_prev [OF h] back_to_request [OF z(1)] by (simp add: elv_rb_former_request_def rev_map)
  show "elv_rb_latter_request off rq s = Some (hd0 vs)"
    using rb.nxt_law [OF h] back_to_request [OF z(2)] by (simp add: elv_rb_latter_request_def)
qed

subsection \<open>Property of request trees\<close>

text \<open>C13. The requests of an I/O scheduler as a map from sectors: in a tree of requests at different sectors, \<^verbatim>\<open>elv_rb_find\<close> returns the request at the sector or NULL; \<^verbatim>\<open>elv_rb_add\<close> returns the request that is already
  at the sector and leaves the tree alone, and otherwise adds the request, so that a search finds it there and any other search is unchanged; \<^verbatim>\<open>elv_rb_del\<close> of a request in the tree does not reach its
  \<^verbatim>\<open>BUG_ON\<close>, and a search then finds nothing at its sector; \<^verbatim>\<open>elv_rb_former_request\<close> and \<^verbatim>\<open>elv_rb_latter_request\<close> return the neighbours of a request in the order of the sectors, or NULL at the ends.\<close>

theorem elv_rb_refines_map:
  assumes "sorted_requests off pos s rs"
  shows "elv_rb_find off pos sector s = Some (or_null (rq_at pos rs sector))
    \<and> (rq_at pos rs (pos rq) = Some r \<longrightarrow> elv_rb_add off pos rq s = Some (r, s))
    \<and> (rq_at pos rs (pos rq) = None \<and> rq + off \<noteq> 0 \<and> aligned (rq + off) \<and> rs_heap s (rq + off) \<noteq> None \<longrightarrow>
        (\<exists>s' rs'. elv_rb_add off pos rq s = Some (0, s') \<and> sorted_requests off pos s' rs' \<and> rq_at pos rs' = (rq_at pos rs)(pos rq \<mapsto> rq)))
    \<and> (rq \<in> set rs \<longrightarrow> (\<exists>s' rs'. elv_rb_del off rq s = Some s' \<and> sorted_requests off pos s' rs' \<and> rq_at pos rs' = (rq_at pos rs)(pos rq := None)))
    \<and> (rs = us @ rq # vs \<longrightarrow> elv_rb_former_request off rq s = Some (hd0 (rev us)) \<and> elv_rb_latter_request off rq s = Some (hd0 vs))"
proof (intro conjI impI)
  have d: "distinct (map pos rs)" using assms by (simp add: sorted_requests_def)
  show "elv_rb_find off pos sector s = Some (or_null (rq_at pos rs sector))" using elv_rb_find_map [OF assms] .
  show "elv_rb_add off pos rq s = Some (r, s)" if "rq_at pos rs (pos rq) = Some r" using elv_rb_add_taken [OF assms that] .
  show "\<exists>s' rs'. elv_rb_add off pos rq s = Some (0, s') \<and> sorted_requests off pos s' rs' \<and> rq_at pos rs' = (rq_at pos rs)(pos rq \<mapsto> rq)"
    if "rq_at pos rs (pos rq) = None \<and> rq + off \<noteq> 0 \<and> aligned (rq + off) \<and> rs_heap s (rq + off) \<noteq> None"
  proof -
    have n: "pos rq \<notin> pos ` set rs" "rq \<notin> set rs" "rq_at pos rs (pos rq) = None" "rq + off \<noteq> 0" "aligned (rq + off)" "rs_heap s (rq + off) \<noteq> None"
      using that by (auto simp: rq_at_None)
    obtain s' rs' where s': "elv_rb_add off pos rq s = Some (0, s')" "sorted_requests off pos s' rs'" "set rs' = insert rq (set rs)"
      using elv_rb_add_new [OF assms n(3-5,2,6)] by blast
    then show ?thesis using rq_at_insert [OF d _ s'(3) n(1)] by (auto simp: sorted_requests_def)
  qed
  show "\<exists>s' rs'. elv_rb_del off rq s = Some s' \<and> sorted_requests off pos s' rs' \<and> rq_at pos rs' = (rq_at pos rs)(pos rq := None)" if "rq \<in> set rs"
  proof -
    have h: "holds s (map (\<lambda>r. r + off) rs)" "rq + off \<in> set (map (\<lambda>r. r + off) rs)" using assms that by (auto simp: sorted_requests_def)
    show ?thesis using elv_rb_del_map [OF assms that holds_aligned [OF h] holds_heap [OF h]] rq_at_remove [OF d that] by blast
  qed
  show "elv_rb_former_request off rq s = Some (hd0 (rev us))" "elv_rb_latter_request off rq s = Some (hd0 vs)" if "rs = us @ rq # vs"
    using elv_rb_neighbours assms that by blast+
qed

text \<open>Two requests at the addresses 100 and 104, at sectors 16 and 32; the layout offset is \<open>- 96\<close> in this small memory.\<close>

definition pos_example :: "u32 \<Rightarrow> u64" where
  "pos_example r = (if r = 100 then 16 else 32)"

lemma pair_example_requests: "sorted_requests (- 96) pos_example pair_example [100, 104]"
proof -
  have "holds pair_example [4, 8]" unfolding holds_def using pair_example_rep by (intro exI [of _ "Nd True Lf 4 (Nd False Lf 8 Lf)"]) (simp add: rb_tree_def)
  then show ?thesis by (simp add: sorted_requests_def pos_example_def)
qed

theorem elv_rb_refines_map_witness:
  "elv_rb_find (- 96) pos_example 32 pair_example = Some 104 \<and> elv_rb_add (- 96) pos_example 100 pair_example = Some (100, pair_example)
    \<and> (\<exists>s' rs'. elv_rb_del (- 96) 104 pair_example = Some s' \<and> sorted_requests (- 96) pos_example s' rs')
    \<and> elv_rb_former_request (- 96) 104 pair_example = Some 100 \<and> elv_rb_latter_request (- 96) 104 pair_example = Some 0"
proof -
  have "rq_at pos_example [100, 104] 32 = Some 104" "rq_at pos_example [100, 104] (pos_example 100) = Some 100" by (simp_all add: rq_at_def pos_example_def)
  then show ?thesis using elv_rb_refines_map [OF pair_example_requests, of 32 100 100] elv_rb_refines_map [OF pair_example_requests, of 32 104 104 "[100]" "[]"]
    by (auto simp: or_null_def hd0_def)
qed

end
